(* ===== verification/Js_Prelude.thy ===== *)
theory Js_Prelude
  imports Complex_Main "HOL-Library.AList" "HOL-Library.List_Lexorder"
    "HOL-Library.Char_ord" "HOL-Library.Product_Lexorder"
begin

text \<open>
  What every component of the model shares.

  \<^item> JavaScript values: \<open>jsnum\<close> (a number: an exact rational, NaN or an infinity; rounding of
    doubles is not modelled), \<open>jsval\<close> (a value of type \<open>unknown\<close>, as the fail-closed
    validators receive it), own-property reads.
  \<^item> Strings: a JavaScript string is a \<open>string\<close> whose characters are code units below 256;
    \<open>trim\<close>, \<open>toLowerCase\<close>, \<open>String(n)\<close> and the character classes of the regular expressions
    the program tests. Comparison with \<open><\<close> is the lexicographic order of code units.
  \<^item> The insertion-ordered \<open>Map\<close>: the interface \<open>js_map\<close>, provided by association lists with
    distinct keys (\<open>AList.update\<close> keeps the position of a present key and appends a new one, as
    \<open>Map.set\<close> does).
  \<^item> State and exceptions: a computation of type \<open>('e, 's, 'a) sx\<close> returns a value or throws, and
    in both cases leaves a state (a JavaScript exception does not undo the mutations made before
    it). The interface \<open>state_contract\<close> gives the rules by which an invariant and a two-state
    relation pass through sequencing and loops.
\<close>

named_theorems js_simps \<open>unfolding rules for the JavaScript operations of the model\<close>
named_theorems keeps_intros \<open>introduction rules for state contracts\<close>

section \<open>Numbers and values\<close>

datatype jsnum = Fin rat | NaN | PosInf | NegInf

datatype jsval =
    JUndef
  | JNull
  | JBool bool
  | JNum jsnum
  | JStr string
  | JArr "jsval list"
  | JObj "(string \<times> jsval) list"
  | JOther \<comment> \<open>symbols, bigints, functions, class instances\<close>

text \<open>What a path holds that the program stores JSON documents in: nothing, something that cannot be
  read (with the error code), a text that is not JSON, or a document.\<close>

datatype file_content = Missing | Unreadable string | Corrupt | Json jsval

text \<open>\<open>value["k"]\<close> on a plain object: the own property, or \<open>undefined\<close>.\<close>

definition get_prop :: "(string \<times> jsval) list \<Rightarrow> string \<Rightarrow> jsval" where
  "get_prop ps k = (case map_of ps k of None \<Rightarrow> JUndef | Some v \<Rightarrow> v)"

definition js_string :: "jsval \<Rightarrow> string option" where
  "js_string v = (case v of JStr s \<Rightarrow> Some s | _ \<Rightarrow> None)"

definition is_finite_num :: "jsnum \<Rightarrow> bool" where
  "is_finite_num n = (case n of Fin _ \<Rightarrow> True | _ \<Rightarrow> False)"

definition is_integral :: "rat \<Rightarrow> bool" where
  "is_integral q = (of_int (floor q) = q)"

definition is_integer_num :: "jsnum \<Rightarrow> bool" where
  "is_integer_num n = (case n of Fin q \<Rightarrow> is_integral q | _ \<Rightarrow> False)"

definition max_safe_integer :: int where
  "max_safe_integer = 9007199254740991"

definition safe_int :: "jsnum \<Rightarrow> int option" where
  "safe_int n =
     (case n of
        Fin q \<Rightarrow> if is_integral q \<and> \<bar>floor q\<bar> \<le> max_safe_integer then Some (floor q) else None
      | _ \<Rightarrow> None)"

lemma is_integral_of_int [simp]: "is_integral (of_int i)"
  by (simp add: is_integral_def)

lemma is_integral_of_nat [simp]: "is_integral (of_nat n)"
  using is_integral_of_int [of "int n"] by simp

lemma is_integral_of_numeral [simp]: "is_integral (numeral n)"
  using is_integral_of_int [of "numeral n"] by simp

lemma is_integral_01 [simp]: "is_integral 0" "is_integral 1"
  using is_integral_of_int [of 0] is_integral_of_int [of 1] by simp_all

lemma safe_int_of_int [simp]:
  "\<bar>i\<bar> \<le> max_safe_integer \<Longrightarrow> safe_int (Fin (of_int i)) = Some i"
  by (simp add: safe_int_def)

lemma safe_int_Some: "safe_int n = Some i \<Longrightarrow> n = Fin (of_int i) \<and> \<bar>i\<bar> \<le> max_safe_integer"
  by (cases n) (auto simp: safe_int_def is_integral_def split: if_splits)

lemma get_prop_Nil [simp]: "get_prop [] k = JUndef"
  by (simp add: get_prop_def)

lemma get_prop_Cons [simp]: "get_prop ((k', v) # ps) k = (if k' = k then v else get_prop ps k)"
  by (simp add: get_prop_def)

section \<open>Strings\<close>

abbreviation code_unit :: "char \<Rightarrow> nat" where
  "code_unit c \<equiv> of_char c"

definition js_space :: "char \<Rightarrow> bool" where
  "js_space c = (code_unit c \<in> {9, 10, 11, 12, 13, 32, 160})"

definition js_trim :: "string \<Rightarrow> string" where
  "js_trim s = rev (dropWhile js_space (rev (dropWhile js_space s)))"

definition lower_char :: "char \<Rightarrow> char" where
  "lower_char c =
     (case map_of (zip ''ABCDEFGHIJKLMNOPQRSTUVWXYZ'' ''abcdefghijklmnopqrstuvwxyz'') c of
        Some d \<Rightarrow> d
      | None \<Rightarrow>
          if 192 \<le> code_unit c \<and> code_unit c \<le> 222 \<and> code_unit c \<noteq> 215
          then char_of (code_unit c + 32) else c)"

definition js_lower :: "string \<Rightarrow> string" where
  "js_lower s = map lower_char s"

definition control_char :: "char \<Rightarrow> bool" where
  "control_char c = (code_unit c < 32 \<or> code_unit c = 127)"

definition newline_char :: "char \<Rightarrow> bool" where
  "newline_char c = (code_unit c = 10 \<or> code_unit c = 13)"

definition is_digit :: "char \<Rightarrow> bool" where
  "is_digit c = (c \<in> set ''0123456789'')"

definition is_alnum :: "char \<Rightarrow> bool" where
  "is_alnum c =
     (c \<in> set ''0123456789ABCDEFGHIJKLMNOPQRSTUVWXYZabcdefghijklmnopqrstuvwxyz'')"

definition is_hex :: "char \<Rightarrow> bool" where
  "is_hex c = (c \<in> set ''0123456789abcdef'')"

text \<open>\<open>/^[class]{lo,hi}$/\<close>\<close>

definition all_of :: "(char \<Rightarrow> bool) \<Rightarrow> nat \<Rightarrow> nat \<Rightarrow> string \<Rightarrow> bool" where
  "all_of p lo hi s = (lo \<le> length s \<and> length s \<le> hi \<and> list_all p s)"

text \<open>\<open>/^[1-9]\d{0,n}$/\<close>\<close>

fun positive_digits :: "nat \<Rightarrow> string \<Rightarrow> bool" where
  "positive_digits n [] = False"
| "positive_digits n (c # cs) =
     (is_digit c \<and> c \<noteq> CHR ''0'' \<and> length cs \<le> n \<and> list_all is_digit cs)"

lemma alnum_not_control: "is_alnum c \<Longrightarrow> \<not> control_char c"
  by (auto simp: is_alnum_def control_char_def)

lemma hex_not_control: "is_hex c \<Longrightarrow> \<not> control_char c"
  by (auto simp: is_hex_def control_char_def)

lemma digit_not_newline: "is_digit c \<Longrightarrow> \<not> newline_char c"
  by (auto simp: is_digit_def newline_char_def)

lemma control_if_newline: "newline_char c \<Longrightarrow> control_char c"
  by (auto simp: newline_char_def control_char_def)

lemma hex_not_newline: "is_hex c \<Longrightarrow> \<not> newline_char c"
  using hex_not_control control_if_newline by blast

subsection \<open>Decimal numerals\<close>

fun string_of_nat :: "nat \<Rightarrow> string" where
  "string_of_nat n =
     (if n < 10 then [''0123456789'' ! n]
      else string_of_nat (n div 10) @ [''0123456789'' ! (n mod 10)])"

declare string_of_nat.simps [simp del]

definition string_of_int :: "int \<Rightarrow> string" where
  "string_of_int i = (if i < 0 then CHR ''-'' # string_of_nat (nat (- i)) else string_of_nat (nat i))"

definition digit_val :: "char \<Rightarrow> nat" where
  "digit_val c = code_unit c - 48"

definition nat_of_string :: "string \<Rightarrow> nat" where
  "nat_of_string s = foldl (\<lambda>a c. a * 10 + digit_val c) 0 s"

lemma digit_cases:
  assumes "n < 10"
  shows "n = 0 \<or> n = 1 \<or> n = 2 \<or> n = 3 \<or> n = 4 \<or> n = 5 \<or> n = 6 \<or> n = 7 \<or> n = 8 \<or> n = (9::nat)"
  using assms by arith

lemma digit_val_nth: "n < 10 \<Longrightarrow> digit_val (''0123456789'' ! n) = n"
  by (drule digit_cases) (auto simp: digit_val_def)

lemma is_digit_nth: "n < 10 \<Longrightarrow> is_digit (''0123456789'' ! n)"
  by (drule digit_cases) (auto simp: is_digit_def)

lemma nat_of_string_of_nat: "nat_of_string (string_of_nat n) = n"
proof (induction n rule: string_of_nat.induct)
  case (1 n)
  show ?case
  proof (cases "n < 10")
    case True
    then show ?thesis
      by (simp add: nat_of_string_def string_of_nat.simps [of n] digit_val_nth)
  next
    case False
    with 1 have "nat_of_string (string_of_nat (n div 10)) = n div 10" by simp
    then show ?thesis using False
      by (simp add: nat_of_string_def string_of_nat.simps [of n] digit_val_nth)
  qed
qed

lemma string_of_nat_inject [simp]: "string_of_nat m = string_of_nat n \<longleftrightarrow> m = n"
  by (metis nat_of_string_of_nat)

lemma string_of_nat_digits: "list_all is_digit (string_of_nat n)"
proof (induction n rule: string_of_nat.induct)
  case (1 n)
  then show ?case
    by (cases "n < 10") (simp_all add: string_of_nat.simps [of n] is_digit_nth)
qed

lemma string_of_nat_nonempty [simp]: "string_of_nat n \<noteq> []"
  by (subst string_of_nat.simps) simp

lemma minus_not_digit: "\<not> is_digit (CHR ''-'')"
  by (simp add: is_digit_def)

lemma string_of_nat_no_minus: "CHR ''-'' \<notin> set (string_of_nat n)"
  using string_of_nat_digits [of n] minus_not_digit by (auto simp: list_all_iff)

lemma string_of_int_inject [simp]: "string_of_int i = string_of_int j \<longleftrightarrow> i = j"
proof
  assume eq: "string_of_int i = string_of_int j"
  have ne: "CHR ''-'' # s \<noteq> string_of_nat n" "string_of_nat n \<noteq> CHR ''-'' # s" for s n
    using string_of_nat_no_minus [of n] by (metis list.set_intros(1))+
  from eq show "i = j"
    by (cases "i < 0"; cases "j < 0") (auto simp: string_of_int_def ne)
qed simp

lemma string_of_int_no_newline: "c \<in> set (string_of_int i) \<Longrightarrow> \<not> newline_char c"
  using string_of_nat_digits digit_not_newline
  by (auto simp: string_of_int_def list_all_iff newline_char_def split: if_splits)

text \<open>\<open>split(sep)\<close> at a single character.\<close>

fun split_sep :: "'a \<Rightarrow> 'a list \<Rightarrow> 'a list list" where
  "split_sep a [] = [[]]"
| "split_sep a (c # cs) =
     (if c = a then [] # split_sep a cs
      else (case split_sep a cs of [] \<Rightarrow> [[c]] | l # ls \<Rightarrow> (c # l) # ls))"

lemma split_sep_nonempty [simp]: "split_sep a xs \<noteq> []"
  by (induction xs) (auto split: list.splits)

lemma split_sep_free: "a \<notin> set xs \<Longrightarrow> split_sep a xs = [xs]"
  by (induction xs) auto

lemma split_sep_field: "a \<notin> set xs \<Longrightarrow> split_sep a (xs @ a # ys) = xs # split_sep a ys"
  by (induction xs) auto

subsection \<open>Trimming\<close>

lemma js_trim_idem [simp]: "js_trim (js_trim s) = js_trim s"
proof -
  define t where "t = dropWhile js_space s"
  define u where "u = dropWhile js_space (rev t)"
  have u: "dropWhile js_space u = u"
    by (simp add: u_def)
  obtain v where v: "rev t = v @ u"
    unfolding u_def by (metis takeWhile_dropWhile_id)
  have "dropWhile js_space (rev u) = rev u"
  proof (cases "u = []")
    case False
    have "t = rev u @ rev v" using v by (metis rev_append rev_rev_ident)
    with False have "t \<noteq> []" and "hd (rev u) = hd t" by simp_all
    moreover from \<open>t \<noteq> []\<close> have "\<not> js_space (hd t)"
      unfolding t_def by (rule hd_dropWhile)
    ultimately show ?thesis by (simp add: dropWhile_eq_self_iff)
  qed simp
  with u show ?thesis
    by (simp add: js_trim_def t_def [symmetric] u_def [symmetric])
qed

section \<open>The insertion-ordered Map\<close>

text \<open>
  What the program relies on of a JavaScript \<open>Map\<close>: reading after \<open>set\<close> and \<open>delete\<close>, the keys
  in iteration order, and iteration order itself (a present key keeps its place, a new key goes
  last).
\<close>

locale js_map =
  fixes get :: "'m \<Rightarrow> 'k \<Rightarrow> 'v option"
    and put :: "'k \<Rightarrow> 'v \<Rightarrow> 'm \<Rightarrow> 'm"
    and del :: "'k \<Rightarrow> 'm \<Rightarrow> 'm"
    and keys :: "'m \<Rightarrow> 'k list"
    and ok :: "'m \<Rightarrow> bool"
  assumes get_put: "ok m \<Longrightarrow> get (put k v m) k' = (if k' = k then Some v else get m k')"
    and get_del: "ok m \<Longrightarrow> get (del k m) k' = (if k' = k then None else get m k')"
    and get_keys: "ok m \<Longrightarrow> (get m k = None) = (k \<notin> set (keys m))"
    and keys_put: "ok m \<Longrightarrow> keys (put k v m) = (if k \<in> set (keys m) then keys m else keys m @ [k])"
    and ok_put: "ok m \<Longrightarrow> ok (put k v m)"
    and ok_del: "ok m \<Longrightarrow> ok (del k m)"
begin

lemma put_present: "ok m \<Longrightarrow> get m k = Some v0 \<Longrightarrow> keys (put k v m) = keys m"
  using keys_put [of m k v] get_keys [of m k] by auto

lemma put_fresh: "ok m \<Longrightarrow> get m k = None \<Longrightarrow> keys (put k v m) = keys m @ [k]"
  using keys_put [of m k v] get_keys [of m k] by auto

lemma put_other: "ok m \<Longrightarrow> k' \<noteq> k \<Longrightarrow> get (put k v m) k' = get m k'"
  by (simp add: get_put)

lemma fold_put_other:
  assumes "ok m" and "k \<notin> set ks"
  shows "get (fold (\<lambda>x. put x (f x)) ks m) k = get m k"
  using assms by (induction ks arbitrary: m) (auto simp: ok_put get_put)

end

abbreviation map_ok :: "('k \<times> 'v) list \<Rightarrow> bool" where
  "map_ok m \<equiv> distinct (map fst m)"

lemma map_of_update_iff [simp]:
  "map_of (AList.update k v m) k' = (if k' = k then Some v else map_of m k')"
  by (simp add: update_conv')

lemma map_of_delete_iff [simp]:
  "map_of (AList.delete k m) k' = (if k' = k then None else map_of m k')"
  by (simp add: delete_conv')

lemma AList_keys_update:
  "map fst (AList.update k v m) = (if k \<in> set (map fst m) then map fst m else map fst m @ [k])"
  by (induction m) auto

lemma AList_map_ok_update: "map_ok m \<Longrightarrow> map_ok (AList.update k v m)"
  by (simp only: AList_keys_update) simp

lemma AList_map_ok_delete: "map_ok m \<Longrightarrow> map_ok (AList.delete k m)"
  by (simp add: AList.distinct_delete)

interpretation jm: js_map map_of AList.update AList.delete "map fst" map_ok
proof
  fix m :: "('k \<times> 'v) list" and k k' v
  show "map_of (AList.update k v m) k' = (if k' = k then Some v else map_of m k')"
    and "map_of (AList.delete k m) k' = (if k' = k then None else map_of m k')"
    by (simp_all only: map_of_update_iff map_of_delete_iff)
  show "(map_of m k = None) = (k \<notin> set (map fst m))"
    by (simp add: map_of_eq_None_iff)
  show "map fst (AList.update k v m) =
      (if k \<in> set (map fst m) then map fst m else map fst m @ [k])"
    by (rule AList_keys_update)
  assume "map_ok m"
  then show "map_ok (AList.update k v m)" and "map_ok (AList.delete k m)"
    by (rule AList_map_ok_update, rule AList_map_ok_delete)
qed

lemma in_set_map_of: "map_ok m \<Longrightarrow> (k, v) \<in> set m \<longleftrightarrow> map_of m k = Some v"
  by simp

lemma in_values_map_of: "map_ok m \<Longrightarrow> v \<in> snd ` set m \<longleftrightarrow> (\<exists>k. map_of m k = Some v)"
  by (force simp: in_set_map_of [symmetric])

section \<open>State and exceptions\<close>

type_synonym ('e, 's, 'a) sx = "'s \<Rightarrow> ('e + 'a) \<times> 's"

definition ret :: "'a \<Rightarrow> ('e, 's, 'a) sx" where
  "ret x s = (Inr x, s)"

definition throw :: "'e \<Rightarrow> ('e, 's, 'a) sx" where
  "throw e s = (Inl e, s)"

definition bnd :: "('e, 's, 'a) sx \<Rightarrow> ('a \<Rightarrow> ('e, 's, 'b) sx) \<Rightarrow> ('e, 's, 'b) sx" where
  "bnd m k s = (case m s of (Inl e, s') \<Rightarrow> (Inl e, s') | (Inr x, s') \<Rightarrow> k x s')"

definition seqn :: "('e, 's, 'a) sx \<Rightarrow> ('e, 's, 'b) sx \<Rightarrow> ('e, 's, 'b) sx" where
  "seqn m n = bnd m (\<lambda>_. n)"

text \<open>\<open>for (const x of xs) body(x)\<close>: the list is a copy taken before the loop.\<close>

fun for_each :: "'b list \<Rightarrow> ('b \<Rightarrow> ('e, 's, unit) sx) \<Rightarrow> ('e, 's, unit) sx" where
  "for_each [] body = ret ()"
| "for_each (x # xs) body = seqn (body x) (for_each xs body)"

text \<open>A pure call that may throw: \<open>lift_sum\<close> rethrows its error.\<close>

definition lift_sum :: "'e + 'a \<Rightarrow> ('e, 's, 'a) sx" where
  "lift_sum r s = (r, s)"

lemma ret_run [simp]: "ret x s = (Inr x, s)"
  by (simp add: ret_def)

lemma throw_run [simp]: "throw e s = (Inl e, s)"
  by (simp add: throw_def)

lemma lift_sum_run [simp]: "lift_sum r s = (r, s)"
  by (simp add: lift_sum_def)

lemma bnd_Inr: "m s = (Inr x, s') \<Longrightarrow> bnd m k s = k x s'"
  by (simp add: bnd_def)

lemma bnd_Inl: "m s = (Inl e, s') \<Longrightarrow> bnd m k s = (Inl e, s')"
  by (simp add: bnd_def)

lemma seqn_Inr: "m s = (Inr x, s') \<Longrightarrow> seqn m n s = n s'"
  by (simp add: seqn_def bnd_def)

lemma seqn_assoc: "seqn (seqn m n) k = seqn m (seqn n k)"
  by (rule ext) (simp add: seqn_def bnd_def split: prod.split sum.split)

lemma seqn_ret_left: "seqn (ret x) m = m"
  by (rule ext) (simp add: seqn_def bnd_def)

text \<open>
  \<open>runs (m s) Q\<close>: from state \<open>s\<close>, \<open>m\<close> does not throw, and its value and final state satisfy \<open>Q\<close>.
\<close>

definition runs :: "('e + 'a) \<times> 's \<Rightarrow> ('a \<Rightarrow> 's \<Rightarrow> bool) \<Rightarrow> bool" where
  "runs result Q \<longleftrightarrow> (\<exists>x s'. result = (Inr x, s') \<and> Q x s')"

lemma runs_Inr [simp]: "runs (Inr x, s) Q \<longleftrightarrow> Q x s"
  by (simp add: runs_def)

lemma runs_Inl [simp]: "\<not> runs (Inl e, s) Q"
  by (simp add: runs_def)

lemma runs_bnd [simp]: "runs (bnd m k s) Q \<longleftrightarrow> runs (m s) (\<lambda>x s'. runs (k x s') Q)"
  by (auto simp: runs_def bnd_def split: prod.splits sum.splits)

lemma runs_seqn [simp]: "runs (seqn m n s) Q \<longleftrightarrow> runs (m s) (\<lambda>x s'. runs (n s') Q)"
  by (simp add: seqn_def)

lemma runs_mono: "runs result P \<Longrightarrow> (\<And>x s'. P x s' \<Longrightarrow> Q x s') \<Longrightarrow> runs result Q"
  by (auto simp: runs_def)

lemma runs_conj: "runs result P \<Longrightarrow> runs result Q \<Longrightarrow> runs result (\<lambda>x s'. P x s' \<and> Q x s')"
  by (auto simp: runs_def)

text \<open>A loop keeps \<open>P rest\<close>, a property of the elements still to come and the state.\<close>

lemma runs_for_each:
  assumes "P xs s"
    and "\<And>x rest s. P (x # rest) s \<Longrightarrow> runs (body x s) (\<lambda>_. P rest)"
  shows "runs (for_each xs body s) (\<lambda>_. P [])"
  using assms(1)
proof (induction xs arbitrary: s)
  case Nil
  then show ?case by simp
next
  case (Cons x xs)
  from assms(2) [OF Cons.prems] Cons.IH show ?case
    by (auto intro: runs_mono)
qed

text \<open>
  \<open>completes I R m\<close>: started in a state with \<open>I\<close>, \<open>m\<close> does not throw, ends in a state with \<open>I\<close>,
  and the two states are related by \<open>R\<close>.
\<close>

definition completes ::
  "('s \<Rightarrow> bool) \<Rightarrow> ('s \<Rightarrow> 's \<Rightarrow> bool) \<Rightarrow> ('e, 's, 'a) sx \<Rightarrow> bool" where
  "completes I R m \<longleftrightarrow> (\<forall>s. I s \<longrightarrow> (\<exists>x s'. m s = (Inr x, s') \<and> I s' \<and> R s s'))"

lemma completesI:
  "(\<And>s. I s \<Longrightarrow> \<exists>x s'. m s = (Inr x, s') \<and> I s' \<and> R s s') \<Longrightarrow> completes I R m"
  by (simp add: completes_def)

lemma completesD:
  assumes "completes I R m" and "I s"
  obtains x s' where "m s = (Inr x, s')" and "I s'" and "R s s'"
  using assms by (auto simp: completes_def)

locale state_contract =
  fixes inv :: "'s \<Rightarrow> bool" and rel :: "'s \<Rightarrow> 's \<Rightarrow> bool"
  assumes rel_refl: "inv s \<Longrightarrow> rel s s"
    and rel_trans: "rel s t \<Longrightarrow> rel t u \<Longrightarrow> rel s u"
begin

lemma completes_ret: "completes inv rel (ret x)"
  by (simp add: completes_def rel_refl)

lemma completes_bnd:
  assumes "completes inv rel m" and "\<And>x. completes inv rel (k x)"
  shows "completes inv rel (bnd m k)"
proof (rule completesI)
  fix s assume "inv s"
  then obtain x s1 where 1: "m s = (Inr x, s1)" "inv s1" "rel s s1"
    by (rule completesD [OF assms(1)])
  obtain y s2 where 2: "k x s1 = (Inr y, s2)" "inv s2" "rel s1 s2"
    by (rule completesD [OF assms(2) 1(2)])
  from 1 2 show "\<exists>x s'. bnd m k s = (Inr x, s') \<and> inv s' \<and> rel s s'"
    by (auto simp: bnd_Inr intro: rel_trans)
qed

lemma completes_seqn:
  "completes inv rel m \<Longrightarrow> completes inv rel n \<Longrightarrow> completes inv rel (seqn m n)"
  unfolding seqn_def by (rule completes_bnd)

lemma completes_for_each:
  "(\<And>x. x \<in> set xs \<Longrightarrow> completes inv rel (body x)) \<Longrightarrow> completes inv rel (for_each xs body)"
  by (induction xs) (auto intro: completes_ret completes_seqn)

end

section \<open>Event systems\<close>

text \<open>A system driven by events: an invariant that every admissible event keeps holds after any history.\<close>

locale event_system =
  fixes step :: "'e \<Rightarrow> 's \<Rightarrow> 's" and admissible :: "'e \<Rightarrow> bool" and inv :: "'s \<Rightarrow> bool"
  assumes step_inv: "admissible e \<Longrightarrow> inv s \<Longrightarrow> inv (step e s)"
begin

lemma run_inv: "list_all admissible es \<Longrightarrow> inv s \<Longrightarrow> inv (fold step es s)"
  by (induction es arbitrary: s) (auto intro: step_inv)

lemma run_induct:
  assumes "list_all admissible es" and "inv s" and "P s"
    and "\<And>e s. admissible e \<Longrightarrow> inv s \<Longrightarrow> P s \<Longrightarrow> P (step e s)"
  shows "P (fold step es s)"
  using assms(1-3) by (induction es arbitrary: s) (auto intro: step_inv assms(4))

end

end
