(* ===== verification/Jobs.thy ===== *)
theory Jobs
  imports Js_Prelude "HOL-Library.Monad_Syntax"
begin

text \<open>
  The review-job layer: \<^verbatim>\<open>src/events/types.ts\<close> (the canonical event), \<^verbatim>\<open>src/jobs/types.ts\<close> (the
  job), \<^verbatim>\<open>src/jobs/generation.ts\<close> (the generation id and the event-to-job builder),
  \<^verbatim>\<open>src/jobs/schedule.ts\<close> (which events schedule a review) and \<^verbatim>\<open>src/jobs/staleness.ts\<close> (when a
  result may be published). SHA-256 (\<open>node:crypto\<close>) is the parameter \<open>sha\<close>.

  The builder guards hand-built events whose fields may hold values of the wrong type, so the
  guarded event fields and all options are \<open>jsval\<close>.
\<close>

section \<open>Events and jobs\<close>

datatype job_kind = Review | Follow_up

datatype trigger_source = Webhook | Poll | Manual

datatype forge_platform = Github | Forgejo

datatype event_kind =
    Pr_opened | Pr_reopened | Synchronize | Ready_for_review | Rereview_label | Pr_closed
  | Pr_merged | Check_update | Installation_change | Visibility_change | Reconciliation_poll
  | Follow_up_event | Unknown_event

record forge_event =
  ev_platform :: jsval
  ev_source :: trigger_source
  ev_kind :: event_kind
  ev_installationId :: jsval
  ev_repoFullName :: jsval
  ev_prNumber :: jsval
  ev_prId :: jsval
  ev_headSha :: jsval
  ev_baseSha :: jsval
  ev_draft :: bool
  ev_fork :: jsval
  ev_labelName :: string
  ev_actor :: string
  ev_eventReference :: jsval

record review_job =
  jobId :: string
  kind :: job_kind
  trigger :: trigger_source
  reason :: string
  platform :: forge_platform
  installationId :: string
  repoFullName :: string
  prNumber :: int
  prId :: int
  headSha :: string
  baseSha :: string
  configFingerprint :: string
  nonce :: string
  adoptionEpoch :: string
  eventReference :: string
  forgeIntegration :: string
  fork :: bool
  deadlineAtMs :: int
  runId :: string

record build_options =
  opt_configFingerprint :: jsval
  opt_nonce :: jsval
  opt_adoptionEpoch :: jsval
  opt_forgeIntegration :: jsval
  opt_deadlineAtMs :: jsval
  opt_runId :: jsval

fun kind_str :: "job_kind \<Rightarrow> string" where
  "kind_str Review = ''review''"
| "kind_str Follow_up = ''follow_up''"

fun trigger_str :: "trigger_source \<Rightarrow> string" where
  "trigger_str Webhook = ''webhook''"
| "trigger_str Poll = ''poll''"
| "trigger_str Manual = ''manual''"

fun platform_str :: "forge_platform \<Rightarrow> string" where
  "platform_str Github = ''github''"
| "platform_str Forgejo = ''forgejo''"

fun event_kind_str :: "event_kind \<Rightarrow> string" where
  "event_kind_str Pr_opened = ''pr_opened''"
| "event_kind_str Pr_reopened = ''pr_reopened''"
| "event_kind_str Synchronize = ''synchronize''"
| "event_kind_str Ready_for_review = ''ready_for_review''"
| "event_kind_str Rereview_label = ''rereview_label''"
| "event_kind_str Pr_closed = ''pr_closed''"
| "event_kind_str Pr_merged = ''pr_merged''"
| "event_kind_str Check_update = ''check_update''"
| "event_kind_str Installation_change = ''installation_change''"
| "event_kind_str Visibility_change = ''visibility_change''"
| "event_kind_str Reconciliation_poll = ''reconciliation_poll''"
| "event_kind_str Follow_up_event = ''follow_up''"
| "event_kind_str Unknown_event = ''unknown''"

lemma kind_str_inject [simp]: "kind_str a = kind_str b \<longleftrightarrow> a = b"
  by (cases a; cases b) auto

lemma platform_str_inject [simp]: "platform_str a = platform_str b \<longleftrightarrow> a = b"
  by (cases a; cases b) auto

section \<open>The forms of identity values\<close>

text \<open>\<open>INSTALLATION_ID_PATTERN\<close>, \<open>COMMENT_ID_PATTERN\<close> (\<^verbatim>\<open>src/events/normalize.ts\<close>),
  \<open>SHA_PATTERN\<close>, \<open>CONFIG_FINGERPRINT_PATTERN\<close> and \<open>NONCE_PATTERN\<close>.\<close>

definition installation_id_form :: "string \<Rightarrow> bool" where
  "installation_id_form s = positive_digits 31 s"

definition comment_id_form :: "string \<Rightarrow> bool" where
  "comment_id_form s = positive_digits 18 s"

definition sha_form :: "string \<Rightarrow> bool" where
  "sha_form s = all_of is_hex 7 64 s"

definition fingerprint_form :: "string \<Rightarrow> bool" where
  "fingerprint_form s = all_of is_hex 8 64 s"

definition token_char :: "char \<Rightarrow> bool" where
  "token_char c = (is_alnum c \<or> c = CHR ''.'' \<or> c = CHR ''_'' \<or> c = CHR ''-'')"

definition token_form :: "string \<Rightarrow> bool" where
  "token_form s = all_of token_char 1 64 s"

definition normalizeSha :: "string \<Rightarrow> string" where
  "normalizeSha s = js_lower (js_trim s)"

section \<open>The generation id\<close>

record generation_identity =
  gid_platform :: forge_platform
  gid_installationId :: string
  gid_repoFullName :: string
  gid_prNumber :: int
  gid_prId :: int
  gid_headSha :: string
  gid_baseSha :: string
  gid_configFingerprint :: string
  gid_kind :: job_kind
  gid_nonce :: string
  gid_adoptionEpoch :: string
  gid_eventReference :: string
  gid_forgeIntegration :: string

text \<open>\<open>IDENTITY_FIELDS\<close>, in their fixed order, with the values under \<open>String()\<close>.\<close>

definition identity_fields :: "generation_identity \<Rightarrow> (string \<times> string) list" where
  "identity_fields i =
    [(''platform'', platform_str (gid_platform i)),
     (''installationId'', gid_installationId i),
     (''repoFullName'', gid_repoFullName i),
     (''prNumber'', string_of_int (gid_prNumber i)),
     (''prId'', string_of_int (gid_prId i)),
     (''headSha'', gid_headSha i),
     (''baseSha'', gid_baseSha i),
     (''configFingerprint'', gid_configFingerprint i),
     (''kind'', kind_str (gid_kind i)),
     (''nonce'', gid_nonce i),
     (''adoptionEpoch'', gid_adoptionEpoch i),
     (''eventReference'', gid_eventReference i),
     (''forgeIntegration'', gid_forgeIntegration i)]"

definition identity_line :: "string \<times> string \<Rightarrow> string" where
  "identity_line kv = fst kv @ ''='' @ snd kv @ [CHR 0x0A]"

definition canonicalIdentity :: "generation_identity \<Rightarrow> string" where
  "canonicalIdentity i = concat (map identity_line (identity_fields i))"

definition deriveGenerationId :: "(string \<Rightarrow> string) \<Rightarrow> generation_identity \<Rightarrow> string" where
  "deriveGenerationId sha i =
     (if list_ex (\<lambda>kv. list_ex newline_char (snd kv)) (identity_fields i) then ''''
      else sha (canonicalIdentity i))"

section \<open>Building a job from an event\<close>

fun no_job_kind :: "event_kind \<Rightarrow> bool" where
  "no_job_kind Pr_closed = True"
| "no_job_kind Pr_merged = True"
| "no_job_kind Installation_change = True"
| "no_job_kind Visibility_change = True"
| "no_job_kind Unknown_event = True"
| "no_job_kind _ = False"

definition sanitizeRunId :: "jsval \<Rightarrow> string" where
  "sanitizeRunId raw =
     (case raw of
        JStr s \<Rightarrow>
          let t = js_trim s in
          if t = '''' \<or> length t > 128 \<or> list_ex control_char t then '''' else t
      | _ \<Rightarrow> '''')"

text \<open>
  A value that is accepted as a string or as a safe integer, in its string form; anything else
  is refused (\<open>isStringOrNumber\<close>, \<open>Number.isSafeInteger\<close>, \<open>String(...)\<close>).
\<close>

definition string_or_safe_int :: "jsval \<Rightarrow> string option" where
  "string_or_safe_int v =
     (case v of
        JStr s \<Rightarrow> Some s
      | JNum n \<Rightarrow> map_option string_of_int (safe_int n)
      | _ \<Rightarrow> None)"

text \<open>
  The rule for a provided nonce, adoption epoch and forge integration: absent
  (\<open>undefined\<close>, \<open>null\<close>, the empty string) is the empty string, a provided value must have the
  token form, and the string form is what is stored.
\<close>

definition provided_token :: "jsval \<Rightarrow> string option" where
  "provided_token v =
     (if v = JUndef \<or> v = JNull \<or> v = JStr '''' then Some ''''
      else case string_or_safe_int v of
             None \<Rightarrow> None
           | Some s \<Rightarrow> if token_form s then Some s else None)"

definition option_fingerprint :: "jsval \<Rightarrow> string option" where
  "option_fingerprint v =
     (case string_or_safe_int (if v = JUndef \<or> v = JNull then JStr '''' else v) of
        None \<Rightarrow> None
      | Some s \<Rightarrow> if s \<noteq> '''' \<and> \<not> fingerprint_form s then None else Some s)"

definition option_deadline :: "jsval \<Rightarrow> int option" where
  "option_deadline v =
     (case v of
        JUndef \<Rightarrow> Some 0
      | JNull \<Rightarrow> Some 0
      | JNum n \<Rightarrow> (case safe_int n of None \<Rightarrow> None | Some i \<Rightarrow> if i < 0 then None else Some i)
      | _ \<Rightarrow> None)"

definition event_reference :: "job_kind \<Rightarrow> jsval \<Rightarrow> string option" where
  "event_reference k v =
     (case k of
        Review \<Rightarrow> Some ''''
      | Follow_up \<Rightarrow>
          (case string_or_safe_int v of
             None \<Rightarrow> None
           | Some s \<Rightarrow> if comment_id_form s then Some s else None))"

definition event_sha :: "jsval \<Rightarrow> string option" where
  "event_sha v =
     (case v of
        JStr s \<Rightarrow>
          let n = normalizeSha s in if n \<noteq> '''' \<and> \<not> sha_form n then None else Some n
      | _ \<Rightarrow> None)"

definition event_platform :: "jsval \<Rightarrow> forge_platform option" where
  "event_platform v =
     (if v = JStr ''github'' then Some Github
      else if v = JStr ''forgejo'' then Some Forgejo else None)"

definition event_installation :: "jsval \<Rightarrow> string option" where
  "event_installation v =
     (case v of
        JStr s \<Rightarrow> if s \<noteq> '''' \<and> \<not> installation_id_form s then None else Some s
      | _ \<Rightarrow> None)"

definition event_repo :: "jsval \<Rightarrow> string option" where
  "event_repo v = (case v of JStr s \<Rightarrow> if s = '''' then None else Some s | _ \<Rightarrow> None)"

definition event_int :: "int \<Rightarrow> jsval \<Rightarrow> int option" where
  "event_int least v =
     (case v of
        JNum n \<Rightarrow> (case safe_int n of None \<Rightarrow> None | Some i \<Rightarrow> if i < least then None else Some i)
      | _ \<Rightarrow> None)"

definition event_bool :: "jsval \<Rightarrow> bool option" where
  "event_bool v = (case v of JBool b \<Rightarrow> Some b | _ \<Rightarrow> None)"

definition job_kind_of :: "event_kind \<Rightarrow> job_kind" where
  "job_kind_of k = (if k = Follow_up_event then Follow_up else Review)"

definition buildReviewJob ::
  "(string \<Rightarrow> string) \<Rightarrow> forge_event \<Rightarrow> build_options \<Rightarrow> review_job option" where
  "buildReviewJob sha ev opts =
    (let k = job_kind_of (ev_kind ev) in
     if ev_kind ev \<noteq> Follow_up_event \<and> no_job_kind (ev_kind ev) then None
     else do {
       nce \<leftarrow> (if k = Review then provided_token (opt_nonce opts) else Some '''');
       epoch \<leftarrow> provided_token (opt_adoptionEpoch opts);
       integ \<leftarrow> provided_token (opt_forgeIntegration opts);
       eref \<leftarrow> event_reference k (ev_eventReference ev);
       head \<leftarrow> event_sha (ev_headSha ev);
       base \<leftarrow> event_sha (ev_baseSha ev);
       if k = Review \<and> head = '''' then None else do {
         plat \<leftarrow> event_platform (ev_platform ev);
         inst \<leftarrow> event_installation (ev_installationId ev);
         repo \<leftarrow> event_repo (ev_repoFullName ev);
         prn \<leftarrow> event_int 1 (ev_prNumber ev);
         pri \<leftarrow> event_int 0 (ev_prId ev);
         frk \<leftarrow> event_bool (ev_fork ev);
         cfp \<leftarrow> option_fingerprint (opt_configFingerprint opts);
         dl \<leftarrow> option_deadline (opt_deadlineAtMs opts);
         let jid = deriveGenerationId sha
           \<lparr>gid_platform = plat, gid_installationId = inst, gid_repoFullName = repo,
            gid_prNumber = prn, gid_prId = pri, gid_headSha = head, gid_baseSha = base,
            gid_configFingerprint = cfp, gid_kind = k, gid_nonce = nce,
            gid_adoptionEpoch = epoch, gid_eventReference = eref, gid_forgeIntegration = integ\<rparr>;
         if jid = '''' then None
         else Some
           \<lparr>jobId = jid, kind = k, trigger = ev_source ev, reason = event_kind_str (ev_kind ev),
            platform = plat, installationId = inst, repoFullName = repo, prNumber = prn,
            prId = pri, headSha = head, baseSha = base, configFingerprint = cfp, nonce = nce,
            adoptionEpoch = epoch, eventReference = eref, forgeIntegration = integ, fork = frk,
            deadlineAtMs = dl, runId = sanitizeRunId (opt_runId opts)\<rparr>
       }
     })"

text \<open>The identity a job carries: the record \<open>buildReviewJob\<close> hashed.\<close>

definition identity_of :: "review_job \<Rightarrow> generation_identity" where
  "identity_of j =
    \<lparr>gid_platform = platform j, gid_installationId = installationId j,
     gid_repoFullName = repoFullName j, gid_prNumber = prNumber j, gid_prId = prId j,
     gid_headSha = headSha j, gid_baseSha = baseSha j,
     gid_configFingerprint = configFingerprint j, gid_kind = kind j, gid_nonce = nonce j,
     gid_adoptionEpoch = adoptionEpoch j, gid_eventReference = eventReference j,
     gid_forgeIntegration = forgeIntegration j\<rparr>"

section \<open>Scheduling and staleness\<close>

fun scheduled_kind :: "event_kind \<Rightarrow> bool" where
  "scheduled_kind Pr_opened = True"
| "scheduled_kind Pr_reopened = True"
| "scheduled_kind Synchronize = True"
| "scheduled_kind Ready_for_review = True"
| "scheduled_kind Rereview_label = True"
| "scheduled_kind Reconciliation_poll = True"
| "scheduled_kind Check_update = True"
| "scheduled_kind _ = False"

text \<open>\<open>shouldSchedule\<close> reads two fields of the event, \<open>prNumber\<close> (a number) and \<open>kind\<close>.\<close>

definition shouldSchedule :: "jsnum \<Rightarrow> event_kind \<Rightarrow> bool" where
  "shouldSchedule pr k =
     ((case pr of Fin q \<Rightarrow> q > 0 | PosInf \<Rightarrow> True | _ \<Rightarrow> False) \<and> scheduled_kind k)"

definition isResultStale :: "string \<Rightarrow> string \<Rightarrow> bool" where
  "isResultStale resultHeadSha currentHeadSha =
     (let r = normalizeSha resultHeadSha; c = normalizeSha currentHeadSha in
      if \<not> sha_form r \<or> \<not> sha_form c then True else r \<noteq> c)"

definition resultMatchesJob :: "review_job \<Rightarrow> string \<Rightarrow> string \<Rightarrow> bool" where
  "resultMatchesJob j resultHeadSha currentHeadSha =
     (if isResultStale resultHeadSha currentHeadSha then False
      else normalizeSha resultHeadSha = normalizeSha (headSha j))"

definition isExpired :: "review_job \<Rightarrow> jsnum \<Rightarrow> bool" where
  "isExpired j nowMs =
     (if deadlineAtMs j = 0 then False
      else case nowMs of Fin t \<Rightarrow> of_int (deadlineAtMs j) \<le> t | _ \<Rightarrow> True)"

section \<open>The generation id separates identities\<close>

lemma newline_split:
  assumes "\<forall>c \<in> set u. c \<noteq> n" and "\<forall>c \<in> set v. c \<noteq> n"
  shows "u @ n # x = v @ n # y \<longleftrightarrow> u = v \<and> x = y"
  using assms
proof (induction u arbitrary: v)
  case Nil
  then show ?case by (cases v) auto
next
  case (Cons a u)
  then show ?case by (cases v) auto
qed

definition newline_free :: "(string \<times> string) list \<Rightarrow> bool" where
  "newline_free fs = (\<not> list_ex (\<lambda>kv. list_ex newline_char (snd kv)) fs)"

lemma identity_lines_inject:
  assumes "map fst xs = map fst ys" and "newline_free xs" and "newline_free ys"
    and "concat (map identity_line xs) = concat (map identity_line ys)"
  shows "xs = ys"
  using assms
proof (induction xs arbitrary: ys)
  case Nil
  then show ?case by simp
next
  case (Cons x xs)
  then obtain y ys' where ys: "ys = y # ys'" by (cases ys) auto
  obtain k v where x: "x = (k, v)" by (cases x)
  with Cons.prems(1) ys obtain w where y: "y = (k, w)" by (cases y) auto
  have "\<forall>c \<in> set v. c \<noteq> CHR 0x0A" and "\<forall>c \<in> set w. c \<noteq> CHR 0x0A"
    using Cons.prems(2,3) x y ys
    by (auto simp: newline_free_def list_ex_iff newline_char_def)
  moreover have "v @ CHR 0x0A # concat (map identity_line xs) =
      w @ CHR 0x0A # concat (map identity_line ys')"
    using Cons.prems(4) x y ys
    by (simp add: identity_line_def [of "(k, v)"] identity_line_def [of "(k, w)"])
  ultimately have "v = w" and "concat (map identity_line xs) = concat (map identity_line ys')"
    by (simp_all add: newline_split)
  moreover from this(2) have "xs = ys'"
    using Cons.prems ys by (intro Cons.IH) (auto simp: newline_free_def)
  ultimately show ?case using x y ys by simp
qed

lemma identity_fields_inject: "identity_fields i = identity_fields j \<Longrightarrow> i = j"
  by (cases i; cases j) (simp add: identity_fields_def)

lemma identity_fields_keys: "map fst (identity_fields i) = map fst (identity_fields j)"
  by (simp add: identity_fields_def)

lemma canonicalIdentity_inject:
  assumes "newline_free (identity_fields i)" and "newline_free (identity_fields j)"
    and "canonicalIdentity i = canonicalIdentity j"
  shows "i = j"
  using assms identity_fields_keys
  by (intro identity_fields_inject identity_lines_inject) (auto simp: canonicalIdentity_def)

lemma deriveGenerationId_nonempty:
  "deriveGenerationId sha i \<noteq> '''' \<Longrightarrow>
    newline_free (identity_fields i) \<and> deriveGenerationId sha i = sha (canonicalIdentity i)"
  by (auto simp: deriveGenerationId_def newline_free_def split: if_splits)

text \<open>C28: Two identities with the same (non-empty) generation id are the same identity: unless
  SHA-256 collides on their canonical serialisations, no two distinct review generations share
  an id, so a new head, base, configuration, nonce, epoch, comment or job kind is a new job.\<close>

theorem generation_id_separates:
  assumes "deriveGenerationId sha i = deriveGenerationId sha j"
    and "deriveGenerationId sha i \<noteq> ''''"
    and "sha (canonicalIdentity i) = sha (canonicalIdentity j) \<Longrightarrow>
      canonicalIdentity i = canonicalIdentity j"
  shows "i = j"
  using assms deriveGenerationId_nonempty [of sha i] deriveGenerationId_nonempty [of sha j]
  by (intro canonicalIdentity_inject) auto

definition sample_identity :: "string \<Rightarrow> string \<Rightarrow> generation_identity" where
  "sample_identity head base =
    \<lparr>gid_platform = Github, gid_installationId = ''42'', gid_repoFullName = ''o/r'',
     gid_prNumber = 7, gid_prId = 0, gid_headSha = head, gid_baseSha = base,
     gid_configFingerprint = '''', gid_kind = Review, gid_nonce = '''', gid_adoptionEpoch = '''',
     gid_eventReference = '''', gid_forgeIntegration = ''''\<rparr>"

lemma sample_identity_id:
  "deriveGenerationId (\<lambda>s. ''h'' @ s) (sample_identity ''abcdef0'' '''') \<noteq> ''''"
  by (simp add: deriveGenerationId_def sample_identity_def identity_fields_def newline_char_def
      string_of_int_def string_of_nat.simps)

theorem generation_id_separates_witness:
  "sample_identity ''abcdef0'' '''' = sample_identity ''abcdef0'' '''' \<and>
   deriveGenerationId (\<lambda>s. ''h'' @ s) (sample_identity ''abcdef0'' '''') \<noteq>
   deriveGenerationId (\<lambda>s. ''h'' @ s) (sample_identity ''abcdef1'' '''')"
proof -
  note separates = generation_id_separates [of "\<lambda>s. ''h'' @ s", OF _ sample_identity_id]
  have "sample_identity ''abcdef0'' '''' = sample_identity ''abcdef0'' ''''"
    by (rule separates) simp_all
  moreover have "deriveGenerationId (\<lambda>s. ''h'' @ s) (sample_identity ''abcdef0'' '''') \<noteq>
      deriveGenerationId (\<lambda>s. ''h'' @ s) (sample_identity ''abcdef1'' '''')"
  proof
    assume "deriveGenerationId (\<lambda>s. ''h'' @ s) (sample_identity ''abcdef0'' '''') =
      deriveGenerationId (\<lambda>s. ''h'' @ s) (sample_identity ''abcdef1'' '''')"
    then have "sample_identity ''abcdef0'' '''' = sample_identity ''abcdef1'' ''''"
      by (rule separates) simp_all
    then show False by (simp add: sample_identity_def)
  qed
  ultimately show ?thesis by blast
qed

text \<open>The refusal of line breaks in identity values is what makes the serialisation
  unambiguous: without it, two different identities (a head SHA that smuggles a second line,
  and a base SHA that does) serialise to the same bytes; the generation id refuses both.\<close>

theorem newline_guard_needed:
  "\<exists>i j. i \<noteq> j \<and> canonicalIdentity i = canonicalIdentity j \<and>
     deriveGenerationId sha i = '''' \<and> deriveGenerationId sha j = ''''"
proof -
  let ?i = "sample_identity (''x'' @ [CHR 0x0A] @ ''baseSha=b'') ''''"
  let ?j = "sample_identity ''x'' (''b'' @ [CHR 0x0A] @ ''baseSha='')"
  have "?i \<noteq> ?j" and "canonicalIdentity ?i = canonicalIdentity ?j"
    and "deriveGenerationId sha ?i = ''''" and "deriveGenerationId sha ?j = ''''"
    by (simp_all add: sample_identity_def canonicalIdentity_def identity_fields_def
        identity_line_def deriveGenerationId_def newline_char_def)
  then show ?thesis by blast
qed

section \<open>What the builder produces\<close>

definition optional :: "(string \<Rightarrow> bool) \<Rightarrow> string \<Rightarrow> bool" where
  "optional f s \<longleftrightarrow> (s \<noteq> '''' \<longrightarrow> f s)"

definition valid_reference :: "job_kind \<Rightarrow> string \<Rightarrow> bool" where
  "valid_reference k s \<longleftrightarrow> (case k of Review \<Rightarrow> s = '''' | Follow_up \<Rightarrow> comment_id_form s)"

definition run_id_form :: "string \<Rightarrow> bool" where
  "run_id_form s \<longleftrightarrow> js_trim s = s \<and> length s \<le> 128 \<and> \<not> list_ex control_char s"

lemma provided_token_form: "provided_token v = Some s \<Longrightarrow> optional token_form s"
  by (auto simp: provided_token_def optional_def split: if_splits option.splits)

lemma option_fingerprint_form: "option_fingerprint v = Some s \<Longrightarrow> optional fingerprint_form s"
  unfolding option_fingerprint_def optional_def by (auto split: option.splits if_splits)

lemma option_deadline_form:
  "option_deadline v = Some d \<Longrightarrow> 0 \<le> d \<and> d \<le> max_safe_integer"
  by (auto simp: option_deadline_def max_safe_integer_def
      split: jsval.splits option.splits if_splits dest!: safe_int_Some)

lemma event_reference_form: "event_reference k v = Some s \<Longrightarrow> valid_reference k s"
  by (auto simp: event_reference_def valid_reference_def
      split: job_kind.splits option.splits if_splits)

lemma event_sha_form: "event_sha v = Some s \<Longrightarrow> optional sha_form s"
  by (auto simp: event_sha_def Let_def optional_def split: jsval.splits if_splits)

lemma event_installation_form:
  "event_installation v = Some s \<Longrightarrow> optional installation_id_form s"
  by (auto simp: event_installation_def optional_def split: jsval.splits if_splits)

lemma event_repo_form: "event_repo v = Some s \<Longrightarrow> s \<noteq> '''' \<and> v = JStr s"
  by (auto simp: event_repo_def split: jsval.splits if_splits)

lemma event_int_form: "event_int l v = Some i \<Longrightarrow> l \<le> i \<and> i \<le> max_safe_integer"
  by (auto simp: event_int_def split: jsval.splits option.splits if_splits dest!: safe_int_Some)

lemma sanitizeRunId_form: "run_id_form (sanitizeRunId v)"
  by (auto simp: run_id_form_def sanitizeRunId_def Let_def js_trim_def [of "[]"]
      split: jsval.splits)

lemmas builder_forms = provided_token_form option_fingerprint_form option_deadline_form
  event_reference_form event_sha_form event_installation_form event_repo_form event_int_form

text \<open>Everything a built job satisfies, read off the builder's guards.\<close>

definition built_job :: "(string \<Rightarrow> string) \<Rightarrow> forge_event \<Rightarrow> review_job \<Rightarrow> bool" where
  "built_job sha ev j \<longleftrightarrow>
     jobId j = deriveGenerationId sha (identity_of j) \<and> jobId j \<noteq> '''' \<and>
     kind j = job_kind_of (ev_kind ev) \<and> trigger j = ev_source ev \<and>
     reason j = event_kind_str (ev_kind ev) \<and> \<not> no_job_kind (ev_kind ev) \<and>
     optional installation_id_form (installationId j) \<and>
     repoFullName j \<noteq> '''' \<and> ev_repoFullName ev = JStr (repoFullName j) \<and>
     event_int 1 (ev_prNumber ev) = Some (prNumber j) \<and>
     1 \<le> prNumber j \<and> prNumber j \<le> max_safe_integer \<and>
     0 \<le> prId j \<and> prId j \<le> max_safe_integer \<and>
     optional sha_form (headSha j) \<and> \<not> (kind j = Review \<and> headSha j = '''') \<and>
     optional sha_form (baseSha j) \<and> optional fingerprint_form (configFingerprint j) \<and>
     optional token_form (nonce j) \<and> \<not> (kind j = Follow_up \<and> nonce j \<noteq> '''') \<and>
     optional token_form (adoptionEpoch j) \<and> optional token_form (forgeIntegration j) \<and>
     valid_reference (kind j) (eventReference j) \<and>
     0 \<le> deadlineAtMs j \<and> deadlineAtMs j \<le> max_safe_integer \<and>
     run_id_form (runId j)"

lemma buildReviewJob_cases:
  assumes "buildReviewJob sha ev opts = Some j"
  obtains nce epoch integ eref head base plat inst repo prn pri frk cfp dl where
    "\<not> no_job_kind (ev_kind ev)"
    "job_kind_of (ev_kind ev) = Review \<longrightarrow> head \<noteq> ''''"
    "(if job_kind_of (ev_kind ev) = Review then provided_token (opt_nonce opts) else Some '''') =
        Some nce"
    "provided_token (opt_adoptionEpoch opts) = Some epoch"
    "provided_token (opt_forgeIntegration opts) = Some integ"
    "event_reference (job_kind_of (ev_kind ev)) (ev_eventReference ev) = Some eref"
    "event_sha (ev_headSha ev) = Some head" "event_sha (ev_baseSha ev) = Some base"
    "event_installation (ev_installationId ev) = Some inst"
    "event_repo (ev_repoFullName ev) = Some repo"
    "event_int 1 (ev_prNumber ev) = Some prn" "event_int 0 (ev_prId ev) = Some pri"
    "option_fingerprint (opt_configFingerprint opts) = Some cfp"
    "option_deadline (opt_deadlineAtMs opts) = Some dl"
    "jobId j \<noteq> ''''" "jobId j = deriveGenerationId sha (identity_of j)"
    "j = \<lparr>jobId = jobId j, kind = job_kind_of (ev_kind ev), trigger = ev_source ev,
        reason = event_kind_str (ev_kind ev), platform = plat, installationId = inst,
        repoFullName = repo, prNumber = prn, prId = pri, headSha = head, baseSha = base,
        configFingerprint = cfp, nonce = nce, adoptionEpoch = epoch, eventReference = eref,
        forgeIntegration = integ, fork = frk, deadlineAtMs = dl,
        runId = sanitizeRunId (opt_runId opts)\<rparr>"
  using assms
  by (auto simp: buildReviewJob_def Let_def identity_of_def split: if_splits bind_splits)


lemma buildReviewJob_built:
  assumes "buildReviewJob sha ev opts = Some j"
  shows "built_job sha ev j"
proof (rule buildReviewJob_cases [OF assms])
  fix nce epoch integ eref head base plat inst repo prn pri frk cfp dl
  assume g: "\<not> no_job_kind (ev_kind ev)"
    "job_kind_of (ev_kind ev) = Review \<longrightarrow> head \<noteq> ''''"
    and nce: "(if job_kind_of (ev_kind ev) = Review then provided_token (opt_nonce opts)
      else Some '''') = Some nce"
    and steps: "provided_token (opt_adoptionEpoch opts) = Some epoch"
    "provided_token (opt_forgeIntegration opts) = Some integ"
    "event_reference (job_kind_of (ev_kind ev)) (ev_eventReference ev) = Some eref"
    "event_sha (ev_headSha ev) = Some head" "event_sha (ev_baseSha ev) = Some base"
    "event_installation (ev_installationId ev) = Some inst"
    "event_repo (ev_repoFullName ev) = Some repo"
    "event_int 1 (ev_prNumber ev) = Some prn" "event_int 0 (ev_prId ev) = Some pri"
    "option_fingerprint (opt_configFingerprint opts) = Some cfp"
    "option_deadline (opt_deadlineAtMs opts) = Some dl"
    and id: "jobId j \<noteq> ''''" "jobId j = deriveGenerationId sha (identity_of j)"
    and j: "j = \<lparr>jobId = jobId j, kind = job_kind_of (ev_kind ev), trigger = ev_source ev,
        reason = event_kind_str (ev_kind ev), platform = plat, installationId = inst,
        repoFullName = repo, prNumber = prn, prId = pri, headSha = head, baseSha = base,
        configFingerprint = cfp, nonce = nce, adoptionEpoch = epoch, eventReference = eref,
        forgeIntegration = integ, fork = frk, deadlineAtMs = dl,
        runId = sanitizeRunId (opt_runId opts)\<rparr>"
  have nonce: "optional token_form nce \<and> \<not> (job_kind_of (ev_kind ev) = Follow_up \<and> nce \<noteq> '''')"
    using nce by (auto simp: optional_def dest: provided_token_form split: if_splits)
  have fields: "kind j = job_kind_of (ev_kind ev)" "trigger j = ev_source ev"
    "reason j = event_kind_str (ev_kind ev)" "installationId j = inst" "repoFullName j = repo"
    "prNumber j = prn" "prId j = pri" "headSha j = head" "baseSha j = base"
    "configFingerprint j = cfp" "nonce j = nce" "adoptionEpoch j = epoch"
    "eventReference j = eref" "forgeIntegration j = integ" "deadlineAtMs j = dl"
    "runId j = sanitizeRunId (opt_runId opts)"
    by (subst j, simp)+
  show ?thesis
    using g id nonce steps
      builder_forms(1) [OF steps(1)] builder_forms(1) [OF steps(2)]
      builder_forms(4) [OF steps(3)] builder_forms(5) [OF steps(4)] builder_forms(5) [OF steps(5)]
      builder_forms(6) [OF steps(6)] builder_forms(7) [OF steps(7)]
      builder_forms(8) [OF steps(8)] builder_forms(8) [OF steps(9)]
      builder_forms(2) [OF steps(10)] builder_forms(3) [OF steps(11)]
      sanitizeRunId_form [of "opt_runId opts"]
    unfolding built_job_def fields by simp
qed


text \<open>Observations of the same head dedupe: a webhook, a poll and a manual trigger, and any two
  event kinds that schedule a review, build the same job up to the routing metadata (trigger and
  reason); in particular they have the same generation id.\<close>

theorem observation_dedupes:
  assumes "buildReviewJob sha ev opts = Some j"
    and "ev_kind ev \<noteq> Follow_up_event" and "scheduled_kind k"
  shows "buildReviewJob sha (ev\<lparr>ev_source := s, ev_kind := k\<rparr>) opts =
    Some (j\<lparr>trigger := s, reason := event_kind_str k\<rparr>)"
proof -
  have k: "\<not> no_job_kind k" "k \<noteq> Follow_up_event" "job_kind_of k = Review"
    using assms(3) by (cases k; simp add: job_kind_of_def)+
  have "job_kind_of (ev_kind ev) = Review"
    using assms(2) by (simp add: job_kind_of_def)
  with assms(1,2) k show ?thesis
    by (auto simp: buildReviewJob_def Let_def split: if_splits bind_splits)
qed

definition sample_event :: "event_kind \<Rightarrow> forge_event" where
  "sample_event k =
    \<lparr>ev_platform = JStr ''github'', ev_source = Webhook, ev_kind = k,
     ev_installationId = JStr ''42'', ev_repoFullName = JStr ''o/r'',
     ev_prNumber = JNum (Fin 7), ev_prId = JNum (Fin 9),
     ev_headSha = JStr '' ABCDEF0123 '', ev_baseSha = JStr '''', ev_draft = False,
     ev_fork = JBool False, ev_labelName = '''', ev_actor = ''me'',
     ev_eventReference = JNum (Fin 123)\<rparr>"

definition sample_options :: build_options where
  "sample_options =
    \<lparr>opt_configFingerprint = JStr ''0123abcd'', opt_nonce = JUndef, opt_adoptionEpoch = JNum (Fin 0),
     opt_forgeIntegration = JStr ''main.forge'', opt_deadlineAtMs = JUndef,
     opt_runId = JStr '' run-1 ''\<rparr>"

definition sample_sha :: "string \<Rightarrow> string" where
  "sample_sha s = ''abc123''"

definition sample_job :: review_job where
  "sample_job =
    \<lparr>jobId = ''abc123'', kind = Review, trigger = Webhook, reason = ''synchronize'',
     platform = Github, installationId = ''42'', repoFullName = ''o/r'', prNumber = 7, prId = 9,
     headSha = ''abcdef0123'', baseSha = '''', configFingerprint = ''0123abcd'', nonce = '''',
     adoptionEpoch = ''0'', eventReference = '''', forgeIntegration = ''main.forge'',
     fork = False, deadlineAtMs = 0, runId = ''run-1''\<rparr>"

lemma sample_job_built:
  "buildReviewJob sample_sha (sample_event Synchronize) sample_options = Some sample_job"
  by (simp add: buildReviewJob_def sample_event_def sample_options_def sample_job_def
      sample_sha_def Let_def job_kind_of_def provided_token_def string_or_safe_int_def
      safe_int_def max_safe_integer_def token_form_def all_of_def token_char_def is_alnum_def
      event_reference_def event_sha_def normalizeSha_def js_trim_def js_space_def js_lower_def
      lower_char_def sha_form_def is_hex_def event_platform_def event_installation_def
      installation_id_form_def is_digit_def event_repo_def event_int_def event_bool_def
      option_fingerprint_def fingerprint_form_def option_deadline_def deriveGenerationId_def
      identity_fields_def newline_char_def sanitizeRunId_def control_char_def
      string_of_int_def string_of_nat.simps)

theorem observation_dedupes_witness:
  "buildReviewJob sample_sha ((sample_event Synchronize)\<lparr>ev_source := Poll,
      ev_kind := Reconciliation_poll\<rparr>) sample_options =
    Some (sample_job\<lparr>trigger := Poll, reason := ''reconciliation_poll''\<rparr>)"
  using observation_dedupes [OF sample_job_built, of Reconciliation_poll Poll]
  by (simp add: sample_event_def)

text \<open>The scheduler's policy and the builder's own refusal of kinds agree: a review job is only
  ever built for an event that \<open>shouldSchedule\<close> accepts, a follow-up is never scheduled as a
  review, and a follow-up job carries no nonce and a comment id while a review job carries no
  comment id and a head.\<close>

theorem built_job_policy:
  assumes "buildReviewJob sha ev opts = Some j"
  shows "(kind j = Review \<longleftrightarrow> shouldSchedule (Fin (of_int (prNumber j))) (ev_kind ev)) \<and>
    (case kind j of
       Review \<Rightarrow> eventReference j = '''' \<and> sha_form (headSha j)
     | Follow_up \<Rightarrow> nonce j = '''' \<and> comment_id_form (eventReference j) \<and>
         ev_kind ev = Follow_up_event)"
proof -
  from assms have b: "built_job sha ev j" by (rule buildReviewJob_built)
  have k: "kind j = Review \<longleftrightarrow> scheduled_kind (ev_kind ev)"
    using b unfolding built_job_def by (cases "ev_kind ev") (simp_all add: job_kind_of_def)
  from b have pr: "1 \<le> prNumber j" and head: "optional sha_form (headSha j)"
    and rev: "\<not> (kind j = Review \<and> headSha j = '''')" "\<not> (kind j = Follow_up \<and> nonce j \<noteq> '''')"
    and ref: "valid_reference (kind j) (eventReference j)"
    and ev: "kind j = job_kind_of (ev_kind ev)"
    unfolding built_job_def by blast+
  show ?thesis
  proof (cases "kind j")
    case Review
    with k pr head rev(1) ref show ?thesis
      by (simp add: shouldSchedule_def optional_def valid_reference_def)
  next
    case Follow_up
    with ev have "ev_kind ev = Follow_up_event" by (simp add: job_kind_of_def split: if_splits)
    with Follow_up rev(2) ref show ?thesis
      by (simp add: shouldSchedule_def valid_reference_def)
  qed
qed

theorem built_job_policy_witness:
  "kind sample_job = Review \<longleftrightarrow>
    shouldSchedule (Fin (of_int (prNumber sample_job))) (ev_kind (sample_event Synchronize))"
  using built_job_policy [OF sample_job_built] by blast

lemma hex_fixed: "is_hex c \<Longrightarrow> lower_char c = c \<and> \<not> js_space c"
proof -
  have "list_all (\<lambda>c. lower_char c = c \<and> \<not> js_space c) ''0123456789abcdef''"
    by (simp add: lower_char_def js_space_def)
  then show "is_hex c \<Longrightarrow> lower_char c = c \<and> \<not> js_space c"
    unfolding is_hex_def list_all_iff by blast
qed

lemma js_trim_no_space: "list_all (\<lambda>c. \<not> js_space c) s \<Longrightarrow> js_trim s = s"
proof -
  assume s: "list_all (\<lambda>c. \<not> js_space c) s"
  then have "dropWhile js_space s = s" and "dropWhile js_space (rev s) = rev s"
    by (auto simp: dropWhile_eq_self_iff list_all_iff hd_rev)
  then show "js_trim s = s" by (simp add: js_trim_def)
qed

lemma normalizeSha_form [simp]: "sha_form s \<Longrightarrow> normalizeSha s = s"
  using hex_fixed
  by (simp add: sha_form_def all_of_def normalizeSha_def js_lower_def js_trim_no_space
      list_all_iff map_idI)

lemma sha_form_Nil [simp]: "\<not> sha_form ''''"
  by (simp add: sha_form_def all_of_def)

lemma isResultStale_iff:
  "isResultStale r c \<longleftrightarrow> \<not> (sha_form (normalizeSha c) \<and> normalizeSha r = normalizeSha c)"
  by (auto simp: isResultStale_def Let_def)

text \<open>A commit name: 7 to 64 lower-case hexadecimal digits.\<close>

definition commit_name :: "string \<Rightarrow> bool" where
  "commit_name s \<longleftrightarrow> 7 \<le> length s \<and> length s \<le> 64 \<and> set s \<subseteq> set ''0123456789abcdef''"

lemma sha_form_commit_name: "sha_form s \<longleftrightarrow> commit_name s"
  unfolding sha_form_def all_of_def commit_name_def is_hex_def list_all_iff subset_iff Ball_def by (rule refl)

text \<open>C32: The exact-head rule, over the whole path from event to publication. A result is fresh exactly
  when the head it was computed for and the freshly fetched head are, up to surrounding space and
  letter case, one and the same commit name of 7 to 64 hexadecimal digits: with an unknown (empty)
  or malformed head on either side it is stale, also when both are the same text. And a worker's
  result may be published for a built review job exactly when both heads are the job's own.\<close>

theorem publishable_iff_exact_head:
  assumes "buildReviewJob sha ev opts = Some j" and "kind j = Review"
  shows "(resultMatchesJob j r c \<longleftrightarrow> normalizeSha r = headSha j \<and> normalizeSha c = headSha j) \<and>
    (\<not> isResultStale r' c' \<longleftrightarrow>
      commit_name (normalizeSha r') \<and> commit_name (normalizeSha c') \<and> normalizeSha r' = normalizeSha c')"
proof -
  from assms have "sha_form (headSha j)"
    using buildReviewJob_built [OF assms(1)] by (auto simp: built_job_def optional_def)
  then show ?thesis
    by (auto simp: resultMatchesJob_def isResultStale_iff sha_form_commit_name)
qed

theorem publishable_iff_exact_head_witness:
  "resultMatchesJob sample_job ''abcdef0123 '' ''ABCDEF0123'' \<and>
   \<not> resultMatchesJob sample_job ''abcdef0123'' ''abcdef0124'' \<and>
   isResultStale '' '' '''' \<and> isResultStale ''refs/heads/main'' ''refs/heads/main''"
proof -
  have "kind sample_job = Review" by (simp add: sample_job_def)
  note rule = publishable_iff_exact_head [OF sample_job_built this]
  have "normalizeSha ''abcdef0123 '' = headSha sample_job"
    "normalizeSha ''ABCDEF0123'' = headSha sample_job"
    "normalizeSha ''abcdef0124'' \<noteq> headSha sample_job"
    "\<not> commit_name (normalizeSha '' '')" "\<not> commit_name (normalizeSha ''refs/heads/main'')"
    by (simp_all add: normalizeSha_def js_trim_def js_space_def js_lower_def lower_char_def
        sample_job_def commit_name_def)
  then show ?thesis using rule by blast
qed

end
