(* ===== verification/Queue_Types.thy ===== *)
theory Queue_Types
  imports Jobs
begin

text \<open>
  The durable queue's job lifecycle, \<^verbatim>\<open>src/queue/types.ts\<close>: the eight states and their
  transition table, the job record, the scope key under which generations supersede each other,
  the breadth-first search for the legal hops between two states, and the two operations that
  build and move a record. Times are epoch milliseconds (a rational; the clock argument of an
  operation that checks for a finite clock is a \<open>jsnum\<close>).
\<close>

section \<open>States and transitions\<close>

datatype job_state =
    Queued | Starting | Running | Publishing | Completed | Failed | Cancelled | Superseded

fun isActiveState :: "job_state \<Rightarrow> bool" where
  "isActiveState Starting = True"
| "isActiveState Running = True"
| "isActiveState Publishing = True"
| "isActiveState _ = False"

fun isTerminalState :: "job_state \<Rightarrow> bool" where
  "isTerminalState Completed = True"
| "isTerminalState Failed = True"
| "isTerminalState Cancelled = True"
| "isTerminalState Superseded = True"
| "isTerminalState _ = False"

fun transitions :: "job_state \<Rightarrow> job_state list" where
  "transitions Queued = [Starting, Cancelled, Superseded, Failed]"
| "transitions Starting = [Running, Queued, Failed, Cancelled, Superseded]"
| "transitions Running = [Publishing, Queued, Failed, Cancelled, Superseded]"
| "transitions Publishing = [Completed, Queued, Failed, Cancelled, Superseded]"
| "transitions _ = []"

definition canTransition :: "job_state \<Rightarrow> job_state \<Rightarrow> bool" where
  "canTransition x y = (y \<in> set (transitions x))"

subsection \<open>The legal hops between two states\<close>

text \<open>
  \<open>transitionPath\<close>: a breadth-first search. \<open>tp_expand\<close> is the inner loop over the successors
  of the current state (\<open>Inl\<close> is the early return, with the predecessor map), \<open>tp_search\<close> the
  outer loop over the queue, \<open>tp_unwind\<close> the walk back along the predecessor map (its fuel, the
  number of entries of the map, is enough because the walk never meets a key twice). The outer
  loop ends because every round moves states from unseen to the queue and takes one off the queue.
\<close>

type_synonym pred_map = "(job_state \<times> job_state) list"

fun tp_expand :: "job_state \<Rightarrow> job_state \<Rightarrow> job_state list \<Rightarrow>
    job_state list \<Rightarrow> job_state list \<Rightarrow> pred_map \<Rightarrow>
    pred_map + (job_state list \<times> job_state list \<times> pred_map)" where
  "tp_expand goal current [] seen queue cameFrom = Inr (seen, queue, cameFrom)"
| "tp_expand goal current (next_state # rest) seen queue cameFrom =
     (if next_state \<in> set seen then tp_expand goal current rest seen queue cameFrom
      else
        let seen' = next_state # seen; cameFrom' = AList.update next_state current cameFrom in
        if next_state = goal then Inl cameFrom'
        else tp_expand goal current rest seen' (queue @ [next_state]) cameFrom')"

definition all_states :: "job_state list" where
  "all_states = [Queued, Starting, Running, Publishing, Completed, Failed, Cancelled, Superseded]"

definition unseen :: "job_state list \<Rightarrow> nat" where
  "unseen seen = length (filter (\<lambda>s. s \<notin> set seen) all_states)"

lemma all_states_complete: "s \<in> set all_states"
  by (cases s) (auto simp: all_states_def)

lemma unseen_Cons: "s \<notin> set seen \<Longrightarrow> unseen seen = Suc (unseen (s # seen))"
  by (cases s) (simp_all add: unseen_def all_states_def)

lemma tp_expand_measure:
  "tp_expand goal current ns seen queue cameFrom = Inr (seen', queue', cf') \<Longrightarrow>
    length queue' + unseen seen' = length queue + unseen seen"
proof (induction ns arbitrary: seen queue cameFrom)
  case Nil
  then show ?case by simp
next
  case (Cons n ns)
  show ?case
  proof (cases "n \<in> set seen")
    case True
    with Cons show ?thesis by simp
  next
    case False
    with Cons.prems have "n \<noteq> goal" by (auto simp: Let_def)
    with False Cons.prems have "tp_expand goal current ns (n # seen) (queue @ [n])
        (AList.update n current cameFrom) = Inr (seen', queue', cf')"
      by (simp add: Let_def)
    from Cons.IH [OF this] unseen_Cons [OF False] show ?thesis by simp
  qed
qed

fun tp_unwind :: "nat \<Rightarrow> pred_map \<Rightarrow> job_state \<Rightarrow> job_state list \<Rightarrow> job_state list" where
  "tp_unwind 0 cameFrom cursor path = path"
| "tp_unwind (Suc fuel) cameFrom cursor path =
     (case map_of cameFrom cursor of
        None \<Rightarrow> path
      | Some p \<Rightarrow> tp_unwind fuel cameFrom p (p # path))"

function tp_search :: "job_state \<Rightarrow> job_state list \<Rightarrow> job_state list \<Rightarrow> pred_map \<Rightarrow>
    job_state list option" where
  "tp_search goal seen [] cameFrom = None"
| "tp_search goal seen (current # queue) cameFrom =
     (case tp_expand goal current (transitions current) seen queue cameFrom of
        Inl cf \<Rightarrow> Some (tl (tp_unwind (length cf) cf goal [goal]))
      | Inr (seen', queue', cf') \<Rightarrow> tp_search goal seen' queue' cf')"
  by pat_completeness auto
termination
  by (relation "measure (\<lambda>(goal, seen, queue, cf). length queue + unseen seen)")
    (auto dest!: tp_expand_measure)

definition transitionPath :: "job_state \<Rightarrow> job_state \<Rightarrow> job_state list option" where
  "transitionPath x y = (if x = y then Some [] else tp_search y [x] [x] [])"

section \<open>Records\<close>

record job_record =
  job :: review_job
  prKey :: string
  state :: job_state
  enqueuedAtMs :: rat
  readyAtMs :: rat
  attempt :: nat
  nextRetryAtMs :: rat
  leaseOwner :: string
  leaseExpiresAtMs :: rat
  cancelRequested :: bool
  resultHeadSha :: string
  failureReason :: string
  supersededByJobId :: string
  updatedAtMs :: rat

definition prIdentityKey :: "review_job \<Rightarrow> string" where
  "prIdentityKey j =
     platform_str (platform j) @ ''/'' @ installationId j @ ''/'' @ repoFullName j @ ''#'' @
     string_of_int (prNumber j) @ ''/'' @ kind_str (kind j)"

datatype queue_error = Range_error string | Plain_error string

definition newJobRecord :: "review_job \<Rightarrow> jsnum \<Rightarrow> jsnum \<Rightarrow> queue_error + job_record" where
  "newJobRecord j nowMs settleWindowMs =
     (case nowMs of
        Fin now \<Rightarrow>
          (case settleWindowMs of
             Fin settle \<Rightarrow>
               if is_integral settle \<and> 0 \<le> settle then
                 Inr \<lparr>job = j, prKey = prIdentityKey j, state = Queued, enqueuedAtMs = now,
                      readyAtMs = now + settle, attempt = 0, nextRetryAtMs = 0, leaseOwner = '''',
                      leaseExpiresAtMs = 0, cancelRequested = False, resultHeadSha = '''',
                      failureReason = '''', supersededByJobId = '''', updatedAtMs = now\<rparr>
               else Inl (Range_error ''settleWindowMs must be a finite non-negative integer'')
           | _ \<Rightarrow> Inl (Range_error ''settleWindowMs must be a finite non-negative integer''))
      | _ \<Rightarrow> Inl (Range_error ''nowMs must be a finite number''))"

definition withState :: "job_record \<Rightarrow> job_state \<Rightarrow> jsnum \<Rightarrow> queue_error + job_record" where
  "withState r next_state nowMs =
     (case nowMs of
        Fin now \<Rightarrow>
          if canTransition (state r) next_state
          then Inr (r\<lparr>state := next_state, updatedAtMs := now\<rparr>)
          else Inl (Range_error ''illegal state transition'')
      | _ \<Rightarrow> Inl (Range_error ''nowMs must be a finite number''))"

section \<open>The transition table\<close>

lemma canTransition_simps [simp]:
  "canTransition Queued s \<longleftrightarrow> s = Starting \<or> s = Cancelled \<or> s = Superseded \<or> s = Failed"
  "canTransition Starting s \<longleftrightarrow>
    s = Running \<or> s = Queued \<or> s = Failed \<or> s = Cancelled \<or> s = Superseded"
  "canTransition Running s \<longleftrightarrow>
    s = Publishing \<or> s = Queued \<or> s = Failed \<or> s = Cancelled \<or> s = Superseded"
  "canTransition Publishing s \<longleftrightarrow>
    s = Completed \<or> s = Queued \<or> s = Failed \<or> s = Cancelled \<or> s = Superseded"
  "canTransition Completed s \<longleftrightarrow> False"
  "canTransition Failed s \<longleftrightarrow> False"
  "canTransition Cancelled s \<longleftrightarrow> False"
  "canTransition Superseded s \<longleftrightarrow> False"
  by (auto simp: canTransition_def)

lemma terminal_no_transition: "isTerminalState s \<Longrightarrow> \<not> canTransition s t"
  by (cases s) auto

lemma active_not_terminal: "isActiveState s \<Longrightarrow> \<not> isTerminalState s"
  by (cases s) auto

lemma nonterminal_cases: "\<not> isTerminalState s \<longleftrightarrow> s = Queued \<or> isActiveState s"
  by (cases s) auto

lemma active_cases: "isActiveState s \<longleftrightarrow> s = Starting \<or> s = Running \<or> s = Publishing"
  by (cases s) auto

lemma terminal_absorbing: "canTransition\<^sup>*\<^sup>* s t \<Longrightarrow> isTerminalState s \<Longrightarrow> t = s"
  by (induction rule: rtranclp_induct) (auto dest: terminal_no_transition)

text \<open>A path is legal when each hop is allowed by the table.\<close>

fun legal_path :: "job_state \<Rightarrow> job_state list \<Rightarrow> job_state \<Rightarrow> bool" where
  "legal_path x [] y = (x = y)"
| "legal_path x (s # ss) y = (canTransition x s \<and> legal_path s ss y)"

lemma legal_path_rtranclp: "legal_path x p y \<Longrightarrow> canTransition\<^sup>*\<^sup>* x y"
  by (induction p arbitrary: x) (auto intro: converse_rtranclp_into_rtranclp)

lemma transitionPath_legal: "transitionPath x y = Some p \<Longrightarrow> legal_path x p y"
  by (cases x; cases y) (auto simp: transitionPath_def)

lemma transitionPath_nonterminal: "\<not> isTerminalState x \<Longrightarrow> transitionPath x y \<noteq> None"
  by (cases x; cases y) (auto simp: transitionPath_def)

text \<open>\<open>transitionPath\<close> is sound and complete for the transition table: it returns a path exactly
  when the target is reachable, and the path it returns is a sequence of legal transitions that
  ends in the target. A terminal state reaches nothing but itself.\<close>

theorem transitionPath_correct:
  "(\<forall>p. transitionPath x y = Some p \<longrightarrow> legal_path x p y) \<and>
   (transitionPath x y = None \<longleftrightarrow> \<not> canTransition\<^sup>*\<^sup>* x y)"
proof (intro conjI allI impI)
  show "legal_path x p y" if "transitionPath x y = Some p" for p
    using that by (rule transitionPath_legal)
  show "transitionPath x y = None \<longleftrightarrow> \<not> canTransition\<^sup>*\<^sup>* x y"
  proof (cases "isTerminalState x")
    case True
    then have "transitionPath x y = None \<longleftrightarrow> x \<noteq> y"
      by (cases x) (auto simp: transitionPath_def)
    with True show ?thesis using terminal_absorbing [of x y] by auto
  next
    case False
    then obtain p where p: "transitionPath x y = Some p"
      using transitionPath_nonterminal by blast
    then have "canTransition\<^sup>*\<^sup>* x y"
      by (intro legal_path_rtranclp transitionPath_legal)
    with p show ?thesis by simp
  qed
qed

theorem transitionPath_correct_witness:
  "transitionPath Queued Completed = Some [Starting, Running, Publishing, Completed] \<and>
   legal_path Queued [Starting, Running, Publishing, Completed] Completed"
proof -
  have "transitionPath Queued Completed = Some [Starting, Running, Publishing, Completed]"
    by (simp add: transitionPath_def)
  then show ?thesis using transitionPath_correct [of Queued Completed] by blast
qed

lemma withState_Fin:
  "canTransition (state r) s \<Longrightarrow> withState r s (Fin now) = Inr (r\<lparr>state := s, updatedAtMs := now\<rparr>)"
  by (simp add: withState_def)

section \<open>The scope key separates scopes\<close>

lemma positive_digits_all: "positive_digits n s \<Longrightarrow> list_all is_digit s"
  by (cases s) auto

lemma digit_not_sep: "is_digit c \<Longrightarrow> c \<noteq> CHR ''/'' \<and> c \<noteq> CHR ''#''"
  by (auto simp: is_digit_def)

lemma installation_no_slash:
  "s = '''' \<or> installation_id_form s \<Longrightarrow> \<forall>c \<in> set s. c \<noteq> CHR ''/''"
  using digit_not_sep by (fastforce simp: installation_id_form_def list_all_iff dest!: positive_digits_all)

lemma string_of_int_no_hash: "\<forall>c \<in> set (string_of_int i). c \<noteq> CHR ''#''"
  using string_of_nat_digits digit_not_sep
  by (auto simp: string_of_int_def list_all_iff)

lemma kind_str_no_slash: "\<forall>c \<in> set (kind_str k). c \<noteq> CHR ''/''"
  by (cases k) auto

lemma platform_str_no_slash: "\<forall>c \<in> set (platform_str p). c \<noteq> CHR ''/''"
  by (cases p) auto

text \<open>Splitting at the last separator: \<open>newline_split\<close> read backwards.\<close>

lemma last_split:
  assumes "\<forall>c \<in> set u. c \<noteq> n" and "\<forall>c \<in> set v. c \<noteq> n"
  shows "x @ n # u = y @ n # v \<longleftrightarrow> x = y \<and> u = v"
proof -
  have "x @ n # u = y @ n # v \<longleftrightarrow> rev u @ n # rev x = rev v @ n # rev y"
    by (metis append.assoc append_Cons append_Nil rev.simps(2) rev_append rev_rev_ident)
  also have "\<dots> \<longleftrightarrow> rev u = rev v \<and> rev x = rev y"
    using assms by (intro newline_split) auto
  finally show ?thesis by auto
qed

text \<open>Supersession scopes never overlap: two jobs with the same \<open>prIdentityKey\<close> agree on the
  platform, the installation, the repository, the pull request and the kind (whatever characters
  the repository name contains), so a generation can only ever supersede or block a generation
  of the same pull request and kind.\<close>

theorem prIdentityKey_separates:
  assumes "prIdentityKey j = prIdentityKey k"
    and "installationId j = '''' \<or> installation_id_form (installationId j)"
    and "installationId k = '''' \<or> installation_id_form (installationId k)"
  shows "platform j = platform k \<and> installationId j = installationId k \<and>
    repoFullName j = repoFullName k \<and> prNumber j = prNumber k \<and> kind j = kind k"
proof -
  let ?rest = "\<lambda>j. repoFullName j @ CHR ''#'' # string_of_int (prNumber j) @ CHR ''/'' # kind_str (kind j)"
  from assms(1) have "platform j = platform k" and
    "installationId j @ CHR ''/'' # ?rest j = installationId k @ CHR ''/'' # ?rest k"
    by (simp_all add: prIdentityKey_def newline_split platform_str_no_slash)
  moreover from this(2) have "installationId j = installationId k" and rest: "?rest j = ?rest k"
    using assms(2,3) by (simp_all add: newline_split installation_no_slash)
  moreover from rest have
    "(repoFullName j @ CHR ''#'' # string_of_int (prNumber j)) @ CHR ''/'' # kind_str (kind j) =
     (repoFullName k @ CHR ''#'' # string_of_int (prNumber k)) @ CHR ''/'' # kind_str (kind k)"
    by simp
  then have "kind j = kind k" and
    "repoFullName j @ CHR ''#'' # string_of_int (prNumber j) =
     repoFullName k @ CHR ''#'' # string_of_int (prNumber k)"
    by (simp_all add: last_split kind_str_no_slash del: append_assoc)
  ultimately show ?thesis by (simp add: last_split string_of_int_no_hash)
qed

theorem prIdentityKey_separates_witness:
  "prIdentityKey (sample_job\<lparr>repoFullName := ''o/r#7/review''\<rparr>) \<noteq> prIdentityKey sample_job \<and>
   repoFullName sample_job = repoFullName (sample_job\<lparr>headSha := ''''\<rparr>)"
proof -
  have i: "installationId sample_job = '''' \<or> installation_id_form (installationId sample_job)"
    by (simp add: sample_job_def installation_id_form_def is_digit_def)
  have "prIdentityKey (sample_job\<lparr>repoFullName := ''o/r#7/review''\<rparr>) \<noteq> prIdentityKey sample_job"
    using prIdentityKey_separates [of "sample_job\<lparr>repoFullName := ''o/r#7/review''\<rparr>" sample_job] i
    by (auto simp: sample_job_def)
  moreover have "repoFullName sample_job = repoFullName (sample_job\<lparr>headSha := ''''\<rparr>)"
    using prIdentityKey_separates [of sample_job "sample_job\<lparr>headSha := ''''\<rparr>"] i
    by (simp add: prIdentityKey_def)
  ultimately show ?thesis by blast
qed

end
