(* ===== verification/Queue_Store.thy ===== *)
theory Queue_Store
  imports Queue_Types
begin

text \<open>
  The durable snapshot store, \<^verbatim>\<open>src/queue/store.ts\<close>: the fail-closed parser of jobs, records and
  snapshots, the serialiser, the two shipped back ends behind the \<open>QueueStore\<close> seam (in memory,
  and a JSON file replaced atomically), crash-recovery reconciliation, and the lease helpers.

  A snapshot is the list of its records (its version is always 1). JSON text is modelled at the
  level of its value: \<open>JSON.stringify\<close> followed by \<open>JSON.parse\<close> is the identity on the plain
  values \<open>snapshot_js\<close> produces.
\<close>

type_synonym queue_snapshot = "job_record list"

definition emptyQueueSnapshot :: queue_snapshot where
  "emptyQueueSnapshot = []"

section \<open>Validation of untrusted values\<close>

definition check :: "bool \<Rightarrow> unit option" where
  "check b = (if b then Some () else None)"

text \<open>A non-empty string without control characters.\<close>

definition js_text :: "jsval \<Rightarrow> string option" where
  "js_text v =
     (case v of
        JStr s \<Rightarrow> if s = '''' \<or> list_ex control_char s then None else Some s
      | _ \<Rightarrow> None)"

text \<open>A string that is empty or has the given form.\<close>

definition js_form :: "(string \<Rightarrow> bool) \<Rightarrow> jsval \<Rightarrow> string option" where
  "js_form f v = (case v of JStr s \<Rightarrow> if s \<noteq> '''' \<and> \<not> f s then None else Some s | _ \<Rightarrow> None)"

definition js_kind :: "jsval \<Rightarrow> job_kind option" where
  "js_kind v =
     (if v = JStr ''review'' then Some Review
      else if v = JStr ''follow_up'' then Some Follow_up else None)"

definition js_trigger :: "jsval \<Rightarrow> trigger_source option" where
  "js_trigger v =
     (if v = JStr ''webhook'' then Some Webhook
      else if v = JStr ''poll'' then Some Poll
      else if v = JStr ''manual'' then Some Manual else None)"

definition js_reference :: "job_kind \<Rightarrow> jsval \<Rightarrow> string option" where
  "js_reference k v =
     (case v of
        JStr s \<Rightarrow>
          (case k of
             Review \<Rightarrow> if s = '''' then Some s else None
           | Follow_up \<Rightarrow> if comment_id_form s then Some s else None)
      | _ \<Rightarrow> None)"

definition js_run_id :: "jsval \<Rightarrow> string option" where
  "js_run_id v =
     (case v of
        JStr s \<Rightarrow>
          if s \<noteq> '''' \<and> (js_trim s \<noteq> s \<or> length s > 128 \<or> list_ex control_char s)
          then None else Some s
      | _ \<Rightarrow> None)"

definition validateReviewJob :: "jsval \<Rightarrow> review_job option" where
  "validateReviewJob v =
    (case v of
       JObj ps \<Rightarrow> do {
         jid \<leftarrow> js_text (get_prop ps ''jobId'');
         k \<leftarrow> js_kind (get_prop ps ''kind'');
         trg \<leftarrow> js_trigger (get_prop ps ''trigger'');
         rsn \<leftarrow> js_text (get_prop ps ''reason'');
         plat \<leftarrow> event_platform (get_prop ps ''platform'');
         inst \<leftarrow> js_form installation_id_form (get_prop ps ''installationId'');
         repo \<leftarrow> js_text (get_prop ps ''repoFullName'');
         prn \<leftarrow> event_int 1 (get_prop ps ''prNumber'');
         pri \<leftarrow> event_int 0 (get_prop ps ''prId'');
         head \<leftarrow> js_form sha_form (get_prop ps ''headSha'');
         check (\<not> (k = Review \<and> head = ''''));
         base \<leftarrow> js_form sha_form (get_prop ps ''baseSha'');
         cfp \<leftarrow> js_form fingerprint_form (get_prop ps ''configFingerprint'');
         nce \<leftarrow> js_form token_form (get_prop ps ''nonce'');
         check (\<not> (k = Follow_up \<and> nce \<noteq> ''''));
         epoch \<leftarrow> js_form token_form (get_prop ps ''adoptionEpoch'');
         eref \<leftarrow> js_reference k (get_prop ps ''eventReference'');
         integ \<leftarrow> js_form token_form
           (if get_prop ps ''forgeIntegration'' = JUndef then JStr ''''
            else get_prop ps ''forgeIntegration'');
         frk \<leftarrow> event_bool (get_prop ps ''fork'');
         dl \<leftarrow> event_int 0 (get_prop ps ''deadlineAtMs'');
         rid \<leftarrow> js_run_id (get_prop ps ''runId'');
         Some \<lparr>jobId = jid, kind = k, trigger = trg, reason = rsn, platform = plat,
           installationId = inst, repoFullName = repo, prNumber = prn, prId = pri,
           headSha = head, baseSha = base, configFingerprint = cfp, nonce = nce,
           adoptionEpoch = epoch, eventReference = eref, forgeIntegration = integ, fork = frk,
           deadlineAtMs = dl, runId = rid\<rparr>
       }
     | _ \<Rightarrow> None)"

fun state_str :: "job_state \<Rightarrow> string" where
  "state_str Queued = ''queued''"
| "state_str Starting = ''starting''"
| "state_str Running = ''running''"
| "state_str Publishing = ''publishing''"
| "state_str Completed = ''completed''"
| "state_str Failed = ''failed''"
| "state_str Cancelled = ''cancelled''"
| "state_str Superseded = ''superseded''"

definition js_state :: "jsval \<Rightarrow> job_state option" where
  "js_state v = find (\<lambda>s. v = JStr (state_str s)) all_states"

definition js_time :: "jsval \<Rightarrow> rat option" where
  "js_time v = (case v of JNum (Fin q) \<Rightarrow> if 0 \<le> q then Some q else None | _ \<Rightarrow> None)"

definition js_count :: "jsval \<Rightarrow> nat option" where
  "js_count v =
     (case v of
        JNum (Fin q) \<Rightarrow> if is_integral q \<and> 0 \<le> q then Some (nat (floor q)) else None
      | _ \<Rightarrow> None)"

text \<open>\<open>parseJobRecord\<close> together with \<open>normalizeJobRecord\<close>, which rebuilds the checked fields.\<close>

definition parseJobRecord :: "jsval \<Rightarrow> job_record option" where
  "parseJobRecord v =
    (case v of
       JObj ps \<Rightarrow> do {
         j \<leftarrow> validateReviewJob (get_prop ps ''job'');
         key \<leftarrow> js_string (get_prop ps ''prKey'');
         st \<leftarrow> js_state (get_prop ps ''state'');
         enq \<leftarrow> js_time (get_prop ps ''enqueuedAtMs'');
         rdy \<leftarrow> js_time (get_prop ps ''readyAtMs'');
         nxt \<leftarrow> js_time (get_prop ps ''nextRetryAtMs'');
         lexp \<leftarrow> js_time (get_prop ps ''leaseExpiresAtMs'');
         upd \<leftarrow> js_time (get_prop ps ''updatedAtMs'');
         att \<leftarrow> js_count (get_prop ps ''attempt'');
         can \<leftarrow> event_bool (get_prop ps ''cancelRequested'');
         own \<leftarrow> js_string (get_prop ps ''leaseOwner'');
         res \<leftarrow> js_string (get_prop ps ''resultHeadSha'');
         why \<leftarrow> js_string (get_prop ps ''failureReason'');
         sup \<leftarrow> js_string (get_prop ps ''supersededByJobId'');
         Some \<lparr>job = j, prKey = key, state = st, enqueuedAtMs = enq, readyAtMs = rdy,
           attempt = att, nextRetryAtMs = nxt, leaseOwner = own, leaseExpiresAtMs = lexp,
           cancelRequested = can, resultHeadSha = res, failureReason = why,
           supersededByJobId = sup, updatedAtMs = upd\<rparr>
       }
     | _ \<Rightarrow> None)"

definition checkSnapshotEnvelope :: "jsval \<Rightarrow> queue_error + jsval list" where
  "checkSnapshotEnvelope v =
    (case v of
       JObj ps \<Rightarrow>
         if \<not> list_all (\<lambda>k. k = ''version'' \<or> k = ''records'') (map fst ps)
         then Inl (Plain_error ''queue snapshot: unknown top-level key present'')
         else if get_prop ps ''version'' \<noteq> JNum (Fin 1)
         then Inl (Plain_error ''queue snapshot: unsupported version'')
         else (case get_prop ps ''records'' of
                 JArr rs \<Rightarrow> Inr rs
               | _ \<Rightarrow> Inl (Plain_error ''queue snapshot: records must be an array''))
     | _ \<Rightarrow> Inl (Plain_error ''queue snapshot: top-level value must be a plain object''))"

fun parseSnapshotRecords :: "string list \<Rightarrow> jsval list \<Rightarrow> queue_error + job_record list" where
  "parseSnapshotRecords seen [] = Inr []"
| "parseSnapshotRecords seen (v # vs) =
     (case parseJobRecord v of
        None \<Rightarrow> Inl (Plain_error ''queue snapshot: malformed job record'')
      | Some r \<Rightarrow>
          if prKey r \<noteq> prIdentityKey (job r)
          then Inl (Plain_error ''queue snapshot: record prKey inconsistent with its job'')
          else if jobId (job r) \<in> set seen
          then Inl (Plain_error ''queue snapshot: duplicate job id in snapshot'')
          else (case parseSnapshotRecords (jobId (job r) # seen) vs of
                  Inl e \<Rightarrow> Inl e
                | Inr rs \<Rightarrow> Inr (r # rs)))"

definition parseQueueSnapshot :: "jsval \<Rightarrow> queue_error + queue_snapshot" where
  "parseQueueSnapshot v =
     (case checkSnapshotEnvelope v of
        Inl e \<Rightarrow> Inl e
      | Inr raw \<Rightarrow> parseSnapshotRecords [] raw)"

section \<open>Serialisation\<close>

text \<open>A typed job, record or snapshot as the JavaScript object it is; \<open>snapshot_js\<close> is also the
  body \<open>serializeSnapshot\<close> writes.\<close>

definition job_js :: "review_job \<Rightarrow> jsval" where
  "job_js j = JObj
    [(''jobId'', JStr (jobId j)), (''kind'', JStr (kind_str (kind j))),
     (''trigger'', JStr (trigger_str (trigger j))), (''reason'', JStr (reason j)),
     (''platform'', JStr (platform_str (platform j))),
     (''installationId'', JStr (installationId j)), (''repoFullName'', JStr (repoFullName j)),
     (''prNumber'', JNum (Fin (of_int (prNumber j)))), (''prId'', JNum (Fin (of_int (prId j)))),
     (''headSha'', JStr (headSha j)), (''baseSha'', JStr (baseSha j)),
     (''configFingerprint'', JStr (configFingerprint j)), (''nonce'', JStr (nonce j)),
     (''adoptionEpoch'', JStr (adoptionEpoch j)), (''eventReference'', JStr (eventReference j)),
     (''forgeIntegration'', JStr (forgeIntegration j)), (''fork'', JBool (fork j)),
     (''deadlineAtMs'', JNum (Fin (of_int (deadlineAtMs j)))), (''runId'', JStr (runId j))]"

definition record_js :: "job_record \<Rightarrow> jsval" where
  "record_js r = JObj
    [(''job'', job_js (job r)), (''prKey'', JStr (prKey r)), (''state'', JStr (state_str (state r))),
     (''enqueuedAtMs'', JNum (Fin (enqueuedAtMs r))), (''readyAtMs'', JNum (Fin (readyAtMs r))),
     (''attempt'', JNum (Fin (of_nat (attempt r)))),
     (''nextRetryAtMs'', JNum (Fin (nextRetryAtMs r))), (''leaseOwner'', JStr (leaseOwner r)),
     (''leaseExpiresAtMs'', JNum (Fin (leaseExpiresAtMs r))),
     (''cancelRequested'', JBool (cancelRequested r)), (''resultHeadSha'', JStr (resultHeadSha r)),
     (''failureReason'', JStr (failureReason r)),
     (''supersededByJobId'', JStr (supersededByJobId r)),
     (''updatedAtMs'', JNum (Fin (updatedAtMs r)))]"

definition snapshot_js :: "queue_snapshot \<Rightarrow> jsval" where
  "snapshot_js rs = JObj [(''version'', JNum (Fin 1)), (''records'', JArr (map record_js rs))]"

section \<open>Leases\<close>

definition leaseIsValid :: "job_record \<Rightarrow> string \<Rightarrow> jsnum \<Rightarrow> bool" where
  "leaseIsValid r owner nowMs =
     (case nowMs of
        Fin now \<Rightarrow>
          if owner = '''' then False
          else if leaseOwner r = '''' \<or> leaseOwner r \<noteq> owner then False
          else leaseExpiresAtMs r > now
      | _ \<Rightarrow> False)"

definition withRenewedLease ::
  "job_record \<Rightarrow> string \<Rightarrow> jsnum \<Rightarrow> jsnum \<Rightarrow> queue_error + job_record" where
  "withRenewedLease r owner nowMs ttlMs =
     (case nowMs of
        Fin now \<Rightarrow>
          (case ttlMs of
             Fin ttl \<Rightarrow>
               if ttl \<le> 0 then Inl (Range_error ''ttlMs must be a finite positive number'')
               else if owner = ''''
               then Inl (Range_error ''withRenewedLease: owner must be a non-empty string'')
               else Inr (r\<lparr>leaseOwner := owner, leaseExpiresAtMs := now + ttl, updatedAtMs := now\<rparr>)
           | _ \<Rightarrow> Inl (Range_error ''ttlMs must be a finite positive number''))
      | _ \<Rightarrow> Inl (Range_error ''nowMs must be a finite number''))"

section \<open>Crash recovery\<close>

text \<open>What reconciliation does to one record.\<close>

datatype recovery = Untouched | Kept_publishing | Requeued | Failed_limit

definition lease_gone :: "job_record \<Rightarrow> rat \<Rightarrow> bool" where
  "lease_gone r now =
     (leaseOwner r = '''' \<or> leaseExpiresAtMs r = 0 \<or> leaseExpiresAtMs r \<le> now)"

definition recovery_of :: "rat \<Rightarrow> nat \<Rightarrow> job_record \<Rightarrow> recovery" where
  "recovery_of now maxAttempts r =
     (if \<not> isActiveState (state r) then Untouched
      else if \<not> lease_gone r now then Untouched
      else if state r = Publishing \<and> resultHeadSha r \<noteq> '''' then Kept_publishing
      else if attempt r < maxAttempts then Requeued
      else Failed_limit)"

definition recover_record :: "rat \<Rightarrow> nat \<Rightarrow> job_record \<Rightarrow> job_record" where
  "recover_record now maxAttempts r =
     (case recovery_of now maxAttempts r of
        Untouched \<Rightarrow> r
      | Kept_publishing \<Rightarrow> r\<lparr>leaseOwner := '''', leaseExpiresAtMs := 0, updatedAtMs := now\<rparr>
      | Requeued \<Rightarrow>
          r\<lparr>state := Queued, readyAtMs := now, nextRetryAtMs := 0, leaseOwner := '''',
            leaseExpiresAtMs := 0, cancelRequested := False, updatedAtMs := now\<rparr>
      | Failed_limit \<Rightarrow>
          r\<lparr>state := Failed, failureReason := ''lease-expired-attempt-limit'', leaseOwner := '''',
            leaseExpiresAtMs := 0, updatedAtMs := now\<rparr>)"

definition reconcileRecoveredSnapshot ::
  "queue_snapshot \<Rightarrow> jsnum \<Rightarrow> jsnum \<Rightarrow>
    queue_error + (queue_snapshot \<times> string list \<times> string list)" where
  "reconcileRecoveredSnapshot snapshot nowMs maxAttempts =
     (case nowMs of
        Fin now \<Rightarrow>
          (case maxAttempts of
             Fin m \<Rightarrow>
               if \<not> is_integral m \<or> m < 1
               then Inl (Range_error ''maxAttempts must be a positive integer'')
               else (case parseQueueSnapshot (snapshot_js snapshot) of
                       Inl e \<Rightarrow> Inl e
                     | Inr _ \<Rightarrow>
                         let n = nat (floor m);
                             ids = (\<lambda>what. sort (map (\<lambda>r. jobId (job r))
                               (filter (\<lambda>r. recovery_of now n r = what) snapshot)))
                         in Inr (map (recover_record now n) snapshot, ids Requeued,
                              ids Failed_limit))
           | _ \<Rightarrow> Inl (Range_error ''maxAttempts must be a positive integer''))
      | _ \<Rightarrow> Inl (Range_error ''nowMs must be a finite number''))"

section \<open>Valid jobs, records and snapshots\<close>

text \<open>The typed reading of the validator: what a job must satisfy to survive the store.\<close>

definition valid_text :: "string \<Rightarrow> bool" where
  "valid_text s \<longleftrightarrow> s \<noteq> '''' \<and> \<not> list_ex control_char s"

definition valid_job :: "review_job \<Rightarrow> bool" where
  "valid_job j \<longleftrightarrow>
     valid_text (jobId j) \<and> valid_text (reason j) \<and>
     optional installation_id_form (installationId j) \<and> valid_text (repoFullName j) \<and>
     1 \<le> prNumber j \<and> prNumber j \<le> max_safe_integer \<and>
     0 \<le> prId j \<and> prId j \<le> max_safe_integer \<and>
     optional sha_form (headSha j) \<and> \<not> (kind j = Review \<and> headSha j = '''') \<and>
     optional sha_form (baseSha j) \<and> optional fingerprint_form (configFingerprint j) \<and>
     optional token_form (nonce j) \<and> \<not> (kind j = Follow_up \<and> nonce j \<noteq> '''') \<and>
     optional token_form (adoptionEpoch j) \<and> valid_reference (kind j) (eventReference j) \<and>
     optional token_form (forgeIntegration j) \<and>
     0 \<le> deadlineAtMs j \<and> deadlineAtMs j \<le> max_safe_integer \<and>
     optional run_id_form (runId j)"

definition valid_record :: "job_record \<Rightarrow> bool" where
  "valid_record r \<longleftrightarrow>
     valid_job (job r) \<and> prKey r = prIdentityKey (job r) \<and> 0 \<le> enqueuedAtMs r \<and> 0 \<le> readyAtMs r \<and>
     0 \<le> nextRetryAtMs r \<and> 0 \<le> leaseExpiresAtMs r \<and> 0 \<le> updatedAtMs r"

definition record_id :: "job_record \<Rightarrow> string" where
  "record_id r = jobId (job r)"

definition valid_snapshot :: "queue_snapshot \<Rightarrow> bool" where
  "valid_snapshot rs \<longleftrightarrow> list_all valid_record rs \<and> distinct (map record_id rs)"

lemma js_text_JStr: "js_text (JStr s) = (if valid_text s then Some s else None)"
  by (simp add: js_text_def valid_text_def)

lemma js_form_JStr: "js_form f (JStr s) = (if optional f s then Some s else None)"
  by (simp add: js_form_def optional_def)

lemma js_kind_str [simp]: "js_kind (JStr (kind_str k)) = Some k"
  by (cases k) (simp_all add: js_kind_def)

lemma js_trigger_str [simp]: "js_trigger (JStr (trigger_str t)) = Some t"
  by (cases t) (simp_all add: js_trigger_def)

lemma event_platform_str [simp]: "event_platform (JStr (platform_str p)) = Some p"
  by (cases p) (simp_all add: event_platform_def)

lemma js_state_str [simp]: "js_state (JStr (state_str s)) = Some s"
  by (cases s) (simp_all add: js_state_def all_states_def)

lemma event_int_of_int:
  "event_int l (JNum (Fin (of_int i))) =
    (if l \<le> i \<and> \<bar>i\<bar> \<le> max_safe_integer then Some i else None)"
  by (auto simp: event_int_def safe_int_def)

lemma js_time_Fin: "js_time (JNum (Fin q)) = (if 0 \<le> q then Some q else None)"
  by (simp add: js_time_def)

lemma js_count_of_nat [simp]: "js_count (JNum (Fin (of_nat n))) = Some n"
  by (simp add: js_count_def)

lemma check_bind: "Option.bind (check b) f = (if b then f () else None)"
  by (simp add: check_def)

lemma if_bind:
  "Option.bind (if b then Some x else None) f = (if b then f x else None)"
  by simp

lemma js_reference_JStr:
  "js_reference k (JStr s) = (if valid_reference k s then Some s else None)"
  by (simp add: js_reference_def valid_reference_def split: job_kind.split)

lemma js_run_id_JStr:
  "js_run_id (JStr s) = (if optional run_id_form s then Some s else None)"
  by (auto simp: js_run_id_def optional_def run_id_form_def)

lemmas js_decode = js_text_JStr js_form_JStr event_int_of_int js_time_Fin js_reference_JStr
  js_run_id_JStr check_bind if_bind event_bool_def js_string_def

lemma validateReviewJob_job_js:
  "validateReviewJob (job_js j) = (if valid_job j then Some j else None)"
proof -
  have ifs: "(if a then (if b then x else None) else None) = (if a \<and> b then x else None)"
    for a b and x :: "review_job option"
    by simp
  have abs: "l \<le> i \<and> \<bar>i\<bar> \<le> max_safe_integer \<longleftrightarrow> l \<le> i \<and> i \<le> max_safe_integer"
    if "0 \<le> l" for l i :: int
    using that by auto
  show ?thesis
    by (simp add: validateReviewJob_def job_js_def js_decode ifs abs valid_job_def
        del: if_split cong: if_cong)
qed

lemma parseJobRecord_record_js:
  "parseJobRecord (record_js r) =
    (if valid_job (job r) \<and> 0 \<le> enqueuedAtMs r \<and> 0 \<le> readyAtMs r \<and> 0 \<le> nextRetryAtMs r \<and>
        0 \<le> leaseExpiresAtMs r \<and> 0 \<le> updatedAtMs r then Some r else None)"
proof -
  have ifs: "(if a then (if b then x else None) else None) = (if a \<and> b then x else None)"
    for a b and x :: "job_record option"
    by simp
  show ?thesis
    by (simp add: parseJobRecord_def record_js_def js_decode validateReviewJob_job_js ifs
        del: if_split cong: if_cong)
qed

lemma parseJobRecord_consistent:
  "prKey r = prIdentityKey (job r) \<Longrightarrow>
    parseJobRecord (record_js r) = (if valid_record r then Some r else None)"
  by (simp add: parseJobRecord_record_js valid_record_def)

lemma parseSnapshotRecords_Cons_js:
  "parseSnapshotRecords seen (record_js r # vs) = Inr rs' \<longleftrightarrow>
    valid_record r \<and> record_id r \<notin> set seen \<and>
    (\<exists>rs. parseSnapshotRecords (record_id r # seen) vs = Inr rs \<and> rs' = r # rs)"
proof (cases "valid_record r")
  case True
  then have "prKey r = prIdentityKey (job r)" by (simp add: valid_record_def)
  with True show ?thesis
    by (auto simp: parseJobRecord_consistent record_id_def split: sum.split)
next
  case False
  then show ?thesis
    by (auto simp: parseJobRecord_record_js valid_record_def split: if_splits)
qed

lemma parseSnapshotRecords_js:
  "parseSnapshotRecords seen (map record_js rs) = Inr rs' \<longleftrightarrow>
    rs' = rs \<and> list_all valid_record rs \<and> distinct (map record_id rs) \<and>
    (\<forall>r \<in> set rs. record_id r \<notin> set seen)"
proof (induction rs arbitrary: seen rs')
  case Nil
  then show ?case by auto
next
  case (Cons r rs)
  have "record_id r \<notin> record_id ` set rs \<longleftrightarrow> (\<forall>x \<in> set rs. record_id x \<noteq> record_id r)"
    by (metis image_iff)
  then show ?case
    by (simp add: parseSnapshotRecords_Cons_js Cons.IH del: parseSnapshotRecords.simps) blast
qed

lemma checkSnapshotEnvelope_js: "checkSnapshotEnvelope (snapshot_js rs) = Inr (map record_js rs)"
  by (simp add: checkSnapshotEnvelope_def snapshot_js_def)

lemma parseQueueSnapshot_js:
  "parseQueueSnapshot (snapshot_js rs) = Inr rs' \<longleftrightarrow> valid_snapshot rs \<and> rs' = rs"
  by (auto simp: parseQueueSnapshot_def checkSnapshotEnvelope_js valid_snapshot_def
      parseSnapshotRecords_js)

text \<open>Everything the parser accepts from an untrusted value is valid.\<close>

lemma js_accepts:
  "js_text v = Some s \<Longrightarrow> valid_text s"
  "js_form f v = Some s \<Longrightarrow> optional f s"
  "event_int l v = Some i \<Longrightarrow> l \<le> i \<and> i \<le> max_safe_integer"
  "js_time v = Some t \<Longrightarrow> 0 \<le> t"
  "js_reference k v = Some s \<Longrightarrow> valid_reference k s"
  "js_run_id v = Some s \<Longrightarrow> optional run_id_form s"
  by (auto simp: js_text_def valid_text_def js_form_def optional_def js_time_def js_reference_def
      valid_reference_def js_run_id_def run_id_form_def
      split: jsval.splits jsnum.splits if_splits job_kind.splits dest: event_int_form)

lemma check_Some [simp]: "check b = Some u \<longleftrightarrow> b"
  by (simp add: check_def)

lemma validateReviewJob_valid:
  assumes "validateReviewJob v = Some j"
  shows "valid_job j"
proof -
  obtain ps where v: "v = JObj ps"
    using assms by (cases v) (auto simp: validateReviewJob_def)
  show ?thesis
    using assms unfolding v validateReviewJob_def valid_job_def
    by (clarsimp simp: bind_eq_Some_conv dest!: js_accepts)
qed

lemma js_count_state:
  "js_state v = Some s \<Longrightarrow> v = JStr (state_str s)"
  by (auto simp: js_state_def find_Some_iff)

lemma parseJobRecord_valid:
  assumes "parseJobRecord v = Some r" and "prKey r = prIdentityKey (job r)"
  shows "valid_record r"
proof -
  obtain ps where v: "v = JObj ps"
    using assms by (cases v) (auto simp: parseJobRecord_def)
  show ?thesis
    using assms unfolding v parseJobRecord_def valid_record_def
    by (clarsimp simp: bind_eq_Some_conv dest!: js_accepts(4) validateReviewJob_valid)
qed

lemma parseSnapshotRecords_valid:
  "parseSnapshotRecords seen vs = Inr rs \<Longrightarrow>
    list_all valid_record rs \<and> distinct (map record_id rs) \<and> (\<forall>r \<in> set rs. record_id r \<notin> set seen)"
proof (induction vs arbitrary: seen rs)
  case Nil
  then show ?case by simp
next
  case (Cons v vs)
  from Cons.prems obtain r rs' where
    r: "parseJobRecord v = Some r" "prKey r = prIdentityKey (job r)" "record_id r \<notin> set seen"
    and rest: "parseSnapshotRecords (record_id r # seen) vs = Inr rs'" and rs: "rs = r # rs'"
    by (auto simp: record_id_def split: option.splits if_splits sum.splits)
  from Cons.IH [OF rest] r rs show ?case
    by (auto simp: parseJobRecord_valid)
qed

lemma parseQueueSnapshot_valid: "parseQueueSnapshot v = Inr rs \<Longrightarrow> valid_snapshot rs"
  by (auto simp: parseQueueSnapshot_def valid_snapshot_def split: sum.splits
      dest: parseSnapshotRecords_valid)

text \<open>C31: The snapshot parser is fail-closed and loses nothing: whatever value it is given, a
  snapshot it accepts has only valid records, each with the scope key of its own job and no two
  with the same generation id, and serialising an accepted snapshot and parsing it again gives
  back exactly that snapshot. A snapshot that is not valid cannot be written at all.\<close>

theorem snapshot_roundtrip:
  "(\<forall>v rs. parseQueueSnapshot v = Inr rs \<longrightarrow>
      valid_snapshot rs \<and> parseQueueSnapshot (snapshot_js rs) = Inr rs) \<and>
   (\<forall>rs. \<not> valid_snapshot rs \<longrightarrow> (\<exists>e. parseQueueSnapshot (snapshot_js rs) = Inl e))"
proof (intro conjI allI impI)
  fix v rs assume "parseQueueSnapshot v = Inr rs"
  then show "valid_snapshot rs" by (rule parseQueueSnapshot_valid)
  then show "parseQueueSnapshot (snapshot_js rs) = Inr rs" by (simp add: parseQueueSnapshot_js)
next
  fix rs assume "\<not> valid_snapshot rs"
  then show "\<exists>e. parseQueueSnapshot (snapshot_js rs) = Inl e"
    by (cases "parseQueueSnapshot (snapshot_js rs)") (auto simp: parseQueueSnapshot_js)
qed

lemma sample_job_valid: "valid_job sample_job"
  by (simp add: valid_job_def sample_job_def valid_text_def optional_def control_char_def
      installation_id_form_def is_digit_def max_safe_integer_def sha_form_def all_of_def
      is_hex_def fingerprint_form_def token_form_def token_char_def is_alnum_def
      valid_reference_def run_id_form_def js_trim_def js_space_def)

definition sample_record :: job_record where
  "sample_record =
    \<lparr>job = sample_job, prKey = prIdentityKey sample_job, state = Queued, enqueuedAtMs = 5,
     readyAtMs = 15, attempt = 0, nextRetryAtMs = 0, leaseOwner = '''', leaseExpiresAtMs = 0,
     cancelRequested = False, resultHeadSha = '''', failureReason = '''',
     supersededByJobId = '''', updatedAtMs = 5\<rparr>"

lemma sample_record_valid: "valid_record sample_record"
  by (simp add: valid_record_def sample_record_def sample_job_valid)

theorem snapshot_roundtrip_witness:
  "valid_snapshot [sample_record] \<and>
   parseQueueSnapshot (snapshot_js [sample_record]) = Inr [sample_record] \<and>
   (\<exists>e. parseQueueSnapshot (snapshot_js [sample_record, sample_record]) = Inl e)"
proof -
  have "parseQueueSnapshot (snapshot_js [sample_record]) = Inr [sample_record]"
    by (simp add: parseQueueSnapshot_js valid_snapshot_def sample_record_valid)
  moreover have "\<not> valid_snapshot [sample_record, sample_record]"
    by (simp add: valid_snapshot_def)
  ultimately show ?thesis using snapshot_roundtrip by blast
qed

text \<open>What the builder produces, the store accepts: a job built from an event whose repository
  name has no control character survives validation unchanged (given that the digest is a
  non-empty string without control characters, as a hex digest is).\<close>

theorem built_job_accepted:
  assumes "buildReviewJob sha ev opts = Some j"
    and "\<not> list_ex control_char (repoFullName j)"
    and "\<not> list_ex control_char (jobId j)"
  shows "validateReviewJob (job_js j) = Some j"
proof -
  from assms(1) have b: "built_job sha ev j" by (rule buildReviewJob_built)
  have rsn: "valid_text (event_kind_str k)" for k
    by (cases k) (simp_all add: valid_text_def control_char_def)
  from b have "reason j = event_kind_str (ev_kind ev)" "jobId j \<noteq> ''''" "repoFullName j \<noteq> ''''"
    "run_id_form (runId j)"
    unfolding built_job_def by blast+
  then have "valid_text (reason j)" "valid_text (jobId j)" "valid_text (repoFullName j)"
    "optional run_id_form (runId j)"
    using assms(2,3) rsn by (simp_all add: valid_text_def [of "jobId j"]
        valid_text_def [of "repoFullName j"] optional_def)
  with b have "valid_job j"
    unfolding built_job_def valid_job_def by blast
  then show ?thesis by (simp add: validateReviewJob_job_js)
qed

theorem built_job_accepted_witness:
  "validateReviewJob (job_js sample_job) = Some sample_job"
  by (rule built_job_accepted [OF sample_job_built])
    (simp_all add: sample_job_def control_char_def)

section \<open>The store seam and its two back ends\<close>

text \<open>
  The contract of \<open>QueueStore\<close>: a refused snapshot changes nothing; a successful save is what
  the next load returns, unless the save was \<open>torn\<close>; and whatever a save does, the old snapshot,
  the new one or, after a torn save, an error is what is loaded next. \<open>'o\<close> is the outcome of
  the file operations of one save, \<open>torn\<close> the outcomes against which the back end does not
  protect the data.
\<close>

definition torn_file :: queue_error where
  "torn_file = Plain_error ''corrupt (unparseable JSON)''"

locale queue_store =
  fixes load :: "'s \<Rightarrow> queue_error + queue_snapshot"
    and save :: "'o \<Rightarrow> queue_snapshot \<Rightarrow> (queue_error, 's, unit) sx"
    and torn :: "'o \<Rightarrow> bool"
  assumes save_refuses: "\<not> valid_snapshot rs \<Longrightarrow> \<exists>e. save io rs s = (Inl e, s)"
    and save_ok: "save io rs s = (Inr (), s') \<Longrightarrow> \<not> torn io \<Longrightarrow> load s' = Inr rs"
    and save_leaves: "save io rs s = (r, s') \<Longrightarrow>
      load s' = load s \<or> load s' = Inr rs \<or> torn io \<and> load s' = Inl torn_file"
begin

lemma save_valid: "save io rs s = (Inr (), s') \<Longrightarrow> valid_snapshot rs"
  using save_refuses [of rs io s] by auto

lemma save_either:
  "load (snd (save io rs s)) = load s \<or> load (snd (save io rs s)) = Inr rs \<or>
    torn io \<and> load (snd (save io rs s)) = Inl torn_file"
  using save_leaves [of io rs s "fst (save io rs s)" "snd (save io rs s)"] by simp

text \<open>A history of saves, each of which may fail (the caller goes on with the next).\<close>

lemma save_history:
  "load (fold (\<lambda>(io, rs) s. snd (save io rs s)) hist s) \<in> {load s} \<union> Inr ` snd ` set hist \<or>
    (\<exists>h \<in> set hist. torn (fst h)) \<and>
      load (fold (\<lambda>(io, rs) s. snd (save io rs s)) hist s) = Inl torn_file"
proof (induction hist arbitrary: s)
  case Nil
  then show ?case by simp
next
  case (Cons h hist)
  obtain io rs where h: "h = (io, rs)" by (cases h)
  from Cons [of "snd (save io rs s)"] save_either [of io rs s] show ?case
    by (auto simp: h)
qed

end

subsection \<open>In memory\<close>

definition mem_load :: "queue_snapshot \<Rightarrow> queue_error + queue_snapshot" where
  "mem_load current = Inr current"

definition mem_save :: "queue_snapshot \<Rightarrow> (queue_error, queue_snapshot, unit) sx" where
  "mem_save rs current =
     (case parseQueueSnapshot (snapshot_js rs) of
        Inl e \<Rightarrow> (Inl e, current)
      | Inr good \<Rightarrow> (Inr (), good))"

interpretation mem: queue_store mem_load "\<lambda>_ :: unit. mem_save" "\<lambda>_. False"
proof
  fix rs s s' r and io :: unit
  show "\<not> valid_snapshot rs \<Longrightarrow> \<exists>e. mem_save rs s = (Inl e, s)"
    by (cases "parseQueueSnapshot (snapshot_js rs)") (auto simp: mem_save_def parseQueueSnapshot_js)
  show "mem_save rs s = (Inr (), s') \<Longrightarrow> \<not> False \<Longrightarrow> mem_load s' = Inr rs"
    by (auto simp: mem_save_def mem_load_def parseQueueSnapshot_js split: sum.splits)
  show "mem_save rs s = (r, s') \<Longrightarrow>
      mem_load s' = mem_load s \<or> mem_load s' = Inr rs \<or> False \<and> mem_load s' = Inl torn_file"
    by (auto simp: mem_save_def mem_load_def parseQueueSnapshot_js split: sum.splits)
qed

subsection \<open>The JSON file\<close>

text \<open>
  The file system as \<open>JsonFileQueueStore\<close> sees it: the target path and its temporary sibling.
  \<open>io\<close> says how each file operation of a save ends: it does its work, it fails with an error
  code, or, for the one \<open>writeSync\<close>, it is \<open>Short\<close>: it stores fewer bytes than it was given
  and reports that number, which the source does not look at. The bytes stored stop before the
  closing brace, so they do not parse; a write that loses the final newline alone reads back
  like a whole one and counts as \<open>Done\<close>. A failure after the temporary file exists removes it
  and rethrows; a failing fsync of the directory is ignored for \<open>EPERM\<close> and \<open>EINVAL\<close> and
  rethrown otherwise (the rename has then already happened).
\<close>

record file_system =
  target :: file_content
  temp :: file_content

datatype io_step = Open_tmp | Write_tmp | Fsync_tmp | Close_tmp | Rename_tmp | Sync_dir

datatype io_outcome = Done | Fails string | Short

type_synonym io_faults = "io_step \<Rightarrow> io_outcome"

definition io_do :: "io_faults \<Rightarrow> io_step \<Rightarrow> (file_system \<Rightarrow> file_system) \<Rightarrow>
    (string, file_system, unit) sx" where
  "io_do io step f fs =
     (case io step of Fails code \<Rightarrow> (Inl code, fs) | Done \<Rightarrow> (Inr (), f fs) | Short \<Rightarrow> (Inr (), f fs))"

definition sync_dir :: "io_faults \<Rightarrow> (string, file_system, unit) sx" where
  "sync_dir io fs =
     (case io Sync_dir of
        Fails code \<Rightarrow> if code \<noteq> ''EPERM'' \<and> code \<noteq> ''EINVAL'' then (Inl code, fs) else (Inr (), fs)
      | Done \<Rightarrow> (Inr (), fs)
      | Short \<Rightarrow> (Inr (), fs))"

text \<open>What the temporary file holds once \<open>writeSync\<close> has returned.\<close>

definition written :: "io_faults \<Rightarrow> jsval \<Rightarrow> file_content" where
  "written io body = (if io Write_tmp = Short then Corrupt else Json body)"

fun run_steps :: "io_faults \<Rightarrow> (io_step \<times> (file_system \<Rightarrow> file_system)) list \<Rightarrow>
    (string, file_system, unit) sx" where
  "run_steps io [] = ret ()"
| "run_steps io ((step, f) # rest) = seqn (io_do io step f) (run_steps io rest)"

definition write_steps :: "io_faults \<Rightarrow> jsval \<Rightarrow> (io_step \<times> (file_system \<Rightarrow> file_system)) list" where
  "write_steps io body =
     [(Open_tmp, \<lambda>fs. fs\<lparr>temp := Corrupt\<rparr>), (Write_tmp, \<lambda>fs. fs\<lparr>temp := written io body\<rparr>),
      (Fsync_tmp, id), (Close_tmp, id),
      (Rename_tmp, \<lambda>fs. fs\<lparr>target := temp fs, temp := Missing\<rparr>)]"

definition write_file :: "io_faults \<Rightarrow> jsval \<Rightarrow> (string, file_system, unit) sx" where
  "write_file io body = seqn (run_steps io (write_steps io body)) (sync_dir io)"

definition json_save :: "io_faults \<Rightarrow> queue_snapshot \<Rightarrow> (queue_error, file_system, unit) sx" where
  "json_save io rs fs =
     (case parseQueueSnapshot (snapshot_js rs) of
        Inl e \<Rightarrow> (Inl e, fs)
      | Inr good \<Rightarrow>
          (case write_file io (snapshot_js good) fs of
             (Inl code, fs') \<Rightarrow> (Inl (Plain_error code), fs'\<lparr>temp := Missing\<rparr>)
           | (Inr u, fs') \<Rightarrow> (Inr u, fs')))"

definition json_load :: "file_system \<Rightarrow> queue_error + queue_snapshot" where
  "json_load fs =
     (case target fs of
        Missing \<Rightarrow> Inr emptyQueueSnapshot
      | Unreadable code \<Rightarrow> Inl (Plain_error code)
      | Corrupt \<Rightarrow> Inl torn_file
      | Json v \<Rightarrow> parseQueueSnapshot v)"

text \<open>The states of the file system that the steps go through: the process may die in any of
  them, with no clean-up.\<close>

fun visited :: "io_faults \<Rightarrow> (io_step \<times> (file_system \<Rightarrow> file_system)) list \<Rightarrow>
    file_system \<Rightarrow> file_system list" where
  "visited io [] fs = [fs]"
| "visited io ((step, f) # rest) fs =
     fs # (case io step of Fails code \<Rightarrow> [] | Done \<Rightarrow> visited io rest (f fs)
           | Short \<Rightarrow> visited io rest (f fs))"

lemma json_load_target: "target fs = target fs' \<Longrightarrow> json_load fs = json_load fs'"
  by (simp add: json_load_def)

lemma io_do_seqn:
  "seqn (io_do io step f) n =
    (\<lambda>fs. case io step of Fails code \<Rightarrow> (Inl code, fs) | Done \<Rightarrow> n (f fs) | Short \<Rightarrow> n (f fs))"
  by (rule ext) (simp add: seqn_def bnd_def io_do_def split: io_outcome.split)

lemma write_file_target:
  "write_file io body fs = (r, fs') \<Longrightarrow>
    (target fs' = target fs \<and> r \<noteq> Inr ()) \<or> target fs' = written io body"
  unfolding write_file_def write_steps_def run_steps.simps seqn_assoc seqn_ret_left
  unfolding io_do_seqn
  by (auto simp: sync_dir_def split: io_outcome.splits if_splits)

text \<open>A save none of whose file operations fails.\<close>

definition unfailing :: "io_faults \<Rightarrow> bool" where
  "unfailing io \<longleftrightarrow> (\<forall>step \<in> set [Open_tmp, Write_tmp, Fsync_tmp, Close_tmp, Rename_tmp, Sync_dir].
     case io step of Fails code \<Rightarrow> False | _ \<Rightarrow> True)"

lemma write_file_unfailing:
  "unfailing io \<Longrightarrow> write_file io body fs = (Inr (), \<lparr>target = written io body, temp = Missing\<rparr>)"
  unfolding write_file_def write_steps_def run_steps.simps seqn_assoc seqn_ret_left
  unfolding io_do_seqn
  by (auto simp: unfailing_def sync_dir_def split: io_outcome.splits)

lemma json_load_written:
  "valid_snapshot rs \<Longrightarrow> target fs = written io (snapshot_js rs) \<Longrightarrow>
    json_load fs = (if io Write_tmp = Short then Inl torn_file else Inr rs)"
  by (simp add: json_load_def written_def parseQueueSnapshot_js)

lemma json_save_invalid: "\<not> valid_snapshot rs \<Longrightarrow> \<exists>e. json_save io rs fs = (Inl e, fs)"
  by (cases "parseQueueSnapshot (snapshot_js rs)") (simp_all add: json_save_def parseQueueSnapshot_js)

lemma json_save_unfailing:
  "valid_snapshot rs \<Longrightarrow> unfailing io \<Longrightarrow>
    json_save io rs fs = (Inr (), \<lparr>target = written io (snapshot_js rs), temp = Missing\<rparr>)"
  by (simp add: json_save_def parseQueueSnapshot_js [THEN iffD2] write_file_unfailing)

lemma json_save_cases:
  assumes "json_save io rs fs = (r, fs')"
  obtains (refused) e where "\<not> valid_snapshot rs" "r = Inl e" "fs' = fs"
  | (kept) e where "valid_snapshot rs" "r = Inl e" "target fs' = target fs" "temp fs' = Missing"
  | (replaced) "valid_snapshot rs" "target fs' = written io (snapshot_js rs)"
proof (cases "valid_snapshot rs")
  case False
  then show thesis using json_save_invalid [of rs io fs] assms refused by auto
next
  case True
  then have p: "parseQueueSnapshot (snapshot_js rs) = Inr rs" by (simp add: parseQueueSnapshot_js)
  obtain w fs1 where w: "write_file io (snapshot_js rs) fs = (w, fs1)" by fastforce
  have run: "json_save io rs fs =
      (case w of Inl code \<Rightarrow> (Inl (Plain_error code), fs1\<lparr>temp := Missing\<rparr>)
       | Inr u \<Rightarrow> (Inr u, fs1))"
    by (simp add: json_save_def p w split: sum.split)
  from write_file_target [OF w] show thesis
  proof
    assume "target fs1 = target fs \<and> w \<noteq> Inr ()"
    moreover from this obtain code where "w = Inl code" by (cases w) auto
    ultimately have "r = Inl (Plain_error code)" "fs' = fs1\<lparr>temp := Missing\<rparr>" "target fs1 = target fs"
      using assms unfolding run by simp_all
    then show thesis by (intro kept [OF True]) simp_all
  next
    assume "target fs1 = written io (snapshot_js rs)"
    moreover have "target fs' = target fs1"
      using assms unfolding run by (cases w) auto
    ultimately show thesis by (intro replaced [OF True]) simp
  qed
qed

interpretation json: queue_store json_load json_save "\<lambda>io. io Write_tmp = Short"
proof
  fix rs s s' r and io :: io_faults
  show "\<not> valid_snapshot rs \<Longrightarrow> \<exists>e. json_save io rs s = (Inl e, s)"
    by (rule json_save_invalid)
  show "json_save io rs s = (Inr (), s') \<Longrightarrow> io Write_tmp \<noteq> Short \<Longrightarrow> json_load s' = Inr rs"
    by (erule json_save_cases) (auto simp: json_load_written)
  show "json_save io rs s = (r, s') \<Longrightarrow>
      json_load s' = json_load s \<or> json_load s' = Inr rs \<or>
      io Write_tmp = Short \<and> json_load s' = Inl torn_file"
    by (erule json_save_cases) (auto simp: json_load_written intro: json_load_target)
qed

lemma visited_target:
  "fs' \<in> set (visited io (write_steps io body) fs) \<Longrightarrow>
    target fs' = target fs \<or> target fs' = written io body"
  by (auto simp: write_steps_def split: io_outcome.splits)


definition sample_fs :: file_system where
  "sample_fs = \<lparr>target = Missing, temp = Missing\<rparr>"


section \<open>What recovery guarantees\<close>

definition holds_result :: "job_record \<Rightarrow> bool" where
  "holds_result r \<longleftrightarrow> state r = Publishing \<and> resultHeadSha r \<noteq> ''''"

text \<open>The possible outcomes of recovery for one record, in terms of the record alone.\<close>

definition recovered_ok :: "rat \<Rightarrow> nat \<Rightarrow> job_record \<Rightarrow> job_record \<Rightarrow> bool" where
  "recovered_ok now m r r' \<longleftrightarrow>
     job r' = job r \<and> prKey r' = prKey r \<and> attempt r' = attempt r \<and>
     enqueuedAtMs r' = enqueuedAtMs r \<and> resultHeadSha r' = resultHeadSha r \<and>
     (state r' = state r \<or> canTransition (state r) (state r') \<and> state r' \<in> {Queued, Failed}) \<and>
     (\<not> isActiveState (state r) \<longrightarrow> r' = r) \<and>
     (holds_result r \<longrightarrow> holds_result r') \<and>
     (isActiveState (state r') \<longrightarrow>
        holds_result r' \<or> (leaseOwner r' \<noteq> '''' \<and> now < leaseExpiresAtMs r')) \<and>
     (isActiveState (state r) \<and> state r' = Queued \<longrightarrow> attempt r < m) \<and>
     (isActiveState (state r) \<and> state r' = Failed \<longrightarrow> m \<le> attempt r)"

lemma reconcile_Inr:
  "reconcileRecoveredSnapshot rs (Fin now) (Fin (of_nat m)) = Inr (rs', requeued, failed) \<longleftrightarrow>
    1 \<le> m \<and> valid_snapshot rs \<and> rs' = map (recover_record now m) rs \<and>
    requeued = sort (map record_id (filter (\<lambda>r. recovery_of now m r = Requeued) rs)) \<and>
    failed = sort (map record_id (filter (\<lambda>r. recovery_of now m r = Failed_limit) rs))"
proof -
  have "(of_nat m :: rat) < 1 \<longleftrightarrow> m < 1"
    using of_nat_less_iff [of m 1, where 'a = rat] by simp
  moreover have "parseQueueSnapshot (snapshot_js rs) = Inr rs" if "valid_snapshot rs"
    using that by (simp add: parseQueueSnapshot_js)
  moreover have "\<exists>e. parseQueueSnapshot (snapshot_js rs) = Inl e" if "\<not> valid_snapshot rs"
    using that by (cases "parseQueueSnapshot (snapshot_js rs)") (simp_all add: parseQueueSnapshot_js)
  ultimately show ?thesis
    by (cases "valid_snapshot rs")
      (auto simp: reconcileRecoveredSnapshot_def Let_def record_id_def [abs_def])
qed

lemma recover_record_id [simp]: "record_id (recover_record now m r) = record_id r"
  by (simp add: record_id_def recover_record_def split: recovery.split)

lemma recover_record_valid: "valid_record r \<Longrightarrow> 0 \<le> now \<Longrightarrow> valid_record (recover_record now m r)"
  by (simp add: valid_record_def recover_record_def split: recovery.split)

lemma recover_record_ok:
  assumes "0 \<le> leaseExpiresAtMs r"
  shows "recovered_ok now m r (recover_record now m r)"
proof (cases "recovery_of now m r")
  case Untouched
  with assms show ?thesis
    by (auto simp: recovered_ok_def recover_record_def recovery_of_def lease_gone_def holds_result_def
        split: if_splits)
next
  case Kept_publishing
  then show ?thesis
    by (auto simp: recovered_ok_def recover_record_def recovery_of_def holds_result_def
        split: if_splits)
next
  case Requeued
  then have "canTransition (state r) Queued"
    by (auto simp: recovery_of_def active_cases split: if_splits)
  with Requeued show ?thesis
    by (auto simp: recovered_ok_def recover_record_def recovery_of_def holds_result_def
        split: if_splits)
next
  case Failed_limit
  then have "canTransition (state r) Failed"
    by (auto simp: recovery_of_def active_cases split: if_splits)
  with Failed_limit show ?thesis
    by (auto simp: recovered_ok_def recover_record_def recovery_of_def holds_result_def
        split: if_splits)
qed

text \<open>C27: Crash recovery is safe. From a valid snapshot it produces, in the same order and with the
  same jobs and attempts, a valid snapshot in which every record kept its state or took one legal
  transition, to \<open>queued\<close> or \<open>failed\<close>; records that were not active are untouched, a record that holds its durable result still holds
  it (it is never requeued or failed), every other active record has an owner with a live lease,
  and an abandoned record is requeued only while it has attempts left and failed only when it has
  none; the two reported lists are sorted, without repetition, and name exactly the records that
  were requeued and failed.\<close>

theorem recovery_safe:
  assumes "reconcileRecoveredSnapshot rs (Fin now) (Fin (of_nat m)) = Inr (rs', requeued, failed)"
    and "0 \<le> now"
  shows "valid_snapshot rs' \<and> list_all2 (recovered_ok now m) rs rs' \<and>
    sorted requeued \<and> distinct requeued \<and> sorted failed \<and> distinct failed \<and>
    set requeued = {record_id r' | r r'. (r, r') \<in> set (zip rs rs') \<and>
      isActiveState (state r) \<and> state r' = Queued} \<and>
    set failed = {record_id r' | r r'. (r, r') \<in> set (zip rs rs') \<and>
      isActiveState (state r) \<and> state r' = Failed}"
proof -
  from assms(1) have rs: "valid_snapshot rs" and rs': "rs' = map (recover_record now m) rs"
    and req: "requeued = sort (map record_id (filter (\<lambda>r. recovery_of now m r = Requeued) rs))"
    and fld: "failed = sort (map record_id (filter (\<lambda>r. recovery_of now m r = Failed_limit) rs))"
    by (simp_all add: reconcile_Inr)
  have "map record_id rs' = map record_id rs"
    by (simp add: rs')
  moreover have "list_all valid_record rs'"
    using rs assms(2) by (auto simp: rs' valid_snapshot_def list_all_iff recover_record_valid)
  ultimately have v: "valid_snapshot rs'"
    using rs by (simp add: valid_snapshot_def)
  have ok: "list_all2 (recovered_ok now m) rs rs'"
    using rs by (auto simp: rs' list_all2_map2 list_all2_same valid_snapshot_def list_all_iff
        valid_record_def intro!: recover_record_ok)
  have zips: "{record_id r' | r r'. (r, r') \<in> set (zip rs rs') \<and> P r r'} =
      record_id ` {r \<in> set rs. P r (recover_record now m r)}" for P
  proof -
    have "set (zip rs rs') = (\<lambda>r. (r, recover_record now m r)) ` set rs"
      by (simp add: rs' zip_map2 zip_same_conv_map image_image)
    then show ?thesis by (force simp: image_iff)
  qed
  have "recovery_of now m r = Requeued \<longleftrightarrow>
      isActiveState (state r) \<and> state (recover_record now m r) = Queued" for r
    by (auto simp: recovery_of_def recover_record_def active_cases split: if_splits)
  moreover have "recovery_of now m r = Failed_limit \<longleftrightarrow>
      isActiveState (state r) \<and> state (recover_record now m r) = Failed" for r
    by (auto simp: recovery_of_def recover_record_def active_cases split: if_splits)
  ultimately have sets: "set requeued = {record_id r' | r r'. (r, r') \<in> set (zip rs rs') \<and>
      isActiveState (state r) \<and> state r' = Queued}"
    "set failed = {record_id r' | r r'. (r, r') \<in> set (zip rs rs') \<and>
      isActiveState (state r) \<and> state r' = Failed}"
    unfolding zips by (simp_all add: req fld)
  have "distinct (map record_id (filter P rs))" for P
    using rs by (simp add: valid_snapshot_def distinct_map_filter)
  with v ok sets show ?thesis by (simp add: req fld)
qed

theorem recovery_safe_witness:
  "\<exists>rs'. reconcileRecoveredSnapshot
     [sample_record\<lparr>state := Running, attempt := 1, leaseOwner := ''w'', leaseExpiresAtMs := 7\<rparr>]
     (Fin 9) (Fin (of_nat 3)) = Inr (rs', [jobId sample_job], []) \<and>
   valid_snapshot rs' \<and> state (hd rs') = Queued"
proof -
  let ?r = "sample_record\<lparr>state := Running, attempt := 1, leaseOwner := ''w'', leaseExpiresAtMs := 7\<rparr>"
  have v: "valid_snapshot [?r]"
    by (simp add: valid_snapshot_def valid_record_def sample_job_valid sample_record_def)
  have r: "reconcileRecoveredSnapshot [?r] (Fin 9) (Fin (of_nat 3)) =
      Inr ([recover_record 9 3 ?r], [jobId sample_job], [])"
    using v unfolding reconcile_Inr
    by (simp add: recovery_of_def lease_gone_def record_id_def sample_record_def)
  moreover have "state (recover_record 9 3 ?r) = Queued"
    by (simp add: recover_record_def recovery_of_def lease_gone_def)
  ultimately show ?thesis
    using recovery_safe [OF r] by simp
qed

end
