(* ===== verification/Queue_Compaction.thy ===== *)
theory Queue_Compaction
  imports Queue_Store
begin

text \<open>
  Compaction of the queue's terminal history, \<^verbatim>\<open>src/queue/compaction.ts\<close>: the retention pass and
  the cap pass over the records no live generation needs, with the theorems that it never drops
  what scheduling reads and that it drops no more than retention and cap demand.
\<close>

section \<open>The pass\<close>

record compaction_options =
  co_nowMs :: jsnum
  co_retentionMs :: jsnum
  co_maxTerminalRecords :: jsnum

definition checkOptions :: "compaction_options \<Rightarrow> queue_error + (rat \<times> rat \<times> int)" where
  "checkOptions opts =
     (case co_nowMs opts of
        Fin now \<Rightarrow>
          (case co_retentionMs opts of
             Fin retention \<Rightarrow>
               if \<not> is_integral retention \<or> retention < 1
               then Inl (Range_error ''compaction: retentionMs must be a positive integer'')
               else (case co_maxTerminalRecords opts of
                       Fin cap \<Rightarrow>
                         if \<not> is_integral cap \<or> cap < 0
                         then Inl (Range_error
                           ''compaction: maxTerminalRecords must be a non-negative integer'')
                         else Inr (now, retention, floor cap)
                     | _ \<Rightarrow> Inl (Range_error
                         ''compaction: maxTerminalRecords must be a non-negative integer''))
           | _ \<Rightarrow> Inl (Range_error ''compaction: retentionMs must be a positive integer''))
      | _ \<Rightarrow> Inl (Range_error ''compaction: nowMs must be a finite number''))"

definition terminal_record :: "job_record \<Rightarrow> bool" where
  "terminal_record r = isTerminalState (state r)"

definition active_keys :: "job_record list \<Rightarrow> string list" where
  "active_keys rs = map prKey (filter (\<lambda>r. \<not> terminal_record r) rs)"

definition droppable_records :: "job_record list \<Rightarrow> job_record list" where
  "droppable_records rs =
     filter (\<lambda>r. terminal_record r \<and> prKey r \<notin> set (active_keys rs)) rs"

text \<open>The cap pass: the loop over the remaining droppable records, with its early exit.\<close>

fun cap_pass :: "int \<Rightarrow> int \<Rightarrow> job_record list \<Rightarrow> string list" where
  "cap_pass cap terminalCount [] = []"
| "cap_pass cap terminalCount (r # rs) =
     (if terminalCount \<le> cap then [] else record_id r # cap_pass cap (terminalCount - 1) rs)"

definition oldest_first :: "job_record list \<Rightarrow> job_record list" where
  "oldest_first rs = sort_key (\<lambda>r. (updatedAtMs r, record_id r)) rs"

definition compactQueueSnapshot ::
  "queue_snapshot \<Rightarrow> compaction_options \<Rightarrow> queue_error + (queue_snapshot \<times> string list)" where
  "compactQueueSnapshot snapshot opts =
     (case checkOptions opts of
        Inl e \<Rightarrow> Inl e
      | Inr (now, retention, cap) \<Rightarrow>
          (case parseQueueSnapshot (snapshot_js snapshot) of
             Inl e \<Rightarrow> Inl e
           | Inr records \<Rightarrow>
               let cutoff = now - retention;
                   droppable = droppable_records records;
                   aged = filter (\<lambda>r. updatedAtMs r < cutoff) droppable;
                   terminalCount = int (length (filter terminal_record records)) - int (length aged);
                   remaining = oldest_first (filter (\<lambda>r. \<not> updatedAtMs r < cutoff) droppable);
                   dropped = map record_id aged @ cap_pass cap terminalCount remaining
               in if dropped = [] then Inr (records, [])
                  else Inr (filter (\<lambda>r. record_id r \<notin> set dropped) records, sort dropped)))"

section \<open>The cap pass takes a prefix\<close>

definition over_cap :: "int \<Rightarrow> int \<Rightarrow> nat" where
  "over_cap cap terminalCount = nat (terminalCount - cap)"

lemma cap_pass_take:
  "cap_pass cap n rs = map record_id (take (over_cap cap n) rs)"
proof (induction rs arbitrary: n)
  case Nil
  then show ?case by simp
next
  case (Cons r rs)
  show ?case
  proof (cases "n \<le> cap")
    case False
    then have "over_cap cap n = Suc (over_cap cap (n - 1))"
      by (simp add: over_cap_def)
    with False Cons.IH show ?thesis by simp
  qed (simp add: over_cap_def)
qed

lemma sorted_by_take:
  "sorted (map f xs) \<Longrightarrow> a \<in> set (take n xs) \<Longrightarrow> b \<in> set (drop n xs) \<Longrightarrow> f a \<le> f b"
proof -
  assume "sorted (map f xs)" and a: "a \<in> set (take n xs)" and b: "b \<in> set (drop n xs)"
  then have "sorted (map f (take n xs) @ map f (drop n xs))"
    by (simp add: map_append [symmetric] del: map_append)
  with a b show "f a \<le> f b" by (auto simp only: sorted_append set_map)
qed

section \<open>What compaction guarantees\<close>

text \<open>The dropped records of a run with the given cut-off and cap.\<close>

definition aged_out :: "rat \<Rightarrow> job_record list \<Rightarrow> job_record list" where
  "aged_out cutoff rs = filter (\<lambda>r. updatedAtMs r < cutoff) (droppable_records rs)"

definition not_aged :: "rat \<Rightarrow> job_record list \<Rightarrow> job_record list" where
  "not_aged cutoff rs = oldest_first (filter (\<lambda>r. \<not> updatedAtMs r < cutoff) (droppable_records rs))"

definition excess :: "rat \<Rightarrow> int \<Rightarrow> job_record list \<Rightarrow> nat" where
  "excess cutoff cap rs = over_cap cap
     (int (length (filter terminal_record rs)) - int (length (aged_out cutoff rs)))"

definition dropped_records :: "rat \<Rightarrow> int \<Rightarrow> job_record list \<Rightarrow> job_record list" where
  "dropped_records cutoff cap rs =
     aged_out cutoff rs @ take (excess cutoff cap rs) (not_aged cutoff rs)"

lemma record_id_inj:
  "valid_snapshot rs \<Longrightarrow> r \<in> set rs \<Longrightarrow> r' \<in> set rs \<Longrightarrow> record_id r = record_id r' \<longleftrightarrow> r = r'"
  by (auto simp: valid_snapshot_def distinct_map dest: inj_onD)

lemma dropped_droppable: "set (dropped_records cutoff cap rs) \<subseteq> set (droppable_records rs)"
  by (auto simp: dropped_records_def aged_out_def not_aged_def oldest_first_def
      dest!: in_set_takeD)

lemma droppable_subset: "set (droppable_records rs) \<subseteq> set rs"
  by (auto simp: droppable_records_def)

lemma compact_Inr:
  assumes "checkOptions opts = Inr (now, retention, cap)"
  shows "compactQueueSnapshot rs opts = Inr (rs', dropped) \<longleftrightarrow>
    valid_snapshot rs \<and>
    rs' = filter (\<lambda>r. r \<notin> set (dropped_records (now - retention) cap rs)) rs \<and>
    dropped = sort (map record_id (dropped_records (now - retention) cap rs))"
    (is "?lhs \<longleftrightarrow> ?rhs")
proof (cases "valid_snapshot rs")
  case False
  then show ?thesis using assms
    by (cases "parseQueueSnapshot (snapshot_js rs)")
      (simp_all add: compactQueueSnapshot_def parseQueueSnapshot_js)
next
  case True
  let ?ds = "dropped_records (now - retention) cap rs"
  have p: "parseQueueSnapshot (snapshot_js rs) = Inr rs"
    using True by (simp add: parseQueueSnapshot_js)
  have "filter (\<lambda>r. record_id r \<notin> set (map record_id ?ds)) rs = filter (\<lambda>r. r \<notin> set ?ds) rs"
    using dropped_droppable droppable_subset record_id_inj [OF True]
    by (intro filter_cong) (auto, blast)
  moreover
  let ?old = "\<lambda>r. updatedAtMs r < now - retention"
  have d: "map record_id (filter ?old (droppable_records rs)) @
      cap_pass cap (int (length (filter terminal_record rs)) -
        int (length (filter ?old (droppable_records rs))))
        (oldest_first (filter (\<lambda>r. \<not> ?old r) (droppable_records rs))) = map record_id ?ds"
    by (simp only: cap_pass_take dropped_records_def aged_out_def not_aged_def excess_def map_append)
  have "compactQueueSnapshot rs opts =
      (if map record_id ?ds = [] then Inr (rs, [])
       else Inr (filter (\<lambda>r. record_id r \<notin> set (map record_id ?ds)) rs, sort (map record_id ?ds)))"
    by (simp only: compactQueueSnapshot_def assms p Let_def sum.case prod.case d)
  ultimately show ?thesis using True by auto
qed

lemma distinct_droppable: "valid_snapshot rs \<Longrightarrow> distinct (map record_id (droppable_records rs))"
  by (simp add: valid_snapshot_def droppable_records_def distinct_map_filter)

lemma distinct_dropped:
  assumes "valid_snapshot rs"
  shows "distinct (map record_id (dropped_records cutoff cap rs))"
proof -
  let ?old = "\<lambda>r. updatedAtMs r < cutoff"
  have "distinct (droppable_records rs)" and "inj_on record_id (set (droppable_records rs))"
    using distinct_droppable [OF assms] by (simp_all add: distinct_map)
  moreover have "set (take n (not_aged cutoff rs)) \<subseteq> {r. \<not> ?old r}" for n
    by (auto simp: not_aged_def oldest_first_def dest!: in_set_takeD)
  ultimately have "distinct (dropped_records cutoff cap rs)"
    by (auto simp: dropped_records_def aged_out_def not_aged_def oldest_first_def
        intro!: distinct_take)
  then show ?thesis
    using \<open>inj_on record_id (set (droppable_records rs))\<close> dropped_droppable
    by (auto simp: distinct_map intro: inj_on_subset [OF _ dropped_droppable])
qed

lemma length_remove:
  assumes "distinct xs" and "distinct ds" and "set ds \<subseteq> {x \<in> set xs. P x}"
  shows "length (filter P xs) = length (filter P (filter (\<lambda>x. x \<notin> set ds) xs)) + length ds"
proof -
  have "{x \<in> set xs. P x} = {x \<in> set xs. x \<notin> set ds \<and> P x} \<union> set ds"
    using assms(3) by auto
  then have "card {x \<in> set xs. P x} = card {x \<in> set xs. x \<notin> set ds \<and> P x} + card (set ds)"
    by (auto simp: card_Un_disjoint intro: card_Un_disjoint)
  with assms(1,2) show ?thesis
    by (simp add: distinct_length_filter distinct_card Int_def conj_commute)
qed

text \<open>Compaction never touches what scheduling reads. It keeps the order of the records it
  keeps, keeps every non-terminal record and every record of a scope that still has a
  non-terminal record, leaves a valid snapshot, and reports exactly the ids it dropped, sorted
  and without repetition.\<close>

theorem compaction_safe:
  assumes "compactQueueSnapshot rs opts = Inr (rs', dropped)"
  shows "valid_snapshot rs' \<and> rs' = filter (\<lambda>r. record_id r \<notin> set dropped) rs \<and>
    sorted dropped \<and> distinct dropped \<and> set dropped \<subseteq> record_id ` set rs \<and>
    (\<forall>r \<in> set rs. (\<exists>s \<in> set rs. prKey s = prKey r \<and> \<not> terminal_record s) \<longrightarrow> r \<in> set rs')"
proof -
  obtain now retention cap where opts: "checkOptions opts = Inr (now, retention, cap)"
    using assms by (cases "checkOptions opts") (auto simp: compactQueueSnapshot_def)
  let ?ds = "dropped_records (now - retention) cap rs"
  from assms compact_Inr [OF opts] have v: "valid_snapshot rs"
    and rs': "rs' = filter (\<lambda>r. r \<notin> set ?ds) rs" and d: "dropped = sort (map record_id ?ds)"
    by auto
  have sub: "set ?ds \<subseteq> set (droppable_records rs)" by (rule dropped_droppable)
  have "valid_snapshot rs'"
    using v by (auto simp: rs' valid_snapshot_def list_all_iff distinct_map_filter)
  moreover have "rs' = filter (\<lambda>r. record_id r \<notin> set dropped) rs"
    unfolding rs' d using sub droppable_subset record_id_inj [OF v]
    by (intro filter_cong) (auto, blast)
  moreover have "r \<in> set rs'" if "r \<in> set rs" "s \<in> set rs" "prKey s = prKey r" "\<not> terminal_record s"
    for r s
  proof -
    have "r \<notin> set (droppable_records rs)"
      using that by (force simp: droppable_records_def active_keys_def image_iff)
    then show ?thesis using that sub by (auto simp: rs')
  qed
  moreover have "set dropped \<subseteq> record_id ` set rs"
    using sub droppable_subset [of rs] unfolding d set_sort set_map by blast
  moreover have "sorted dropped \<and> distinct dropped"
    using distinct_dropped [OF v] by (simp add: d)
  ultimately show ?thesis by blast
qed

definition sample_compaction :: compaction_options where
  "sample_compaction = \<lparr>co_nowMs = Fin 100, co_retentionMs = Fin 50, co_maxTerminalRecords = Fin 0\<rparr>"

definition done_record :: job_record where
  "done_record = sample_record\<lparr>state := Completed, updatedAtMs := 10\<rparr>"

lemma done_record_valid: "valid_snapshot [done_record]"
  by (simp add: valid_snapshot_def done_record_def valid_record_def sample_job_valid sample_record_def)

lemma sample_compaction_options: "checkOptions sample_compaction = Inr (100, 50, 0)"
  by (simp add: checkOptions_def sample_compaction_def)

lemma sample_compaction_run:
  "compactQueueSnapshot [done_record] sample_compaction = Inr ([], [jobId sample_job])"
proof -
  have "droppable_records [done_record] = [done_record]"
    by (simp add: droppable_records_def active_keys_def terminal_record_def done_record_def)
  then have "dropped_records 50 0 [done_record] = [done_record]"
    by (simp add: dropped_records_def aged_out_def not_aged_def oldest_first_def)
      (simp add: done_record_def)
  then show ?thesis
    by (simp add: compact_Inr [OF sample_compaction_options] done_record_valid record_id_def)
      (simp add: done_record_def sample_record_def)
qed

theorem compaction_safe_witness:
  "compactQueueSnapshot [done_record] sample_compaction = Inr ([], [jobId sample_job]) \<and>
   valid_snapshot ([] :: queue_snapshot)"
  using sample_compaction_run compaction_safe [OF sample_compaction_run] by blast

text \<open>Compaction enforces retention and the cap, and drops nothing more. Among the records no live
  scope protects, none older than the horizon is kept; afterwards the terminal records are within
  the cap unless only protected ones are left; a record younger than the horizon is dropped only
  to meet the cap (the terminal records kept then number at least the cap), and only when every
  unprotected record kept is at least as recently updated; a second pass with the same options
  drops nothing.\<close>

theorem compaction_exact:
  assumes "compactQueueSnapshot rs opts = Inr (rs', dropped)"
    and "checkOptions opts = Inr (now, retention, cap)"
  shows "(\<forall>r \<in> set (droppable_records rs'). now - retention \<le> updatedAtMs r) \<and>
    (int (length (filter terminal_record rs')) \<le> cap \<or> droppable_records rs' = []) \<and>
    (\<forall>r \<in> set rs. record_id r \<in> set dropped \<and> now - retention \<le> updatedAtMs r \<longrightarrow>
       cap \<le> int (length (filter terminal_record rs')) \<and>
       (\<forall>k \<in> set (droppable_records rs'). updatedAtMs r \<le> updatedAtMs k)) \<and>
    compactQueueSnapshot rs' opts = Inr (rs', [])"
proof -
  define cutoff where "cutoff = now - retention"
  define ds where "ds = dropped_records cutoff cap rs"
  define rest where "rest = not_aged cutoff rs"
  define n where "n = excess cutoff cap rs"
  from assms compact_Inr [OF assms(2)] have v: "valid_snapshot rs"
    and rs': "rs' = filter (\<lambda>r. r \<notin> set ds) rs" and d: "dropped = sort (map record_id ds)"
    by (auto simp: ds_def cutoff_def)
  have sub: "set ds \<subseteq> set (droppable_records rs)"
    unfolding ds_def by (rule dropped_droppable)
  have "active_keys rs' = active_keys rs"
    using sub by (auto simp: active_keys_def rs' droppable_records_def intro!: arg_cong [of _ _ "map prKey"] filter_cong)
  then have drp': "droppable_records rs' = filter (\<lambda>r. r \<notin> set ds) (droppable_records rs)"
    by (auto simp: droppable_records_def rs' intro: filter_cong)
  have rest_set: "set rest = {r \<in> set (droppable_records rs). cutoff \<le> updatedAtMs r}"
    by (auto simp: rest_def not_aged_def oldest_first_def)
  have ds_set: "set ds = set (aged_out cutoff rs) \<union> set (take n rest)"
    by (simp add: ds_def dropped_records_def n_def rest_def)
  have split_rest: "set rest = set (take n rest) \<union> set (drop n rest)"
    by (metis append_take_drop_id set_append)
  have kept: "set (droppable_records rs') \<subseteq> set (drop n rest)"
    using ds_set rest_set split_rest by (fastforce simp: drp' aged_out_def)
  have "sorted (map (\<lambda>r. (updatedAtMs r, record_id r)) rest)"
    by (simp add: rest_def not_aged_def oldest_first_def)
  note older = sorted_by_take [OF this]
  have dist: "distinct rs" and "distinct ds"
    using v distinct_dropped [OF v] by (auto simp: valid_snapshot_def distinct_map ds_def)
  have "set ds \<subseteq> {r \<in> set rs. terminal_record r}"
    using sub by (auto simp: droppable_records_def)
  note count = length_remove [OF dist \<open>distinct ds\<close> this, folded rs']
  have len: "length ds = length (aged_out cutoff rs) + min (length rest) n"
    by (simp add: ds_def dropped_records_def n_def rest_def)
  have n: "n = nat (int (length (filter terminal_record rs)) - int (length (aged_out cutoff rs)) - cap)"
    by (simp add: n_def excess_def over_cap_def)
  have 1: "\<forall>r \<in> set (droppable_records rs'). cutoff \<le> updatedAtMs r"
    using kept rest_set split_rest by blast
  have 2: "int (length (filter terminal_record rs')) \<le> cap \<or> droppable_records rs' = []"
  proof (cases "n < length rest")
    case True
    then have "length ds = length (aged_out cutoff rs) + n" using len by simp
    moreover have "int (length (filter terminal_record rs)) - int (length (aged_out cutoff rs)) - cap
        \<le> int n"
      unfolding n by simp
    ultimately show ?thesis using count by linarith
  next
    case False
    then show ?thesis using kept by simp
  qed
  have 3: "cap \<le> int (length (filter terminal_record rs')) \<and>
      (\<forall>k \<in> set (droppable_records rs'). updatedAtMs r \<le> updatedAtMs k)"
    if "r \<in> set rs" "record_id r \<in> set dropped" "cutoff \<le> updatedAtMs r" for r
  proof -
    have "r \<in> set ds"
      using that sub droppable_subset record_id_inj [OF v] by (auto simp: d) blast
    then have r: "r \<in> set (take n rest)"
      using that(3) ds_set by (auto simp: aged_out_def)
    then have "0 < n" by (cases n) auto
    then have "int n = int (length (filter terminal_record rs)) - int (length (aged_out cutoff rs)) - cap"
      using n by linarith
    moreover have "length ds \<le> length (aged_out cutoff rs) + n" using len by simp
    ultimately have "cap \<le> int (length (filter terminal_record rs'))"
      using count by linarith
    moreover have "updatedAtMs r \<le> updatedAtMs k" if "k \<in> set (droppable_records rs')" for k
      using older [OF r subsetD [OF kept that]] by (auto simp: less_eq_prod_def)
    ultimately show ?thesis by blast
  qed
  have "dropped_records cutoff cap rs' = []"
  proof -
    have aged: "aged_out cutoff rs' = []"
      using 1 by (auto simp: aged_out_def filter_empty_conv)
    moreover have "excess cutoff cap rs' = 0 \<or> not_aged cutoff rs' = []"
      using 2 aged by (auto simp: excess_def over_cap_def not_aged_def oldest_first_def)
    ultimately show ?thesis by (auto simp: dropped_records_def)
  qed
  moreover have "valid_snapshot rs'"
    using v by (auto simp: rs' valid_snapshot_def list_all_iff distinct_map_filter)
  ultimately have 4: "compactQueueSnapshot rs' opts = Inr (rs', [])"
    by (simp add: compact_Inr [OF assms(2)] cutoff_def)
  from 1 2 3 4 show ?thesis by (auto simp: cutoff_def)
qed

theorem compaction_exact_witness:
  "droppable_records ([] :: queue_snapshot) = [] \<and>
   compactQueueSnapshot [] sample_compaction = Inr ([], [])"
  using compaction_exact [OF sample_compaction_run sample_compaction_options]
  by (simp add: droppable_records_def)

end
