(* ===== verification/Scheduler.thy ===== *)
theory Scheduler
  imports Queue_Store
begin

text \<open>
  The review-queue controller, \<^verbatim>\<open>src/queue/scheduler.ts\<close>: the class \<open>ReviewQueueController\<close>.

  \<^item> The private fields of the controller are the record \<open>qstate\<close>, together with the store's state
    and what the JavaScript runtime keeps for it: the executor promises not yet resolved
    (\<open>executing\<close>), the publish calls not yet resolved (\<open>calls\<close>) and the abort signals raised.
  \<^item> Every method is a computation in \<open>sx\<close>: a \<open>throw\<close> keeps the mutations made before it.
  \<^item> The store is any value of \<open>store_ops\<close>, the \<open>QueueStore\<close> seam.
  \<^item> The clock is the argument \<open>now\<close> of a method, read once as in the code.
  \<^item> A promise continuation (\<open>settle\<close>, the part of \<open>runPublish\<close> after the \<open>await\<close>) runs to its end
    without interleaving: \<open>settle\<close> awaits only \<open>settleCompleted\<close>, which awaits nothing.
\<close>

section \<open>Configuration\<close>

record scheduler_options =
  so_maxConcurrent :: jsnum
  so_settleWindowMs :: jsnum
  so_leaseTtlMs :: jsnum
  so_maxAttempts :: jsnum
  so_retryBaseMs :: jsnum
  so_retryMaxMs :: jsnum
  so_scopeKeyOf :: "(job_record \<Rightarrow> string) option"
  so_scopeLimitOf :: "(string \<Rightarrow> int) option"
  so_publisher :: bool

text \<open>The options after the constructor's checks.\<close>

record config =
  maxConcurrent :: nat
  settleWindowMs :: nat
  leaseTtlMs :: rat
  maxAttempts :: nat
  retryBaseMs :: nat
  retryMaxMs :: rat
  scopeKeyFn :: "(job_record \<Rightarrow> string) option"
  scopeLimitFn :: "(string \<Rightarrow> int) option"
  hasPublisher :: bool

definition requirePositiveInteger :: "jsnum \<Rightarrow> string \<Rightarrow> queue_error + nat" where
  "requirePositiveInteger v label =
     (case v of
        Fin q \<Rightarrow> if \<not> is_integral q \<or> q < 1
          then Inl (Range_error (label @ '' must be an integer >= 1'')) else Inr (nat (floor q))
      | _ \<Rightarrow> Inl (Range_error (label @ '' must be an integer >= 1'')))"

definition requireNonNegativeInteger :: "jsnum \<Rightarrow> string \<Rightarrow> queue_error + nat" where
  "requireNonNegativeInteger v label =
     (case v of
        Fin q \<Rightarrow> if \<not> is_integral q \<or> q < 0
          then Inl (Range_error (label @ '' must be an integer >= 0'')) else Inr (nat (floor q))
      | _ \<Rightarrow> Inl (Range_error (label @ '' must be an integer >= 0'')))"

definition sum_bind :: "'e + 'a \<Rightarrow> ('a \<Rightarrow> 'e + 'b) \<Rightarrow> 'e + 'b" where
  "sum_bind m k = (case m of Inl e \<Rightarrow> Inl e | Inr x \<Rightarrow> k x)"

text \<open>The constructor's checks on the options, in their order.\<close>

definition make_config :: "scheduler_options \<Rightarrow> queue_error + config" where
  "make_config opts =
    sum_bind (requirePositiveInteger (so_maxConcurrent opts) ''maxConcurrent'') (\<lambda>conc.
    sum_bind (requireNonNegativeInteger (so_settleWindowMs opts) ''settleWindowMs'') (\<lambda>window.
    sum_bind (case so_leaseTtlMs opts of
                Fin q \<Rightarrow> if q \<le> 0 then Inl (Range_error ''leaseTtlMs must be a finite number > 0'')
                  else Inr q
              | _ \<Rightarrow> Inl (Range_error ''leaseTtlMs must be a finite number > 0'')) (\<lambda>ttl.
    sum_bind (requirePositiveInteger (so_maxAttempts opts) ''maxAttempts'') (\<lambda>attempts.
    sum_bind (requireNonNegativeInteger (so_retryBaseMs opts) ''retryBaseMs'') (\<lambda>base.
    sum_bind (case so_retryMaxMs opts of
                Fin q \<Rightarrow> if q < of_nat base
                  then Inl (Range_error ''retryMaxMs must be a finite number >= retryBaseMs'')
                  else Inr q
              | _ \<Rightarrow> Inl (Range_error ''retryMaxMs must be a finite number >= retryBaseMs''))
      (\<lambda>cap. Inr \<lparr>maxConcurrent = conc, settleWindowMs = window, leaseTtlMs = ttl,
        maxAttempts = attempts, retryBaseMs = base, retryMaxMs = cap,
        scopeKeyFn = so_scopeKeyOf opts, scopeLimitFn = so_scopeLimitOf opts,
        hasPublisher = so_publisher opts\<rparr>))))))"

section \<open>The controller's state\<close>

record 's store_ops =
  st_load :: "'s \<Rightarrow> queue_error + queue_snapshot"
  st_save :: "queue_snapshot \<Rightarrow> (queue_error, 's, unit) sx"

datatype outcome_status = Out_completed | Out_failed | Out_cancelled

record execution_outcome =
  oc_status :: outcome_status
  oc_resultHeadSha :: string
  oc_failureCategory :: string

text \<open>A publish call in flight: the arguments of \<open>runPublish\<close>.\<close>

record publish_call =
  pc_jobId :: string
  pc_token :: string
  pc_record :: job_record
  pc_now :: rat
  pc_requireLeaseMatch :: bool

record 's qstate =
  recs :: "(string \<times> job_record) list"
  ctrls :: "(string \<times> string) list"
  inflight :: "string list"
  tokctr :: nat
  intakeClosed :: bool
  loaded :: bool
  durable :: 's
  executing :: "(string \<times> string) list"
  calls :: "publish_call list"
  aborted :: "string list"

type_synonym ('s, 'a) qop = "(queue_error, 's qstate, 'a) sx"

text \<open>A new controller over a store; a restart leaves only the store.\<close>

definition fresh_controller :: "'s \<Rightarrow> 's qstate" where
  "fresh_controller d =
    \<lparr>recs = [], ctrls = [], inflight = [], tokctr = 0, intakeClosed = False, loaded = False,
     durable = d, executing = [], calls = [], aborted = []\<rparr>"

definition records_of :: "'s qstate \<Rightarrow> job_record list" where
  "records_of s = map snd (recs s)"

definition modify :: "('s qstate \<Rightarrow> 's qstate) \<Rightarrow> ('s, unit) qop" where
  "modify f s = (Inr (), f s)"

definition set_rec :: "string \<Rightarrow> job_record \<Rightarrow> ('s, unit) qop" where
  "set_rec j r = modify (\<lambda>s. s\<lparr>recs := AList.update j r (recs s)\<rparr>)"

text \<open>\<open>records.set(jobId, Object.freeze({ ...withState(record, next, now), ...fields }))\<close>\<close>

definition move :: "string \<Rightarrow> job_record \<Rightarrow> job_state \<Rightarrow> rat \<Rightarrow> (job_record \<Rightarrow> job_record) \<Rightarrow>
    ('s, unit) qop" where
  "move j r st now upd =
     bnd (lift_sum (withState r st (Fin now))) (\<lambda>r'. set_rec j (upd r'))"

subsection \<open>Loading and saving\<close>

definition adopt_one :: "job_record \<Rightarrow> ('s, unit) qop" where
  "adopt_one r s =
     (if map_of (recs s) (record_id r) \<noteq> None
      then (Inl (Plain_error ''queue snapshot: duplicate job id in snapshot''), s)
      else set_rec (record_id r) r s)"

definition adopt :: "queue_snapshot \<Rightarrow> ('s, unit) qop" where
  "adopt snap =
     seqn (modify (\<lambda>s. s\<lparr>recs := [], ctrls := []\<rparr>))
    (seqn (for_each snap adopt_one)
      (modify (\<lambda>s. s\<lparr>loaded := True\<rparr>)))"

definition ensureLoaded :: "'s store_ops \<Rightarrow> ('s, unit) qop" where
  "ensureLoaded st s =
     (if loaded s then (Inr (), s)
      else case st_load st (durable s) of
             Inl e \<Rightarrow> (Inl e, s)
           | Inr snap \<Rightarrow> seqn (adopt snap) (modify (\<lambda>s. s\<lparr>loaded := True\<rparr>)) s)"

definition store_save :: "'s store_ops \<Rightarrow> queue_snapshot \<Rightarrow> ('s, unit) qop" where
  "store_save st snap s =
     (case st_save st snap (durable s) of (result, d) \<Rightarrow> (result, s\<lparr>durable := d\<rparr>))"

definition snapshot :: "'s store_ops \<Rightarrow> ('s, queue_snapshot) qop" where
  "snapshot st = seqn (ensureLoaded st) (\<lambda>s. (Inr (records_of s), s))"

definition save :: "'s store_ops \<Rightarrow> ('s, unit) qop" where
  "save st = bnd (snapshot st) (store_save st)"

definition recordFor :: "'s store_ops \<Rightarrow> string \<Rightarrow> ('s, job_record option) qop" where
  "recordFor st j = seqn (ensureLoaded st) (\<lambda>s. (Inr (map_of (recs s) j), s))"

definition recover ::
  "config \<Rightarrow> 's store_ops \<Rightarrow> rat \<Rightarrow> ('s, string list \<times> string list) qop" where
  "recover cfg st now s =
     (case st_load st (durable s) of
        Inl e \<Rightarrow> (Inl e, s)
      | Inr snap \<Rightarrow>
          (case reconcileRecoveredSnapshot snap (Fin now) (Fin (of_nat (maxAttempts cfg))) of
             Inl e \<Rightarrow> (Inl e, s)
           | Inr (reconciled, requeued, failed) \<Rightarrow>
               seqn (adopt reconciled)
              (seqn (store_save st reconciled) (ret (requeued, failed))) s))"

section \<open>Queries over the records\<close>

definition countActive :: "job_record list \<Rightarrow> nat" where
  "countActive rs = length (filter (\<lambda>r. state r = Starting \<or> state r = Running) rs)"

text \<open>Active, and not a \<open>publishing\<close> record that holds its durable result: what takes the slot of
  its pull request and of its scope.\<close>

definition occupying :: "job_record \<Rightarrow> bool" where
  "occupying r =
     (isActiveState (state r) \<and> \<not> (state r = Publishing \<and> resultHeadSha r \<noteq> ''''))"

definition hasActiveFor :: "job_record list \<Rightarrow> string \<Rightarrow> bool" where
  "hasActiveFor rs key = list_ex (\<lambda>r. prKey r = key \<and> occupying r) rs"

definition scopeKeyOf :: "config \<Rightarrow> job_record \<Rightarrow> string" where
  "scopeKeyOf cfg r = (case scopeKeyFn cfg of None \<Rightarrow> '''' | Some f \<Rightarrow> f r)"

definition scopeFull :: "config \<Rightarrow> job_record list \<Rightarrow> job_record \<Rightarrow> bool" where
  "scopeFull cfg rs r =
     (let key = scopeKeyOf cfg r in
      if key = '''' then False
      else let limit = (case scopeLimitFn cfg of None \<Rightarrow> 0 | Some f \<Rightarrow> f key) in
        if limit = 0 then False
        else int (length (filter (\<lambda>r'. occupying r' \<and> scopeKeyOf cfg r' = key) rs)) \<ge> limit)"

text \<open>The body of the loop of \<open>findSupersedingSibling\<close>; the accumulator is the winner with its
  enqueue time.\<close>

definition sibling_step ::
  "job_record \<Rightarrow> (string \<times> rat) option \<Rightarrow> job_record \<Rightarrow> (string \<times> rat) option" where
  "sibling_step r w other =
     (if prKey other \<noteq> prKey r then w
      else if record_id other = record_id r then w
      else if isTerminalState (state other) then w
      else if enqueuedAtMs other < enqueuedAtMs r then w
      else if enqueuedAtMs other = enqueuedAtMs r \<and> record_id other \<le> record_id r then w
      else case w of
             None \<Rightarrow> Some (record_id other, enqueuedAtMs other)
           | Some (winner, winnerEnqueued) \<Rightarrow>
               if enqueuedAtMs other > winnerEnqueued \<or>
                  (enqueuedAtMs other = winnerEnqueued \<and> record_id other > winner)
               then Some (record_id other, enqueuedAtMs other) else w)"

definition findSupersedingSibling :: "job_record list \<Rightarrow> job_record \<Rightarrow> string option" where
  "findSupersedingSibling rs r = map_option fst (foldl (sibling_step r) None rs)"

definition mayPublish :: "job_record list \<Rightarrow> job_record \<Rightarrow> bool" where
  "mayPublish rs r = (\<not> cancelRequested r \<and> findSupersedingSibling rs r = None)"

definition publishRetryDelayMs :: "config \<Rightarrow> rat" where
  "publishRetryDelayMs cfg = min (max (of_nat (retryBaseMs cfg)) 0) (retryMaxMs cfg)"

text \<open>\<open>sibling ?? ""\<close>, and the superseder recorded on a retired record: the stamp if there is one,
  otherwise the live sibling.\<close>

definition or_empty :: "string option \<Rightarrow> string" where
  "or_empty w = (case w of None \<Rightarrow> '''' | Some j \<Rightarrow> j)"

definition attributed :: "job_record list \<Rightarrow> job_record \<Rightarrow> string" where
  "attributed rs r =
     (if supersededByJobId r \<noteq> '''' then supersededByJobId r
      else or_empty (findSupersedingSibling rs r))"

section \<open>Abort controllers\<close>

definition abort_signal :: "string \<Rightarrow> 's qstate \<Rightarrow> 's qstate" where
  "abort_signal j s =
     (case map_of (ctrls s) j of None \<Rightarrow> s | Some token \<Rightarrow> s\<lparr>aborted := token # aborted s\<rparr>)"

definition abortAndForget :: "string \<Rightarrow> 's qstate \<Rightarrow> 's qstate" where
  "abortAndForget j s = (abort_signal j s)\<lparr>ctrls := AList.delete j (ctrls s)\<rparr>"

definition releaseController :: "string \<Rightarrow> string \<Rightarrow> 's qstate \<Rightarrow> 's qstate" where
  "releaseController j token s =
     (if map_of (ctrls s) j = Some token then s\<lparr>ctrls := AList.delete j (ctrls s)\<rparr> else s)"

section \<open>Intake\<close>

datatype disposition = D_queued | D_duplicate | D_superseded_queued | D_superseded_running

text \<open>The body of the supersession sweep over the existing records.\<close>

definition supersede_one :: "review_job \<Rightarrow> rat \<Rightarrow> string \<times> job_record \<Rightarrow> ('s, unit) qop" where
  "supersede_one j now e =
     (let existingId = record_id (snd e); existing = snd e in
      if prKey existing \<noteq> prIdentityKey j then ret ()
      else if state existing = Queued then
        move existingId existing Superseded now
          (\<lambda>r. r\<lparr>failureReason := ''superseded-by-newer-head'', supersededByJobId := jobId j\<rparr>)
      else if isActiveState (state existing) then
        seqn (set_rec existingId
               (existing\<lparr>cancelRequested := True, supersededByJobId := jobId j\<rparr>))
          (modify (abort_signal existingId))
      else ret ())"

definition enqueue_disposition :: "job_record list \<Rightarrow> string \<Rightarrow> disposition" where
  "enqueue_disposition rs key =
     (if list_ex (\<lambda>r. prKey r = key \<and> isActiveState (state r)) rs then D_superseded_running
      else if list_ex (\<lambda>r. prKey r = key \<and> state r = Queued) rs then D_superseded_queued
      else D_queued)"

definition enqueue_fresh ::
  "config \<Rightarrow> 's store_ops \<Rightarrow> review_job \<Rightarrow> rat \<Rightarrow> ('s, disposition \<times> string) qop" where
  "enqueue_fresh cfg st j now s =
     (let before = records_of s in
      seqn (for_each (recs s) (supersede_one j now))
     (bnd (lift_sum (newJobRecord j (Fin now) (Fin (of_nat (settleWindowMs cfg)))))
       (\<lambda>r. seqn (set_rec (jobId j) r)
             (seqn (save st)
               (ret (enqueue_disposition before (prIdentityKey j), jobId j))))) s)"

definition enqueue ::
  "config \<Rightarrow> 's store_ops \<Rightarrow> jsval \<Rightarrow> rat \<Rightarrow> ('s, disposition \<times> string) qop" where
  "enqueue cfg st v now s =
     (let named = (case v of
            JObj ps \<Rightarrow> (case get_prop ps ''jobId'' of JStr i \<Rightarrow> i \<noteq> '''' | _ \<Rightarrow> False)
          | _ \<Rightarrow> False)
      in if \<not> named
         then (Inl (Range_error ''enqueue: job.jobId must be a non-empty string''), s)
         else if intakeClosed s then (Inl (Plain_error ''intake closed''), s)
         else (case validateReviewJob v of
                 None \<Rightarrow> (Inl (Range_error ''enqueue: job is not a valid ReviewJob''), s)
               | Some j \<Rightarrow>
                   seqn (ensureLoaded st)
                     (\<lambda>s. if map_of (recs s) (jobId j) \<noteq> None
                          then (Inr (D_duplicate, jobId j), s)
                          else enqueue_fresh cfg st j now s) s))"

section \<open>The scheduling pass\<close>

definition expire_lease :: "config \<Rightarrow> rat \<Rightarrow> string \<times> job_record \<Rightarrow> ('s, unit) qop" where
  "expire_lease cfg now e =
     (case e of (j, r) \<Rightarrow>
       if \<not> isActiveState (state r) then ret ()
       else if state r = Publishing \<and> resultHeadSha r \<noteq> '''' then ret ()
       else if leaseExpiresAtMs r \<le> 0 \<or> leaseExpiresAtMs r > now then ret ()
       else
         seqn (modify (abortAndForget j))
           (if attempt r < maxAttempts cfg then
              (\<lambda>s. case findSupersedingSibling (records_of s) r of
                 Some superseder \<Rightarrow>
                   move j r Superseded now (\<lambda>r. r\<lparr>failureReason := ''superseded-by-newer-head'',
                     supersededByJobId := superseder, leaseOwner := '''', leaseExpiresAtMs := 0\<rparr>) s
               | None \<Rightarrow>
                   move j r Queued now (\<lambda>r. r\<lparr>readyAtMs := now, nextRetryAtMs := 0,
                     leaseOwner := '''', leaseExpiresAtMs := 0, cancelRequested := False\<rparr>) s)
            else
              move j r Failed now (\<lambda>r. r\<lparr>failureReason := ''lease-expired-attempt-limit'',
                leaseOwner := '''', leaseExpiresAtMs := 0\<rparr>)))"

definition expireLeases :: "config \<Rightarrow> rat \<Rightarrow> ('s, unit) qop" where
  "expireLeases cfg now s = for_each (recs s) (expire_lease cfg now) s"

definition expire_deadline :: "rat \<Rightarrow> string \<times> job_record \<Rightarrow> ('s, unit) qop" where
  "expire_deadline now e =
     (case e of (j, r) \<Rightarrow>
       if isTerminalState (state r) then ret ()
       else if state r = Publishing \<and> resultHeadSha r \<noteq> '''' then ret ()
       else if \<not> isExpired (job r) (Fin now) then ret ()
       else
         seqn (modify (abortAndForget j))
           (move j r Cancelled now (\<lambda>r. r\<lparr>failureReason := ''deadline-expired'',
              leaseOwner := '''', leaseExpiresAtMs := 0\<rparr>)))"

definition expireDeadlines :: "rat \<Rightarrow> ('s, unit) qop" where
  "expireDeadlines now s = for_each (recs s) (expire_deadline now) s"

text \<open>Calling \<open>publisher.publish\<close> without awaiting it.\<close>

definition fire :: "publish_call \<Rightarrow> 's qstate \<Rightarrow> 's qstate" where
  "fire call s = s\<lparr>calls := calls s @ [call]\<rparr>"

definition firePublishRetry :: "string \<Rightarrow> job_record \<Rightarrow> rat \<Rightarrow> 's qstate \<Rightarrow> 's qstate" where
  "firePublishRetry j r now s =
     fire \<lparr>pc_jobId = j, pc_token = '''', pc_record = r, pc_now = now,
       pc_requireLeaseMatch = False\<rparr> (s\<lparr>inflight := inflight s @ [j]\<rparr>)"

definition firePublishSettle ::
  "string \<Rightarrow> string \<Rightarrow> job_record \<Rightarrow> rat \<Rightarrow> 's qstate \<Rightarrow> 's qstate" where
  "firePublishSettle j token r now s =
     fire \<lparr>pc_jobId = j, pc_token = token, pc_record = r, pc_now = now,
       pc_requireLeaseMatch = True\<rparr> s"

definition retry_publish :: "rat \<Rightarrow> string \<times> job_record \<Rightarrow> ('s, unit) qop" where
  "retry_publish now e =
     (case e of (j, r) \<Rightarrow>
       if state r \<noteq> Publishing then ret ()
       else if resultHeadSha r = '''' then ret ()
       else if nextRetryAtMs r \<noteq> 0 \<and> nextRetryAtMs r > now then ret ()
       else (\<lambda>s.
         if j \<in> set (inflight s) then (Inr (), s)
         else if \<not> mayPublish (records_of s) r then
           move j r Superseded now (\<lambda>r'. r'\<lparr>failureReason := ''superseded-by-newer-head'',
             supersededByJobId := or_empty (findSupersedingSibling (records_of s) r),
             leaseOwner := '''', leaseExpiresAtMs := 0\<rparr>) s
         else modify (firePublishRetry j r now) s))"

definition retryPublishes :: "config \<Rightarrow> rat \<Rightarrow> ('s, unit) qop" where
  "retryPublishes cfg now s =
     (if \<not> hasPublisher cfg then (Inr (), s) else for_each (recs s) (retry_publish now) s)"

subsection \<open>Dispatch\<close>

definition lease_token :: "string \<Rightarrow> nat \<Rightarrow> string" where
  "lease_token j n = ''lease-'' @ take 8 j @ ''-'' @ string_of_nat n"

definition start :: "config \<Rightarrow> job_record \<Rightarrow> rat \<Rightarrow> ('s, unit) qop" where
  "start cfg r now s =
     (let j = record_id r; n = tokctr s + 1; token = lease_token j n in
      seqn (modify (\<lambda>s. s\<lparr>tokctr := n\<rparr>))
     (bnd (lift_sum (withState r Starting (Fin now)))
       (\<lambda>r1. bnd (lift_sum (withState r1 Running (Fin now)))
         (\<lambda>r2. seqn (set_rec j (r2\<lparr>attempt := attempt r + 1, leaseOwner := token,
                  leaseExpiresAtMs := now + leaseTtlMs cfg\<rparr>))
           (modify (\<lambda>s. s\<lparr>ctrls := AList.update j token (ctrls s),
              executing := executing s @ [(j, token)]\<rparr>))))) s)"

definition dispatch_candidates :: "rat \<Rightarrow> job_record list \<Rightarrow> job_record list" where
  "dispatch_candidates now rs =
     sort_key (\<lambda>r. (enqueuedAtMs r, record_id r))
       (filter (\<lambda>r. state r = Queued \<and> (readyAtMs r = 0 \<or> readyAtMs r \<le> now) \<and>
          (nextRetryAtMs r = 0 \<or> nextRetryAtMs r \<le> now)) rs)"

fun dispatch_loop ::
  "config \<Rightarrow> rat \<Rightarrow> string list \<Rightarrow> job_record list \<Rightarrow> ('s, unit) qop" where
  "dispatch_loop cfg now dispatchedPrKeys [] s = (Inr (), s)"
| "dispatch_loop cfg now dispatchedPrKeys (c # cs) s =
     (if prKey c \<in> set dispatchedPrKeys then dispatch_loop cfg now dispatchedPrKeys cs s
      else if hasActiveFor (records_of s) (prKey c) then dispatch_loop cfg now dispatchedPrKeys cs s
      else if findSupersedingSibling (records_of s) c \<noteq> None
      then dispatch_loop cfg now dispatchedPrKeys cs s
      else if countActive (records_of s) \<ge> maxConcurrent cfg then (Inr (), s)
      else if scopeFull cfg (records_of s) c then dispatch_loop cfg now dispatchedPrKeys cs s
      else seqn (start cfg c now) (dispatch_loop cfg now (prKey c # dispatchedPrKeys) cs) s)"

definition dispatchEligible :: "config \<Rightarrow> rat \<Rightarrow> ('s, unit) qop" where
  "dispatchEligible cfg now s = dispatch_loop cfg now [] (dispatch_candidates now (records_of s)) s"

definition tick :: "config \<Rightarrow> 's store_ops \<Rightarrow> rat \<Rightarrow> ('s, unit) qop" where
  "tick cfg st now =
     seqn (ensureLoaded st)
    (seqn (expireLeases cfg now)
    (seqn (expireDeadlines now)
    (seqn (retryPublishes cfg now)
    (seqn (\<lambda>s. if \<not> intakeClosed s then dispatchEligible cfg now s else (Inr (), s))
      (save st)))))"

section \<open>Settling an execution\<close>

text \<open>\<open>settleCompleted\<close>: the result is committed as \<open>publishing\<close>, then retired, completed, or
  handed to the publisher after a save.\<close>

definition settleCompleted :: "config \<Rightarrow> 's store_ops \<Rightarrow> string \<Rightarrow> string \<Rightarrow> job_record \<Rightarrow>
    execution_outcome \<Rightarrow> rat \<Rightarrow> ('s, unit) qop" where
  "settleCompleted cfg st j token r oc now =
     bnd (lift_sum (withState r Publishing (Fin now))) (\<lambda>r1.
       let publishing = r1\<lparr>resultHeadSha := oc_resultHeadSha oc\<rparr> in
       seqn (set_rec j publishing) (\<lambda>s.
         if \<not> mayPublish (records_of s) publishing then
           move j publishing Superseded now (\<lambda>r. r\<lparr>failureReason := ''superseded-by-newer-head'',
             supersededByJobId := attributed (records_of s) publishing,
             leaseOwner := '''', leaseExpiresAtMs := 0\<rparr>) s
         else if \<not> hasPublisher cfg then
           move j publishing Completed now (\<lambda>r. r\<lparr>leaseOwner := '''', leaseExpiresAtMs := 0\<rparr>) s
         else if j \<in> set (inflight s) then (Inr (), s)
         else
           seqn (modify (\<lambda>s. s\<lparr>inflight := inflight s @ [j]\<rparr>))
          (seqn (save st)
            (modify (firePublishSettle j token publishing now))) s))"

definition retry_backoff :: "config \<Rightarrow> nat \<Rightarrow> rat" where
  "retry_backoff cfg attempts =
     min (of_nat (retryBaseMs cfg) * 2 ^ attempts / 2) (retryMaxMs cfg)"

definition settleFailed ::
  "config \<Rightarrow> string \<Rightarrow> job_record \<Rightarrow> execution_outcome \<Rightarrow> rat \<Rightarrow> ('s, unit) qop" where
  "settleFailed cfg j r oc now s =
     (if cancelRequested r \<or> findSupersedingSibling (records_of s) r \<noteq> None then
        move j r Superseded now (\<lambda>r'. r'\<lparr>failureReason := ''superseded-by-newer-head'',
          supersededByJobId := attributed (records_of s) r,
          leaseOwner := '''', leaseExpiresAtMs := 0\<rparr>) s
      else if attempt r \<ge> maxAttempts cfg then
        move j r Failed now (\<lambda>r. r\<lparr>failureReason :=
            (if oc_failureCategory oc \<noteq> '''' then oc_failureCategory oc else ''execution-failed''),
          leaseOwner := '''', leaseExpiresAtMs := 0\<rparr>) s
      else
        move j r Queued now (\<lambda>r'. r'\<lparr>nextRetryAtMs := now + retry_backoff cfg (attempt r),
          readyAtMs := now, leaseOwner := '''', leaseExpiresAtMs := 0\<rparr>) s)"

definition settleCancelled :: "string \<Rightarrow> job_record \<Rightarrow> rat \<Rightarrow> ('s, unit) qop" where
  "settleCancelled j r now =
     move j r Cancelled now (\<lambda>r'. r'\<lparr>failureReason :=
         (if cancelRequested r then ''cancelled-by-supersession'' else ''cancelled-shutdown''),
       leaseOwner := '''', leaseExpiresAtMs := 0\<rparr>)"

definition settle :: "config \<Rightarrow> 's store_ops \<Rightarrow> string \<Rightarrow> string \<Rightarrow> execution_outcome \<Rightarrow> rat \<Rightarrow>
    ('s, unit) qop" where
  "settle cfg st j token oc now s =
     (case map_of (recs s) j of
        None \<Rightarrow> modify (releaseController j token) s
      | Some r \<Rightarrow>
          if isTerminalState (state r) \<or> leaseOwner r \<noteq> token
          then modify (releaseController j token) s
          else
            seqn (case oc_status oc of
                    Out_completed \<Rightarrow> settleCompleted cfg st j token r oc now
                  | Out_failed \<Rightarrow> settleFailed cfg j r oc now
                  | Out_cancelled \<Rightarrow> settleCancelled j r now)
           (seqn (modify (releaseController j token))
             (save st)) s)"

section \<open>Resolving a publish call\<close>

text \<open>\<open>runPublish\<close> after the \<open>await\<close>; a publisher that throws counts as \<open>published = False\<close>.\<close>

definition runPublish ::
  "config \<Rightarrow> 's store_ops \<Rightarrow> publish_call \<Rightarrow> bool \<Rightarrow> ('s, unit) qop" where
  "runPublish cfg st call published =
     seqn (modify (\<lambda>s. s\<lparr>calls := remove1 call (calls s),
             inflight := filter (\<lambda>i. i \<noteq> pc_jobId call) (inflight s)\<rparr>))
       (\<lambda>s. case map_of (recs s) (pc_jobId call) of
          None \<Rightarrow> (Inr (), s)
        | Some current \<Rightarrow>
            if state current \<noteq> Publishing then (Inr (), s)
            else if pc_requireLeaseMatch call \<and> leaseOwner current \<noteq> pc_token call then (Inr (), s)
            else if \<not> mayPublish (records_of s) current then
              seqn (move (pc_jobId call) current Superseded (pc_now call) (\<lambda>r.
                      r\<lparr>failureReason := ''superseded-by-newer-head'',
                        supersededByJobId := attributed (records_of s) current,
                        leaseOwner := '''', leaseExpiresAtMs := 0\<rparr>)) (save st) s
            else
              seqn (if published then
                      move (pc_jobId call) current Completed (pc_now call)
                        (\<lambda>r. r\<lparr>nextRetryAtMs := 0, leaseOwner := '''', leaseExpiresAtMs := 0\<rparr>)
                    else
                      set_rec (pc_jobId call) (current\<lparr>
                        nextRetryAtMs := pc_now call + publishRetryDelayMs cfg,
                        updatedAtMs := pc_now call, leaseOwner := '''', leaseExpiresAtMs := 0\<rparr>))
                (save st) s)"

section \<open>Workers' heartbeats and recovered executions\<close>

definition heartbeat ::
  "config \<Rightarrow> 's store_ops \<Rightarrow> string \<Rightarrow> string \<Rightarrow> rat \<Rightarrow> ('s, bool) qop" where
  "heartbeat cfg st j owner now =
     seqn (ensureLoaded st) (\<lambda>s.
       case map_of (recs s) j of
         None \<Rightarrow> (Inr False, s)
       | Some r \<Rightarrow>
           if \<not> leaseIsValid r owner (Fin now) then (Inr False, s)
           else bnd (lift_sum (withRenewedLease r owner (Fin now) (Fin (leaseTtlMs cfg))))
                  (\<lambda>r'. seqn (set_rec j r') (seqn (save st) (ret True))) s)"

definition resolveRecovered :: "config \<Rightarrow> 's store_ops \<Rightarrow> string \<Rightarrow> execution_outcome \<Rightarrow> rat \<Rightarrow>
    ('s, bool) qop" where
  "resolveRecovered cfg st j oc now =
     seqn (ensureLoaded st) (\<lambda>s.
       case map_of (recs s) j of
         None \<Rightarrow> (Inr False, s)
       | Some r \<Rightarrow>
           if isTerminalState (state r) then (Inr False, s)
           else if state r \<noteq> Starting \<and> state r \<noteq> Running then (Inr False, s)
           else if map_of (ctrls s) j \<noteq> None then (Inr False, s)
           else if leaseOwner r = '''' then (Inr False, s)
           else seqn (settle cfg st j (leaseOwner r) oc now) (ret True) s)"

definition adoptRecovered ::
  "config \<Rightarrow> 's store_ops \<Rightarrow> string \<Rightarrow> string \<Rightarrow> rat \<Rightarrow> ('s, bool) qop" where
  "adoptRecovered cfg st j owner now =
     (if owner = '''' then ret False
      else seqn (ensureLoaded st) (\<lambda>s.
        case map_of (recs s) j of
          None \<Rightarrow> (Inr False, s)
        | Some r \<Rightarrow>
            if state r \<noteq> Starting \<and> state r \<noteq> Running then (Inr False, s)
            else if map_of (ctrls s) j \<noteq> None then (Inr False, s)
            else bnd (lift_sum (withRenewedLease r owner (Fin now) (Fin (leaseTtlMs cfg))))
                   (\<lambda>r'. seqn (set_rec j r') (seqn (save st) (ret True))) s))"

section \<open>Shutdown\<close>

text \<open>What the runtime may resolve while \<open>shutdown\<close> awaits: executors and publish calls.\<close>

datatype async_event =
    Execution string string execution_outcome rat
  | Publication publish_call bool

definition run_async :: "config \<Rightarrow> 's store_ops \<Rightarrow> async_event \<Rightarrow> ('s, unit) qop" where
  "run_async cfg st ev s =
     (case ev of
        Execution j token oc now \<Rightarrow>
          if (j, token) \<in> set (executing s)
          then (Inr (), snd (settle cfg st j token oc now
                 (s\<lparr>executing := remove1 (j, token) (executing s)\<rparr>)))
          else (Inr (), s)
      | Publication call published \<Rightarrow>
          if call \<in> set (calls s) then (Inr (), snd (runPublish cfg st call published s))
          else (Inr (), s))"

text \<open>\<open>drainFingerprint\<close>, as the tuple of what the string is built from.\<close>

definition drainFingerprint ::
  "'s qstate \<Rightarrow> nat \<times> (string \<times> job_state \<times> nat \<times> rat) list" where
  "drainFingerprint s =
     (length (recs s),
      map (\<lambda>e. (fst e, state (snd e), attempt (snd e), nextRetryAtMs (snd e)))
        (filter (\<lambda>e. isActiveState (state (snd e))) (recs s)))"

text \<open>The drain loop; \<open>clock\<close> is the clock at each pass, \<open>async\<close> what resolves during its
  microtask flushes, and the first argument counts the passes left (128 at the call).\<close>

fun drain_loop :: "nat \<Rightarrow> config \<Rightarrow> 's store_ops \<Rightarrow> (nat \<Rightarrow> rat) \<Rightarrow> (nat \<Rightarrow> async_event list) \<Rightarrow>
    rat \<Rightarrow> rat \<Rightarrow> nat \<times> (string \<times> job_state \<times> nat \<times> rat) list \<Rightarrow> ('s, unit) qop" where
  "drain_loop 0 cfg st clock async begin budget previous s = (Inr (), s)"
| "drain_loop (Suc left) cfg st clock async begin budget previous s =
     (let pass = 128 - Suc left in
      if countActive (records_of s) = 0 then (Inr (), s)
      else if clock pass - begin \<ge> budget then (Inr (), s)
      else seqn (tick cfg st (clock pass))
          (seqn (for_each (async pass) (run_async cfg st))
             (\<lambda>s. if drainFingerprint s = previous then (Inr (), s)
                  else drain_loop left cfg st clock async begin budget (drainFingerprint s) s)) s)"

definition shutdown_one :: "rat \<Rightarrow> string \<times> job_record \<Rightarrow> ('s, unit) qop" where
  "shutdown_one now e =
     (case e of (j, r) \<Rightarrow>
       if \<not> isActiveState (state r) then ret ()
       else if state r = Publishing \<and> resultHeadSha r \<noteq> '''' then ret ()
       else move j r Cancelled now (\<lambda>r. r\<lparr>failureReason := ''shutdown'', leaseOwner := '''',
              leaseExpiresAtMs := 0\<rparr>))"

definition drain_budget :: "jsnum \<Rightarrow> rat" where
  "drain_budget drainMs = (case drainMs of Fin q \<Rightarrow> if q > 0 then q else 0 | _ \<Rightarrow> 0)"

text \<open>\<open>end_time\<close> is the clock read after the drain.\<close>

definition shutdown :: "config \<Rightarrow> 's store_ops \<Rightarrow> jsnum \<Rightarrow> (nat \<Rightarrow> rat) \<Rightarrow>
    (nat \<Rightarrow> async_event list) \<Rightarrow> rat \<Rightarrow> rat \<Rightarrow> ('s, unit) qop" where
  "shutdown cfg st drainMs clock async begin end_time =
     seqn (modify (\<lambda>s. s\<lparr>intakeClosed := True\<rparr>))
    (seqn (\<lambda>s. drain_loop 128 cfg st clock async begin (drain_budget drainMs)
              (drainFingerprint s) s)
    (seqn (modify (\<lambda>s. s\<lparr>aborted := map snd (ctrls s) @ aborted s, ctrls := []\<rparr>))
    (seqn (\<lambda>s. for_each (recs s) (shutdown_one end_time) s)
      (save st))))"

section \<open>The controller as a state machine\<close>

text \<open>
  One step of the queue: a call of a public method, the resolution of an executor promise or of a
  publish call, or a restart of the process (which keeps only the store), with or without the
  recovery pass. A step is the state change of the operation, whether it returns or throws. The
  clock is any non-negative number: nothing below depends on it being monotonic.
\<close>

definition timely :: "async_event \<Rightarrow> bool" where
  "timely ev = (case ev of Execution j token oc now \<Rightarrow> 0 \<le> now | Publication call p \<Rightarrow> True)"

inductive step :: "config \<Rightarrow> 's store_ops \<Rightarrow> 's qstate \<Rightarrow> 's qstate \<Rightarrow> bool"
  for cfg :: config and st :: "'s store_ops" where
  enqueue: "0 \<le> now \<Longrightarrow> step cfg st s (snd (enqueue cfg st v now s))"
| tick: "0 \<le> now \<Longrightarrow> step cfg st s (snd (tick cfg st now s))"
| heartbeat: "0 \<le> now \<Longrightarrow> step cfg st s (snd (heartbeat cfg st j owner now s))"
| resolve: "0 \<le> now \<Longrightarrow> step cfg st s (snd (resolveRecovered cfg st j oc now s))"
| adopt: "0 \<le> now \<Longrightarrow> step cfg st s (snd (adoptRecovered cfg st j owner now s))"
| async: "timely ev \<Longrightarrow> step cfg st s (snd (run_async cfg st ev s))"
| shutdown: "0 \<le> begin \<Longrightarrow> 0 \<le> end_time \<Longrightarrow> \<forall>i. 0 \<le> clock i \<Longrightarrow>
    \<forall>i. \<forall>ev \<in> set (async i). timely ev \<Longrightarrow>
    step cfg st s (snd (shutdown cfg st drainMs clock async begin end_time s))"
| restart: "step cfg st s (fresh_controller (durable s))"
| recover: "0 \<le> now \<Longrightarrow> step cfg st s (snd (recover cfg st now (fresh_controller (durable s))))"

text \<open>The states reachable from an empty store.\<close>

inductive reachable :: "config \<Rightarrow> 's store_ops \<Rightarrow> 's qstate \<Rightarrow> bool"
  for cfg :: config and st :: "'s store_ops" where
  initial: "st_load st d = Inr emptyQueueSnapshot \<Longrightarrow> reachable cfg st (fresh_controller d)"
| next_step: "reachable cfg st s \<Longrightarrow> step cfg st s s' \<Longrightarrow> reachable cfg st s'"

inductive_cases step_elim: "step cfg st s s'"
inductive_cases reachable_elim: "reachable cfg st s"
inductive_simps reachable_simps: "reachable cfg st s"

end
