(* ===== verification/Scheduler_Invariants.thy ===== *)
theory Scheduler_Invariants
  imports Scheduler
begin

text \<open>
  The invariant of the review-queue controller and the proof that every operation keeps it, over
  any store that behaves like the in-memory one (\<open>reliable_store\<close>).

  \<^item> \<open>recs_ok\<close>: what holds of the records alone, and so of the durable snapshot.
  \<^item> \<open>core_x X\<close>: the records together with the abort controllers, the pending executor promises
    and the pending publish calls. An operation that changes a record before it drops the record's
    controller passes through states in which the jobs of \<open>X\<close> are exempt from \<open>ctrl_ok\<close>.
  \<^item> \<open>evo\<close>: the two-state part, how records evolve.
\<close>

declare map_of_eq_Some_iff [simp del]

section \<open>Stores that do not fail\<close>

locale reliable_store =
  fixes st :: "'s store_ops"
  assumes save_valid: "valid_snapshot rs \<Longrightarrow> \<exists>d'. st_save st rs d = (Inr (), d') \<and> st_load st d' = Inr rs"

definition mem_store :: "queue_snapshot store_ops" where
  "mem_store = \<lparr>st_load = mem_load, st_save = mem_save\<rparr>"

definition json_store :: "io_faults \<Rightarrow> file_system store_ops" where
  "json_store io = \<lparr>st_load = json_load, st_save = json_save io\<rparr>"

definition no_faults :: io_faults where
  "no_faults x = Done"

interpretation mem_reliable: reliable_store mem_store
proof
  fix rs d :: queue_snapshot assume "valid_snapshot rs"
  then have "mem_save rs d = (Inr (), rs)"
    by (simp add: mem_save_def parseQueueSnapshot_js [THEN iffD2])
  then show "\<exists>d'. st_save mem_store rs d = (Inr (), d') \<and> st_load mem_store d' = Inr rs"
    by (simp add: mem_store_def mem_load_def)
qed

interpretation json_reliable: reliable_store "json_store no_faults"
proof
  fix rs d assume "valid_snapshot rs"
  moreover have "unfailing no_faults" "no_faults Write_tmp \<noteq> Short"
    by (simp_all add: unfailing_def no_faults_def)
  ultimately show
    "\<exists>d'. st_save (json_store no_faults) rs d = (Inr (), d') \<and>
      st_load (json_store no_faults) d' = Inr rs"
    by (simp add: json_store_def json_save_unfailing json_load_written)
qed

section \<open>The invariant\<close>

definition config_ok :: "config \<Rightarrow> bool" where
  "config_ok cfg \<longleftrightarrow> 1 \<le> maxConcurrent cfg \<and> 0 < leaseTtlMs cfg \<and> 1 \<le> maxAttempts cfg \<and>
     of_nat (retryBaseMs cfg) \<le> retryMaxMs cfg"

definition record_ok :: "config \<Rightarrow> string \<Rightarrow> job_record \<Rightarrow> bool" where
  "record_ok cfg j r \<longleftrightarrow>
     record_id r = j \<and> valid_record r \<and> state r \<noteq> Starting \<and> attempt r \<le> maxAttempts cfg \<and>
     (state r = Queued \<longrightarrow> attempt r < maxAttempts cfg) \<and>
     (state r = Queued \<or> isTerminalState (state r) \<longrightarrow> leaseOwner r = '''')"

definition exclusive :: "(string \<times> job_record) list \<Rightarrow> bool" where
  "exclusive m \<longleftrightarrow> (\<forall>i j r r'. map_of m i = Some r \<longrightarrow> map_of m j = Some r' \<longrightarrow>
     occupying r \<longrightarrow> occupying r' \<longrightarrow> prKey r = prKey r' \<longrightarrow> i = j)"

definition recs_ok :: "config \<Rightarrow> (string \<times> job_record) list \<Rightarrow> bool" where
  "recs_ok cfg m \<longleftrightarrow> map_ok m \<and> (\<forall>j r. map_of m j = Some r \<longrightarrow> record_ok cfg j r) \<and>
     exclusive m \<and> countActive (map snd m) \<le> maxConcurrent cfg"

definition lease_ok :: "'s qstate \<Rightarrow> string \<Rightarrow> job_record \<Rightarrow> bool" where
  "lease_ok s j r \<longleftrightarrow> (\<forall>token. (j, token) \<in> set (executing s) \<longrightarrow> leaseOwner r = token \<longrightarrow>
     \<not> isTerminalState (state r) \<longrightarrow> state r = Running)"

definition ctrl_ok :: "'s qstate \<Rightarrow> string \<Rightarrow> job_record \<Rightarrow> bool" where
  "ctrl_ok s j r \<longleftrightarrow>
     (\<forall>token. map_of (ctrls s) j = Some token \<longrightarrow> state r = Running \<and> leaseOwner r = token) \<and>
     (state r = Running \<longrightarrow> j \<in> fst ` set (executing s) \<longrightarrow> map_of (ctrls s) j \<noteq> None)"

definition exec_ok :: "'s qstate \<Rightarrow> bool" where
  "exec_ok s \<longleftrightarrow> distinct (executing s) \<and>
     (\<forall>j token. (j, token) \<in> set (executing s) \<longrightarrow>
        (\<exists>n \<le> tokctr s. token = lease_token j n) \<and>
        (map_of (ctrls s) j = Some token \<or> token \<in> set (aborted s)))"

definition calls_ok :: "'s qstate \<Rightarrow> bool" where
  "calls_ok s \<longleftrightarrow> map pc_jobId (calls s) = inflight s \<and> distinct (inflight s) \<and>
     (\<forall>c \<in> set (calls s). 0 \<le> pc_now c)"

definition core_x :: "string set \<Rightarrow> config \<Rightarrow> 's qstate \<Rightarrow> bool" where
  "core_x X cfg s \<longleftrightarrow> recs_ok cfg (recs s) \<and> map_ok (ctrls s) \<and>
     (\<forall>j. map_of (ctrls s) j \<noteq> None \<longrightarrow> map_of (recs s) j \<noteq> None) \<and>
     (\<forall>j r. map_of (recs s) j = Some r \<longrightarrow> lease_ok s j r \<and> (j \<notin> X \<longrightarrow> ctrl_ok s j r)) \<and>
     exec_ok s \<and> calls_ok s"

abbreviation core :: "config \<Rightarrow> 's qstate \<Rightarrow> bool" where
  "core cfg s \<equiv> core_x {} cfg s"

text \<open>How one record evolves: its identity is fixed, its state moves along the transition table,
  and a terminal record is never touched again.\<close>

definition evolves :: "job_record \<Rightarrow> job_record \<Rightarrow> bool" where
  "evolves r r' \<longleftrightarrow> job r' = job r \<and> prKey r' = prKey r \<and> enqueuedAtMs r' = enqueuedAtMs r \<and>
     attempt r \<le> attempt r' \<and>
     canTransition\<^sup>*\<^sup>* (state r) (state r') \<and> (isTerminalState (state r) \<longrightarrow> r' = r)"

definition records_evolve :: "(string \<times> job_record) list \<Rightarrow> (string \<times> job_record) list \<Rightarrow> bool" where
  "records_evolve m m' \<longleftrightarrow>
     (\<forall>j r. map_of m j = Some r \<longrightarrow> (\<exists>r'. map_of m' j = Some r' \<and> evolves r r'))"

definition evo :: "'s qstate \<Rightarrow> 's qstate \<Rightarrow> bool" where
  "evo s s' \<longleftrightarrow> records_evolve (recs s) (recs s') \<and> loaded s' = loaded s \<and>
     (intakeClosed s \<longrightarrow> intakeClosed s')"

lemma evolves_refl [simp]: "evolves r r"
  by (simp add: evolves_def)

lemma evolves_trans: "evolves r r' \<Longrightarrow> evolves r' r'' \<Longrightarrow> evolves r r''"
  by (auto simp: evolves_def)

lemma evolvesI:
  "canTransition (state r) (state r') \<or> (state r' = state r \<and> \<not> isTerminalState (state r)) \<Longrightarrow>
    job r' = job r \<Longrightarrow> prKey r' = prKey r \<Longrightarrow> enqueuedAtMs r' = enqueuedAtMs r \<Longrightarrow>
    attempt r \<le> attempt r' \<Longrightarrow> evolves r r'"
  by (auto simp: evolves_def dest: terminal_no_transition)

lemma records_evolve_refl [simp]: "records_evolve m m"
  by (simp add: records_evolve_def)

lemma records_evolve_trans:
  "records_evolve m m' \<Longrightarrow> records_evolve m' m'' \<Longrightarrow> records_evolve m m''"
  unfolding records_evolve_def by (meson evolves_trans)

lemma records_evolve_update:
  "map_of m j = Some r \<Longrightarrow> evolves r r' \<Longrightarrow> records_evolve m (AList.update j r' m)"
  by (auto simp: records_evolve_def)

lemma records_evolve_insert: "map_of m j = None \<Longrightarrow> records_evolve m (AList.update j r' m)"
  by (auto simp: records_evolve_def)

lemma evo_refl [simp]: "evo s s"
  by (simp add: evo_def)

lemma evo_trans: "evo s t \<Longrightarrow> evo t u \<Longrightarrow> evo s u"
  by (auto simp: evo_def intro: records_evolve_trans)

text \<open>A contract over controller states adds the loop over a copy of the records: the body may
  change the record it is at, and no other.\<close>

definition only_record :: "string \<Rightarrow> 's qstate \<Rightarrow> 's qstate \<Rightarrow> bool" where
  "only_record j s s' \<longleftrightarrow> (\<forall>k. k \<noteq> j \<longrightarrow> map_of (recs s') k = map_of (recs s) k)"

locale queue_contract = state_contract inv rel
  for inv :: "'s qstate \<Rightarrow> bool" and rel :: "'s qstate \<Rightarrow> 's qstate \<Rightarrow> bool"
begin

lemma runs_records_all:
  assumes "inv s" and "map_ok (recs s)"
    and body: "\<And>j r s. inv s \<Longrightarrow> map_of (recs s) j = Some r \<Longrightarrow>
      runs (body (j, r) s) (\<lambda>_ s'. inv s' \<and> rel s s' \<and> only_record j s s' \<and>
        (\<forall>r'. map_of (recs s') j = Some r' \<longrightarrow> G r'))"
  shows "runs (for_each (recs s) body s) (\<lambda>_ s'. inv s' \<and> rel s s' \<and>
    (\<forall>k. map_of (recs s) k = None \<longrightarrow> map_of (recs s') k = None) \<and>
    (\<forall>k r. map_of (recs s') k = Some r \<longrightarrow> G r))"
proof -
  define P where "P rest t \<longleftrightarrow> inv t \<and> rel s t \<and> distinct (map fst rest) \<and>
      (\<forall>e \<in> set rest. map_of (recs t) (fst e) = Some (snd e)) \<and>
      (\<forall>k. map_of (recs s) k = None \<longrightarrow> map_of (recs t) k = None) \<and>
      (\<forall>k r. map_of (recs t) k = Some r \<longrightarrow> k \<in> fst ` set rest \<or> G r)" for rest t
  have "runs (for_each (recs s) body s) (\<lambda>_. P [])"
  proof (rule runs_for_each)
    show "P (recs s) s"
      using assms(1,2) by (auto simp: P_def rel_refl intro: rev_image_eqI dest: map_of_SomeD)
    fix e rest t assume p: "P (e # rest) t"
    then have "inv t" "map_of (recs t) (fst e) = Some (snd e)" by (simp_all add: P_def)
    from body [OF this] have "runs (body e t) (\<lambda>_ t'. inv t' \<and> rel t t' \<and>
      only_record (fst e) t t' \<and> (\<forall>r'. map_of (recs t') (fst e) = Some r' \<longrightarrow> G r'))" by simp
    then show "runs (body e t) (\<lambda>_. P rest)"
    proof (rule runs_mono)
      fix t' assume t': "inv t' \<and> rel t t' \<and> only_record (fst e) t t' \<and>
        (\<forall>r'. map_of (recs t') (fst e) = Some r' \<longrightarrow> G r')"
      have "rel s t'" using p t' rel_trans [of s t t'] by (simp add: P_def)
      moreover have "map_of (recs t') (fst e') = Some (snd e')" if "e' \<in> set rest" for e'
      proof -
        have "fst e \<notin> fst ` set rest" using p by (simp add: P_def)
        then have "fst e' \<noteq> fst e" using that by (metis imageI)
        then show ?thesis using p t' that by (simp add: P_def only_record_def)
      qed
      moreover have "map_of (recs t') k = None" if "map_of (recs s) k = None" for k
      proof -
        have "map_of (recs t) k = None" using p that by (simp add: P_def)
        moreover from this have "k \<noteq> fst e" using p by (auto simp: P_def)
        ultimately show ?thesis using t' by (simp add: only_record_def)
      qed
      moreover have "k \<in> fst ` set rest \<or> G r" if "map_of (recs t') k = Some r" for k r
        using that t' p by (cases "k = fst e") (auto simp: only_record_def P_def)
      ultimately show "P rest t'" using p t' by (simp add: P_def)
    qed
  qed
  then show ?thesis by (rule runs_mono) (auto simp: P_def)
qed

lemma runs_records:
  assumes "inv s" and "map_ok (recs s)"
    and body: "\<And>j r s. inv s \<Longrightarrow> map_of (recs s) j = Some r \<Longrightarrow>
      runs (body (j, r) s) (\<lambda>_ s'. inv s' \<and> rel s s' \<and> only_record j s s')"
  shows "runs (for_each (recs s) body s) (\<lambda>_ s'. inv s' \<and> rel s s' \<and>
    (\<forall>k. map_of (recs s) k = None \<longrightarrow> map_of (recs s') k = None))"
  by (rule runs_mono [OF runs_records_all [of s body "\<lambda>_. True"]]) (use assms in auto)

end

text \<open>What an operation of a loaded controller starts from, and what it keeps.\<close>

definition ready :: "config \<Rightarrow> 's qstate \<Rightarrow> bool" where
  "ready cfg s \<longleftrightarrow> core cfg s \<and> loaded s"

definition keeps :: "config \<Rightarrow> 's qstate \<Rightarrow> 's qstate \<Rightarrow> bool" where
  "keeps cfg s s' \<longleftrightarrow> ready cfg s' \<and> evo s s'"

interpretation controller: queue_contract "ready cfg" evo for cfg :: config
  by unfold_locales (auto intro: evo_trans)

section \<open>Changing one record\<close>

lemma lease_token_inject [simp]: "lease_token j m = lease_token j n \<longleftrightarrow> m = n"
  by (simp add: lease_token_def)

lemma lease_token_nonempty [simp]: "lease_token j n \<noteq> ''''"
  by (simp add: lease_token_def)

lemma length_filter_update:
  "map_of m j = Some r \<Longrightarrow> map_ok m \<Longrightarrow>
    length (filter P (map snd (AList.update j r' m))) + (if P r then 1 else 0) =
    length (filter P (map snd m)) + (if P r' then 1 else 0)"
  by (induction m) (auto split: if_splits)

lemma length_filter_insert:
  "map_of m j = None \<Longrightarrow>
    length (filter P (map snd (AList.update j r' m))) =
    length (filter P (map snd m)) + (if P r' then 1 else 0)"
  by (induction m) (auto split: if_splits)

lemma recs_ok_update:
  assumes "recs_ok cfg m" and "map_of m j = Some r" and "record_ok cfg j r'"
    and "prKey r' = prKey r" and "occupying r' \<Longrightarrow> occupying r"
    and "state r' = Running \<Longrightarrow> state r = Running"
  shows "recs_ok cfg (AList.update j r' m)"
proof -
  from assms have ok: "map_ok m" and r: "record_ok cfg j r" by (auto simp: recs_ok_def)
  have "countActive (map snd (AList.update j r' m)) \<le> countActive (map snd m)"
    using length_filter_update [OF assms(2) ok, of "\<lambda>r. state r = Starting \<or> state r = Running" r']
      assms(3,6) r by (auto simp: countActive_def record_ok_def split: if_splits)
  moreover have "exclusive (AList.update j r' m)"
    using assms(1,2,4,5) unfolding recs_ok_def exclusive_def map_of_update_iff
    by (metis option.inject)
  ultimately show ?thesis
    using assms(1,3) by (auto simp: recs_ok_def AList_map_ok_update)
qed

lemma recs_ok_occupy:
  assumes "recs_ok cfg m" and "map_of m j = Some r" and "record_ok cfg j r'"
    and "prKey r' = prKey r" and "\<not> hasActiveFor (map snd m) (prKey r)"
    and "countActive (map snd m) < maxConcurrent cfg"
  shows "recs_ok cfg (AList.update j r' m)"
proof -
  from assms have ok: "map_ok m" by (simp add: recs_ok_def)
  have free: "\<not> occupying r0" if "map_of m i = Some r0" "prKey r0 = prKey r" for i r0
  proof -
    have "r0 \<in> set (map snd m)" using map_of_SomeD [OF that(1)] by force
    then show ?thesis using assms(5) that(2) unfolding hasActiveFor_def list_ex_iff by blast
  qed
  have "countActive (map snd (AList.update j r' m)) \<le> maxConcurrent cfg"
    using length_filter_update [OF assms(2) ok, of "\<lambda>r. state r = Starting \<or> state r = Running" r']
      assms(6) by (auto simp: countActive_def split: if_splits)
  moreover have "exclusive (AList.update j r' m)"
    using assms(1,4) free unfolding recs_ok_def exclusive_def map_of_update_iff
    by (metis option.inject)
  ultimately show ?thesis
    using assms(1,3) by (auto simp: recs_ok_def AList_map_ok_update)
qed

lemma recs_ok_insert:
  assumes "recs_ok cfg m" and "map_of m j = None" and "record_ok cfg j r'" and "state r' = Queued"
  shows "recs_ok cfg (AList.update j r' m)"
proof -
  have "countActive (map snd (AList.update j r' m)) = countActive (map snd m)"
    using length_filter_insert [OF assms(2), of "\<lambda>r. state r = Starting \<or> state r = Running" r']
      assms(4) by (simp add: countActive_def)
  moreover have "exclusive (AList.update j r' m)"
    using assms(1,4) unfolding recs_ok_def exclusive_def map_of_update_iff occupying_def
    by (metis isActiveState.simps(4) option.inject)
  ultimately show ?thesis
    using assms(1,3) by (auto simp: recs_ok_def AList_map_ok_update)
qed

lemma core_recs: "core_x X cfg s \<Longrightarrow> recs_ok cfg (recs s)"
  by (simp add: core_x_def)

lemma core_record: "core_x X cfg s \<Longrightarrow> map_of (recs s) j = Some r \<Longrightarrow> record_ok cfg j r"
  by (simp add: core_x_def recs_ok_def)

lemma core_map_ok: "core_x X cfg s \<Longrightarrow> map_ok (recs s)"
  by (simp add: core_x_def recs_ok_def)

lemma core_weaken:
  assumes "core_x X cfg s" and "X \<subseteq> Y"
  shows "core_x Y cfg s"
  using assms unfolding core_x_def by blast

text \<open>The parts of the invariant read only some fields of the state.\<close>

lemma ok_recs [simp]:
  "lease_ok (s\<lparr>recs := m\<rparr>) = lease_ok s" "ctrl_ok (s\<lparr>recs := m\<rparr>) = ctrl_ok s"
  "exec_ok (s\<lparr>recs := m\<rparr>) = exec_ok s" "calls_ok (s\<lparr>recs := m\<rparr>) = calls_ok s"
  by (simp_all add: lease_ok_def [abs_def] ctrl_ok_def [abs_def] exec_ok_def calls_ok_def)

lemma ok_durable [simp]: "core_x X cfg (s\<lparr>durable := d\<rparr>) = core_x X cfg s"
  by (simp add: core_x_def lease_ok_def ctrl_ok_def exec_ok_def calls_ok_def)

lemma ok_closed [simp]: "core_x X cfg (s\<lparr>intakeClosed := b\<rparr>) = core_x X cfg s"
  by (simp add: core_x_def lease_ok_def ctrl_ok_def exec_ok_def calls_ok_def)

lemma ok_loaded [simp]: "core_x X cfg (s\<lparr>loaded := b\<rparr>) = core_x X cfg s"
  by (simp add: core_x_def lease_ok_def ctrl_ok_def exec_ok_def calls_ok_def)

lemma core_update:
  assumes "core_x (insert j X) cfg s" and "map_of (recs s) j = Some r"
    and "recs_ok cfg (AList.update j r' (recs s))"
    and "lease_ok s j r'" and "j \<in> X \<or> ctrl_ok s j r'"
  shows "core_x X cfg (s\<lparr>recs := AList.update j r' (recs s)\<rparr>)"
  using assms unfolding core_x_def by simp blast

text \<open>A record that is not running and has given up its lease.\<close>

definition idle :: "job_record \<Rightarrow> bool" where
  "idle r \<longleftrightarrow> state r \<noteq> Running \<and> (isTerminalState (state r) \<or> leaseOwner r = '''')"

lemma exec_token: "exec_ok s \<Longrightarrow> (j, token) \<in> set (executing s) \<Longrightarrow> token \<noteq> ''''"
  unfolding exec_ok_def by (metis lease_token_nonempty)

lemma idle_lease_ok: "exec_ok s \<Longrightarrow> idle r \<Longrightarrow> lease_ok s j r"
  using exec_token [of s j "''''"] by (auto simp: idle_def lease_ok_def)

lemma idle_ctrl_ok: "idle r \<Longrightarrow> map_of (ctrls s) j = None \<Longrightarrow> ctrl_ok s j r"
  by (simp add: idle_def ctrl_ok_def)

lemma withState_job: "withState r st n = Inr r' \<Longrightarrow> job r' = job r \<and> prKey r' = prKey r"
  by (auto simp: withState_def split: jsnum.splits if_splits)

lemma runs_move:
  assumes "canTransition (state r) st" and "\<And>s'. s' = s\<lparr>recs := AList.update j
      (upd (r\<lparr>state := st, updatedAtMs := now\<rparr>)) (recs s)\<rparr> \<Longrightarrow> Q () s'"
  shows "runs (move j r st now upd s) Q"
  using assms by (simp add: runs_def move_def bnd_def withState_def set_rec_def modify_def)

text \<open>The one rule behind every retirement and requeue.\<close>

definition retires :: "config \<Rightarrow> string \<Rightarrow> job_record \<Rightarrow> job_record \<Rightarrow> bool" where
  "retires cfg j r r' \<longleftrightarrow> record_ok cfg j r' \<and> idle r' \<and> state r' \<noteq> Publishing \<and>
     canTransition (state r) (state r') \<and> job r' = job r \<and> prKey r' = prKey r \<and>
     enqueuedAtMs r' = enqueuedAtMs r \<and> attempt r' = attempt r"

lemma retires_evolves: "retires cfg j r r' \<Longrightarrow> evolves r r'"
  by (auto simp: retires_def intro!: evolvesI)

lemma runs_retire:
  assumes "core_x (insert j X) cfg s" and "map_of (recs s) j = Some r"
    and "canTransition (state r) st"
    and "retires cfg j r (upd (r\<lparr>state := st, updatedAtMs := now\<rparr>))"
    and "j \<in> X \<or> map_of (ctrls s) j = None"
  shows "runs (move j r st now upd s)
    (\<lambda>_ s'. core_x X cfg s' \<and> evo s s' \<and> only_record j s s' \<and>
       s' = s\<lparr>recs := AList.update j (upd (r\<lparr>state := st, updatedAtMs := now\<rparr>)) (recs s)\<rparr>)"
proof (rule runs_move [OF assms(3)])
  let ?r = "upd (r\<lparr>state := st, updatedAtMs := now\<rparr>)"
  fix s' assume s': "s' = s\<lparr>recs := AList.update j ?r (recs s)\<rparr>"
  have "\<not> occupying ?r" "state ?r \<noteq> Running" and r: "record_ok cfg j ?r" "prKey ?r = prKey r"
    and i: "idle ?r"
    using assms(4) by (auto simp: retires_def idle_def occupying_def record_ok_def active_cases)
  then have "recs_ok cfg (AList.update j ?r (recs s))"
    by (intro recs_ok_update [OF core_recs [OF assms(1)] assms(2) r]) auto
  moreover have "exec_ok s" using assms(1) by (simp add: core_x_def)
  ultimately have "core_x X cfg s'"
    unfolding s' using assms(1,2,5) i
    by (intro core_update) (auto intro: idle_lease_ok idle_ctrl_ok)
  moreover have "evo s s'"
    using assms(2) retires_evolves [OF assms(4)] by (auto simp: evo_def s' records_evolve_update)
  moreover have "only_record j s s'" by (simp add: only_record_def s')
  ultimately show "core_x X cfg s' \<and> evo s s' \<and> only_record j s s' \<and>
      s' = s\<lparr>recs := AList.update j ?r (recs s)\<rparr>"
    using s' by simp
qed

section \<open>The scheduling pass keeps the invariant\<close>

definition keeps_at :: "config \<Rightarrow> string \<Rightarrow> 's qstate \<Rightarrow> 's qstate \<Rightarrow> bool" where
  "keeps_at cfg j s s' \<longleftrightarrow>
     ready cfg s' \<and> evo s s' \<and> only_record j s s'"

lemma keeps_at_same: "ready cfg s \<Longrightarrow> keeps_at cfg j s s"
  by (simp add: keeps_at_def only_record_def)

lemma runs_modify [simp]: "runs (modify f s) Q \<longleftrightarrow> Q () (f s)"
  by (simp add: runs_def modify_def)

lemma retire_keeps_at:
  assumes "core_x (insert j {}) cfg s" and "loaded s" and "map_of (recs s) j = Some r"
    and "canTransition (state r) st"
    and "retires cfg j r (upd (r\<lparr>state := st, updatedAtMs := now\<rparr>))"
    and "map_of (ctrls s) j = None"
  shows "runs (move j r st now upd s) (\<lambda>_. keeps_at cfg j s)"
  using assms(2,6)
  by (intro runs_mono [OF runs_retire [of j "{}" cfg s r st upd now, OF assms(1,3,4,5)]]) (auto simp: evo_def keeps_at_def ready_def)

lemma only_record_eq: "recs s = recs t \<Longrightarrow> only_record j s = only_record j t"
  by (simp add: only_record_def fun_eq_iff)

lemma evo_recs_eq:
  "recs s = recs t \<Longrightarrow> loaded s = loaded t \<Longrightarrow> intakeClosed s = intakeClosed t \<Longrightarrow> evo s = evo t"
  by (simp add: evo_def fun_eq_iff)

lemma abortAndForget_simps [simp]:
  "recs (abortAndForget j s) = recs s" "loaded (abortAndForget j s) = loaded s"
  "intakeClosed (abortAndForget j s) = intakeClosed s"
  "ctrls (abortAndForget j s) = AList.delete j (ctrls s)"
  "executing (abortAndForget j s) = executing s" "durable (abortAndForget j s) = durable s"
  "calls (abortAndForget j s) = calls s" "inflight (abortAndForget j s) = inflight s"
  "tokctr (abortAndForget j s) = tokctr s"
  "set (aborted (abortAndForget j s)) = set (aborted s) \<union> set_option (map_of (ctrls s) j)"
  by (auto simp: abortAndForget_def abort_signal_def split: option.split)

lemma abortAndForget_core:
  assumes "core_x X cfg s"
  shows "core_x (insert j X) cfg (abortAndForget j s)"
proof -
  have "lease_ok (abortAndForget j s) = lease_ok s"
    by (simp add: lease_ok_def [abs_def])
  moreover have "ctrl_ok (abortAndForget j s) i r \<longleftrightarrow> ctrl_ok s i r" if "i \<noteq> j" for i r
    using that by (simp add: ctrl_ok_def)
  moreover have "exec_ok s" using assms by (simp add: core_x_def)
  then have "exec_ok (abortAndForget j s)"
    unfolding exec_ok_def by (auto simp: elem_set)
  moreover have "calls_ok (abortAndForget j s)"
    using assms by (simp add: core_x_def calls_ok_def)
  ultimately show ?thesis
    using assms unfolding core_x_def by (simp add: AList_map_ok_delete)
qed

lemma record_times:
  "record_ok cfg j r \<Longrightarrow> 0 \<le> enqueuedAtMs r \<and> 0 \<le> readyAtMs r \<and> 0 \<le> nextRetryAtMs r \<and>
    0 \<le> leaseExpiresAtMs r \<and> 0 \<le> updatedAtMs r"
  by (simp add: record_ok_def valid_record_def)

lemma retiresI:
  assumes "record_ok cfg j r" and "canTransition (state r) (state r')"
    and "state r' \<notin> {Starting, Running, Publishing}"
    and "state r' = Queued \<longrightarrow> attempt r < maxAttempts cfg"
    and "job r' = job r \<and> prKey r' = prKey r \<and> enqueuedAtMs r' = enqueuedAtMs r \<and>
      attempt r' = attempt r \<and> leaseOwner r' = ''''"
    and "0 \<le> readyAtMs r' \<and> 0 \<le> nextRetryAtMs r' \<and> 0 \<le> leaseExpiresAtMs r' \<and> 0 \<le> updatedAtMs r'"
  shows "retires cfg j r r'"
  using assms by (simp add: retires_def idle_def record_ok_def valid_record_def record_id_def)

lemma abort_then_retire:
  assumes "ready cfg s" and "map_of (recs s) j = Some r"
    and "canTransition (state r) st"
    and "retires cfg j r (upd (r\<lparr>state := st, updatedAtMs := now\<rparr>))"
  shows "runs (move j r st now upd (abortAndForget j s)) (\<lambda>_. keeps_at cfg j s)"
proof -
  let ?s = "abortAndForget j s"
  have "keeps_at cfg j ?s = keeps_at cfg j s"
    by (simp add: keeps_at_def [abs_def] only_record_eq [of ?s s] evo_recs_eq [of ?s s])
  moreover have "core_x {j} cfg ?s" using assms(1) abortAndForget_core [of "{}" cfg s j] by (simp add: ready_def)
  ultimately show ?thesis
    using retire_keeps_at [of j cfg ?s r st upd now] assms by (simp add: ready_def)
qed

lemma active_can:
  "isActiveState s \<Longrightarrow> canTransition s Superseded \<and> canTransition s Queued \<and>
     canTransition s Failed \<and> canTransition s Cancelled"
  by (auto simp: active_cases)

lemma expire_lease_keeps:
  assumes "ready cfg s" and "map_of (recs s) j = Some r" and "0 \<le> now"
  shows "runs (expire_lease cfg now (j, r) s) (\<lambda>_. keeps_at cfg j s)"
proof -
  have r: "record_ok cfg j r" using assms core_record unfolding ready_def by blast
  show ?thesis
    using r \<open>0 \<le> now\<close> active_can [of "state r"] keeps_at_same [OF assms(1)]
    by (auto simp: expire_lease_def record_times split: option.split
        intro!: abort_then_retire [OF assms(1,2)] retiresI [OF r])
qed

lemma expire_deadline_keeps:
  assumes "ready cfg s" and "map_of (recs s) j = Some r" and "0 \<le> now"
  shows "runs (expire_deadline now (j, r) s) (\<lambda>_. keeps_at cfg j s)"
proof -
  have r: "record_ok cfg j r" using assms core_record unfolding ready_def by blast
  have "canTransition (state r) Cancelled" if "\<not> isTerminalState (state r)"
    using that by (cases "state r") auto
  then show ?thesis
    using r \<open>0 \<le> now\<close> keeps_at_same [OF assms(1)]
    by (auto simp: expire_deadline_def record_times
        intro!: abort_then_retire [OF assms(1,2)] retiresI [OF r])
qed

text \<open>Only a running record has a controller.\<close>

lemma no_controller:
  "core cfg s \<Longrightarrow> map_of (recs s) j = Some r \<Longrightarrow> state r \<noteq> Running \<Longrightarrow> map_of (ctrls s) j = None"
  by (cases "map_of (ctrls s) j") (auto simp: core_x_def ctrl_ok_def)

lemma ok_publish [simp]:
  "lease_ok (s\<lparr>inflight := i\<rparr>) = lease_ok s" "ctrl_ok (s\<lparr>inflight := i\<rparr>) = ctrl_ok s"
  "exec_ok (s\<lparr>inflight := i\<rparr>) = exec_ok s" "lease_ok (s\<lparr>calls := c\<rparr>) = lease_ok s"
  "ctrl_ok (s\<lparr>calls := c\<rparr>) = ctrl_ok s" "exec_ok (s\<lparr>calls := c\<rparr>) = exec_ok s"
  by (simp_all add: lease_ok_def [abs_def] ctrl_ok_def [abs_def] exec_ok_def)

lemma core_fire:
  assumes "core_x X cfg s" and "pc_jobId call \<notin> set (inflight s)" and "0 \<le> pc_now call"
  shows "core_x X cfg (s\<lparr>inflight := inflight s @ [pc_jobId call], calls := calls s @ [call]\<rparr>)"
proof -
  have "calls_ok (s\<lparr>inflight := inflight s @ [pc_jobId call], calls := calls s @ [call]\<rparr>)"
    using assms by (simp add: core_x_def calls_ok_def)
  then show ?thesis using assms(1) unfolding core_x_def by simp
qed

lemma retry_publish_keeps:
  assumes "ready cfg s" and "map_of (recs s) j = Some r" and "0 \<le> now"
  shows "runs (retry_publish now (j, r) s) (\<lambda>_. keeps_at cfg j s)"
proof -
  have r: "record_ok cfg j r" using assms core_record unfolding ready_def by blast
  have c: "core_x {j} cfg s" using assms(1) core_weaken unfolding ready_def by blast
  have fired: "keeps_at cfg j s (firePublishRetry j r now s)" if "j \<notin> set (inflight s)"
    using that assms core_fire [of "{}" cfg s "\<lparr>pc_jobId = j, pc_token = '''', pc_record = r,
        pc_now = now, pc_requireLeaseMatch = False\<rparr>"]
    by (simp add: keeps_at_def ready_def firePublishRetry_def fire_def evo_def only_record_def)
  show ?thesis
    using r \<open>0 \<le> now\<close> keeps_at_same [OF assms(1)] no_controller [of cfg s j r] assms fired ready_def [of cfg s]
    by (auto simp: retry_publish_def record_times
        intro!: retire_keeps_at [OF c] retiresI [OF r])
qed

lemma keeps_same: "ready cfg s \<Longrightarrow> keeps cfg s s"
  by (simp add: keeps_def)

lemma keeps_trans: "keeps cfg s t \<Longrightarrow> keeps cfg t u \<Longrightarrow> keeps cfg s u"
  by (auto simp: keeps_def intro: evo_trans)

lemma keeps_ready: "keeps cfg s t \<Longrightarrow> ready cfg t"
  by (simp add: keeps_def)

lemma keeps_records:
  assumes "ready cfg s"
    and "\<And>j r s. ready cfg s \<Longrightarrow> map_of (recs s) j = Some r \<Longrightarrow>
      runs (body (j, r) s) (\<lambda>_. keeps_at cfg j s)"
  shows "runs (for_each (recs s) body s) (\<lambda>_. keeps cfg s)"
proof -
  have "map_ok (recs s)" using assms(1) core_map_ok by (auto simp: ready_def)
  from controller.runs_records [OF assms(1) this] assms(2) show ?thesis
    unfolding keeps_at_def keeps_def by (blast intro: runs_mono)
qed

lemma keeps_records_fresh:
  assumes "ready cfg s" and "map_of (recs s) k = None"
    and "\<And>j r s. ready cfg s \<Longrightarrow> map_of (recs s) j = Some r \<Longrightarrow>
      runs (body (j, r) s) (\<lambda>_. keeps_at cfg j s)"
  shows "runs (for_each (recs s) body s) (\<lambda>_ t. keeps cfg s t \<and> map_of (recs t) k = None)"
proof -
  have "map_ok (recs s)" using assms(1) core_map_ok by (auto simp: ready_def)
  from controller.runs_records [OF assms(1) this] assms(2,3) show ?thesis
    unfolding keeps_at_def keeps_def by (blast intro: runs_mono)
qed

lemma keeps_seqn:
  assumes "runs (m s) (\<lambda>_. keeps cfg s)" and "\<And>t. ready cfg t \<Longrightarrow> runs (n t) (\<lambda>_. keeps cfg t)"
  shows "runs (seqn m n s) (\<lambda>_. keeps cfg s)"
  using assms unfolding runs_seqn
  by (blast intro: runs_mono keeps_trans keeps_ready)

lemma expireLeases_keeps:
  "ready cfg s \<Longrightarrow> 0 \<le> now \<Longrightarrow> runs (expireLeases cfg now s) (\<lambda>_. keeps cfg s)"
  unfolding expireLeases_def by (intro keeps_records expire_lease_keeps)

lemma expireDeadlines_keeps:
  "ready cfg s \<Longrightarrow> 0 \<le> now \<Longrightarrow> runs (expireDeadlines now s) (\<lambda>_. keeps cfg s)"
  unfolding expireDeadlines_def by (intro keeps_records expire_deadline_keeps)

lemma retryPublishes_keeps:
  "ready cfg s \<Longrightarrow> 0 \<le> now \<Longrightarrow> runs (retryPublishes cfg now s) (\<lambda>_. keeps cfg s)"
  unfolding retryPublishes_def by (simp add: keeps_same) (intro impI keeps_records retry_publish_keeps)

subsection \<open>Dispatch\<close>

text \<open>The record and the state a start leaves.\<close>

definition started :: "config \<Rightarrow> rat \<Rightarrow> string \<Rightarrow> job_record \<Rightarrow> job_record" where
  "started cfg now token r = r\<lparr>state := Running, updatedAtMs := now, attempt := attempt r + 1,
     leaseOwner := token, leaseExpiresAtMs := now + leaseTtlMs cfg\<rparr>"

definition after_start :: "config \<Rightarrow> rat \<Rightarrow> job_record \<Rightarrow> 's qstate \<Rightarrow> 's qstate" where
  "after_start cfg now r s =
     (let j = record_id r; token = lease_token j (tokctr s + 1) in
      s\<lparr>recs := AList.update j (started cfg now token r) (recs s), tokctr := tokctr s + 1,
        ctrls := AList.update j token (ctrls s), executing := executing s @ [(j, token)]\<rparr>)"

lemma start_run: "state r = Queued \<Longrightarrow> start cfg r now s = (Inr (), after_start cfg now r s)"
  by (simp add: start_def after_start_def started_def Let_def seqn_def bnd_def modify_def set_rec_def
      withState_def)

lemma after_start_core:
  assumes "core cfg s" and "map_of (recs s) j = Some r" and "state r = Queued"
    and "\<not> hasActiveFor (records_of s) (prKey r)" and "countActive (records_of s) < maxConcurrent cfg"
    and "0 \<le> now" and "config_ok cfg"
  shows "core cfg (after_start cfg now r s)"
proof -
  let ?t = "after_start cfg now r s"
  let ?token = "lease_token j (tokctr s + 1)"
  let ?r = "started cfg now ?token r"
  have r: "record_ok cfg j r" using assms(1,2) by (rule core_record)
  then have j: "record_id r = j" by (simp add: record_ok_def)
  have t: "?t = s\<lparr>recs := AList.update j ?r (recs s), tokctr := tokctr s + 1,
      ctrls := AList.update j ?token (ctrls s), executing := executing s @ [(j, ?token)]\<rparr>"
    by (simp add: after_start_def j Let_def)
  have none: "map_of (ctrls s) j = None" using no_controller [OF assms(1,2)] assms(3) by simp
  have e: "exec_ok s" using assms(1) by (simp add: core_x_def)
  have fresh: "(j, ?token) \<notin> set (executing s)"
  proof
    assume "(j, ?token) \<in> set (executing s)"
    then obtain n where "n \<le> tokctr s" "?token = lease_token j n"
      using e unfolding exec_ok_def by blast
    then show False by simp
  qed
  have new: "record_ok cfg j ?r"
    using r assms(3,6,7) by (auto simp: record_ok_def started_def valid_record_def record_id_def
        config_ok_def)
  have "recs_ok cfg (AList.update j ?r (recs s))"
    by (rule recs_ok_occupy [OF core_recs [OF assms(1)] assms(2) new])
      (use assms(4,5) in \<open>auto simp: started_def records_of_def\<close>)
  moreover have "lease_ok ?t i ri \<and> ctrl_ok ?t i ri" if "map_of (recs ?t) i = Some ri" for i ri
  proof (cases "i = j")
    case True
    then have "ri = ?r" using that by (simp add: t)
    then show ?thesis using True by (simp add: lease_ok_def ctrl_ok_def t started_def)
  next
    case False
    then have "lease_ok s i ri \<and> ctrl_ok s i ri" using that assms(1) by (simp add: t core_x_def)
    then show ?thesis using False by (auto simp: lease_ok_def ctrl_ok_def t)
  qed
  moreover have "exec_ok ?t"
    unfolding exec_ok_def
  proof (intro conjI allI impI)
    show "distinct (executing ?t)" using e fresh by (simp add: exec_ok_def t)
    fix i tok assume i: "(i, tok) \<in> set (executing ?t)"
    show "\<exists>n \<le> tokctr ?t. tok = lease_token i n"
    proof (cases "(i, tok) \<in> set (executing s)")
      case True
      then obtain n where "n \<le> tokctr s" "tok = lease_token i n"
        using e unfolding exec_ok_def by blast
      then show ?thesis by (auto simp: t intro: le_SucI)
    next
      case False
      with i show ?thesis by (auto simp: t)
    qed
    show "map_of (ctrls ?t) i = Some tok \<or> tok \<in> set (aborted ?t)"
    proof (cases "(i, tok) \<in> set (executing s)")
      case True
      then have "map_of (ctrls s) i = Some tok \<or> tok \<in> set (aborted s)"
        using e unfolding exec_ok_def by blast
      with none show ?thesis by (auto simp: t)
    next
      case False
      with i show ?thesis by (auto simp: t)
    qed
  qed
  moreover have "calls_ok ?t"
    using assms(1) by (simp add: core_x_def calls_ok_def t)
  moreover have "map_ok (ctrls ?t)"
    using assms(1) by (simp add: core_x_def t AList_map_ok_update)
  moreover have "\<forall>i. map_of (ctrls ?t) i \<noteq> None \<longrightarrow> map_of (recs ?t) i \<noteq> None"
    using assms(1) by (simp add: core_x_def t)
  ultimately show ?thesis unfolding core_x_def by (simp add: t)
qed

lemma after_start_keeps:
  assumes "ready cfg s" and "map_of (recs s) j = Some r" and "state r = Queued"
    and "\<not> hasActiveFor (records_of s) (prKey r)" and "countActive (records_of s) < maxConcurrent cfg"
    and "0 \<le> now" and "config_ok cfg"
  shows "keeps_at cfg j s (after_start cfg now r s)"
proof -
  have r: "record_ok cfg j r" using assms(1,2) core_record unfolding ready_def by blast
  have "canTransition\<^sup>*\<^sup>* Queued Running"
    using r_into_rtranclp [of canTransition Queued Starting]
      r_into_rtranclp [of canTransition Starting Running] by (auto intro: rtranclp_trans)
  then have "evolves r (started cfg now (lease_token j (tokctr s + 1)) r)"
    using assms(3) by (auto simp: evolves_def started_def)
  then show ?thesis
    using assms r after_start_core [of cfg s j r now]
    by (auto simp: keeps_at_def ready_def evo_def after_start_def Let_def only_record_def
        record_ok_def intro!: records_evolve_update)
qed

text \<open>The dispatch loop keeps the invariant, and any further property that every start it makes
  keeps.\<close>

definition start_enabled :: "config \<Rightarrow> job_record \<Rightarrow> 's qstate \<Rightarrow> bool" where
  "start_enabled cfg r s \<longleftrightarrow> ready cfg s \<and> map_of (recs s) (record_id r) = Some r \<and>
     state r = Queued \<and> \<not> hasActiveFor (records_of s) (prKey r) \<and>
     findSupersedingSibling (records_of s) r = None \<and>
     countActive (records_of s) < maxConcurrent cfg"

lemma dispatch_loop_keeps:
  assumes "ready cfg s" and "0 \<le> now" and "config_ok cfg" and "distinct (map record_id cs)"
    and "\<forall>c \<in> set cs. map_of (recs s) (record_id c) = Some c \<and> state c = Queued"
    and "I s" and "\<And>r s. start_enabled cfg r s \<Longrightarrow> I s \<Longrightarrow> I (after_start cfg now r s)"
  shows "runs (dispatch_loop cfg now ks cs s) (\<lambda>_ t. keeps cfg s t \<and> I t)"
  using assms(1,4-6)
proof (induction cs arbitrary: ks s)
  case Nil
  then show ?case by (simp add: keeps_same)
next
  case (Cons c cs)
  let ?t = "after_start cfg now c s"
  have rest: "runs (dispatch_loop cfg now ks cs s) (\<lambda>_ t. keeps cfg s t \<and> I t)" for ks
    using Cons by simp
  have "runs (seqn (start cfg c now) (dispatch_loop cfg now ks cs) s) (\<lambda>_ t. keeps cfg s t \<and> I t)"
    if en: "start_enabled cfg c s" for ks
  proof -
    have c: "map_of (recs s) (record_id c) = Some c" "state c = Queued" using Cons.prems by auto
    have k: "keeps_at cfg (record_id c) s ?t"
      using after_start_keeps [OF Cons.prems(1) c] en assms(2,3) by (simp add: start_enabled_def)
    have "map_of (recs ?t) (record_id c') = Some c' \<and> state c' = Queued" if "c' \<in> set cs" for c'
    proof -
      have "record_id c' \<noteq> record_id c"
        using Cons.prems(2) that unfolding list.map distinct.simps set_map by (metis imageI)
      then show ?thesis using k Cons.prems(3) that by (simp add: keeps_at_def only_record_def)
    qed
    then have "runs (dispatch_loop cfg now ks cs ?t) (\<lambda>_ t. keeps cfg ?t t \<and> I t)"
      using k Cons assms(7) [OF en] by (auto simp: keeps_at_def)
    moreover have "keeps cfg s ?t" using k by (simp add: keeps_at_def keeps_def)
    ultimately show ?thesis using c by (auto simp: start_run intro: runs_mono keeps_trans)
  qed
  moreover have "start_enabled cfg c s" if "\<not> hasActiveFor (records_of s) (prKey c)"
    "findSupersedingSibling (records_of s) c = None"
    "\<not> maxConcurrent cfg \<le> countActive (records_of s)"
    using that Cons.prems by (simp add: start_enabled_def)
  ultimately show ?case using rest Cons.prems(1,4) by (simp add: keeps_same)
qed

lemma records_of_current:
  assumes "core_x X cfg s" and "r \<in> set (records_of s)"
  shows "map_of (recs s) (record_id r) = Some r"
proof -
  obtain j where "(j, r) \<in> set (recs s)" using assms(2) by (auto simp: records_of_def)
  then have "map_of (recs s) j = Some r" using core_map_ok [OF assms(1)] by simp
  moreover from this have "record_id r = j" using core_record [OF assms(1)] by (simp add: record_ok_def)
  ultimately show ?thesis by simp
qed

lemma records_of_ids: "core_x X cfg s \<Longrightarrow> map record_id (records_of s) = map fst (recs s)"
  using core_map_ok [of X cfg s] core_record [of X cfg s]
  by (auto simp: records_of_def record_ok_def)

lemma dispatchEligible_keeps_inv:
  assumes "ready cfg s" and "0 \<le> now" and "config_ok cfg"
    and "I s" and "\<And>r s. start_enabled cfg r s \<Longrightarrow> I s \<Longrightarrow> I (after_start cfg now r s)"
  shows "runs (dispatchEligible cfg now s) (\<lambda>_ t. keeps cfg s t \<and> I t)"
proof -
  have c: "core cfg s" using assms(1) by (simp add: ready_def)
  have "distinct (map record_id (records_of s))"
    using core_map_ok [OF c] by (simp add: records_of_ids [OF c])
  then have "distinct (map record_id (dispatch_candidates now (records_of s)))"
    by (auto simp: dispatch_candidates_def distinct_map inj_on_def)
  then show ?thesis
    unfolding dispatchEligible_def using assms records_of_current [OF c]
    by (intro dispatch_loop_keeps) (auto simp: dispatch_candidates_def)
qed

lemma dispatchEligible_keeps:
  "ready cfg s \<Longrightarrow> 0 \<le> now \<Longrightarrow> config_ok cfg \<Longrightarrow>
    runs (dispatchEligible cfg now s) (\<lambda>_. keeps cfg s)"
  using dispatchEligible_keeps_inv [of cfg s now "\<lambda>_. True"] by simp

section \<open>Loading and saving\<close>

definition recs_assoc :: "queue_snapshot \<Rightarrow> (string \<times> job_record) list" where
  "recs_assoc snap = map (\<lambda>r. (record_id r, r)) snap"

text \<open>What the invariant asks of the durable snapshot, and its agreement with memory.\<close>

definition durable_ok :: "config \<Rightarrow> queue_snapshot \<Rightarrow> bool" where
  "durable_ok cfg snap \<longleftrightarrow> recs_ok cfg (recs_assoc snap)"

definition synced :: "'s store_ops \<Rightarrow> 's qstate \<Rightarrow> bool" where
  "synced st s \<longleftrightarrow> st_load st (durable s) = Inr (records_of s)"

text \<open>The invariant of the controller between operations: a loaded controller agrees with its
  store; one that has not loaded yet is empty over a store that is fit to be loaded.\<close>

definition invariant :: "config \<Rightarrow> 's store_ops \<Rightarrow> 's qstate \<Rightarrow> bool" where
  "invariant cfg st s \<longleftrightarrow>
     (if loaded s then ready cfg s \<and> synced st s
      else recs s = [] \<and> ctrls s = [] \<and> executing s = [] \<and> calls s = [] \<and> inflight s = [] \<and>
        (\<exists>snap. st_load st (durable s) = Inr snap \<and> durable_ok cfg snap))"

text \<open>Operations may change the durable snapshot only so that its records evolve, also across a
  restart, and never reopen the intake.\<close>

definition durable_evolves :: "'s store_ops \<Rightarrow> 's qstate \<Rightarrow> 's qstate \<Rightarrow> bool" where
  "durable_evolves st s s' \<longleftrightarrow> (\<exists>snap snap'. st_load st (durable s) = Inr snap \<and>
     st_load st (durable s') = Inr snap' \<and> records_evolve (recs_assoc snap) (recs_assoc snap'))"

definition preserves :: "config \<Rightarrow> 's store_ops \<Rightarrow> 's qstate \<Rightarrow> 's qstate \<Rightarrow> bool" where
  "preserves cfg st s s' \<longleftrightarrow> invariant cfg st s' \<and> durable_evolves st s s' \<and>
     (intakeClosed s \<longrightarrow> intakeClosed s')"

lemma preserves_same: "invariant cfg st s \<Longrightarrow> preserves cfg st s s"
  by (auto simp: preserves_def durable_evolves_def invariant_def synced_def split: if_splits)

lemma preserves_trans: "preserves cfg st s t \<Longrightarrow> preserves cfg st t u \<Longrightarrow> preserves cfg st s u"
  by (auto simp: preserves_def durable_evolves_def intro: records_evolve_trans)

lemma invariant_closed [simp]: "invariant cfg st (s\<lparr>intakeClosed := b\<rparr>) = invariant cfg st s"
  by (simp add: invariant_def ready_def synced_def records_of_def)

lemma update_fresh: "j \<notin> fst ` set m \<Longrightarrow> AList.update j r m = m @ [(j, r)]"
  by (induction m) auto

lemma adopt_all:
  "distinct (map fst (recs s) @ map record_id snap) \<Longrightarrow>
    for_each snap adopt_one s = (Inr (), s\<lparr>recs := recs s @ recs_assoc snap\<rparr>)"
proof (induction snap arbitrary: s)
  case Nil
  then show ?case by (simp add: recs_assoc_def)
next
  case (Cons r snap)
  have f: "record_id r \<notin> fst ` set (recs s)" using Cons.prems by auto
  then have "adopt_one r s = (Inr (), s\<lparr>recs := recs s @ [(record_id r, r)]\<rparr>)"
    by (simp add: adopt_one_def map_of_eq_None_iff set_rec_def modify_def update_fresh)
  with Cons show ?case by (simp add: seqn_Inr recs_assoc_def)
qed

lemma adopt_run:
  "distinct (map record_id snap) \<Longrightarrow>
    adopt snap s = (Inr (), s\<lparr>recs := recs_assoc snap, ctrls := [], loaded := True\<rparr>)"
  by (simp add: adopt_def seqn_def bnd_def modify_def adopt_all)

lemma recs_assoc_values [simp]: "map snd (recs_assoc snap) = snap"
  by (simp add: recs_assoc_def comp_def)

lemma recs_assoc_ids [simp]: "map fst (recs_assoc snap) = map record_id snap"
  by (simp add: recs_assoc_def comp_def)

lemma recs_assoc_of:
  assumes "recs_ok cfg (recs s)"
  shows "recs_assoc (records_of s) = recs s"
proof -
  have "record_id r = j" if "(j, r) \<in> set (recs s)" for j r
    using that assms by (simp add: recs_ok_def record_ok_def)
  then show ?thesis by (auto simp: recs_assoc_def records_of_def intro!: map_idI)
qed

lemma durable_ok_records: "recs_ok cfg (recs s) \<Longrightarrow> durable_ok cfg (records_of s)"
  by (simp add: durable_ok_def recs_assoc_of)

lemma durable_ok_valid:
  assumes "durable_ok cfg snap"
  shows "valid_snapshot snap"
proof -
  have ok: "map_ok (recs_assoc snap)" using assms by (simp add: durable_ok_def recs_ok_def)
  have "valid_record r" if "r \<in> set snap" for r
  proof -
    have "(record_id r, r) \<in> set (recs_assoc snap)" using that by (simp add: recs_assoc_def)
    then have "map_of (recs_assoc snap) (record_id r) = Some r" using ok by simp
    then show ?thesis using assms by (simp add: durable_ok_def recs_ok_def record_ok_def)
  qed
  then show ?thesis using ok by (simp add: valid_snapshot_def list_all_iff)
qed

text \<open>A controller that has just adopted a snapshot, with nothing in flight.\<close>

definition quiet :: "'s qstate \<Rightarrow> bool" where
  "quiet s \<longleftrightarrow> executing s = [] \<and> calls s = [] \<and> inflight s = []"

lemma adopted_ready:
  "durable_ok cfg snap \<Longrightarrow> quiet s \<Longrightarrow>
    ready cfg (s\<lparr>recs := recs_assoc snap, ctrls := [], loaded := True\<rparr>)"
  by (simp add: ready_def core_x_def durable_ok_def quiet_def lease_ok_def ctrl_ok_def exec_ok_def
      calls_ok_def)

lemma update_same: "s\<lparr>durable := durable s\<rparr> = s"
  by simp

context reliable_store
begin

lemma store_save_run:
  assumes "valid_snapshot snap"
  shows "\<exists>d. store_save st snap s = (Inr (), s\<lparr>durable := d\<rparr>) \<and> st_load st d = Inr snap"
  using save_valid [OF assms, of "durable s"] by (auto simp: store_save_def)

lemma save_run:
  assumes "recs_ok cfg (recs s)" and "loaded s"
  shows "\<exists>d. save st s = (Inr (), s\<lparr>durable := d\<rparr>) \<and> st_load st d = Inr (records_of s)"
proof -
  have "valid_snapshot (records_of s)"
    using assms by (blast intro: durable_ok_valid durable_ok_records)
  from store_save_run [OF this, of s] show ?thesis
    using assms by (auto simp: save_def snapshot_def ensureLoaded_def seqn_def bnd_def)
qed

lemma keeps_durable: "ready cfg s \<Longrightarrow> keeps cfg s (s\<lparr>durable := d\<rparr>)"
  by (simp add: keeps_def ready_def evo_def)

lemma save_keeps: "ready cfg s \<Longrightarrow> runs (save st s) (\<lambda>_ s'. keeps cfg s s' \<and> synced st s')"
  using save_run [of cfg s] keeps_durable [of cfg s] core_recs [of "{}" cfg s]
  by (auto simp: runs_def synced_def records_of_def ready_def)

text \<open>An operation that ends with a save.\<close>

lemma save_after:
  assumes "runs result (\<lambda>_. keeps cfg s)"
  shows "runs result (\<lambda>_ t. runs (save st t) (\<lambda>_ s'. keeps cfg s s' \<and> synced st s'))"
proof (rule runs_mono [OF assms])
  fix x t assume t: "keeps cfg s t"
  show "runs (save st t) (\<lambda>_ s'. keeps cfg s s' \<and> synced st s')"
    by (rule runs_mono [OF save_keeps [OF keeps_ready [OF t]]]) (auto intro: keeps_trans [OF t])
qed

lemma then_save:
  "runs (m s) (\<lambda>_. keeps cfg s) \<Longrightarrow>
    runs (seqn m (save st) s) (\<lambda>_ s'. keeps cfg s s' \<and> synced st s')"
  unfolding runs_seqn by (rule save_after)

lemma ensureLoaded_run:
  assumes "invariant cfg st s"
  shows "\<exists>t. ensureLoaded st s = (Inr (), t) \<and> ready cfg t \<and> synced st t \<and>
    (loaded s \<longrightarrow> t = s) \<and> durable t = durable s \<and> intakeClosed t = intakeClosed s"
proof (cases "loaded s")
  case True
  then show ?thesis using assms by (simp add: ensureLoaded_def invariant_def)
next
  case False
  then obtain snap where snap: "st_load st (durable s) = Inr snap" "durable_ok cfg snap"
    and q: "quiet s"
    using assms by (auto simp: invariant_def quiet_def)
  let ?t = "s\<lparr>recs := recs_assoc snap, ctrls := [], loaded := True\<rparr>"
  have "distinct (map record_id snap)"
    using durable_ok_valid [OF snap(2)] by (simp add: valid_snapshot_def)
  then have "ensureLoaded st s = (Inr (), ?t)"
    using False snap(1) by (simp add: ensureLoaded_def seqn_Inr [OF adopt_run] modify_def)
  moreover have "synced st ?t" using snap(1) by (simp add: synced_def records_of_def)
  ultimately show ?thesis using adopted_ready [OF snap(2) q] False by auto
qed

text \<open>An operation that loads first: what holds of it on a loaded controller holds in general.\<close>

lemma keeps_preserves:
  assumes "ready cfg t" and "synced st t" and "keeps cfg t t'" and "synced st t'"
  shows "preserves cfg st t t'"
proof -
  have "recs_assoc (records_of t) = recs t" "recs_assoc (records_of t') = recs t'"
    using assms(1,3) by (auto simp: ready_def keeps_def intro!: recs_assoc_of core_recs)
  then show ?thesis
    using assms by (auto simp: preserves_def invariant_def durable_evolves_def keeps_def ready_def
        synced_def evo_def)
qed

lemma load_preserves:
  assumes "invariant cfg st s"
  obtains t where "ensureLoaded st s = (Inr (), t)" and "ready cfg t" and "synced st t"
    and "preserves cfg st s t"
proof -
  obtain t where t: "ensureLoaded st s = (Inr (), t)" "ready cfg t" "synced st t"
    "durable t = durable s" "intakeClosed t = intakeClosed s"
    using ensureLoaded_run [OF assms] by blast
  then have "preserves cfg st s t"
    by (auto simp: preserves_def invariant_def ready_def durable_evolves_def synced_def)
  with t show thesis by (intro that)
qed

lemma after_load:
  assumes "invariant cfg st s" and "\<And>t. ready cfg t \<Longrightarrow> synced st t \<Longrightarrow>
    runs (m t) (\<lambda>_ t'. keeps cfg t t' \<and> synced st t')"
  shows "runs (seqn (ensureLoaded st) m s) (\<lambda>_. preserves cfg st s)"
proof (rule load_preserves [OF assms(1)])
  fix t assume t: "ensureLoaded st s = (Inr (), t)" "ready cfg t" "synced st t"
    and p: "preserves cfg st s t"
  have "runs (m t) (\<lambda>_. preserves cfg st s)"
    by (rule runs_mono [OF assms(2) [OF t(2,3)]])
      (use t p in \<open>blast intro: preserves_trans keeps_preserves\<close>)
  then show ?thesis by (simp add: t(1))
qed

lemma tick_preserves:
  assumes "invariant cfg st s" and "0 \<le> now" and "config_ok cfg"
  shows "runs (tick cfg st now s) (\<lambda>_. preserves cfg st s)"
  unfolding tick_def
proof (rule after_load [OF assms(1)])
  fix t :: "'s qstate" assume t: "ready cfg t"
  have d: "runs ((if \<not> intakeClosed u then dispatchEligible cfg now u else (Inr (), u)))
      (\<lambda>_. keeps cfg u)" if "ready cfg u" for u :: "'s qstate"
    using that assms(2,3) by (simp add: keeps_same dispatchEligible_keeps)
  show "runs (seqn (expireLeases cfg now) (seqn (expireDeadlines now) (seqn (retryPublishes cfg now)
      (seqn (\<lambda>s. if \<not> intakeClosed s then dispatchEligible cfg now s else (Inr (), s))
        (save st)))) t) (\<lambda>_ t'. keeps cfg t t' \<and> synced st t')"
    unfolding seqn_assoc [symmetric]
    by (intro then_save keeps_seqn expireLeases_keeps expireDeadlines_keeps retryPublishes_keeps
        d t assms(2))
qed

end

section \<open>Settling keeps the invariant\<close>

text \<open>Between the change of a record by \<open>settle\<close> and the release of its controller.\<close>

definition settling :: "config \<Rightarrow> string \<Rightarrow> string \<Rightarrow> 's qstate \<Rightarrow> 's qstate \<Rightarrow> bool" where
  "settling cfg j token s t \<longleftrightarrow> core_x {j} cfg t \<and> evo s t \<and> ctrls t = ctrls s \<and>
     executing t = executing s \<and>
     (\<exists>r. map_of (recs t) j = Some r \<and> state r \<noteq> Running \<and>
        (isTerminalState (state r) \<or> leaseOwner r = '''' \<or> leaseOwner r = token))"

lemma retire_settling:
  assumes "core_x {j} cfg s" and "map_of (recs s) j = Some r" and "canTransition (state r) st"
    and "retires cfg j r (upd (r\<lparr>state := st, updatedAtMs := now\<rparr>))"
  shows "runs (move j r st now upd s) (\<lambda>_. settling cfg j token s)"
  using assms(4)
  by (intro runs_mono [OF runs_retire [of j "{j}" cfg s r st upd now]])
    (use assms in \<open>auto simp: settling_def retires_def idle_def\<close>)

lemma settleFailed_settling:
  assumes "core_x {j} cfg s" and "map_of (recs s) j = Some r" and "state r = Running" and "0 \<le> now"
    and "config_ok cfg"
  shows "runs (settleFailed cfg j r oc now s) (\<lambda>_. settling cfg j token s)"
proof -
  have r: "record_ok cfg j r" using assms(1,2) by (rule core_record)
  have "(0::rat) \<le> of_nat (retryBaseMs cfg)" by simp
  with assms(5) have "0 \<le> retry_backoff cfg n" for n
    by (auto simp: retry_backoff_def config_ok_def intro: order_trans)
  then have "0 \<le> now + retry_backoff cfg n" for n
    using assms(4) by (simp add: add_nonneg_nonneg)
  with assms r show ?thesis
    by (auto simp: settleFailed_def record_times
        intro!: retire_settling [OF assms(1,2)] retiresI [OF r])
qed

lemma settleCancelled_settling:
  assumes "core_x {j} cfg s" and "map_of (recs s) j = Some r" and "state r = Running" and "0 \<le> now"
  shows "runs (settleCancelled j r now s) (\<lambda>_. settling cfg j token s)"
proof -
  have r: "record_ok cfg j r" using assms(1,2) by (rule core_record)
  with assms show ?thesis
    by (auto simp: settleCancelled_def record_times
        intro!: retire_settling [OF assms(1,2)] retiresI [OF r])
qed

lemma settling_trans: "settling cfg j token s t \<Longrightarrow> settling cfg j token t u \<Longrightarrow> settling cfg j token s u"
  by (auto simp: settling_def intro: evo_trans)

text \<open>Committing the result: the record becomes \<open>publishing\<close> and keeps its lease.\<close>

definition committed :: "job_record \<Rightarrow> execution_outcome \<Rightarrow> rat \<Rightarrow> job_record" where
  "committed r oc now =
     r\<lparr>state := Publishing, updatedAtMs := now, resultHeadSha := oc_resultHeadSha oc\<rparr>"

lemma commit_settling:
  assumes "core_x {j} cfg s" and "map_of (recs s) j = Some r" and "state r = Running"
    and "0 \<le> now" and "leaseOwner r = token" and "(j, token) \<notin> set (executing s)"
  shows "settling cfg j token s (s\<lparr>recs := AList.update j (committed r oc now) (recs s)\<rparr>)"
proof -
  let ?r = "committed r oc now"
  have r: "record_ok cfg j r" using assms(1,2) by (rule core_record)
  then have ok: "record_ok cfg j ?r"
    using assms(3,4) by (auto simp: record_ok_def committed_def valid_record_def record_id_def)
  have "recs_ok cfg (AList.update j ?r (recs s))"
    by (rule recs_ok_update [OF core_recs [OF assms(1)] assms(2) ok])
      (use assms(3) in \<open>simp_all add: committed_def occupying_def\<close>)
  then have "core_x {j} cfg (s\<lparr>recs := AList.update j ?r (recs s)\<rparr>)"
    using assms by (intro core_update) (auto simp: lease_ok_def committed_def)
  moreover have "evolves r ?r"
    using assms(3) by (intro evolvesI) (simp_all add: committed_def)
  ultimately show ?thesis
    using assms(2,5)
    by (auto simp: settling_def evo_def committed_def intro!: records_evolve_update)
qed

lemma release_core:
  assumes "settling cfg j token s t" and "map_of (ctrls s) j = None \<or> map_of (ctrls s) j = Some token"
    and "(j, token) \<notin> set (executing s)"
  shows "core cfg (releaseController j token t)"
proof -
  let ?u = "releaseController j token t"
  from assms(1) obtain r where c: "core_x {j} cfg t" and t: "ctrls t = ctrls s"
    "executing t = executing s" and r: "map_of (recs t) j = Some r" "state r \<noteq> Running"
    "isTerminalState (state r) \<or> leaseOwner r = '''' \<or> leaseOwner r = token"
    by (auto simp: settling_def)
  have u: "recs ?u = recs t" "executing ?u = executing t" "aborted ?u = aborted t"
    "tokctr ?u = tokctr t" "calls ?u = calls t" "inflight ?u = inflight t"
    by (simp_all add: releaseController_def)
  have cu: "map_of (ctrls ?u) i = (if i = j then None else map_of (ctrls t) i)" for i
    using assms(2) t by (auto simp: releaseController_def)
  have e: "exec_ok t" using c by (simp add: core_x_def)
  have "exec_ok ?u"
    unfolding exec_ok_def
  proof (intro conjI allI impI)
    show "distinct (executing ?u)" using e by (simp add: exec_ok_def u)
    fix i tok assume i: "(i, tok) \<in> set (executing ?u)"
    show "\<exists>n \<le> tokctr ?u. tok = lease_token i n"
      using i e unfolding exec_ok_def u by blast
    have "map_of (ctrls t) i = Some tok \<or> tok \<in> set (aborted t)"
      using i e unfolding exec_ok_def u by blast
    moreover have "tok \<noteq> token" if "i = j" using i that assms(3) t u by auto
    ultimately show "map_of (ctrls ?u) i = Some tok \<or> tok \<in> set (aborted ?u)"
      using assms(2) t by (auto simp: cu u)
  qed
  moreover have "ctrl_ok ?u i ri" if "map_of (recs t) i = Some ri" for i ri
  proof (cases "i = j")
    case True
    then show ?thesis using that r by (auto simp: ctrl_ok_def cu)
  next
    case False
    then have "ctrl_ok t i ri" using that c unfolding core_x_def by blast
    then show ?thesis using False by (simp add: ctrl_ok_def cu u)
  qed
  moreover have "lease_ok ?u = lease_ok t" by (simp add: lease_ok_def [abs_def] u)
  moreover have "calls_ok ?u = calls_ok t" by (simp add: calls_ok_def u)
  moreover have "map_ok (ctrls ?u)"
    using c by (simp add: core_x_def releaseController_def AList_map_ok_delete)
  ultimately show ?thesis
    using c unfolding core_x_def by (simp add: u cu)
qed

context reliable_store
begin

lemma settleCompleted_run:
  fixes s :: "'s qstate"
  assumes t_def: "t = s\<lparr>recs := AList.update j (committed r oc now) (recs s)\<rparr>"
    and "recs_ok cfg (recs t)" and "loaded s" and "state r = Running"
  shows "\<exists>d. settleCompleted cfg st j token r oc now s =
    (if \<not> mayPublish (records_of t) (committed r oc now) then
       move j (committed r oc now) Superseded now (\<lambda>q. q\<lparr>failureReason := ''superseded-by-newer-head'',
         supersededByJobId := attributed (records_of t) (committed r oc now),
         leaseOwner := '''', leaseExpiresAtMs := 0\<rparr>) t
     else if \<not> hasPublisher cfg then
       move j (committed r oc now) Completed now (\<lambda>r. r\<lparr>leaseOwner := '''', leaseExpiresAtMs := 0\<rparr>) t
     else if j \<in> set (inflight s) then (Inr (), t)
     else (Inr (), firePublishSettle j token (committed r oc now) now
            (t\<lparr>inflight := inflight s @ [j], durable := d\<rparr>)))"
proof -
  obtain d where "save st (t\<lparr>inflight := inflight s @ [j]\<rparr>) =
      (Inr (), t\<lparr>inflight := inflight s @ [j], durable := d\<rparr>)"
    using save_run [of cfg "t\<lparr>inflight := inflight s @ [j]\<rparr>"] assms(2,3) by (auto simp: t_def)
  then show ?thesis
    using assms(4)
    by (intro exI [of _ d]) (simp add: settleCompleted_def withState_def bnd_def seqn_def set_rec_def
        modify_def Let_def committed_def t_def)
qed

lemma settleCompleted_settling:
  assumes "core_x {j} cfg s" and "loaded s" and "map_of (recs s) j = Some r" and "state r = Running"
    and "0 \<le> now" and "leaseOwner r = token" and "(j, token) \<notin> set (executing s)"
  shows "runs (settleCompleted cfg st j token r oc now s) (\<lambda>_. settling cfg j token s)"
proof -
  let ?p = "committed r oc now"
  let ?t = "s\<lparr>recs := AList.update j ?p (recs s)\<rparr>"
  note commit = commit_settling [OF assms(1,3-7), of oc]
  then have c: "core_x {j} cfg ?t" by (simp add: settling_def)
  have m: "map_of (recs ?t) j = Some ?p" by simp
  have p: "record_ok cfg j ?p" using core_record [OF c m] .
  have can: "canTransition (state ?p) Superseded" "canTransition (state ?p) Completed"
    by (simp_all add: committed_def)
  have retire: "runs (move j ?p st' now upd ?t) (\<lambda>_. settling cfg j token s)"
    if "canTransition (state ?p) st'" "retires cfg j ?p (upd (?p\<lparr>state := st', updatedAtMs := now\<rparr>))"
    for st' upd
    by (rule runs_mono [OF retire_settling [of j cfg ?t ?p st' upd now token]])
      (use c m that commit in \<open>auto intro: settling_trans\<close>)
  let ?v = "?t\<lparr>inflight := inflight s @ [j]\<rparr>"
  obtain d where d: "settleCompleted cfg st j token r oc now s =
    (if \<not> mayPublish (records_of ?t) ?p then
       move j ?p Superseded now (\<lambda>r. r\<lparr>failureReason := ''superseded-by-newer-head'',
         supersededByJobId := attributed (records_of ?t) ?p,
         leaseOwner := '''', leaseExpiresAtMs := 0\<rparr>) ?t
     else if \<not> hasPublisher cfg then
       move j ?p Completed now (\<lambda>r. r\<lparr>leaseOwner := '''', leaseExpiresAtMs := 0\<rparr>) ?t
     else if j \<in> set (inflight s) then (Inr (), ?t)
     else (Inr (), firePublishSettle j token ?p now (?v\<lparr>durable := d\<rparr>)))"
    using settleCompleted_run [OF refl core_recs [OF c] assms(2,4), of token] by blast
  have fire: "settling cfg j token s (firePublishSettle j token ?p now (?v\<lparr>durable := d\<rparr>))"
    if "j \<notin> set (inflight s)"
  proof -
    let ?call = "\<lparr>pc_jobId = j, pc_token = token, pc_record = ?p, pc_now = now,
        pc_requireLeaseMatch = True\<rparr>"
    let ?f = "?t\<lparr>inflight := inflight ?t @ [pc_jobId ?call], calls := calls ?t @ [?call]\<rparr>"
    have "core_x {j} cfg ?f" by (rule core_fire [OF c]) (use that assms(5) in simp_all)
    then have "core_x {j} cfg (?f\<lparr>durable := d\<rparr>)" by (simp only: ok_durable)
    moreover have "firePublishSettle j token ?p now (?v\<lparr>durable := d\<rparr>) = ?f\<lparr>durable := d\<rparr>"
      by (simp add: firePublishSettle_def fire_def)
    ultimately show ?thesis using commit by (simp add: settling_def evo_def)
  qed
  show ?thesis unfolding d(1)
    using record_times [OF p] assms(5) can commit fire by (auto intro!: retire retiresI [OF p])
qed

lemma settle_live:
  assumes "core_x {j} cfg s" and "loaded s" and "map_of (recs s) j = Some r" and "state r = Running"
    and "0 \<le> now" and "leaseOwner r = token" and "(j, token) \<notin> set (executing s)"
    and "map_of (ctrls s) j = None \<or> map_of (ctrls s) j = Some token" and "config_ok cfg"
  shows "runs (settle cfg st j token oc now s) (\<lambda>_ t. keeps cfg s t \<and> synced st t)"
proof -
  let ?m = "case oc_status oc of Out_completed \<Rightarrow> settleCompleted cfg st j token r oc now
    | Out_failed \<Rightarrow> settleFailed cfg j r oc now | Out_cancelled \<Rightarrow> settleCancelled j r now"
  have "runs (?m s) (\<lambda>_. settling cfg j token s)"
    using assms by (cases "oc_status oc") (simp_all add: settleCompleted_settling
        settleFailed_settling settleCancelled_settling)
  then have "runs (seqn ?m (modify (releaseController j token)) s) (\<lambda>_. keeps cfg s)"
    unfolding runs_seqn runs_modify
  proof (rule runs_mono)
    fix t assume t: "settling cfg j token s t"
    have "core cfg (releaseController j token t)" by (rule release_core [OF t assms(8,7)])
    moreover have "evo s t" using t by (simp add: settling_def)
    ultimately show "keeps cfg s (releaseController j token t)"
      using assms(2) by (simp add: keeps_def ready_def releaseController_def evo_def)
  qed
  then have "runs (seqn (seqn ?m (modify (releaseController j token))) (save st) s)
      (\<lambda>_ t. keeps cfg s t \<and> synced st t)"
    by (rule then_save)
  then show ?thesis
    using assms(3,4,6) by (simp add: settle_def seqn_assoc)
qed

end

section \<open>Promise resolutions keep the invariant\<close>

lemma core_remove_exec:
  assumes "core cfg s"
  shows "core cfg (s\<lparr>executing := remove1 e (executing s)\<rparr>)"
proof -
  let ?t = "s\<lparr>executing := remove1 e (executing s)\<rparr>"
  have sub: "set (executing ?t) \<subseteq> set (executing s)" by (simp add: set_remove1_subset)
  have "exec_ok s" using assms by (simp add: core_x_def)
  then have "exec_ok ?t"
    using sub unfolding exec_ok_def by (simp add: subset_iff distinct_remove1)
  moreover have "lease_ok ?t j r" if "lease_ok s j r" for j r
    using that sub unfolding lease_ok_def by blast
  moreover have "ctrl_ok ?t j r" if "ctrl_ok s j r" for j r
    using that sub unfolding ctrl_ok_def by auto
  ultimately show ?thesis
    using assms unfolding core_x_def by (simp add: calls_ok_def)
qed

lemma release_none: "map_of (ctrls s) j \<noteq> Some token \<Longrightarrow> releaseController j token s = s"
  by (simp add: releaseController_def)

lemma remove_call:
  "distinct (map pc_jobId cs) \<Longrightarrow> c \<in> set cs \<Longrightarrow>
    map pc_jobId (remove1 c cs) = filter (\<lambda>i. i \<noteq> pc_jobId c) (map pc_jobId cs)"
proof (induction cs)
  case Nil
  then show ?case by simp
next
  case (Cons a cs)
  show ?case
  proof (cases "a = c")
    case True
    then have "pc_jobId c \<notin> set (map pc_jobId cs)" using Cons.prems(1) by simp
    then have "filter (\<lambda>i. i \<noteq> pc_jobId c) (map pc_jobId cs) = map pc_jobId cs"
      by (intro filter_True) blast
    with True show ?thesis by simp
  next
    case False
    then have "pc_jobId a \<noteq> pc_jobId c" using Cons.prems by auto
    with False Cons show ?thesis by auto
  qed
qed

context reliable_store
begin

lemma execution_keeps:
  assumes "ready cfg s" and "synced st s" and "(j, token) \<in> set (executing s)" and "0 \<le> now"
    and "config_ok cfg"
  shows "runs (settle cfg st j token oc now (s\<lparr>executing := remove1 (j, token) (executing s)\<rparr>))
    (\<lambda>_ t. keeps cfg s t \<and> synced st t)"
proof -
  let ?t = "s\<lparr>executing := remove1 (j, token) (executing s)\<rparr>"
  have c: "core cfg s" using assms(1) by (simp add: ready_def)
  have ct: "core cfg ?t" by (rule core_remove_exec [OF c])
  have gone: "(j, token) \<notin> set (executing ?t)"
    using c by (simp add: core_x_def exec_ok_def)
  have same: "keeps cfg s ?t \<and> synced st ?t"
    using assms(1,2) ct by (simp add: keeps_def ready_def evo_def synced_def records_of_def)
  show ?thesis
  proof (cases "map_of (recs s) j")
    case None
    then have "map_of (ctrls s) j = None" using c unfolding core_x_def by blast
    then show ?thesis using None same by (simp add: settle_def release_none)
  next
    case (Some r)
    have lc: "lease_ok s j r" "ctrl_ok s j r" using c Some by (simp_all add: core_x_def)
    show ?thesis
    proof (cases "isTerminalState (state r) \<or> leaseOwner r \<noteq> token")
      case True
      then have "map_of (ctrls s) j \<noteq> Some token" using lc(2) by (auto simp: ctrl_ok_def)
      then show ?thesis using True Some same by (simp add: settle_def release_none)
    next
      case False
      then have run: "state r = Running" using lc(1) assms(3) by (simp add: lease_ok_def)
      then have "map_of (ctrls s) j \<noteq> None" using lc(2) assms(3) by (force simp: ctrl_ok_def)
      then have "map_of (ctrls s) j = Some token" using lc(2) False by (auto simp: ctrl_ok_def)
      then have "runs (settle cfg st j token oc now ?t) (\<lambda>_ t. keeps cfg ?t t \<and> synced st t)"
        using core_weaken [OF ct] assms(1,4,5) Some False run gone
        by (intro settle_live [where r = r]) (auto simp: ready_def)
      moreover have "keeps cfg ?t = keeps cfg s"
        by (simp add: keeps_def fun_eq_iff evo_recs_eq [of ?t s])
      ultimately show ?thesis by simp
    qed
  qed
qed

lemma runPublish_keeps:
  assumes "ready cfg s" and "synced st s" and "call \<in> set (calls s)" and "config_ok cfg"
  shows "runs (runPublish cfg st call published s) (\<lambda>_ t. keeps cfg s t \<and> synced st t)"
proof -
  let ?t = "s\<lparr>calls := remove1 call (calls s),
    inflight := filter (\<lambda>i. i \<noteq> pc_jobId call) (inflight s)\<rparr>"
  let ?j = "pc_jobId call"
  have c: "core cfg s" using assms(1) by (simp add: ready_def)
  then have k: "calls_ok s" by (simp add: core_x_def)
  then have now: "0 \<le> pc_now call" using assms(3) by (simp add: calls_ok_def)
  have "calls_ok ?t"
    using k assms(3) remove_call [of "calls s" call] set_remove1_subset [of call "calls s"]
    by (auto simp: calls_ok_def)
  then have ct: "core cfg ?t" using c unfolding core_x_def by simp
  then have rt: "ready cfg ?t" using assms(1) by (simp add: ready_def)
  have eq: "keeps cfg ?t = keeps cfg s"
    by (simp add: keeps_def fun_eq_iff evo_recs_eq [of ?t s])
  have same: "keeps cfg s ?t" "synced st ?t"
    using rt assms(2) by (simp_all add: keeps_def evo_def synced_def records_of_def)
  show ?thesis
  proof (cases "map_of (recs s) ?j")
    case None
    then show ?thesis using same by (simp add: runPublish_def)
  next
    case (Some r)
    then have m: "map_of (recs ?t) ?j = Some r" by simp
    have r: "record_ok cfg ?j r" by (rule core_record [OF c Some])
    show ?thesis
    proof (cases "state r = Publishing")
      case False
      then show ?thesis using Some same by (simp add: runPublish_def)
    next
      case True
      have free: "map_of (ctrls ?t) ?j = None" using no_controller [OF ct m] True by simp
      have cx: "core_x {?j} cfg ?t" using core_weaken [OF ct] by blast
      have retire: "runs (move ?j r st' (pc_now call) upd ?t) (\<lambda>_. keeps cfg s)"
        if "canTransition (state r) st'"
          "retires cfg ?j r (upd (r\<lparr>state := st', updatedAtMs := pc_now call\<rparr>))" for st' upd
        unfolding eq [symmetric]
        by (rule runs_mono [OF retire_keeps_at [of ?j cfg ?t r st' upd "pc_now call"]])
          (use cx rt m that free in \<open>auto simp: keeps_at_def keeps_def ready_def\<close>)
      let ?r = "r\<lparr>nextRetryAtMs := pc_now call + publishRetryDelayMs cfg,
        updatedAtMs := pc_now call, leaseOwner := '''', leaseExpiresAtMs := 0\<rparr>"
      have "0 \<le> retryMaxMs cfg"
        using assms(4) by (auto simp: config_ok_def intro: order_trans)
      then have "0 \<le> publishRetryDelayMs cfg" by (simp add: publishRetryDelayMs_def)
      then have ok: "record_ok cfg ?j ?r" "idle ?r"
        using r now True by (auto simp: record_ok_def valid_record_def record_id_def idle_def)
      have "recs_ok cfg (AList.update ?j ?r (recs ?t))"
        by (rule recs_ok_update [OF core_recs [OF ct] m ok(1)]) (auto simp: True occupying_def)
      then have "core cfg (?t\<lparr>recs := AList.update ?j ?r (recs ?t)\<rparr>)"
        using ct m free ok(2) cx
        by (intro core_update) (auto simp: core_x_def [of "{}"] intro: idle_lease_ok idle_ctrl_ok)
      moreover have "evolves r ?r" using True by (intro evolvesI) auto
      ultimately have later: "runs (set_rec ?j ?r ?t) (\<lambda>_. keeps cfg s)"
        using assms(1) Some by (simp add: set_rec_def modify_def keeps_def ready_def evo_def
            records_evolve_update)
      have "runs (move ?j r Superseded (pc_now call) (\<lambda>r'. r'\<lparr>failureReason := x,
          supersededByJobId := y, leaseOwner := '''', leaseExpiresAtMs := 0\<rparr>) ?t) (\<lambda>_. keeps cfg s)"
        "runs (move ?j r Completed (pc_now call) (\<lambda>r'. r'\<lparr>nextRetryAtMs := 0,
          leaseOwner := '''', leaseExpiresAtMs := 0\<rparr>) ?t) (\<lambda>_. keeps cfg s)" for x y
        using True now record_times [OF r] by (auto intro!: retire retiresI [OF r])
      with later show ?thesis
        using True m same by (auto simp: runPublish_def intro!: save_after)
    qed
  qed
qed

end

section \<open>The other methods keep the invariant\<close>

lemma validateReviewJob_accepts: "validateReviewJob v = Some j \<Longrightarrow> valid_job j"
  by (rule validateReviewJob_valid)

lemma withRenewedLease_run:
  "owner \<noteq> '''' \<Longrightarrow> config_ok cfg \<Longrightarrow>
    withRenewedLease r owner (Fin now) (Fin (leaseTtlMs cfg)) =
      Inr (r\<lparr>leaseOwner := owner, leaseExpiresAtMs := now + leaseTtlMs cfg, updatedAtMs := now\<rparr>)"
  by (simp add: withRenewedLease_def config_ok_def)

text \<open>A renewed lease: nothing but the owner and the two times changes.\<close>

lemma renew_keeps:
  assumes "ready cfg s" and "map_of (recs s) j = Some r" and "0 \<le> now" and "config_ok cfg"
    and "leaseOwner r = owner \<or> (state r = Running \<and> j \<notin> fst ` set (executing s) \<and>
      map_of (ctrls s) j = None)"
    and "\<not> isTerminalState (state r)" and "state r \<noteq> Queued"
  shows "keeps cfg s (s\<lparr>recs := AList.update j (r\<lparr>leaseOwner := owner,
      leaseExpiresAtMs := now + leaseTtlMs cfg, updatedAtMs := now\<rparr>) (recs s)\<rparr>)"
proof -
  let ?r = "r\<lparr>leaseOwner := owner, leaseExpiresAtMs := now + leaseTtlMs cfg, updatedAtMs := now\<rparr>"
  have c: "core cfg s" using assms(1) by (simp add: ready_def)
  have r: "record_ok cfg j r" by (rule core_record [OF c assms(2)])
  then have ok: "record_ok cfg j ?r"
    using assms(3,4,6,7) by (auto simp: record_ok_def valid_record_def record_id_def config_ok_def)
  have "recs_ok cfg (AList.update j ?r (recs s))"
    by (rule recs_ok_update [OF core_recs [OF c] assms(2) ok]) (auto simp: occupying_def)
  moreover have "lease_ok s j r \<and> ctrl_ok s j r" using c assms(2) by (simp add: core_x_def)
  then have "lease_ok s j ?r" "ctrl_ok s j ?r"
    using assms(5) by (auto simp: lease_ok_def ctrl_ok_def)
  ultimately have "core cfg (s\<lparr>recs := AList.update j ?r (recs s)\<rparr>)"
    using core_weaken [OF c] assms(2) by (intro core_update) auto
  moreover have "evolves r ?r" using assms(6) by (intro evolvesI) auto
  ultimately show ?thesis
    using assms(1,2) by (simp add: keeps_def ready_def evo_def records_evolve_update)
qed

text \<open>A live lease is held by an active record only.\<close>

lemma lease_active:
  "record_ok cfg j r \<Longrightarrow> leaseIsValid r owner (Fin now) \<Longrightarrow>
    \<not> isTerminalState (state r) \<and> state r \<noteq> Queued \<and> leaseOwner r = owner \<and> owner \<noteq> ''''"
  by (auto simp: record_ok_def leaseIsValid_def split: if_splits)

context reliable_store
begin

lemma set_then_save:
  assumes "keeps cfg s (s\<lparr>recs := AList.update j r (recs s)\<rparr>)"
  shows "runs (seqn (set_rec j r) (seqn (save st) (ret x)) s) (\<lambda>_ t. keeps cfg s t \<and> synced st t)"
proof -
  have "runs (set_rec j r s) (\<lambda>_. keeps cfg s)" using assms by (simp add: set_rec_def)
  from save_after [OF this] show ?thesis by simp
qed

lemma heartbeat_preserves:
  assumes "invariant cfg st s" and "0 \<le> now" and "config_ok cfg"
  shows "runs (heartbeat cfg st j owner now s) (\<lambda>_. preserves cfg st s)"
  unfolding heartbeat_def
proof (rule after_load [OF assms(1)])
  fix t :: "'s qstate" assume t: "ready cfg t" and sync: "synced st t"
  have same: "keeps cfg t t \<and> synced st t" using t sync by (simp add: keeps_same)
  show "runs (case map_of (recs t) j of
      None \<Rightarrow> (Inr False, t)
    | Some r \<Rightarrow>
        if \<not> leaseIsValid r owner (Fin now) then (Inr False, t)
        else bnd (lift_sum (withRenewedLease r owner (Fin now) (Fin (leaseTtlMs cfg))))
               (\<lambda>r'. seqn (set_rec j r') (seqn (save st) (ret True))) t)
    (\<lambda>_ t'. keeps cfg t t' \<and> synced st t')"
  proof (cases "map_of (recs t) j")
    case None
    then show ?thesis using same by simp
  next
    case (Some r)
    show ?thesis
    proof (cases "leaseIsValid r owner (Fin now)")
      case False
      then show ?thesis using Some same by simp
    next
      case True
      have "record_ok cfg j r" using t core_record Some unfolding ready_def by blast
      note l = lease_active [OF this True]
      have "keeps cfg t (t\<lparr>recs := AList.update j (r\<lparr>leaseOwner := owner,
          leaseExpiresAtMs := now + leaseTtlMs cfg, updatedAtMs := now\<rparr>) (recs t)\<rparr>)"
        using l by (intro renew_keeps [OF t Some assms(2,3)]) auto
      from set_then_save [OF this] show ?thesis
        using Some True l assms(3) by (simp add: bnd_def withRenewedLease_run del: runs_seqn)
    qed
  qed
qed

lemma adoptRecovered_preserves:
  assumes "invariant cfg st s" and "0 \<le> now" and "config_ok cfg"
  shows "runs (adoptRecovered cfg st j owner now s) (\<lambda>_. preserves cfg st s)"
proof (cases "owner = ''''")
  case True
  then show ?thesis using assms(1) by (simp add: adoptRecovered_def preserves_same)
next
  case False
  show ?thesis
    unfolding adoptRecovered_def if_not_P [OF False]
  proof (rule after_load [OF assms(1)])
    fix t :: "'s qstate" assume t: "ready cfg t" and sync: "synced st t"
    have same: "keeps cfg t t \<and> synced st t" using t sync by (simp add: keeps_same)
    show "runs (case map_of (recs t) j of
        None \<Rightarrow> (Inr False, t)
      | Some r \<Rightarrow>
          if state r \<noteq> Starting \<and> state r \<noteq> Running then (Inr False, t)
          else if map_of (ctrls t) j \<noteq> None then (Inr False, t)
          else bnd (lift_sum (withRenewedLease r owner (Fin now) (Fin (leaseTtlMs cfg))))
                 (\<lambda>r'. seqn (set_rec j r') (seqn (save st) (ret True))) t)
      (\<lambda>_ t'. keeps cfg t t' \<and> synced st t')"
    proof (cases "map_of (recs t) j")
      case None
      then show ?thesis using same by simp
    next
      case (Some r)
      have c: "core cfg t" using t by (simp add: ready_def)
      have ok: "record_ok cfg j r" "ctrl_ok t j r"
        using c Some core_record [OF c Some] by (simp_all add: core_x_def)
      show ?thesis
      proof (cases "state r = Running \<and> map_of (ctrls t) j = None")
        case no: False
        then show ?thesis using Some same ok(1) by (auto simp: record_ok_def)
      next
        case True
        then have "j \<notin> fst ` set (executing t)" using ok(2) by (auto simp: ctrl_ok_def)
        then have "keeps cfg t (t\<lparr>recs := AList.update j (r\<lparr>leaseOwner := owner,
            leaseExpiresAtMs := now + leaseTtlMs cfg, updatedAtMs := now\<rparr>) (recs t)\<rparr>)"
          using True by (intro renew_keeps [OF t Some assms(2,3)]) auto
        from set_then_save [OF this] show ?thesis
          using Some True False assms(3) by (simp add: bnd_def withRenewedLease_run del: runs_seqn)
      qed
    qed
  qed
qed

lemma resolveRecovered_preserves:
  assumes "invariant cfg st s" and "0 \<le> now" and "config_ok cfg"
  shows "runs (resolveRecovered cfg st j oc now s) (\<lambda>_. preserves cfg st s)"
  unfolding resolveRecovered_def
proof (rule after_load [OF assms(1)])
  fix t :: "'s qstate" assume t: "ready cfg t" and sync: "synced st t"
  have same: "keeps cfg t t \<and> synced st t" using t sync by (simp add: keeps_same)
  show "runs (case map_of (recs t) j of
      None \<Rightarrow> (Inr False, t)
    | Some r \<Rightarrow>
        if isTerminalState (state r) then (Inr False, t)
        else if state r \<noteq> Starting \<and> state r \<noteq> Running then (Inr False, t)
        else if map_of (ctrls t) j \<noteq> None then (Inr False, t)
        else if leaseOwner r = '''' then (Inr False, t)
        else seqn (settle cfg st j (leaseOwner r) oc now) (ret True) t)
    (\<lambda>_ t'. keeps cfg t t' \<and> synced st t')"
  proof (cases "map_of (recs t) j")
    case None
    then show ?thesis using same by simp
  next
    case (Some r)
    have c: "core cfg t" using t by (simp add: ready_def)
    have ok: "record_ok cfg j r" "ctrl_ok t j r"
      using c Some core_record [OF c Some] by (simp_all add: core_x_def)
    show ?thesis
    proof (cases "state r = Running \<and> map_of (ctrls t) j = None")
      case False
      then show ?thesis using Some same ok(1) by (auto simp: record_ok_def)
    next
      case True
      then have "(j, leaseOwner r) \<notin> set (executing t)"
        using ok(2) by (force simp: ctrl_ok_def)
      then have "runs (settle cfg st j (leaseOwner r) oc now t)
          (\<lambda>_ t'. keeps cfg t t' \<and> synced st t')"
        using True t assms(2,3) core_weaken [OF c]
        by (intro settle_live [OF _ _ Some]) (auto simp: ready_def)
      then show ?thesis using Some True same by simp
    qed
  qed
qed

end

section \<open>Intake, promises, shutdown and recovery\<close>

lemma core_abort_more:
  assumes "core_x X cfg s" and "set (aborted s) \<subseteq> set xs"
  shows "core_x X cfg (s\<lparr>aborted := xs\<rparr>)"
proof -
  have "exec_ok s" using assms(1) by (simp add: core_x_def)
  then have "exec_ok (s\<lparr>aborted := xs\<rparr>)"
    using assms(2) unfolding exec_ok_def by (simp add: subset_iff) blast
  moreover have "lease_ok (s\<lparr>aborted := xs\<rparr>) = lease_ok s" "ctrl_ok (s\<lparr>aborted := xs\<rparr>) = ctrl_ok s"
    "calls_ok (s\<lparr>aborted := xs\<rparr>) = calls_ok s"
    by (simp_all add: lease_ok_def [abs_def] ctrl_ok_def [abs_def] calls_ok_def)
  ultimately show ?thesis using assms(1) unfolding core_x_def by simp
qed

lemma supersede_one_keeps:
  assumes "ready cfg s" and "map_of (recs s) i = Some r" and "0 \<le> now"
  shows "runs (supersede_one j now (i, r) s) (\<lambda>_. keeps_at cfg i s)"
proof -
  have c: "core cfg s" using assms(1) by (simp add: ready_def)
  have r: "record_ok cfg i r" by (rule core_record [OF c assms(2)])
  then have i: "record_id r = i" by (simp add: record_ok_def)
  have cx: "core_x {i} cfg s" using core_weaken [OF c] by blast
  have queued: "runs (move i r Superseded now (\<lambda>r. r\<lparr>failureReason := x, supersededByJobId := y\<rparr>) s)
      (\<lambda>_. keeps_at cfg i s)" if "state r = Queued" for x y
  proof -
    have "leaseOwner r = ''''" using r that by (simp add: record_ok_def)
    then show ?thesis
      using that assms no_controller [OF c assms(2)] record_times [OF r]
      by (auto simp: ready_def intro!: retire_keeps_at [OF cx] retiresI [OF r])
  qed
  let ?r = "r\<lparr>cancelRequested := True, supersededByJobId := jobId j\<rparr>"
  let ?t = "s\<lparr>recs := AList.update i ?r (recs s)\<rparr>"
  have active: "keeps_at cfg i s (abort_signal i ?t)" if "isActiveState (state r)"
  proof -
    have ok: "record_ok cfg i ?r" using r by (simp add: record_ok_def valid_record_def record_id_def)
    have "recs_ok cfg (AList.update i ?r (recs s))"
      by (rule recs_ok_update [OF core_recs [OF c] assms(2) ok]) (auto simp: occupying_def)
    moreover have "lease_ok s i ?r \<and> ctrl_ok s i ?r"
      using c assms(2) by (simp add: core_x_def lease_ok_def ctrl_ok_def)
    ultimately have t: "core cfg ?t" using cx assms(2) by (intro core_update) auto
    have "evolves r ?r" using active_not_terminal [OF that] by (intro evolvesI) auto
    moreover have "core cfg (abort_signal i ?t)"
      using t by (auto simp: abort_signal_def split: option.split intro!: core_abort_more)
    moreover have "recs (abort_signal i ?t) = recs ?t" "loaded (abort_signal i ?t) = loaded s"
      "intakeClosed (abort_signal i ?t) = intakeClosed s"
      by (simp_all add: abort_signal_def split: option.split)
    ultimately show ?thesis
      using assms(1,2) by (simp add: keeps_at_def ready_def evo_def only_record_def
          records_evolve_update)
  qed
  show ?thesis
    using queued active keeps_at_same [OF assms(1)]
    by (auto simp: supersede_one_def i Let_def set_rec_def)
qed

text \<open>Adding a new generation.\<close>

lemma insert_keeps:
  assumes "ready cfg s" and "map_of (recs s) (jobId j) = None" and "valid_job j" and "0 \<le> now"
    and "config_ok cfg"
    and r: "newJobRecord j (Fin now) (Fin (of_nat (settleWindowMs cfg))) = Inr r"
  shows "keeps cfg s (s\<lparr>recs := AList.update (jobId j) r (recs s)\<rparr>)"
proof -
  let ?t = "s\<lparr>recs := AList.update (jobId j) r (recs s)\<rparr>"
  have c: "core cfg s" using assms(1) by (simp add: ready_def)
  have rs: "state r = Queued" "leaseOwner r = ''''" and ok: "record_ok cfg (jobId j) r"
    using assms(3-6) by (auto simp: newJobRecord_def record_ok_def record_id_def valid_record_def
        config_ok_def)
  then have i: "idle r" by (simp add: idle_def)
  have e: "exec_ok s" using c by (simp add: core_x_def)
  have "map_of (ctrls s) (jobId j) = None" using c assms(2) by (auto simp: core_x_def)
  moreover have "recs_ok cfg (recs ?t)"
    using recs_ok_insert [OF core_recs [OF c] assms(2) ok rs(1)] by simp
  ultimately have "core cfg ?t"
    using c idle_lease_ok [OF e i] idle_ctrl_ok [OF i] unfolding core_x_def by auto
  then show ?thesis
    using assms(1,2) by (simp add: keeps_def ready_def evo_def records_evolve_insert)
qed

context reliable_store
begin

lemma enqueue_fresh_keeps:
  assumes "ready cfg s" and "map_of (recs s) (jobId j) = None"
    and "valid_job j" and "0 \<le> now" and "config_ok cfg"
  shows "runs (enqueue_fresh cfg st j now s) (\<lambda>_ t. keeps cfg s t \<and> synced st t)"
proof -
  obtain r where r: "newJobRecord j (Fin now) (Fin (of_nat (settleWindowMs cfg))) = Inr r"
    by (simp add: newJobRecord_def)
  have sweep: "runs (for_each (recs s) (supersede_one j now) s)
      (\<lambda>_ t. keeps cfg s t \<and> map_of (recs t) (jobId j) = None)"
    by (intro keeps_records_fresh assms supersede_one_keeps)
  let ?rest = "\<lambda>t. runs (save st (t\<lparr>recs := AList.update (jobId j) r (recs t)\<rparr>))
      (\<lambda>_ u. keeps cfg s u \<and> synced st u)"
  have "?rest t" if t: "keeps cfg s t" "map_of (recs t) (jobId j) = None" for t
  proof -
    have "keeps cfg t (t\<lparr>recs := AList.update (jobId j) r (recs t)\<rparr>)"
      using insert_keeps [OF keeps_ready [OF t(1)] t(2) assms(3-5) r] .
    from keeps_trans [OF t(1) this] show ?thesis
      using save_after [of "(Inr (), t\<lparr>recs := AList.update (jobId j) r (recs t)\<rparr>)" cfg s] by simp
  qed
  then have "runs (for_each (recs s) (supersede_one j now) s) (\<lambda>_. ?rest)"
    by (intro runs_mono [OF sweep]) auto
  then show ?thesis by (simp add: enqueue_fresh_def Let_def r set_rec_def)
qed

text \<open>Intake refuses without a state change, or keeps the invariant.\<close>

lemma enqueue_preserves:
  assumes "invariant cfg st s" and "0 \<le> now" and "config_ok cfg"
  shows "preserves cfg st s (snd (enqueue cfg st v now s))"
    and "runs (enqueue cfg st v now s) (\<lambda>_ _. True) \<or> snd (enqueue cfg st v now s) = s"
proof -
  define m where "m j = (\<lambda>s :: 's qstate. if map_of (recs s) (jobId j) \<noteq> None
      then (Inr (D_duplicate, jobId j), s) else enqueue_fresh cfg st j now s)" for j
  have run: "runs (seqn (ensureLoaded st) (m j) s) (\<lambda>_. preserves cfg st s)"
    if "validateReviewJob v = Some j" for j
    using validateReviewJob_valid [OF that] assms
    by (intro after_load) (auto simp: m_def keeps_same intro!: enqueue_fresh_keeps)
  have "(\<exists>e. enqueue cfg st v now s = (Inl e, s)) \<or>
      (\<exists>j. validateReviewJob v = Some j \<and> enqueue cfg st v now s = seqn (ensureLoaded st) (m j) s)"
    by (auto simp: enqueue_def Let_def m_def split: option.split)
  with run show "preserves cfg st s (snd (enqueue cfg st v now s))"
    and "runs (enqueue cfg st v now s) (\<lambda>_ _. True) \<or> snd (enqueue cfg st v now s) = s"
    using preserves_same [OF assms(1)] by (fastforce simp: runs_def)+
qed



lemma run_async_preserves:
  assumes "invariant cfg st s" and "timely ev" and "config_ok cfg"
  shows "runs (run_async cfg st ev s) (\<lambda>_. preserves cfg st s)"
proof -
  have live: "ready cfg s \<and> synced st s" if "executing s \<noteq> [] \<or> calls s \<noteq> []"
    using assms(1) that by (auto simp: invariant_def split: if_splits)
  have "preserves cfg st s (snd result)" if "runs result (\<lambda>_ t. keeps cfg s t \<and> synced st t)"
    "executing s \<noteq> [] \<or> calls s \<noteq> []" for result :: "(queue_error + unit) \<times> 's qstate"
    using that live by (auto simp: runs_def intro: keeps_preserves)
  then show ?thesis
    using assms live preserves_same [OF assms(1)]
    by (cases ev) (fastforce simp: run_async_def timely_def
        intro!: execution_keeps runPublish_keeps)+
qed

lemma preserves_seqn:
  assumes "runs (m s) (\<lambda>_. preserves cfg st s)"
    and "\<And>t. invariant cfg st t \<Longrightarrow> runs (n t) (\<lambda>_. preserves cfg st t)"
  shows "runs (seqn m n s) (\<lambda>_. preserves cfg st s)"
  using assms unfolding runs_seqn
  by (blast intro: runs_mono preserves_trans dest: preserves_def [THEN iffD1])

lemma run_asyncs_preserves:
  assumes "invariant cfg st s" and "\<forall>ev \<in> set evs. timely ev" and "config_ok cfg"
  shows "runs (for_each evs (run_async cfg st) s) (\<lambda>_. preserves cfg st s)"
  using assms
proof (induction evs arbitrary: s)
  case Nil
  then show ?case by (simp add: preserves_same)
next
  case (Cons ev evs)
  show ?case
    unfolding for_each.simps
    by (rule preserves_seqn) (use Cons in \<open>auto intro!: run_async_preserves\<close>)
qed

lemma drain_loop_preserves:
  assumes "invariant cfg st s" and "\<forall>i. 0 \<le> clock i" and "\<forall>i. \<forall>ev \<in> set (async i). timely ev"
    and "config_ok cfg"
  shows "runs (drain_loop n cfg st clock async begin budget prev s) (\<lambda>_. preserves cfg st s)"
  using assms(1)
proof (induction n arbitrary: s prev)
  case 0
  then show ?case by (simp add: preserves_same)
next
  case (Suc n)
  have go: "runs (seqn (tick cfg st (clock i)) (seqn (for_each (async i) (run_async cfg st))
      (\<lambda>s. if drainFingerprint s = prev then (Inr (), s)
        else drain_loop n cfg st clock async begin budget (drainFingerprint s) s)) s)
      (\<lambda>_. preserves cfg st s)" for i
    by (intro preserves_seqn tick_preserves run_asyncs_preserves)
      (use assms(2-4) Suc in \<open>auto simp: preserves_same\<close>)
  show ?case
    using go preserves_same [OF Suc.prems] by (auto simp: Let_def simp del: runs_seqn)
qed

end

section \<open>Shutdown, restart and recovery\<close>

text \<open>While the controllers are cleared and the records not yet cancelled, no record is held to
  \<open>ctrl_ok\<close>.\<close>

definition stopping :: "config \<Rightarrow> 's qstate \<Rightarrow> bool" where
  "stopping cfg s \<longleftrightarrow> core_x UNIV cfg s \<and> loaded s \<and> ctrls s = []"

interpretation stopping: queue_contract "stopping cfg" evo for cfg :: config
  by unfold_locales (auto intro: evo_trans)

lemma stop_controllers:
  assumes "ready cfg s"
  shows "stopping cfg (s\<lparr>aborted := map snd (ctrls s) @ aborted s, ctrls := []\<rparr>)"
proof -
  let ?t = "s\<lparr>aborted := map snd (ctrls s) @ aborted s, ctrls := []\<rparr>"
  have c: "core cfg s" using assms by (simp add: ready_def)
  then have e: "exec_ok s" by (simp add: core_x_def)
  have "exec_ok ?t"
    unfolding exec_ok_def
  proof (intro conjI allI impI)
    show "distinct (executing ?t)" using e by (simp add: exec_ok_def)
    fix j token assume i: "(j, token) \<in> set (executing ?t)"
    then show "\<exists>n \<le> tokctr ?t. token = lease_token j n"
      using e by (simp add: exec_ok_def)
    have "map_of (ctrls s) j = Some token \<or> token \<in> set (aborted s)"
      using i e by (simp add: exec_ok_def)
    then show "map_of (ctrls ?t) j = Some token \<or> token \<in> set (aborted ?t)"
      by (force dest: map_of_SomeD)
  qed
  moreover have "lease_ok ?t = lease_ok s" "calls_ok ?t = calls_ok s"
    by (simp_all add: lease_ok_def [abs_def] calls_ok_def)
  ultimately show ?thesis
    using assms c unfolding stopping_def core_x_def ready_def by simp
qed

lemma shutdown_one_stops:
  assumes "stopping cfg s" and "map_of (recs s) j = Some r" and "0 \<le> now"
  shows "runs (shutdown_one now (j, r) s) (\<lambda>_ t. stopping cfg t \<and> evo s t \<and> only_record j s t \<and>
    (\<forall>r'. map_of (recs t) j = Some r' \<longrightarrow> \<not> occupying r'))"
proof -
  have c: "core_x (insert j UNIV) cfg s" and l: "loaded s" "ctrls s = []"
    using assms(1) by (simp_all add: stopping_def)
  have r: "record_ok cfg j r" by (rule core_record [OF c assms(2)])
  have same: "stopping cfg s \<and> evo s s \<and> only_record j s s \<and>
      (\<forall>r'. map_of (recs s) j = Some r' \<longrightarrow> \<not> occupying r')" if "\<not> occupying r"
    using assms(1,2) that by (simp add: only_record_def)
  let ?upd = "\<lambda>r. r\<lparr>failureReason := ''shutdown'', leaseOwner := '''', leaseExpiresAtMs := 0\<rparr>"
  have "runs (move j r Cancelled now ?upd s) (\<lambda>_ t. stopping cfg t \<and> evo s t \<and> only_record j s t \<and>
      (\<forall>r'. map_of (recs t) j = Some r' \<longrightarrow> \<not> occupying r'))" if "isActiveState (state r)"
  proof -
    have can: "canTransition (state r) Cancelled" using active_can [OF that] by simp
    then have ret: "retires cfg j r (?upd (r\<lparr>state := Cancelled, updatedAtMs := now\<rparr>))"
      using assms(3) record_times [OF r] by (intro retiresI [OF r]) simp_all
    show ?thesis
      by (rule runs_mono [OF runs_retire [of j UNIV cfg s r Cancelled ?upd now, OF c assms(2) can ret]])
        (use l in \<open>simp_all add: stopping_def evo_def occupying_def\<close>)
  qed
  note retire = this
  show ?thesis
  proof (cases "occupying r")
    case True
    then have "shutdown_one now (j, r) s = move j r Cancelled now ?upd s"
      by (auto simp: shutdown_one_def occupying_def)
    moreover have "isActiveState (state r)" using True by (simp add: occupying_def)
    ultimately show ?thesis using retire by simp
  next
    case False
    then have "shutdown_one now (j, r) s = (Inr (), s)"
      by (auto simp: shutdown_one_def occupying_def)
    then show ?thesis using same [OF False] by simp
  qed
qed

lemma stopped_ready:
  assumes "stopping cfg s" and "\<forall>j r. map_of (recs s) j = Some r \<longrightarrow> \<not> occupying r"
  shows "ready cfg s"
proof -
  have "ctrl_ok s j r" if "map_of (recs s) j = Some r" for j r
  proof -
    have "\<not> occupying r" using assms(2) that by blast
    then have "state r \<noteq> Running" by (auto simp: occupying_def)
    then show ?thesis using assms(1) by (simp add: ctrl_ok_def stopping_def)
  qed
  then show ?thesis using assms(1) unfolding ready_def stopping_def core_x_def by simp
qed

text \<open>The last part of \<open>shutdown\<close>, on a loaded controller.\<close>

lemma stop_all:
  assumes "ready cfg s" and "0 \<le> now"
  shows "runs (seqn (modify (\<lambda>s. s\<lparr>aborted := map snd (ctrls s) @ aborted s, ctrls := []\<rparr>))
      (\<lambda>s. for_each (recs s) (shutdown_one now) s) s)
    (\<lambda>_ t. keeps cfg s t \<and> ctrls t = [] \<and> (\<forall>j r. map_of (recs t) j = Some r \<longrightarrow> \<not> occupying r))"
proof -
  let ?t = "s\<lparr>aborted := map snd (ctrls s) @ aborted s, ctrls := []\<rparr>"
  have t: "stopping cfg ?t" by (rule stop_controllers [OF assms(1)])
  have "map_ok (recs ?t)" using core_map_ok [of UNIV cfg ?t] t by (simp add: stopping_def)
  note loop = stopping.runs_records_all [OF t this, where G = "\<lambda>r. \<not> occupying r",
      OF shutdown_one_stops [OF _ _ assms(2)]]
  have "evo ?t = evo s" by (rule evo_recs_eq) simp_all
  then show ?thesis
    using loop stopped_ready by (auto simp: keeps_def stopping_def elim!: runs_mono)
qed

lemma unloaded_save:
  "ensureLoaded st s = (Inr (), t) \<Longrightarrow> loaded t \<Longrightarrow> save st s = save st t"
  by (simp add: save_def snapshot_def bnd_def seqn_def ensureLoaded_def [of st t])

context reliable_store
begin

lemma save_preserves:
  assumes "invariant cfg st s"
  shows "runs (save st s) (\<lambda>_. preserves cfg st s)"
proof (rule load_preserves [OF assms])
  fix t assume t: "ensureLoaded st s = (Inr (), t)" "ready cfg t" "synced st t" "preserves cfg st s t"
  then have "save st s = save st t" by (intro unloaded_save) (auto simp: ready_def)
  moreover have "runs (save st t) (\<lambda>_. preserves cfg st s)"
    by (rule runs_mono [OF save_keeps [OF t(2)]])
      (use t in \<open>blast intro: preserves_trans keeps_preserves\<close>)
  ultimately show ?thesis by simp
qed

lemma stop_and_save:
  assumes "invariant cfg st s" and "0 \<le> now"
  shows "runs (seqn (modify (\<lambda>s. s\<lparr>aborted := map snd (ctrls s) @ aborted s, ctrls := []\<rparr>))
      (seqn (\<lambda>s. for_each (recs s) (shutdown_one now) s) (save st)) s) (\<lambda>_. preserves cfg st s)"
proof (cases "loaded s")
  case False
  let ?t = "s\<lparr>aborted := map snd (ctrls s) @ aborted s, ctrls := []\<rparr>"
  from False assms(1) have "recs s = []" by (simp add: invariant_def)
  moreover have "invariant cfg st ?t"
    using assms(1) False by (simp add: invariant_def)
  note save_preserves [OF this]
  moreover have "preserves cfg st ?t = preserves cfg st s"
    by (simp add: preserves_def durable_evolves_def fun_eq_iff)
  ultimately show ?thesis by simp
next
  case True
  with assms(1) have r: "ready cfg s" and y: "synced st s" by (simp_all add: invariant_def)
  have "runs (seqn (modify (\<lambda>s. s\<lparr>aborted := map snd (ctrls s) @ aborted s, ctrls := []\<rparr>))
      (\<lambda>s. for_each (recs s) (shutdown_one now) s) s) (\<lambda>_. keeps cfg s)"
    by (rule runs_mono [OF stop_all [OF r assms(2)]]) simp
  then have "runs (seqn (seqn (modify (\<lambda>s. s\<lparr>aborted := map snd (ctrls s) @ aborted s, ctrls := []\<rparr>))
      (\<lambda>s. for_each (recs s) (shutdown_one now) s)) (save st) s)
      (\<lambda>_ t. keeps cfg s t \<and> synced st t)"
    by (rule then_save)
  then show ?thesis
    unfolding seqn_assoc by (rule runs_mono) (use keeps_preserves [OF r y] in blast)
qed

lemma shutdown_preserves:
  assumes "invariant cfg st s" and "0 \<le> end_time" and "\<forall>i. 0 \<le> clock i"
    and "\<forall>i. \<forall>ev \<in> set (async i). timely ev" and "config_ok cfg"
  shows "runs (shutdown cfg st drainMs clock async begin end_time s)
    (\<lambda>_ t. preserves cfg st s t \<and> intakeClosed t)"
proof -
  let ?t = "s\<lparr>intakeClosed := True\<rparr>"
  have t: "invariant cfg st ?t" using assms(1) by simp
  have "runs (seqn (\<lambda>s. drain_loop 128 cfg st clock async begin (drain_budget drainMs)
      (drainFingerprint s) s) (seqn (modify (\<lambda>s. s\<lparr>aborted := map snd (ctrls s) @ aborted s, ctrls := []\<rparr>))
      (seqn (\<lambda>s. for_each (recs s) (shutdown_one end_time) s) (save st))) ?t)
    (\<lambda>_. preserves cfg st ?t)"
    by (rule preserves_seqn) (use t assms(2-5) in \<open>auto intro!: drain_loop_preserves stop_and_save
        simp del: runs_seqn\<close>)
  then show ?thesis
    unfolding shutdown_def
    by (auto simp: preserves_def durable_evolves_def elim!: runs_mono)
qed

end

text \<open>Recovery maps every record on its own.\<close>

lemma map_of_recs_assoc:
  "distinct (map record_id snap) \<Longrightarrow>
    map_of (recs_assoc snap) j = Some r \<longleftrightarrow> r \<in> set snap \<and> record_id r = j"
  by (subst map_of_eq_Some_iff) (auto simp: recs_assoc_def comp_def)

lemma recover_record_ok':
  assumes "record_ok cfg j r" and "0 \<le> now"
  shows "record_ok cfg j (recover_record now (maxAttempts cfg) r) \<and>
    (occupying (recover_record now (maxAttempts cfg) r) \<longrightarrow> recover_record now (maxAttempts cfg) r = r) \<and>
    evolves r (recover_record now (maxAttempts cfg) r)"
proof (cases "recovery_of now (maxAttempts cfg) r")
  case Untouched
  then show ?thesis using assms by (simp add: recover_record_def)
next
  case Kept_publishing
  then have "state r = Publishing \<and> resultHeadSha r \<noteq> ''''"
    by (auto simp: recovery_of_def split: if_splits)
  with Kept_publishing assms show ?thesis
    by (auto simp: recover_record_def record_ok_def valid_record_def record_id_def occupying_def
        intro!: evolvesI)
next
  case Requeued
  then have "isActiveState (state r)" "attempt r < maxAttempts cfg"
    by (auto simp: recovery_of_def split: if_splits)
  with Requeued assms active_can show ?thesis
    by (auto simp: recover_record_def record_ok_def valid_record_def record_id_def occupying_def
        intro!: evolvesI)
next
  case Failed_limit
  then have "isActiveState (state r)" by (auto simp: recovery_of_def split: if_splits)
  with Failed_limit assms active_can show ?thesis
    by (auto simp: recover_record_def record_ok_def valid_record_def record_id_def occupying_def
        intro!: evolvesI)
qed

lemma recovered_durable_ok:
  assumes "durable_ok cfg snap" and "0 \<le> now"
  shows "durable_ok cfg (map (recover_record now (maxAttempts cfg)) snap)"
    and "records_evolve (recs_assoc snap) (recs_assoc (map (recover_record now (maxAttempts cfg)) snap))"
proof -
  let ?f = "recover_record now (maxAttempts cfg)"
  have ids: "map record_id (map ?f snap) = map record_id snap" by simp
  have d: "distinct (map record_id snap)"
    using durable_ok_valid [OF assms(1)] by (simp add: valid_snapshot_def)
  note d' = d [folded ids]
  have old: "record_ok cfg (record_id r) r" if "r \<in> set snap" for r
    using assms(1) that d by (simp add: durable_ok_def recs_ok_def map_of_recs_assoc)
  note f = recover_record_ok' [OF old assms(2)]
  have "record_ok cfg j r" if m: "map_of (recs_assoc (map ?f snap)) j = Some r" for j r
  proof -
    obtain a where a: "a \<in> set snap" "r = ?f a" "record_id r = j"
      using m map_of_recs_assoc [OF d'] by auto
    then show ?thesis using f [OF a(1)] by simp
  qed
  moreover have "exclusive (recs_assoc (map ?f snap))"
  proof -
    have same: "map_of (recs_assoc snap) j = Some r"
      if m: "map_of (recs_assoc (map ?f snap)) j = Some r" and occ: "occupying r" for j r
    proof -
      obtain a where a: "a \<in> set snap" "r = ?f a" "record_id r = j"
        using m map_of_recs_assoc [OF d'] by auto
      then have "r = a" using f [OF a(1)] occ by simp
      then show ?thesis using a map_of_recs_assoc [OF d] by simp
    qed
    have "exclusive (recs_assoc snap)" using assms(1) by (simp add: durable_ok_def recs_ok_def)
    with same show ?thesis unfolding exclusive_def by blast
  qed
  moreover
  have len: "length (filter P (map ?f rs)) \<le> length (filter P rs)"
    if "\<forall>r \<in> set rs. P (?f r) \<longrightarrow> P r" for P rs
    using that by (induction rs) auto
  have "countActive (map ?f snap) \<le> countActive snap"
  proof -
    have "state (?f r) = Starting \<or> state (?f r) = Running \<Longrightarrow> state r = Starting \<or> state r = Running"
      if "r \<in> set snap" for r
      using f [OF that] by (auto simp: occupying_def)
    then show ?thesis unfolding countActive_def by (intro len) blast
  qed
  then have "countActive (map snd (recs_assoc (map ?f snap))) \<le> maxConcurrent cfg"
    using assms(1) by (simp add: durable_ok_def recs_ok_def)
  ultimately show "durable_ok cfg (map ?f snap)"
    unfolding durable_ok_def recs_ok_def using d' by simp
  show "records_evolve (recs_assoc snap) (recs_assoc (map ?f snap))"
    unfolding records_evolve_def map_of_recs_assoc [OF d'] map_of_recs_assoc [OF d]
    using f by fastforce
qed

context reliable_store
begin

lemma invariant_durable:
  assumes "invariant cfg st s"
  obtains snap where "st_load st (durable s) = Inr snap" and "durable_ok cfg snap"
proof (cases "loaded s")
  case True
  then show thesis using assms that [of "records_of s"]
    by (auto simp: invariant_def synced_def ready_def intro: durable_ok_records core_recs)
next
  case False
  then show thesis using assms that by (auto simp: invariant_def)
qed

lemma restart_preserves:
  assumes "invariant cfg st s"
  shows "invariant cfg st (fresh_controller (durable s)) \<and>
    durable_evolves st s (fresh_controller (durable s))"
proof (rule invariant_durable [OF assms])
  fix snap assume "st_load st (durable s) = Inr snap" "durable_ok cfg snap"
  then show ?thesis
    by (auto simp: invariant_def fresh_controller_def durable_evolves_def)
qed

lemma recover_preserves:
  assumes "invariant cfg st s" and "0 \<le> now" and "config_ok cfg"
  shows "runs (recover cfg st now (fresh_controller (durable s)))
    (\<lambda>_ t. invariant cfg st t \<and> durable_evolves st s t)"
proof (rule invariant_durable [OF assms(1)])
  fix snap assume snap: "st_load st (durable s) = Inr snap" "durable_ok cfg snap"
  let ?s = "fresh_controller (durable s)"
  let ?snap = "map (recover_record now (maxAttempts cfg)) snap"
  let ?t = "?s\<lparr>recs := recs_assoc ?snap, ctrls := [], loaded := True\<rparr>"
  note ok = recovered_durable_ok [OF snap(2) assms(2)]
  have v: "valid_snapshot snap" "valid_snapshot ?snap"
    using durable_ok_valid snap(2) ok(1) by blast+
  obtain rq fl where rec: "reconcileRecoveredSnapshot snap (Fin now) (Fin (of_nat (maxAttempts cfg))) =
      Inr (?snap, rq, fl)"
    using reconcile_Inr [of snap now "maxAttempts cfg" ?snap] v(1) assms(3)
    by (auto simp: config_ok_def)
  have a: "adopt ?snap ?s = (Inr (), ?t)"
    using v(2) by (intro adopt_run) (simp add: valid_snapshot_def)
  obtain d where d: "store_save st ?snap ?t = (Inr (), ?t\<lparr>durable := d\<rparr>)" "st_load st d = Inr ?snap"
    using store_save_run [OF v(2), of ?t] by blast
  have "ready cfg ?t"
    by (rule adopted_ready [OF ok(1)]) (simp add: quiet_def fresh_controller_def)
  then have "invariant cfg st (?t\<lparr>durable := d\<rparr>)"
    using d(2) by (simp add: invariant_def ready_def synced_def records_of_def)
  moreover have "durable_evolves st s (?t\<lparr>durable := d\<rparr>)"
    using snap(1) d(2) ok(2) by (simp add: durable_evolves_def)
  ultimately show ?thesis
    using snap(1) rec a d(1) by (simp add: recover_def fresh_controller_def [of "durable s"])
qed

end

section \<open>The invariant of the state machine\<close>

lemma runs_snd: "runs result (\<lambda>_. Q) \<Longrightarrow> Q (snd result)"
  by (auto simp: runs_def)

context reliable_store
begin

lemma step_preserves:
  assumes "step cfg st s s'" and "invariant cfg st s" and "config_ok cfg"
  shows "invariant cfg st s' \<and> durable_evolves st s s'"
  using assms(1)
proof (cases rule: step.cases)
  case (enqueue now v)
  then show ?thesis using enqueue_preserves(1) [OF assms(2) _ assms(3)] by (simp add: preserves_def)
next
  case (tick now)
  then show ?thesis using tick_preserves [OF assms(2) _ assms(3), THEN runs_snd]
    by (simp add: preserves_def)
next
  case (heartbeat now j owner)
  then show ?thesis using heartbeat_preserves [OF assms(2) _ assms(3), THEN runs_snd]
    by (simp add: preserves_def)
next
  case (resolve now j oc)
  then show ?thesis using resolveRecovered_preserves [OF assms(2) _ assms(3), THEN runs_snd]
    by (simp add: preserves_def)
next
  case (adopt now j owner)
  then show ?thesis using adoptRecovered_preserves [OF assms(2) _ assms(3), THEN runs_snd]
    by (simp add: preserves_def)
next
  case (async ev)
  then show ?thesis using run_async_preserves [OF assms(2) _ assms(3), THEN runs_snd]
    by (simp add: preserves_def)
next
  case (shutdown "begin" end_time clock async drainMs)
  then show ?thesis
    using shutdown_preserves [OF assms(2) _ _ _ assms(3), THEN runs_snd, of end_time clock async]
    by (simp add: preserves_def)
next
  case restart
  then show ?thesis using restart_preserves [OF assms(2)] by simp
next
  case (recover now)
  then show ?thesis using recover_preserves [OF assms(2) _ assms(3), THEN runs_snd] by simp
qed

lemma reachable_invariant:
  assumes "reachable cfg st s" and "config_ok cfg"
  shows "invariant cfg st s"
  using assms(1)
proof (induction rule: reachable.induct)
  case (initial d)
  then show ?case
    by (simp add: invariant_def fresh_controller_def emptyQueueSnapshot_def durable_ok_def recs_ok_def
        recs_assoc_def exclusive_def countActive_def)
next
  case (next_step s s')
  then show ?case using step_preserves assms(2) by blast
qed

end

end
