(* ===== verification/Scheduler_Properties.thy ===== *)
theory Scheduler_Properties
  imports Scheduler_Invariants
begin

text \<open>
  What the review-queue controller guarantees: in every reachable state over a store that does not
  fail (the invariants), for every operation (its result on each branch), and over histories (how
  records evolve).
\<close>

declare map_of_eq_Some_iff [simp del]

section \<open>A concrete controller\<close>

definition sample_config :: config where
  "sample_config = \<lparr>maxConcurrent = 2, settleWindowMs = 0, leaseTtlMs = 100, maxAttempts = 2,
     retryBaseMs = 10, retryMaxMs = 60, scopeKeyFn = None, scopeLimitFn = None, hasPublisher = True\<rparr>"

lemma sample_config_ok: "config_ok sample_config"
  by (simp add: config_ok_def sample_config_def)

lemma sample_config_simps [simp]:
  "maxConcurrent sample_config = 2" "settleWindowMs sample_config = 0"
  "leaseTtlMs sample_config = 100" "maxAttempts sample_config = 2"
  "retryBaseMs sample_config = 10" "retryMaxMs sample_config = 60"
  "scopeKeyFn sample_config = None" "hasPublisher sample_config"
  by (simp_all add: sample_config_def)

abbreviation empty_controller :: "queue_snapshot qstate" where
  "empty_controller \<equiv> fresh_controller []"

lemma empty_reachable: "reachable cfg mem_store empty_controller"
  by (rule reachable.initial) (simp add: mem_store_def mem_load_def emptyQueueSnapshot_def)

lemma mem_is_reliable: "reliable_store mem_store"
  by (rule mem_reliable.reliable_store_axioms)

text \<open>One job, queued at time 5 and dispatched by a tick at time 6.\<close>

definition queued_record :: job_record where
  "queued_record = sample_record\<lparr>readyAtMs := 5\<rparr>"

definition sample_token :: string where
  "sample_token = lease_token (jobId sample_job) 1"

definition running_record :: job_record where
  "running_record = started sample_config 6 sample_token queued_record"

definition queued_state :: "queue_snapshot qstate" where
  "queued_state = empty_controller\<lparr>recs := [(jobId sample_job, queued_record)], loaded := True,
     durable := [queued_record]\<rparr>"

definition running_state :: "queue_snapshot qstate" where
  "running_state = queued_state\<lparr>recs := [(jobId sample_job, running_record)], tokctr := 1,
     ctrls := [(jobId sample_job, sample_token)], executing := [(jobId sample_job, sample_token)],
     durable := [running_record]\<rparr>"

lemma queued_record_simps [simp]:
  "record_id queued_record = jobId sample_job" "state queued_record = Queued"
  "job queued_record = sample_job" "prKey queued_record = prIdentityKey sample_job"
  "attempt queued_record = 0" "readyAtMs queued_record = 5" "nextRetryAtMs queued_record = 0"
  "leaseOwner queued_record = ''''" "enqueuedAtMs queued_record = 5"
  "cancelRequested queued_record = False"
  by (simp_all add: queued_record_def sample_record_def record_id_def)

lemma running_record_simps [simp]:
  "record_id running_record = jobId sample_job" "state running_record = Running"
  "job running_record = sample_job" "prKey running_record = prIdentityKey sample_job"
  "attempt running_record = 1" "leaseOwner running_record = sample_token"
  "leaseExpiresAtMs running_record = 106" "enqueuedAtMs running_record = 5"
  "cancelRequested running_record = False"
  by (simp_all add: running_record_def started_def record_id_def sample_config_def)

lemma sample_records_valid: "valid_snapshot [queued_record]" "valid_snapshot [running_record]"
proof -
  have q: "valid_record queued_record"
    using sample_record_valid by (simp add: valid_record_def queued_record_def)
  then have "valid_record running_record"
    by (simp add: valid_record_def running_record_def started_def sample_config_def)
  with q show "valid_snapshot [queued_record]" "valid_snapshot [running_record]"
    by (simp_all add: valid_snapshot_def)
qed

lemma mem_saves [simp]: "valid_snapshot rs \<Longrightarrow> mem_save rs d = (Inr (), rs)"
  by (simp add: mem_save_def parseQueueSnapshot_js [THEN iffD2])

lemma enqueue_sample:
  "enqueue sample_config mem_store (job_js sample_job) 5 empty_controller =
    (Inr (D_queued, jobId sample_job), queued_state)"
proof -
  have named: "\<exists>ps. job_js sample_job = JObj ps \<and> get_prop ps ''jobId'' = JStr (jobId sample_job)"
    by (simp add: job_js_def)
  have v: "validateReviewJob (job_js sample_job) = Some sample_job"
    by (simp add: validateReviewJob_job_js sample_job_valid)
  have ne: "jobId sample_job \<noteq> ''''" by (simp add: sample_job_def)
  have r: "newJobRecord sample_job (Fin 5) (Fin (of_nat (settleWindowMs sample_config))) =
      Inr queued_record"
    by (simp add: newJobRecord_def sample_config_def queued_record_def sample_record_def)
  have s: "adopt [] empty_controller = (Inr (), empty_controller\<lparr>loaded := True\<rparr>)"
    by (simp add: adopt_def seqn_def bnd_def modify_def fresh_controller_def)
  show ?thesis
    using named v ne r s sample_records_valid(1)
    by (auto simp: enqueue_def Let_def seqn_def bnd_def ensureLoaded_def mem_store_def mem_load_def
        fresh_controller_def modify_def enqueue_fresh_def set_rec_def save_def snapshot_def
        store_save_def records_of_def queued_state_def enqueue_disposition_def)
qed
lemma no_sibling_alone: "findSupersedingSibling [r] r = None"
  by (simp add: findSupersedingSibling_def sibling_step_def)

lemma tick_sample: "tick sample_config mem_store 6 queued_state = (Inr (), running_state)"
proof -
  have lease: "expireLeases sample_config 6 queued_state = (Inr (), queued_state)"
    by (simp add: expireLeases_def queued_state_def expire_lease_def seqn_def bnd_def)
  have dead: "expireDeadlines 6 queued_state = (Inr (), queued_state)"
    by (simp add: expireDeadlines_def queued_state_def expire_deadline_def seqn_def bnd_def isExpired_def)
      (simp add: sample_job_def)
  have pub: "retryPublishes sample_config 6 queued_state = (Inr (), queued_state)"
    by (simp add: retryPublishes_def queued_state_def retry_publish_def seqn_def bnd_def)
  have recs: "records_of queued_state = [queued_record]"
    by (simp add: records_of_def queued_state_def)
  have load: "ensureLoaded mem_store queued_state = (Inr (), queued_state)"
    by (simp add: ensureLoaded_def queued_state_def)
  have cand: "dispatch_candidates 6 [queued_record] = [queued_record]"
    by (simp add: dispatch_candidates_def)
  have started: "after_start sample_config 6 queued_record queued_state =
      running_state\<lparr>durable := [queued_record]\<rparr>"
    by (simp add: after_start_def Let_def queued_state_def running_state_def running_record_def
        sample_token_def fresh_controller_def)
  have "\<not> intakeClosed queued_state" by (simp add: queued_state_def fresh_controller_def)
  moreover have "dispatchEligible sample_config 6 queued_state =
      (Inr (), running_state\<lparr>durable := [queued_record]\<rparr>)"
    by (simp add: dispatchEligible_def recs cand hasActiveFor_def occupying_def no_sibling_alone
        countActive_def scopeFull_def scopeKeyOf_def seqn_def bnd_def start_run started)
  moreover have "save mem_store (running_state\<lparr>durable := [queued_record]\<rparr>) = (Inr (), running_state)"
    using sample_records_valid
    by (simp add: save_def snapshot_def store_save_def seqn_def bnd_def ensureLoaded_def mem_store_def
        running_state_def queued_state_def records_of_def)
  ultimately show ?thesis
    by (simp add: tick_def seqn_def bnd_def load lease dead pub)
qed

lemma queued_reachable: "reachable sample_config mem_store queued_state"
  using reachable.next_step [OF empty_reachable step.enqueue
      [of 5 sample_config mem_store empty_controller "job_js sample_job"]]
  by (simp add: enqueue_sample)

lemma running_reachable: "reachable sample_config mem_store running_state"
  using reachable.next_step [OF queued_reachable step.tick [of 6 sample_config mem_store queued_state]]
  by (simp add: tick_sample)

section \<open>The invariants\<close>

lemma reachable_core:
  assumes "reliable_store st" and "config_ok cfg" and "reachable cfg st s" and "loaded s"
  shows "ready cfg s" and "synced st s" and "core cfg s" and "recs_ok cfg (recs s)"
  using reliable_store.reachable_invariant [OF assms(1,3,2)] assms(4) core_recs [of "{}" cfg s]
  by (auto simp: invariant_def ready_def)

lemma unloaded_empty:
  assumes "reliable_store st" and "config_ok cfg" and "reachable cfg st s" and "\<not> loaded s"
  shows "recs s = [] \<and> executing s = [] \<and> calls s = [] \<and> inflight s = [] \<and> ctrls s = []"
  using reliable_store.reachable_invariant [OF assms(1,3,2)] assms(4) by (simp add: invariant_def)

text \<open>C1: One worker per pull request. In every state the controller can reach (through any sequence of
  calls, promise resolutions, crashes, restarts and recoveries, over a store that does not fail),
  no two generations of one supersession scope are active at once, apart from records that only
  wait for the publication of the result they hold; and the jobs are pairwise distinct.\<close>

theorem one_worker_per_scope:
  assumes "reliable_store st" and "config_ok cfg" and "reachable cfg st s"
  shows "distinct (map record_id (records_of s)) \<and>
    (\<forall>r \<in> set (records_of s). \<forall>r' \<in> set (records_of s).
      occupying r \<longrightarrow> occupying r' \<longrightarrow> prKey r = prKey r' \<longrightarrow> r = r')"
proof (cases "loaded s")
  case False
  then show ?thesis using unloaded_empty [OF assms] by (simp add: records_of_def)
next
  case True
  note c = reachable_core(3) [OF assms True]
  have "distinct (map record_id (records_of s))"
    using core_map_ok [OF c] by (simp add: records_of_ids [OF c])
  moreover have "r = r'" if "r \<in> set (records_of s)" "r' \<in> set (records_of s)" "occupying r"
    "occupying r'" "prKey r = prKey r'" for r r'
  proof -
    note m = records_of_current [OF c that(1)] records_of_current [OF c that(2)]
    have "exclusive (recs s)" using reachable_core(4) [OF assms True] by (simp add: recs_ok_def)
    then have "record_id r = record_id r'" using m that unfolding exclusive_def by blast
    then show ?thesis using m by (metis option.inject)
  qed
  ultimately show ?thesis by blast
qed

theorem one_worker_per_scope_witness:
  "occupying running_record \<and> distinct (map record_id (records_of running_state))"
  using one_worker_per_scope [OF mem_is_reliable sample_config_ok running_reachable]
  by (simp add: occupying_def)

text \<open>Work is bounded. In every reachable state at most \<open>maxConcurrent\<close> executions are counted as
  running, no record ever exceeds \<open>maxAttempts\<close> attempts, a queued record always has an attempt
  left, and no record rests in \<open>starting\<close>.\<close>

theorem work_bounded:
  assumes "reliable_store st" and "config_ok cfg" and "reachable cfg st s"
  shows "countActive (records_of s) \<le> maxConcurrent cfg \<and>
    (\<forall>r \<in> set (records_of s). attempt r \<le> maxAttempts cfg \<and> state r \<noteq> Starting \<and>
      (state r = Queued \<longrightarrow> attempt r < maxAttempts cfg))"
proof (cases "loaded s")
  case False
  then show ?thesis using unloaded_empty [OF assms] by (simp add: records_of_def countActive_def)
next
  case True
  note c = reachable_core(3) [OF assms True]
  have "countActive (records_of s) \<le> maxConcurrent cfg"
    using reachable_core(4) [OF assms True] by (simp add: recs_ok_def records_of_def)
  then show ?thesis
    using core_record [OF c records_of_current [OF c]] by (auto simp: record_ok_def)
qed

theorem work_bounded_witness:
  "countActive (records_of running_state) \<le> 2 \<and> attempt running_record \<le> 2"
  using work_bounded [OF mem_is_reliable sample_config_ok running_reachable]
  by (simp add: sample_config_def records_of_def running_state_def)

text \<open>C30: The durable snapshot is never behind. Between operations, a loaded controller's store loads
  exactly the records in memory, and they form a valid snapshot; a controller that has not loaded
  yet has nothing in flight.\<close>

theorem durable_agrees:
  assumes "reliable_store st" and "config_ok cfg" and "reachable cfg st s"
  shows "if loaded s then st_load st (durable s) = Inr (records_of s) \<and> valid_snapshot (records_of s)
    else records_of s = [] \<and> executing s = [] \<and> calls s = []"
proof (cases "loaded s")
  case False
  then show ?thesis using unloaded_empty [OF assms] by (simp add: records_of_def)
next
  case True
  then show ?thesis
    using reachable_core [OF assms True] durable_ok_valid [OF durable_ok_records, of cfg s]
    by (simp add: synced_def)
qed

theorem durable_agrees_witness:
  "st_load mem_store (durable running_state) = Inr [running_record]"
  using durable_agrees [OF mem_is_reliable sample_config_ok running_reachable]
  by (simp add: running_state_def queued_state_def records_of_def)

text \<open>No worker runs unowned, and no result is published twice at once. In every reachable state, an
  executor whose promise is pending either has been told to abort or is the lease owner of its
  job's running record; and at most one publish call per job is in flight.\<close>

theorem executors_owned:
  assumes "reliable_store st" and "config_ok cfg" and "reachable cfg st s"
  shows "(\<forall>(j, token) \<in> set (executing s). token \<in> set (aborted s) \<or>
      (\<exists>r. map_of (recs s) j = Some r \<and> state r = Running \<and> leaseOwner r = token)) \<and>
    distinct (map pc_jobId (calls s))"
proof (cases "loaded s")
  case False
  then show ?thesis using unloaded_empty [OF assms] by simp
next
  case True
  note c = reachable_core(3) [OF assms True]
  have "\<exists>r. map_of (recs s) j = Some r \<and> state r = Running \<and> leaseOwner r = token"
    if "(j, token) \<in> set (executing s)" "token \<notin> set (aborted s)" for j token
  proof -
    have "map_of (ctrls s) j = Some token"
      using c that unfolding core_x_def exec_ok_def by blast
    moreover from this obtain r where r: "map_of (recs s) j = Some r"
      using c unfolding core_x_def by (metis option.distinct(1) option.exhaust)
    moreover have "ctrl_ok s j r" using c r unfolding core_x_def by simp
    ultimately show ?thesis by (auto simp: ctrl_ok_def)
  qed
  moreover have "distinct (map pc_jobId (calls s))"
    using c by (simp add: core_x_def calls_ok_def)
  ultimately show ?thesis by blast
qed

theorem executors_owned_witness:
  "(jobId sample_job, sample_token) \<in> set (executing running_state) \<and>
   distinct (map pc_jobId (calls running_state))"
  using executors_owned [OF mem_is_reliable sample_config_ok running_reachable]
  by (simp add: running_state_def)

section \<open>Every operation returns, and records only move forward\<close>

lemma runs_returns: "runs result Q \<Longrightarrow> runs result (\<lambda>_ _. True)"
  by (auto simp: runs_def)

text \<open>C29: No operation of the controller gets stuck or throws half-way. From every reachable state, over
  a store that does not fail, a pass, a heartbeat, a recovered outcome, an adoption, a shutdown
  and a boot recovery return a value (no illegal transition is attempted, no snapshot is refused);
  intake either returns or refuses the job and leaves the state exactly as it was.\<close>

theorem operations_return:
  assumes "reliable_store st" and "config_ok cfg" and "reachable cfg st s" and "0 \<le> now"
    and "\<forall>i. 0 \<le> clock i" and "\<forall>i. list_all timely (async i)"
  shows "runs (tick cfg st now s) (\<lambda>_ _. True) \<and>
    runs (heartbeat cfg st j owner now s) (\<lambda>_ _. True) \<and>
    runs (resolveRecovered cfg st j oc now s) (\<lambda>_ _. True) \<and>
    runs (adoptRecovered cfg st j owner now s) (\<lambda>_ _. True) \<and>
    runs (shutdown cfg st drainMs clock async begin now s) (\<lambda>_ _. True) \<and>
    runs (recover cfg st now (fresh_controller (durable s))) (\<lambda>_ _. True) \<and>
    (runs (enqueue cfg st v now s) (\<lambda>_ _. True) \<or> snd (enqueue cfg st v now s) = s)"
proof -
  note inv = reliable_store.reachable_invariant [OF assms(1,3,2)]
  have evs: "\<forall>i. \<forall>ev \<in> set (async i). timely ev" using assms(6) by (simp add: list_all_iff)
  show ?thesis
    by (intro conjI reliable_store.tick_preserves [OF assms(1) inv assms(4,2), THEN runs_returns]
        reliable_store.heartbeat_preserves [OF assms(1) inv assms(4,2), THEN runs_returns]
        reliable_store.resolveRecovered_preserves [OF assms(1) inv assms(4,2), THEN runs_returns]
        reliable_store.adoptRecovered_preserves [OF assms(1) inv assms(4,2), THEN runs_returns]
        reliable_store.shutdown_preserves [OF assms(1) inv assms(4,5) evs assms(2), THEN runs_returns]
        reliable_store.recover_preserves [OF assms(1) inv assms(4,2), THEN runs_returns]
        reliable_store.enqueue_preserves(2) [OF assms(1) inv assms(4,2)])
qed

theorem operations_return_witness:
  "runs (tick sample_config mem_store 7 running_state) (\<lambda>_ _. True) \<and>
   (runs (enqueue sample_config mem_store JNull 7 running_state) (\<lambda>_ _. True) \<or>
    snd (enqueue sample_config mem_store JNull 7 running_state) = running_state)"
  using operations_return [OF mem_is_reliable sample_config_ok running_reachable, of 7 "\<lambda>_. 7"
      "\<lambda>_. []" undefined undefined undefined undefined undefined JNull]
  by simp

text \<open>The history of a generation is a path of the lifecycle. Whatever step the system takes, a
  restart or a recovery included, every record of the durable snapshot is still there afterwards,
  with the same job and scope and enqueue time and at least as many attempts, in a state the
  transition table allows to be reached; a record in a terminal state never changes again.\<close>

theorem history_follows_lifecycle:
  assumes "reliable_store st" and "config_ok cfg" and "reachable cfg st s" and "step cfg st s s'"
  shows "\<exists>snap snap'. st_load st (durable s) = Inr snap \<and> st_load st (durable s') = Inr snap' \<and>
    (\<forall>r \<in> set snap. \<exists>r' \<in> set snap'. record_id r' = record_id r \<and> job r' = job r \<and>
      prKey r' = prKey r \<and> enqueuedAtMs r' = enqueuedAtMs r \<and> attempt r \<le> attempt r' \<and>
      canTransition\<^sup>*\<^sup>* (state r) (state r') \<and> (isTerminalState (state r) \<longrightarrow> r' = r))"
proof -
  note inv = reliable_store.reachable_invariant [OF assms(1,3,2)]
  note step = reliable_store.step_preserves [OF assms(1,4) inv assms(2)]
  then obtain snap snap' where snaps: "st_load st (durable s) = Inr snap"
    "st_load st (durable s') = Inr snap'" and ev: "records_evolve (recs_assoc snap) (recs_assoc snap')"
    unfolding durable_evolves_def by blast
  obtain snap0 where "st_load st (durable s) = Inr snap0" "durable_ok cfg snap0"
    by (rule reliable_store.invariant_durable [OF assms(1) inv])
  then have d: "distinct (map record_id snap)"
    using snaps durable_ok_valid by (auto simp: valid_snapshot_def)
  obtain snap1 where "st_load st (durable s') = Inr snap1" "durable_ok cfg snap1"
    using step by (blast intro: reliable_store.invariant_durable [OF assms(1)])
  then have d': "distinct (map record_id snap')"
    using snaps durable_ok_valid by (auto simp: valid_snapshot_def)
  have "\<exists>r' \<in> set snap'. record_id r' = record_id r \<and> evolves r r'" if "r \<in> set snap" for r
  proof -
    have "map_of (recs_assoc snap) (record_id r) = Some r"
      using that map_of_recs_assoc [OF d] by simp
    then obtain r' where "map_of (recs_assoc snap') (record_id r) = Some r'" "evolves r r'"
      using ev unfolding records_evolve_def by blast
    then show ?thesis using map_of_recs_assoc [OF d'] by auto
  qed
  then show ?thesis using snaps unfolding evolves_def by blast
qed

theorem history_follows_lifecycle_witness:
  "\<exists>r' \<in> set (durable running_state). job r' = sample_job \<and> canTransition\<^sup>*\<^sup>* Queued (state r')"
proof -
  have "step sample_config mem_store queued_state running_state"
    using step.tick [of 6 sample_config mem_store queued_state] by (simp add: tick_sample)
  from history_follows_lifecycle [OF mem_is_reliable sample_config_ok queued_reachable this]
  show ?thesis by (auto simp: mem_store_def mem_load_def queued_state_def)
qed

section \<open>Stale executions\<close>

lemma release_same [simp]:
  "recs (releaseController j token s) = recs s" "durable (releaseController j token s) = durable s"
  "calls (releaseController j token s) = calls s"
  "inflight (releaseController j token s) = inflight s"
  "executing (releaseController j token s) = executing s"
  by (simp_all add: releaseController_def)

text \<open>A late resolution of an abandoned execution is revoked. If the job's record is terminal, or
  leased to another dispatch, the outcome changes no record, writes nothing, publishes nothing and
  releases at most the stale dispatch's own controller: in a reachable state, none at all.\<close>

theorem stale_settle_revoked:
  assumes "map_of (recs s) j = Some r" and "isTerminalState (state r) \<or> leaseOwner r \<noteq> token"
  shows "\<exists>s'. settle cfg st j token oc now s = (Inr (), s') \<and> recs s' = recs s \<and>
    durable s' = durable s \<and> calls s' = calls s \<and> inflight s' = inflight s \<and>
    (\<forall>k. map_of (ctrls s) k \<noteq> Some token \<or> k \<noteq> j \<longrightarrow> map_of (ctrls s') k = map_of (ctrls s) k) \<and>
    (reliable_store st \<and> config_ok cfg \<and> reachable cfg st s \<longrightarrow> s' = s)"
proof -
  have run: "settle cfg st j token oc now s = (Inr (), releaseController j token s)"
    using assms by (simp add: settle_def modify_def)
  have "releaseController j token s = s" if "reliable_store st" "config_ok cfg" "reachable cfg st s"
  proof -
    have "loaded s" using unloaded_empty [OF that] assms(1) by (cases "loaded s") auto
    then have "core cfg s" using reachable_core(3) [OF that] by simp
    then have "ctrl_ok s j r" using assms(1) by (simp add: core_x_def)
    then have "map_of (ctrls s) j \<noteq> Some token" using assms(2) by (auto simp: ctrl_ok_def)
    then show ?thesis by (rule release_none)
  qed
  then show ?thesis using run by (auto simp: releaseController_def)
qed

theorem stale_settle_revoked_witness:
  "\<exists>s'. settle sample_config mem_store (jobId sample_job) ''lease-old-0'' \<lparr>oc_status = Out_completed,
      oc_resultHeadSha = ''abc'', oc_failureCategory = ''''\<rparr> 9 running_state = (Inr (), s') \<and>
    recs s' = recs running_state"
proof -
  have "map_of (recs running_state) (jobId sample_job) = Some running_record"
    by (simp add: running_state_def)
  moreover have "leaseOwner running_record \<noteq> ''lease-old-0''"
    by (simp add: sample_token_def lease_token_def sample_job_def)
  ultimately show ?thesis using stale_settle_revoked by blast
qed

section \<open>Intake\<close>

text \<open>What the supersession sweep does to a record, and whose executor it aborts.\<close>

definition superseded_record :: "review_job \<Rightarrow> rat \<Rightarrow> job_record \<Rightarrow> job_record" where
  "superseded_record j now r =
     (if prKey r \<noteq> prIdentityKey j then r
      else if state r = Queued then
        r\<lparr>state := Superseded, updatedAtMs := now, failureReason := ''superseded-by-newer-head'',
          supersededByJobId := jobId j\<rparr>
      else if isActiveState (state r) then
        r\<lparr>cancelRequested := True, supersededByJobId := jobId j\<rparr>
      else r)"

lemma abort_signal_simps [simp]:
  "recs (abort_signal i s) = recs s" "ctrls (abort_signal i s) = ctrls s"
  "set (aborted (abort_signal i s)) = set (aborted s) \<union> set_option (map_of (ctrls s) i)"
  by (auto simp: abort_signal_def split: option.split)

lemma supersede_one_run:
  assumes "record_id r = i" and "map_of (recs s) i = Some r"
  shows "\<exists>t. supersede_one j now (i, r) s = (Inr (), t) \<and> ctrls t = ctrls s \<and>
    (\<forall>k. map_of (recs t) k = (if k = i then Some (superseded_record j now r) else map_of (recs s) k)) \<and>
    set (aborted s) \<subseteq> set (aborted t) \<and>
    (prKey r = prIdentityKey j \<and> isActiveState (state r) \<longrightarrow>
       set_option (map_of (ctrls s) i) \<subseteq> set (aborted t))"
  using assms(2)
  by (auto simp: supersede_one_def Let_def assms(1) superseded_record_def move_def bnd_def seqn_def
      withState_def set_rec_def modify_def)

lemma sweep_run:
  fixes s :: "'s qstate"
  assumes "map_ok (recs s)" and "\<And>i r. map_of (recs s) i = Some r \<Longrightarrow> record_id r = i"
  shows "runs (for_each (recs s) (supersede_one j now) s) (\<lambda>_ t. ctrls t = ctrls s \<and>
    (\<forall>k. map_of (recs t) k = map_option (superseded_record j now) (map_of (recs s) k)) \<and>
    (\<forall>k r. map_of (recs s) k = Some r \<longrightarrow> prKey r = prIdentityKey j \<longrightarrow> isActiveState (state r) \<longrightarrow>
       set_option (map_of (ctrls s) k) \<subseteq> set (aborted t)))"
proof -
  define P where "P rest t \<longleftrightarrow> ctrls t = ctrls s \<and> distinct (map fst rest) \<and>
      (\<forall>e \<in> set rest. map_of (recs s) (fst e) = Some (snd e)) \<and>
      (\<forall>k. map_of (recs t) k = (if k \<in> fst ` set rest then map_of (recs s) k
         else map_option (superseded_record j now) (map_of (recs s) k))) \<and>
      (\<forall>k r. k \<notin> fst ` set rest \<longrightarrow> map_of (recs s) k = Some r \<longrightarrow> prKey r = prIdentityKey j \<longrightarrow>
         isActiveState (state r) \<longrightarrow> set_option (map_of (ctrls s) k) \<subseteq> set (aborted t))"
    for rest and t :: "'s qstate"
  have "runs (for_each (recs s) (supersede_one j now) s) (\<lambda>_. P [])"
  proof (rule runs_for_each)
    have "map_of (recs s) k = None" if "k \<notin> fst ` set (recs s)" for k
      using that by (simp add: map_of_eq_None_iff)
    then show "P (recs s) s"
      using assms(1) by (auto simp: P_def map_of_eq_Some_iff [OF assms(1)] dest!: map_of_SomeD)
    fix e rest t assume p: "P (e # rest) t"
    obtain i r where e: "e = (i, r)" by (cases e)
    have m: "map_of (recs s) i = Some r" "map_of (recs t) i = Some r" and c: "ctrls t = ctrls s"
      and new: "i \<notin> fst ` set rest"
      using p by (auto simp: P_def e)
    obtain t' where t': "supersede_one j now (i, r) t = (Inr (), t')" "ctrls t' = ctrls t"
      "\<forall>k. map_of (recs t') k = (if k = i then Some (superseded_record j now r) else map_of (recs t) k)"
      "set (aborted t) \<subseteq> set (aborted t')"
      "prKey r = prIdentityKey j \<and> isActiveState (state r) \<longrightarrow>
        set_option (map_of (ctrls t) i) \<subseteq> set (aborted t')"
      using supersede_one_run [OF assms(2) [OF m(1)] m(2), of j now] by blast
    have "P rest t'"
      unfolding P_def
    proof (intro conjI allI impI)
      show "ctrls t' = ctrls s" "distinct (map fst rest)"
        "\<forall>e \<in> set rest. map_of (recs s) (fst e) = Some (snd e)"
        using p t'(2) by (auto simp: P_def)
      show "map_of (recs t') k = (if k \<in> fst ` set rest then map_of (recs s) k
          else map_option (superseded_record j now) (map_of (recs s) k))" for k
        using p t'(3) m(1) new by (cases "k = i") (auto simp: P_def e)
      fix k a assume k: "k \<notin> fst ` set rest" "map_of (recs s) k = Some a" "prKey a = prIdentityKey j"
        "isActiveState (state a)"
      show "set_option (map_of (ctrls s) k) \<subseteq> set (aborted t')"
      proof (cases "k = i")
        case True
        then show ?thesis using k m(1) t'(5) c by simp
      next
        case False
        then have "set_option (map_of (ctrls s) k) \<subseteq> set (aborted t)"
          using p k unfolding P_def e by simp
        then show ?thesis using t'(4) by blast
      qed
    qed
    then show "runs (supersede_one j now e t) (\<lambda>_. P rest)" using t'(1) by (simp add: e)
  qed
  then show ?thesis by (rule runs_mono) (simp add: P_def)
qed

lemma validated_name:
  assumes "validateReviewJob v = Some j"
  shows "\<exists>ps. v = JObj ps \<and> get_prop ps ''jobId'' = JStr (jobId j) \<and> jobId j \<noteq> ''''"
proof -
  obtain ps where v: "v = JObj ps"
    using assms by (cases v) (auto simp: validateReviewJob_def)
  have t: "js_text x = Some y \<Longrightarrow> x = JStr y \<and> y \<noteq> ''''" for x y
    by (auto simp: js_text_def split: jsval.splits if_splits)
  show ?thesis
    using assms unfolding v validateReviewJob_def
    by (clarsimp simp: bind_eq_Some_conv dest!: t)
qed

text \<open>Latest head wins at intake. Enqueuing a valid new job on an open, loaded controller always
  succeeds: the new generation waits queued for its settle window with no attempt used; every
  older queued generation of its scope becomes \<open>superseded\<close>, stamped with the new job; every active
  one is stamped, marked for cancellation and its executor is told to abort; terminal records and
  other scopes are untouched; the disposition says which of these happened; and the outcome is
  durable.\<close>

theorem enqueue_supersedes:
  assumes "reliable_store st" and "config_ok cfg" and "reachable cfg st s" and "loaded s"
    and "\<not> intakeClosed s" and "validateReviewJob v = Some j"
    and "map_of (recs s) (jobId j) = None" and "0 \<le> now"
  shows "runs (enqueue cfg st v now s) (\<lambda>result s'.
    result = (enqueue_disposition (records_of s) (prIdentityKey j), jobId j) \<and>
    st_load st (durable s') = Inr (records_of s') \<and>
    (\<exists>r. map_of (recs s') (jobId j) = Some r \<and> job r = j \<and> state r = Queued \<and> attempt r = 0 \<and>
       readyAtMs r = now + of_nat (settleWindowMs cfg)) \<and>
    (\<forall>i r. map_of (recs s) i = Some r \<longrightarrow>
       map_of (recs s') i = Some (superseded_record j now r) \<and>
       (prKey r = prIdentityKey j \<and> isActiveState (state r) \<longrightarrow>
          set_option (map_of (ctrls s) i) \<subseteq> set (aborted s'))))"
proof -
  note c = reachable_core [OF assms(1-4)]
  have valid: "valid_job j" by (rule validateReviewJob_valid [OF assms(6)])
  obtain r where r: "newJobRecord j (Fin now) (Fin (of_nat (settleWindowMs cfg))) = Inr r"
    by (simp add: newJobRecord_def)
  then have fields: "job r = j" "state r = Queued" "attempt r = 0"
    "readyAtMs r = now + of_nat (settleWindowMs cfg)"
    by (auto simp: newJobRecord_def)
  obtain ps where v: "v = JObj ps" "get_prop ps ''jobId'' = JStr (jobId j)" "jobId j \<noteq> ''''"
    using validated_name [OF assms(6)] by blast
  have run: "enqueue cfg st v now s = enqueue_fresh cfg st j now s"
    using assms(4,5,7) assms(6) [unfolded v(1)] v(2,3)
    by (simp add: enqueue_def v(1) Let_def ensureLoaded_def seqn_def bnd_def)
  have ids: "map_of (recs s) i = Some r \<Longrightarrow> record_id r = i" for i r
    using core_record [OF c(3)] by (simp add: record_ok_def)
  have sweep: "runs (for_each (recs s) (supersede_one j now) s) (\<lambda>_ t. ctrls t = ctrls s \<and>
      (\<forall>k. map_of (recs t) k = map_option (superseded_record j now) (map_of (recs s) k)) \<and>
      (\<forall>k r. map_of (recs s) k = Some r \<longrightarrow> prKey r = prIdentityKey j \<longrightarrow> isActiveState (state r) \<longrightarrow>
         set_option (map_of (ctrls s) k) \<subseteq> set (aborted t)))"
    by (rule sweep_run [OF core_map_ok [OF c(3)] ids])
  obtain t where t: "for_each (recs s) (supersede_one j now) s = (Inr (), t)" "ctrls t = ctrls s"
    "\<forall>k. map_of (recs t) k = map_option (superseded_record j now) (map_of (recs s) k)"
    "\<forall>k r. map_of (recs s) k = Some r \<longrightarrow> prKey r = prIdentityKey j \<longrightarrow> isActiveState (state r) \<longrightarrow>
       set_option (map_of (ctrls s) k) \<subseteq> set (aborted t)"
    using sweep by (auto simp: runs_def)
  let ?u = "t\<lparr>recs := AList.update (jobId j) r (recs t)\<rparr>"
  have "keeps cfg s t"
    using keeps_records [of cfg s "supersede_one j now", OF c(1) supersede_one_keeps] assms(8) t(1)
    by (simp add: runs_def)
  moreover have "map_of (recs t) (jobId j) = None" using t(3) assms(7) by simp
  ultimately have "ready cfg ?u"
    using insert_keeps [of cfg t j now r] keeps_ready valid assms(2,8) r by (auto simp: keeps_def)
  then have "recs_ok cfg (recs ?u)" "loaded ?u"
    using core_recs unfolding ready_def by blast+
  then obtain d where d: "save st ?u = (Inr (), ?u\<lparr>durable := d\<rparr>)" "st_load st d = Inr (records_of ?u)"
    using reliable_store.save_run [OF assms(1)] by blast
  have "enqueue_fresh cfg st j now s =
      (Inr (enqueue_disposition (records_of s) (prIdentityKey j), jobId j), ?u\<lparr>durable := d\<rparr>)"
    using t(1) d(1) by (simp add: enqueue_fresh_def Let_def seqn_def bnd_def r set_rec_def modify_def)
  moreover have "records_of (?u\<lparr>durable := d\<rparr>) = records_of ?u" by (simp add: records_of_def)
  ultimately show ?thesis
    using run d(2) t(3,4) fields assms(7) by (auto simp: runs_def)
qed

text \<open>A second push to the pull request of the running job.\<close>

definition newer_job :: review_job where
  "newer_job = sample_job\<lparr>jobId := ''gen-2'', headSha := ''fedcba9''\<rparr>"

lemma newer_job_valid: "valid_job newer_job"
  using sample_job_valid
  by (simp add: valid_job_def newer_job_def valid_text_def control_char_def optional_def sha_form_def
      all_of_def is_hex_def)

theorem enqueue_supersedes_witness:
  "runs (enqueue sample_config mem_store (job_js newer_job) 8 running_state) (\<lambda>result s'.
     fst result = D_superseded_running \<and> sample_token \<in> set (aborted s') \<and>
     (\<exists>r. map_of (recs s') ''gen-2'' = Some r \<and> state r = Queued))"
proof -
  have v: "validateReviewJob (job_js newer_job) = Some newer_job"
    by (simp add: validateReviewJob_job_js newer_job_valid)
  have key: "prIdentityKey newer_job = prIdentityKey sample_job" "jobId newer_job = ''gen-2''"
    by (simp_all add: prIdentityKey_def newer_job_def)
  have fresh: "jobId sample_job \<noteq> ''gen-2''" by (simp add: sample_job_def)
  have s: "loaded running_state" "\<not> intakeClosed running_state"
    "map_of (recs running_state) (jobId newer_job) = None"
    "records_of running_state = [running_record]"
    "map_of (recs running_state) (jobId sample_job) = Some running_record"
    "map_of (ctrls running_state) (jobId sample_job) = Some sample_token"
    using fresh by (simp_all add: running_state_def queued_state_def fresh_controller_def
        records_of_def key)
  obtain result s' where run: "enqueue sample_config mem_store (job_js newer_job) 8 running_state =
      (Inr result, s')"
    and d: "result = (enqueue_disposition [running_record] (prIdentityKey sample_job), ''gen-2'')"
    and new: "\<exists>r. map_of (recs s') ''gen-2'' = Some r \<and> state r = Queued"
    and old: "\<forall>i r. map_of (recs running_state) i = Some r \<longrightarrow>
        (prKey r = prIdentityKey sample_job \<and> isActiveState (state r) \<longrightarrow>
           set_option (map_of (ctrls running_state) i) \<subseteq> set (aborted s'))"
    using enqueue_supersedes [OF mem_is_reliable sample_config_ok running_reachable s(1,2) v s(3),
        of 8] unfolding runs_def s(4) key by auto
  have "set_option (map_of (ctrls running_state) (jobId sample_job)) \<subseteq> set (aborted s')"
    using old s(5) by simp
  then show ?thesis
    using run d new s(6) by (simp add: runs_def enqueue_disposition_def)
qed

section \<open>The supersession order\<close>

text \<open>\<open>s\<close> supersedes \<open>r\<close>: another live generation of the scope, enqueued later, or at the same time with
  the greater id.\<close>

definition supersedes :: "job_record \<Rightarrow> job_record \<Rightarrow> bool" where
  "supersedes s r \<longleftrightarrow> prKey s = prKey r \<and> record_id s \<noteq> record_id r \<and>
     \<not> isTerminalState (state s) \<and>
     (enqueuedAtMs r, record_id r) \<le> (enqueuedAtMs s, record_id s)"

lemma sibling_step_alt:
  "sibling_step r w s =
    (if \<not> supersedes s r then w
     else case w of None \<Rightarrow> Some (record_id s, enqueuedAtMs s)
       | Some (i, e) \<Rightarrow> if (e, i) < (enqueuedAtMs s, record_id s)
           then Some (record_id s, enqueuedAtMs s) else w)"
  by (auto simp: sibling_step_def supersedes_def less_eq_prod_def less_prod_def split: option.split)

lemma sibling_fold:
  "foldl (sibling_step r) w rs = None \<longleftrightarrow> w = None \<and> (\<forall>s \<in> set rs. \<not> supersedes s r)"
  "foldl (sibling_step r) w rs = Some (i, e) \<Longrightarrow>
    (w = Some (i, e) \<or> (\<exists>s \<in> set rs. supersedes s r \<and> record_id s = i \<and> enqueuedAtMs s = e)) \<and>
    (\<forall>s \<in> set rs. supersedes s r \<longrightarrow> (enqueuedAtMs s, record_id s) \<le> (e, i)) \<and>
    (\<forall>i0 e0. w = Some (i0, e0) \<longrightarrow> (e0, i0) \<le> (e, i))"
proof (induction rs arbitrary: w)
  case Nil
  case 1
  show ?case by simp
next
  case Nil
  case 2
  then show ?case by simp
next
  case (Cons s rs)
  case 1
  have "sibling_step r w s = None \<longleftrightarrow> w = None \<and> \<not> supersedes s r"
    by (auto simp: sibling_step_alt split: option.splits if_splits)
  then show ?case by (simp add: Cons.IH(1) conj_assoc)
next
  case (Cons s rs)
  case 2
  let ?w = "sibling_step r w s"
  note ih = Cons.IH(2) [of ?w, OF 2 [simplified]]
  show ?case
  proof (cases "supersedes s r")
    case False
    then have "?w = w" by (simp add: sibling_step_alt)
    with ih False show ?thesis by auto
  next
    case True
    have "(enqueuedAtMs s, record_id s) \<le> (e, i) \<and> (\<forall>i0 e0. w = Some (i0, e0) \<longrightarrow> (e0, i0) \<le> (e, i))"
    proof (cases w)
      case None
      then have "?w = Some (record_id s, enqueuedAtMs s)" using True by (simp add: sibling_step_alt)
      with ih None show ?thesis by blast
    next
      case (Some p)
      obtain i0 e0 where p: "p = (i0, e0)" by (cases p)
      show ?thesis
      proof (cases "(e0, i0) < (enqueuedAtMs s, record_id s)")
        case lt: True
        then have "?w = Some (record_id s, enqueuedAtMs s)"
          using True Some p by (simp add: sibling_step_alt)
        then have "(enqueuedAtMs s, record_id s) \<le> (e, i)" using ih by blast
        with lt Some p show ?thesis by auto
      next
        case False
        then have "?w = Some (i0, e0)"
          by (simp only: sibling_step_alt Some p option.case prod.case True not_True_eq_False if_False)
        then have "(e0, i0) \<le> (e, i)" using ih by blast
        with False Some p show ?thesis by auto
      qed
    qed
    moreover have "w = Some (i, e) \<or> (\<exists>s \<in> set (s # rs). supersedes s r \<and> record_id s = i \<and>
        enqueuedAtMs s = e)"
    proof -
      have "?w = w \<or> ?w = Some (record_id s, enqueuedAtMs s)"
        by (auto simp: sibling_step_alt split: option.split)
      with ih True show ?thesis by auto
    qed
    ultimately show ?thesis using ih by auto
  qed
qed

lemma no_sibling_iff:
  "findSupersedingSibling rs r = None \<longleftrightarrow> (\<forall>s \<in> set rs. \<not> supersedes s r)"
  by (simp add: findSupersedingSibling_def sibling_fold(1))

text \<open>\<open>findSupersedingSibling\<close> finds the newest live generation that supersedes a record, in the total
  order of enqueue time and id, and finds none exactly when there is none; the order is strict,
  so of two live generations of a scope exactly one supersedes the other and they can never block
  each other mutually.\<close>

theorem superseding_sibling_newest:
  "(findSupersedingSibling rs r = None \<longleftrightarrow> (\<forall>s \<in> set rs. \<not> supersedes s r)) \<and>
   (\<forall>i. findSupersedingSibling rs r = Some i \<longrightarrow> (\<exists>s \<in> set rs. supersedes s r \<and> record_id s = i \<and>
      (\<forall>t \<in> set rs. supersedes t r \<longrightarrow>
         (enqueuedAtMs t, record_id t) \<le> (enqueuedAtMs s, record_id s)))) \<and>
   (\<forall>s. \<not> isTerminalState (state r) \<and> \<not> isTerminalState (state s) \<and> prKey s = prKey r \<and>
      record_id s \<noteq> record_id r \<longrightarrow> (supersedes s r \<longleftrightarrow> \<not> supersedes r s))"
proof (intro conjI allI impI)
  show "findSupersedingSibling rs r = None \<longleftrightarrow> (\<forall>s \<in> set rs. \<not> supersedes s r)"
    by (rule no_sibling_iff)
  show "\<exists>s \<in> set rs. supersedes s r \<and> record_id s = i \<and> (\<forall>t \<in> set rs. supersedes t r \<longrightarrow>
      (enqueuedAtMs t, record_id t) \<le> (enqueuedAtMs s, record_id s))"
    if "findSupersedingSibling rs r = Some i" for i
  proof -
    obtain e where "foldl (sibling_step r) None rs = Some (i, e)"
      using \<open>findSupersedingSibling rs r = Some i\<close> by (auto simp: findSupersedingSibling_def)
    from sibling_fold(2) [OF this] show ?thesis by auto
  qed
  show "supersedes s r \<longleftrightarrow> \<not> supersedes r s" if "\<not> isTerminalState (state r) \<and>
    \<not> isTerminalState (state s) \<and> prKey s = prKey r \<and> record_id s \<noteq> record_id r" for s
    using that unfolding supersedes_def by auto
qed

theorem superseding_sibling_newest_witness:
  "findSupersedingSibling [queued_record, queued_record\<lparr>job := newer_job\<rparr>] queued_record =
     Some ''gen-2'' \<or> findSupersedingSibling [queued_record, queued_record\<lparr>job := newer_job\<rparr>]
       (queued_record\<lparr>job := newer_job\<rparr>) = Some (jobId sample_job)"
proof -
  let ?n = "queued_record\<lparr>job := newer_job\<rparr>"
  have n: "record_id ?n = ''gen-2''" by (simp add: record_id_def newer_job_def)
  have "jobId sample_job \<noteq> ''gen-2''" by (simp add: sample_job_def)
  then have "supersedes ?n queued_record \<or> supersedes queued_record ?n"
    using superseding_sibling_newest [of "[]" queued_record] n by (simp add: queued_record_simps(1))
  then show ?thesis
    using superseding_sibling_newest [of "[queued_record, ?n]" queued_record]
      superseding_sibling_newest [of "[queued_record, ?n]" ?n] n
    by (auto simp: supersedes_def)
qed

section \<open>The publication gate\<close>

interpretation guarded: queue_contract "\<lambda>s. ready cfg s \<and> I s" evo
  for cfg :: config and I :: "'s qstate \<Rightarrow> bool"
  by unfold_locales (auto intro: evo_trans)

lemma guarded_records:
  assumes "ready cfg s" and "I s"
    and "\<And>j r s. ready cfg s \<Longrightarrow> I s \<Longrightarrow> map_of (recs s) j = Some r \<Longrightarrow>
      runs (body (j, r) s) (\<lambda>_ t. keeps_at cfg j s t \<and> I t)"
  shows "runs (for_each (recs s) body s) (\<lambda>_ t. keeps cfg s t \<and> I t)"
proof -
  have "map_ok (recs s)" using assms(1) core_map_ok by (auto simp: ready_def)
  then have "runs (for_each (recs s) body s) (\<lambda>_ s'. (ready cfg s' \<and> I s') \<and> evo s s' \<and>
      (\<forall>k. map_of (recs s) k = None \<longrightarrow> map_of (recs s') k = None))"
  proof (rule guarded.runs_records [rotated])
    show "ready cfg s \<and> I s" using assms(1,2) by simp
    fix j r and t :: "'a qstate" assume t: "ready cfg t \<and> I t" "map_of (recs t) j = Some r"
    show "runs (body (j, r) t)
        (\<lambda>_ s'. (ready cfg s' \<and> I s') \<and> evo t s' \<and> only_record j t s')"
      by (rule runs_mono [OF assms(3)]) (use t in \<open>auto simp: keeps_at_def\<close>)
  qed
  then show ?thesis by (auto simp: keeps_def elim: runs_mono)
qed

text \<open>A step that only moves existing records forward never takes a publication permit away.\<close>

definition only_forward :: "'s qstate \<Rightarrow> 's qstate \<Rightarrow> bool" where
  "only_forward s t \<longleftrightarrow>
     (\<forall>k r'. map_of (recs t) k = Some r' \<longrightarrow> (\<exists>r. map_of (recs s) k = Some r \<and> evolves r r'))"

lemma supersedes_back: "evolves s s' \<Longrightarrow> supersedes s' r \<Longrightarrow> supersedes s r"
  by (auto simp: supersedes_def evolves_def record_id_def)

lemma mayPublish_forward:
  assumes "core_x X cfg s" and "core_x Y cfg t" and "only_forward s t"
    and "mayPublish (records_of s) r"
  shows "mayPublish (records_of t) r"
proof -
  have "\<not> supersedes u r" if u: "u \<in> set (records_of t)" for u
  proof
    assume sup: "supersedes u r"
    from records_of_current [OF assms(2) u] obtain u0 where u0: "map_of (recs s) (record_id u) = Some u0"
      "evolves u0 u"
      using assms(3) by (auto simp: only_forward_def)
    then have "u0 \<in> set (records_of s)" by (force simp: records_of_def dest: map_of_SomeD)
    moreover have "supersedes u0 r" by (rule supersedes_back [OF u0(2) sup])
    ultimately show False
      using assms(4) by (auto simp: mayPublish_def no_sibling_iff)
  qed
  then show ?thesis
    using assms(4) by (auto simp: mayPublish_def no_sibling_iff)
qed

text \<open>The publish calls made since \<open>s0\<close>: each is for the record as it stands, which holds a result and
  still may be published, and whose job had no call in flight.\<close>

definition permitted_call :: "'s qstate \<Rightarrow> 's qstate \<Rightarrow> publish_call \<Rightarrow> bool" where
  "permitted_call s0 s c \<longleftrightarrow> pc_jobId c \<notin> pc_jobId ` set (calls s0) \<and>
     map_of (recs s) (pc_jobId c) = Some (pc_record c) \<and> state (pc_record c) = Publishing \<and>
     mayPublish (records_of s) (pc_record c)"

definition gate :: "'s qstate \<Rightarrow> 's qstate \<Rightarrow> bool" where
  "gate s0 s \<longleftrightarrow> (\<exists>new. calls s = calls s0 @ new \<and> (\<forall>c \<in> set new. permitted_call s0 s c))"

lemma gate_refl: "gate s s"
  by (simp add: gate_def)

lemma gate_forward:
  assumes "gate s0 s" and "ready cfg s" and "ready cfg t" and "only_forward s t"
    and "calls t = calls s"
    and "\<And>k r. map_of (recs s) k = Some r \<Longrightarrow> state r = Publishing \<Longrightarrow> k \<in> set (inflight s) \<Longrightarrow>
      map_of (recs t) k = Some r"
  shows "gate s0 t"
proof -
  obtain new where new: "calls s = calls s0 @ new" "\<forall>c \<in> set new. permitted_call s0 s c"
    using assms(1) by (auto simp: gate_def)
  have "inflight s = map pc_jobId (calls s)"
    using assms(2) by (simp add: ready_def core_x_def calls_ok_def)
  then have "pc_jobId c \<in> set (inflight s)" if "c \<in> set new" for c
    using that new(1) by auto
  then have "permitted_call s0 t c" if "c \<in> set new" for c
    using that new(2) assms(6) mayPublish_forward [of "{}" cfg s "{}" t "pc_record c"] assms(2-4)
    by (auto simp: permitted_call_def ready_def)
  then show ?thesis using new(1) assms(5) by (auto simp: gate_def)
qed

lemma only_forward_update:
  "map_of (recs s) j = Some r \<Longrightarrow> evolves r r' \<Longrightarrow>
    only_forward s (s\<lparr>recs := AList.update j r' (recs s)\<rparr>)"
  by (auto simp: only_forward_def)

lemma retry_publish_gate:
  assumes "ready cfg s" and "gate s0 s" and "map_of (recs s) j = Some r" and "0 \<le> now"
  shows "runs (retry_publish now (j, r) s) (\<lambda>_ t. keeps_at cfg j s t \<and> gate s0 t)"
proof -
  let ?retired = "r\<lparr>state := Superseded, updatedAtMs := now,
    failureReason := ''superseded-by-newer-head'',
    supersededByJobId := or_empty (findSupersedingSibling (records_of s) r), leaseOwner := '''',
    leaseExpiresAtMs := 0\<rparr>"
  let ?fired = "firePublishRetry j r now s"
  have cases: "retry_publish now (j, r) s = (Inr (), s) \<or>
      (state r = Publishing \<and> j \<notin> set (inflight s) \<and>
        ((mayPublish (records_of s) r \<and> retry_publish now (j, r) s = (Inr (), ?fired)) \<or>
         retry_publish now (j, r) s =
           (Inr (), s\<lparr>recs := AList.update j ?retired (recs s)\<rparr>)))"
    by (simp add: retry_publish_def move_def bnd_def withState_def set_rec_def modify_def)
  have keep: "runs (retry_publish now (j, r) s) (\<lambda>_. keeps_at cfg j s)"
    by (rule retry_publish_keeps [OF assms(1,3,4)])
  from cases show ?thesis
  proof (elim disjE conjE)
    assume "retry_publish now (j, r) s = (Inr (), s)"
    then show ?thesis using keep assms(2) by simp
  next
    assume p: "state r = Publishing" "j \<notin> set (inflight s)" "mayPublish (records_of s) r"
      and run: "retry_publish now (j, r) s = (Inr (), ?fired)"
    let ?c = "\<lparr>pc_jobId = j, pc_token = '''', pc_record = r, pc_now = now,
        pc_requireLeaseMatch = False\<rparr>"
    have same: "permitted_call s0 ?fired = permitted_call s0 s"
      by (simp add: permitted_call_def fun_eq_iff firePublishRetry_def fire_def records_of_def)
    obtain new where new: "calls s = calls s0 @ new" "\<forall>c \<in> set new. permitted_call s0 s c"
      using assms(2) by (auto simp: gate_def)
    have "inflight s = map pc_jobId (calls s)"
      using assms(1) by (simp add: ready_def core_x_def calls_ok_def)
    then have "j \<notin> pc_jobId ` set (calls s0)" using p(2) new(1) by (metis UnCI image_set set_append map_append)
    then have "permitted_call s0 s ?c"
      using p assms(3) by (simp add: permitted_call_def)
    then have "\<forall>c \<in> set (new @ [?c]). permitted_call s0 s c" using new(2) by simp
    moreover have "calls ?fired = calls s0 @ (new @ [?c])"
      using new(1) by (simp add: firePublishRetry_def fire_def)
    ultimately have "gate s0 ?fired" unfolding gate_def same by blast
    then show ?thesis using keep run by simp
  next
    assume p: "state r = Publishing" "j \<notin> set (inflight s)"
      and run: "retry_publish now (j, r) s = (Inr (), s\<lparr>recs := AList.update j ?retired (recs s)\<rparr>)"
    have "evolves r ?retired" using p(1) by (intro evolvesI) auto
    then have "only_forward s (s\<lparr>recs := AList.update j ?retired (recs s)\<rparr>)"
      by (rule only_forward_update [OF assms(3)])
    moreover have "ready cfg (s\<lparr>recs := AList.update j ?retired (recs s)\<rparr>)"
      using keep run by (simp add: keeps_at_def)
    moreover have "map_of (recs (s\<lparr>recs := AList.update j ?retired (recs s)\<rparr>)) k = Some a"
      if "map_of (recs s) k = Some a" "k \<in> set (inflight s)" for k a
    proof -
      have "k \<noteq> j" using that(2) p(2) by auto
      then show ?thesis using that(1) by simp
    qed
    moreover have "calls (s\<lparr>recs := AList.update j ?retired (recs s)\<rparr>) = calls s" by simp
    ultimately have "gate s0 (s\<lparr>recs := AList.update j ?retired (recs s)\<rparr>)"
      using gate_forward [OF assms(2,1)] by blast
    then show ?thesis using keep run by simp
  qed
qed

lemma after_start_gate:
  assumes "start_enabled cfg r s" and "gate s0 s" and "0 \<le> now" and "config_ok cfg"
  shows "gate s0 (after_start cfg now r s)"
proof -
  let ?t = "after_start cfg now r s"
  have e: "ready cfg s" "map_of (recs s) (record_id r) = Some r" "state r = Queued"
    "\<not> hasActiveFor (records_of s) (prKey r)" "countActive (records_of s) < maxConcurrent cfg"
    using assms(1) by (auto simp: start_enabled_def)
  have k: "keeps_at cfg (record_id r) s ?t"
    by (rule after_start_keeps [OF e(1-5) assms(3,4)])
  have t: "map_of (recs ?t) i = (if i = record_id r
      then Some (started cfg now (lease_token (record_id r) (tokctr s + 1)) r)
      else map_of (recs s) i)" "calls ?t = calls s" for i
    by (simp_all add: after_start_def Let_def)
  have "records_evolve (recs s) (recs ?t)" using k by (simp add: keeps_at_def evo_def)
  then have "only_forward s ?t"
    unfolding only_forward_def records_evolve_def using e(2) t(1) by (metis option.inject)
  moreover have "ready cfg ?t" using k by (simp add: keeps_at_def)
  moreover have "map_of (recs ?t) i = Some a" if "map_of (recs s) i = Some a" "state a = Publishing"
    for i a
  proof -
    have "i \<noteq> record_id r" using that e(2,3) by auto
    then show ?thesis using that(1) t(1) by simp
  qed
  ultimately show ?thesis
    using gate_forward [OF assms(2) e(1)] t(2) by blast
qed

lemma keeps_records_calls:
  assumes "ready cfg s" and "\<And>j r s. ready cfg s \<Longrightarrow> map_of (recs s) j = Some r \<Longrightarrow>
      runs (body (j, r) s) (\<lambda>_ t. keeps_at cfg j s t \<and> calls t = calls s)"
  shows "runs (for_each (recs s) body s) (\<lambda>_ t. keeps cfg s t \<and> calls t = calls s)"
proof (rule guarded_records [OF assms(1)])
  fix j r and t :: "'a qstate"
  assume t: "ready cfg t" "calls t = calls s" "map_of (recs t) j = Some r"
  show "runs (body (j, r) t) (\<lambda>_ u. keeps_at cfg j t u \<and> calls u = calls s)"
    using assms(2) [OF t(1,3)] t(2) by simp
qed simp

lemma seqn_modify [simp]: "seqn (modify f) m s = m (f s)"
  by (simp add: seqn_def bnd_def modify_def)

lemma move_calls [simp]: "calls (snd (move j r st now upd s)) = calls s"
  by (simp add: move_def bnd_def set_rec_def modify_def split: sum.split)

lemma expire_lease_calls: "calls (snd (expire_lease cfg now e s)) = calls s"
  by (cases e) (simp add: expire_lease_def split: option.split)

lemma expire_deadline_calls: "calls (snd (expire_deadline now e s)) = calls s"
  by (cases e) (simp add: expire_deadline_def)

lemma runs_and_snd: "runs result (\<lambda>_. Q) \<Longrightarrow> f (snd result) = x \<Longrightarrow> runs result (\<lambda>_ t. Q t \<and> f t = x)"
  by (auto simp: runs_def)

lemma expireLeases_calls:
  "ready cfg s \<Longrightarrow> 0 \<le> now \<Longrightarrow>
    runs (expireLeases cfg now s) (\<lambda>_ t. keeps cfg s t \<and> calls t = calls s)"
  unfolding expireLeases_def
  by (rule keeps_records_calls) (auto intro: runs_and_snd expire_lease_keeps expire_lease_calls)

lemma expireDeadlines_calls:
  "ready cfg s \<Longrightarrow> 0 \<le> now \<Longrightarrow>
    runs (expireDeadlines now s) (\<lambda>_ t. keeps cfg s t \<and> calls t = calls s)"
  unfolding expireDeadlines_def
  by (rule keeps_records_calls) (auto intro: runs_and_snd expire_deadline_keeps expire_deadline_calls)

lemma guarded_seqn:
  assumes "runs (m s) (\<lambda>_ t. keeps cfg s t \<and> P t)"
    and "\<And>t. ready cfg t \<Longrightarrow> P t \<Longrightarrow> runs (n t) (\<lambda>_ u. keeps cfg t u \<and> Q u)"
  shows "runs (seqn m n s) (\<lambda>_ u. keeps cfg s u \<and> Q u)"
  unfolding runs_seqn
proof (rule runs_mono [OF assms(1)])
  fix x t assume t: "keeps cfg s t \<and> P t"
  then have "runs (n t) (\<lambda>_ u. keeps cfg t u \<and> Q u)"
    using assms(2) [of t] by (auto simp: keeps_def)
  then show "runs (n t) (\<lambda>_ u. keeps cfg s u \<and> Q u)"
    by (rule runs_mono) (use t in \<open>blast intro: keeps_trans\<close>)
qed

lemma retryPublishes_gate:
  assumes "ready cfg s" and "0 \<le> now"
  shows "runs (retryPublishes cfg now s) (\<lambda>_ t. keeps cfg s t \<and> gate s t)"
proof (cases "hasPublisher cfg")
  case False
  then show ?thesis using assms(1) by (simp add: retryPublishes_def keeps_same gate_refl)
next
  case True
  have "runs (for_each (recs s) (retry_publish now) s) (\<lambda>_ t. keeps cfg s t \<and> gate s t)"
    by (rule guarded_records [OF assms(1) gate_refl]) (rule retry_publish_gate [OF _ _ _ assms(2)])
  with True show ?thesis by (simp add: retryPublishes_def)
qed

lemma tick_gate:
  assumes "reliable_store st" and "ready cfg s" and "0 \<le> now" and "config_ok cfg"
  shows "runs (tick cfg st now s) (\<lambda>_ t. keeps cfg s t \<and> gate s t)"
proof -
  have disp: "runs (if \<not> intakeClosed u then dispatchEligible cfg now u else (Inr (), u))
      (\<lambda>_ t. keeps cfg u t \<and> gate s t)" if "ready cfg u" "gate s u" for u
  proof (cases "intakeClosed u")
    case True
    then show ?thesis using that by (simp add: keeps_same)
  next
    case False
    have "runs (dispatchEligible cfg now u) (\<lambda>_ t. keeps cfg u t \<and> gate s t)"
      by (rule dispatchEligible_keeps_inv [where I = "gate s", OF that(1) assms(3,4) that(2)])
        (rule after_start_gate [OF _ _ assms(3,4)])
    with False show ?thesis by simp
  qed
  have saved: "runs (save st u) (\<lambda>_ t. keeps cfg u t \<and> gate s t)" if "ready cfg u" "gate s u" for u
  proof -
    have "recs_ok cfg (recs u)" "loaded u" using that(1) core_recs unfolding ready_def by blast+
    then obtain d where "save st u = (Inr (), u\<lparr>durable := d\<rparr>)"
      using reliable_store.save_run [OF assms(1)] by blast
    moreover have "gate s (u\<lparr>durable := d\<rparr>) = gate s u"
      by (simp add: gate_def permitted_call_def records_of_def)
    ultimately show ?thesis
      using that reliable_store.keeps_durable [OF assms(1) that(1)] by simp
  qed
  have retry: "runs (retryPublishes cfg now u) (\<lambda>_ t. keeps cfg u t \<and> gate s t)"
    if "ready cfg u" "calls u = calls s" for u
  proof -
    have "gate u = gate s" using that(2) by (simp add: gate_def permitted_call_def fun_eq_iff)
    then show ?thesis using retryPublishes_gate [OF that(1) assms(3)] by simp
  qed
  let ?D = "\<lambda>s. if \<not> intakeClosed s then dispatchEligible cfg now s else (Inr (), s)"
  have 1: "runs (seqn ?D (save st) u) (\<lambda>_ t. keeps cfg u t \<and> gate s t)"
    if "ready cfg u" "gate s u" for u
    by (rule guarded_seqn [where P = "gate s"]) (use that disp saved in blast)+
  have 2: "runs (seqn (retryPublishes cfg now) (seqn ?D (save st)) u) (\<lambda>_ t. keeps cfg u t \<and> gate s t)"
    if "ready cfg u" "calls u = calls s" for u
    by (rule guarded_seqn [where P = "gate s"]) (use that retry 1 in blast)+
  have 3: "runs (seqn (expireDeadlines now) (seqn (retryPublishes cfg now) (seqn ?D (save st))) u)
      (\<lambda>_ t. keeps cfg u t \<and> gate s t)" if "ready cfg u" "calls u = calls s" for u
    by (rule guarded_seqn [where P = "\<lambda>t. calls t = calls s"])
      (use expireDeadlines_calls [OF that(1) assms(3)] that(2) 2 in simp_all)
  have 4: "runs (seqn (expireLeases cfg now) (seqn (expireDeadlines now) (seqn (retryPublishes cfg now)
      (seqn ?D (save st)))) s) (\<lambda>_ t. keeps cfg s t \<and> gate s t)"
    by (rule guarded_seqn [where P = "\<lambda>t. calls t = calls s"])
      (use expireLeases_calls [OF assms(2,3)] 3 in simp_all)
  have "ensureLoaded st s = (Inr (), s)" using assms(2) by (simp add: ensureLoaded_def ready_def)
  then show ?thesis using 4 by (simp only: tick_def seqn_Inr)
qed

text \<open>Computations that never call the publisher.\<close>

definition calls_stay :: "('s, 'a) qop \<Rightarrow> bool" where
  "calls_stay m \<longleftrightarrow> (\<forall>s. calls (snd (m s)) = calls s)"

lemma stay_bnd [keeps_intros]: "calls_stay m \<Longrightarrow> (\<And>x. calls_stay (k x)) \<Longrightarrow> calls_stay (bnd m k)"
  unfolding calls_stay_def bnd_def by (auto split: prod.split sum.split) (metis snd_conv)+

lemma stay_seqn [keeps_intros]: "calls_stay m \<Longrightarrow> calls_stay n \<Longrightarrow> calls_stay (seqn m n)"
  unfolding seqn_def by (rule stay_bnd)

lemma stay_modify [keeps_intros]: "(\<And>s. calls (f s) = calls s) \<Longrightarrow> calls_stay (modify f)"
  by (simp add: calls_stay_def modify_def)

lemma stay_ret [keeps_intros]: "calls_stay (ret x)" "calls_stay (lift_sum y)"
  by (simp_all add: calls_stay_def)

lemma stay_for_each [keeps_intros]: "(\<And>x. calls_stay (body x)) \<Longrightarrow> calls_stay (for_each xs body)"
  by (induction xs) (auto intro: keeps_intros simp del: ret_run)

lemma stay_set_rec [keeps_intros]: "calls_stay (set_rec j r)"
  unfolding set_rec_def by (rule stay_modify) simp

lemma stay_move [keeps_intros]: "calls_stay (move j r st now upd)"
  unfolding move_def by (intro keeps_intros)

lemma stay_adopt [keeps_intros]: "calls_stay (adopt snap)"
proof -
  have "calls_stay (adopt_one r)" for r
    by (simp add: calls_stay_def adopt_one_def set_rec_def modify_def)
  then show ?thesis unfolding adopt_def by (intro keeps_intros) simp_all
qed

lemma stay_ensureLoaded [keeps_intros]: "calls_stay (ensureLoaded st)"
  unfolding calls_stay_def
proof
  fix s :: "'a qstate"
  have "calls_stay (seqn (adopt snap) (modify (\<lambda>s. s\<lparr>loaded := True\<rparr>)) :: ('a, unit) qop)" for snap
    by (intro keeps_intros) simp
  then show "calls (snd (ensureLoaded st s)) = calls s"
    by (simp add: ensureLoaded_def calls_stay_def split: sum.split)
qed

lemma stay_save [keeps_intros]: "calls_stay (save st)"
proof -
  have "calls_stay (\<lambda>s. (Inr (records_of s), s))" by (simp add: calls_stay_def)
  moreover have "calls_stay (store_save st snap)" for snap
    by (simp add: calls_stay_def store_save_def split: prod.split)
  ultimately show ?thesis unfolding save_def snapshot_def by (intro keeps_intros)
qed

lemma stay_settleFailed: "calls_stay (settleFailed cfg j r oc now)"
  by (simp add: calls_stay_def settleFailed_def)

lemma stay_settleCancelled: "calls_stay (settleCancelled j r now)"
  by (simp add: calls_stay_def settleCancelled_def)

lemma stay_release: "calls_stay (modify (releaseController j token))"
  by (intro keeps_intros) simp

lemma gate_same: "calls t = calls s \<Longrightarrow> gate s t"
  by (simp add: gate_def)

lemma settle_live_gate:
  assumes "reliable_store st" and "core_x {j} cfg s" and "loaded s"
    and "map_of (recs s) j = Some r" and "state r = Running" and "0 \<le> now"
    and "leaseOwner r = token" and "(j, token) \<notin> set (executing s)"
  shows "gate s (snd (settle cfg st j token oc now s))"
proof -
  let ?rest = "seqn (modify (releaseController j token)) (save st)"
  have rest: "calls_stay ?rest" by (rule stay_seqn [OF stay_release stay_save])
  have "calls_stay (seqn m ?rest)" if "calls_stay m" for m
    by (rule stay_seqn [OF that rest])
  from this [OF stay_settleFailed [of cfg j r oc now]] this [OF stay_settleCancelled [of j r now]]
  have staying: "calls (snd (seqn (settleFailed cfg j r oc now) ?rest s)) = calls s"
    "calls (snd (seqn (settleCancelled j r now) ?rest s)) = calls s"
    unfolding calls_stay_def by blast+
  show ?thesis
proof (cases "oc_status oc")
    case Out_failed
    then have "calls (snd (settle cfg st j token oc now s)) = calls s"
      using assms(4,5,7) staying by (simp add: settle_def)
    then show ?thesis by (rule gate_same)
  next
    case Out_cancelled
    then have "calls (snd (settle cfg st j token oc now s)) = calls s"
      using assms(4,5,7) staying by (simp add: settle_def)
    then show ?thesis by (rule gate_same)
  next
    case Out_completed
    let ?p = "committed r oc now"
    let ?t = "s\<lparr>recs := AList.update j ?p (recs s)\<rparr>"
    have c: "core_x {j} cfg ?t"
      using commit_settling [OF assms(2,4-8), of oc] by (simp add: settling_def)
    obtain d where run: "settleCompleted cfg st j token r oc now s =
      (if \<not> mayPublish (records_of ?t) ?p then
         move j ?p Superseded now (\<lambda>q. q\<lparr>failureReason := ''superseded-by-newer-head'',
           supersededByJobId := attributed (records_of ?t) ?p,
           leaseOwner := '''', leaseExpiresAtMs := 0\<rparr>) ?t
       else if \<not> hasPublisher cfg then
         move j ?p Completed now (\<lambda>r. r\<lparr>leaseOwner := '''', leaseExpiresAtMs := 0\<rparr>) ?t
       else if j \<in> set (inflight s) then (Inr (), ?t)
       else (Inr (), firePublishSettle j token ?p now (?t\<lparr>inflight := inflight s @ [j], durable := d\<rparr>)))"
      using reliable_store.settleCompleted_run [OF assms(1) refl core_recs [OF c] assms(3,5)] by blast
    have settle: "settle cfg st j token oc now s = seqn (settleCompleted cfg st j token r oc now) ?rest s"
      using assms(4,5,7) Out_completed by (simp add: settle_def)
    show ?thesis
    proof (cases "mayPublish (records_of ?t) ?p \<and> hasPublisher cfg \<and> j \<notin> set (inflight s)")
      case False
      then have "calls (snd (settleCompleted cfg st j token r oc now s)) = calls s"
        unfolding run by (simp split: if_split)
      moreover have "calls (snd (?rest u)) = calls u" for u
        using rest unfolding calls_stay_def by blast
      ultimately have "calls (snd (settle cfg st j token oc now s)) = calls s"
        unfolding settle seqn_def [of "settleCompleted cfg st j token r oc now"] bnd_def
        by (cases "settleCompleted cfg st j token r oc now s"; cases "fst (settleCompleted cfg st j token r oc now s)")
          (simp_all split: sum.split)
      then show ?thesis by (rule gate_same)
    next
      case True
      let ?call = "\<lparr>pc_jobId = j, pc_token = token, pc_record = ?p, pc_now = now,
          pc_requireLeaseMatch = True\<rparr>"
      let ?u = "firePublishSettle j token ?p now (?t\<lparr>inflight := inflight s @ [j], durable := d\<rparr>)"
      have u: "recs (releaseController j token ?u) = recs ?t" "loaded (releaseController j token ?u)"
        "calls (releaseController j token ?u) = calls s @ [?call]"
        using assms(3) by (simp_all add: releaseController_def firePublishSettle_def fire_def)
      obtain d' where "save st (releaseController j token ?u) =
          (Inr (), (releaseController j token ?u)\<lparr>durable := d'\<rparr>)"
        using reliable_store.save_run [OF assms(1), of cfg "releaseController j token ?u"]
          core_recs [OF c] u by auto
      then have final: "settle cfg st j token oc now s =
          (Inr (), (releaseController j token ?u)\<lparr>durable := d'\<rparr>)"
        using True unfolding settle by (simp add: seqn_Inr run)
      have "inflight s = map pc_jobId (calls s)"
        using assms(2) by (simp add: core_x_def calls_ok_def)
      then have "j \<notin> pc_jobId ` set (calls s)" using True by simp
      then have "permitted_call s ((releaseController j token ?u)\<lparr>durable := d'\<rparr>) ?call"
        using True u(1) by (simp add: permitted_call_def records_of_def committed_def)
      then show ?thesis
        unfolding final gate_def using u(3) by (intro exI [of _ "[?call]"]) simp
    qed
  qed
qed

lemma execution_gate:
  assumes "reliable_store st" and "core cfg s" and "loaded s" and "(j, token) \<in> set (executing s)"
    and "0 \<le> now"
  shows "gate s (snd (settle cfg st j token oc now
    (s\<lparr>executing := remove1 (j, token) (executing s)\<rparr>)))"
proof -
  let ?t = "s\<lparr>executing := remove1 (j, token) (executing s)\<rparr>"
  have ct: "core cfg ?t" by (rule core_remove_exec [OF assms(2)])
  have gone: "(j, token) \<notin> set (executing ?t)"
    using assms(2) by (simp add: core_x_def exec_ok_def)
  have lifted: "gate s u" if "gate ?t u" for u
    using that by (simp add: gate_def permitted_call_def)
  show ?thesis
  proof (cases "map_of (recs s) j")
    case None
    then show ?thesis by (intro gate_same) (simp add: settle_def modify_def releaseController_def)
  next
    case (Some r)
    show ?thesis
    proof (cases "isTerminalState (state r) \<or> leaseOwner r \<noteq> token")
      case True
      then show ?thesis using Some by (intro gate_same) (simp add: settle_def modify_def releaseController_def)
    next
      case False
      have "lease_ok s j r" using assms(2) Some by (simp add: core_x_def)
      then have "state r = Running" using False assms(4) by (simp add: lease_ok_def)
      then show ?thesis
        using core_weaken [OF ct] assms(1,3,5) Some False gone
        by (intro lifted settle_live_gate [where r = r]) auto
    qed
  qed
qed

text \<open>
  Every public operation of the controller and every promise resolution, as a value; \<open>shutdown\<close>
  is the sequence of the calls of its drain, between closing the intake and cancelling what is
  left.
\<close>

datatype queue_call =
    Call_enqueue jsval rat
  | Call_tick rat
  | Call_heartbeat string string rat
  | Call_resolve string execution_outcome rat
  | Call_adopt string string rat
  | Call_async async_event
  | Call_restart
  | Call_recover rat

fun perform_call :: "config \<Rightarrow> 's store_ops \<Rightarrow> queue_call \<Rightarrow> 's qstate \<Rightarrow> 's qstate" where
  "perform_call cfg st (Call_enqueue v now) s = snd (enqueue cfg st v now s)"
| "perform_call cfg st (Call_tick now) s = snd (tick cfg st now s)"
| "perform_call cfg st (Call_heartbeat j owner now) s = snd (heartbeat cfg st j owner now s)"
| "perform_call cfg st (Call_resolve j oc now) s = snd (resolveRecovered cfg st j oc now s)"
| "perform_call cfg st (Call_adopt j owner now) s = snd (adoptRecovered cfg st j owner now s)"
| "perform_call cfg st (Call_async ev) s = snd (run_async cfg st ev s)"
| "perform_call cfg st Call_restart s = fresh_controller (durable s)"
| "perform_call cfg st (Call_recover now) s = snd (recover cfg st now (fresh_controller (durable s)))"

fun call_timely :: "queue_call \<Rightarrow> bool" where
  "call_timely (Call_enqueue v now) = (0 \<le> now)"
| "call_timely (Call_tick now) = (0 \<le> now)"
| "call_timely (Call_heartbeat j owner now) = (0 \<le> now)"
| "call_timely (Call_resolve j oc now) = (0 \<le> now)"
| "call_timely (Call_adopt j owner now) = (0 \<le> now)"
| "call_timely (Call_async ev) = timely ev"
| "call_timely Call_restart = True"
| "call_timely (Call_recover now) = (0 \<le> now)"

text \<open>The calls that may reach the publisher: a pass, and the settling of an execution.\<close>

fun may_publish_call :: "queue_call \<Rightarrow> bool" where
  "may_publish_call (Call_tick now) = True"
| "may_publish_call (Call_resolve j oc now) = True"
| "may_publish_call (Call_async (Execution j token oc now)) = True"
| "may_publish_call _ = False"

definition perform_calls :: "config \<Rightarrow> 's store_ops \<Rightarrow> queue_call list \<Rightarrow> 's qstate \<Rightarrow> 's qstate" where
  "perform_calls cfg st ops s = foldl (\<lambda>s op. perform_call cfg st op s) s ops"

text \<open>The calls of the drain's passes.\<close>

definition drain_calls :: "(nat \<Rightarrow> rat) \<Rightarrow> (nat \<Rightarrow> async_event list) \<Rightarrow> nat list \<Rightarrow> queue_call list" where
  "drain_calls clock async passes =
     concat (map (\<lambda>i. Call_tick (clock i) # map Call_async (async i)) passes)"

text \<open>What the publisher may have been handed between two states.\<close>

definition gated :: "'s qstate \<Rightarrow> 's qstate \<Rightarrow> bool" where
  "gated s s' \<longleftrightarrow> distinct (map pc_jobId (calls s')) \<and> (\<forall>c \<in> set (calls s'). c \<in> set (calls s) \<or>
     (\<exists>r. map_of (recs s') (pc_jobId c) = Some r \<and> pc_record c = r \<and> state r = Publishing \<and>
        \<not> cancelRequested r \<and> (\<forall>newer \<in> set (records_of s'). \<not> supersedes newer r) \<and>
        pc_jobId c \<notin> pc_jobId ` set (calls s)))"

lemma gate_gated: "gate s s' \<Longrightarrow> distinct (map pc_jobId (calls s')) \<Longrightarrow> gated s s'"
  by (fastforce simp: gate_def gated_def permitted_call_def mayPublish_def no_sibling_iff)

lemma less_gated:
  "set (calls s') \<subseteq> set (calls s) \<Longrightarrow> distinct (map pc_jobId (calls s')) \<Longrightarrow> gated s s'"
  by (auto simp: gated_def)

lemma invariant_distinct: "invariant cfg st s \<Longrightarrow> distinct (map pc_jobId (calls s))"
  by (auto simp: invariant_def ready_def core_x_def calls_ok_def split: if_splits)

lemma perform_step: "call_timely op \<Longrightarrow> step cfg st s (perform_call cfg st op s)"
  by (cases op) (auto intro: step.intros)

lemma tick_gated:
  assumes "reliable_store st" and "invariant cfg st s" and "0 \<le> now" and "config_ok cfg"
  shows "gate s (snd (tick cfg st now s))"
proof -
  obtain t where t: "ensureLoaded st s = (Inr (), t)" "ready cfg t"
    by (rule reliable_store.load_preserves [OF assms(1,2)])
  have "calls t = calls s"
    using stay_ensureLoaded [of st] t(1) unfolding calls_stay_def by (metis snd_conv)
  then have "gate t = gate s" by (simp add: gate_def permitted_call_def fun_eq_iff)
  moreover have "ensureLoaded st t = (Inr (), t)"
    using t(2) by (simp add: ensureLoaded_def ready_def)
  then have "tick cfg st now s = tick cfg st now t"
    using t(1) by (simp add: tick_def seqn_Inr)
  ultimately show ?thesis
    using tick_gate [OF assms(1) t(2) assms(3,4)] by (auto simp: runs_def)
qed

lemma snd_seqn_ret: "snd (seqn m (ret x) s) = snd (m s)"
  by (simp add: seqn_def bnd_def split: prod.split sum.split)

lemma resolve_gated:
  assumes "reliable_store st" and "invariant cfg st s" and "0 \<le> now"
  shows "gate s (snd (resolveRecovered cfg st j oc now s))"
proof -
  obtain t where t: "ensureLoaded st s = (Inr (), t)" "ready cfg t"
    by (rule reliable_store.load_preserves [OF assms(1,2)])
  note load = seqn_Inr [where m = "ensureLoaded st" and s = s and x = "()" and s' = t, OF t(1)]
  have same: "calls t = calls s"
    using stay_ensureLoaded [of st] t(1) unfolding calls_stay_def by (metis snd_conv)
  then have lifted: "gate t = gate s" by (simp add: gate_def permitted_call_def fun_eq_iff)
  have c: "core cfg t" and l: "loaded t" using t(2) by (simp_all add: ready_def)
  show ?thesis
  proof (cases "\<exists>r. map_of (recs t) j = Some r \<and> state r = Running \<and> map_of (ctrls t) j = None \<and>
      leaseOwner r \<noteq> ''''")
    case True
    then obtain r where r: "map_of (recs t) j = Some r" "state r = Running"
      "map_of (ctrls t) j = None" "leaseOwner r \<noteq> ''''" by blast
    have "ctrl_ok t j r" using c r(1) by (simp add: core_x_def)
    then have "(j, leaseOwner r) \<notin> set (executing t)" using r(2,3) by (force simp: ctrl_ok_def)
    then have "gate t (snd (settle cfg st j (leaseOwner r) oc now t))"
      using settle_live_gate [OF assms(1) core_weaken [OF c] l r(1,2) assms(3)] by simp
    then show ?thesis
      using r unfolding lifted by (simp add: resolveRecovered_def load snd_seqn_ret)
  next
    case False
    have "resolveRecovered cfg st j oc now s = (Inr False, t)"
    proof (cases "map_of (recs t) j")
      case None
      then show ?thesis by (simp add: resolveRecovered_def load)
    next
      case (Some r)
      then have "state r \<noteq> Starting" using core_record [OF c Some] by (simp add: record_ok_def)
      then show ?thesis using Some False
        by (auto simp: resolveRecovered_def load)
    qed
    then show ?thesis using same by (intro gate_same) simp
  qed
qed

lemma execution_gated:
  assumes "reliable_store st" and "invariant cfg st s" and "0 \<le> now"
  shows "gate s (snd (run_async cfg st (Execution j token oc now) s))"
proof (cases "(j, token) \<in> set (executing s)")
  case True
  then have "ready cfg s" using assms(2) by (auto simp: invariant_def split: if_splits)
  then show ?thesis
    using True execution_gate [OF assms(1) _ _ True assms(3)] by (simp add: run_async_def ready_def)
next
  case False
  then show ?thesis by (simp add: run_async_def gate_refl)
qed

text \<open>The operations that never call the publisher.\<close>

lemma stay_enqueue: "calls_stay (enqueue cfg st v now)"
proof -
  have "calls_stay (supersede_one jb now e)" for jb e
    unfolding supersede_one_def Let_def
    by (auto intro!: keeps_intros simp: abort_signal_def split: option.split)
  then have fresh: "calls_stay (enqueue_fresh cfg st jb now)" for jb
    unfolding calls_stay_def enqueue_fresh_def Let_def
    by (auto intro!: keeps_intros [unfolded calls_stay_def, rule_format])
  have "calls_stay (seqn (ensureLoaded st) (\<lambda>s. if map_of (recs s) (jobId jb) \<noteq> None
      then (Inr (D_duplicate, jobId jb), s) else enqueue_fresh cfg st jb now s))" for jb
    using fresh by (intro stay_seqn stay_ensureLoaded) (simp add: calls_stay_def)
  then show ?thesis by (simp add: calls_stay_def enqueue_def Let_def split: option.split)
qed

lemma stay_renew: "calls_stay (bnd (lift_sum x) (\<lambda>r'. seqn (set_rec j r') (seqn (save st) (ret b))))"
  by (intro keeps_intros)

lemmas renew_calls = stay_renew [unfolded calls_stay_def, rule_format]

lemma stay_heartbeat: "calls_stay (heartbeat cfg st j owner now)"
  unfolding heartbeat_def
  by (intro stay_seqn stay_ensureLoaded) (simp add: calls_stay_def renew_calls split: option.split)

lemma stay_adoptRecovered: "calls_stay (adoptRecovered cfg st j owner now)"
proof -
  have "calls_stay (seqn (ensureLoaded st) (\<lambda>s. case map_of (recs s) j of
      None \<Rightarrow> (Inr False, s)
    | Some r \<Rightarrow> if state r \<noteq> Starting \<and> state r \<noteq> Running then (Inr False, s)
        else if map_of (ctrls s) j \<noteq> None then (Inr False, s)
        else bnd (lift_sum (withRenewedLease r owner (Fin now) (Fin (leaseTtlMs cfg))))
               (\<lambda>r'. seqn (set_rec j r') (seqn (save st) (ret True))) s))"
    by (intro stay_seqn stay_ensureLoaded) (simp add: calls_stay_def renew_calls split: option.split)
  then show ?thesis by (simp add: adoptRecovered_def stay_ret)
qed

lemma stay_recover: "calls_stay (recover cfg st now)"
proof -
  have "calls_stay (store_save st snap)" for snap
    by (simp add: calls_stay_def store_save_def split: prod.split)
  then have "calls_stay (seqn (adopt snap) (seqn (store_save st snap) (ret x)))" for snap x
    by (intro keeps_intros)
  note stay = this [unfolded calls_stay_def, rule_format]
  show ?thesis by (simp add: calls_stay_def recover_def stay split: sum.split prod.split)
qed

lemma runPublish_calls: "calls (snd (runPublish cfg st call published s)) = remove1 call (calls s)"
proof -
  let ?u = "s\<lparr>calls := remove1 call (calls s),
      inflight := filter (\<lambda>i. i \<noteq> pc_jobId call) (inflight s)\<rparr>"
  let ?rest = "\<lambda>s. case map_of (recs s) (pc_jobId call) of
      None \<Rightarrow> (Inr (), s)
    | Some current \<Rightarrow>
        if state current \<noteq> Publishing then (Inr (), s)
        else if pc_requireLeaseMatch call \<and> leaseOwner current \<noteq> pc_token call then (Inr (), s)
        else if \<not> mayPublish (records_of s) current then
          seqn (move (pc_jobId call) current Superseded (pc_now call) (\<lambda>r.
                  r\<lparr>failureReason := ''superseded-by-newer-head'',
                    supersededByJobId := attributed (records_of s) current,
                    leaseOwner := '''', leaseExpiresAtMs := 0\<rparr>)) (save st) s
        else
          seqn (if published then
                  move (pc_jobId call) current Completed (pc_now call)
                    (\<lambda>r. r\<lparr>nextRetryAtMs := 0, leaseOwner := '''', leaseExpiresAtMs := 0\<rparr>)
                else
                  set_rec (pc_jobId call) (current\<lparr>
                    nextRetryAtMs := pc_now call + publishRetryDelayMs cfg,
                    updatedAtMs := pc_now call, leaseOwner := '''', leaseExpiresAtMs := 0\<rparr>))
            (save st) s"
  have save: "calls_stay (seqn m (save st))" if "calls_stay m" for m :: "('a, unit) qop"
    by (rule stay_seqn [OF that stay_save])
  note moved = save [OF stay_move, unfolded calls_stay_def, rule_format]
    save [OF stay_set_rec, unfolded calls_stay_def, rule_format]
  have "calls_stay ?rest"
    by (simp add: calls_stay_def moved split: option.split)
  then have "calls (snd (?rest ?u)) = calls ?u" unfolding calls_stay_def by (rule spec)
  moreover have "runPublish cfg st call published s = ?rest ?u"
    by (simp only: runPublish_def seqn_def [of "modify _"] bnd_def modify_def prod.case sum.case)
  ultimately have "calls (snd (runPublish cfg st call published s)) = calls ?u" by (simp only:)
  then show ?thesis by simp
qed

lemmas quiet_calls = stay_enqueue [unfolded calls_stay_def, rule_format]
  stay_heartbeat [unfolded calls_stay_def, rule_format]
  stay_adoptRecovered [unfolded calls_stay_def, rule_format]
  stay_recover [unfolded calls_stay_def, rule_format]

text \<open>Each operation on its own.\<close>

lemma call_gated:
  assumes "reliable_store st" and "invariant cfg st s" and "config_ok cfg" and "call_timely op"
  shows "gated s (perform_call cfg st op s)"
    and "\<not> may_publish_call op \<Longrightarrow> set (calls (perform_call cfg st op s)) \<subseteq> set (calls s)"
    and "invariant cfg st (perform_call cfg st op s)"
proof -
  show inv: "invariant cfg st (perform_call cfg st op s)"
    using reliable_store.step_preserves [OF assms(1) perform_step [OF assms(4)] assms(2,3)] by blast
  note d = invariant_distinct [OF inv]
  have async: "calls (snd (run_async cfg st (Publication c p) s)) = remove1 c (calls s)" for c p
    by (simp add: run_async_def runPublish_calls remove1_idem)
  show sub: "set (calls (perform_call cfg st op s)) \<subseteq> set (calls s)" if "\<not> may_publish_call op"
  proof (cases op)
    case (Call_async ev)
    with that show ?thesis
      by (cases ev) (simp_all add: async set_remove1_subset)
  qed (use that in \<open>simp_all add: quiet_calls fresh_controller_def\<close>)
  show "gated s (perform_call cfg st op s)"
  proof (cases "may_publish_call op")
    case False
    then show ?thesis by (intro less_gated sub d)
  next
    case True
    then have "gate s (perform_call cfg st op s)"
      using assms(4) tick_gated [OF assms(1,2) _ assms(3)] resolve_gated [OF assms(1,2)]
        execution_gated [OF assms(1,2)]
      by (cases op rule: may_publish_call.cases) (simp_all add: timely_def)
    then show ?thesis by (rule gate_gated [OF _ d])
  qed
qed

lemma perform_calls_simps [simp]:
  "perform_calls cfg st [] s = s"
  "perform_calls cfg st (op # ops) s = perform_calls cfg st ops (perform_call cfg st op s)"
  "perform_calls cfg st (ops @ ops') s = perform_calls cfg st ops' (perform_calls cfg st ops s)"
  by (simp_all add: perform_calls_def)

lemma calls_invariant:
  assumes "reliable_store st" and "config_ok cfg" and "\<forall>op \<in> set ops. call_timely op"
    and "invariant cfg st s"
  shows "invariant cfg st (perform_calls cfg st ops s)"
  using assms(3,4) by (induction ops arbitrary: s) (auto intro: call_gated(3) [OF assms(1) _ assms(2)])

lemma calls_gated:
  assumes "reliable_store st" and "config_ok cfg" and "\<forall>op \<in> set ops. call_timely op"
    and "invariant cfg st s" and "i < length ops"
  shows "gated (perform_calls cfg st (take i ops) s) (perform_calls cfg st (take (Suc i) ops) s)"
proof -
  have "\<forall>op \<in> set (take i ops). call_timely op" using assms(3) by (auto dest: in_set_takeD)
  from calls_invariant [OF assms(1,2) this assms(4)]
  have "gated (perform_calls cfg st (take i ops) s)
      (perform_call cfg st (ops ! i) (perform_calls cfg st (take i ops) s))"
    using assms(3,5) by (intro call_gated(1) [OF assms(1) _ assms(2)]) auto
  then show ?thesis using assms(5) by (simp add: take_Suc_conv_app_nth)
qed

text \<open>The drain performs the calls of its first passes, nothing else.\<close>

lemma asyncs_run:
  "for_each evs (run_async cfg st) s = (Inr (), perform_calls cfg st (map Call_async evs) s)"
proof (induction evs arbitrary: s)
  case (Cons ev evs)
  have "run_async cfg st ev s = (Inr (), snd (run_async cfg st ev s))"
    by (cases ev) (simp_all add: run_async_def)
  then show ?case by (simp add: Cons seqn_Inr [where m = "run_async cfg st ev" and s = s])
qed simp

lemma drain_calls_timely:
  "\<forall>i. 0 \<le> clock i \<Longrightarrow> \<forall>i. \<forall>ev \<in> set (async i). timely ev \<Longrightarrow>
    op \<in> set (drain_calls clock async ps) \<Longrightarrow> call_timely op"
  by (auto simp: drain_calls_def)

lemma drain_loop_calls:
  assumes "reliable_store st" and "config_ok cfg" and "\<forall>i. 0 \<le> clock i"
    and "\<forall>i. \<forall>ev \<in> set (async i). timely ev"
  shows "invariant cfg st s \<Longrightarrow> n \<le> 128 \<Longrightarrow> \<exists>k \<le> n. drain_loop n cfg st clock async begin budget prev s =
    (Inr (), perform_calls cfg st (drain_calls clock async [128 - n ..< 128 - n + k]) s)"
proof (induction n arbitrary: s prev)
  case 0
  show ?case by (simp add: drain_calls_def)
next
  case (Suc n)
  let ?p = "128 - Suc n"
  let ?t = "perform_calls cfg st (map Call_async (async ?p)) (snd (tick cfg st (clock ?p) s))"
  have one: "perform_calls cfg st (drain_calls clock async [?p]) s = ?t"
    by (simp add: drain_calls_def)
  have stop: ?case if "drain_loop (Suc n) cfg st clock async begin budget prev s = (Inr (), s)"
    using that by (intro exI [of _ 0]) (simp add: drain_calls_def)
  have "fst (tick cfg st (clock ?p) s) = Inr ()"
    using reliable_store.tick_preserves [OF assms(1) Suc.prems(1) _ assms(2), of "clock ?p"] assms(3)
    by (auto simp: runs_def)
  then have "tick cfg st (clock ?p) s = (Inr (), snd (tick cfg st (clock ?p) s))"
    by (simp add: prod_eq_iff)
  note go = seqn_Inr [where m = "tick cfg st (clock ?p)" and s = s, OF this]
    seqn_Inr [where m = "for_each (async ?p) (run_async cfg st)", OF asyncs_run]
  have inv: "invariant cfg st ?t"
    unfolding one [symmetric]
    by (rule calls_invariant [OF assms(1,2) _ Suc.prems(1)]) (use assms(3,4) drain_calls_timely in blast)
  show ?case
  proof (cases "countActive (records_of s) = 0 \<or> clock ?p - begin \<ge> budget")
    case True
    then show ?thesis by (intro stop) (auto simp: Let_def)
  next
    case False
    then have run: "drain_loop (Suc n) cfg st clock async begin budget prev s =
        (if drainFingerprint ?t = prev then (Inr (), ?t)
         else drain_loop n cfg st clock async begin budget (drainFingerprint ?t) ?t)"
      unfolding drain_loop.simps Let_def go by (simp only: de_Morgan_disj if_False simp_thms)
    show ?thesis
    proof (cases "drainFingerprint ?t = prev")
      case True
      then show ?thesis
        using run one by (intro exI [of _ 1]) simp
    next
      case False
      obtain k where k: "k \<le> n" "drain_loop n cfg st clock async begin budget (drainFingerprint ?t) ?t =
          (Inr (), perform_calls cfg st (drain_calls clock async [128 - n ..< 128 - n + k]) ?t)"
        using Suc.IH [OF inv, of "drainFingerprint ?t"] Suc.prems(2) by auto
      have p: "128 - n = Suc ?p" using Suc.prems(2) by simp
      then have "[?p ..< ?p + Suc k] = ?p # [128 - n ..< 128 - n + k]"
        by (simp add: upt_conv_Cons del: upt_Suc)
      then have "perform_calls cfg st (drain_calls clock async [?p ..< ?p + Suc k]) s =
          perform_calls cfg st (drain_calls clock async [128 - n ..< 128 - n + k]) ?t"
        by (simp add: drain_calls_def del: upt_Suc)
      then show ?thesis using run False k by (intro exI [of _ "Suc k"]) simp
    qed
  qed
qed

lemma stay_shutdown_one: "calls_stay (shutdown_one now e)"
  by (auto simp: shutdown_one_def intro!: keeps_intros split: prod.split)

lemma shutdown_calls:
  assumes "reliable_store st" and "config_ok cfg" and "\<forall>i. 0 \<le> clock i"
    and "\<forall>i. \<forall>ev \<in> set (async i). timely ev" and "invariant cfg st s"
  shows "\<exists>k \<le> 128. calls (snd (shutdown cfg st drainMs clock async begin end_time s)) =
    calls (perform_calls cfg st (drain_calls clock async [0 ..< k]) (s\<lparr>intakeClosed := True\<rparr>))"
proof -
  let ?s = "s\<lparr>intakeClosed := True\<rparr>"
  let ?drain = "\<lambda>s. drain_loop 128 cfg st clock async begin (drain_budget drainMs) (drainFingerprint s) s"
  let ?rest = "seqn (modify (\<lambda>s. s\<lparr>aborted := map snd (ctrls s) @ aborted s, ctrls := []\<rparr>))
    (seqn (\<lambda>s. for_each (recs s) (shutdown_one end_time) s) (save st))"
  have "calls_stay (\<lambda>s. for_each (recs s) (shutdown_one end_time) s)"
    using stay_for_each [of "shutdown_one end_time"] stay_shutdown_one
    unfolding calls_stay_def by blast
  then have rest: "calls_stay ?rest" by (intro stay_seqn stay_save stay_modify) simp_all
  have "invariant cfg st ?s" using assms(5) by simp
  from drain_loop_calls [OF assms(1-4) this, of 128 "begin" "drain_budget drainMs" "drainFingerprint ?s"]
  obtain k where k: "k \<le> 128" "?drain ?s =
      (Inr (), perform_calls cfg st (drain_calls clock async [0 ..< k]) ?s)"
    by (auto simp del: drain_loop.simps)
  have "shutdown cfg st drainMs clock async begin end_time s =
      ?rest (perform_calls cfg st (drain_calls clock async [0 ..< k]) ?s)"
    unfolding shutdown_def by (simp add: seqn_def [of "modify _"] bnd_def modify_def
        seqn_Inr [where m = ?drain, OF k(2)] del: drain_loop.simps)
  then show ?thesis using k(1) rest by (auto simp: calls_stay_def)
qed

text \<open>C2: The publication gate. Whatever operation runs (enqueue, a pass, a heartbeat, a resolved or
  an adopted recovered execution, the settling of a promise, a restart, a recovery), every publish
  call pending afterwards was pending before or is new, and a new one is for a record that is
  \<open>publishing\<close>, is not marked for cancellation, has no newer live generation of its pull request
  and had no call in flight; a job never has two calls. Only a pass and the settling of an
  execution may add one. A shutdown's calls are those of the ticks and promise resolutions of its
  first passes, at most 128, each of them gated the same way: closing the intake, the abort of the
  workers and the final cancellations publish nothing.\<close>

theorem publication_gate:
  assumes "reliable_store st" and "config_ok cfg" and "reachable cfg st s" and "call_timely op"
    and "\<forall>i. 0 \<le> clock i" and "\<forall>i. \<forall>ev \<in> set (async i). timely ev"
  shows "gated s (perform_call cfg st op s) \<and>
    (\<not> may_publish_call op \<longrightarrow> set (calls (perform_call cfg st op s)) \<subseteq> set (calls s)) \<and>
    (\<exists>k \<le> 128. let stopping_state = s\<lparr>intakeClosed := True\<rparr>; ops = drain_calls clock async [0 ..< k] in
       calls (snd (shutdown cfg st drainMs clock async begin end_time s)) =
         calls (perform_calls cfg st ops stopping_state) \<and>
       (\<forall>i < length ops. gated (perform_calls cfg st (take i ops) stopping_state)
          (perform_calls cfg st (take (Suc i) ops) stopping_state)))"
proof (intro conjI impI)
  note inv = reliable_store.reachable_invariant [OF assms(1,3,2)]
  note call = call_gated [OF assms(1) inv assms(2,4)]
  show "gated s (perform_call cfg st op s)" by (rule call(1))
  show "set (calls (perform_call cfg st op s)) \<subseteq> set (calls s)" if "\<not> may_publish_call op"
    by (rule call(2) [OF that])
  obtain k where k: "k \<le> 128" "calls (snd (shutdown cfg st drainMs clock async begin end_time s)) =
      calls (perform_calls cfg st (drain_calls clock async [0 ..< k]) (s\<lparr>intakeClosed := True\<rparr>))"
    using shutdown_calls [OF assms(1,2,5,6) inv] by blast
  have "invariant cfg st (s\<lparr>intakeClosed := True\<rparr>)" using inv by simp
  moreover have "\<forall>op \<in> set (drain_calls clock async [0 ..< k]). call_timely op"
    using drain_calls_timely [OF assms(5,6)] by blast
  ultimately show "\<exists>k \<le> 128. let stopping_state = s\<lparr>intakeClosed := True\<rparr>;
      ops = drain_calls clock async [0 ..< k] in
       calls (snd (shutdown cfg st drainMs clock async begin end_time s)) =
         calls (perform_calls cfg st ops stopping_state) \<and>
       (\<forall>i < length ops. gated (perform_calls cfg st (take i ops) stopping_state)
          (perform_calls cfg st (take (Suc i) ops) stopping_state))"
    using k calls_gated [OF assms(1,2)] by (intro exI [of _ k]) (simp add: Let_def)
qed

text \<open>The concrete run: the execution of the sample job completes at time 9.\<close>

definition sample_outcome :: execution_outcome where
  "sample_outcome = \<lparr>oc_status = Out_completed, oc_resultHeadSha = ''abc'', oc_failureCategory = ''''\<rparr>"

definition publishing_record :: job_record where
  "publishing_record = committed running_record sample_outcome 9"

definition sample_call :: publish_call where
  "sample_call = \<lparr>pc_jobId = jobId sample_job, pc_token = sample_token, pc_record = publishing_record,
     pc_now = 9, pc_requireLeaseMatch = True\<rparr>"

definition publishing_state :: "queue_snapshot qstate" where
  "publishing_state = running_state\<lparr>recs := [(jobId sample_job, publishing_record)], ctrls := [],
     executing := [], inflight := [jobId sample_job], calls := [sample_call],
     durable := [publishing_record]\<rparr>"

lemma publishing_record_simps [simp]:
  "record_id publishing_record = jobId sample_job" "state publishing_record = Publishing"
  "job publishing_record = sample_job" "prKey publishing_record = prIdentityKey sample_job"
  "leaseOwner publishing_record = sample_token" "cancelRequested publishing_record = False"
  "resultHeadSha publishing_record = ''abc''" "enqueuedAtMs publishing_record = 5"
  by (simp_all add: publishing_record_def committed_def sample_outcome_def running_record_def
      started_def record_id_def)

lemma publishing_valid [simp]: "valid_snapshot [publishing_record]"
  using sample_records_valid(2)
  by (simp add: valid_snapshot_def valid_record_def publishing_record_def committed_def
      sample_outcome_def)

lemma may_publish_sample: "mayPublish [publishing_record] publishing_record"
  by (simp add: mayPublish_def findSupersedingSibling_def sibling_step_def)

lemma settle_sample:
  "run_async sample_config mem_store (Execution (jobId sample_job) sample_token sample_outcome 9)
     running_state = (Inr (), publishing_state)"
proof -
  let ?s = "running_state\<lparr>executing := []\<rparr>"
  have w: "withState running_record Publishing (Fin 9) =
      Inr (running_record\<lparr>state := Publishing, updatedAtMs := 9\<rparr>)"
    by (simp add: withState_def canTransition_def)
  have p: "running_record\<lparr>state := Publishing, updatedAtMs := 9,
      resultHeadSha := oc_resultHeadSha sample_outcome\<rparr> = publishing_record"
    by (simp add: publishing_record_def committed_def)
  have "settleCompleted sample_config mem_store (jobId sample_job) sample_token running_record
      sample_outcome 9 ?s = (Inr (), publishing_state\<lparr>ctrls := ctrls running_state\<rparr>)"
    using may_publish_sample
    by (simp add: settleCompleted_def w p bnd_def seqn_def set_rec_def modify_def Let_def
        save_def snapshot_def store_save_def ensureLoaded_def mem_store_def records_of_def
        running_state_def queued_state_def publishing_state_def firePublishSettle_def fire_def
        sample_call_def fresh_controller_def)
  then have "settle sample_config mem_store (jobId sample_job) sample_token sample_outcome 9 ?s =
      (Inr (), publishing_state)"
    by (simp add: settle_def running_state_def queued_state_def sample_outcome_def seqn_def bnd_def
        modify_def releaseController_def publishing_state_def save_def snapshot_def store_save_def
        ensureLoaded_def mem_store_def records_of_def)
  then show ?thesis
    by (simp add: run_async_def running_state_def)
qed

theorem publication_gate_witness:
  "perform_call sample_config mem_store
     (Call_async (Execution (jobId sample_job) sample_token sample_outcome 9)) running_state =
     publishing_state \<and>
   calls running_state = [] \<and> calls publishing_state = [sample_call] \<and>
   gated running_state publishing_state"
proof -
  let ?op = "Call_async (Execution (jobId sample_job) sample_token sample_outcome 9)"
  have p: "perform_call sample_config mem_store ?op running_state = publishing_state"
    by (simp add: settle_sample)
  moreover have "gated running_state (perform_call sample_config mem_store ?op running_state)"
    using publication_gate [OF mem_is_reliable sample_config_ok running_reachable, of ?op
        "\<lambda>_. 9" "\<lambda>_. []"] by (simp add: timely_def)
  ultimately show ?thesis
    by (simp add: publishing_state_def running_state_def queued_state_def fresh_controller_def)
qed

end
