(* ===== verification/Gateway_Budget.thy ===== *)
theory Gateway_Budget
  imports Js_Prelude "HOL-Library.Monad_Syntax"
begin

text \<open>
  The model gateway's run-scoped budget ledger: \<^verbatim>\<open>src/gateway/budget.ts\<close> and the validators of
  \<^verbatim>\<open>src/gateway/types.ts\<close>.

  The ledger is a map from run ids to maps from reservation ids to rows, and a map from run ids to
  cancellation generations. Arguments the code checks at run time are untrusted values (\<open>jsval\<close>);
  the clock is the argument \<open>now\<close> (epoch milliseconds, an integer). A refusal carries its code; the
  fixed reason strings are left out. Counters are exact integers: in the code a total is a double,
  which rounds only above \<open>2^53\<close>, more than any cap (\<open>MAX_BUDGET_LIMIT\<close>), so the comparisons with
  the caps agree.
\<close>

section \<open>Limits, rows and totals\<close>

datatype usage = Usage (requestCount: int) (tokens: int) (costMicros: int)

text \<open>Totals are added and compared field by field.\<close>

instantiation usage :: ordered_ab_group_add
begin

definition "0 = Usage 0 0 0"
definition "u + v = Usage (requestCount u + requestCount v) (tokens u + tokens v)
  (costMicros u + costMicros v)"
definition "- u = Usage (- requestCount u) (- tokens u) (- costMicros u)"
definition "u - v = Usage (requestCount u - requestCount v) (tokens u - tokens v)
  (costMicros u - costMicros v)"
definition "u \<le> v \<longleftrightarrow> requestCount u \<le> requestCount v \<and> tokens u \<le> tokens v \<and>
  costMicros u \<le> costMicros v"
definition "(u :: usage) < v \<longleftrightarrow> u \<le> v \<and> \<not> v \<le> u"

instance
  by standard
    (auto simp: zero_usage_def plus_usage_def uminus_usage_def minus_usage_def less_eq_usage_def
      less_usage_def intro: usage.expand)

end

lemmas usage_simps = zero_usage_def plus_usage_def uminus_usage_def minus_usage_def less_eq_usage_def

datatype ledger_error = Range_refused | Ledger_refused

definition isSafeNonNegativeInteger :: "jsval \<Rightarrow> int option" where
  "isSafeNonNegativeInteger v =
     (case v of
        JNum n \<Rightarrow> (case safe_int n of None \<Rightarrow> None | Some i \<Rightarrow> if 0 \<le> i then Some i else None)
      | _ \<Rightarrow> None)"

definition positive_integer :: "jsval \<Rightarrow> int option" where
  "positive_integer v =
     (case isSafeNonNegativeInteger v of None \<Rightarrow> None | Some i \<Rightarrow> if i < 1 then None else Some i)"

text \<open>\<open>identifier\<close> and \<open>rowIdentifier\<close>, which are the same function.\<close>

definition ledger_identifier :: "jsval \<Rightarrow> nat \<Rightarrow> string option" where
  "ledger_identifier v most =
     (case v of
        JStr s \<Rightarrow>
          if s = '''' \<or> length s > most \<or> s \<noteq> js_trim s \<or> list_ex control_char s then None
          else Some s
      | _ \<Rightarrow> None)"

definition run_id_char :: "char \<Rightarrow> bool" where
  "run_id_char c = (is_alnum c \<or> c \<in> set ''._:-'')"

text \<open>\<open>RUN_ID_RE\<close>: \<^verbatim>\<open>/^[A-Za-z0-9][A-Za-z0-9._:-]{0,127}$/\<close>\<close>

fun run_id_re :: "string \<Rightarrow> bool" where
  "run_id_re [] = False"
| "run_id_re (c # cs) = (is_alnum c \<and> length cs \<le> 127 \<and> list_all run_id_char cs)"

definition max_budget_limit :: int where
  "max_budget_limit = 999999999999999"

record budget_limits =
  maxRequests :: int
  maxTokens :: int
  maxCostMicros :: int

definition limit_amount :: "jsval \<Rightarrow> int option" where
  "limit_amount v =
     (case isSafeNonNegativeInteger v of
        None \<Rightarrow> None | Some i \<Rightarrow> if i > max_budget_limit then None else Some i)"

definition validateBudgetLimits :: "jsval \<Rightarrow> ledger_error + budget_limits" where
  "validateBudgetLimits v =
     (case v of
        JObj ps \<Rightarrow>
          (case (limit_amount (get_prop ps ''maxRequests''), limit_amount (get_prop ps ''maxTokens''),
                 limit_amount (get_prop ps ''maxCostMicros'')) of
             (Some r, Some t, Some c) \<Rightarrow>
               if r < 1 then Inl Range_refused
               else if t < 1 then Inl Range_refused
               else Inr \<lparr>maxRequests = r, maxTokens = t, maxCostMicros = c\<rparr>
           | _ \<Rightarrow> Inl Range_refused)
      | _ \<Rightarrow> Inl Range_refused)"

record per_request_budget =
  prb_maxTokens :: int
  prb_maxCostMicros :: int

definition validatePerRequestBudget ::
  "jsval \<Rightarrow> budget_limits \<Rightarrow> ledger_error + per_request_budget" where
  "validatePerRequestBudget v caps =
     (case v of
        JObj ps \<Rightarrow>
          (case (positive_integer (get_prop ps ''maxTokens''),
                 isSafeNonNegativeInteger (get_prop ps ''maxCostMicros'')) of
             (Some t, Some c) \<Rightarrow>
               if t > maxTokens caps \<or> c > maxCostMicros caps then Inl Range_refused
               else Inr \<lparr>prb_maxTokens = t, prb_maxCostMicros = c\<rparr>
           | _ \<Rightarrow> Inl Range_refused)
      | _ \<Rightarrow> Inl Range_refused)"

datatype row_state = Reserved | Committed | Refunded

record budget_row =
  row_reservationId :: string
  row_runId :: string
  row_generation :: int
  row_modelProfile :: string
  row_estimatedTokens :: int
  row_estimatedCostMicros :: int
  row_state :: row_state
  row_actualRequestCount :: int
  row_actualTokens :: int
  row_actualCostMicros :: int
  row_overran :: bool
  row_reservedAtMs :: int
  row_settledAtMs :: int

fun row_state_str :: "row_state \<Rightarrow> string" where
  "row_state_str Reserved = ''reserved''"
| "row_state_str Committed = ''committed''"
| "row_state_str Refunded = ''refunded''"

definition js_row_state :: "jsval \<Rightarrow> row_state option" where
  "js_row_state v =
     (if v = JStr ''reserved'' then Some Reserved
      else if v = JStr ''committed'' then Some Committed
      else if v = JStr ''refunded'' then Some Refunded else None)"

definition require_that :: "bool \<Rightarrow> unit option" where
  "require_that b = (if b then Some () else None)"

definition validateBudgetReservationRow :: "jsval \<Rightarrow> budget_row option" where
  "validateBudgetReservationRow v =
    (case v of
       JObj ps \<Rightarrow> do {
         rid \<leftarrow> ledger_identifier (get_prop ps ''reservationId'') 128;
         run \<leftarrow> ledger_identifier (get_prop ps ''runId'') 128;
         gen \<leftarrow> positive_integer (get_prop ps ''generation'');
         prof \<leftarrow> ledger_identifier (get_prop ps ''modelProfile'') 64;
         et \<leftarrow> isSafeNonNegativeInteger (get_prop ps ''estimatedTokens'');
         ec \<leftarrow> isSafeNonNegativeInteger (get_prop ps ''estimatedCostMicros'');
         st \<leftarrow> js_row_state (get_prop ps ''state'');
         ar \<leftarrow> isSafeNonNegativeInteger (get_prop ps ''actualRequestCount'');
         require_that (\<not> (st = Committed \<and> ar < 1));
         act \<leftarrow> isSafeNonNegativeInteger (get_prop ps ''actualTokens'');
         acc \<leftarrow> isSafeNonNegativeInteger (get_prop ps ''actualCostMicros'');
         ov \<leftarrow> (case get_prop ps ''overran'' of JBool b \<Rightarrow> Some b | _ \<Rightarrow> None);
         require_that (\<not> (st \<noteq> Committed \<and> ov));
         ra \<leftarrow> isSafeNonNegativeInteger (get_prop ps ''reservedAtMs'');
         sa \<leftarrow> isSafeNonNegativeInteger (get_prop ps ''settledAtMs'');
         require_that (\<not> (st = Reserved \<and> sa \<noteq> 0));
         require_that (\<not> (st \<noteq> Reserved \<and> sa \<le> 0));
         Some \<lparr>row_reservationId = rid, row_runId = run, row_generation = gen,
           row_modelProfile = prof, row_estimatedTokens = et, row_estimatedCostMicros = ec,
           row_state = st, row_actualRequestCount = ar, row_actualTokens = act,
           row_actualCostMicros = acc, row_overran = ov, row_reservedAtMs = ra,
           row_settledAtMs = sa\<rparr>
       }
     | _ \<Rightarrow> None)"

definition validateBudgetRunGeneration :: "jsval \<Rightarrow> (string \<times> int) option" where
  "validateBudgetRunGeneration v =
    (case v of
       JObj ps \<Rightarrow> do {
         run \<leftarrow> ledger_identifier (get_prop ps ''runId'') 128;
         gen \<leftarrow> positive_integer (get_prop ps ''generation'');
         Some (run, gen)
       }
     | _ \<Rightarrow> None)"

section \<open>The ledger\<close>

record ledger =
  caps :: budget_limits
  run_rows :: "(string \<times> (string \<times> budget_row) list) list"
  generations :: "(string \<times> int) list"

definition empty_ledger :: "budget_limits \<Rightarrow> ledger" where
  "empty_ledger c = \<lparr>caps = c, run_rows = [], generations = []\<rparr>"

definition generationFor :: "ledger \<Rightarrow> string \<Rightarrow> int" where
  "generationFor L run = (case map_of (generations L) run of None \<Rightarrow> 1 | Some g \<Rightarrow> g)"

text \<open>The rows of one run: the group, or an empty one.\<close>

definition rowsForRun :: "ledger \<Rightarrow> string \<Rightarrow> (string \<times> budget_row) list" where
  "rowsForRun L run = (case map_of (run_rows L) run of None \<Rightarrow> [] | Some rs \<Rightarrow> rs)"

definition row_of :: "ledger \<Rightarrow> string \<Rightarrow> string \<Rightarrow> budget_row option" where
  "row_of L run rid = map_of (rowsForRun L run) rid"

definition set_row :: "string \<Rightarrow> string \<Rightarrow> budget_row \<Rightarrow> ledger \<Rightarrow> ledger" where
  "set_row run rid row L =
     L\<lparr>run_rows := AList.update run (AList.update rid row (rowsForRun L run)) (run_rows L)\<rparr>"

definition estimate :: "budget_row \<Rightarrow> usage" where
  "estimate row = Usage 1 (row_estimatedTokens row) (row_estimatedCostMicros row)"

definition charge :: "budget_row \<Rightarrow> usage" where
  "charge row =
     (case row_state row of
        Refunded \<Rightarrow> 0
      | Committed \<Rightarrow>
          Usage (row_actualRequestCount row) (row_actualTokens row) (row_actualCostMicros row)
      | Reserved \<Rightarrow> estimate row)"

text \<open>\<open>totals(runId?)\<close>: every group is visited, the other runs' groups are skipped.\<close>

definition totals :: "string option \<Rightarrow> ledger \<Rightarrow> usage" where
  "totals only L =
     fold (\<lambda>(run, rs) sum.
         if only \<noteq> None \<and> only \<noteq> Some run then sum
         else fold (\<lambda>(rid, row) sum. sum + charge row) rs sum)
       (run_rows L) 0"

definition usageFor :: "ledger \<Rightarrow> string \<Rightarrow> usage" where
  "usageFor L run = totals (Some run) L"

definition total_usage :: "ledger \<Rightarrow> usage" where
  "total_usage L = totals None L"

section \<open>Reserve, commit, refund, cancel\<close>

datatype budget_refusal =
    Invalid_request | Reservation_mismatch | Budget_exhausted | Cancelled_run | Unknown_reservation

record reservation_input =
  ri_reservationId :: jsval
  ri_runId :: jsval
  ri_generation :: jsval
  ri_modelProfile :: jsval
  ri_estimatedTokens :: jsval
  ri_estimatedCostMicros :: jsval

record reservation =
  rv_reservationId :: string
  rv_runId :: string
  rv_generation :: int
  rv_modelProfile :: string
  rv_estimatedTokens :: int
  rv_estimatedCostMicros :: int

text \<open>The argument checks of \<open>reserve\<close>: every failing one is refused with \<open>invalid_request\<close>.\<close>

definition checkReservation :: "reservation_input \<Rightarrow> reservation option" where
  "checkReservation inp = do {
     rid \<leftarrow> ledger_identifier (ri_reservationId inp) 128;
     run \<leftarrow> ledger_identifier (ri_runId inp) 128;
     require_that (run_id_re run);
     prof \<leftarrow> ledger_identifier (ri_modelProfile inp) 64;
     gen \<leftarrow> positive_integer (ri_generation inp);
     et \<leftarrow> isSafeNonNegativeInteger (ri_estimatedTokens inp);
     ec \<leftarrow> isSafeNonNegativeInteger (ri_estimatedCostMicros inp);
     Some \<lparr>rv_reservationId = rid, rv_runId = run, rv_generation = gen, rv_modelProfile = prof,
       rv_estimatedTokens = et, rv_estimatedCostMicros = ec\<rparr>
   }"

definition same_identity :: "reservation \<Rightarrow> budget_row \<Rightarrow> bool" where
  "same_identity rv row \<longleftrightarrow>
     row_generation row = rv_generation rv \<and> row_modelProfile row = rv_modelProfile rv \<and>
     row_estimatedTokens row = rv_estimatedTokens rv \<and>
     row_estimatedCostMicros row = rv_estimatedCostMicros rv"

definition fresh_row :: "int \<Rightarrow> reservation \<Rightarrow> budget_row" where
  "fresh_row now rv =
     \<lparr>row_reservationId = rv_reservationId rv, row_runId = rv_runId rv,
      row_generation = rv_generation rv, row_modelProfile = rv_modelProfile rv,
      row_estimatedTokens = rv_estimatedTokens rv,
      row_estimatedCostMicros = rv_estimatedCostMicros rv, row_state = Reserved,
      row_actualRequestCount = 0, row_actualTokens = 0, row_actualCostMicros = 0,
      row_overran = False, row_reservedAtMs = now, row_settledAtMs = 0\<rparr>"

text \<open>Admission of a checked reservation: idempotent replay first, then the cancellation
  generation, then the caps against the run's own totals.\<close>

definition admit :: "int \<Rightarrow> reservation \<Rightarrow> ledger \<Rightarrow> (budget_refusal + budget_row) \<times> ledger" where
  "admit now rv L =
     (case row_of L (rv_runId rv) (rv_reservationId rv) of
        Some existing \<Rightarrow>
          if \<not> same_identity rv existing then (Inl Reservation_mismatch, L) else (Inr existing, L)
      | None \<Rightarrow>
          if rv_generation rv < generationFor L (rv_runId rv) then (Inl Cancelled_run, L)
          else
            let projected = usageFor L (rv_runId rv) +
              Usage 1 (rv_estimatedTokens rv) (rv_estimatedCostMicros rv) in
            if requestCount projected > maxRequests (caps L) \<or> tokens projected > maxTokens (caps L) \<or>
               costMicros projected > maxCostMicros (caps L)
            then (Inl Budget_exhausted, L)
            else (Inr (fresh_row now rv),
                  set_row (rv_runId rv) (rv_reservationId rv) (fresh_row now rv) L))"

definition reserve ::
  "int \<Rightarrow> reservation_input \<Rightarrow> ledger \<Rightarrow> (budget_refusal + budget_row) \<times> ledger" where
  "reserve now inp L =
     (case checkReservation inp of
        None \<Rightarrow> (Inl Invalid_request, L)
      | Some rv \<Rightarrow> admit now rv L)"

record actual_usage =
  au_requestCount :: jsval
  au_tokens :: jsval
  au_costMicros :: jsval

definition checkActual :: "actual_usage \<Rightarrow> usage option" where
  "checkActual a = do {
     n \<leftarrow> positive_integer (au_requestCount a);
     t \<leftarrow> isSafeNonNegativeInteger (au_tokens a);
     c \<leftarrow> isSafeNonNegativeInteger (au_costMicros a);
     Some (Usage n t c)
   }"

definition committed_row :: "int \<Rightarrow> usage \<Rightarrow> budget_row \<Rightarrow> budget_row" where
  "committed_row now a row =
     row\<lparr>row_state := Committed, row_actualRequestCount := requestCount a,
       row_actualTokens := tokens a, row_actualCostMicros := costMicros a,
       row_overran := (tokens a > row_estimatedTokens row \<or>
         costMicros a > row_estimatedCostMicros row),
       row_settledAtMs := now\<rparr>"

definition commit :: "int \<Rightarrow> string \<Rightarrow> string \<Rightarrow> actual_usage \<Rightarrow> ledger \<Rightarrow>
    (budget_refusal + budget_row) \<times> ledger" where
  "commit now run rid actual L =
     (case row_of L run rid of
        None \<Rightarrow> (Inl Unknown_reservation, L)
      | Some row \<Rightarrow>
          (case checkActual actual of
             None \<Rightarrow> (Inl Invalid_request, L)
           | Some a \<Rightarrow>
               (case row_state row of
                  Refunded \<Rightarrow> (Inl Reservation_mismatch, L)
                | Committed \<Rightarrow>
                    if row_actualRequestCount row = requestCount a \<and>
                       row_actualTokens row = tokens a \<and> row_actualCostMicros row = costMicros a
                    then (Inr row, L) else (Inl Reservation_mismatch, L)
                | Reserved \<Rightarrow>
                    (Inr (committed_row now a row), set_row run rid (committed_row now a row) L))))"

definition refund ::
  "int \<Rightarrow> string \<Rightarrow> string \<Rightarrow> ledger \<Rightarrow> (budget_refusal + budget_row) \<times> ledger" where
  "refund now run rid L =
     (case row_of L run rid of
        None \<Rightarrow> (Inl Unknown_reservation, L)
      | Some row \<Rightarrow>
          (case row_state row of
             Committed \<Rightarrow> (Inl Reservation_mismatch, L)
           | Refunded \<Rightarrow> (Inr row, L)
           | Reserved \<Rightarrow>
               let settled = row\<lparr>row_state := Refunded, row_settledAtMs := now\<rparr> in
               (Inr settled, set_row run rid settled L)))"

definition cancelRun :: "string \<Rightarrow> ledger \<Rightarrow> (ledger_error + int) \<times> ledger" where
  "cancelRun run L =
     (if \<not> run_id_re run then (Inl Ledger_refused, L)
      else let g = generationFor L run + 1 in
        (Inr g, L\<lparr>generations := AList.update run g (generations L)\<rparr>))"

section \<open>The durable payload\<close>

definition rows :: "ledger \<Rightarrow> budget_row list" where
  "rows L = concat (map (\<lambda>(run, rs). map snd rs) (run_rows L))"

definition js_int :: "int \<Rightarrow> jsval" where
  "js_int i = JNum (Fin (of_int i))"

definition row_js :: "budget_row \<Rightarrow> jsval" where
  "row_js row = JObj
     [(''reservationId'', JStr (row_reservationId row)), (''runId'', JStr (row_runId row)),
      (''generation'', js_int (row_generation row)),
      (''modelProfile'', JStr (row_modelProfile row)),
      (''estimatedTokens'', js_int (row_estimatedTokens row)),
      (''estimatedCostMicros'', js_int (row_estimatedCostMicros row)),
      (''state'', JStr (row_state_str (row_state row))),
      (''actualRequestCount'', js_int (row_actualRequestCount row)),
      (''actualTokens'', js_int (row_actualTokens row)),
      (''actualCostMicros'', js_int (row_actualCostMicros row)),
      (''overran'', JBool (row_overran row)), (''reservedAtMs'', js_int (row_reservedAtMs row)),
      (''settledAtMs'', js_int (row_settledAtMs row))]"

definition generation_js :: "string \<times> int \<Rightarrow> jsval" where
  "generation_js e = JObj [(''runId'', JStr (fst e)), (''generation'', js_int (snd e))]"

definition durableState :: "ledger \<Rightarrow> jsval" where
  "durableState L = JObj [(''rows'', JArr (map row_js (rows L))),
     (''generations'', JArr (map generation_js (generations L)))]"

definition limits_js :: "budget_limits \<Rightarrow> jsval" where
  "limits_js c = JObj [(''maxRequests'', js_int (maxRequests c)), (''maxTokens'', js_int (maxTokens c)),
     (''maxCostMicros'', js_int (maxCostMicros c))]"

text \<open>The constructor: the two loops over the seed state, then the whole.\<close>

fun seed_generations :: "jsval list \<Rightarrow> (string \<times> int) list \<Rightarrow> ledger_error + (string \<times> int) list" where
  "seed_generations [] gs = Inr gs"
| "seed_generations (v # vs) gs =
     (case validateBudgetRunGeneration v of
        None \<Rightarrow> Inl Ledger_refused
      | Some (run, g) \<Rightarrow>
          if map_of gs run \<noteq> None then Inl Ledger_refused
          else seed_generations vs (AList.update run g gs))"

definition seed_row :: "budget_row \<Rightarrow> ledger \<Rightarrow> ledger" where
  "seed_row row L =
     (let L1 = set_row (row_runId row) (row_reservationId row) row L in
      case map_of (generations L1) (row_runId row) of
        None \<Rightarrow> L1\<lparr>generations := AList.update (row_runId row) (row_generation row) (generations L1)\<rparr>
      | Some recorded \<Rightarrow>
          if row_generation row > recorded
          then L1\<lparr>generations := AList.update (row_runId row) (row_generation row) (generations L1)\<rparr>
          else L1)"

fun seed_rows :: "jsval list \<Rightarrow> ledger \<Rightarrow> ledger_error + ledger" where
  "seed_rows [] L = Inr L"
| "seed_rows (v # vs) L =
     (case validateBudgetReservationRow v of
        None \<Rightarrow> Inl Ledger_refused
      | Some row \<Rightarrow>
          if row_of L (row_runId row) (row_reservationId row) \<noteq> None then Inl Ledger_refused
          else seed_rows vs (seed_row row L))"

definition new_ledger :: "jsval \<Rightarrow> jsval \<Rightarrow> ledger_error + ledger" where
  "new_ledger capsv state =
     (case validateBudgetLimits capsv of
        Inl e \<Rightarrow> Inl e
      | Inr c \<Rightarrow>
          (case state of
             JUndef \<Rightarrow> Inr (empty_ledger c)
           | JObj ps \<Rightarrow>
               (case (get_prop ps ''rows'', get_prop ps ''generations'') of
                  (JArr rs, JArr gs) \<Rightarrow>
                    (case seed_generations gs [] of
                       Inl e \<Rightarrow> Inl e
                     | Inr seeded \<Rightarrow> seed_rows rs ((empty_ledger c)\<lparr>generations := seeded\<rparr>))
                | _ \<Rightarrow> Inl Ledger_refused)
           | _ \<Rightarrow> Inl Ledger_refused))"

section \<open>Well-formed ledgers\<close>

definition counter :: "int \<Rightarrow> bool" where
  "counter i \<longleftrightarrow> 0 \<le> i \<and> i \<le> max_safe_integer"

definition id_form :: "string \<Rightarrow> nat \<Rightarrow> bool" where
  "id_form s most \<longleftrightarrow> s \<noteq> '''' \<and> length s \<le> most \<and> s = js_trim s \<and> \<not> list_ex control_char s"

definition row_ok :: "budget_row \<Rightarrow> bool" where
  "row_ok row \<longleftrightarrow>
     id_form (row_reservationId row) 128 \<and> id_form (row_runId row) 128 \<and>
     id_form (row_modelProfile row) 64 \<and> counter (row_generation row) \<and> 1 \<le> row_generation row \<and>
     counter (row_estimatedTokens row) \<and> counter (row_estimatedCostMicros row) \<and>
     counter (row_actualRequestCount row) \<and> counter (row_actualTokens row) \<and>
     counter (row_actualCostMicros row) \<and> counter (row_reservedAtMs row) \<and>
     counter (row_settledAtMs row) \<and>
     (row_state row = Committed \<longrightarrow> 1 \<le> row_actualRequestCount row) \<and>
     (row_overran row \<longrightarrow> row_state row = Committed) \<and>
     (row_state row = Reserved \<longleftrightarrow> row_settledAtMs row = 0)"

definition group_ok :: "string \<Rightarrow> (string \<times> budget_row) list \<Rightarrow> bool" where
  "group_ok run rs \<longleftrightarrow> rs \<noteq> [] \<and> map_ok rs \<and>
     (\<forall>(rid, row) \<in> set rs. row_reservationId row = rid \<and> row_runId row = run \<and> row_ok row)"

definition ledger_ok :: "ledger \<Rightarrow> bool" where
  "ledger_ok L \<longleftrightarrow> map_ok (run_rows L) \<and> map_ok (generations L) \<and>
     (\<forall>(run, rs) \<in> set (run_rows L). group_ok run rs) \<and>
     (\<forall>(run, g) \<in> set (generations L). id_form run 128 \<and> 1 \<le> g) \<and>
     validateBudgetLimits (limits_js (caps L)) = Inr (caps L)"

lemma js_int_inject [simp]: "js_int i = js_int j \<longleftrightarrow> i = j"
  by (simp add: js_int_def)

lemma isSafeNonNegativeInteger_js_int:
  "isSafeNonNegativeInteger (js_int i) = (if counter i then Some i else None)"
  by (auto simp: isSafeNonNegativeInteger_def js_int_def counter_def safe_int_def)

lemma isSafeNonNegativeInteger_Some:
  "isSafeNonNegativeInteger v = Some i \<longleftrightarrow> v = js_int i \<and> counter i"
  by (auto simp: isSafeNonNegativeInteger_def js_int_def counter_def
      split: jsval.splits option.splits if_splits dest: safe_int_Some)

lemma positive_integer_Some: "positive_integer v = Some i \<longleftrightarrow> v = js_int i \<and> counter i \<and> 1 \<le> i"
  by (auto simp: positive_integer_def isSafeNonNegativeInteger_Some isSafeNonNegativeInteger_js_int
      split: option.splits if_splits)

lemma identifier_Some: "ledger_identifier v n = Some s \<longleftrightarrow> v = JStr s \<and> id_form s n"
  by (auto simp: ledger_identifier_def id_form_def split: jsval.splits if_splits)

lemma require_that_Some [simp]: "require_that b = Some u \<longleftrightarrow> b"
  by (simp add: require_that_def)

lemmas parsed = isSafeNonNegativeInteger_Some positive_integer_Some identifier_Some

lemma run_id_form:
  assumes "run_id_re s"
  shows "id_form s 128"
proof -
  obtain c cs where s: "s = c # cs" "is_alnum c" "length cs \<le> 127" "list_all run_id_char cs"
    using assms by (cases s) auto
  have plain: "\<not> js_space x \<and> \<not> control_char x" if "x \<in> set s" for x
  proof -
    have "is_alnum x \<or> x \<in> set ''._:-''"
      using that s by (auto simp: list_all_iff run_id_char_def)
    then show ?thesis
      by (elim disjE) (simp_all add: is_alnum_def js_space_def control_char_def, auto)
  qed
  have "dropWhile js_space t = t" if "set t \<subseteq> set s" for t
    using that plain by (cases t) auto
  then have "js_trim s = s" by (simp add: js_trim_def)
  then show ?thesis using s plain by (auto simp: id_form_def list_ex_iff)
qed

lemma checkReservation_Some:
  assumes "checkReservation inp = Some rv"
  shows "id_form (rv_reservationId rv) 128" "id_form (rv_runId rv) 128" "run_id_re (rv_runId rv)"
    "ri_runId inp = JStr (rv_runId rv)" "id_form (rv_modelProfile rv) 64"
    "counter (rv_generation rv)" "1 \<le> rv_generation rv" "counter (rv_estimatedTokens rv)"
    "counter (rv_estimatedCostMicros rv)"
  using assms by (auto simp: checkReservation_def parsed split: Option.bind_splits)

lemma checkActual_Some:
  assumes "checkActual a = Some u"
  shows "counter (requestCount u)" "1 \<le> requestCount u" "counter (tokens u)" "counter (costMicros u)"
  using assms by (auto simp: checkActual_def parsed split: Option.bind_splits)

lemma js_row_state_str [simp]: "js_row_state (JStr (row_state_str st)) = Some st"
  by (cases st) (simp_all add: js_row_state_def)

lemma validate_row_js:
  assumes "row_ok row"
  shows "validateBudgetReservationRow (row_js row) = Some row"
proof -
  note ok = assms [unfolded row_ok_def]
  have num: "isSafeNonNegativeInteger (js_int i) = Some i" if "counter i" for i
    using that by (simp add: parsed)
  have pos: "positive_integer (js_int i) = Some i" if "counter i" "1 \<le> i" for i
    using that by (simp add: parsed)
  have id: "ledger_identifier (JStr s) n = Some s" if "id_form s n" for s n
    using that by (simp add: parsed)
  have st: "row_state row = Committed \<longrightarrow> \<not> row_actualRequestCount row < 1"
    "row_overran row \<longrightarrow> row_state row = Committed"
    "row_state row = Reserved \<longrightarrow> row_settledAtMs row = 0"
    "row_state row \<noteq> Reserved \<longrightarrow> \<not> row_settledAtMs row \<le> 0"
    using ok by (auto simp: counter_def)
  show ?thesis
    using ok st
    by (simp add: validateBudgetReservationRow_def row_js_def num pos id require_that_def) auto
qed

section \<open>Operations as events\<close>

datatype budget_op =
    Op_reserve int reservation_input
  | Op_commit int string string actual_usage
  | Op_refund int string string
  | Op_cancel string

datatype op_result = Row_result "budget_refusal + budget_row" | Generation_result "ledger_error + int"

fun perform :: "budget_op \<Rightarrow> ledger \<Rightarrow> op_result \<times> ledger" where
  "perform (Op_reserve now inp) L = apfst Row_result (reserve now inp L)"
| "perform (Op_commit now run rid a) L = apfst Row_result (commit now run rid a L)"
| "perform (Op_refund now run rid) L = apfst Row_result (refund now run rid L)"
| "perform (Op_cancel run) L = apfst Generation_result (cancelRun run L)"

definition live_clock :: "int \<Rightarrow> bool" where
  "live_clock now \<longleftrightarrow> counter now \<and> now \<noteq> 0"

fun timely_op :: "budget_op \<Rightarrow> bool" where
  "timely_op (Op_reserve now inp) = live_clock now"
| "timely_op (Op_commit now run rid a) = live_clock now"
| "timely_op (Op_refund now run rid) = live_clock now"
| "timely_op (Op_cancel run) = True"

text \<open>One step of a controller's life: an operation, or a restart that seeds a new ledger from the
  durable payload of the old one.\<close>

inductive ledger_step :: "ledger \<Rightarrow> ledger \<Rightarrow> bool" where
  operate: "timely_op op \<Longrightarrow> ledger_step L (snd (perform op L))"
| restart: "new_ledger (limits_js (caps L)) (durableState L) = Inr L' \<Longrightarrow> ledger_step L L'"

inductive_cases ledger_step_elim: "ledger_step L L'"

abbreviation lives :: "ledger \<Rightarrow> ledger \<Rightarrow> bool" where
  "lives \<equiv> ledger_step\<^sup>*\<^sup>*"

subsection \<open>How an operation changes the ledger\<close>

text \<open>An operation leaves the ledger alone, records a fresh row, settles a reserved row, or bumps a
  generation.\<close>

inductive changes :: "ledger \<Rightarrow> ledger \<Rightarrow> bool" where
  same: "changes L L"
| booked: "\<lbrakk>checkReservation inp = Some rv; row_of L (rv_runId rv) (rv_reservationId rv) = None;
    generationFor L (rv_runId rv) \<le> rv_generation rv;
    usageFor L (rv_runId rv) + estimate (fresh_row now rv)
      \<le> Usage (maxRequests (caps L)) (maxTokens (caps L)) (maxCostMicros (caps L));
    live_clock now\<rbrakk> \<Longrightarrow>
    changes L (set_row (rv_runId rv) (rv_reservationId rv) (fresh_row now rv) L)"
| settled: "\<lbrakk>row_of L run rid = Some row; row_state row = Reserved; live_clock now;
    (checkActual a = Some u \<and> row' = committed_row now u row) \<or>
    row' = row\<lparr>row_state := Refunded, row_settledAtMs := now\<rparr>\<rbrakk> \<Longrightarrow>
    changes L (set_row run rid row' L)"
| bumped: "\<lbrakk>run_id_re run\<rbrakk> \<Longrightarrow>
    changes L (L\<lparr>generations := AList.update run (generationFor L run + 1) (generations L)\<rparr>)"

lemma reserve_changes:
  assumes "live_clock now"
  shows "changes L (snd (reserve now inp L))"
proof (cases "checkReservation inp")
  case None
  then show ?thesis by (simp add: reserve_def changes.same)
next
  case (Some rv)
  show ?thesis
  proof (cases "row_of L (rv_runId rv) (rv_reservationId rv) = None \<and>
      \<not> rv_generation rv < generationFor L (rv_runId rv) \<and>
      usageFor L (rv_runId rv) + estimate (fresh_row now rv)
        \<le> Usage (maxRequests (caps L)) (maxTokens (caps L)) (maxCostMicros (caps L))")
    case True
    then have "snd (reserve now inp L) =
        set_row (rv_runId rv) (rv_reservationId rv) (fresh_row now rv) L"
      using Some by (auto simp: reserve_def admit_def Let_def estimate_def fresh_row_def usage_simps)
    then show ?thesis
      using True Some assms changes.booked [of inp rv L now] by (simp add: not_less)
  next
    case False
    then have "snd (reserve now inp L) = L"
      using Some by (auto simp: reserve_def admit_def Let_def estimate_def fresh_row_def usage_simps
          split: option.split)
    then show ?thesis by (simp add: changes.same)
  qed
qed

lemma perform_changes:
  assumes "timely_op op"
  shows "changes L (snd (perform op L))"
proof (cases op)
  case (Op_reserve now inp)
  then show ?thesis using assms reserve_changes by simp
next
  case (Op_commit now run rid a)
  show ?thesis
  proof (cases "row_of L run rid")
    case (Some row)
    show ?thesis
    proof (cases "row_state row = Reserved \<and> checkActual a \<noteq> None")
      case True
      then obtain u where "checkActual a = Some u" by auto
      then show ?thesis
        using Some True assms Op_commit changes.settled [of L run rid row now a u "committed_row now u row"]
        by (simp add: commit_def)
    next
      case False
      then have "snd (commit now run rid a L) = L"
        using Some by (cases "row_state row") (auto simp: commit_def split: option.split)
      then show ?thesis using Op_commit by (simp add: changes.same)
    qed
  qed (simp add: Op_commit commit_def changes.same)
next
  case (Op_refund now run rid)
  show ?thesis
  proof (cases "row_of L run rid")
    case (Some row)
    then show ?thesis
      using assms Op_refund changes.settled
        [of L run rid row now undefined undefined "row\<lparr>row_state := Refunded, row_settledAtMs := now\<rparr>"]
      by (cases "row_state row") (simp_all add: refund_def Let_def changes.same)
  qed (simp add: Op_refund refund_def changes.same)
next
  case (Op_cancel run)
  then show ?thesis
    using changes.bumped [of run L] by (simp add: cancelRun_def Let_def changes.same)
qed

section \<open>Rows, groups and totals\<close>

lemma rowsForRun_set_row [simp]:
  "rowsForRun (set_row run rid row L) r =
     (if r = run then AList.update rid row (rowsForRun L run) else rowsForRun L r)"
  by (simp add: rowsForRun_def set_row_def)

lemma row_of_set_row [simp]:
  "row_of (set_row run rid row L) r i = (if r = run \<and> i = rid then Some row else row_of L r i)"
  by (simp add: row_of_def)

lemma set_row_simps [simp]:
  "caps (set_row run rid row L) = caps L" "generations (set_row run rid row L) = generations L"
  "generationFor (set_row run rid row L) r = generationFor L r"
  by (simp_all add: set_row_def generationFor_def)

lemma generations_update_simps [simp]:
  "rowsForRun (L\<lparr>generations := gs\<rparr>) r = rowsForRun L r"
  "row_of (L\<lparr>generations := gs\<rparr>) r i = row_of L r i"
  by (simp_all add: rowsForRun_def row_of_def)

definition group_sum :: "(budget_row \<Rightarrow> usage) \<Rightarrow> (string \<times> budget_row) list \<Rightarrow> usage" where
  "group_sum f rs = sum_list (map (f \<circ> snd) rs)"

lemma fold_charges: "fold (\<lambda>(rid, row) sum. sum + charge row) rs z = z + group_sum charge rs"
  by (induction rs arbitrary: z) (auto simp: group_sum_def add.assoc)

lemma totals_skip:
  "r \<notin> fst ` set gs \<Longrightarrow>
    fold (\<lambda>(run, rs) sum. if Some r \<noteq> Some run then sum
      else fold (\<lambda>(rid, row) sum. sum + charge row) rs sum) gs z = z"
  by (induction gs arbitrary: z) auto

lemma usageFor_group:
  assumes "map_ok (run_rows L)"
  shows "usageFor L r = group_sum charge (rowsForRun L r)"
proof -
  have "fold (\<lambda>(run, rs) sum. if Some r \<noteq> Some run then sum
      else fold (\<lambda>(rid, row) sum. sum + charge row) rs sum) gs z =
      z + group_sum charge (case map_of gs r of None \<Rightarrow> [] | Some rs \<Rightarrow> rs)"
    if "map_ok gs" for gs and z :: usage
    using that
  proof (induction gs arbitrary: z)
    case Nil
    then show ?case by (simp add: group_sum_def)
  next
    case (Cons e gs)
    obtain run rs where e: "e = (run, rs)" by fastforce
    show ?case
    proof (cases "run = r")
      case True
      then have "r \<notin> fst ` set gs" using Cons.prems e by auto
      from totals_skip [OF this] True show ?thesis by (simp add: e fold_charges)
    next
      case False
      then show ?thesis using Cons e by simp
    qed
  qed
  from this [OF assms, of 0] show ?thesis
    by (simp add: usageFor_def totals_def rowsForRun_def)
qed

lemma group_sum_fresh:
  "map_of rs k = None \<Longrightarrow> group_sum f (AList.update k v rs) = group_sum f rs + f v"
  by (induction rs) (auto simp: group_sum_def add.assoc split: if_splits)

lemma group_sum_present:
  "map_of rs k = Some v0 \<Longrightarrow> group_sum f (AList.update k v rs) = group_sum f rs - f v0 + f v"
  by (induction rs) (auto simp: group_sum_def algebra_simps split: if_splits)

subsection \<open>Well-formedness is kept\<close>

lemma group_of_run: "ledger_ok L \<Longrightarrow> rowsForRun L r = [] \<or> group_ok r (rowsForRun L r)"
  unfolding ledger_ok_def rowsForRun_def
  by (cases "map_of (run_rows L) r") (auto dest: map_of_SomeD)

lemma row_of_ok:
  assumes "ledger_ok L" and "row_of L r i = Some row"
  shows "row_reservationId row = i \<and> row_runId row = r \<and> row_ok row"
  using group_of_run [OF assms(1), of r] assms(2)
  by (auto simp: row_of_def group_ok_def dest!: map_of_SomeD)

lemma set_row_ok:
  assumes "ledger_ok L" and "row_reservationId row = rid" and "row_runId row = run" and "row_ok row"
  shows "ledger_ok (set_row run rid row L)"
proof -
  let ?g = "AList.update rid row (rowsForRun L run)"
  have g: "rowsForRun L run = [] \<or> group_ok run (rowsForRun L run)"
    by (rule group_of_run [OF assms(1)])
  have "map_ok (rowsForRun L run)" using g by (auto simp: group_ok_def)
  then have m: "map_ok ?g" by (rule AList_map_ok_update)
  have "row_reservationId r = i \<and> row_runId r = run \<and> row_ok r" if "(i, r) \<in> set ?g" for i r
  proof (cases "i = rid")
    case True
    then have "r = row" using that m by (simp add: in_set_map_of)
    then show ?thesis using True assms(2-4) by simp
  next
    case False
    then have "map_of (rowsForRun L run) i = Some r" using that m by (simp add: in_set_map_of)
    then have "(i, r) \<in> set (rowsForRun L run)" by (rule map_of_SomeD)
    then show ?thesis using g by (auto simp: group_ok_def)
  qed
  moreover have "?g \<noteq> []" by (metis map_of_eq_None_iff map_of_update_iff map_of.simps(1) option.distinct(1))
  ultimately have "group_ok run ?g" using m by (auto simp: group_ok_def)
  moreover have mr: "map_ok (AList.update run ?g (run_rows L))"
    using assms(1) by (intro AList_map_ok_update) (simp add: ledger_ok_def)
  moreover have "group_ok r rs" if "(r, rs) \<in> set (AList.update run ?g (run_rows L))" "r \<noteq> run" for r rs
  proof -
    have "map_of (run_rows L) r = Some rs" using that mr by (simp add: in_set_map_of)
    then have "(r, rs) \<in> set (run_rows L)" by (rule map_of_SomeD)
    then show ?thesis using assms(1) by (auto simp: ledger_ok_def)
  qed
  moreover have "rs = ?g" if "(run, rs) \<in> set (AList.update run ?g (run_rows L))" for rs
    using that mr by (simp add: in_set_map_of)
  ultimately show ?thesis
    using assms(1) unfolding ledger_ok_def set_row_def by fastforce
qed

lemma fresh_row_ok:
  assumes "checkReservation inp = Some rv" and "live_clock now"
  shows "row_ok (fresh_row now rv)"
  using checkReservation_Some [OF assms(1)] assms(2)
  by (simp add: row_ok_def fresh_row_def live_clock_def counter_def max_safe_integer_def)

lemma settled_row_ok:
  assumes "row_ok row" and "row_state row = Reserved" and "live_clock now"
    and "(checkActual a = Some u \<and> row' = committed_row now u row) \<or>
      row' = row\<lparr>row_state := Refunded, row_settledAtMs := now\<rparr>"
  shows "row_ok row' \<and> row_reservationId row' = row_reservationId row \<and> row_runId row' = row_runId row"
  using assms(4)
proof
  assume c: "checkActual a = Some u \<and> row' = committed_row now u row"
  with checkActual_Some [of a u] show ?thesis
    using assms(1-3) by (auto simp: row_ok_def committed_row_def live_clock_def)
next
  assume "row' = row\<lparr>row_state := Refunded, row_settledAtMs := now\<rparr>"
  then show ?thesis using assms(1-3) by (auto simp: row_ok_def live_clock_def)
qed

lemma generationFor_pos: "ledger_ok L \<Longrightarrow> 1 \<le> generationFor L r"
  by (auto simp: ledger_ok_def generationFor_def split: option.split dest: map_of_SomeD)

lemma generations_ok:
  assumes "ledger_ok L" and "id_form run 128" and "1 \<le> g"
  shows "ledger_ok (L\<lparr>generations := AList.update run g (generations L)\<rparr>)"
proof -
  have m: "map_ok (AList.update run g (generations L))"
    using assms(1) by (intro AList_map_ok_update) (simp add: ledger_ok_def)
  have "id_form r 128 \<and> 1 \<le> h" if "(r, h) \<in> set (AList.update run g (generations L))" for r h
  proof (cases "r = run")
    case True
    then show ?thesis using that m assms(2,3) by (simp add: in_set_map_of)
  next
    case False
    then have "map_of (generations L) r = Some h" using that m by (simp add: in_set_map_of)
    then have "(r, h) \<in> set (generations L)" by (rule map_of_SomeD)
    then show ?thesis using assms(1) by (auto simp: ledger_ok_def)
  qed
  with m show ?thesis using assms(1) by (auto simp: ledger_ok_def)
qed

lemma changes_ok:
  assumes "changes L L'" and "ledger_ok L"
  shows "ledger_ok L'"
  using assms
proof (cases rule: changes.cases)
  case (booked inp rv now)
  then show ?thesis using assms(2) fresh_row_ok [of inp rv now]
    by (auto intro!: set_row_ok simp: fresh_row_def)
next
  case (settled run rid row now a u row')
  note row = row_of_ok [OF assms(2) settled(2)]
  have "row_ok row' \<and> row_reservationId row' = row_reservationId row \<and> row_runId row' = row_runId row"
    using row settled by (intro settled_row_ok [of row now a u row']) auto
  then show ?thesis using assms(2) row settled(1) by (auto intro!: set_row_ok)
next
  case (bumped run)
  then show ?thesis
    using generations_ok [OF assms(2) run_id_form [of run]] generationFor_pos [OF assms(2), of run]
    by simp
qed (use assms in simp)

section \<open>Restarts\<close>

definition generations_safe :: "ledger \<Rightarrow> bool" where
  "generations_safe L \<longleftrightarrow> (\<forall>(run, g) \<in> set (generations L). g \<le> max_safe_integer)"

lemma update_new: "map_of m k = None \<Longrightarrow> AList.update k v m = m @ [(k, v)]"
  by (induction m) (auto split: if_splits)

lemma seed_generations_js:
  assumes "\<forall>(run, g) \<in> set gs. id_form run 128 \<and> 1 \<le> g" and "map_ok (acc @ gs)"
  shows "seed_generations (map generation_js gs) acc =
    (if \<forall>(run, g) \<in> set gs. g \<le> max_safe_integer then Inr (acc @ gs) else Inl Ledger_refused)"
  using assms
proof (induction gs arbitrary: acc)
  case Nil
  then show ?case by simp
next
  case (Cons e gs)
  obtain run g where e: "e = (run, g)" by fastforce
  have id: "ledger_identifier (JStr run) 128 = Some run"
    using Cons.prems(1) e by (simp add: parsed)
  have new: "map_of acc run = None"
    using Cons.prems(2) e by (auto simp: map_of_eq_None_iff)
  show ?case
  proof (cases "g \<le> max_safe_integer")
    case True
    then have "positive_integer (js_int g) = Some g"
      using Cons.prems(1) e by (auto simp: parsed counter_def)
    then have "validateBudgetRunGeneration (generation_js e) = Some (run, g)"
      using id e by (simp add: validateBudgetRunGeneration_def generation_js_def)
    moreover have "seed_generations (map generation_js gs) (acc @ [(run, g)]) =
      (if \<forall>(run, g) \<in> set gs. g \<le> max_safe_integer then Inr ((acc @ [(run, g)]) @ gs)
       else Inl Ledger_refused)"
      using Cons.prems e by (intro Cons.IH) auto
    ultimately show ?thesis using True e new by (simp add: update_new)
  next
    case False
    then have "positive_integer (js_int g) = None"
      by (cases "positive_integer (js_int g)") (auto simp: parsed counter_def)
    then have "validateBudgetRunGeneration (generation_js e) = None"
      using id e by (simp add: validateBudgetRunGeneration_def generation_js_def)
    then show ?thesis using False e by auto
  qed
qed

lemma seed_row_lookup:
  "row_of (seed_row row L) r i =
    (if r = row_runId row \<and> i = row_reservationId row then Some row else row_of L r i)"
  "run_rows (seed_row row L) = run_rows (set_row (row_runId row) (row_reservationId row) row L)"
  "caps (seed_row row L) = caps L"
  by (simp_all add: seed_row_def Let_def split: option.split)

lemma seed_rows_js:
  assumes "\<forall>row \<in> set xs. row_ok row"
    and "distinct (map (\<lambda>row. (row_runId row, row_reservationId row)) xs)"
    and "\<forall>row \<in> set xs. row_of L (row_runId row) (row_reservationId row) = None"
  shows "seed_rows (map row_js xs) L = Inr (fold seed_row xs L)"
  using assms
proof (induction xs arbitrary: L)
  case (Cons row xs)
  have "seed_rows (map row_js xs) (seed_row row L) = Inr (fold seed_row xs (seed_row row L))"
    using Cons.prems by (intro Cons.IH) (auto simp: seed_row_lookup(1) image_iff)
  then show ?case using Cons.prems by (simp add: validate_row_js)
qed simp

definition stored :: "budget_row \<Rightarrow> (string \<times> (string \<times> budget_row) list) list \<Rightarrow>
    (string \<times> (string \<times> budget_row) list) list" where
  "stored row gs = AList.update (row_runId row) (AList.update (row_reservationId row) row
     (case map_of gs (row_runId row) of None \<Rightarrow> [] | Some rs \<Rightarrow> rs)) gs"

lemma seed_row_rows: "run_rows (fold seed_row xs L) = fold stored xs (run_rows L)"
  by (induction xs arbitrary: L)
    (auto simp: seed_row_lookup(2) set_row_def stored_def rowsForRun_def)

lemma update_last: "map_of m k = None \<Longrightarrow> AList.update k v (m @ [(k, w)]) = m @ [(k, v)]"
  by (induction m) (auto split: if_splits)

lemma stored_group:
  assumes "\<forall>(rid, row) \<in> set rs. row_reservationId row = rid \<and> row_runId row = run"
    and "map_of gs run = None" and "map_ok (ps @ rs)" and "ps \<noteq> []"
  shows "fold stored (map snd rs) (gs @ [(run, ps)]) = gs @ [(run, ps @ rs)]"
  using assms
proof (induction rs arbitrary: ps)
  case (Cons e rs)
  obtain rid row where e: "e = (rid, row)" by fastforce
  have r: "row_reservationId row = rid" "row_runId row = run" using Cons.prems(1) e by auto
  have new: "map_of ps rid = None" using Cons.prems(3) e by (auto simp: map_of_eq_None_iff)
  have "stored row (gs @ [(run, ps)]) = gs @ [(run, ps @ [e])]"
    using Cons.prems(2) r e new
    by (simp add: stored_def map_add_def update_last update_new)
  moreover have "fold stored (map snd rs) (gs @ [(run, ps @ [e])]) = gs @ [(run, (ps @ [e]) @ rs)]"
    using Cons.prems by (intro Cons.IH) auto
  ultimately show ?case by (simp add: e)
qed simp

lemma stored_all:
  assumes "\<forall>(run, rs) \<in> set hs. group_ok run rs" and "map_ok (gs @ hs)"
  shows "fold stored (concat (map (\<lambda>(run, rs). map snd rs) hs)) gs = gs @ hs"
  using assms
proof (induction hs arbitrary: gs)
  case (Cons h hs)
  obtain run rs where h: "h = (run, rs)" by fastforce
  then have g: "group_ok run rs" using Cons.prems(1) by auto
  then obtain rid row rest where rs: "rs = (rid, row) # rest"
    by (cases rs) (auto simp: group_ok_def)
  have r: "row_reservationId row = rid" "row_runId row = run" using g rs by (auto simp: group_ok_def)
  have new: "map_of gs run = None" using Cons.prems(2) h by (auto simp: map_of_eq_None_iff)
  have "stored row gs = gs @ [(run, [(rid, row)])]"
    using r new by (simp add: stored_def update_new)
  moreover have "fold stored (map snd rest) (gs @ [(run, [(rid, row)])]) =
      gs @ [(run, [(rid, row)] @ rest)]"
    using g rs new by (intro stored_group) (auto simp: group_ok_def)
  ultimately have "fold stored (map snd rs) gs = gs @ [(run, rs)]" by (simp add: rs)
  moreover have "fold stored (concat (map (\<lambda>(run, rs). map snd rs) hs)) (gs @ [(run, rs)]) =
      (gs @ [(run, rs)]) @ hs"
    using Cons.prems h by (intro Cons.IH) auto
  ultimately show ?case by (simp add: h)
qed simp

lemma rows_in: "ledger_ok L \<Longrightarrow> row \<in> set (rows L) \<longleftrightarrow>
    row_of L (row_runId row) (row_reservationId row) = Some row"
proof
  assume ok: "ledger_ok L" and "row \<in> set (rows L)"
  then obtain run rs rid where m: "(run, rs) \<in> set (run_rows L)" "(rid, row) \<in> set rs"
    by (auto simp: rows_def)
  then have g: "group_ok run rs" "map_of (run_rows L) run = Some rs"
    using ok by (auto simp: ledger_ok_def)
  then have "row_runId row = run" "row_reservationId row = rid" "map_of rs rid = Some row"
    using m(2) by (auto simp: group_ok_def)
  then show "row_of L (row_runId row) (row_reservationId row) = Some row"
    using g by (simp add: row_of_def rowsForRun_def)
next
  assume ok: "ledger_ok L" and "row_of L (row_runId row) (row_reservationId row) = Some row"
  then obtain rs where "map_of (run_rows L) (row_runId row) = Some rs"
    "map_of rs (row_reservationId row) = Some row"
    by (auto simp: row_of_def rowsForRun_def split: option.splits)
  then show "row \<in> set (rows L)"
    by (force simp: rows_def dest: map_of_SomeD)
qed

lemma distinct_pairs:
  assumes "\<forall>(run, rs) \<in> set gs. group_ok run rs" and "map_ok gs"
  shows "distinct (map (\<lambda>row. (row_runId row, row_reservationId row))
    (concat (map (\<lambda>(run, rs). map snd rs) gs)))"
  using assms
proof (induction gs)
  case (Cons h gs)
  obtain run rs where h: "h = (run, rs)" by fastforce
  then have g: "group_ok run rs" using Cons.prems by auto
  let ?key = "\<lambda>row. (row_runId row, row_reservationId row)"
  let ?rest = "concat (map (\<lambda>(run, rs). map snd rs) gs)"
  have keys: "map ?key (map snd rs) = map (Pair run) (map fst rs)"
    using g by (auto simp: group_ok_def)
  have "distinct (map ?key (map snd rs))"
    unfolding keys using g by (simp add: group_ok_def distinct_map inj_on_def)
  moreover have "row_runId row \<noteq> run" if member: "row \<in> set ?rest" for row
  proof -
    obtain r qs i where q: "(r, qs) \<in> set gs" "(i, row) \<in> set qs" using member by auto
    then have "row_runId row = r" using Cons.prems(1) by (auto simp: group_ok_def)
    moreover have "r \<noteq> run" using Cons.prems(2) h q(1) by (auto simp: image_iff)
    ultimately show ?thesis by simp
  qed
  then have "set (map ?key (map snd rs)) \<inter> set (map ?key ?rest) = {}"
    unfolding keys by auto
  moreover have "distinct (map ?key ?rest)" using Cons by simp
  moreover have "concat (map (\<lambda>(run, rs). map snd rs) (h # gs)) = map snd rs @ ?rest"
    by (simp add: h)
  ultimately show ?case by (simp only: map_append distinct_append)
qed simp

lemma restart_run:
  assumes "ledger_ok L"
  shows "new_ledger (limits_js (caps L)) (durableState L) =
    (if generations_safe L then Inr (fold seed_row (rows L) (L\<lparr>run_rows := []\<rparr>)) else Inl Ledger_refused)"
proof -
  have gs: "seed_generations (map generation_js (generations L)) [] =
      (if generations_safe L then Inr (generations L) else Inl Ledger_refused)"
    using assms seed_generations_js [of "generations L" "[]"]
    by (simp add: ledger_ok_def generations_safe_def)
  have "(empty_ledger (caps L))\<lparr>generations := generations L\<rparr> = L\<lparr>run_rows := []\<rparr>"
    by (simp add: empty_ledger_def)
  moreover have "\<forall>row \<in> set (rows L). row_ok row"
    using assms rows_in [OF assms] row_of_ok [OF assms] by blast
  then have "seed_rows (map row_js (rows L)) (L\<lparr>run_rows := []\<rparr>) =
      Inr (fold seed_row (rows L) (L\<lparr>run_rows := []\<rparr>))"
    using assms distinct_pairs [of "run_rows L"]
    by (intro seed_rows_js) (auto simp: ledger_ok_def rows_def row_of_def rowsForRun_def)
  moreover have "validateBudgetLimits (limits_js (caps L)) = Inr (caps L)"
    using assms by (simp add: ledger_ok_def)
  ultimately show ?thesis
    by (simp add: new_ledger_def durableState_def gs)
qed

lemma restarted_rows:
  assumes "ledger_ok L"
  shows "run_rows (fold seed_row (rows L) (L\<lparr>run_rows := []\<rparr>)) = run_rows L"
  using assms stored_all [of "run_rows L" "[]"]
  by (simp add: seed_row_rows ledger_ok_def rows_def)

lemma seed_row_generation:
  assumes "1 \<le> row_generation row"
  shows "generationFor (seed_row row L) r =
    (if r = row_runId row then max (generationFor L r) (row_generation row) else generationFor L r)"
  using assms
  by (auto simp: seed_row_def Let_def generationFor_def split: option.split)

lemma seeded_generation:
  assumes "\<forall>row \<in> set xs. 1 \<le> row_generation row"
  shows "generationFor (fold seed_row xs L) r =
    Max (insert (generationFor L r) (row_generation ` {row \<in> set xs. row_runId row = r}))"
  using assms
proof (induction xs arbitrary: L)
  case (Cons row xs)
  let ?S = "row_generation ` {row \<in> set xs. row_runId row = r}"
  have fin: "finite ?S" by simp
  have "row_generation ` {x \<in> set (row # xs). row_runId x = r} =
      (if row_runId row = r then insert (row_generation row) ?S else ?S)"
    by auto
  moreover have "Max (insert (max a b) S) = Max (insert a (insert b S))" if "finite S" for a b :: int and S
    using that by (cases "S = {}") (auto simp: Max_insert2 max.assoc)
  ultimately show ?case
    using Cons fin by (auto simp: seed_row_generation)
qed simp

lemma seeded_caps: "caps (fold seed_row xs L) = caps L"
  by (induction xs arbitrary: L) (simp_all add: seed_row_lookup(3))

lemma row_pos: "ledger_ok L \<Longrightarrow> row \<in> set (rows L) \<Longrightarrow> 1 \<le> row_generation row"
  using rows_in row_of_ok unfolding row_ok_def by blast

lemma restarted_generation:
  assumes "ledger_ok L"
  shows "generationFor (fold seed_row (rows L) (L\<lparr>run_rows := []\<rparr>)) r =
    Max (insert (generationFor L r) (row_generation ` {row \<in> set (rows L). row_runId row = r}))"
  using seeded_generation [of "rows L" "L\<lparr>run_rows := []\<rparr>" r] row_pos [OF assms]
  by (simp add: generationFor_def)

lemma seed_row_generations_ok:
  assumes "map_ok (generations L)" "\<forall>(run, g) \<in> set (generations L). id_form run 128 \<and> 1 \<le> g"
    and "row_ok row"
  shows "map_ok (generations (seed_row row L)) \<and>
    (\<forall>(run, g) \<in> set (generations (seed_row row L)). id_form run 128 \<and> 1 \<le> g)"
proof -
  have "map_ok (AList.update (row_runId row) (row_generation row) (generations L))"
    using assms(1) by (rule AList_map_ok_update)
  moreover have "id_form run 128 \<and> 1 \<le> g"
    if "(run, g) \<in> set (AList.update (row_runId row) (row_generation row) (generations L))" for run g
    using that assms(2,3) update_Some_unfold [of "row_runId row" "row_generation row" "generations L"]
      calculation
    by (cases "run = row_runId row") (auto simp: in_set_map_of row_ok_def dest: map_of_SomeD)
  ultimately show ?thesis
    using assms(1,2) by (auto simp: seed_row_def Let_def split: option.split)
qed

lemma restart_ok:
  assumes "ledger_ok L" and "new_ledger (limits_js (caps L)) (durableState L) = Inr L'"
  shows "ledger_ok L' \<and> run_rows L' = run_rows L \<and> caps L' = caps L \<and>
    (\<forall>r. generationFor L' r =
      Max (insert (generationFor L r) (row_generation ` {row \<in> set (rows L). row_runId row = r})))"
proof -
  have L': "L' = fold seed_row (rows L) (L\<lparr>run_rows := []\<rparr>)"
    using restart_run [OF assms(1)] assms(2) by (simp split: if_splits)
  have seeded: "map_ok (generations (fold seed_row xs M)) \<and>
      (\<forall>(run, g) \<in> set (generations (fold seed_row xs M)). id_form run 128 \<and> 1 \<le> g)"
    if "\<forall>row \<in> set xs. row_ok row" "map_ok (generations M)"
      "\<forall>(run, g) \<in> set (generations M). id_form run 128 \<and> 1 \<le> g" for xs M
    using that
  proof (induction xs arbitrary: M)
    case (Cons row xs)
    have "map_ok (generations (seed_row row M)) \<and>
        (\<forall>(run, g) \<in> set (generations (seed_row row M)). id_form run 128 \<and> 1 \<le> g)"
      using Cons.prems by (intro seed_row_generations_ok) simp_all
    with Cons.prems(1) show ?case unfolding fold_simps by (intro Cons.IH) simp_all
  qed simp
  have "\<forall>row \<in> set (rows L). row_ok row"
    using rows_in [OF assms(1)] row_of_ok [OF assms(1)] by blast
  then have "map_ok (generations L') \<and>
      (\<forall>(run, g) \<in> set (generations L'). id_form run 128 \<and> 1 \<le> g)"
    unfolding L' by (rule seeded) (use assms(1) in \<open>simp_all add: ledger_ok_def\<close>)
  then show ?thesis
    using assms(1) restarted_rows [OF assms(1)] restarted_generation [OF assms(1)] seeded_caps
    by (simp add: L' ledger_ok_def)
qed

section \<open>The life of a ledger\<close>

lemma caps_valid_start: "validateBudgetLimits v = Inr c \<Longrightarrow> ledger_ok (empty_ledger c)"
  by (auto simp: ledger_ok_def empty_ledger_def validateBudgetLimits_def limit_amount_def limits_js_def
      parsed isSafeNonNegativeInteger_js_int split: jsval.splits option.splits if_splits)

lemma step_cases:
  assumes "ledger_step L L'" and "ledger_ok L"
  obtains (changed) "changes L L'"
  | (restarted) "run_rows L' = run_rows L" "caps L' = caps L"
      "\<And>r. generationFor L r \<le> generationFor L' r" "ledger_ok L'"
  using assms(1)
proof (cases rule: ledger_step.cases)
  case (operate op)
  then show thesis using perform_changes [of op L] changed by simp
next
  case restart
  note r = restart_ok [OF assms(2) restart]
  have "generationFor L x \<le> generationFor L' x" for x
    using r by (auto intro: Max_ge)
  then show thesis using r restarted by blast
qed

lemma step_ok: "ledger_step L L' \<Longrightarrow> ledger_ok L \<Longrightarrow> ledger_ok L'"
  by (erule step_cases) (auto intro: changes_ok)

lemma lives_ok: "lives L L' \<Longrightarrow> ledger_ok L \<Longrightarrow> ledger_ok L'"
  by (induction rule: rtranclp_induct) (auto intro: step_ok)

lemma changes_caps: "changes L L' \<Longrightarrow> caps L' = caps L"
  by (cases rule: changes.cases) auto

lemma lives_caps:
  assumes "lives L L'" and "ledger_ok L"
  shows "caps L' = caps L"
  using assms(1)
proof (induction rule: rtranclp_induct)
  case (step M N)
  then have "ledger_ok M" using lives_ok assms(2) by blast
  from step(2) this have "caps N = caps M" by (cases rule: step_cases) (auto dest: changes_caps)
  with step show ?case by simp
qed simp

text \<open>The amount by which a committed row exceeds its reservation, and what is left of its charge:
  this part never exceeds the estimate it was admitted with.\<close>

definition overrun :: "budget_row \<Rightarrow> usage" where
  "overrun row =
     (if row_state row = Committed
      then Usage (row_actualRequestCount row - 1)
        (max 0 (row_actualTokens row - row_estimatedTokens row))
        (max 0 (row_actualCostMicros row - row_estimatedCostMicros row))
      else 0)"

definition covered :: "budget_row \<Rightarrow> usage" where
  "covered row = charge row - overrun row"

lemma group_sum_diff: "group_sum covered rs = group_sum charge rs - group_sum overrun rs"
  by (induction rs) (auto simp: group_sum_def covered_def algebra_simps)

lemma covered_le:
  assumes "row_ok row"
  shows "0 \<le> covered row \<and> covered row \<le> estimate row \<and> 0 \<le> overrun row"
  using assms
  by (cases "row_state row")
    (auto simp: covered_def charge_def overrun_def estimate_def usage_simps row_ok_def counter_def)

definition cap_usage :: "budget_limits \<Rightarrow> usage" where
  "cap_usage c = Usage (maxRequests c) (maxTokens c) (maxCostMicros c)"

definition bounded :: "ledger \<Rightarrow> bool" where
  "bounded L \<longleftrightarrow> (\<forall>r. group_sum covered (rowsForRun L r) \<le> cap_usage (caps L))"

lemma covered_le_charge:
  assumes "ledger_ok L"
  shows "group_sum covered (rowsForRun L r) \<le> usageFor L r"
proof -
  have rows: "\<forall>row \<in> snd ` set (rowsForRun L r). row_ok row"
    using group_of_run [OF assms, of r] by (auto simp: group_ok_def)
  have "0 \<le> group_sum overrun rs" if "\<forall>row \<in> snd ` set rs. row_ok row" for rs
    using that covered_le
    by (induction rs) (auto simp: group_sum_def intro!: add_nonneg_nonneg)
  from this [OF rows] show ?thesis
    using assms by (simp add: group_sum_diff usageFor_group ledger_ok_def)
qed

lemma changes_bounded:
  assumes "changes L L'" and "ledger_ok L" and "bounded L"
  shows "bounded L'"
  using assms(1)
proof (cases rule: changes.cases)
  case same
  with assms(3) show ?thesis by simp
next
  case (booked inp rv now)
  let ?run = "rv_runId rv" and ?row = "fresh_row now rv"
  have "row_ok ?row" by (rule fresh_row_ok [OF booked(2,6)])
  then have w: "covered ?row \<le> estimate ?row" using covered_le by blast
  have "group_sum covered (AList.update (rv_reservationId rv) ?row (rowsForRun L ?run)) =
      group_sum covered (rowsForRun L ?run) + covered ?row"
    using booked(3) by (intro group_sum_fresh) (simp add: row_of_def)
  also have "\<dots> \<le> usageFor L ?run + estimate ?row"
    using covered_le_charge [OF assms(2)] w by (rule add_mono)
  also have "\<dots> \<le> cap_usage (caps L)" using booked(5) by (simp add: cap_usage_def)
  finally show ?thesis using assms(3) by (simp add: bounded_def booked(1))
next
  case (settled run rid row now a u row')
  have ok: "row_ok row" using row_of_ok [OF assms(2) settled(2)] by blast
  have "row_ok row'" using settled_row_ok [OF ok settled(3,4,5)] by blast
  moreover have "estimate row' = estimate row"
    using settled(5) by (auto simp: estimate_def committed_row_def)
  ultimately have "covered row' \<le> estimate row" using covered_le [of row'] by simp
  moreover have "covered row = estimate row"
    using settled(3) by (simp add: covered_def charge_def overrun_def)
  moreover have "group_sum covered (AList.update rid row' (rowsForRun L run)) =
      group_sum covered (rowsForRun L run) - covered row + covered row'"
    using settled(2) by (intro group_sum_present) (simp add: row_of_def)
  ultimately have "group_sum covered (AList.update rid row' (rowsForRun L run)) \<le>
      group_sum covered (rowsForRun L run)"
    using diff_add_cancel [of "group_sum covered (rowsForRun L run)" "estimate row"]
      add_left_mono [of "covered row'" "estimate row" "group_sum covered (rowsForRun L run) - estimate row"]
    by simp
  also have "\<dots> \<le> cap_usage (caps L)" using assms(3) by (simp add: bounded_def)
  finally show ?thesis using assms(3) by (simp add: bounded_def settled(1))
next
  case (bumped run)
  with assms(3) show ?thesis by (simp add: bounded_def)
qed

lemma rows_eq_bounded: "run_rows L' = run_rows L \<Longrightarrow> caps L' = caps L \<Longrightarrow> bounded L \<Longrightarrow> bounded L'"
  by (simp add: bounded_def rowsForRun_def)

lemma lives_bounded:
  assumes "lives L L'" and "ledger_ok L" and "bounded L"
  shows "bounded L'"
  using assms(1)
proof (induction rule: rtranclp_induct)
  case base
  show ?case by (rule assms(3))
next
  case (step M N)
  have ok: "ledger_ok M" by (rule lives_ok [OF step(1) assms(2)])
  with step(2) show ?case
    by (cases rule: step_cases) (use step(3) ok in \<open>auto intro: changes_bounded rows_eq_bounded\<close>)
qed

lemma empty_bounded: "ledger_ok (empty_ledger c) \<Longrightarrow> bounded (empty_ledger c)"
proof -
  assume "ledger_ok (empty_ledger c)"
  then have "0 \<le> cap_usage c"
    by (auto simp: ledger_ok_def empty_ledger_def validateBudgetLimits_def limit_amount_def parsed
        counter_def cap_usage_def usage_simps limits_js_def split: option.splits if_splits)
  then show ?thesis
    by (simp add: bounded_def empty_ledger_def rowsForRun_def group_sum_def)
qed

text \<open>Rows only move forward: a row keeps its identity, estimate and reservation time, and once
  settled it never changes.\<close>

definition row_forward :: "budget_row \<Rightarrow> budget_row \<Rightarrow> bool" where
  "row_forward row row' \<longleftrightarrow>
     row_reservationId row' = row_reservationId row \<and> row_runId row' = row_runId row \<and>
     row_generation row' = row_generation row \<and> row_modelProfile row' = row_modelProfile row \<and>
     estimate row' = estimate row \<and> row_reservedAtMs row' = row_reservedAtMs row \<and>
     (row_state row \<noteq> Reserved \<longrightarrow> row' = row)"

lemma row_forward_refl: "row_forward row row"
  by (simp add: row_forward_def)

lemma row_forward_trans: "row_forward a b \<Longrightarrow> row_forward b c \<Longrightarrow> row_forward a c"
  by (auto simp: row_forward_def)

definition ledger_forward :: "ledger \<Rightarrow> ledger \<Rightarrow> bool" where
  "ledger_forward L L' \<longleftrightarrow>
     (\<forall>r i row. row_of L r i = Some row \<longrightarrow> (\<exists>row'. row_of L' r i = Some row' \<and> row_forward row row')) \<and>
     (\<forall>r. generationFor L r \<le> generationFor L' r) \<and>
     (\<forall>r i row'. row_of L r i = None \<longrightarrow> row_of L' r i = Some row' \<longrightarrow>
        generationFor L r \<le> row_generation row')"

lemma ledger_forward_refl: "ledger_forward L L"
  by (auto simp: ledger_forward_def row_forward_refl)

lemma ledger_forward_trans:
  assumes "ledger_forward L M" and "ledger_forward M N"
  shows "ledger_forward L N"
proof -
  have "\<exists>row'. row_of N r i = Some row' \<and> row_forward row row'" if "row_of L r i = Some row" for r i row
    using that assms unfolding ledger_forward_def by (meson row_forward_trans)
  moreover have "generationFor L r \<le> generationFor N r" for r
    using assms unfolding ledger_forward_def by (meson order_trans)
  moreover have "generationFor L r \<le> row_generation row'"
    if "row_of L r i = None" "row_of N r i = Some row'" for r i row'
  proof (cases "row_of M r i")
    case None
    then have "generationFor M r \<le> row_generation row'"
      using that assms(2) unfolding ledger_forward_def by blast
    moreover have "generationFor L r \<le> generationFor M r"
      using assms(1) unfolding ledger_forward_def by blast
    ultimately show ?thesis by simp
  next
    case (Some row)
    then have "generationFor L r \<le> row_generation row"
      using that(1) assms(1) unfolding ledger_forward_def by blast
    moreover have "row_generation row' = row_generation row"
      using Some that(2) assms(2) unfolding ledger_forward_def row_forward_def
      by (metis option.inject)
    ultimately show ?thesis by simp
  qed
  ultimately show ?thesis unfolding ledger_forward_def by blast
qed

lemma changes_forward:
  assumes "changes L L'" and "ledger_ok L"
  shows "ledger_forward L L'"
  using assms(1)
proof (cases rule: changes.cases)
  case same
  then show ?thesis by (simp add: ledger_forward_refl)
next
  case (booked inp rv now)
  then show ?thesis by (auto simp: ledger_forward_def row_forward_refl fresh_row_def)
next
  case (settled run rid row now a u row')
  have "row_forward row row'"
    using settled(3,5) by (auto simp: row_forward_def committed_row_def estimate_def)
  with settled(1,2) show ?thesis by (auto simp: ledger_forward_def row_forward_refl)
next
  case (bumped run)
  then show ?thesis by (auto simp: ledger_forward_def row_forward_refl generationFor_def)
qed

lemma lives_forward:
  assumes "lives L L'" and "ledger_ok L"
  shows "ledger_forward L L'"
  using assms(1)
proof (induction rule: rtranclp_induct)
  case base
  show ?case by (rule ledger_forward_refl)
next
  case (step M N)
  have "ledger_ok M" by (rule lives_ok [OF step(1) assms(2)])
  with step(2) have "ledger_forward M N"
  proof (cases rule: step_cases)
    case restarted
    then show ?thesis
      by (auto simp: ledger_forward_def row_of_def rowsForRun_def row_forward_refl)
  qed (auto intro: changes_forward \<open>ledger_ok M\<close>)
  with step(3) show ?case by (rule ledger_forward_trans)
qed

text \<open>The overrun flag of a row booked by this ledger tells the truth.\<close>

definition flag_true :: "budget_row \<Rightarrow> bool" where
  "flag_true row \<longleftrightarrow> row_overran row = (row_state row = Committed \<and>
     (row_actualTokens row > row_estimatedTokens row \<or>
      row_actualCostMicros row > row_estimatedCostMicros row))"

lemma changes_flags:
  assumes "changes L L'" and "\<forall>r i row. row_of L r i = Some row \<longrightarrow> flag_true row"
  shows "\<forall>r i row. row_of L' r i = Some row \<longrightarrow> flag_true row"
  using assms(1)
proof (cases rule: changes.cases)
  case (booked inp rv now)
  have "flag_true (fresh_row now rv)" by (simp add: flag_true_def fresh_row_def)
  with assms(2) show ?thesis by (auto simp: booked(1))
next
  case (settled run rid row now a u row')
  have "flag_true row" using assms(2) settled(2) by blast
  then have "flag_true row'"
    using settled(3,5) by (auto simp: flag_true_def committed_row_def)
  with assms(2) show ?thesis by (auto simp: settled(1))
qed (use assms(2) in simp_all)

lemma lives_flags:
  assumes "lives L L'" and "ledger_ok L" and "\<forall>r i row. row_of L r i = Some row \<longrightarrow> flag_true row"
  shows "\<forall>r i row. row_of L' r i = Some row \<longrightarrow> flag_true row"
  using assms(1)
proof (induction rule: rtranclp_induct)
  case base
  show ?case by (rule assms(3))
next
  case (step M N)
  have ok: "ledger_ok M" by (rule lives_ok [OF step(1) assms(2)])
  with step(2) show ?case
  proof (cases rule: step_cases)
    case changed
    then show ?thesis using changes_flags step(3) by blast
  next
    case restarted
    then show ?thesis using step(3) by (simp add: row_of_def rowsForRun_def)
  qed
qed

lemma empty_rows [simp]: "row_of (empty_ledger c) r i = None"
  by (simp add: row_of_def rowsForRun_def empty_ledger_def)

lemma group_rows: "ledger_ok L \<Longrightarrow> row \<in> snd ` set (rowsForRun L r) \<Longrightarrow>
    row_of L r (row_reservationId row) = Some row"
  using group_of_run [of L r] by (auto simp: row_of_def group_ok_def)

lemma overrun_nonzero:
  "row_ok row \<Longrightarrow> (overrun row \<noteq> 0) = (row_state row = Committed \<and>
     (row_actualTokens row > row_estimatedTokens row \<or>
      row_actualCostMicros row > row_estimatedCostMicros row \<or> row_actualRequestCount row > 1))"
  by (auto simp: overrun_def row_ok_def usage_simps max_def)

section \<open>Properties\<close>

definition sample_limits :: jsval where
  "sample_limits = JObj [(''maxRequests'', js_int 2), (''maxTokens'', js_int 100),
     (''maxCostMicros'', js_int 50)]"

definition sample_caps :: budget_limits where
  "sample_caps = \<lparr>maxRequests = 2, maxTokens = 100, maxCostMicros = 50\<rparr>"

definition sample_input :: "string \<Rightarrow> int \<Rightarrow> reservation_input" where
  "sample_input rid g = \<lparr>ri_reservationId = JStr rid, ri_runId = JStr ''run1'',
     ri_generation = js_int g, ri_modelProfile = JStr ''fast'', ri_estimatedTokens = js_int 60,
     ri_estimatedCostMicros = js_int 20\<rparr>"

definition sample_row :: budget_row where
  "sample_row = fresh_row 7 \<lparr>rv_reservationId = ''c1'', rv_runId = ''run1'', rv_generation = 1,
     rv_modelProfile = ''fast'', rv_estimatedTokens = 60, rv_estimatedCostMicros = 20\<rparr>"

definition sample_ledger :: ledger where
  "sample_ledger = set_row ''run1'' ''c1'' sample_row (empty_ledger sample_caps)"

lemma js_int_check: "isSafeNonNegativeInteger (js_int i) = Some i" if "0 \<le> i" "i \<le> 1000"
  using that by (simp add: isSafeNonNegativeInteger_js_int counter_def max_safe_integer_def)

lemma sample_limits_valid: "validateBudgetLimits sample_limits = Inr sample_caps"
  by (simp add: validateBudgetLimits_def sample_limits_def sample_caps_def limit_amount_def
      js_int_check max_budget_limit_def)

lemma plain_id: "ledger_identifier (JStr s) n = Some s"
  if "s \<noteq> ''''" "length s \<le> n" "list_all is_alnum s"
proof -
  have plain: "\<not> js_space x \<and> \<not> control_char x" if "x \<in> set s" for x
  proof -
    have "is_alnum x" using that \<open>list_all is_alnum s\<close> by (auto simp: list_all_iff)
    then show ?thesis by (auto simp: is_alnum_def js_space_def control_char_def)
  qed
  have "dropWhile js_space t = t" if "set t \<subseteq> set s" for t
    using that plain by (cases t) auto
  then have "js_trim s = s" by (simp add: js_trim_def)
  with that plain show ?thesis by (auto simp: ledger_identifier_def list_ex_iff)
qed

lemma sample_checked:
  "checkReservation (sample_input ''c1'' 1) = Some \<lparr>rv_reservationId = ''c1'', rv_runId = ''run1'',
     rv_generation = 1, rv_modelProfile = ''fast'', rv_estimatedTokens = 60,
     rv_estimatedCostMicros = 20\<rparr>"
  by (simp add: checkReservation_def sample_input_def plain_id js_int_check positive_integer_def require_that_def
      is_alnum_def run_id_char_def)

lemma sample_reserve:
  "reserve 7 (sample_input ''c1'' 1) (empty_ledger sample_caps) = (Inr sample_row, sample_ledger)"
  by (simp add: reserve_def sample_checked admit_def generationFor_def empty_ledger_def Let_def
      usageFor_def totals_def usage_simps sample_caps_def sample_row_def sample_ledger_def row_of_def
      rowsForRun_def)

lemma sample_clock: "live_clock 7"
  by (simp add: live_clock_def counter_def max_safe_integer_def)

lemma sample_lives: "lives (empty_ledger sample_caps) sample_ledger"
proof -
  have "snd (perform (Op_reserve 7 (sample_input ''c1'' 1)) (empty_ledger sample_caps)) = sample_ledger"
    by (simp add: sample_reserve)
  then have "ledger_step (empty_ledger sample_caps) sample_ledger"
    using ledger_step.operate [of "Op_reserve 7 (sample_input ''c1'' 1)" "empty_ledger sample_caps"]
      sample_clock by simp
  then show ?thesis by simp
qed

text \<open>C3: A run never silently exceeds its budget. Whatever sequence of reservations, settlements,
  refunds, cancellations and restarts a ledger goes through, the usage of each run stays within the
  caps plus the amounts by which committed rows exceeded what they were admitted with. A row is
  flagged as overrun exactly when it was committed with more tokens or more cost than it had
  reserved, and the rows that exceed their admission in any unit are exactly the flagged ones and
  those committed as several requests; while a run has none of these its usage is within the caps.\<close>

theorem budget_never_exceeded:
  assumes "validateBudgetLimits v = Inr c" and "lives (empty_ledger c) L"
  shows "usageFor L run \<le> cap_usage c + group_sum overrun (rowsForRun L run) \<and>
    (\<forall>row \<in> snd ` set (rowsForRun L run).
      row_overran row = (row_state row = Committed \<and>
        (row_actualTokens row > row_estimatedTokens row \<or>
         row_actualCostMicros row > row_estimatedCostMicros row)) \<and>
      (overrun row \<noteq> 0) = (row_overran row \<or>
        row_state row = Committed \<and> row_actualRequestCount row > 1)) \<and>
    ((\<forall>row \<in> snd ` set (rowsForRun L run). \<not> row_overran row \<and>
        \<not> (row_state row = Committed \<and> row_actualRequestCount row > 1)) \<longrightarrow>
      usageFor L run \<le> cap_usage c)"
proof -
  note start = caps_valid_start [OF assms(1)]
  note ok = lives_ok [OF assms(2) start]
  have "group_sum covered (rowsForRun L run) \<le> cap_usage c"
    using lives_bounded [OF assms(2) start empty_bounded [OF start]] lives_caps [OF assms(2) start]
    by (simp add: bounded_def empty_ledger_def)
  then have *: "usageFor L run \<le> cap_usage c + group_sum overrun (rowsForRun L run)"
    using ok by (simp add: group_sum_diff usageFor_group ledger_ok_def diff_le_eq)
  have rows: "flag_true row \<and> row_ok row" if "row \<in> snd ` set (rowsForRun L run)" for row
  proof -
    have r: "row_of L run (row_reservationId row) = Some row" by (rule group_rows [OF ok that])
    then show ?thesis using lives_flags [OF assms(2) start] row_of_ok [OF ok r] by simp
  qed
  have flags: "row_overran row = (row_state row = Committed \<and>
        (row_actualTokens row > row_estimatedTokens row \<or>
         row_actualCostMicros row > row_estimatedCostMicros row)) \<and>
      (overrun row \<noteq> 0) = (row_overran row \<or>
        row_state row = Committed \<and> row_actualRequestCount row > 1)"
    if "row \<in> snd ` set (rowsForRun L run)" for row
    using rows [OF that] by (auto simp: overrun_nonzero flag_true_def row_ok_def)
  have "group_sum overrun (rowsForRun L run) = 0"
    if none: "\<forall>row \<in> snd ` set (rowsForRun L run). \<not> row_overran row \<and>
        \<not> (row_state row = Committed \<and> row_actualRequestCount row > 1)"
  proof -
    have "\<forall>e \<in> set (rowsForRun L run). overrun (snd e) = 0" using none flags by auto
    then have "group_sum overrun (rowsForRun L run) = sum_list (map (\<lambda>_. 0) (rowsForRun L run))"
      unfolding group_sum_def by (intro arg_cong [of _ _ sum_list] map_cong) auto
    then show ?thesis by simp
  qed
  with * flags show ?thesis by auto
qed

theorem budget_never_exceeded_witness:
  "usageFor sample_ledger ''run1'' \<le> cap_usage sample_caps \<and> 60 = tokens (usageFor sample_ledger ''run1'')"
proof -
  have "\<forall>row \<in> snd ` set (rowsForRun sample_ledger ''run1'').
      \<not> row_overran row \<and>
      \<not> (row_state row = Committed \<and> row_actualRequestCount row > 1)"
    by (simp add: sample_ledger_def sample_row_def fresh_row_def rowsForRun_def set_row_def
        empty_ledger_def)
  then show ?thesis
    using budget_never_exceeded [OF sample_limits_valid sample_lives, of "''run1''"]
    by (simp add: usageFor_def totals_def sample_ledger_def set_row_def rowsForRun_def empty_ledger_def
        charge_def sample_row_def fresh_row_def estimate_def usage_simps)
qed

text \<open>A retry is never charged twice. Once a reservation is admitted, the same request, repeated at
  any later time, after any operations, settlements and restarts, returns the same row (with the
  same identity, estimate and reservation time, settled or not) and changes nothing; a row that was
  settled never changes again.\<close>

theorem replay_counted_once:
  assumes "validateBudgetLimits v = Inr c" and "lives (empty_ledger c) L"
    and "reserve now inp L = (Inr row, L1)" and "live_clock now" and "lives L1 L2"
  shows "\<exists>row'. reserve now' inp L2 = (Inr row', L2) \<and> row_forward row row'"
proof -
  note ok = lives_ok [OF assms(2) caps_valid_start [OF assms(1)]]
  obtain rv where rv: "checkReservation inp = Some rv"
    using assms(3) by (cases "checkReservation inp") (auto simp: reserve_def)
  have admit: "admit now rv L = (Inr row, L1)" using assms(3) rv by (simp add: reserve_def)
  then have r: "row_of L1 (rv_runId rv) (rv_reservationId rv) = Some row" "same_identity rv row"
    by (auto simp: admit_def Let_def same_identity_def fresh_row_def
        split: option.splits if_splits)
  have "snd (reserve now inp L) = L1" using assms(3) by simp
  then have "ledger_ok L1" using changes_ok [OF reserve_changes [OF assms(4), of L inp] ok] by simp
  then have "ledger_forward L1 L2" by (rule lives_forward [OF assms(5)])
  then obtain row' where row': "row_of L2 (rv_runId rv) (rv_reservationId rv) = Some row'"
    "row_forward row row'"
    using r(1) unfolding ledger_forward_def by blast
  have "same_identity rv row'"
    using r(2) row'(2) by (auto simp: same_identity_def row_forward_def estimate_def)
  then have "reserve now' inp L2 = (Inr row', L2)"
    using row'(1) rv by (simp add: reserve_def admit_def)
  with row'(2) show ?thesis by blast
qed

theorem replay_counted_once_witness:
  "\<exists>row'. reserve 99 (sample_input ''c1'' 1) (snd (refund 8 ''run1'' ''c1'' sample_ledger)) =
     (Inr row', snd (refund 8 ''run1'' ''c1'' sample_ledger)) \<and> row_forward sample_row row'"
proof -
  have "live_clock 8" by (simp add: live_clock_def counter_def max_safe_integer_def)
  then have "lives sample_ledger (snd (refund 8 ''run1'' ''c1'' sample_ledger))"
    using ledger_step.operate [of "Op_refund 8 ''run1'' ''c1''" sample_ledger] by auto
  then show ?thesis
    using replay_counted_once [OF sample_limits_valid rtranclp.rtrancl_refl sample_reserve sample_clock]
    by blast
qed

text \<open>Which run an operation addresses, and the results one run sees in a history.\<close>

fun op_run :: "budget_op \<Rightarrow> string option" where
  "op_run (Op_reserve now inp) = (case ri_runId inp of JStr r \<Rightarrow> Some r | _ \<Rightarrow> None)"
| "op_run (Op_commit now run rid a) = Some run"
| "op_run (Op_refund now run rid) = Some run"
| "op_run (Op_cancel run) = Some run"

fun results_of :: "string \<Rightarrow> budget_op list \<Rightarrow> ledger \<Rightarrow> op_result list" where
  "results_of r [] L = []"
| "results_of r (op # ops) L =
     (if op_run op = Some r then [fst (perform op L)] else []) @ results_of r ops (snd (perform op L))"

fun after_ops :: "budget_op list \<Rightarrow> ledger \<Rightarrow> ledger" where
  "after_ops [] L = L"
| "after_ops (op # ops) L = after_ops ops (snd (perform op L))"

definition same_view :: "string \<Rightarrow> ledger \<Rightarrow> ledger \<Rightarrow> bool" where
  "same_view r L M \<longleftrightarrow> map_ok (run_rows L) \<and> map_ok (run_rows M) \<and> caps L = caps M \<and>
     rowsForRun L r = rowsForRun M r \<and> generationFor L r = generationFor M r"

lemma same_view_row: "same_view r L M \<Longrightarrow> row_of L r i = row_of M r i"
  by (simp add: same_view_def row_of_def)

lemma same_view_usage: "same_view r L M \<Longrightarrow> usageFor L r = usageFor M r"
  by (simp add: same_view_def usageFor_group)

lemma same_view_set_row:
  "same_view r L M \<Longrightarrow> same_view r (set_row r i row L) (set_row r i row M)"
  using AList_map_ok_update unfolding same_view_def set_row_def
  by (fastforce simp: rowsForRun_def generationFor_def)

lemma set_row_other: "same_view r L M \<Longrightarrow> run \<noteq> r \<Longrightarrow> same_view r (set_row run i row L) M"
  using AList_map_ok_update unfolding same_view_def set_row_def
  by (fastforce simp: rowsForRun_def generationFor_def)

lemma perform_same_view:
  assumes "same_view r L M" and "op_run op = Some r"
  shows "fst (perform op L) = fst (perform op M) \<and>
    same_view r (snd (perform op L)) (snd (perform op M))"
proof (cases op)
  case (Op_reserve now inp)
  then have run: "rv_runId rv = r" if "checkReservation inp = Some rv" for rv
    using checkReservation_Some(4) [OF that] assms(2) by simp
  have "same_view r L M \<Longrightarrow> same_view r (snd (admit now rv L)) (snd (admit now rv M)) \<and>
      fst (admit now rv L) = fst (admit now rv M)" if "rv_runId rv = r" for rv
    using that same_view_row [OF assms(1), of "rv_reservationId rv"] same_view_usage [OF assms(1)]
      same_view_set_row [OF assms(1)]
    by (auto simp: admit_def Let_def same_view_def [of r L M] split: option.split)
  then show ?thesis
    using Op_reserve assms(1) run by (auto simp: reserve_def split: option.split)
next
  case (Op_commit now run rid a)
  then show ?thesis
    using assms same_view_row [OF assms(1), of rid] same_view_set_row [OF assms(1)]
    by (auto simp: commit_def split: option.split row_state.split)
next
  case (Op_refund now run rid)
  then show ?thesis
    using assms same_view_row [OF assms(1), of rid] same_view_set_row [OF assms(1)]
    by (auto simp: refund_def Let_def split: option.split row_state.split)
next
  case (Op_cancel run)
  then show ?thesis
    using assms by (auto simp: cancelRun_def Let_def same_view_def generationFor_def rowsForRun_def)
qed

lemma perform_other_run:
  assumes "same_view r L M" and "op_run op \<noteq> Some r"
  shows "same_view r (snd (perform op L)) M"
proof (cases op)
  case (Op_reserve now inp)
  then have run: "rv_runId rv \<noteq> r" if "checkReservation inp = Some rv" for rv
    using checkReservation_Some(4) [OF that] assms(2) by auto
  have "same_view r (snd (admit now rv L)) M" if "rv_runId rv \<noteq> r" for rv
    using that set_row_other [OF assms(1)] assms(1)
    by (auto simp: admit_def Let_def split: option.split)
  then show ?thesis
    using Op_reserve assms(1) run by (auto simp: reserve_def split: option.split)
next
  case (Op_commit now run rid a)
  then show ?thesis
    using assms set_row_other [OF assms(1), of run]
    by (auto simp: commit_def split: option.split row_state.split)
next
  case (Op_refund now run rid)
  then show ?thesis
    using assms set_row_other [OF assms(1), of run]
    by (auto simp: refund_def Let_def split: option.split row_state.split)
next
  case (Op_cancel run)
  then show ?thesis
    using assms by (auto simp: cancelRun_def Let_def same_view_def generationFor_def rowsForRun_def)
qed

lemma isolated:
  assumes "same_view r L M"
  shows "results_of r ops L = results_of r (filter (\<lambda>op. op_run op = Some r) ops) M \<and>
    same_view r (after_ops ops L) (after_ops (filter (\<lambda>op. op_run op = Some r) ops) M)"
  using assms
proof (induction ops arbitrary: L M)
  case (Cons op ops)
  show ?case
  proof (cases "op_run op = Some r")
    case True
    with perform_same_view [OF Cons.prems True] Cons.IH show ?thesis by simp
  next
    case False
    with perform_other_run [OF Cons.prems False] Cons.IH show ?thesis by simp
  qed
qed simp

text \<open>Runs are isolated. In any history of operations on a shared ledger, what a run is answered,
  what it has used and its cancellation generation are exactly what they would be had the other
  runs' operations never happened: no run can take another run's budget or reservation ids, cancel
  it, settle its rows, or learn whether they exist.\<close>

theorem runs_isolated:
  assumes "validateBudgetLimits v = Inr c" and "lives (empty_ledger c) L"
    and "own = filter (\<lambda>op. op_run op = Some r) ops"
  shows "results_of r ops L = results_of r own L \<and>
    usageFor (after_ops ops L) r = usageFor (after_ops own L) r \<and>
    generationFor (after_ops ops L) r = generationFor (after_ops own L) r \<and>
    rowsForRun (after_ops ops L) r = rowsForRun (after_ops own L) r"
proof -
  have "same_view r L L"
    using lives_ok [OF assms(2) caps_valid_start [OF assms(1)]] by (simp add: same_view_def ledger_ok_def)
  note i = isolated [OF this, of ops]
  then show ?thesis
    using same_view_usage unfolding assms(3) by (auto simp: same_view_def)
qed

theorem runs_isolated_witness:
  "results_of ''run1'' [Op_cancel ''run2'', Op_refund 8 ''run2'' ''c1'', Op_refund 9 ''run1'' ''c1''] sample_ledger =
   results_of ''run1'' [Op_refund 9 ''run1'' ''c1''] sample_ledger"
  using runs_isolated [OF sample_limits_valid sample_lives refl, of "''run1''"
      "[Op_cancel ''run2'', Op_refund 8 ''run2'' ''c1'', Op_refund 9 ''run1'' ''c1'']"]
  by simp

text \<open>The durable payload loses nothing. A controller restarted from the payload of a ledger has the
  same rows, and every run has the same usage; a run's cancellation generation is the recorded one,
  or that of its newest reservation when this is greater, so it never falls behind and is the same
  whenever no reservation was booked for a generation the run had not reached.\<close>

theorem durable_roundtrip:
  assumes "validateBudgetLimits v = Inr c" and "lives (empty_ledger c) L"
    and "\<forall>(run, g) \<in> set (generations L). g \<le> max_safe_integer"
  shows "\<exists>L'. new_ledger (limits_js (caps L)) (durableState L) = Inr L' \<and> caps L' = caps L \<and>
    rows L' = rows L \<and> (\<forall>run. usageFor L' run = usageFor L run \<and>
      generationFor L run \<le> generationFor L' run \<and>
      ((\<forall>row \<in> set (rows L). row_generation row \<le> generationFor L (row_runId row)) \<longrightarrow>
        generationFor L' run = generationFor L run))"
proof -
  note ok = lives_ok [OF assms(2) caps_valid_start [OF assms(1)]]
  have "generations_safe L" using assms(3) by (simp add: generations_safe_def)
  then obtain L' where L': "new_ledger (limits_js (caps L)) (durableState L) = Inr L'"
    using restart_run [OF ok] by simp
  note r = restart_ok [OF ok L']
  have "usageFor L' run = usageFor L run" for run
    using r by (simp add: usageFor_def totals_def)
  moreover have "generationFor L run \<le> generationFor L' run" for run
    using r by (auto intro: Max_ge)
  moreover have "generationFor L' run = generationFor L run"
    if "\<forall>row \<in> set (rows L). row_generation row \<le> generationFor L (row_runId row)" for run
  proof -
    have "Max (insert (generationFor L run) (row_generation ` {row \<in> set (rows L). row_runId row = run}))
        = generationFor L run"
      using that by (intro Max_eqI) auto
    then show ?thesis using r by simp
  qed
  moreover have "rows L' = rows L" using r by (simp add: rows_def)
  ultimately show ?thesis using L' r by blast
qed

theorem durable_roundtrip_witness:
  "\<exists>L'. new_ledger (limits_js (caps sample_ledger)) (durableState sample_ledger) = Inr L' \<and>
    rows L' = [sample_row]"
proof -
  have "\<forall>(run, g) \<in> set (generations sample_ledger). g \<le> max_safe_integer"
    by (simp add: sample_ledger_def empty_ledger_def)
  moreover have "rows sample_ledger = [sample_row]"
    by (simp add: rows_def sample_ledger_def set_row_def empty_ledger_def rowsForRun_def)
  ultimately show ?thesis
    using durable_roundtrip [OF sample_limits_valid sample_lives] by auto
qed

text \<open>Cancellation is for good. After a run is cancelled, whatever happens next, restarts from the
  durable payload included, a request that carries an older generation books nothing: every row the
  run gains carries at least the new generation, and an older request under an id that was not
  booked before is refused and changes nothing.\<close>

theorem cancellation_sticks:
  assumes "validateBudgetLimits v = Inr c" and "lives (empty_ledger c) L"
    and "cancelRun run L = (Inr g, L1)" and "lives L1 L2"
  shows "generationFor L run < g \<and> g \<le> generationFor L2 run \<and>
    (\<forall>rid row. row_of L1 run rid = None \<and> row_of L2 run rid = Some row \<longrightarrow> g \<le> row_generation row) \<and>
    (\<forall>now inp rv. checkReservation inp = Some rv \<and> rv_runId rv = run \<and> rv_generation rv < g \<and>
      row_of L1 run (rv_reservationId rv) = None \<longrightarrow>
      reserve now inp L2 \<in> {(Inl Cancelled_run, L2), (Inl Reservation_mismatch, L2)})"
proof -
  note ok = lives_ok [OF assms(2) caps_valid_start [OF assms(1)]]
  have run: "run_id_re run" "g = generationFor L run + 1"
    "L1 = L\<lparr>generations := AList.update run g (generations L)\<rparr>"
    using assms(3) by (auto simp: cancelRun_def Let_def split: if_splits)
  then have g: "generationFor L1 run = g" by (simp add: generationFor_def)
  have "ledger_ok L1"
    using run changes_ok [OF changes.bumped [of run L] ok] by simp
  then have fwd: "ledger_forward L1 L2" by (rule lives_forward [OF assms(4)])
  then have "g \<le> generationFor L2 run" using g unfolding ledger_forward_def by metis
  moreover have new: "g \<le> row_generation row"
    if "row_of L1 run rid = None" "row_of L2 run rid = Some row" for rid row
    using that fwd g unfolding ledger_forward_def by metis
  moreover have "reserve now inp L2 \<in> {(Inl Cancelled_run, L2), (Inl Reservation_mismatch, L2)}"
    if "checkReservation inp = Some rv" "rv_runId rv = run" "rv_generation rv < g"
      "row_of L1 run (rv_reservationId rv) = None" for now inp rv
    using that new [of "rv_reservationId rv"] calculation(1)
    by (auto simp: reserve_def admit_def same_identity_def split: option.split)
  ultimately show ?thesis using run(2) by auto
qed

theorem cancellation_sticks_witness:
  "reserve 9 (sample_input ''c2'' 1) (snd (cancelRun ''run1'' sample_ledger)) \<in>
    {(Inl Cancelled_run, snd (cancelRun ''run1'' sample_ledger)),
     (Inl Reservation_mismatch, snd (cancelRun ''run1'' sample_ledger))}"
proof -
  obtain g L1 where run: "cancelRun ''run1'' sample_ledger = (Inr g, L1)" "g = 2"
      "row_of L1 ''run1'' ''c2'' = None"
    by (auto simp: cancelRun_def is_alnum_def run_id_char_def Let_def generationFor_def sample_ledger_def
        empty_ledger_def row_of_def rowsForRun_def set_row_def)
  have "checkReservation (sample_input ''c2'' 1) = Some \<lparr>rv_reservationId = ''c2'',
      rv_runId = ''run1'', rv_generation = 1, rv_modelProfile = ''fast'', rv_estimatedTokens = 60,
      rv_estimatedCostMicros = 20\<rparr>"
    by (simp add: checkReservation_def sample_input_def plain_id js_int_check positive_integer_def
        is_alnum_def run_id_char_def require_that_def)
  then show ?thesis
    using cancellation_sticks [OF sample_limits_valid sample_lives run(1) rtranclp.rtrancl_refl] run
    by simp
qed

text \<open>Settlement is exact. Committing a live reservation replaces its estimate by the actual usage in
  the run's totals, and refunding it removes the estimate; repeating either returns the settled row
  and changes nothing, the other settlement is then refused, and so is a commit with other actuals.\<close>

theorem settlement_exact:
  assumes "ledger_ok L" and "row_of L run rid = Some row" and "row_state row = Reserved"
    and "checkActual a = Some u" and "commit now run rid a L = (Inr row1, L1)"
    and "refund now run rid L = (Inr row2, L2)"
  shows "usageFor L1 run = usageFor L run - estimate row + u \<and>
    usageFor L2 run = usageFor L run - estimate row \<and>
    commit now' run rid a L1 = (Inr row1, L1) \<and> refund now' run rid L2 = (Inr row2, L2) \<and>
    refund now' run rid L1 = (Inl Reservation_mismatch, L1) \<and>
    commit now' run rid a L2 = (Inl Reservation_mismatch, L2) \<and>
    (\<forall>b w. checkActual b = Some w \<and> w \<noteq> u \<longrightarrow>
      commit now' run rid b L1 = (Inl Reservation_mismatch, L1)) \<and>
    row_overran row1 = (\<not> u \<le> Usage (requestCount u) (row_estimatedTokens row) (row_estimatedCostMicros row))"
proof -
  let ?r1 = "committed_row now u row" and ?r2 = "row\<lparr>row_state := Refunded, row_settledAtMs := now\<rparr>"
  have L: "row1 = ?r1" "L1 = set_row run rid ?r1 L" "row2 = ?r2" "L2 = set_row run rid ?r2 L"
    using assms(2-6) by (auto simp: commit_def refund_def Let_def)
  have m: "map_ok (run_rows L)" using assms(1) by (simp add: ledger_ok_def)
  have "usageFor (set_row run rid r L) run = usageFor L run - charge row + charge r" for r
  proof -
    have "map_ok (run_rows (set_row run rid r L))"
      using AList_map_ok_update [OF m] by (simp add: set_row_def)
    then show ?thesis
      using group_sum_present [of "rowsForRun L run" rid row charge r] assms(2) m
      by (simp add: usageFor_group row_of_def)
  qed
  moreover have "charge row = estimate row" "charge ?r1 = u" "charge ?r2 = 0"
    using assms(3) by (simp_all add: charge_def committed_row_def)
  moreover have "w = u \<longleftrightarrow> requestCount u = requestCount w \<and> tokens u = tokens w \<and> costMicros u = costMicros w"
    for w by (cases w; cases u) auto
  ultimately show ?thesis
    using assms(4) unfolding L
    by (auto simp: commit_def refund_def committed_row_def usage_simps)
qed

theorem settlement_exact_witness:
  "usageFor (snd (refund 9 ''run1'' ''c1'' sample_ledger)) ''run1'' =
     usageFor sample_ledger ''run1'' - estimate sample_row"
proof -
  note ok = lives_ok [OF sample_lives caps_valid_start [OF sample_limits_valid]]
  have r: "row_of sample_ledger ''run1'' ''c1'' = Some sample_row" "row_state sample_row = Reserved"
    by (simp_all add: sample_ledger_def sample_row_def fresh_row_def)
  let ?a = "\<lparr>au_requestCount = js_int 1, au_tokens = js_int 40, au_costMicros = js_int 30\<rparr>"
  have a: "checkActual ?a = Some (Usage 1 40 30)"
    by (simp add: checkActual_def js_int_check positive_integer_def)
  obtain row1 L1 row2 L2 where "commit 9 ''run1'' ''c1'' ?a sample_ledger = (Inr row1, L1)"
    "refund 9 ''run1'' ''c1'' sample_ledger = (Inr row2, L2)"
    using r a by (auto simp: commit_def refund_def Let_def)
  from settlement_exact [OF ok r a this] this show ?thesis by simp
qed

end
