(* ===== verification/Utf8.thy ===== *)
theory Utf8
  imports Js_Prelude "HOL-Library.Word" "HOL-Library.Sublist"
begin

text \<open>
  Bytes and text of the corpus: \<open>decodeUtf8Ignore\<close> of \<^verbatim>\<open>src/corpus/truncate.ts\<close>, the encoder
  (\<open>Buffer.from(text, "utf8")\<close>), and the byte searches of \<open>Buffer\<close> the corpus uses.

  A byte is an \<open>8 word\<close>; the arithmetic of the decoder is that of JavaScript's 32-bit operators. The
  text it produces is a list of code points (the string is their UTF-16 form, which determines them).
\<close>

unbundle bit_operations_syntax

type_synonym byte = "8 word"
type_synonym bytes = "byte list"
type_synonym code_points = "nat list"

section \<open>The decoder\<close>

definition seq_start :: "byte \<Rightarrow> (nat \<times> 32 word) option" where
  "seq_start b0 =
     (if b0 < 0x80 then Some (1, ucast b0)
      else if b0 AND 0xE0 = 0xC0 then Some (2, ucast (b0 AND 0x1F))
      else if b0 AND 0xF0 = 0xE0 then Some (3, ucast (b0 AND 0x0F))
      else if b0 AND 0xF8 = 0xF0 then Some (4, ucast (b0 AND 0x07))
      else None)"

fun add_conts :: "32 word \<Rightarrow> bytes \<Rightarrow> 32 word option" where
  "add_conts cp [] = Some cp"
| "add_conts cp (cont # conts) =
     (if cont AND 0xC0 \<noteq> 0x80 then None
      else add_conts (push_bit 6 cp OR (ucast cont AND 0x3F)) conts)"

definition decode_seq :: "byte \<Rightarrow> bytes \<Rightarrow> (nat \<times> nat) option" where
  "decode_seq b0 rest =
     (case seq_start b0 of
        None \<Rightarrow> None
      | Some (len, cp0) \<Rightarrow>
          if Suc (length rest) < len then None
          else (case add_conts cp0 (take (len - 1) rest) of
                  None \<Rightarrow> None
                | Some cp \<Rightarrow>
                    let overlong = (len = 2 \<and> cp < 0x80) \<or> (len = 3 \<and> cp < 0x800) \<or> (len = 4 \<and> cp < 0x10000);
                        surrogate = 0xD800 \<le> cp \<and> cp \<le> 0xDFFF;
                        beyond = cp > 0x10FFFF in
                    if overlong \<or> surrogate \<or> beyond then None else Some (unat cp, len)))"

function decodeUtf8Ignore :: "bytes \<Rightarrow> code_points" where
  "decodeUtf8Ignore [] = []"
| "decodeUtf8Ignore (b0 # rest) =
     (case decode_seq b0 rest of
        None \<Rightarrow> decodeUtf8Ignore rest
      | Some (cp, len) \<Rightarrow> cp # decodeUtf8Ignore (drop (len - 1) rest))"
  by pat_completeness auto
termination
  by (relation "measure length") auto

section \<open>The encoder\<close>

text \<open>A Unicode scalar value: a code point that is not a surrogate.\<close>

definition scalar :: "nat \<Rightarrow> bool" where
  "scalar n = (n < 0xD800 \<or> 0xDFFF < n \<and> n \<le> 0x10FFFF)"

definition encode_cp :: "nat \<Rightarrow> bytes" where
  "encode_cp n =
     (if n < 0x80 then [word_of_nat n]
      else if n < 0x800 then [word_of_nat (0xC0 + n div 64), word_of_nat (0x80 + n mod 64)]
      else if n < 0x10000
      then [word_of_nat (0xE0 + n div 4096), word_of_nat (0x80 + n div 64 mod 64), word_of_nat (0x80 + n mod 64)]
      else [word_of_nat (0xF0 + n div 262144), word_of_nat (0x80 + n div 4096 mod 64),
            word_of_nat (0x80 + n div 64 mod 64), word_of_nat (0x80 + n mod 64)])"

definition encode :: "code_points \<Rightarrow> bytes" where
  "encode ns = concat (map encode_cp ns)"

section \<open>Byte arithmetic\<close>

lemma div_block: "0 < n \<Longrightarrow> (u :: nat) div n * n = m * n \<longleftrightarrow> m * n \<le> u \<and> u < m * n + n"
proof -
  assume n: "0 < n"
  have "u div n = m \<longleftrightarrow> m \<le> u div n \<and> u div n < Suc m" by auto
  also have "\<dots> \<longleftrightarrow> m * n \<le> u \<and> u < Suc m * n"
    using n by (simp only: less_eq_div_iff_mult_less_eq div_less_iff_less_mult)
  finally show ?thesis using n by (simp add: add.commute)
qed

lemma unat_high_bits: "unat ((b :: byte) AND NOT (mask k)) = unat b div 2 ^ k * 2 ^ k"
proof -
  have "(b AND NOT (mask k)) + take_bit k b = b"
    by (simp add: take_bit_eq_mask disjunctive_add_eq_or bit_eq_iff bit_simps) auto
  then have "b AND NOT (mask k) = b - take_bit k b" by (simp add: eq_diff_eq)
  moreover have "unat (take_bit k b) \<le> unat b" by (simp add: unsigned_take_bit_eq)
  then have "unat (b - take_bit k b) = unat b - unat (take_bit k b)"
    by (simp add: unat_sub word_le_nat_alt)
  moreover have "unat (take_bit k b) = unat b mod 2 ^ k"
    by (simp only: unsigned_take_bit_eq) (simp add: take_bit_eq_mod)
  ultimately show ?thesis by (simp add: minus_mod_eq_div_mult)
qed

lemma byte_high:
  assumes "unat c = m * 2 ^ k"
  shows "(b :: byte) AND NOT (mask k) = c \<longleftrightarrow> m * 2 ^ k \<le> unat b \<and> unat b < m * 2 ^ k + 2 ^ k"
  using div_block [of "2 ^ k" "unat b" m] assms by (simp add: word_unat_eq_iff unat_high_bits)

lemma byte_class:
  "(b < (0x80 :: byte)) = (unat b < 0x80)"
  "(b AND 0xE0 = (0xC0 :: byte)) = (0xC0 \<le> unat b \<and> unat b < 0xE0)"
  "(b AND 0xF0 = (0xE0 :: byte)) = (0xE0 \<le> unat b \<and> unat b < 0xF0)"
  "(b AND 0xF8 = (0xF0 :: byte)) = (0xF0 \<le> unat b \<and> unat b < 0xF8)"
  "(b AND 0xC0 = (0x80 :: byte)) = (0x80 \<le> unat b \<and> unat b < 0xC0)"
proof -
  have masks: "(0xE0 :: byte) = NOT (mask 5)" "(0xF0 :: byte) = NOT (mask 4)"
    "(0xF8 :: byte) = NOT (mask 3)" "(0xC0 :: byte) = NOT (mask 6)"
    by (simp_all add: mask_eq_exp_minus_1)
  show "(b < (0x80 :: byte)) = (unat b < 0x80)" by (simp add: word_less_nat_alt)
  show "(b AND 0xE0 = (0xC0 :: byte)) = (0xC0 \<le> unat b \<and> unat b < 0xE0)"
    unfolding masks(1) using byte_high [of "0xC0" 6 5 b] by simp
  show "(b AND 0xF0 = (0xE0 :: byte)) = (0xE0 \<le> unat b \<and> unat b < 0xF0)"
    unfolding masks(2) using byte_high [of "0xE0" 14 4 b] by simp
  show "(b AND 0xF8 = (0xF0 :: byte)) = (0xF0 \<le> unat b \<and> unat b < 0xF8)"
    unfolding masks(3) using byte_high [of "0xF0" 30 3 b] by simp
  show "(b AND 0xC0 = (0x80 :: byte)) = (0x80 \<le> unat b \<and> unat b < 0xC0)"
    unfolding masks(4) using byte_high [of "0x80" 2 6 b] by simp
qed

lemma byte_payload:
  "unat ((b :: byte) AND 0x1F) = unat b mod 32"
  "unat ((b :: byte) AND 0x0F) = unat b mod 16"
  "unat ((b :: byte) AND 0x07) = unat b mod 8"
proof -
  have masks: "(0x1F :: byte) = mask 5" "(0x0F :: byte) = mask 4" "(0x07 :: byte) = mask 3"
    by (simp_all add: mask_eq_exp_minus_1)
  show "unat (b AND 0x1F) = unat b mod 32" "unat (b AND 0x0F) = unat b mod 16" "unat (b AND 0x07) = unat b mod 8"
    unfolding masks take_bit_eq_mask [symmetric]
    by (simp_all only: unsigned_take_bit_eq) (simp_all add: take_bit_eq_mod)
qed

lemma word_of_nat_unat: "word_of_nat (unat w) = w"
  by simp

lemma unat_ucast_byte [simp]: "unat (ucast (b :: byte) :: 32 word) = unat b"
  by (simp add: unsigned_ucast_eq take_bit_nat_eq_self_iff order.strict_trans2 [OF unsigned_less])

lemma shift_or:
  assumes "unat (cp :: 32 word) < 2 ^ 26"
  shows "unat (push_bit 6 cp OR (x AND 0x3F)) = unat cp * 64 + unat x mod 64"
proof -
  have m: "(0x3F :: 32 word) = mask 6" by (simp add: mask_eq_exp_minus_1)
  have disj: "push_bit 6 cp AND (x AND 0x3F) = 0"
    unfolding m by (rule bit_word_eqI) (auto simp: bit_simps)
  have x: "unat (x AND 0x3F) = unat x mod 64"
    unfolding m take_bit_eq_mask [symmetric] by (simp only: unsigned_take_bit_eq) (simp add: take_bit_eq_mod)
  have p: "unat (push_bit 6 cp) = unat cp * 64"
    using assms by (simp add: push_bit_eq_mult unat_word_ariths)
  have "unat (push_bit 6 cp + (x AND 0x3F)) = unat (push_bit 6 cp) + unat (x AND 0x3F)"
    using assms p x by (simp add: unat_word_ariths)
  then show ?thesis using p x disjunctive_add_eq_or [OF disj] by simp
qed

text \<open>The decoder in terms of numbers.\<close>

definition cont_byte :: "byte \<Rightarrow> bool" where
  "cont_byte c = (0x80 \<le> unat c \<and> unat c < 0xC0)"

lemma add_conts_Cons:
  assumes "n < 2 ^ 20"
  shows "add_conts (word_of_nat n) (c # cs) =
    (if cont_byte c then add_conts (word_of_nat (n * 64 + unat c mod 64)) cs else None)"
proof -
  have n: "unat (word_of_nat n :: 32 word) = n"
    using assms by (simp add: unat_of_nat take_bit_nat_eq_self_iff)
  have "unat (push_bit 6 (word_of_nat n) OR (ucast c AND 0x3F) :: 32 word) = n * 64 + unat c mod 64"
    using shift_or [of "word_of_nat n" "ucast c"] assms by (simp add: n)
  then have "(push_bit 6 (word_of_nat n) OR (ucast c AND 0x3F) :: 32 word) = word_of_nat (n * 64 + unat c mod 64)"
    by (metis word_of_nat_unat)
  then show ?thesis by (simp add: byte_class cont_byte_def)
qed

lemma word32_less: "n < 2 ^ 32 \<Longrightarrow> m < 2 ^ 32 \<Longrightarrow> (word_of_nat n :: 32 word) < word_of_nat m \<longleftrightarrow> n < m"
  by (simp add: word_less_nat_alt unat_of_nat take_bit_nat_eq_self_iff)

lemma seq_start:
  "seq_start b =
    (if unat b < 0x80 then Some (1, word_of_nat (unat b))
     else if unat b < 0xC0 then None
     else if unat b < 0xE0 then Some (2, word_of_nat (unat b - 0xC0))
     else if unat b < 0xF0 then Some (3, word_of_nat (unat b - 0xE0))
     else if unat b < 0xF8 then Some (4, word_of_nat (unat b - 0xF0)) else None)"
proof -
  have uc: "(ucast x :: 32 word) = word_of_nat (unat x)" for x :: byte
    by (metis unat_ucast_byte word_of_nat_unat)
  have low: "unat b mod 32 = unat b - 0xC0" if "0xC0 \<le> unat b" "unat b < 0xE0"
    by (rule mod_nat_eqI) (use that in simp_all)
  have mid: "unat b mod 16 = unat b - 0xE0" if "0xE0 \<le> unat b" "unat b < 0xF0"
    by (rule mod_nat_eqI) (use that in simp_all)
  have high: "unat b mod 8 = unat b - 0xF0" if "0xF0 \<le> unat b" "unat b < 0xF8"
    by (rule mod_nat_eqI) (use that in simp_all)
  show ?thesis
    unfolding seq_start_def byte_class uc byte_payload
    by (simp only: if_split conj_assoc option.inject) (use low mid high in auto)
qed

lemma unat_small: "n < 2 ^ 32 \<Longrightarrow> unat (word_of_nat n :: 32 word) = n"
  by (simp add: unat_of_nat take_bit_nat_eq_self_iff)

lemma unat_byte_small: "n < 256 \<Longrightarrow> unat (word_of_nat n :: byte) = n"
  by (simp add: unat_of_nat take_bit_nat_eq_self_iff)

text \<open>What the decoder reads as one character, in numbers: the lead byte \<open>b\<close> with the payload of the
  continuation bytes.\<close>

definition payload :: "nat \<Rightarrow> bytes \<Rightarrow> nat" where
  "payload n cs = foldl (\<lambda>a c. a * 64 + unat c mod 64) n cs"

lemma payload_simps [simp]:
  "payload n [] = n" "payload n (c # cs) = payload (n * 64 + unat c mod 64) cs"
  by (simp_all add: payload_def)

lemma payload_step: "(n * 64 + unat (c :: byte) mod 64 + 1) * 64 ^ k \<le> (n + 1) * 64 ^ Suc k"
proof -
  have "(n * 64 + unat c mod 64 + 1) * 64 ^ k \<le> ((n + 1) * 64) * 64 ^ k"
    by (rule mult_le_mono1) simp
  then show ?thesis by (simp only: power_Suc mult.assoc)
qed

lemma payload_less: "payload n cs < (n + 1) * 64 ^ length cs"
proof (induction cs arbitrary: n)
  case (Cons c cs)
  from order.strict_trans2 [OF Cons payload_step]
  show ?case by simp
qed simp

lemma add_conts_payload:
  "(n + 1) * 64 ^ length cs \<le> 2 ^ 26 \<Longrightarrow>
    add_conts (word_of_nat n) cs =
      (if list_all cont_byte cs then Some (word_of_nat (payload n cs)) else None)"
proof (induction cs arbitrary: n)
  case (Cons c cs)
  have "(n + 1) * 64 * 1 \<le> (n + 1) * 64 * 64 ^ length cs" by (rule mult_le_mono2) simp
  moreover have "(n + 1) * 64 ^ length (c # cs) = (n + 1) * 64 * 64 ^ length cs"
    by (simp add: algebra_simps)
  ultimately have "(n + 1) * 64 \<le> 2 ^ 26" using Cons.prems by linarith
  then have n: "n < 2 ^ 20" by simp
  from Cons.prems have "(n * 64 + unat c mod 64 + 1) * 64 ^ length cs \<le> 2 ^ 26"
    using order.trans [OF payload_step] by simp
  from Cons.IH [OF this] show ?case
    by (simp only: add_conts_Cons [OF n] list.pred_inject payload_simps) simp
qed simp

text \<open>The accepted sequences: the length by the lead byte, and the smallest code point of that length.\<close>

definition lead :: "nat \<Rightarrow> (nat \<times> nat \<times> nat) option" where
  "lead b =
    (if b < 0x80 then Some (1, 0, 0) else if b < 0xC0 then None
     else if b < 0xE0 then Some (2, 0xC0, 0x80)
     else if b < 0xF0 then Some (3, 0xE0, 0x800)
     else if b < 0xF8 then Some (4, 0xF0, 0x10000) else None)"

lemma lead_decode:
  assumes "seq_start b = Some (len, word_of_nat n)" and "(n + 1) * 64 ^ (len - 1) \<le> 2 ^ 26"
    and "least = (if len = 2 then 0x80 else if len = 3 then 0x800 else if len = 4 then 0x10000 else 0)"
  shows "decode_seq b rest =
    (let cs = take (len - 1) rest; m = payload n cs in
         if len \<le> Suc (length rest) \<and> list_all cont_byte cs \<and> least \<le> m \<and> scalar m
         then Some (m, len) else None)"
proof (cases "len \<le> Suc (length rest)")
  case False
  then show ?thesis using assms(1) by (simp add: decode_seq_def)
next
  case True
  define cs where "cs = take (len - 1) rest"
  have len: "length cs = len - 1" using True by (simp add: cs_def)
  have small: "payload n cs < 2 ^ 32"
    using payload_less [of n cs] assms(2) len by simp
  have conts: "add_conts (word_of_nat n) cs =
      (if list_all cont_byte cs then Some (word_of_nat (payload n cs)) else None)"
    using assms(2) len by (intro add_conts_payload) simp
  have "\<not> Suc (length rest) < len" using True by simp
  then have "decode_seq b rest = (case add_conts (word_of_nat n) cs of
      None \<Rightarrow> None
    | Some cp \<Rightarrow>
        if (len = 2 \<and> cp < 0x80 \<or> len = 3 \<and> cp < 0x800 \<or> len = 4 \<and> cp < 0x10000) \<or>
           (0xD800 \<le> cp \<and> cp \<le> 0xDFFF) \<or> cp > 0x10FFFF
        then None else Some (unat cp, len))"
    unfolding decode_seq_def assms(1) by (simp only: option.case prod.case if_False cs_def Let_def)
  also have "\<dots> = (if list_all cont_byte cs \<and> least \<le> payload n cs \<and> scalar (payload n cs)
      then Some (payload n cs, len) else None)"
    unfolding conts assms(3)
    by (cases "list_all cont_byte cs")
       (auto simp: word_less_nat_alt word_le_nat_alt unat_small [OF small] scalar_def)
  finally show ?thesis using True by (simp add: cs_def Let_def)
qed

lemma decode_seq_number:
  "decode_seq b rest =
    (case lead (unat b) of
       None \<Rightarrow> None
     | Some (len, base, least) \<Rightarrow>
         let cs = take (len - 1) rest; n = payload (unat b - base) cs in
         if len \<le> Suc (length rest) \<and> list_all cont_byte cs \<and> least \<le> n \<and> scalar n
         then Some (n, len) else None)"
proof -
  consider "unat b < 0x80" | "0x80 \<le> unat b" "unat b < 0xC0" | "0xC0 \<le> unat b" "unat b < 0xE0"
    | "0xE0 \<le> unat b" "unat b < 0xF0" | "0xF0 \<le> unat b" "unat b < 0xF8" | "0xF8 \<le> unat b" by linarith
  then show ?thesis
  proof cases
    case 1
    then have "seq_start b = Some (1, word_of_nat (unat b))" by (simp add: seq_start)
    from lead_decode [OF this, of 0 rest] 1 show ?thesis by (simp add: lead_def Let_def)
  next
    case 2
    then show ?thesis by (simp add: lead_def decode_seq_def seq_start)
  next
    case 3
    then have "seq_start b = Some (2, word_of_nat (unat b - 0xC0))" by (simp add: seq_start)
    from lead_decode [OF this, of "0x80" rest] 3 show ?thesis by (simp add: lead_def)
  next
    case 4
    then have "seq_start b = Some (3, word_of_nat (unat b - 0xE0))" by (simp add: seq_start)
    from lead_decode [OF this, of "0x800" rest] 4 show ?thesis by (simp add: lead_def)
  next
    case 5
    then have "seq_start b = Some (4, word_of_nat (unat b - 0xF0))" by (simp add: seq_start)
    from lead_decode [OF this, of "0x10000" rest] 5 show ?thesis by (simp add: lead_def)
  next
    case 6
    then show ?thesis by (simp add: lead_def decode_seq_def seq_start)
  qed
qed

text \<open>The decoder accepts exactly the encoding of a scalar value, and reads that value: an overlong
  form, a surrogate or a number beyond Unicode is never a character.\<close>

lemma cont_byte_of_nat [simp]: "cont_byte (word_of_nat (0x80 + n mod 64))"
  by (simp add: cont_byte_def unat_byte_small del: of_nat_add)

lemma cont_byte_payload:
  assumes "cont_byte c"
  shows "word_of_nat (0x80 + unat c mod 64) = c"
proof -
  have "unat c mod 64 = unat c - 0x80"
    by (rule mod_nat_eqI) (use assms in \<open>auto simp: cont_byte_def\<close>)
  then show ?thesis using assms by (simp add: cont_byte_def del: of_nat_add)
qed

lemma encode_payload:
  fixes l x y z :: nat
  assumes "x < 64" and "y < 64" and "z < 64"
  shows "0x80 \<le> l * 64 + x \<Longrightarrow> l < 32 \<Longrightarrow>
      encode_cp (l * 64 + x) = [word_of_nat (0xC0 + l), word_of_nat (0x80 + x)]"
    and "0x800 \<le> (l * 64 + x) * 64 + y \<Longrightarrow> l < 16 \<Longrightarrow>
      encode_cp ((l * 64 + x) * 64 + y) =
        [word_of_nat (0xE0 + l), word_of_nat (0x80 + x), word_of_nat (0x80 + y)]"
    and "0x10000 \<le> ((l * 64 + x) * 64 + y) * 64 + z \<Longrightarrow>
      encode_cp (((l * 64 + x) * 64 + y) * 64 + z) =
        [word_of_nat (0xF0 + l), word_of_nat (0x80 + x), word_of_nat (0x80 + y), word_of_nat (0x80 + z)]"
proof -
  have d: "(a * 64 + b) div 64 = a" "(a * 64 + b) mod 64 = b" if "b < 64" for a b :: nat
    using that by simp_all
  have div: "m div 4096 = m div 64 div 64" "m div 262144 = m div 64 div 64 div 64" for m :: nat
    by (simp_all only: div_mult2_eq [symmetric]) simp_all
  show "encode_cp (l * 64 + x) = [word_of_nat (0xC0 + l), word_of_nat (0x80 + x)]"
    if "0x80 \<le> l * 64 + x" "l < 32"
    using that assms unfolding encode_cp_def by (simp only: d div) simp
  show "encode_cp ((l * 64 + x) * 64 + y) =
        [word_of_nat (0xE0 + l), word_of_nat (0x80 + x), word_of_nat (0x80 + y)]"
    if "0x800 \<le> (l * 64 + x) * 64 + y" "l < 16"
    using that assms unfolding encode_cp_def by (simp only: d div) simp
  show "encode_cp (((l * 64 + x) * 64 + y) * 64 + z) =
        [word_of_nat (0xF0 + l), word_of_nat (0x80 + x), word_of_nat (0x80 + y), word_of_nat (0x80 + z)]"
    if "0x10000 \<le> ((l * 64 + x) * 64 + y) * 64 + z"
    using that assms unfolding encode_cp_def by (simp only: d div) simp
qed

lemma decode_seq_Some:
  assumes "decode_seq b rest = Some (n, len)"
  shows "scalar n" and "len = length (encode_cp n)" and "b # take (len - 1) rest = encode_cp n"
    and "0 < len" and "len \<le> Suc (length rest)"
proof -
  from assms obtain base least where lead: "lead (unat b) = Some (len, base, least)"
    and len: "len \<le> Suc (length rest)" and conts: "list_all cont_byte (take (len - 1) rest)"
    and n: "n = payload (unat b - base) (take (len - 1) rest)" and least: "least \<le> n" and ok: "scalar n"
    by (auto simp: decode_seq_number Let_def split: option.splits if_splits)
  show "scalar n" and "len \<le> Suc (length rest)" by (fact ok, fact len)
  obtain l where l: "l = unat b - base" by simp
  have b: "b = word_of_nat (base + l)"
    using lead by (auto simp: l lead_def split: if_splits)
  from n l have n: "n = payload l (take (len - 1) rest)" by simp
  have "encode_cp n = b # take (len - 1) rest \<and> 0 < len"
  proof (cases "len = 1")
    case True
    with lead n l have "n = unat b" "unat b < 0x80" by (auto simp: lead_def split: if_splits)
    with True show ?thesis by (simp add: encode_cp_def)
  next
    case False
    with lead consider "len = 2" "base = 0xC0" "least = 0x80" "l < 32"
      | "len = 3" "base = 0xE0" "least = 0x800" "l < 16" | "len = 4" "base = 0xF0" "least = 0x10000"
      by (auto simp: lead_def l split: if_splits)
    then show ?thesis
    proof cases
      case 1
      with len obtain x where x: "take (len - 1) rest = [x]"
        by (cases rest) auto
      with 1 n least conts show ?thesis
        using encode_payload(1) [of "unat x mod 64" 0 0 l]
        by (simp add: b cont_byte_payload del: of_nat_add)
    next
      case 2
      with len obtain x y where x: "take (len - 1) rest = [x, y]"
        by (cases rest; cases "tl rest") auto
      with 2 n least conts show ?thesis
        using encode_payload(2) [of "unat x mod 64" "unat y mod 64" 0 l]
        by (simp add: b cont_byte_payload del: of_nat_add)
    next
      case 3
      with len obtain x y z where x: "take (len - 1) rest = [x, y, z]"
        by (cases rest; cases "tl rest"; cases "tl (tl rest)") auto
      with 3 n least conts show ?thesis
        using encode_payload(3) [of "unat x mod 64" "unat y mod 64" "unat z mod 64" l]
        by (simp add: b cont_byte_payload del: of_nat_add)
    qed
  qed
  then show "0 < len" and "b # take (len - 1) rest = encode_cp n" by simp_all
  then have "length (encode_cp n) = Suc (length (take (len - 1) rest))" by (metis length_Cons)
  then show "len = length (encode_cp n)" using len \<open>0 < len\<close> by simp
qed

lemma decode_seq_encode:
  assumes "scalar n" and "encode_cp n = b # cs"
  shows "decode_seq b (cs @ rest) = Some (n, length (encode_cp n))"
proof -
  have div: "m div 4096 = m div 64 div 64" "m div 262144 = m div 64 div 64 div 64" for m :: nat
    by (simp_all only: div_mult2_eq [symmetric]) simp_all
  have low: "(0x80 + m mod 64) mod 64 = m mod 64" for m :: nat
    using mod_mult_self3 [of 2 64 "m mod 64"] by simp
  have join: "4096 * (n div 64 div 64) + n div 64 mod 64 * 64 + n mod 64 = n"
    "262144 * (n div 64 div 64 div 64) + 4096 * (n div 64 div 64 mod 64) + n div 64 mod 64 * 64 + n mod 64 = n"
    using div_mult_mod_eq [of n 64] div_mult_mod_eq [of "n div 64" 64] div_mult_mod_eq [of "n div 64 div 64" 64]
    by linarith+
  have max: "n \<le> 0x10FFFF" using assms(1) by (auto simp: scalar_def)
  consider "n < 0x80" | "0x80 \<le> n" "n < 0x800" | "0x800 \<le> n" "n < 0x10000" | "0x10000 \<le> n" by linarith
  then show ?thesis
  proof cases
    case 1
    then have "b = word_of_nat n" "cs = []" using assms(2) by (simp_all add: encode_cp_def)
    with 1 assms show ?thesis
      by (simp add: decode_seq_number unat_byte_small lead_def Let_def)
  next
    case 2
    then have "b = word_of_nat (0xC0 + n div 64)" "cs = [word_of_nat (0x80 + n mod 64)]"
      "length (encode_cp n) = 2"
      using assms(2) by (auto simp: encode_cp_def simp del: of_nat_add)
    moreover have "n div 64 < 32" using 2 by (simp add: div_less_iff_less_mult)
    ultimately show ?thesis using 2 assms(1)
      by (simp add: decode_seq_number unat_byte_small lead_def Let_def low del: of_nat_add)
  next
    case 3
    then have "b = word_of_nat (0xE0 + n div 4096)"
      "cs = [word_of_nat (0x80 + n div 64 mod 64), word_of_nat (0x80 + n mod 64)]" "length (encode_cp n) = 3"
      using assms(2) by (auto simp: encode_cp_def simp del: of_nat_add)
    moreover have "n div 4096 < 16" using 3 by (simp add: div_less_iff_less_mult)
    ultimately show ?thesis using 3 assms(1)
      by (simp add: decode_seq_number unat_byte_small lead_def Let_def div low join del: of_nat_add)
  next
    case 4
    then have "b = word_of_nat (0xF0 + n div 262144)"
      "cs = [word_of_nat (0x80 + n div 4096 mod 64), word_of_nat (0x80 + n div 64 mod 64), word_of_nat (0x80 + n mod 64)]"
      "length (encode_cp n) = 4"
      using assms(2) by (auto simp: encode_cp_def simp del: of_nat_add)
    moreover have "n div 262144 < 8" using max by (simp add: div_less_iff_less_mult)
    ultimately show ?thesis using 4 assms(1)
      by (simp add: decode_seq_number unat_byte_small lead_def Let_def div low join del: of_nat_add)
  qed
qed

section \<open>What the decoder keeps\<close>

lemma encode_simps [simp]:
  "encode [] = []" "encode (n # ns) = encode_cp n @ encode ns" "encode (ms @ ns) = encode ms @ encode ns"
  by (simp_all add: encode_def)

lemma encode_cp_Cons: obtains b cs where "encode_cp n = b # cs" and "list_all cont_byte cs"
proof -
  have "\<exists>b cs. encode_cp n = b # cs \<and> list_all cont_byte cs"
    unfolding encode_cp_def by (auto simp del: of_nat_add)
  with that show thesis by blast
qed

lemma encode_cp_length: "0 < length (encode_cp n)"
  by (rule encode_cp_Cons [of n]) simp

lemma decode_encode_append:
  "scalar n \<Longrightarrow> decodeUtf8Ignore (encode_cp n @ bs) = n # decodeUtf8Ignore bs"
  by (rule encode_cp_Cons [of n]) (simp add: decode_seq_encode)

lemma decode_encode: "list_all scalar ns \<Longrightarrow> decodeUtf8Ignore (encode ns) = ns"
  by (induction ns) (simp_all add: decode_encode_append)

lemma decode_cont:
  assumes "cont_byte c"
  shows "decode_seq c rest = None"
  using assms by (auto simp: decode_seq_number lead_def cont_byte_def)

lemma decode_conts: "list_all cont_byte cs \<Longrightarrow> decodeUtf8Ignore cs = []"
  by (induction cs) (simp_all add: decode_cont)

text \<open>A character that is cut short disappears.\<close>

lemma decode_seq_short:
  assumes "scalar n" and "encode_cp n = b # cs" and "k < length cs"
  shows "decode_seq b (take k cs) = None"
proof (rule ccontr)
  assume "decode_seq b (take k cs) \<noteq> None"
  then obtain m len where m: "decode_seq b (take k cs) = Some (m, len)" by auto
  have pre: "b # take (len - 1) (take k cs) = encode_cp m" and len: "len \<le> Suc (length (take k cs))"
    and "scalar m" and "0 < len"
    using decode_seq_Some [OF m] by simp_all
  define t where "t = take (len - 1) (take k cs)"
  have "cs = t @ drop (length t) cs"
    by (metis append_take_drop_id t_def take_take length_take min.left_commute take_take min.cobounded2 append_eq_conv_conj)
  then have "decode_seq b cs = Some (m, length (encode_cp m))"
    using decode_seq_encode [OF \<open>scalar m\<close> pre [symmetric], of "drop (length t) cs"] by (simp add: t_def)
  moreover have "decode_seq b cs = Some (n, length (encode_cp n))"
    using decode_seq_encode [OF assms(1,2), of "[]"] by simp
  ultimately have "length (encode_cp n) = length (encode_cp m)" by simp
  then have "length cs = length t" using assms(2) pre by (metis length_Cons t_def Suc_inject)
  then show False using assms(3) by (simp add: t_def)
qed

fun chars_within :: "nat \<Rightarrow> code_points \<Rightarrow> code_points" where
  "chars_within k [] = []"
| "chars_within k (n # ns) =
     (if length (encode_cp n) \<le> k then n # chars_within (k - length (encode_cp n)) ns else [])"

text \<open>The characters of \<open>chars_within k ns\<close> are the longest prefix of \<open>ns\<close> that fits \<open>k\<close> bytes.\<close>

lemma chars_within_prefix: "\<exists>rest. ns = chars_within k ns @ rest"
  by (induction k ns rule: chars_within.induct) auto

lemma chars_within_length: "length (encode (chars_within k ns)) \<le> k"
  by (induction k ns rule: chars_within.induct) auto

lemma chars_within_maximal:
  "ns = ms @ rest \<Longrightarrow> length (encode ms) \<le> k \<Longrightarrow> length ms \<le> length (chars_within k ns)"
proof (induction k ns arbitrary: ms rule: chars_within.induct)
  case (2 k n ns)
  then show ?case by (cases ms) auto
qed simp

lemma decode_take_encode:
  "list_all scalar ns \<Longrightarrow> decodeUtf8Ignore (take k (encode ns)) = chars_within k ns"
proof (induction k ns rule: chars_within.induct)
  case (2 k n ns)
  show ?case
  proof (cases "length (encode_cp n) \<le> k")
    case True
    with 2 show ?thesis by (simp add: decode_encode_append)
  next
    case False
    obtain b cs where b: "encode_cp n = b # cs" "list_all cont_byte cs" by (rule encode_cp_Cons)
    show ?thesis
    proof (cases k)
      case (Suc j)
      with False b have "j < length cs" by simp
      with 2 b have "decode_seq b (take j cs) = None" by (intro decode_seq_short) auto
      moreover have "list_all cont_byte (take j cs)" using b(2) by (auto simp: list_all_iff dest: in_set_takeD)
      ultimately show ?thesis using False b Suc by (simp add: decode_conts)
    qed (use b in simp)
  qed
qed simp

lemma decode_scalar: "list_all scalar (decodeUtf8Ignore bs)"
  by (induction bs rule: decodeUtf8Ignore.induct)
     (auto split: option.splits dest: decode_seq_Some(1))

lemma encode_decode_subseq: "subseq (encode (decodeUtf8Ignore bs)) bs"
proof (induction bs rule: decodeUtf8Ignore.induct)
  case (2 b rest)
  show ?case
  proof (cases "decode_seq b rest")
    case None
    with 2 show ?thesis by (simp add: list_emb_Cons)
  next
    case (Some p)
    obtain n len where p: "p = (n, len)" by (cases p)
    with Some have dec: "decode_seq b rest = Some (n, len)" by simp
    have "subseq (encode (decodeUtf8Ignore (drop (len - 1) rest))) (drop (len - 1) rest)"
      using 2(2) [OF dec refl] by simp
    then have "subseq ((b # take (len - 1) rest) @ encode (decodeUtf8Ignore (drop (len - 1) rest)))
        ((b # take (len - 1) rest) @ drop (len - 1) rest)" by (simp only: subseq_append')
    then show ?thesis using dec by (simp add: decode_seq_Some(3) [OF dec, symmetric])
  qed
qed simp

lemma reencode_length: "length (encode (decodeUtf8Ignore bs)) \<le> length bs"
  using list_emb_length [OF encode_decode_subseq] .

section \<open>The decoder with replacement\<close>

text \<open>The WHATWG decoder (\<open>TextDecoder\<close>, \<open>Buffer.toString\<close>): U+FFFD for each maximal ill-formed
  part. \<open>TextDecoder\<close> also drops a leading byte order mark.\<close>

text \<open>Read \<open>need\<close> more continuation bytes, the first of them between \<open>lo\<close> and \<open>hi\<close>.\<close>

fun text_conts :: "nat \<Rightarrow> nat \<Rightarrow> nat \<Rightarrow> nat \<Rightarrow> bytes \<Rightarrow> nat option \<times> bytes" where
  "text_conts cp 0 lo hi rest = (Some cp, rest)"
| "text_conts cp (Suc need) lo hi [] = (None, [])"
| "text_conts cp (Suc need) lo hi (c # rest) =
     (if lo \<le> unat c \<and> unat c \<le> hi
      then text_conts (cp * 64 + (unat c - 0x80)) need 0x80 0xBF rest
      else (None, c # rest))"

lemma text_conts_length: "length (snd (text_conts cp need lo hi rest)) \<le> length rest"
  by (induction cp need lo hi rest rule: text_conts.induct) auto

definition text_lead :: "nat \<Rightarrow> (nat \<times> nat \<times> nat \<times> nat) option" where
  "text_lead b =
     (if b \<le> 0x7F then Some (b, 0, 0x80, 0xBF)
      else if 0xC2 \<le> b \<and> b \<le> 0xDF then Some (b - 0xC0, 1, 0x80, 0xBF)
      else if 0xE0 \<le> b \<and> b \<le> 0xEF
      then Some (b - 0xE0, 2, if b = 0xE0 then 0xA0 else 0x80, if b = 0xED then 0x9F else 0xBF)
      else if 0xF0 \<le> b \<and> b \<le> 0xF4
      then Some (b - 0xF0, 3, if b = 0xF0 then 0x90 else 0x80, if b = 0xF4 then 0x8F else 0xBF)
      else None)"

function text_scan :: "bytes \<Rightarrow> code_points" where
  "text_scan [] = []"
| "text_scan (b # rest) =
     (case text_lead (unat b) of
        None \<Rightarrow> 0xFFFD # text_scan rest
      | Some (cp, need, lo, hi) \<Rightarrow>
          (case fst (text_conts cp need lo hi rest) of Some n \<Rightarrow> n | None \<Rightarrow> 0xFFFD) #
          text_scan (snd (text_conts cp need lo hi rest)))"
  by pat_completeness auto
termination
  by (relation "measure length") (auto simp: le_imp_less_Suc text_conts_length)

definition textDecode :: "bytes \<Rightarrow> code_points" where
  "textDecode bs = text_scan (if take 3 bs = [0xEF, 0xBB, 0xBF] then drop 3 bs else bs)"

section \<open>Properties\<close>

text \<open>Decoding the first \<open>k\<close> bytes of a text gives the longest prefix of its characters whose encoding
  fits \<open>k\<close> bytes: a byte cut loses the split character and nothing else, and an uncut text comes back
  exactly.\<close>

lemma utf8_cut:
  assumes "list_all scalar ns"
  shows "\<exists>j \<le> length ns. decodeUtf8Ignore (take k (encode ns)) = take j ns \<and>
    (\<forall>i. length (encode (take i ns)) \<le> k \<longleftrightarrow> min i (length ns) \<le> j)"
proof -
  define j where "j = length (chars_within k ns)"
  have take: "chars_within k ns = take j ns" and j: "j \<le> length ns"
    using chars_within_prefix [of ns k] by (auto simp: j_def) (metis append_eq_conv_conj, metis length_append le_add1)
  have "length (encode (take i ns)) \<le> k \<longleftrightarrow> min i (length ns) \<le> j" for i
  proof
    assume "length (encode (take i ns)) \<le> k"
    from chars_within_maximal [OF _ this, of ns "drop i ns"] show "min i (length ns) \<le> j"
      by (simp add: j_def)
  next
    assume "min i (length ns) \<le> j"
    then have "take j ns = take i ns @ take (j - min i (length ns)) (drop i ns)"
      by (cases "i \<le> length ns") (simp_all add: take_add [symmetric] min_def)
    then have "length (encode (take i ns)) \<le> length (encode (take j ns))" by simp
    also have "\<dots> \<le> k" using chars_within_length [of k ns] take by simp
    finally show "length (encode (take i ns)) \<le> k" .
  qed
  with j take show ?thesis by (auto simp: decode_take_encode [OF assms])
qed

lemma utf8_cut_witness:
  "decodeUtf8Ignore (take 5 (encode [97, 0x2026, 98, 0x1F600])) = [97, 0x2026, 98]"
proof -
  have "list_all scalar [97, 0x2026, 98, 0x1F600]" by (simp add: scalar_def)
  from utf8_cut [OF this, of 5] obtain j where j: "j \<le> length [97, 0x2026, 98, 0x1F600 :: nat]"
    "decodeUtf8Ignore (take 5 (encode [97, 0x2026, 98, 0x1F600])) = take j [97, 0x2026, 98, 0x1F600]"
    "\<forall>i. length (encode (take i [97, 0x2026, 98, 0x1F600])) \<le> 5 \<longleftrightarrow>
      min i (length [97, 0x2026, 98, 0x1F600 :: nat]) \<le> j" by blast
  have "length (encode (take 3 [97, 0x2026, 98, 0x1F600])) \<le> 5"
    and "\<not> length (encode (take 4 [97, 0x2026, 98, 0x1F600])) \<le> 5" by (simp_all add: encode_cp_def)
  with j(1) j(3) [THEN spec, of 3] j(3) [THEN spec, of 4] have "j = 3" by simp
  with j(2) show ?thesis by simp
qed

end
