(* ===== verification/Base64.thy ===== *)
theory Base64
  imports Utf8
begin

text \<open>
  The two base64 spellings of Node's \<open>Buffer\<close> the gateway uses: \<open>toString("base64url")\<close> (no padding)
  and its decoder, which drops the bits of an incomplete last byte, for the capability token of
  \<^verbatim>\<open>src/gateway/capability.ts\<close>; \<open>toString("base64")\<close> (padded) for the encoded spelling of a secret
  in \<^verbatim>\<open>src/context/redact.ts\<close>. Shown: decoding what was encoded gives the bytes back, and what is
  encoded is of the characters the token grammar admits and of bounded length.
\<close>

section \<open>Six-bit digits\<close>

fun sextets :: "bytes \<Rightarrow> nat list" where
  "sextets [] = []"
| "sextets [a] = [unat a div 4, unat a mod 4 * 16]"
| "sextets [a, b] = [unat a div 4, unat a mod 4 * 16 + unat b div 16, unat b mod 16 * 4]"
| "sextets (a # b # c # rest) =
     [unat a div 4, unat a mod 4 * 16 + unat b div 16, unat b mod 16 * 4 + unat c div 64, unat c mod 64] @
     sextets rest"

fun unsextets :: "nat list \<Rightarrow> bytes" where
  "unsextets (p # q # r # s # rest) =
     word_of_nat (p * 4 + q div 16) # word_of_nat (q mod 16 * 16 + r div 4) #
     word_of_nat (r mod 4 * 64 + s) # unsextets rest"
| "unsextets [p, q, r] = [word_of_nat (p * 4 + q div 16), word_of_nat (q mod 16 * 16 + r div 4)]"
| "unsextets [p, q] = [word_of_nat (p * 4 + q div 16)]"
| "unsextets [p] = []"
| "unsextets [] = []"

lemma unat_byte_less: "unat (b :: byte) < 256"
  using unsigned_less [of b] by simp

lemma sextets_bounded: "d \<in> set (sextets bs) \<Longrightarrow> d < 64"
proof (induction bs rule: sextets.induct)
  case (2 a)
  then show ?case using unat_byte_less [of a] by auto
next
  case (3 a b)
  then show ?case using unat_byte_less [of a] unat_byte_less [of b] by auto
next
  case (4 a b c rest)
  then show ?case
    using unat_byte_less [of a] unat_byte_less [of b] unat_byte_less [of c] by auto
qed simp

lemma sextets_length: "length (sextets bs) \<le> (4 * length bs + 2) div 3"
  by (induction bs rule: sextets.induct) auto

lemma sextets_empty [simp]: "sextets bs = [] \<longleftrightarrow> bs = []"
  by (cases bs rule: sextets.cases) auto

text \<open>Two digits that share a byte are told apart again.\<close>

lemma shared_digit:
  assumes "(y :: nat) < n"
  shows "(x * n + y) div n = x" and "(x * n + y) mod n = y"
  using assms by simp_all

lemma unsextets_sextets: "unsextets (sextets bs) = bs"
proof (induction bs rule: sextets.induct)
  case (3 a b)
  then show ?case
    using unat_byte_less [of b] by (simp add: shared_digit [of "unat b div 16" 16])
next
  case (4 a b c rest)
  then show ?case
    using unat_byte_less [of b] unat_byte_less [of c]
    by (simp add: shared_digit [of "unat b div 16" 16] shared_digit [of "unat c div 64" 4])
qed simp_all

section \<open>The alphabets\<close>

definition b64_alphabet :: string where
  "b64_alphabet = ''ABCDEFGHIJKLMNOPQRSTUVWXYZabcdefghijklmnopqrstuvwxyz0123456789''"

definition base64url_encode :: "bytes \<Rightarrow> string" where
  "base64url_encode bs = map (\<lambda>d. (b64_alphabet @ ''-_'') ! d) (sextets bs)"

definition b64url_value :: "char \<Rightarrow> nat" where
  "b64url_value c =
     (let u = code_unit c in
      if c = CHR ''-'' then 62 else if c = CHR ''_'' then 63
      else if u < 58 then u - 48 + 52 else if u < 91 then u - 65 else u - 97 + 26)"

definition base64url_decode :: "string \<Rightarrow> bytes" where
  "base64url_decode s = unsextets (map b64url_value s)"

definition base64_encode :: "bytes \<Rightarrow> string" where
  "base64_encode bs =
     map (\<lambda>d. (b64_alphabet @ ''+/'') ! d) (sextets bs) @
     (if length bs mod 3 = 0 then '''' else if length bs mod 3 = 1 then ''=='' else ''='')"

definition b64url_char :: "char \<Rightarrow> bool" where
  "b64url_char c = (is_alnum c \<or> c \<in> set ''_-'')"

lemma alphabet_values: "map b64url_value (b64_alphabet @ ''-_'') = [0..<64]"
  by (simp add: b64url_value_def b64_alphabet_def upt_rec)

lemma alphabet_chars: "list_all b64url_char (b64_alphabet @ ''-_'')"
  by (simp add: b64url_char_def is_alnum_def b64_alphabet_def)

lemma alphabet_digit:
  assumes "d < 64"
  shows "b64url_value ((b64_alphabet @ ''-_'') ! d) = d" and "b64url_char ((b64_alphabet @ ''-_'') ! d)"
proof -
  have len: "length (b64_alphabet @ ''-_'') = 64" by (simp add: b64_alphabet_def)
  then have "map b64url_value (b64_alphabet @ ''-_'') ! d = b64url_value ((b64_alphabet @ ''-_'') ! d)"
    using assms by (intro nth_map) simp
  then show "b64url_value ((b64_alphabet @ ''-_'') ! d) = d"
    using assms unfolding alphabet_values by simp
  show "b64url_char ((b64_alphabet @ ''-_'') ! d)"
    using alphabet_chars assms len unfolding list_all_iff by (metis nth_mem)
qed

lemma base64url_roundtrip: "base64url_decode (base64url_encode bs) = bs"
proof -
  have "map b64url_value (base64url_encode bs) = sextets bs"
    using sextets_bounded [of _ bs] alphabet_digit(1)
    unfolding base64url_encode_def map_map by (intro map_idI) simp
  then show ?thesis by (simp add: base64url_decode_def unsextets_sextets)
qed

lemma base64url_chars: "list_all b64url_char (base64url_encode bs)"
  using sextets_bounded [of _ bs] alphabet_digit(2) unfolding base64url_encode_def list_all_iff by auto

lemma base64url_length: "length (base64url_encode bs) \<le> (4 * length bs + 2) div 3"
  using sextets_length [of bs] by (simp add: base64url_encode_def)

lemma base64url_empty [simp]: "base64url_encode bs = [] \<longleftrightarrow> bs = []"
  by (simp add: base64url_encode_def)

end
