(* ===== verification/Gateway_Capability.thy ===== *)
theory Gateway_Capability
  imports Gateway_Budget Base64
begin

text \<open>
  The run-scoped capability token of the model gateway: \<^verbatim>\<open>src/gateway/capability.ts\<close>.

  The keyed HMAC-SHA256 is the argument \<open>mac\<close>, from bytes to the hexadecimal tag; the clock is the
  argument \<open>now\<close>, in integer milliseconds. A text that was decoded from a token is a list of code
  points, since a hostile token can carry any. Refusals carry their code, not the fixed reason.
\<close>

section \<open>Texts and numerals\<close>

abbreviation units :: "string \<Rightarrow> code_points" where
  "units s \<equiv> map code_unit s"

fun hex_of_nat :: "nat \<Rightarrow> string" where
  "hex_of_nat n =
     (if n < 16 then [''0123456789abcdef'' ! n]
      else hex_of_nat (n div 16) @ [''0123456789abcdef'' ! (n mod 16)])"

declare hex_of_nat.simps [simp del]

definition hex_of_int :: "int \<Rightarrow> string" where
  "hex_of_int i = (if i < 0 then CHR ''-'' # hex_of_nat (nat (- i)) else hex_of_nat (nat i))"

definition hex_val :: "char \<Rightarrow> nat" where
  "hex_val c = (if is_digit c then code_unit c - 48 else code_unit c - 87)"

definition nat_of_hex :: "string \<Rightarrow> nat" where
  "nat_of_hex s = foldl (\<lambda>a c. a * 16 + hex_val c) 0 s"

text \<open>\<open>PROFILE_NAME_RE\<close>: \<^verbatim>\<open>/^[A-Za-z0-9][A-Za-z0-9._-]{0,63}$/\<close>\<close>

definition profile_char :: "char \<Rightarrow> bool" where
  "profile_char c = (is_alnum c \<or> c \<in> set ''._-'')"

fun profile_name_re :: "string \<Rightarrow> bool" where
  "profile_name_re [] = False"
| "profile_name_re (c # cs) = (is_alnum c \<and> length cs \<le> 63 \<and> list_all profile_char cs)"

definition isValidProfileName :: "string \<Rightarrow> bool" where
  "isValidProfileName s = (s = '''' \<or> profile_name_re s)"

definition encode_field :: "string \<Rightarrow> string" where
  "encode_field s = base64url_encode (encode (units s))"

definition decode_field :: "string \<Rightarrow> code_points option" where
  "decode_field s =
     (let decoded = text_scan (base64url_decode s) in
      if decoded = [] \<and> s \<noteq> '''' then None else Some decoded)"

section \<open>The MAC\<close>

definition mac_text ::
  "code_points \<Rightarrow> code_points \<Rightarrow> string \<Rightarrow> string \<Rightarrow> budget_limits \<Rightarrow> code_points" where
  "mac_text run prof generationHex expiryHex limits =
     run @ [10] @ prof @ [10] @ units generationHex @ [10] @ units expiryHex @ [10] @
     units (string_of_int (maxRequests limits)) @ [10] @
     units (string_of_int (maxTokens limits)) @ [10] @
     units (string_of_int (maxCostMicros limits))"

definition macFor :: "(bytes \<Rightarrow> string) \<Rightarrow> code_points \<Rightarrow> code_points \<Rightarrow> string \<Rightarrow> string \<Rightarrow>
    budget_limits \<Rightarrow> string" where
  "macFor mac run prof generationHex expiryHex limits =
     mac (encode (mac_text run prof generationHex expiryHex limits))"

text \<open>\<open>createGatewayCapabilityAuth\<close>: the key is fixed, what is left is the MAC under it.\<close>

definition createGatewayCapabilityAuth ::
  "(bytes \<Rightarrow> bytes \<Rightarrow> string) \<Rightarrow> jsval \<Rightarrow> ledger_error + (bytes \<Rightarrow> string)" where
  "createGatewayCapabilityAuth hmac key =
     (case key of
        JStr k \<Rightarrow> if length k < 16 then Inl Range_refused else Inr (hmac (encode (units k)))
      | _ \<Rightarrow> Inl Range_refused)"

section \<open>Minting\<close>

record capability_identity =
  ci_runId :: string
  ci_modelProfile :: string
  ci_generation :: int
  ci_limits :: budget_limits

record minted_token =
  mt_token :: string
  mt_expiresAtMs :: int
  mt_generation :: int

definition min_generation :: int where "min_generation = 1"
definition max_generation :: int where "max_generation = 0xffffffff"
definition default_ttl_ms :: int where "default_ttl_ms = 3600000"
definition max_ttl_ms :: int where "max_ttl_ms = 7 * 24 * 3600000"

definition requireIdentity :: "jsval \<Rightarrow> ledger_error + capability_identity" where
  "requireIdentity v =
     (case v of
        JObj ps \<Rightarrow>
          (case get_prop ps ''runId'' of
             JStr run \<Rightarrow>
               if \<not> run_id_re run then Inl Range_refused
               else
                 (case get_prop ps ''modelProfile'' of
                    JStr prof \<Rightarrow>
                      if \<not> isValidProfileName prof \<or> prof = '''' then Inl Range_refused
                      else
                        (case get_prop ps ''generation'' of
                           JNum n \<Rightarrow>
                             (case safe_int n of
                                None \<Rightarrow> Inl Range_refused
                              | Some g \<Rightarrow>
                                  if g < min_generation \<or> g > max_generation then Inl Range_refused
                                  else
                                    (case validateBudgetLimits (get_prop ps ''limits'') of
                                       Inl e \<Rightarrow> Inl e
                                     | Inr limits \<Rightarrow>
                                         Inr \<lparr>ci_runId = run, ci_modelProfile = prof,
                                           ci_generation = g, ci_limits = limits\<rparr>))
                         | _ \<Rightarrow> Inl Range_refused)
                  | _ \<Rightarrow> Inl Range_refused)
           | _ \<Rightarrow> Inl Range_refused)
      | _ \<Rightarrow> Inl Range_refused)"

definition token_ttl :: "jsval \<Rightarrow> int option" where
  "token_ttl ttlMs =
     (case ttlMs of
        JUndef \<Rightarrow> Some default_ttl_ms
      | JNull \<Rightarrow> Some default_ttl_ms
      | JNum n \<Rightarrow>
          (case safe_int n of
             None \<Rightarrow> None
           | Some t \<Rightarrow> if t \<le> 0 \<or> t > max_ttl_ms then None else Some t)
      | _ \<Rightarrow> None)"

definition token_text :: "(bytes \<Rightarrow> string) \<Rightarrow> capability_identity \<Rightarrow> int \<Rightarrow> string" where
  "token_text mac ci expiresAtMs =
     (let expiryHex = hex_of_int expiresAtMs; generationHex = hex_of_int (ci_generation ci) in
      ''gw1.'' @ expiryHex @ ''.'' @ generationHex @ ''.'' @ encode_field (ci_runId ci) @ ''.'' @
      encode_field (ci_modelProfile ci) @ ''.'' @ string_of_int (maxRequests (ci_limits ci)) @ ''.'' @
      string_of_int (maxTokens (ci_limits ci)) @ ''.'' @
      string_of_int (maxCostMicros (ci_limits ci)) @ ''.'' @
      macFor mac (units (ci_runId ci)) (units (ci_modelProfile ci)) generationHex expiryHex (ci_limits ci))"

definition mint :: "(bytes \<Rightarrow> string) \<Rightarrow> int \<Rightarrow> jsval \<Rightarrow> jsval \<Rightarrow> ledger_error + minted_token" where
  "mint mac now identity ttlMs =
     (case requireIdentity identity of
        Inl e \<Rightarrow> Inl e
      | Inr ci \<Rightarrow>
          (case token_ttl ttlMs of
             None \<Rightarrow> Inl Range_refused
           | Some ttl \<Rightarrow>
               Inr \<lparr>mt_token = token_text mac ci (now + ttl), mt_expiresAtMs = now + ttl,
                 mt_generation = ci_generation ci\<rparr>))"

section \<open>Verification\<close>

datatype capability_refusal =
    Invalid_token | Expired | Wrong_run | Profile_mismatch | Cancelled_generation | Budget_bounds_mismatch

datatype verification = Verified | Refused capability_refusal

record presented =
  pr_runId :: string
  pr_modelProfile :: string
  pr_expectedGeneration :: int
  pr_limits :: jsval

text \<open>\<open>GATEWAY_TOKEN_RE\<close>: no class holds the separator, so a match is a match of the nine fields.\<close>

definition gateway_token_re :: "string \<Rightarrow> bool" where
  "gateway_token_re t =
     (case split_sep (CHR ''.'') t of
        [version, expiry, generation, run, prof, reqs, toks, cost, tag] \<Rightarrow>
          version = ''gw1'' \<and> all_of is_hex 1 16 expiry \<and> all_of is_hex 1 8 generation \<and>
          all_of b64url_char 1 172 run \<and> all_of b64url_char 1 88 prof \<and>
          all_of is_digit 1 15 reqs \<and> all_of is_digit 1 15 toks \<and> all_of is_digit 1 15 cost \<and>
          all_of is_hex 64 64 tag
      | _ \<Rightarrow> False)"

text \<open>The checks after the parse. A field of at most 15 digits is a safe integer; \<open>parseInt\<close> of 16
  hexadecimal digits is a safe integer just when the exact value is.\<close>

definition verify_fields :: "(bytes \<Rightarrow> string) \<Rightarrow> int \<Rightarrow> string list \<Rightarrow> presented \<Rightarrow> verification" where
  "verify_fields mac now parts p =
     (case (decode_field (parts ! 3), decode_field (parts ! 4)) of
        (Some run, Some prof) \<Rightarrow>
          let expiryHex = parts ! 1; generationHex = parts ! 2;
              reqs = int (nat_of_string (parts ! 5)); toks = int (nat_of_string (parts ! 6));
              cost = int (nat_of_string (parts ! 7));
              expiresAtMs = int (nat_of_hex expiryHex); generation = int (nat_of_hex generationHex);
              bounds = \<lparr>maxRequests = reqs, maxTokens = toks, maxCostMicros = cost\<rparr> in
          if expiresAtMs > max_safe_integer \<or> generation > max_safe_integer \<or> generation < min_generation
          then Refused Invalid_token
          else if macFor mac run prof generationHex expiryHex bounds \<noteq> parts ! 8
          then Refused Invalid_token
          else if now \<ge> expiresAtMs then Refused Expired
          else if units (pr_runId p) \<noteq> run then Refused Wrong_run
          else if units (pr_modelProfile p) \<noteq> prof then Refused Profile_mismatch
          else if pr_expectedGeneration p \<noteq> generation then Refused Cancelled_generation
          else
            (case validateBudgetLimits (pr_limits p) of
               Inl e \<Rightarrow> Refused Invalid_token
             | Inr limits \<Rightarrow>
                 if maxRequests limits \<noteq> reqs \<or> maxTokens limits \<noteq> toks \<or> maxCostMicros limits \<noteq> cost
                 then Refused Budget_bounds_mismatch else Verified)
      | _ \<Rightarrow> Refused Invalid_token)"

definition max_token_chars :: nat where "max_token_chars = 512"

definition verifyDetailed :: "(bytes \<Rightarrow> string) \<Rightarrow> int \<Rightarrow> jsval \<Rightarrow> presented \<Rightarrow> verification" where
  "verifyDetailed mac now token p =
     (case token of
        JStr t \<Rightarrow>
          if t = '''' \<or> length t > max_token_chars then Refused Invalid_token
          else if \<not> gateway_token_re t then Refused Invalid_token
          else
            (let parts = split_sep (CHR ''.'') t in
             if length parts \<noteq> 9 \<or> parts ! 0 \<noteq> ''gw1'' then Refused Invalid_token
             else verify_fields mac now parts p)
      | _ \<Rightarrow> Refused Invalid_token)"

section \<open>Numerals and texts read back\<close>

lemma hex_cases:
  assumes "n < 16"
  shows "n \<in> {0, 1, 2, 3, 4, 5, 6, 7, 8, 9, 10, 11, 12, 13, 14, 15 :: nat}"
  using assms by (simp add: numeral_eq_Suc less_Suc_eq)

lemma hex_digit:
  assumes "n < 16"
  shows "hex_val (''0123456789abcdef'' ! n) = n" and "is_hex (''0123456789abcdef'' ! n)"
  using hex_cases [OF assms] by (auto simp: hex_val_def is_digit_def is_hex_def)

lemma nat_of_hex_of_nat: "nat_of_hex (hex_of_nat n) = n"
proof (induction n rule: hex_of_nat.induct)
  case (1 n)
  then show ?case
    by (cases "n < 16") (simp_all add: nat_of_hex_def hex_of_nat.simps [of n] hex_digit)
qed

lemma hex_of_nat_digits: "list_all is_hex (hex_of_nat n)"
proof (induction n rule: hex_of_nat.induct)
  case (1 n)
  then show ?case
    by (cases "n < 16") (simp_all add: hex_of_nat.simps [of n] hex_digit)
qed

lemma hex_of_nat_nonempty [simp]: "hex_of_nat n \<noteq> []"
  by (subst hex_of_nat.simps) simp

lemma hex_of_nat_length: "n < 16 ^ Suc k \<Longrightarrow> length (hex_of_nat n) \<le> Suc k"
proof (induction k arbitrary: n)
  case (Suc k)
  then have "n div 16 < 16 ^ Suc k" by (simp add: less_mult_imp_div_less mult.commute)
  with Suc.IH show ?case by (cases "n < 16") (simp_all add: hex_of_nat.simps [of n])
qed (simp add: hex_of_nat.simps)

lemma string_of_nat_length: "n < 10 ^ Suc k \<Longrightarrow> length (string_of_nat n) \<le> Suc k"
proof (induction k arbitrary: n)
  case (Suc k)
  then have "n div 10 < 10 ^ Suc k" by (simp add: less_mult_imp_div_less mult.commute)
  with Suc.IH show ?case by (cases "n < 10") (simp_all add: string_of_nat.simps [of n])
qed (simp add: string_of_nat.simps)

lemma hex_field:
  assumes "0 \<le> i" and "i < 16 ^ Suc k"
  shows "all_of is_hex 1 (Suc k) (hex_of_int i)"
proof -
  have "nat i < 16 ^ Suc k" using assms by (simp add: nat_less_iff)
  from hex_of_nat_length [OF this] show ?thesis
    using assms(1) hex_of_nat_digits [of "nat i"] by (simp add: all_of_def hex_of_int_def Suc_le_eq)
qed

lemma nat_of_hex_int: "0 \<le> i \<Longrightarrow> int (nat_of_hex (hex_of_int i)) = i"
  by (simp add: hex_of_int_def nat_of_hex_of_nat)

lemma hex_of_int_inject: "0 \<le> i \<Longrightarrow> 0 \<le> j \<Longrightarrow> hex_of_int i = hex_of_int j \<longleftrightarrow> i = j"
  by (metis nat_of_hex_int)

lemma decimal_field:
  "0 \<le> i \<Longrightarrow> i \<le> max_budget_limit \<Longrightarrow> all_of is_digit 1 15 (string_of_int i)"
  using string_of_nat_length [of "nat i" 14] string_of_nat_digits [of "nat i"]
  by (simp add: all_of_def string_of_int_def max_budget_limit_def Suc_le_eq)

lemma nat_of_string_int: "0 \<le> i \<Longrightarrow> int (nat_of_string (string_of_int i)) = i"
  by (simp add: string_of_int_def nat_of_string_of_nat)

definition plain_ascii :: "string \<Rightarrow> bool" where
  "plain_ascii s = list_all (\<lambda>c. code_unit c < 128) s"

lemma text_scan_ascii: "plain_ascii s \<Longrightarrow> text_scan (encode (units s)) = units s"
  by (induction s) (simp_all add: plain_ascii_def encode_cp_def text_lead_def unat_byte_small)

lemma encode_ascii_length: "plain_ascii s \<Longrightarrow> length (encode (units s)) = length s"
  by (induction s) (simp_all add: plain_ascii_def encode_cp_def)

lemma encode_empty [simp]: "encode ns = [] \<longleftrightarrow> ns = []"
  using encode_cp_length by (cases ns) auto

lemma decode_encode_field: "plain_ascii s \<Longrightarrow> decode_field (encode_field s) = Some (units s)"
  by (auto simp: decode_field_def encode_field_def Let_def base64url_roundtrip text_scan_ascii)

lemma units_inject [simp]: "units s = units t \<longleftrightarrow> s = t"
  by (rule inj_map_eq_map) (simp add: inj_def)

lemma field_length:
  "plain_ascii s \<Longrightarrow> s \<noteq> '''' \<Longrightarrow> length s \<le> k \<Longrightarrow>
    all_of b64url_char 1 ((4 * k + 2) div 3) (encode_field s)"
  using base64url_length [of "encode (units s)"] base64url_chars [of "encode (units s)"]
    div_le_mono [of "4 * length s + 2" "4 * k + 2" 3]
  by (simp add: all_of_def encode_field_def encode_ascii_length Suc_le_eq)

section \<open>What is minted\<close>

definition limits_ok :: "budget_limits \<Rightarrow> bool" where
  "limits_ok l \<longleftrightarrow> 1 \<le> maxRequests l \<and> maxRequests l \<le> max_budget_limit \<and>
     1 \<le> maxTokens l \<and> maxTokens l \<le> max_budget_limit \<and>
     0 \<le> maxCostMicros l \<and> maxCostMicros l \<le> max_budget_limit"

definition identity_ok :: "capability_identity \<Rightarrow> bool" where
  "identity_ok ci \<longleftrightarrow> run_id_re (ci_runId ci) \<and> profile_name_re (ci_modelProfile ci) \<and>
     1 \<le> ci_generation ci \<and> ci_generation ci \<le> max_generation \<and> limits_ok (ci_limits ci)"

lemma limit_amount_Some: "limit_amount v = Some i \<Longrightarrow> 0 \<le> i \<and> i \<le> max_budget_limit"
  by (auto simp: limit_amount_def isSafeNonNegativeInteger_def split: option.splits if_splits jsval.splits)

lemma validateBudgetLimits_ok: "validateBudgetLimits v = Inr l \<Longrightarrow> limits_ok l"
  by (auto simp: validateBudgetLimits_def limits_ok_def split: jsval.splits option.splits if_splits
      dest!: limit_amount_Some)

lemma requireIdentity_ok: "requireIdentity v = Inr ci \<Longrightarrow> identity_ok ci"
  by (auto simp: requireIdentity_def identity_ok_def isValidProfileName_def min_generation_def
      split: jsval.splits option.splits if_splits sum.splits dest: validateBudgetLimits_ok)

lemma alnum_ascii: "is_alnum c \<Longrightarrow> code_unit c < 128 \<and> code_unit c \<noteq> 10"
  by (auto simp: is_alnum_def)

lemma id_char_ascii:
  "run_id_char c \<Longrightarrow> code_unit c < 128 \<and> code_unit c \<noteq> 10"
  "profile_char c \<Longrightarrow> code_unit c < 128 \<and> code_unit c \<noteq> 10"
  using alnum_ascii [of c] by (auto simp: run_id_char_def profile_char_def)

lemma ascii_line:
  "list_all (\<lambda>c. code_unit c < 128 \<and> code_unit c \<noteq> 10) s \<Longrightarrow> plain_ascii s \<and> 10 \<notin> set (units s)"
  unfolding plain_ascii_def list_all_iff set_map by force

lemma run_id_ascii:
  assumes "run_id_re s"
  shows "plain_ascii s" and "s \<noteq> ''''" and "length s \<le> 128" and "10 \<notin> set (units s)"
proof -
  obtain c cs where s: "s = c # cs" using assms by (cases s) auto
  then have "list_all (\<lambda>c. code_unit c < 128 \<and> code_unit c \<noteq> 10) s" and "length s \<le> 128"
    using assms alnum_ascii [of c] id_char_ascii(1) by (simp_all add: list_all_iff)
  then show "plain_ascii s" "s \<noteq> ''''" "length s \<le> 128" "10 \<notin> set (units s)"
    using s ascii_line by blast+
qed

lemma profile_name_ascii:
  assumes "profile_name_re s"
  shows "plain_ascii s" and "s \<noteq> ''''" and "length s \<le> 64" and "10 \<notin> set (units s)"
proof -
  obtain c cs where s: "s = c # cs" using assms by (cases s) auto
  then have "list_all (\<lambda>c. code_unit c < 128 \<and> code_unit c \<noteq> 10) s" and "length s \<le> 64"
    using assms alnum_ascii [of c] id_char_ascii(2) by (simp_all add: list_all_iff)
  then show "plain_ascii s" "s \<noteq> ''''" "length s \<le> 64" "10 \<notin> set (units s)"
    using s ascii_line by blast+
qed

lemma all_of_free: "all_of p lo hi s \<Longrightarrow> \<not> p c \<Longrightarrow> c \<notin> set s"
  by (auto simp: all_of_def list_all_iff)

lemma dot_free:
  "all_of is_hex lo hi s \<Longrightarrow> CHR ''.'' \<notin> set s"
  "all_of is_digit lo hi s \<Longrightarrow> CHR ''.'' \<notin> set s"
  "all_of b64url_char lo hi s \<Longrightarrow> CHR ''.'' \<notin> set s"
  by (erule all_of_free, simp add: is_hex_def is_digit_def b64url_char_def is_alnum_def)+

definition tag_form :: "(bytes \<Rightarrow> string) \<Rightarrow> bool" where
  "tag_form mac = (\<forall>x. all_of is_hex 64 64 (mac x))"

text \<open>The nine fields, and the form of each.\<close>

definition token_fields :: "(bytes \<Rightarrow> string) \<Rightarrow> capability_identity \<Rightarrow> int \<Rightarrow> string list" where
  "token_fields mac ci e =
     [''gw1'', hex_of_int e, hex_of_int (ci_generation ci), encode_field (ci_runId ci),
      encode_field (ci_modelProfile ci), string_of_int (maxRequests (ci_limits ci)),
      string_of_int (maxTokens (ci_limits ci)), string_of_int (maxCostMicros (ci_limits ci)),
      macFor mac (units (ci_runId ci)) (units (ci_modelProfile ci)) (hex_of_int (ci_generation ci))
        (hex_of_int e) (ci_limits ci)]"

lemma minted_fields:
  assumes "identity_ok ci" and "tag_form mac" and "0 \<le> e" and "e \<le> max_safe_integer"
  shows "all_of is_hex 1 16 (hex_of_int e)" and "all_of is_hex 1 8 (hex_of_int (ci_generation ci))"
    and "all_of b64url_char 1 172 (encode_field (ci_runId ci))"
    and "all_of b64url_char 1 88 (encode_field (ci_modelProfile ci))"
    and "all_of is_digit 1 15 (string_of_int (maxRequests (ci_limits ci)))"
    and "all_of is_digit 1 15 (string_of_int (maxTokens (ci_limits ci)))"
    and "all_of is_digit 1 15 (string_of_int (maxCostMicros (ci_limits ci)))"
    and "all_of is_hex 64 64 (macFor mac r p g h l)"
proof -
  have ok: "run_id_re (ci_runId ci)" "profile_name_re (ci_modelProfile ci)" "0 \<le> ci_generation ci"
    "ci_generation ci < 16 ^ Suc 7" "limits_ok (ci_limits ci)"
    using assms(1) by (simp_all add: identity_ok_def max_generation_def)
  show "all_of is_hex 1 16 (hex_of_int e)"
    using hex_field [OF assms(3), of 15] assms(4) by (simp add: max_safe_integer_def)
  show "all_of is_hex 1 8 (hex_of_int (ci_generation ci))"
    using hex_field [OF ok(3,4)] by simp
  show "all_of b64url_char 1 172 (encode_field (ci_runId ci))"
    using field_length [OF run_id_ascii(1,2,3) [OF ok(1)]] ok(1) by (simp add: all_of_def)
  show "all_of b64url_char 1 88 (encode_field (ci_modelProfile ci))"
    using field_length [OF profile_name_ascii(1,2,3) [OF ok(2)]] ok(2) by (simp add: all_of_def)
  show "all_of is_digit 1 15 (string_of_int (maxRequests (ci_limits ci)))"
    "all_of is_digit 1 15 (string_of_int (maxTokens (ci_limits ci)))"
    "all_of is_digit 1 15 (string_of_int (maxCostMicros (ci_limits ci)))"
    using ok(5) by (auto simp: limits_ok_def intro!: decimal_field simp del: One_nat_def)
  show "all_of is_hex 64 64 (macFor mac r p g h l)"
    using assms(2) by (simp add: tag_form_def macFor_def)
qed

lemma token_split:
  assumes "identity_ok ci" and "tag_form mac" and "0 \<le> e" and "e \<le> max_safe_integer"
  shows "split_sep (CHR ''.'') (token_text mac ci e) = token_fields mac ci e"
proof -
  note f = minted_fields [OF assms]
  have "split_sep (CHR ''.'') (''gw1.'' @ rest) = ''gw1'' # split_sep (CHR ''.'') rest" for rest
    by simp
  then show ?thesis
    using dot_free(1) [OF f(1)] dot_free(1) [OF f(2)] dot_free(3) [OF f(3)] dot_free(3) [OF f(4)]
      dot_free(2) [OF f(5)] dot_free(2) [OF f(6)] dot_free(2) [OF f(7)] dot_free(1) [OF f(8)]
    by (simp add: token_text_def token_fields_def Let_def split_sep_field split_sep_free)
qed

lemma token_length:
  assumes "identity_ok ci" and "tag_form mac" and "0 \<le> e" and "e \<le> max_safe_integer"
  shows "length (token_text mac ci e) \<le> max_token_chars"
proof -
  have size: "length s \<le> hi" if "all_of p lo hi s" for p lo hi s
    using that by (simp add: all_of_def)
  note f = minted_fields [OF assms]
  show ?thesis
    using size [OF f(1)] size [OF f(2)] size [OF f(3)] size [OF f(4)] size [OF f(5)] size [OF f(6)]
      size [OF f(7)] size [OF f(8) [of "units (ci_runId ci)" "units (ci_modelProfile ci)"
        "hex_of_int (ci_generation ci)" "hex_of_int e" "ci_limits ci"]]
    unfolding token_text_def Let_def max_token_chars_def length_append by simp
qed

text \<open>What the verifier decides on a token of its own: the claims the token was minted for, one by one.\<close>

definition token_decision :: "capability_identity \<Rightarrow> int \<Rightarrow> int \<Rightarrow> presented \<Rightarrow> verification" where
  "token_decision ci expiresAtMs now p =
     (if now \<ge> expiresAtMs then Refused Expired
      else if pr_runId p \<noteq> ci_runId ci then Refused Wrong_run
      else if pr_modelProfile p \<noteq> ci_modelProfile ci then Refused Profile_mismatch
      else if pr_expectedGeneration p \<noteq> ci_generation ci then Refused Cancelled_generation
      else
        (case validateBudgetLimits (pr_limits p) of
           Inl e \<Rightarrow> Refused Invalid_token
         | Inr limits \<Rightarrow> if limits \<noteq> ci_limits ci then Refused Budget_bounds_mismatch else Verified))"

lemma token_re:
  assumes "identity_ok ci" and "tag_form mac" and "0 \<le> e" and "e \<le> max_safe_integer"
  shows "gateway_token_re (token_text mac ci e)"
  using minted_fields [OF assms]
  unfolding gateway_token_re_def token_split [OF assms] token_fields_def list.case by blast

lemma limits_eta:
  "\<lparr>maxRequests = maxRequests l, maxTokens = maxTokens l, maxCostMicros = maxCostMicros l\<rparr> = l"
  by simp

lemma limits_eq_iff:
  fixes l m :: budget_limits
  shows "l = m \<longleftrightarrow> maxRequests l = maxRequests m \<and> maxTokens l = maxTokens m \<and> maxCostMicros l = maxCostMicros m"
  by (auto intro: budget_limits.equality)

lemma verify_token:
  assumes "identity_ok ci" and "tag_form mac" and "0 \<le> e" and "e \<le> max_safe_integer"
  shows "verifyDetailed mac now (JStr (token_text mac ci e)) p = token_decision ci e now p"
proof -
  let ?t = "token_text mac ci e"
  have ne: "?t \<noteq> ''''" by (simp add: token_text_def Let_def)
  have len: "length (token_fields mac ci e) = 9" and v: "token_fields mac ci e ! 0 = ''gw1''"
    by (simp_all add: token_fields_def)
  have "verifyDetailed mac now (JStr ?t) p = verify_fields mac now (token_fields mac ci e) p"
    using ne token_length [OF assms] token_re [OF assms] len v
    by (simp add: verifyDetailed_def token_split [OF assms] Let_def)
  moreover have ok: "run_id_re (ci_runId ci)" "profile_name_re (ci_modelProfile ci)"
      "1 \<le> ci_generation ci" "ci_generation ci \<le> max_safe_integer" "limits_ok (ci_limits ci)"
    using assms(1) by (simp_all add: identity_ok_def max_generation_def max_safe_integer_def)
  moreover have "0 \<le> maxRequests (ci_limits ci)" "0 \<le> maxTokens (ci_limits ci)"
      "0 \<le> maxCostMicros (ci_limits ci)"
    using ok(5) by (simp_all add: limits_ok_def)
  moreover have "decode_field (encode_field (ci_runId ci)) = Some (units (ci_runId ci))"
      "decode_field (encode_field (ci_modelProfile ci)) = Some (units (ci_modelProfile ci))"
    using ok(1,2) by (auto intro: decode_encode_field run_id_ascii profile_name_ascii)
  moreover have "0 \<le> ci_generation ci" using ok(3) by simp
  moreover from this have "nat_of_hex (hex_of_int (ci_generation ci)) \<noteq> 0"
    using nat_of_hex_int [of "ci_generation ci"] ok(3) by linarith
  ultimately show ?thesis
    using assms(3,4)
    by (simp add: verify_fields_def token_decision_def token_fields_def Let_def nat_of_hex_int
        nat_of_string_int min_generation_def limits_eta limits_eq_iff split: sum.split)
qed

lemma token_ttl_Some: "token_ttl v = Some t \<Longrightarrow> 0 < t \<and> t \<le> max_ttl_ms"
  by (auto simp: token_ttl_def default_ttl_ms_def max_ttl_ms_def
      split: jsval.splits option.splits if_splits)

lemma mint_Inr:
  assumes "mint mac now identity ttlMs = Inr t"
  obtains ci ttl where "requireIdentity identity = Inr ci" and "identity_ok ci"
    and "mt_token t = token_text mac ci (now + ttl)" and "mt_expiresAtMs t = now + ttl"
    and "mt_generation t = ci_generation ci" and "0 < ttl" and "ttl \<le> max_ttl_ms"
  using assms requireIdentity_ok token_ttl_Some
  by (auto simp: mint_def split: sum.splits option.splits)

section \<open>Properties\<close>

definition sample_gateway_identity :: jsval where
  "sample_gateway_identity = JObj [(''runId'', JStr ''run1''), (''modelProfile'', JStr ''fast''),
     (''generation'', js_int 1), (''limits'', sample_limits)]"

definition sample_claims :: capability_identity where
  "sample_claims = \<lparr>ci_runId = ''run1'', ci_modelProfile = ''fast'', ci_generation = 1,
     ci_limits = sample_caps\<rparr>"

lemma sample_gateway_identity_ok: "requireIdentity sample_gateway_identity = Inr sample_claims"
proof -
  have "safe_int (Fin (1 :: rat)) = Some 1"
    using safe_int_of_int [of 1] by (simp add: max_safe_integer_def)
  then show ?thesis
    by (simp add: requireIdentity_def sample_gateway_identity_def sample_claims_def sample_limits_valid
        js_int_def isValidProfileName_def is_alnum_def run_id_char_def profile_char_def
        min_generation_def max_generation_def)
qed

definition sample_mac :: "bytes \<Rightarrow> string" where
  "sample_mac x =
     replicate 64 (if x = encode (mac_text (units ''run1'') (units ''fast'') ''1'' ''36ee87'' sample_caps)
       then CHR ''a'' else CHR ''b'')"

lemma sample_mac_form: "tag_form sample_mac"
  by (simp add: tag_form_def sample_mac_def all_of_def is_hex_def list_all_iff)

lemma sample_minted:
  "mint sample_mac 7 sample_gateway_identity JUndef =
     Inr \<lparr>mt_token = token_text sample_mac sample_claims 3600007, mt_expiresAtMs = 3600007, mt_generation = 1\<rparr>"
  by (simp add: mint_def sample_gateway_identity_ok token_ttl_def default_ttl_ms_def sample_claims_def)

lemma sample_minted_at:
  "mint sample_mac 7 sample_gateway_identity JUndef = Inr t \<Longrightarrow>
     mt_token t = token_text sample_mac sample_claims 3600007"
  by (simp add: sample_minted) auto

text \<open>C25: A minted token verifies as what it was minted for, and as nothing else. Whatever identity, limits
  and lifetime the controller asks for, a token it is given is accepted exactly while the clock is
  before its expiry (which lies at most seven days ahead) and the run, the profile, the cancellation
  generation and the three limits presented are those it was minted for; any other presentation is
  refused with the code of the first claim that differs.\<close>

theorem token_roundtrip:
  assumes "mint mac now identity ttlMs = Inr t" and "tag_form mac"
    and "0 \<le> now" and "now + max_ttl_ms \<le> max_safe_integer"
  shows "\<exists>ci. requireIdentity identity = Inr ci \<and> mt_generation t = ci_generation ci \<and>
    now < mt_expiresAtMs t \<and> mt_expiresAtMs t \<le> now + max_ttl_ms \<and>
    (\<forall>now' p. verifyDetailed mac now' (JStr (mt_token t)) p =
      (if now' \<ge> mt_expiresAtMs t then Refused Expired
       else if pr_runId p \<noteq> ci_runId ci then Refused Wrong_run
       else if pr_modelProfile p \<noteq> ci_modelProfile ci then Refused Profile_mismatch
       else if pr_expectedGeneration p \<noteq> ci_generation ci then Refused Cancelled_generation
       else (case validateBudgetLimits (pr_limits p) of
          Inl e \<Rightarrow> Refused Invalid_token
        | Inr limits \<Rightarrow>
            if limits \<noteq> ci_limits ci then Refused Budget_bounds_mismatch else Verified)))"
proof -
  obtain ci ttl where m: "requireIdentity identity = Inr ci" "identity_ok ci"
    "mt_token t = token_text mac ci (now + ttl)" "mt_expiresAtMs t = now + ttl"
    "mt_generation t = ci_generation ci" "0 < ttl" "ttl \<le> max_ttl_ms"
    by (rule mint_Inr [OF assms(1)])
  have "verifyDetailed mac now' (JStr (mt_token t)) p = token_decision ci (now + ttl) now' p" for now' p
    unfolding m(3) using assms(3,4) m(6,7) by (intro verify_token m(2) assms(2)) simp_all
  then show ?thesis using m by (auto simp: token_decision_def)
qed

theorem token_roundtrip_witness:
  "verifyDetailed sample_mac 3600007 (JStr (token_text sample_mac sample_claims 3600007))
     \<lparr>pr_runId = ''run1'', pr_modelProfile = ''fast'', pr_expectedGeneration = 1,
      pr_limits = sample_limits\<rparr> = Refused Expired"
  using token_roundtrip [OF sample_minted sample_mac_form] by (auto simp: max_ttl_ms_def max_safe_integer_def)

subsection \<open>The MAC input determines the claims\<close>

lemma units_scalar: "list_all scalar (units s)"
proof -
  have "code_unit c < 0xD800" for c :: char
    using nat_of_char_less_256 [of c] by linarith
  then show ?thesis by (simp add: list_all_iff scalar_def)
qed

lemma encode_inject: "list_all scalar ms \<Longrightarrow> list_all scalar ns \<Longrightarrow> encode ms = encode ns \<longleftrightarrow> ms = ns"
  by (metis decode_encode)

lemma hex_line: "list_all is_hex s \<Longrightarrow> 10 \<notin> set (units s)"
  by (force simp: list_all_iff is_hex_def)

lemma decimal_line: "10 \<notin> set (units (string_of_int i))"
  using string_of_int_no_newline by (force simp: newline_char_def)

lemma mac_text_fields:
  assumes "10 \<notin> set run" and "10 \<notin> set prof" and "list_all is_hex g" and "list_all is_hex e"
  shows "split_sep 10 (mac_text run prof g e l) =
    [run, prof, units g, units e, units (string_of_int (maxRequests l)),
     units (string_of_int (maxTokens l)), units (string_of_int (maxCostMicros l))]"
  using assms(1,2) hex_line [OF assms(3)] hex_line [OF assms(4)] decimal_line
  by (simp add: mac_text_def split_sep_field split_sep_free del: set_map)

lemma mac_text_inject:
  assumes "10 \<notin> set run" and "10 \<notin> set prof" and "list_all is_hex g" and "list_all is_hex e"
    and "10 \<notin> set run'" and "10 \<notin> set prof'" and "list_all is_hex g'" and "list_all is_hex e'"
    and "mac_text run prof g e l = mac_text run' prof' g' e' l'"
  shows "run = run' \<and> prof = prof' \<and> g = g' \<and> e = e' \<and> l = l'"
  using mac_text_fields [OF assms(1-4), of l] mac_text_fields [OF assms(5-8), of l'] assms(9)
  by (simp add: limits_eq_iff)

lemma mac_text_scalar:
  "list_all scalar run \<Longrightarrow> list_all scalar prof \<Longrightarrow> list_all scalar (mac_text run prof g e l)"
  using units_scalar by (simp only: mac_text_def list_all_append list.pred_inject scalar_def) simp

definition token_tag :: "jsval \<Rightarrow> string" where
  "token_tag token = (case token of JStr t \<Rightarrow> last (split_sep (CHR ''.'') t) | _ \<Rightarrow> '''')"

text \<open>What an accepted token says.\<close>

lemma verified_claims:
  assumes "verifyDetailed mac now token p = Verified"
  obtains g e limits where "list_all is_hex g" and "list_all is_hex e"
    and "validateBudgetLimits (pr_limits p) = Inr limits"
    and "pr_expectedGeneration p = int (nat_of_hex g)" and "now < int (nat_of_hex e)"
    and "macFor mac (units (pr_runId p)) (units (pr_modelProfile p)) g e limits = token_tag token"
proof -
  obtain t where t: "token = JStr t" "gateway_token_re t"
      "verify_fields mac now (split_sep (CHR ''.'') t) p = Verified"
    using assms by (auto simp: verifyDetailed_def Let_def split: jsval.splits if_splits)
  obtain v e g r f a b c m where parts: "split_sep (CHR ''.'') t = [v, e, g, r, f, a, b, c, m]"
      and hex: "list_all is_hex g" "list_all is_hex e"
    using t(2) unfolding gateway_token_re_def all_of_def by (auto split: list.splits)
  show thesis
  proof (rule that [OF hex])
    show "pr_expectedGeneration p = int (nat_of_hex g)" "now < int (nat_of_hex e)"
      using t(3) unfolding parts
      by (auto simp: verify_fields_def Let_def split: option.splits if_splits sum.splits)
    let ?b = "\<lparr>maxRequests = int (nat_of_string a), maxTokens = int (nat_of_string b),
      maxCostMicros = int (nat_of_string c)\<rparr>"
    obtain l where l: "validateBudgetLimits (pr_limits p) = Inr l" "maxRequests l = maxRequests ?b"
        "maxTokens l = maxTokens ?b" "maxCostMicros l = maxCostMicros ?b"
        "macFor mac (units (pr_runId p)) (units (pr_modelProfile p)) g e ?b = m"
      using t(3) unfolding parts
      by (auto simp: verify_fields_def Let_def split: option.splits if_splits sum.splits)
    then have "l = ?b" by (simp only: limits_eq_iff)
    with l(1,5) show "validateBudgetLimits (pr_limits p) = Inr ?b"
      "macFor mac (units (pr_runId p)) (units (pr_modelProfile p)) g e ?b = token_tag token"
      by (simp_all add: t(1) token_tag_def parts)
  qed
qed

text \<open>The MAC inputs of a set of identities with their expiries.\<close>

definition signed_inputs :: "(capability_identity \<times> int) set \<Rightarrow> bytes set" where
  "signed_inputs M =
     (\<lambda>(ci, e). encode (mac_text (units (ci_runId ci)) (units (ci_modelProfile ci))
        (hex_of_int (ci_generation ci)) (hex_of_int e) (ci_limits ci))) ` M"

text \<open>No authority that was not minted. If the only MAC inputs with the tag a token carries are inputs
  the controller signed when it minted the identities in M (the tag was not forged and does not
  collide), then a token that is accepted for a well-formed run and profile was minted for exactly that
  run, that profile, the generation the ledger now expects and the gateway's own limits, and its
  expiry has not passed: no field can be altered, moved into a neighbouring field or stripped.\<close>

theorem capability_sound:
  assumes "verifyDetailed mac now token p = Verified"
    and "run_id_re (pr_runId p)" and "profile_name_re (pr_modelProfile p)"
    and "\<forall>(ci, e) \<in> M. \<exists>t0 identity ttlMs t. 0 \<le> t0 \<and> mint mac t0 identity ttlMs = Inr t \<and>
      requireIdentity identity = Inr ci \<and> mt_expiresAtMs t = e"
    and "\<forall>x. mac x = token_tag token \<longrightarrow> x \<in> signed_inputs M"
  shows "\<exists>limits e. validateBudgetLimits (pr_limits p) = Inr limits \<and> now < e \<and>
    (\<lparr>ci_runId = pr_runId p, ci_modelProfile = pr_modelProfile p,
      ci_generation = pr_expectedGeneration p, ci_limits = limits\<rparr>, e) \<in> M"
proof -
  obtain g e limits where v: "list_all is_hex g" "list_all is_hex e"
      "validateBudgetLimits (pr_limits p) = Inr limits" "pr_expectedGeneration p = int (nat_of_hex g)"
      "now < int (nat_of_hex e)"
      "mac (encode (mac_text (units (pr_runId p)) (units (pr_modelProfile p)) g e limits)) = token_tag token"
    using verified_claims [OF assms(1)] unfolding macFor_def by metis
  from assms(5) v(6) have "encode (mac_text (units (pr_runId p)) (units (pr_modelProfile p)) g e limits)
      \<in> signed_inputs M" by blast
  then obtain ci x where ci: "(ci, x) \<in> M"
      "encode (mac_text (units (pr_runId p)) (units (pr_modelProfile p)) g e limits) =
       encode (mac_text (units (ci_runId ci)) (units (ci_modelProfile ci)) (hex_of_int (ci_generation ci))
         (hex_of_int x) (ci_limits ci))"
    unfolding signed_inputs_def by (elim imageE) (simp split: prod.splits)
  then have same: "mac_text (units (pr_runId p)) (units (pr_modelProfile p)) g e limits =
      mac_text (units (ci_runId ci)) (units (ci_modelProfile ci)) (hex_of_int (ci_generation ci))
        (hex_of_int x) (ci_limits ci)"
    by (simp only: encode_inject mac_text_scalar units_scalar)
  have ok: "identity_ok ci" and x: "0 \<le> x"
    using assms(4) ci(1) by (force dest: requireIdentity_ok elim: mint_Inr)+
  then have c: "run_id_re (ci_runId ci)" "profile_name_re (ci_modelProfile ci)" "0 \<le> ci_generation ci"
    by (simp_all add: identity_ok_def)
  have "pr_runId p = ci_runId ci \<and> pr_modelProfile p = ci_modelProfile ci \<and>
      g = hex_of_int (ci_generation ci) \<and> e = hex_of_int x \<and> limits = ci_limits ci"
    using mac_text_inject [OF _ _ v(1,2) _ _ _ _ same] run_id_ascii(4) profile_name_ascii(4) assms(2,3)
      c(1,2) hex_of_nat_digits x c(3) unfolding hex_of_int_def by (simp del: set_map)
  moreover have "\<lparr>ci_runId = ci_runId ci, ci_modelProfile = ci_modelProfile ci,
      ci_generation = ci_generation ci, ci_limits = ci_limits ci\<rparr> = ci"
    by simp
  ultimately show ?thesis
    using v(3,4,5) ci(1) x c(3) by (auto simp: nat_of_hex_int simp del: capability_identity.simps)
qed

lemma sample_token_tag: "token_tag (JStr (token_text sample_mac sample_claims 3600007)) = replicate 64 (CHR ''a'')"
proof -
  have "hex_of_int 3600007 = ''36ee87''" "hex_of_int 1 = ''1''"
    by (simp_all add: hex_of_int_def hex_of_nat.simps)
  moreover have "identity_ok sample_claims" by (rule requireIdentity_ok [OF sample_gateway_identity_ok])
  ultimately show ?thesis
    using token_split [of sample_claims sample_mac 3600007] sample_mac_form
    by (simp add: token_tag_def token_fields_def macFor_def sample_mac_def sample_claims_def
        max_safe_integer_def)
qed

lemma sample_mac_a: "sample_mac x = replicate 64 (CHR ''a'') \<Longrightarrow>
    x = encode (mac_text (units ''run1'') (units ''fast'') ''1'' ''36ee87'' sample_caps)"
  by (simp add: sample_mac_def replicate_eq_replicate split: if_splits)

theorem capability_sound_witness:
  "\<exists>limits e. validateBudgetLimits sample_limits = Inr limits \<and> (7::int) < e \<and>
    (\<lparr>ci_runId = ''run1'', ci_modelProfile = ''fast'', ci_generation = 1, ci_limits = limits\<rparr>, e) \<in>
      {(sample_claims, 3600007)}"
proof -
  let ?p = "\<lparr>pr_runId = ''run1'', pr_modelProfile = ''fast'', pr_expectedGeneration = 1,
    pr_limits = sample_limits\<rparr>"
  let ?t = "JStr (token_text sample_mac sample_claims 3600007)"
  have "identity_ok sample_claims" by (rule requireIdentity_ok [OF sample_gateway_identity_ok])
  then have v: "verifyDetailed sample_mac 7 ?t ?p = Verified"
    using verify_token [of sample_claims sample_mac 3600007 7 ?p] sample_mac_form
    by (simp add: token_decision_def sample_claims_def sample_limits_valid max_safe_integer_def)
  have ids: "run_id_re (pr_runId ?p)" "profile_name_re (pr_modelProfile ?p)"
    by (simp_all add: is_alnum_def run_id_char_def profile_char_def)
  have m: "\<forall>(ci, e) \<in> {(sample_claims, 3600007)}. \<exists>t0 identity ttlMs t. 0 \<le> t0 \<and>
      mint sample_mac t0 identity ttlMs = Inr t \<and> requireIdentity identity = Inr ci \<and> mt_expiresAtMs t = e"
    using sample_minted sample_gateway_identity_ok by (force intro: exI [of _ 7])
  have h: "hex_of_int 3600007 = ''36ee87''" "hex_of_int 1 = ''1''"
    by (simp_all add: hex_of_int_def hex_of_nat.simps)
  have f: "\<forall>x. sample_mac x = token_tag ?t \<longrightarrow> x \<in> signed_inputs {(sample_claims, 3600007)}"
    using sample_mac_a unfolding sample_token_tag by (simp add: signed_inputs_def h sample_claims_def)
  from capability_sound [OF v ids m f] show ?thesis by simp
qed

end
