(* ===== verification/Gateway_Sanitize.thy ===== *)
theory Gateway_Sanitize
  imports Gateway_Capability
begin

text \<open>
  What the gateway does with a provider's answer before it leaves: the content gate of
  \<^verbatim>\<open>src/gateway/sanitize.ts\<close> with \<open>containsKnownSecret\<close> of \<^verbatim>\<open>src/context/redact.ts\<close> and the
  list of secrets of \<^verbatim>\<open>src/transport/headers.ts\<close>, and the usage record of \<^verbatim>\<open>src/state/types.ts\<close>
  and \<^verbatim>\<open>src/state/usage.ts\<close>. The masking of the diagnostic copies (the raw body, the transport
  failure) is not modelled.
\<close>

section \<open>Spellings of a secret\<close>

definition uri_unreserved :: "byte \<Rightarrow> bool" where
  "uri_unreserved b =
     (let c = char_of (unat b) in unat b < 128 \<and> (is_alnum c \<or> c \<in> set ''-_.!~*()'' \<or> c = CHR 0x27))"

definition percent_byte :: "byte \<Rightarrow> string" where
  "percent_byte b =
     (if uri_unreserved b then [char_of (unat b)]
      else [CHR ''%'', ''0123456789ABCDEF'' ! (unat b div 16), ''0123456789ABCDEF'' ! (unat b mod 16)])"

definition encodeURIComponent :: "string \<Rightarrow> string" where
  "encodeURIComponent s = concat (map percent_byte (encode (units s)))"

definition base64_of :: "string \<Rightarrow> string" where
  "base64_of s = base64_encode (encode (units s))"

text \<open>\<open>JSON.stringify(s).slice(1, -1)\<close>\<close>

definition json_escape_char :: "char \<Rightarrow> string" where
  "json_escape_char c =
     (let u = code_unit c; bs = CHR 0x5C in
      if u = 0x22 \<or> u = 0x5C then [bs, c]
      else if u = 8 then [bs, CHR ''b''] else if u = 12 then [bs, CHR ''f'']
      else if u = 10 then [bs, CHR ''n''] else if u = 13 then [bs, CHR ''r'']
      else if u = 9 then [bs, CHR ''t'']
      else if u < 32
      then bs # ''u00'' @ [''0123456789abcdef'' ! (u div 16), ''0123456789abcdef'' ! (u mod 16)]
      else [c])"

definition jsonEscaped :: "string \<Rightarrow> string" where
  "jsonEscaped s = concat (map json_escape_char s)"

section \<open>The content gate\<close>

definition min_known_secret_content_len :: nat where
  "min_known_secret_content_len = 8"

definition secret_variants :: "string \<Rightarrow> string list" where
  "secret_variants secret =
     (let belowFloor = length secret < min_known_secret_content_len;
          encoded = encodeURIComponent secret; b64 = base64_of secret in
      (if belowFloor then [] else [secret]) @
      (if \<not> belowFloor \<or> encoded \<noteq> secret then [encoded] else []) @
      (if \<not> belowFloor \<or> b64 \<noteq> secret then [b64] else []))"

definition containsKnownSecret :: "string \<Rightarrow> string list \<Rightarrow> bool" where
  "containsKnownSecret txt secrets =
     list_ex (\<lambda>secret. secret \<noteq> '''' \<and>
       list_ex (\<lambda>variant. variant \<noteq> '''' \<and> sublist variant txt) (secret_variants secret)) secrets"

definition callKnownSecrets :: "string \<Rightarrow> (string \<times> string) list \<Rightarrow> string list" where
  "callKnownSecrets apiKey extraHeaders = apiKey # map snd extraHeaders"

definition set_add :: "'a \<Rightarrow> 'a list \<Rightarrow> 'a list" where
  "set_add x xs = (if x \<in> set xs then xs else xs @ [x])"

definition add_secret :: "string \<Rightarrow> string list \<Rightarrow> string list" where
  "add_secret secret extended =
     (if secret = '''' then extended
      else
        let extended = set_add secret extended; escaped = jsonEscaped secret in
        if escaped \<noteq> secret then set_add escaped extended else extended)"

definition gatewayCallSecrets :: "string \<Rightarrow> (string \<times> string) list \<Rightarrow> string list" where
  "gatewayCallSecrets apiKey extraHeaders = fold add_secret (callKnownSecrets apiKey extraHeaders) []"

definition max_scan_depth :: nat where
  "max_scan_depth = 32"

fun carriesKnownSecret :: "jsval \<Rightarrow> string list \<Rightarrow> nat \<Rightarrow> bool"
  and carries_item :: "jsval list \<Rightarrow> string list \<Rightarrow> nat \<Rightarrow> bool"
  and carries_entry :: "(string \<times> jsval) list \<Rightarrow> string list \<Rightarrow> nat \<Rightarrow> bool" where
  "carriesKnownSecret v secrets depth =
     (case v of
        JStr s \<Rightarrow> containsKnownSecret s secrets
      | JArr items \<Rightarrow> depth \<ge> max_scan_depth \<or> carries_item items secrets (depth + 1)
      | JObj ps \<Rightarrow> depth \<ge> max_scan_depth \<or> carries_entry ps secrets (depth + 1)
      | _ \<Rightarrow> depth \<ge> max_scan_depth)"
| "carries_item [] secrets depth = False"
| "carries_item (item # items) secrets depth =
     (carriesKnownSecret item secrets depth \<or> carries_item items secrets depth)"
| "carries_entry [] secrets depth = False"
| "carries_entry ((key, item) # ps) secrets depth =
     (containsKnownSecret key secrets \<or> carriesKnownSecret item secrets depth \<or>
      carries_entry ps secrets depth)"

declare carriesKnownSecret.simps [simp del]

definition responseCarriesKnownSecret :: "jsval \<Rightarrow> string list \<Rightarrow> bool" where
  "responseCarriesKnownSecret response secrets = carriesKnownSecret response secrets 0"

section \<open>Usage records\<close>

datatype usage_role = Role_primary | Role_specialist | Role_tool | Role_evidence | Role_judge

definition js_usage_role :: "jsval \<Rightarrow> usage_role option" where
  "js_usage_role v =
     (if v = JStr ''primary'' then Some Role_primary
      else if v = JStr ''specialist'' then Some Role_specialist
      else if v = JStr ''tool'' then Some Role_tool
      else if v = JStr ''evidence'' then Some Role_evidence
      else if v = JStr ''judge'' then Some Role_judge else None)"

datatype cost_provenance = Provider_reported | Configured_estimate | Unknown_cost

definition js_cost_provenance :: "jsval \<Rightarrow> cost_provenance option" where
  "js_cost_provenance v =
     (if v = JStr ''provider-reported'' then Some Provider_reported
      else if v = JStr ''configured-estimate'' then Some Configured_estimate
      else if v = JStr ''unknown'' then Some Unknown_cost else None)"

record usage_record =
  ur_usageId :: string
  ur_runId :: string
  ur_route :: string
  ur_role :: usage_role
  ur_requestCount :: int
  ur_inputTokens :: int
  ur_cacheReadTokens :: int
  ur_cacheWriteTokens :: int
  ur_outputTokens :: int
  ur_costMicros :: int
  ur_costProvenance :: cost_provenance
  ur_recordedAtMs :: int

definition validateUsage :: "jsval \<Rightarrow> usage_record option" where
  "validateUsage v =
    (case v of
       JObj ps \<Rightarrow> do {
         usageId \<leftarrow> ledger_identifier (get_prop ps ''usageId'') 256;
         run \<leftarrow> ledger_identifier (get_prop ps ''runId'') 128;
         route \<leftarrow> ledger_identifier (get_prop ps ''route'') 128;
         role \<leftarrow> js_usage_role (get_prop ps ''role'');
         reqs \<leftarrow> positive_integer (get_prop ps ''requestCount'');
         it \<leftarrow> isSafeNonNegativeInteger (get_prop ps ''inputTokens'');
         cr \<leftarrow> isSafeNonNegativeInteger (get_prop ps ''cacheReadTokens'');
         cw \<leftarrow> isSafeNonNegativeInteger (get_prop ps ''cacheWriteTokens'');
         ot \<leftarrow> isSafeNonNegativeInteger (get_prop ps ''outputTokens'');
         cost \<leftarrow> isSafeNonNegativeInteger (get_prop ps ''costMicros'');
         prov \<leftarrow> js_cost_provenance (get_prop ps ''costProvenance'');
         require_that (\<not> (prov = Unknown_cost \<and> cost \<noteq> 0));
         recorded \<leftarrow> isSafeNonNegativeInteger (get_prop ps ''recordedAtMs'');
         Some \<lparr>ur_usageId = usageId, ur_runId = run, ur_route = route, ur_role = role,
           ur_requestCount = reqs, ur_inputTokens = it, ur_cacheReadTokens = cr,
           ur_cacheWriteTokens = cw, ur_outputTokens = ot, ur_costMicros = cost,
           ur_costProvenance = prov, ur_recordedAtMs = recorded\<rparr>
       }
     | _ \<Rightarrow> None)"

definition usageWithoutCost :: "(string \<times> jsval) list \<Rightarrow> (string \<times> jsval) list" where
  "usageWithoutCost entry = entry @ [(''costMicros'', js_int 0), (''costProvenance'', JStr ''unknown'')]"

section \<open>What the gate lets through\<close>

text \<open>Every text of a value: its string leaves and its keys; and whether it is nested past the bound.\<close>

fun js_texts :: "jsval \<Rightarrow> string list"
  and item_texts :: "jsval list \<Rightarrow> string list"
  and entry_texts :: "(string \<times> jsval) list \<Rightarrow> string list" where
  "js_texts v = (case v of JStr s \<Rightarrow> [s] | JArr items \<Rightarrow> item_texts items | JObj ps \<Rightarrow> entry_texts ps | _ \<Rightarrow> [])"
| "item_texts [] = []"
| "item_texts (item # items) = js_texts item @ item_texts items"
| "entry_texts [] = []"
| "entry_texts ((key, item) # ps) = key # js_texts item @ entry_texts ps"

declare js_texts.simps [simp del]

fun nested_past :: "nat \<Rightarrow> jsval \<Rightarrow> bool"
  and items_past :: "nat \<Rightarrow> jsval list \<Rightarrow> bool"
  and entries_past :: "nat \<Rightarrow> (string \<times> jsval) list \<Rightarrow> bool" where
  "nested_past n v =
     (case v of JStr s \<Rightarrow> False
      | JArr items \<Rightarrow> n = 0 \<or> items_past (n - 1) items
      | JObj ps \<Rightarrow> n = 0 \<or> entries_past (n - 1) ps
      | _ \<Rightarrow> n = 0)"
| "items_past n [] = False"
| "items_past n (item # items) = (nested_past n item \<or> items_past n items)"
| "entries_past n [] = False"
| "entries_past n ((key, item) # ps) = (nested_past n item \<or> entries_past n ps)"

declare nested_past.simps [simp del]

lemma carries_iff:
  "carriesKnownSecret v secrets depth \<longleftrightarrow>
     nested_past (max_scan_depth - depth) v \<or> list_ex (\<lambda>t. containsKnownSecret t secrets) (js_texts v)"
  "carries_item items secrets depth \<longleftrightarrow>
     items_past (max_scan_depth - depth) items \<or> list_ex (\<lambda>t. containsKnownSecret t secrets) (item_texts items)"
  "carries_entry ps secrets depth \<longleftrightarrow>
     entries_past (max_scan_depth - depth) ps \<or> list_ex (\<lambda>t. containsKnownSecret t secrets) (entry_texts ps)"
proof (induction v secrets depth and items secrets depth and ps secrets depth
    rule: carriesKnownSecret_carries_item_carries_entry.induct)
  case (1 v secrets depth)
  then show ?case
    by (cases v) (auto simp: carriesKnownSecret.simps nested_past.simps js_texts.simps)
qed auto

text \<open>The spellings the gate refuses for a secret at or above the floor.\<close>

lemma contains_spellings:
  assumes "\<not> containsKnownSecret t secrets" and "s \<in> set secrets"
    and "min_known_secret_content_len \<le> length s"
  shows "\<not> sublist s t" and "\<not> sublist (encodeURIComponent s) t" and "\<not> sublist (base64_of s) t"
proof -
  have s: "s \<noteq> ''''" using assms(3) by (auto simp: min_known_secret_content_len_def)
  have "v \<noteq> '''' \<Longrightarrow> v \<in> set (secret_variants s) \<Longrightarrow> \<not> sublist v t" for v
    using assms(1,2) s by (auto simp: containsKnownSecret_def list_ex_iff)
  moreover obtain b bs where "encode (units s) = b # bs" using s by (cases "encode (units s)") auto
  then have "base64_of s \<noteq> ''''" and "encodeURIComponent s \<noteq> ''''"
    by (auto simp: base64_of_def base64_encode_def encodeURIComponent_def percent_byte_def)
  ultimately show "\<not> sublist s t" "\<not> sublist (encodeURIComponent s) t" "\<not> sublist (base64_of s) t"
    using assms(3) s by (simp_all add: secret_variants_def Let_def)
qed

lemma jsonEscaped_length: "length s \<le> length (jsonEscaped s)"
  by (induction s) (auto simp: jsonEscaped_def json_escape_char_def Let_def)

lemma set_set_add [simp]: "set (set_add x xs) = insert x (set xs)"
  by (auto simp: set_add_def)

lemma set_add_secret:
  "set (add_secret s xs) = set xs \<union> (if s = '''' then {} else {s, jsonEscaped s})"
  by (auto simp: add_secret_def Let_def)

lemma set_gatewayCallSecrets:
  "set (gatewayCallSecrets key headers) =
     (\<Union>s \<in> set (callKnownSecrets key headers) - {''''}. {s, jsonEscaped s})"
proof -
  have "set (fold add_secret ss xs) = set xs \<union> (\<Union>s \<in> set ss - {''''}. {s, jsonEscaped s})" for ss xs
    by (induction ss arbitrary: xs) (auto simp: set_add_secret)
  then show ?thesis by (simp add: gatewayCallSecrets_def)
qed

text \<open>The gate, stated on the answer: no text of a response it lets through contains a secret of the
  call, spelled raw, escaped, percent-encoded or in base64.\<close>

lemma gate_clean:
  assumes "\<not> responseCarriesKnownSecret response (gatewayCallSecrets key headers)"
    and "secret \<in> insert key (snd ` set headers)" and "min_known_secret_content_len \<le> length secret"
    and "t \<in> set (js_texts response)"
  shows "\<not> sublist secret t \<and> \<not> sublist (jsonEscaped secret) t \<and>
    \<not> sublist (encodeURIComponent secret) t \<and> \<not> sublist (base64_of secret) t"
proof -
  have t: "\<not> containsKnownSecret t (gatewayCallSecrets key headers)"
    using assms(1,4) by (auto simp: responseCarriesKnownSecret_def carries_iff list_ex_iff)
  have "secret \<noteq> ''''" using assms(3) by (auto simp: min_known_secret_content_len_def)
  then have "secret \<in> set (gatewayCallSecrets key headers)" "jsonEscaped secret \<in> set (gatewayCallSecrets key headers)"
    using assms(2) by (auto simp: set_gatewayCallSecrets callKnownSecrets_def)
  with contains_spellings [OF t] assms(3) jsonEscaped_length [of secret] show ?thesis by simp
qed

section \<open>Valid usage records\<close>

definition usage_record_ok :: "usage_record \<Rightarrow> bool" where
  "usage_record_ok u \<longleftrightarrow>
     id_form (ur_usageId u) 256 \<and> id_form (ur_runId u) 128 \<and> id_form (ur_route u) 128 \<and>
     1 \<le> ur_requestCount u \<and> counter (ur_requestCount u) \<and> counter (ur_inputTokens u) \<and>
     counter (ur_cacheReadTokens u) \<and> counter (ur_cacheWriteTokens u) \<and> counter (ur_outputTokens u) \<and>
     counter (ur_costMicros u) \<and> (ur_costProvenance u = Unknown_cost \<longrightarrow> ur_costMicros u = 0) \<and>
     counter (ur_recordedAtMs u)"

lemma validateUsage_ok: "validateUsage v = Some u \<Longrightarrow> usage_record_ok u"
  unfolding validateUsage_def usage_record_ok_def
  by (auto simp: parsed split: jsval.splits bind_splits)

end
