(* ===== verification/Model_Gateway.thy ===== *)
theory Model_Gateway
  imports Gateway_Sanitize
begin

text \<open>
  The model gateway: \<^verbatim>\<open>src/gateway/gateway.ts\<close>, one call from its admission to its settlement.

  \<open>call\<close> is synchronous up to the point where it joins or starts a dispatch; a dispatch then waits for
  the credential broker and for the provider. The state holds the ledger, the registry of dispatches
  in flight (the nested \<open>Map\<close>, keyed by the pair of run and reservation id) with the point each waits
  at and the calls that wait for it, and two records of what happened: the provider requests sent and
  the answers given. An event is a call, an answer of the broker or of the provider to one dispatch, or
  an operator's cancellation; broker and provider are the environment, so any answer at any time is an
  event. A broker that throws before its first promise is the same as one whose promise is rejected at
  once. A clock reading comes with each event and stands for the injected clocks. The worker's request
  is an untrusted value; profiles are those \<open>validateProfiles\<close> let through.
\<close>

section \<open>Construction\<close>

record endpoint =
  ep_extraHeaders :: "(string \<times> string) list"
  ep_pricing :: "(int \<times> int) option"

record gateway_config =
  gc_caps :: budget_limits
  gc_perRequest :: per_request_budget
  gc_profiles :: "(string \<times> endpoint) list"
  gc_mac :: "bytes \<Rightarrow> string"
  gc_credentialRef :: string

definition key_then :: "string \<Rightarrow> (char \<Rightarrow> bool) \<Rightarrow> nat \<Rightarrow> string \<Rightarrow> bool" where
  "key_then start cls n s =
     (take (length start) s = start \<and> n \<le> length (takeWhile cls (drop (length start) s)))"

definition isSecretShapedValue :: "string \<Rightarrow> bool" where
  "isSecretShapedValue s =
     (key_then ''ghp_'' is_alnum 10 s \<or>
      key_then ''github_pat_'' (\<lambda>c. is_alnum c \<or> c = CHR ''_'') 10 s \<or>
      key_then ''sk-'' (\<lambda>c. is_alnum c \<or> c \<in> set ''_-'') 10 s \<or>
      list_ex (\<lambda>c. key_then (''xox'' @ [c, CHR ''-'']) (\<lambda>c. True) 0 s) ''baprs'' \<or>
      key_then ''glpat-'' (\<lambda>c. True) 0 s \<or>
      key_then ''Bearer'' js_space 1 s \<or> key_then ''Basic'' js_space 1 s)"

definition createModelGateway ::
  "jsval \<Rightarrow> ledger \<Rightarrow> jsval \<Rightarrow> jsval \<Rightarrow> (string \<times> endpoint) list \<Rightarrow> (bytes \<Rightarrow> string) \<Rightarrow>
   ledger_error + gateway_config" where
  "createModelGateway capsv L perRequest ref profiles mac =
     (case validateBudgetLimits capsv of
        Inl e \<Rightarrow> Inl e
      | Inr c \<Rightarrow>
          if maxRequests (caps L) \<noteq> maxRequests c \<or> maxTokens (caps L) \<noteq> maxTokens c \<or>
             maxCostMicros (caps L) \<noteq> maxCostMicros c
          then Inl Range_refused
          else
            (case validatePerRequestBudget perRequest c of
               Inl e \<Rightarrow> Inl e
             | Inr b \<Rightarrow>
                 (case ref of
                    JStr r \<Rightarrow>
                      if r = '''' \<or> isSecretShapedValue r then Inl Range_refused
                      else Inr \<lparr>gc_caps = c, gc_perRequest = b, gc_profiles = profiles, gc_mac = mac,
                        gc_credentialRef = r\<rparr>
                  | _ \<Rightarrow> Inl Range_refused)))"

section \<open>Requests\<close>

record call_input =
  in_token :: string
  in_runId :: string
  in_modelProfile :: string
  in_role :: string
  in_usageId :: string
  in_reservationId :: string
  in_platform :: string
  in_installationId :: string
  in_repoFullName :: string

definition js_object :: "jsval \<Rightarrow> bool" where
  "js_object v = (case v of JArr _ \<Rightarrow> True | JObj _ \<Rightarrow> True | _ \<Rightarrow> False)"

definition payload_ok :: "jsval \<Rightarrow> bool" where
  "payload_ok v = (case v of JObj ps \<Rightarrow> js_object (get_prop ps ''body'') | _ \<Rightarrow> False)"

text \<open>Every refusal has the code \<open>invalid_request\<close>; the checks are in the code's order.\<close>

definition validateCallInput :: "jsval \<Rightarrow> call_input option" where
  "validateCallInput v =
    (case v of
       JObj ps \<Rightarrow> do {
         tok \<leftarrow> js_string (get_prop ps ''token'');
         require_that (tok \<noteq> '''' \<and> length tok \<le> 512);
         run \<leftarrow> js_string (get_prop ps ''runId'');
         require_that (run_id_re run);
         prof \<leftarrow> js_string (get_prop ps ''modelProfile'');
         require_that (isValidProfileName prof \<and> prof \<noteq> '''');
         role \<leftarrow> js_string (get_prop ps ''role'');
         require_that (role \<in> {''primary'', ''specialist'', ''tool'', ''evidence'', ''judge''});
         uid \<leftarrow> js_string (get_prop ps ''usageId'');
         require_that (uid \<noteq> '''' \<and> length uid \<le> 256 \<and> uid = js_trim uid);
         rid \<leftarrow> js_string (get_prop ps ''reservationId'');
         require_that (rid \<noteq> '''' \<and> length rid \<le> 128 \<and> rid = js_trim rid);
         plat \<leftarrow> js_string (get_prop ps ''platform'');
         require_that (plat = ''github'' \<or> plat = ''forgejo'');
         inst \<leftarrow> js_string (get_prop ps ''installationId'');
         require_that (length inst \<le> 128);
         repo \<leftarrow> js_string (get_prop ps ''repoFullName'');
         require_that (repo \<noteq> '''' \<and> length repo \<le> 256);
         require_that (payload_ok (get_prop ps ''payload''));
         Some \<lparr>in_token = tok, in_runId = run, in_modelProfile = prof, in_role = role, in_usageId = uid,
           in_reservationId = rid, in_platform = plat, in_installationId = inst, in_repoFullName = repo\<rparr>
       }
     | _ \<Rightarrow> None)"

section \<open>Outcomes and usage\<close>

text \<open>The codes of \<open>GATEWAY_REFUSAL_CODES\<close>: those of the capability and of the ledger, and the
  gateway's own.\<close>

datatype gateway_code =
    Code_capability capability_refusal
  | Code_budget budget_refusal
  | Unknown_profile
  | Credential_refused
  | Reservation_settled
  | Usage_record_invalid
  | Provider_response_unsafe
  | Transport_failed
  | Gateway_error

datatype call_outcome =
    Answered (answer_response: "(string \<times> jsval) list") (answer_usage: usage_record)
  | Refusal gateway_code (answer_attempt: "usage_record option")

definition usage_entry :: "call_input \<Rightarrow> jsval \<Rightarrow> jsval \<Rightarrow> jsval \<Rightarrow> jsval \<Rightarrow> int \<Rightarrow> (string \<times> jsval) list" where
  "usage_entry i inputTokens cacheRead cacheWrite outputTokens now =
     [(''usageId'', JStr (in_usageId i)), (''runId'', JStr (in_runId i)),
      (''route'', JStr (in_modelProfile i)), (''role'', JStr (in_role i)), (''requestCount'', js_int 1),
      (''inputTokens'', inputTokens), (''cacheReadTokens'', cacheRead), (''cacheWriteTokens'', cacheWrite),
      (''outputTokens'', outputTokens), (''recordedAtMs'', js_int now)]"

definition attemptRecord :: "call_input \<Rightarrow> int \<Rightarrow> usage_record option" where
  "attemptRecord i now =
     validateUsage (JObj (usageWithoutCost (usage_entry i (js_int 0) (js_int 0) (js_int 0) (js_int 0) now)))"

text \<open>\<open>response.usage?.field ?? 0\<close>\<close>

definition usage_field :: "(string \<times> jsval) list \<Rightarrow> string \<Rightarrow> jsval" where
  "usage_field response field =
     (case get_prop response ''usage'' of
        JObj ps \<Rightarrow> (case get_prop ps field of JUndef \<Rightarrow> js_int 0 | JNull \<Rightarrow> js_int 0 | v \<Rightarrow> v)
      | _ \<Rightarrow> js_int 0)"

text \<open>\<open>Math.round\<close> of the priced tokens. Where a count is not a finite number, the cost is none either;
  such a count is refused in any case.\<close>

definition configured_cost :: "jsval \<Rightarrow> jsval \<Rightarrow> int \<times> int \<Rightarrow> jsval" where
  "configured_cost inputTokens outputTokens pricing =
     (case (inputTokens, outputTokens) of
        (JNum (Fin a), JNum (Fin b)) \<Rightarrow>
          js_int (round ((a * of_int (fst pricing) + b * of_int (snd pricing)) / 1000000))
      | _ \<Rightarrow> JNum NaN)"

definition buildUsageRecord ::
  "call_input \<Rightarrow> (string \<times> jsval) list \<Rightarrow> (int \<times> int) option \<Rightarrow> int \<Rightarrow> usage_record option" where
  "buildUsageRecord i response pricing now =
     (let inputTokens = usage_field response ''promptTokens'';
          outputTokens = usage_field response ''completionTokens'';
          entry = usage_entry i inputTokens (usage_field response ''cacheReadTokens'')
            (usage_field response ''cacheWriteTokens'') outputTokens now in
      validateUsage (JObj
        (case pricing of
           None \<Rightarrow> usageWithoutCost entry
         | Some pr \<Rightarrow> entry @ [(''costMicros'', configured_cost inputTokens outputTokens pr),
             (''costProvenance'', JStr ''configured-estimate'')])))"

section \<open>State\<close>

type_synonym call_key = "string \<times> string"

datatype dispatch_phase = Awaiting_broker | Awaiting_provider string

record dispatch =
  d_input :: call_input
  d_endpoint :: endpoint
  d_phase :: dispatch_phase
  d_callers :: "nat list" \<comment> \<open>the owner, then the calls that joined\<close>

record gateway =
  gw_ledger :: ledger
  gw_inFlight :: "(call_key \<times> dispatch) list"
  gw_sent :: "call_key list" \<comment> \<open>the provider requests sent\<close>
  gw_answers :: "(nat \<times> call_outcome) list" \<comment> \<open>the answers given\<close>

definition new_gateway :: "ledger \<Rightarrow> gateway" where
  "new_gateway L = \<lparr>gw_ledger = L, gw_inFlight = [], gw_sent = [], gw_answers = []\<rparr>"

section \<open>A call\<close>

text \<open>The synchronous preamble: an outcome, or the request with its endpoint and the identities of the
  reserved row.\<close>

definition admission ::
  "gateway_config \<Rightarrow> int \<Rightarrow> jsval \<Rightarrow> ledger \<Rightarrow>
   (call_outcome + call_input \<times> endpoint \<times> call_key) \<times> ledger" where
  "admission cfg now input L =
     (case validateCallInput input of
        None \<Rightarrow> (Inl (Refusal (Code_budget Invalid_request) None), L)
      | Some i \<Rightarrow>
          let expectedGeneration = generationFor L (in_runId i) in
          (case verifyDetailed (gc_mac cfg) now (JStr (in_token i))
              \<lparr>pr_runId = in_runId i, pr_modelProfile = in_modelProfile i,
               pr_expectedGeneration = expectedGeneration, pr_limits = limits_js (gc_caps cfg)\<rparr> of
             Refused code \<Rightarrow> (Inl (Refusal (Code_capability code) None), L)
           | Verified \<Rightarrow>
               (case map_of (gc_profiles cfg) (in_modelProfile i) of
                  None \<Rightarrow> (Inl (Refusal Unknown_profile None), L)
                | Some ep \<Rightarrow>
                    (case reserve now
                        \<lparr>ri_reservationId = JStr (in_reservationId i), ri_runId = JStr (in_runId i),
                         ri_generation = js_int expectedGeneration,
                         ri_modelProfile = JStr (in_modelProfile i),
                         ri_estimatedTokens = js_int (prb_maxTokens (gc_perRequest cfg)),
                         ri_estimatedCostMicros = js_int (prb_maxCostMicros (gc_perRequest cfg))\<rparr> L of
                       (Inl code, L') \<Rightarrow> (Inl (Refusal (Code_budget code) None), L')
                     | (Inr row, L') \<Rightarrow>
                         if row_state row \<noteq> Reserved then (Inl (Refusal Reservation_settled None), L')
                         else (Inr (i, ep, (row_runId row, row_reservationId row)), L')))))"

text \<open>\<open>call\<close>: refuse at once, join the dispatch in flight for the same key, or start one.\<close>

definition gateway_call :: "gateway_config \<Rightarrow> int \<Rightarrow> nat \<Rightarrow> jsval \<Rightarrow> gateway \<Rightarrow> gateway" where
  "gateway_call cfg now caller input G =
     (case admission cfg now input (gw_ledger G) of
        (Inl out, L) \<Rightarrow> G\<lparr>gw_ledger := L, gw_answers := gw_answers G @ [(caller, out)]\<rparr>
      | (Inr (i, ep, key), L) \<Rightarrow>
          G\<lparr>gw_ledger := L,
            gw_inFlight := AList.update key
              (case map_of (gw_inFlight G) key of
                 Some joined \<Rightarrow> joined\<lparr>d_callers := d_callers joined @ [caller]\<rparr>
               | None \<Rightarrow> \<lparr>d_input = i, d_endpoint = ep, d_phase = Awaiting_broker, d_callers = [caller]\<rparr>)
              (gw_inFlight G)\<rparr>)"

section \<open>A dispatch\<close>

text \<open>The promise of a dispatch settles: its entry is released and its callers have their answer.\<close>

definition settle_dispatch :: "call_key \<Rightarrow> dispatch \<Rightarrow> call_outcome \<times> ledger \<Rightarrow> gateway \<Rightarrow> gateway" where
  "settle_dispatch key d result G =
     G\<lparr>gw_ledger := snd result, gw_inFlight := AList.delete key (gw_inFlight G),
       gw_answers := gw_answers G @ map (\<lambda>caller. (caller, fst result)) (d_callers d)\<rparr>"

definition refunded :: "int \<Rightarrow> call_key \<Rightarrow> call_outcome \<Rightarrow> ledger \<Rightarrow> call_outcome \<times> ledger" where
  "refunded now key out L = (out, snd (refund now (fst key) (snd key) L))"

datatype broker_answer = Resolved string | Resolution_refused | Broker_threw

definition broker_answers :: "int \<Rightarrow> call_key \<Rightarrow> broker_answer \<Rightarrow> gateway \<Rightarrow> gateway" where
  "broker_answers now key answer G =
     (case map_of (gw_inFlight G) key of
        None \<Rightarrow> G
      | Some d \<Rightarrow>
          if d_phase d \<noteq> Awaiting_broker then G
          else
            (case answer of
               Resolved material \<Rightarrow>
                 G\<lparr>gw_inFlight := AList.update key (d\<lparr>d_phase := Awaiting_provider material\<rparr>) (gw_inFlight G),
                   gw_sent := gw_sent G @ [key]\<rparr>
             | Resolution_refused \<Rightarrow>
                 settle_dispatch key d (refunded now key (Refusal Credential_refused None) (gw_ledger G)) G
             | Broker_threw \<Rightarrow>
                 settle_dispatch key d (refunded now key (Refusal Gateway_error None) (gw_ledger G)) G))"

datatype provider_answer = Chat_ok "(string \<times> jsval) list" | Chat_failed | Provider_threw

definition provider_outcome ::
  "int \<Rightarrow> call_key \<Rightarrow> dispatch \<Rightarrow> string \<Rightarrow> provider_answer \<Rightarrow> ledger \<Rightarrow> call_outcome \<times> ledger" where
  "provider_outcome now key d material answer L =
     (case answer of
        Chat_ok response \<Rightarrow>
          let secrets = gatewayCallSecrets material (ep_extraHeaders (d_endpoint d)) in
          if responseCarriesKnownSecret (JObj response) secrets
          then refunded now key (Refusal Provider_response_unsafe (attemptRecord (d_input d) now)) L
          else
            (case buildUsageRecord (d_input d) response (ep_pricing (d_endpoint d)) now of
               None \<Rightarrow> refunded now key (Refusal Usage_record_invalid (attemptRecord (d_input d) now)) L
             | Some usage \<Rightarrow>
                 (case commit now (fst key) (snd key)
                     \<lparr>au_requestCount = js_int 1,
                      au_tokens = js_int (ur_inputTokens usage + ur_outputTokens usage),
                      au_costMicros = js_int (ur_costMicros usage)\<rparr> L of
                    (Inl code, L') \<Rightarrow> refunded now key (Refusal (Code_budget code) (Some usage)) L'
                  | (Inr row, L') \<Rightarrow> (Answered response usage, L')))
      | Chat_failed \<Rightarrow> refunded now key (Refusal Transport_failed (attemptRecord (d_input d) now)) L
      | Provider_threw \<Rightarrow> refunded now key (Refusal Gateway_error None) L)"

definition provider_answers :: "int \<Rightarrow> call_key \<Rightarrow> provider_answer \<Rightarrow> gateway \<Rightarrow> gateway" where
  "provider_answers now key answer G =
     (case map_of (gw_inFlight G) key of
        None \<Rightarrow> G
      | Some d \<Rightarrow>
          (case d_phase d of
             Awaiting_broker \<Rightarrow> G
           | Awaiting_provider material \<Rightarrow>
               settle_dispatch key d (provider_outcome now key d material answer (gw_ledger G)) G))"

section \<open>Events\<close>

datatype gateway_event =
    Ev_call int nat jsval
  | Ev_broker int call_key broker_answer
  | Ev_provider int call_key provider_answer
  | Ev_cancel string

fun gateway_step :: "gateway_config \<Rightarrow> gateway_event \<Rightarrow> gateway \<Rightarrow> gateway" where
  "gateway_step cfg (Ev_call now caller input) G = gateway_call cfg now caller input G"
| "gateway_step cfg (Ev_broker now key answer) G = broker_answers now key answer G"
| "gateway_step cfg (Ev_provider now key answer) G = provider_answers now key answer G"
| "gateway_step cfg (Ev_cancel run) G = G\<lparr>gw_ledger := snd (cancelRun run (gw_ledger G))\<rparr>"

definition gateway_run :: "gateway_config \<Rightarrow> gateway_event list \<Rightarrow> gateway \<Rightarrow> gateway" where
  "gateway_run cfg events G = fold (gateway_step cfg) events G"

end
