(* ===== verification/Model_Gateway_Properties.thy ===== *)
theory Model_Gateway_Properties
  imports Model_Gateway "HOL-Library.Multiset"
begin

text \<open>
  What holds of every history of the model gateway (\<open>Model_Gateway\<close>): the reservation of a dispatch is
  its own until it is settled, a reservation pays for at most one provider request, every call has
  exactly one answer once the broker and the provider have answered, and what an answer may carry.
\<close>

section \<open>Histories\<close>

fun timely_event :: "gateway_event \<Rightarrow> bool" where
  "timely_event (Ev_call now caller input) = live_clock now"
| "timely_event (Ev_broker now key answer) = live_clock now"
| "timely_event (Ev_provider now key answer) = live_clock now"
| "timely_event (Ev_cancel run) = True"

definition row_at :: "ledger \<Rightarrow> call_key \<Rightarrow> budget_row option" where
  "row_at L key = row_of L (fst key) (snd key)"

definition live_at :: "ledger \<Rightarrow> call_key \<Rightarrow> bool" where
  "live_at L key = (case row_at L key of None \<Rightarrow> False | Some row \<Rightarrow> row_state row = Reserved)"

section \<open>The ledger under the gateway\<close>

lemma lives_op: "timely_op op \<Longrightarrow> lives L (snd (perform op L))"
  by (auto intro: ledger_step.operate)

lemma lives_reserve: "live_clock now \<Longrightarrow> lives L (snd (reserve now inp L))"
  using lives_op [of "Op_reserve now inp"] by simp

lemma lives_commit: "live_clock now \<Longrightarrow> lives L (snd (commit now run rid a L))"
  using lives_op [of "Op_commit now run rid a"] by simp

lemma lives_refund: "live_clock now \<Longrightarrow> lives L (snd (refund now run rid L))"
  using lives_op [of "Op_refund now run rid"] by simp

lemma lives_cancel: "lives L (snd (cancelRun run L))"
  using lives_op [of "Op_cancel run"] by simp

lemma row_at_cancel [simp]: "row_at (snd (cancelRun run L)) key = row_at L key"
  by (simp add: cancelRun_def row_at_def row_of_def rowsForRun_def Let_def)

lemma row_at_set_row [simp]:
  "row_at (set_row (fst key) (snd key) row L) k = (if k = key then Some row else row_at L k)"
  by (auto simp: row_at_def prod_eq_iff)

text \<open>What the admission of a call does: nothing, unless it books a fresh row for the key of the call.\<close>

lemma admission_refused: "admission cfg now input L = (Inl out, L') \<Longrightarrow> L' = L"
  by (auto simp: admission_def Let_def reserve_def admit_def fresh_row_def
      split: option.splits verification.splits prod.splits sum.splits if_splits)

lemma reserve_row:
  assumes "reserve now inp L = (Inr row, L')" and "ledger_ok L"
    and "ri_runId inp = JStr run" and "ri_reservationId inp = JStr rid"
  shows "row_runId row = run \<and> row_reservationId row = rid \<and> row_of L' run rid = Some row \<and>
    (L' = L \<or> row_of L run rid = None \<and> L' = set_row run rid row L)"
proof -
  obtain rv where rv: "checkReservation inp = Some rv" "admit now rv L = (Inr row, L')"
    using assms(1) by (auto simp: reserve_def split: option.splits)
  have id: "rv_runId rv = run" "rv_reservationId rv = rid"
    using rv(1) assms(3,4)
    by (auto simp: checkReservation_def parsed split: bind_splits)
  show ?thesis
    using rv(2) row_of_ok [OF assms(2)] unfolding admit_def id
    by (auto simp: Let_def fresh_row_def id split: option.splits if_splits)
qed

lemma admission_admitted:
  assumes "admission cfg now input L = (Inr (i, ep, key), L')" and "ledger_ok L"
  shows "validateCallInput input = Some i" and "key = (in_runId i, in_reservationId i)"
    and "map_of (gc_profiles cfg) (in_modelProfile i) = Some ep" and "live_at L' key"
    and "L' = L \<or> row_at L key = None \<and> (\<exists>row. L' = set_row (fst key) (snd key) row L)"
    and "\<exists>inp. L' = snd (reserve now inp L)"
proof -
  obtain inp row where r: "validateCallInput input = Some i"
      "map_of (gc_profiles cfg) (in_modelProfile i) = Some ep"
      "reserve now inp L = (Inr row, L')" "ri_runId inp = JStr (in_runId i)"
      "ri_reservationId inp = JStr (in_reservationId i)" "row_state row = Reserved"
      "key = (row_runId row, row_reservationId row)"
    using assms(1)
    by (auto simp: admission_def Let_def split: option.splits verification.splits prod.splits sum.splits if_splits)
  note s = reserve_row [OF r(3) assms(2) r(4,5)]
  show "validateCallInput input = Some i" "map_of (gc_profiles cfg) (in_modelProfile i) = Some ep"
    by (rule r(1), rule r(2))
  show key: "key = (in_runId i, in_reservationId i)" using s r(7) by simp
  show "live_at L' key" using s r(6) by (simp add: live_at_def row_at_def key)
  show "L' = L \<or> row_at L key = None \<and> (\<exists>row. L' = set_row (fst key) (snd key) row L)"
    using s by (auto simp: row_at_def key)
  show "\<exists>inp. L' = snd (reserve now inp L)" using r(3) by (metis snd_conv)
qed

text \<open>What the end of a dispatch does to its row.\<close>

definition settled_row :: "int \<Rightarrow> call_outcome \<Rightarrow> budget_row \<Rightarrow> budget_row" where
  "settled_row now out row =
     (case out of
        Answered response u \<Rightarrow>
          committed_row now (Usage 1 (ur_inputTokens u + ur_outputTokens u) (ur_costMicros u)) row
      | Refusal code u \<Rightarrow> row\<lparr>row_state := Refunded, row_settledAtMs := now\<rparr>)"

lemma settled_row_state: "row_state (settled_row now out row) \<noteq> Reserved"
  by (simp add: settled_row_def committed_row_def split: call_outcome.split)

lemma refunded_row:
  assumes "row_at L key = Some row" and "row_state row = Reserved"
  shows "snd (refunded now key (Refusal c u) L) =
    set_row (fst key) (snd key) (settled_row now (Refusal c u) row) L"
  using assms by (simp add: refunded_def refund_def row_at_def settled_row_def Let_def)

lemma fst_refunded [simp]: "fst (refunded now key out L) = out"
  by (simp add: refunded_def)

lemma commit_row:
  assumes "row_at L key = Some row" and "row_state row = Reserved"
    and "commit now (fst key) (snd key) a L = (r, L')"
  shows "case r of Inl c \<Rightarrow> L' = L
    | Inr row' \<Rightarrow> \<exists>u. checkActual a = Some u \<and> L' = set_row (fst key) (snd key) (committed_row now u row) L"
  using assms by (auto simp: commit_def row_at_def split: option.splits)

lemma checkActual_ints:
  "checkActual \<lparr>au_requestCount = js_int n, au_tokens = js_int t, au_costMicros = js_int c\<rparr> = Some u \<Longrightarrow>
     u = Usage n t c"
  by (auto simp: checkActual_def parsed split: bind_splits)

lemma provider_row:
  assumes "row_at L key = Some row" and "row_state row = Reserved"
  shows "snd (provider_outcome now key d material answer L) =
    set_row (fst key) (snd key) (settled_row now (fst (provider_outcome now key d material answer L)) row) L"
proof (cases answer)
  case (Chat_ok response)
  note split = refunded_row [OF assms] commit_row [OF assms]
  show ?thesis
  proof (cases "buildUsageRecord (d_input d) response (ep_pricing (d_endpoint d)) now")
    case (Some u)
    let ?a = "\<lparr>au_requestCount = js_int 1, au_tokens = js_int (ur_inputTokens u + ur_outputTokens u),
      au_costMicros = js_int (ur_costMicros u)\<rparr>"
    obtain r L' where c: "commit now (fst key) (snd key) ?a L = (r, L')" by fastforce
    show ?thesis
      using commit_row [OF assms c] Some c checkActual_ints
      by (cases r) (auto simp: provider_outcome_def Chat_ok Let_def refunded_row [OF assms] settled_row_def)
  qed (simp add: provider_outcome_def Chat_ok Let_def refunded_row [OF assms])
qed (simp_all add: provider_outcome_def refunded_row [OF assms])

lemma lives_provider:
  assumes "live_clock now"
  shows "lives L (snd (provider_outcome now key d material answer L))"
proof -
  have r: "lives M (snd (refunded now key out M))" for out M
    using lives_refund [OF assms] by (simp add: refunded_def)
  show ?thesis
  proof (cases answer)
    case (Chat_ok response)
    show ?thesis
    proof (cases "buildUsageRecord (d_input d) response (ep_pricing (d_endpoint d)) now")
      case (Some u)
      let ?a = "\<lparr>au_requestCount = js_int 1, au_tokens = js_int (ur_inputTokens u + ur_outputTokens u),
        au_costMicros = js_int (ur_costMicros u)\<rparr>"
      obtain x M where c: "commit now (fst key) (snd key) ?a L = (x, M)" by fastforce
      have "lives L M" using lives_commit [OF assms, of L "fst key" "snd key" ?a] c by simp
      then show ?thesis
        using rtranclp_trans [OF _ r] r c Some
        by (cases x) (auto simp: provider_outcome_def Chat_ok Let_def)
    qed (simp add: provider_outcome_def Chat_ok Let_def r)
  qed (simp_all add: provider_outcome_def r)
qed

section \<open>The invariant\<close>

text \<open>Keys are pairs that stay whole.\<close>

declare split_paired_All [simp del] split_paired_Ex [simp del] split_paired_all [simp del]

definition in_flight :: "gateway \<Rightarrow> call_key \<Rightarrow> dispatch option" where
  "in_flight G key = map_of (gw_inFlight G) key"

definition at_provider :: "gateway \<Rightarrow> call_key \<Rightarrow> bool" where
  "at_provider G key = (\<exists>d m. in_flight G key = Some d \<and> d_phase d = Awaiting_provider m)"

lemma in_flight_simps [simp]:
  "in_flight (G\<lparr>gw_ledger := L\<rparr>) = in_flight G"
  "in_flight (G\<lparr>gw_answers := as\<rparr>) = in_flight G"
  "in_flight (G\<lparr>gw_sent := ks\<rparr>) = in_flight G"
  "in_flight (G\<lparr>gw_inFlight := AList.update key d (gw_inFlight G)\<rparr>) k =
     (if k = key then Some d else in_flight G k)"
  "in_flight (settle_dispatch key d result G) k = (if k = key then None else in_flight G k)"
  by (rule ext | simp add: in_flight_def settle_dispatch_def)+

lemma settle_simps [simp]:
  "gw_ledger (settle_dispatch key d result G) = snd result"
  "gw_sent (settle_dispatch key d result G) = gw_sent G"
  "gw_inFlight (settle_dispatch key d result G) = AList.delete key (gw_inFlight G)"
  "gw_answers (settle_dispatch key d result G) = gw_answers G @ map (\<lambda>caller. (caller, fst result)) (d_callers d)"
  by (simp_all add: settle_dispatch_def)

text \<open>The ledger and the registry are well-formed; a dispatch in flight has a live row and a caller;
  a live row belongs to a dispatch in flight, unless it was live at the start; a request is sent once,
  and its row is settled unless the dispatch still waits for the answer.\<close>

definition gateway_ok :: "ledger \<Rightarrow> gateway \<Rightarrow> bool" where
  "gateway_ok L0 G \<longleftrightarrow> ledger_ok (gw_ledger G) \<and> lives L0 (gw_ledger G) \<and> map_ok (gw_inFlight G) \<and>
     (\<forall>key d. in_flight G key = Some d \<longrightarrow> live_at (gw_ledger G) key \<and> d_callers d \<noteq> []) \<and>
     (\<forall>key. live_at (gw_ledger G) key \<longrightarrow> in_flight G key \<noteq> None \<or> live_at L0 key) \<and>
     distinct (gw_sent G) \<and>
     (\<forall>key. at_provider G key \<longrightarrow> key \<in> set (gw_sent G)) \<and>
     (\<forall>key \<in> set (gw_sent G). row_at (gw_ledger G) key \<noteq> None \<and>
       (live_at (gw_ledger G) key \<longrightarrow> at_provider G key))"

lemma gateway_okI:
  assumes "ledger_ok (gw_ledger G)" and "lives L0 (gw_ledger G)" and "map_ok (gw_inFlight G)"
    and "\<And>key d. in_flight G key = Some d \<Longrightarrow> live_at (gw_ledger G) key \<and> d_callers d \<noteq> []"
    and "\<And>key. live_at (gw_ledger G) key \<Longrightarrow> in_flight G key \<noteq> None \<or> live_at L0 key"
    and "distinct (gw_sent G)" and "\<And>key. at_provider G key \<Longrightarrow> key \<in> set (gw_sent G)"
    and "\<And>key. key \<in> set (gw_sent G) \<Longrightarrow> row_at (gw_ledger G) key \<noteq> None"
    and "\<And>key. key \<in> set (gw_sent G) \<Longrightarrow> live_at (gw_ledger G) key \<Longrightarrow> at_provider G key"
  shows "gateway_ok L0 G"
  using assms by (simp add: gateway_ok_def)

lemma gateway_ok_start: "ledger_ok L \<Longrightarrow> gateway_ok L (new_gateway L)"
  by (simp add: gateway_ok_def new_gateway_def in_flight_def at_provider_def)

lemma gateway_ok_cancel:
  assumes "gateway_ok L0 G"
  shows "gateway_ok L0 (G\<lparr>gw_ledger := snd (cancelRun run (gw_ledger G))\<rparr>)"
proof -
  let ?L = "snd (cancelRun run (gw_ledger G))"
  have "live_at ?L = live_at (gw_ledger G)" by (rule ext) (simp add: live_at_def)
  moreover have "lives L0 ?L" "ledger_ok ?L"
    using assms lives_cancel [of "gw_ledger G" run] lives_ok [OF lives_cancel]
    by (auto simp: gateway_ok_def intro: rtranclp_trans)
  ultimately show ?thesis
    using assms by (simp add: gateway_ok_def at_provider_def)
qed

lemma gateway_ok_call:
  assumes ok: "gateway_ok L0 G" and now: "live_clock now"
  shows "gateway_ok L0 (gateway_call cfg now c input G)"
proof (cases "admission cfg now input (gw_ledger G)")
  case (Pair res L')
  show ?thesis
  proof (cases res)
    case (Inl out)
    then show ?thesis
      using ok Pair admission_refused [of cfg now input "gw_ledger G" out L']
      by (simp add: gateway_call_def gateway_ok_def at_provider_def)
  next
    case (Inr a)
    obtain i ep key where a: "a = (i, ep, key)" by (cases a)
    have L: "ledger_ok (gw_ledger G)" using ok by (simp add: gateway_ok_def)
    note adm = admission_admitted [OF Pair [unfolded Inr a] L]
    let ?d = "case in_flight G key of
        Some joined \<Rightarrow> joined\<lparr>d_callers := d_callers joined @ [c]\<rparr>
      | None \<Rightarrow> \<lparr>d_input = i, d_endpoint = ep, d_phase = Awaiting_broker, d_callers = [c]\<rparr>"
    have G': "gateway_call cfg now c input G =
        G\<lparr>gw_ledger := L', gw_inFlight := AList.update key ?d (gw_inFlight G)\<rparr>"
      by (simp add: gateway_call_def Pair Inr a in_flight_def)
    let ?G' = "G\<lparr>gw_ledger := L', gw_inFlight := AList.update key ?d (gw_inFlight G)\<rparr>"
    have fl: "in_flight ?G' k = (if k = key then Some ?d else in_flight G k)" for k
      by (simp add: in_flight_def)
    have "lives (gw_ledger G) L'" using adm(6) lives_reserve [OF now] by metis
    then have lv: "lives L0 L'" "ledger_ok L'"
      using ok L lives_ok unfolding gateway_ok_def by (auto intro: rtranclp_trans)
    have "k \<noteq> key \<Longrightarrow> row_at L' k = row_at (gw_ledger G) k" for k
      using adm(5) by auto
    then have live: "live_at L' k = (k = key \<or> live_at (gw_ledger G) k)"
      and rows: "row_at L' k \<noteq> None \<longleftrightarrow> k = key \<or> row_at (gw_ledger G) k \<noteq> None" for k
      using adm(4) by (cases "k = key"; auto simp: live_at_def split: option.splits)+
    have sent: "key \<in> set (gw_sent G) \<Longrightarrow> at_provider G key"
      using adm(4,5) ok by (auto simp: gateway_ok_def)
    have ap: "at_provider ?G' k = at_provider G k" for k
      unfolding at_provider_def fl by (auto split: option.splits if_splits)
    have callers: "d_callers ?d \<noteq> []" by (simp split: option.split)
    show ?thesis unfolding G'
    proof (rule gateway_okI)
      show "ledger_ok (gw_ledger ?G')" "lives L0 (gw_ledger ?G')" using lv by simp_all
      show "map_ok (gw_inFlight ?G')"
        using ok AList_map_ok_update [of "gw_inFlight G" key ?d] by (simp add: gateway_ok_def)
      show "distinct (gw_sent ?G')" using ok by (simp add: gateway_ok_def)
    next
      fix k
      show "live_at (gw_ledger ?G') k \<and> d_callers d \<noteq> []" if "in_flight ?G' k = Some d" for d
        using that ok callers unfolding fl by (cases "k = key") (auto simp: gateway_ok_def live)
      show "in_flight ?G' k \<noteq> None \<or> live_at L0 k" if "live_at (gw_ledger ?G') k"
        using that ok unfolding fl by (cases "k = key") (auto simp: gateway_ok_def live)
      show "k \<in> set (gw_sent ?G')" if "at_provider ?G' k"
        using that ok unfolding ap by (simp add: gateway_ok_def)
    next
      fix k assume k: "k \<in> set (gw_sent ?G')"
      show "row_at (gw_ledger ?G') k \<noteq> None"
        using k ok rows [of k] by (simp add: gateway_ok_def)
      show "at_provider ?G' k" if "live_at (gw_ledger ?G') k"
        using that k ok sent unfolding ap by (cases "k = key") (auto simp: gateway_ok_def live)
    qed
  qed
qed

lemma gateway_ok_settle:
  assumes ok: "gateway_ok L0 G" and d: "in_flight G key = Some d"
    and L': "snd result = set_row (fst key) (snd key) (settled_row now (fst result) row) (gw_ledger G)"
    and "lives (gw_ledger G) (snd result)"
  shows "gateway_ok L0 (settle_dispatch key d result G)"
proof -
  have lv: "lives L0 (snd result)" "ledger_ok (snd result)"
    using assms lives_ok unfolding gateway_ok_def by (auto intro: rtranclp_trans)
  have live: "live_at (snd result) k = (k \<noteq> key \<and> live_at (gw_ledger G) k)" for k
    using L' settled_row_state by (simp add: live_at_def)
  have rows: "row_at (snd result) k \<noteq> None \<longleftrightarrow> k = key \<or> row_at (gw_ledger G) k \<noteq> None" for k
    using L' by simp
  have ap: "at_provider (settle_dispatch key d result G) k = (k \<noteq> key \<and> at_provider G k)" for k
    by (simp add: at_provider_def)
  show ?thesis
    using ok lv AList_map_ok_delete [of "gw_inFlight G" key]
    unfolding gateway_ok_def settle_simps in_flight_simps ap live rows by auto
qed

lemma live_row:
  assumes "live_at L key"
  obtains row where "row_at L key = Some row" and "row_state row = Reserved"
  using assms by (auto simp: live_at_def split: option.splits)

lemma gateway_ok_broker:
  assumes ok: "gateway_ok L0 G" and now: "live_clock now"
  shows "gateway_ok L0 (broker_answers now key answer G)"
proof (cases "in_flight G key")
  case (Some d)
  have live: "live_at (gw_ledger G) key" using ok Some by (simp add: gateway_ok_def)
  then obtain row where row: "row_at (gw_ledger G) key = Some row" "row_state row = Reserved"
    by (rule live_row)
  have ref: "gateway_ok L0 (settle_dispatch key d (refunded now key (Refusal code None) (gw_ledger G)) G)" for code
    using refunded_row [OF row] lives_refund [OF now]
    by (intro gateway_ok_settle [OF ok Some]) (simp_all add: refunded_def)
  show ?thesis
  proof (cases "d_phase d = Awaiting_broker")
    case True
    have not_sent: "key \<notin> set (gw_sent G)"
      using ok Some True live by (auto simp: gateway_ok_def at_provider_def)
    have "gateway_ok L0 (G\<lparr>gw_inFlight := AList.update key (d\<lparr>d_phase := Awaiting_provider m\<rparr>) (gw_inFlight G),
        gw_sent := gw_sent G @ [key]\<rparr>)" (is "gateway_ok L0 ?G'") for m
    proof -
      have fl: "in_flight ?G' k = (if k = key then Some (d\<lparr>d_phase := Awaiting_provider m\<rparr>) else in_flight G k)" for k
        by (simp add: in_flight_def)
      have ap: "at_provider ?G' k = (k = key \<or> at_provider G k)" for k
        unfolding at_provider_def fl by simp
      show ?thesis
        unfolding gateway_ok_def fl ap
        using ok Some not_sent row AList_map_ok_update [of "gw_inFlight G" key]
        by (auto simp: gateway_ok_def)
    qed
    then show ?thesis
      using Some True ref by (simp add: broker_answers_def in_flight_def split: broker_answer.split)
  qed (use ok Some in \<open>simp add: broker_answers_def in_flight_def\<close>)
qed (use ok in \<open>simp add: broker_answers_def in_flight_def\<close>)

lemma gateway_ok_provider:
  assumes ok: "gateway_ok L0 G" and now: "live_clock now"
  shows "gateway_ok L0 (provider_answers now key answer G)"
proof (cases "in_flight G key")
  case (Some d)
  then obtain row where row: "row_at (gw_ledger G) key = Some row" "row_state row = Reserved"
    using ok live_row unfolding gateway_ok_def by metis
  have "gateway_ok L0 (settle_dispatch key d (provider_outcome now key d m answer (gw_ledger G)) G)" for m
    by (rule gateway_ok_settle [OF ok Some provider_row [OF row] lives_provider [OF now]])
  then show ?thesis
    using ok Some by (simp add: provider_answers_def in_flight_def split: dispatch_phase.split)
qed (use ok in \<open>simp add: provider_answers_def in_flight_def\<close>)

interpretation gw: event_system "gateway_step cfg" timely_event "gateway_ok L0" for cfg L0
proof
  fix e G
  assume "timely_event e" and "gateway_ok L0 G"
  then show "gateway_ok L0 (gateway_step cfg e G)"
    by (cases e) (simp_all add: gateway_ok_cancel gateway_ok_call gateway_ok_broker gateway_ok_provider)
qed

lemma gateway_run_ok:
  "list_all timely_event es \<Longrightarrow> ledger_ok L \<Longrightarrow> gateway_ok L (gateway_run cfg es (new_gateway L))"
  unfolding gateway_run_def by (rule gw.run_inv [OF _ gateway_ok_start])

section \<open>A sample history\<close>

definition sample_endpoint :: endpoint where
  "sample_endpoint = \<lparr>ep_extraHeaders = [], ep_pricing = None\<rparr>"

definition sample_gateway_config :: gateway_config where
  "sample_gateway_config = \<lparr>gc_caps = sample_caps, gc_perRequest = \<lparr>prb_maxTokens = 60, prb_maxCostMicros = 20\<rparr>,
     gc_profiles = [(''fast'', sample_endpoint)], gc_mac = sample_mac, gc_credentialRef = ''ref''\<rparr>"

definition sample_gateway_token :: string where
  "sample_gateway_token = token_text sample_mac sample_claims 3600007"

definition sample_request :: "string \<Rightarrow> jsval" where
  "sample_request uid = JObj [(''token'', JStr sample_gateway_token), (''runId'', JStr ''run1''),
     (''modelProfile'', JStr ''fast''), (''role'', JStr ''primary''), (''usageId'', JStr uid),
     (''reservationId'', JStr ''c1''), (''platform'', JStr ''github''), (''installationId'', JStr ''''),
     (''repoFullName'', JStr ''a''), (''payload'', JObj [(''body'', JObj [])])]"

definition sample_gateway_call :: "string \<Rightarrow> call_input" where
  "sample_gateway_call uid = \<lparr>in_token = sample_gateway_token, in_runId = ''run1'', in_modelProfile = ''fast'',
     in_role = ''primary'', in_usageId = uid, in_reservationId = ''c1'', in_platform = ''github'',
     in_installationId = '''', in_repoFullName = ''a''\<rparr>"

definition sample_start :: gateway where
  "sample_start = new_gateway (empty_ledger sample_caps)"

definition sample_dispatch :: "string \<Rightarrow> dispatch" where
  "sample_dispatch uid = \<lparr>d_input = sample_gateway_call uid, d_endpoint = sample_endpoint,
     d_phase = Awaiting_broker, d_callers = [0]\<rparr>"

abbreviation sample_key :: call_key where
  "sample_key \<equiv> (''run1'', ''c1'')"

lemma sample_claims_ok: "identity_ok sample_claims"
  by (rule requireIdentity_ok [OF sample_gateway_identity_ok])

lemma sample_token_verified:
  "verifyDetailed sample_mac 7 (JStr sample_gateway_token)
     \<lparr>pr_runId = ''run1'', pr_modelProfile = ''fast'', pr_expectedGeneration = 1,
      pr_limits = sample_limits\<rparr> = Verified"
  using verify_token [OF sample_claims_ok sample_mac_form, of 3600007 7]
  by (simp add: sample_gateway_token_def token_decision_def sample_claims_def sample_limits_valid max_safe_integer_def)

lemma sample_token_size: "sample_gateway_token \<noteq> '''' \<and> length sample_gateway_token \<le> 512"
  using token_length [OF sample_claims_ok sample_mac_form, of 3600007]
  by (simp add: sample_gateway_token_def max_token_chars_def max_safe_integer_def) (simp add: token_text_def Let_def)

lemma sample_validated:
  assumes "uid \<noteq> ''''" and "length uid \<le> 256" and "uid = js_trim uid"
  shows "validateCallInput (sample_request uid) = Some (sample_gateway_call uid)"
proof -
  have "''c1'' = js_trim ''c1''" by (simp add: js_trim_def js_space_def)
  then show ?thesis
    using sample_token_size assms
    by (simp add: validateCallInput_def sample_request_def js_string_def require_that_def is_alnum_def
        run_id_char_def profile_char_def isValidProfileName_def payload_ok_def js_object_def sample_gateway_call_def)
qed

lemma sample_admission:
  assumes "uid \<noteq> ''''" and "length uid \<le> 256" and "uid = js_trim uid"
  shows "admission sample_gateway_config 7 (sample_request uid) (empty_ledger sample_caps) =
    (Inr (sample_gateway_call uid, sample_endpoint, sample_key), sample_ledger)"
proof -
  have "limits_js sample_caps = sample_limits" by (simp add: limits_js_def sample_limits_def sample_caps_def)
  moreover have "generationFor (empty_ledger sample_caps) ''run1'' = 1"
    by (simp add: generationFor_def empty_ledger_def)
  moreover have "row_state sample_row = Reserved" "row_runId sample_row = ''run1''"
      "row_reservationId sample_row = ''c1''"
    by (simp_all add: sample_row_def fresh_row_def)
  ultimately show ?thesis
    using sample_token_verified sample_reserve
    by (simp add: admission_def sample_validated [OF assms] Let_def sample_gateway_config_def sample_gateway_call_def
        sample_input_def)
qed

lemma sample_owner:
  assumes "uid \<noteq> ''''" and "length uid \<le> 256" and "uid = js_trim uid"
  shows "gateway_step sample_gateway_config (Ev_call 7 0 (sample_request uid)) sample_start =
    \<lparr>gw_ledger = sample_ledger, gw_inFlight = [(sample_key, sample_dispatch uid)], gw_sent = [],
     gw_answers = []\<rparr>"
proof -
  have "admission sample_gateway_config 7 (sample_request uid) (gw_ledger sample_start) =
      (Inr (sample_gateway_call uid, sample_endpoint, sample_key), sample_ledger)"
    using sample_admission [OF assms] by (simp add: sample_start_def new_gateway_def)
  then show ?thesis
    by (simp add: gateway_call_def sample_dispatch_def) (simp add: sample_start_def new_gateway_def)
qed

lemma sample_sent:
  assumes "uid \<noteq> ''''" and "length uid \<le> 256" and "uid = js_trim uid"
  shows "gateway_run sample_gateway_config [Ev_call 7 0 (sample_request uid),
      Ev_broker 8 sample_key (Resolved ''material'')] sample_start =
    \<lparr>gw_ledger = sample_ledger,
     gw_inFlight = [(sample_key, (sample_dispatch uid)\<lparr>d_phase := Awaiting_provider ''material''\<rparr>)],
     gw_sent = [sample_key], gw_answers = []\<rparr>"
  using sample_owner [OF assms]
  by (simp add: gateway_run_def broker_answers_def) (simp add: sample_dispatch_def)

lemma sample_uid: "''u1'' \<noteq> ''''" "length ''u1'' \<le> 256" "''u1'' = js_trim ''u1''"
  by (simp_all add: js_trim_def js_space_def)

lemma sample_events_timely:
  "list_all timely_event [Ev_call 7 0 (sample_request uid), Ev_broker 8 sample_key (Resolved ''material'')]"
  by (simp add: live_clock_def counter_def max_safe_integer_def)

section \<open>Properties\<close>

subsection \<open>One provider request per reservation\<close>

definition charged_at :: "ledger \<Rightarrow> call_key \<Rightarrow> bool" where
  "charged_at L key = (case row_at L key of None \<Rightarrow> False | Some row \<Rightarrow> row_state row \<noteq> Refunded)"

lemma covered_requests:
  "row_ok row \<Longrightarrow> requestCount (covered row) = (if row_state row = Refunded then 0 else 1)"
  by (cases "row_state row") (simp_all add: covered_def charge_def overrun_def estimate_def usage_simps)

lemma group_requests:
  assumes "\<forall>row \<in> snd ` set rs. row_ok row"
  shows "requestCount (group_sum covered rs) =
    int (length (filter (\<lambda>(rid, row). row_state row \<noteq> Refunded) rs))"
  using assms by (induction rs) (auto simp: group_sum_def covered_requests usage_simps)

lemma accounted_requests:
  assumes "ledger_ok L" and "bounded L" and "distinct keys" and "\<forall>key \<in> set keys. fst key = run \<and> charged_at L key"
  shows "int (length keys) \<le> maxRequests (caps L)"
proof -
  let ?rs = "filter (\<lambda>(rid, row). row_state row \<noteq> Refunded) (rowsForRun L run)"
  have rows: "\<forall>row \<in> snd ` set (rowsForRun L run). row_ok row"
    using group_of_run [OF assms(1), of run] by (auto simp: group_ok_def)
  have "inj_on snd (set keys)" using assms(4) by (auto simp: inj_on_def prod_eq_iff)
  then have "length keys = card (snd ` set keys)"
    using assms(3) by (simp add: card_image distinct_card)
  also have "\<dots> \<le> card (fst ` set ?rs)"
  proof (rule card_mono)
    show "snd ` set keys \<subseteq> fst ` set ?rs"
      using assms(4) by (force simp: charged_at_def row_at_def row_of_def split: option.splits dest: map_of_SomeD)
  qed simp
  also have "\<dots> \<le> length ?rs"
    using card_length [of "map fst ?rs"] by (simp only: set_map length_map)
  finally have "int (length keys) \<le> requestCount (group_sum covered (rowsForRun L run))"
    using group_requests [OF rows] by simp
  also have "\<dots> \<le> maxRequests (caps L)"
    using assms(2) by (simp add: bounded_def usage_simps cap_usage_def)
  finally show ?thesis .
qed

text \<open>C4: One provider request per reservation, and no more than the run is allowed. In every history of
  the gateway over a ledger, whatever the broker and the provider answer, in any order and with any
  calls replayed, joined or cancelled, a provider request is sent at most once for a run and
  reservation id, always for a booked reservation; and a run's requests whose reservations are live
  or committed never exceed its request cap.\<close>

theorem provider_called_once:
  assumes "validateBudgetLimits v = Inr c" and "lives (empty_ledger c) L"
    and "list_all timely_event es" and "G = gateway_run cfg es (new_gateway L)"
  shows "distinct (gw_sent G) \<and> (\<forall>key \<in> set (gw_sent G). row_at (gw_ledger G) key \<noteq> None) \<and>
    int (length (filter (\<lambda>key. fst key = run \<and> charged_at (gw_ledger G) key) (gw_sent G))) \<le> maxRequests c"
proof -
  have ok0: "ledger_ok (empty_ledger c)" by (rule caps_valid_start [OF assms(1)])
  then have okL: "ledger_ok L" using lives_ok [OF assms(2)] by blast
  have ok: "gateway_ok L G" unfolding assms(4) by (rule gateway_run_ok [OF assms(3) okL])
  then have all: "lives (empty_ledger c) (gw_ledger G)" "ledger_ok (gw_ledger G)" "distinct (gw_sent G)"
    using assms(2) by (auto simp: gateway_ok_def intro: rtranclp_trans)
  have "caps (gw_ledger G) = c" using lives_caps [OF all(1) ok0] by (simp add: empty_ledger_def)
  moreover have b: "bounded (gw_ledger G)" by (rule lives_bounded [OF all(1) ok0 empty_bounded [OF ok0]])
  have "int (length (filter (\<lambda>key. fst key = run \<and> charged_at (gw_ledger G) key) (gw_sent G)))
      \<le> maxRequests (caps (gw_ledger G))"
    by (rule accounted_requests [where run = run, OF all(2) b distinct_filter [OF all(3)]]) simp
  ultimately show ?thesis using ok all(3) by (simp add: gateway_ok_def)
qed

theorem provider_called_once_witness:
  "int (length (filter (\<lambda>key. fst key = ''run1'' \<and> charged_at sample_ledger key) [sample_key])) \<le> 2"
  using provider_called_once [OF sample_limits_valid rtranclp.rtrancl_refl sample_events_timely refl,
      of sample_gateway_config "''u1''" "''run1''"] sample_sent [OF sample_uid]
  by (simp add: sample_start_def sample_caps_def)

subsection \<open>Reservations are settled\<close>

text \<open>C9: No reservation is stranded and none is lost under a dispatch. In every state the gateway
  reaches, each dispatch in flight holds a reservation that is still live and at least one waiting
  call; and every live reservation of the ledger either belongs to a dispatch in flight or was live
  before the gateway started. So when nothing is in flight, every reservation the gateway booked has
  been committed or refunded.\<close>

theorem reservations_owned:
  assumes "validateBudgetLimits v = Inr c" and "lives (empty_ledger c) L"
    and "list_all timely_event es" and "G = gateway_run cfg es (new_gateway L)"
  shows "(\<forall>key d. in_flight G key = Some d \<longrightarrow> live_at (gw_ledger G) key \<and> d_callers d \<noteq> []) \<and>
    (\<forall>key. live_at (gw_ledger G) key \<longrightarrow> in_flight G key \<noteq> None \<or> live_at L key) \<and>
    (gw_inFlight G = [] \<longrightarrow> (\<forall>key. row_at L key = None \<longrightarrow> \<not> live_at (gw_ledger G) key))"
proof -
  have "ledger_ok L" by (rule lives_ok [OF assms(2) caps_valid_start [OF assms(1)]])
  then have "gateway_ok L G" unfolding assms(4) by (rule gateway_run_ok [OF assms(3)])
  then have "(\<forall>key d. in_flight G key = Some d \<longrightarrow> live_at (gw_ledger G) key \<and> d_callers d \<noteq> []) \<and>
    (\<forall>key. live_at (gw_ledger G) key \<longrightarrow> in_flight G key \<noteq> None \<or> live_at L key)"
    by (simp add: gateway_ok_def)
  moreover have "\<not> live_at L key" if "row_at L key = None" for key using that by (simp add: live_at_def)
  moreover have "in_flight G key = None" if "gw_inFlight G = []" for key using that by (simp add: in_flight_def)
  ultimately show ?thesis by blast
qed

theorem reservations_owned_witness:
  "in_flight (gateway_run sample_gateway_config [Ev_call 7 0 (sample_request ''u1''),
     Ev_broker 8 sample_key (Resolved ''material'')] sample_start) sample_key \<noteq> None"
proof -
  have "live_at sample_ledger sample_key"
    by (simp add: live_at_def row_at_def sample_ledger_def sample_row_def fresh_row_def)
  then show ?thesis
    using reservations_owned [OF sample_limits_valid rtranclp.rtrancl_refl sample_events_timely refl,
        of sample_gateway_config "''u1''"] sample_sent [OF sample_uid]
    by (simp add: sample_start_def live_at_def row_at_def empty_ledger_def row_of_def rowsForRun_def in_flight_def)
qed

text \<open>The answer and the ledger agree. Whatever the provider does with a request in flight (a response
  of any content, a failure, a crash), every call that waits for it receives one and the same outcome,
  and its reservation is settled by that outcome: committed with exactly the tokens and the cost of
  the usage record when the response is handed out, refunded when it is not. No other reservation and
  no other dispatch changes.\<close>

theorem answer_settles:
  assumes "validateBudgetLimits v = Inr c" and "lives (empty_ledger c) L"
    and "list_all timely_event es" and "G = gateway_run cfg es (new_gateway L)"
    and "in_flight G key = Some d" and "d_phase d = Awaiting_provider m"
    and "G' = gateway_step cfg (Ev_provider now key answer) G"
  shows "\<exists>out row. gw_answers G' = gw_answers G @ map (\<lambda>caller. (caller, out)) (d_callers d) \<and>
    in_flight G' key = None \<and> row_at (gw_ledger G) key = Some row \<and> row_state row = Reserved \<and>
    (case out of
       Answered r u \<Rightarrow> answer = Chat_ok r \<and> row_at (gw_ledger G') key = Some
         (row\<lparr>row_state := Committed, row_actualRequestCount := 1,
            row_actualTokens := ur_inputTokens u + ur_outputTokens u, row_actualCostMicros := ur_costMicros u,
            row_overran := (ur_inputTokens u + ur_outputTokens u > row_estimatedTokens row \<or>
              ur_costMicros u > row_estimatedCostMicros row),
            row_settledAtMs := now\<rparr>)
     | Refusal code a \<Rightarrow>
         row_at (gw_ledger G') key = Some (row\<lparr>row_state := Refunded, row_settledAtMs := now\<rparr>)) \<and>
    (\<forall>k. k \<noteq> key \<longrightarrow> row_at (gw_ledger G') k = row_at (gw_ledger G) k \<and> in_flight G' k = in_flight G k)"
proof -
  have "ledger_ok L" by (rule lives_ok [OF assms(2) caps_valid_start [OF assms(1)]])
  then have "gateway_ok L G" unfolding assms(4) by (rule gateway_run_ok [OF assms(3)])
  then obtain row where row: "row_at (gw_ledger G) key = Some row" "row_state row = Reserved"
    using assms(5) live_row unfolding gateway_ok_def by metis
  define res where "res = provider_outcome now key d m answer (gw_ledger G)"
  have G': "G' = settle_dispatch key d res G"
    using assms(5,6) by (simp add: assms(7) provider_answers_def in_flight_def res_def)
  have s: "snd res = set_row (fst key) (snd key) (settled_row now (fst res) row) (gw_ledger G)"
    unfolding res_def by (rule provider_row [OF row])
  have "answer = Chat_ok r" if "fst res = Answered r u" for r u
    using that unfolding res_def provider_outcome_def
    by (auto simp: Let_def split: provider_answer.splits if_splits option.splits prod.splits sum.splits)
  then show ?thesis
    unfolding G' settle_simps
    by (intro exI [of _ "fst res"] exI [of _ row])
      (auto simp: row s settled_row_def committed_row_def split: call_outcome.split)
qed

theorem answer_settles_witness:
  "\<exists>out row. row_at sample_ledger sample_key = Some row \<and>
    gw_answers (gateway_step sample_gateway_config (Ev_provider 9 sample_key Provider_threw)
      (gateway_run sample_gateway_config [Ev_call 7 0 (sample_request ''u1''),
        Ev_broker 8 sample_key (Resolved ''material'')] sample_start)) = [(0, out)]"
proof -
  let ?G = "gateway_run sample_gateway_config [Ev_call 7 0 (sample_request ''u1''),
    Ev_broker 8 sample_key (Resolved ''material'')] (new_gateway (empty_ledger sample_caps))"
  have d: "in_flight ?G sample_key = Some ((sample_dispatch ''u1'')\<lparr>d_phase := Awaiting_provider ''material''\<rparr>)"
    using sample_sent [OF sample_uid] by (simp add: sample_start_def in_flight_def)
  have p: "d_phase ((sample_dispatch ''u1'')\<lparr>d_phase := Awaiting_provider ''material''\<rparr>) = Awaiting_provider ''material''"
    by simp
  from answer_settles [OF sample_limits_valid rtranclp.rtrancl_refl sample_events_timely refl d p refl,
      of 9 Provider_threw] sample_sent [OF sample_uid]
  show ?thesis by (fastforce simp: sample_start_def sample_dispatch_def)
qed

subsection \<open>Every call is answered\<close>

fun called :: "gateway_event list \<Rightarrow> nat list" where
  "called [] = []"
| "called (Ev_call now caller input # es) = caller # called es"
| "called (e # es) = called es"

definition callers_of :: "(call_key \<times> dispatch) list \<Rightarrow> nat multiset" where
  "callers_of fl = mset (concat (map (d_callers \<circ> snd) fl))"

definition waiting :: "gateway \<Rightarrow> nat multiset" where
  "waiting G = callers_of (gw_inFlight G)"

definition answered :: "gateway \<Rightarrow> nat list" where
  "answered G = map fst (gw_answers G)"

lemma callers_simps [simp]:
  "callers_of [] = {#}" "callers_of (kd # fl) = mset (d_callers (snd kd)) + callers_of fl"
  by (simp_all add: callers_of_def)

lemma callers_new:
  "map_of fl key = None \<Longrightarrow> callers_of (AList.update key d fl) = callers_of fl + mset (d_callers d)"
  by (simp add: update_new) (simp add: callers_of_def)

lemma callers_joined:
  "map_of fl key = Some d0 \<Longrightarrow> mset (d_callers d) = mset (d_callers d0) + M \<Longrightarrow>
     callers_of (AList.update key d fl) = callers_of fl + M"
proof (induction fl)
  case (Cons kd fl)
  then show ?case by (cases kd) (auto split: if_splits)
qed simp

lemma delete_absent: "map_of fl key = None \<Longrightarrow> AList.delete key fl = fl"
  by (induction fl) (auto split: if_splits)

lemma callers_delete:
  "map_ok fl \<Longrightarrow> map_of fl key = Some d \<Longrightarrow>
    callers_of (AList.delete key fl) + mset (d_callers d) = callers_of fl"
proof (induction fl)
  case (Cons kd fl)
  show ?case
  proof (cases "fst kd = key")
    case True
    then have "map_of fl key = None" using Cons.prems(1) by (auto simp: map_of_eq_None_iff)
    with True Cons.prems(2) show ?thesis by (cases kd) (auto simp: delete_absent)
  next
    case False
    with Cons show ?thesis by (cases kd) (auto simp: union_assoc)
  qed
qed simp

definition balanced :: "nat multiset \<Rightarrow> gateway \<Rightarrow> bool" where
  "balanced calls G \<longleftrightarrow> calls = mset (answered G) + waiting G"

lemma balanced_settle:
  assumes "map_ok (gw_inFlight G)" and "in_flight G key = Some d" and "balanced calls G"
  shows "balanced calls (settle_dispatch key d result G)"
proof -
  have "waiting (settle_dispatch key d result G) + mset (d_callers d) = waiting G"
    using callers_delete [of "gw_inFlight G" key d] assms(1,2) by (simp add: waiting_def in_flight_def)
  then show ?thesis
    using assms(3) by (simp add: balanced_def answered_def comp_def union_assoc add.commute)
qed

lemma balanced_call:
  assumes "balanced calls G"
  shows "balanced (add_mset caller calls) (gateway_call cfg now caller input G)"
proof -
  obtain res L where adm: "admission cfg now input (gw_ledger G) = (res, L)" by fastforce
  show ?thesis
  proof (cases res)
    case (Inl out)
    then show ?thesis
      using adm assms by (simp add: gateway_call_def balanced_def answered_def waiting_def)
  next
    case (Inr a)
    obtain i ep key where a: "a = (i, ep, key)" by (cases a)
    show ?thesis
      using assms callers_new [of "gw_inFlight G" key] callers_joined [of "gw_inFlight G" key _ _ "{#caller#}"]
      by (cases "map_of (gw_inFlight G) key")
        (simp_all add: gateway_call_def adm Inr a balanced_def answered_def waiting_def)
  qed
qed

lemma balanced_broker:
  assumes "map_ok (gw_inFlight G)" and "balanced calls G"
  shows "balanced calls (broker_answers now key answer G)"
proof (cases "in_flight G key")
  case (Some d)
  have "callers_of (AList.update key (d\<lparr>d_phase := ph\<rparr>) (gw_inFlight G)) = callers_of (gw_inFlight G)" for ph
    using callers_joined [of "gw_inFlight G" key d _ "{#}"] Some by (simp add: in_flight_def)
  then have "balanced calls (G\<lparr>gw_inFlight := AList.update key (d\<lparr>d_phase := ph\<rparr>) (gw_inFlight G),
      gw_sent := ks\<rparr>)" for ph ks
    using assms(2) by (simp add: balanced_def answered_def waiting_def)
  then show ?thesis
    using assms Some balanced_settle [OF assms(1) Some assms(2)]
    by (simp add: broker_answers_def in_flight_def split: broker_answer.split)
qed (use assms in \<open>simp add: broker_answers_def in_flight_def\<close>)

lemma balanced_provider:
  "map_ok (gw_inFlight G) \<Longrightarrow> balanced calls G \<Longrightarrow> balanced calls (provider_answers now key answer G)"
  using balanced_settle [of G key _ calls]
  by (auto simp: provider_answers_def in_flight_def split: option.split dispatch_phase.split)

lemma balanced_ledger: "balanced calls G \<Longrightarrow> balanced calls (G\<lparr>gw_ledger := L\<rparr>)"
  by (simp add: balanced_def answered_def waiting_def)

lemma balanced_run:
  assumes "list_all timely_event es" and "gateway_ok L0 G" and "balanced calls G"
  shows "balanced (mset (called es) + calls) (gateway_run cfg es G)"
  using assms
proof (induction es arbitrary: calls G)
  case (Cons e es)
  have ok: "gateway_ok L0 (gateway_step cfg e G)" using Cons.prems(1,2) gw.step_inv by simp
  have m: "map_ok (gw_inFlight G)" using Cons.prems(2) by (simp add: gateway_ok_def)
  have "balanced (mset (called [e]) + calls) (gateway_step cfg e G)"
    using Cons.prems(3) balanced_call balanced_broker [OF m] balanced_provider [OF m]
    by (cases e) (simp_all add: balanced_ledger)
  then have "balanced (mset (called es) + (mset (called [e]) + calls)) (gateway_run cfg es (gateway_step cfg e G))"
    using Cons.IH [OF _ ok] Cons.prems(1) by simp
  moreover have "mset (called (e # es)) = mset (called es) + mset (called [e])" by (cases e) simp_all
  ultimately show ?case by (simp add: gateway_run_def add.assoc)
qed (simp add: gateway_run_def)

text \<open>A dispatch whose broker and provider answer is over; the others are left alone.\<close>

definition drain :: "(call_key \<Rightarrow> int \<times> broker_answer) \<Rightarrow> (call_key \<Rightarrow> int \<times> provider_answer) \<Rightarrow>
    call_key list \<Rightarrow> gateway_event list" where
  "drain b p keys = concat (map (\<lambda>key. [Ev_broker (fst (b key)) key (snd (b key)),
     Ev_provider (fst (p key)) key (snd (p key))]) keys)"

lemma called_drain [simp]: "called (drain b p keys) = []"
  by (induction keys) (simp_all add: drain_def)

lemma gateway_run_append: "gateway_run cfg (es @ fs) G = gateway_run cfg fs (gateway_run cfg es G)"
  by (simp add: gateway_run_def)

lemma delete_update: "AList.delete key (AList.update key d m) = AList.delete key m"
  by (induction m) auto

lemma drain_one:
  assumes "map_ok (gw_inFlight G)"
  shows "gw_inFlight (gateway_run cfg [Ev_broker t key ba, Ev_provider t' key pa] G) =
    AList.delete key (gw_inFlight G)"
proof (cases "map_of (gw_inFlight G) key")
  case None
  then show ?thesis
    by (simp add: gateway_run_def broker_answers_def provider_answers_def delete_absent)
next
  case (Some d)
  have none: "map_of (AList.delete key (gw_inFlight G)) key = None" by simp
  show ?thesis
    using Some none
    by (cases ba; cases "d_phase d")
      (simp_all add: gateway_run_def broker_answers_def provider_answers_def settle_dispatch_def delete_update)
qed

lemma drain_all:
  "map_ok (gw_inFlight G) \<Longrightarrow> gw_inFlight (gateway_run cfg (drain b p keys) G) =
    filter (\<lambda>kd. fst kd \<notin> set keys) (gw_inFlight G)"
proof (induction keys arbitrary: G)
  case Nil
  then show ?case by (simp add: drain_def gateway_run_def)
next
  case (Cons key keys)
  let ?one = "[Ev_broker (fst (b key)) key (snd (b key)), Ev_provider (fst (p key)) key (snd (p key))]"
  have one: "gw_inFlight (gateway_run cfg ?one G) = AList.delete key (gw_inFlight G)"
    by (rule drain_one [OF Cons.prems])
  have "drain b p (key # keys) = ?one @ drain b p keys" by (simp add: drain_def)
  moreover have "map_ok (gw_inFlight (gateway_run cfg ?one G))"
    unfolding one by (rule AList_map_ok_delete [OF Cons.prems])
  moreover have "filter (\<lambda>kd. fst kd \<notin> set keys) (AList.delete key fl) =
      filter (\<lambda>kd. fst kd \<notin> set (key # keys)) fl" for fl :: "(call_key \<times> dispatch) list"
    by (auto simp: AList.delete_eq split_beta intro!: filter_cong)
  ultimately show ?case
    using Cons.IH one by (simp only: gateway_run_append)
qed

text \<open>C8: Every call is answered, exactly once. At any moment the calls made are the calls answered and
  the calls waiting on a dispatch, each counted once; and from any state the gateway reaches, once the
  broker and the provider have given each dispatch in flight an answer, of any kind and at any time, no
  dispatch is left and every call made has exactly one outcome.\<close>

theorem calls_answered:
  assumes "validateBudgetLimits v = Inr c" and "lives (empty_ledger c) L"
    and "list_all timely_event es" and "G = gateway_run cfg es (new_gateway L)"
    and "list_all timely_event (drain b p (map fst (gw_inFlight G)))"
    and "G' = gateway_run cfg (drain b p (map fst (gw_inFlight G))) G"
  shows "mset (called es) = mset (answered G) + waiting G \<and>
    gw_inFlight G' = [] \<and> mset (called es) = mset (answered G')"
proof -
  have okL: "ledger_ok L" by (rule lives_ok [OF assms(2) caps_valid_start [OF assms(1)]])
  have ok: "gateway_ok L G" unfolding assms(4) by (rule gateway_run_ok [OF assms(3) okL])
  have "balanced {#} (new_gateway L)" by (simp add: balanced_def new_gateway_def answered_def waiting_def)
  from balanced_run [OF assms(3) gateway_ok_start [OF okL] this, of cfg]
  have bal: "balanced (mset (called es)) G" by (simp add: assms(4))
  have "map_ok (gw_inFlight G)" using ok by (simp add: gateway_ok_def)
  from drain_all [OF this, of cfg b p "map fst (gw_inFlight G)"] have empty: "gw_inFlight G' = []"
    by (force simp: assms(6) filter_empty_conv)
  have "balanced (mset (called es)) G'"
    using balanced_run [OF assms(5) ok bal, of cfg] by (simp add: assms(6))
  with bal empty show ?thesis by (simp add: balanced_def waiting_def)
qed

theorem calls_answered_witness:
  "mset (called [Ev_call 7 0 (sample_request ''u1''), Ev_broker 8 sample_key (Resolved ''material'')]) =
   mset (answered (gateway_run sample_gateway_config
     (drain (\<lambda>_. (9, Broker_threw)) (\<lambda>_. (9, Chat_failed)) [sample_key])
     (gateway_run sample_gateway_config [Ev_call 7 0 (sample_request ''u1''),
       Ev_broker 8 sample_key (Resolved ''material'')] sample_start)))"
proof -
  let ?G = "gateway_run sample_gateway_config [Ev_call 7 0 (sample_request ''u1''),
    Ev_broker 8 sample_key (Resolved ''material'')] (new_gateway (empty_ledger sample_caps))"
  have keys: "map fst (gw_inFlight ?G) = [sample_key]"
    using sample_sent [OF sample_uid] by (simp add: sample_start_def)
  have "list_all timely_event (drain (\<lambda>_. (9, Broker_threw)) (\<lambda>_. (9, Chat_failed)) (map fst (gw_inFlight ?G)))"
    unfolding keys by (simp add: drain_def live_clock_def counter_def max_safe_integer_def)
  from calls_answered [OF sample_limits_valid rtranclp.rtrancl_refl sample_events_timely refl this refl]
  show ?thesis unfolding keys by (simp add: sample_start_def)
qed

subsection \<open>What an answer carries\<close>

lemma provider_outcome_answered:
  assumes "fst (provider_outcome now key d m answer L) = Answered r u"
  shows "answer = Chat_ok r \<and>
    \<not> responseCarriesKnownSecret (JObj r) (gatewayCallSecrets m (ep_extraHeaders (d_endpoint d))) \<and>
    buildUsageRecord (d_input d) r (ep_pricing (d_endpoint d)) now = Some u"
  using assms unfolding provider_outcome_def
  by (auto simp: Let_def split: provider_answer.splits if_splits option.splits prod.splits sum.splits)

lemma admission_code: "admission cfg now input L = (Inl out, L') \<Longrightarrow> \<exists>code. out = Refusal code None"
  by (auto simp: admission_def Let_def
      split: option.splits verification.splits prod.splits sum.splits if_splits)

lemma step_answers:
  assumes "(caller, out) \<in> set (gw_answers (gateway_step cfg e G))" and "(caller, out) \<notin> set (gw_answers G)"
  shows "(\<exists>code. out = Refusal code None) \<or>
    (\<exists>now key d m answer. e = Ev_provider now key answer \<and> in_flight G key = Some d \<and>
      d_phase d = Awaiting_provider m \<and> caller \<in> set (d_callers d) \<and>
      out = fst (provider_outcome now key d m answer (gw_ledger G)))"
proof (cases e)
  case (Ev_call now caller' input)
  then show ?thesis
    using assms admission_code [of cfg now input "gw_ledger G"]
    by (auto simp: gateway_call_def split: prod.splits sum.splits)
next
  case (Ev_broker now key answer)
  then show ?thesis
    using assms by (auto simp: broker_answers_def split: option.splits if_splits broker_answer.splits)
next
  case (Ev_provider now key answer)
  then show ?thesis
    using assms by (auto simp: provider_answers_def in_flight_def split: option.splits dispatch_phase.splits)
next
  case (Ev_cancel run)
  then show ?thesis using assms by simp
qed

text \<open>C26: The provider key never leaves with a response. Whatever event happens in whatever state, a
  response is handed to a caller only as the answer of the provider to a dispatch that waits for it; and
  then no text of it, neither a string at any depth nor a key, contains the credential that dispatch
  resolved or the value of one of its endpoint's extra headers, of eight characters or more, be it
  spelled raw, JSON-escaped, percent-encoded or in base64.\<close>

theorem response_never_carries_secret:
  assumes "(caller, Answered r u) \<in> set (gw_answers (gateway_step cfg e G))"
    and "(caller, Answered r u) \<notin> set (gw_answers G)"
  shows "\<exists>now key d m. e = Ev_provider now key (Chat_ok r) \<and> in_flight G key = Some d \<and>
    d_phase d = Awaiting_provider m \<and> caller \<in> set (d_callers d) \<and>
    (\<forall>secret \<in> insert m (snd ` set (ep_extraHeaders (d_endpoint d))). 8 \<le> length secret \<longrightarrow>
      (\<forall>t \<in> set (js_texts (JObj r)). \<not> sublist secret t \<and> \<not> sublist (jsonEscaped secret) t \<and>
        \<not> sublist (encodeURIComponent secret) t \<and> \<not> sublist (base64_of secret) t))"
proof -
  obtain now key d m answer where e: "e = Ev_provider now key answer" "in_flight G key = Some d"
      "d_phase d = Awaiting_provider m" "caller \<in> set (d_callers d)"
      "fst (provider_outcome now key d m answer (gw_ledger G)) = Answered r u"
    using step_answers [OF assms] by auto
  note a = provider_outcome_answered [OF e(5)]
  then have "\<forall>secret \<in> insert m (snd ` set (ep_extraHeaders (d_endpoint d))). 8 \<le> length secret \<longrightarrow>
      (\<forall>t \<in> set (js_texts (JObj r)). \<not> sublist secret t \<and> \<not> sublist (jsonEscaped secret) t \<and>
        \<not> sublist (encodeURIComponent secret) t \<and> \<not> sublist (base64_of secret) t)"
    using gate_clean [of "JObj r" m "ep_extraHeaders (d_endpoint d)"]
    unfolding min_known_secret_content_len_def by blast
  with e(1-4) a show ?thesis by blast
qed

definition sample_response :: "(string \<times> jsval) list" where
  "sample_response = [(''content'', JStr ''ok'')]"

definition sample_waiting :: gateway where
  "sample_waiting = \<lparr>gw_ledger = sample_ledger,
     gw_inFlight = [(sample_key, (sample_dispatch ''u1'')\<lparr>d_phase := Awaiting_provider ''material''\<rparr>)],
     gw_sent = [sample_key], gw_answers = []\<rparr>"

lemma sample_usage:
  "buildUsageRecord (sample_gateway_call ''u1'') sample_response None 9 =
     Some \<lparr>ur_usageId = ''u1'', ur_runId = ''run1'', ur_route = ''fast'', ur_role = Role_primary,
       ur_requestCount = 1, ur_inputTokens = 0, ur_cacheReadTokens = 0, ur_cacheWriteTokens = 0,
       ur_outputTokens = 0, ur_costMicros = 0, ur_costProvenance = Unknown_cost, ur_recordedAtMs = 9\<rparr>"
  by (simp add: buildUsageRecord_def usage_field_def sample_response_def sample_gateway_call_def usage_entry_def
      usageWithoutCost_def validateUsage_def Let_def plain_id is_alnum_def js_int_check positive_integer_def
      js_usage_role_def js_cost_provenance_def require_that_def)

lemma sample_answered:
  "\<exists>u. gw_answers (gateway_step sample_gateway_config (Ev_provider 9 sample_key (Chat_ok sample_response)) sample_waiting)
     = [(0, Answered sample_response u)]"
proof -
  have clean: "\<not> responseCarriesKnownSecret (JObj sample_response) (gatewayCallSecrets ''material'' [])"
    by (code_simp)
  have "row_of sample_ledger ''run1'' ''c1'' = Some sample_row" "row_state sample_row = Reserved"
    by (simp_all add: sample_ledger_def sample_row_def fresh_row_def)
  then show ?thesis
    using clean sample_usage
    by (simp add: provider_answers_def sample_waiting_def sample_dispatch_def provider_outcome_def
        sample_endpoint_def commit_def checkActual_def js_int_check positive_integer_def)
qed

theorem response_never_carries_secret_witness:
  "\<exists>now key d m. Ev_provider 9 sample_key (Chat_ok sample_response) = Ev_provider now key (Chat_ok sample_response) \<and>
    in_flight sample_waiting key = Some d \<and> d_phase d = Awaiting_provider m"
proof -
  obtain u where u: "gw_answers (gateway_step sample_gateway_config (Ev_provider 9 sample_key (Chat_ok sample_response))
      sample_waiting) = [(0, Answered sample_response u)]"
    using sample_answered by blast
  then have a: "(0, Answered sample_response u) \<in> set (gw_answers (gateway_step sample_gateway_config
      (Ev_provider 9 sample_key (Chat_ok sample_response)) sample_waiting))"
    by simp
  have b: "(0, Answered sample_response u) \<notin> set (gw_answers sample_waiting)"
    by (simp add: sample_waiting_def)
  from response_never_carries_secret [OF a b] show ?thesis by blast
qed

subsection \<open>Usage records\<close>

definition recorded_usage :: "usage_record \<Rightarrow> bool" where
  "recorded_usage u \<longleftrightarrow> usage_record_ok u \<and> ur_requestCount u = 1 \<and> ur_costProvenance u \<noteq> Provider_reported"

lemma built_usage:
  assumes "buildUsageRecord i r pricing now = Some u"
  shows "recorded_usage u"
proof -
  from assms obtain v where v: "validateUsage v = Some u" "v = JObj (case pricing of
      None \<Rightarrow> usageWithoutCost (usage_entry i (usage_field r ''promptTokens'') (usage_field r ''cacheReadTokens'')
        (usage_field r ''cacheWriteTokens'') (usage_field r ''completionTokens'') now)
    | Some pr \<Rightarrow> usage_entry i (usage_field r ''promptTokens'') (usage_field r ''cacheReadTokens'')
        (usage_field r ''cacheWriteTokens'') (usage_field r ''completionTokens'') now @
        [(''costMicros'', configured_cost (usage_field r ''promptTokens'') (usage_field r ''completionTokens'') pr),
         (''costProvenance'', JStr ''configured-estimate'')])"
    by (simp add: buildUsageRecord_def Let_def)
  then have "ur_requestCount u = 1 \<and> ur_costProvenance u \<noteq> Provider_reported"
    by (cases pricing)
      (auto simp: validateUsage_def usage_entry_def usageWithoutCost_def parsed js_cost_provenance_def
        split: Option.bind_splits)
  with validateUsage_ok [OF v(1)] show ?thesis by (simp add: recorded_usage_def)
qed

lemma attempt_usage:
  assumes "attemptRecord i now = Some u"
  shows "recorded_usage u \<and> ur_inputTokens u = 0 \<and> ur_outputTokens u = 0 \<and> ur_costMicros u = 0 \<and>
    ur_costProvenance u = Unknown_cost"
proof -
  have "ur_requestCount u = 1 \<and> ur_inputTokens u = 0 \<and> ur_outputTokens u = 0 \<and> ur_costMicros u = 0 \<and>
      ur_costProvenance u = Unknown_cost"
    using assms
    by (auto simp: attemptRecord_def validateUsage_def usage_entry_def usageWithoutCost_def parsed
        js_cost_provenance_def split: Option.bind_splits)
  moreover have "usage_record_ok u" using assms validateUsage_ok by (auto simp: attemptRecord_def)
  ultimately show ?thesis by (simp add: recorded_usage_def)
qed

definition honest_outcome :: "call_outcome \<Rightarrow> bool" where
  "honest_outcome out \<longleftrightarrow>
     (case out of
        Answered r u \<Rightarrow> recorded_usage u
      | Refusal code None \<Rightarrow> True
      | Refusal code (Some u) \<Rightarrow> recorded_usage u \<and>
          ((\<exists>b. code = Code_budget b) \<or>
           ur_inputTokens u = 0 \<and> ur_outputTokens u = 0 \<and> ur_costMicros u = 0 \<and>
           ur_costProvenance u = Unknown_cost))"

lemma honest_attempt: "honest_outcome (Refusal code (attemptRecord i now))"
  using attempt_usage by (simp add: honest_outcome_def split: option.split)

lemma honest_simps:
  "honest_outcome (Answered r u) = recorded_usage u" "honest_outcome (Refusal code None)"
  "honest_outcome (Refusal (Code_budget b) (Some u)) = recorded_usage u"
  by (simp_all add: honest_outcome_def)

lemma provider_honest: "honest_outcome (fst (provider_outcome now key d m answer L))"
proof (cases answer)
  case (Chat_ok r)
  then show ?thesis
    using built_usage [of "d_input d" r "ep_pricing (d_endpoint d)" now]
    by (auto simp: provider_outcome_def Let_def honest_simps honest_attempt
        split: option.split prod.split sum.split)
qed (auto simp: provider_outcome_def honest_attempt honest_simps)

lemma step_honest:
  assumes "list_all (\<lambda>(caller, out). honest_outcome out) (gw_answers G)"
  shows "list_all (\<lambda>(caller, out). honest_outcome out) (gw_answers (gateway_step cfg e G))"
  unfolding list_all_iff
proof (clarify)
  fix caller out
  assume new: "(caller, out) \<in> set (gw_answers (gateway_step cfg e G))"
  show "honest_outcome out"
  proof (cases "(caller, out) \<in> set (gw_answers G)")
    case True
    then show ?thesis using assms by (auto simp: list_all_iff)
  next
    case False
    from step_answers [OF new False] show ?thesis
      using provider_honest by (auto simp: honest_simps)
  qed
qed

text \<open>C36: Whatever happens, every usage record the gateway hands out has the durable shape: identifiers that
  are non-empty, trimmed, bounded and free of control characters, counts that are safe integers, exactly
  one request, and a cost that is zero when its basis is unknown and never claims to be the provider's;
  and the record of a call that did not settle (other than one the ledger refused to commit) has zero
  tokens and an unknown zero cost.\<close>

theorem usage_records_typed:
  "list_all (\<lambda>(caller, out).
     case out of
       Answered r u \<Rightarrow> usage_record_ok u \<and> ur_requestCount u = 1 \<and> ur_costProvenance u \<noteq> Provider_reported
     | Refusal code a \<Rightarrow>
         (case a of
            None \<Rightarrow> True
          | Some u \<Rightarrow> usage_record_ok u \<and> ur_requestCount u = 1 \<and> ur_costProvenance u \<noteq> Provider_reported \<and>
              ((\<exists>b. code = Code_budget b) \<or> ur_inputTokens u = 0 \<and> ur_outputTokens u = 0 \<and>
               ur_costMicros u = 0 \<and> ur_costProvenance u = Unknown_cost)))
     (gw_answers (gateway_run cfg es (new_gateway L)))"
proof -
  have "list_all (\<lambda>(caller, out). honest_outcome out) (gw_answers (gateway_run cfg es G))"
    if "list_all (\<lambda>(caller, out). honest_outcome out) (gw_answers G)" for G
    using that by (induction es arbitrary: G) (simp_all add: gateway_run_def step_honest)
  from this [of "new_gateway L"] show ?thesis
    by (auto simp: new_gateway_def honest_outcome_def recorded_usage_def list_all_iff
        split: call_outcome.splits option.splits)
qed

subsection \<open>Authority\<close>

lemma limits_js_valid: "validateBudgetLimits v = Inr c \<Longrightarrow> validateBudgetLimits (limits_js c) = Inr c"
  using caps_valid_start [of v c] by (simp add: ledger_ok_def empty_ledger_def)

lemma validated_ids:
  assumes "validateCallInput input = Some i"
  shows "run_id_re (in_runId i) \<and> profile_name_re (in_modelProfile i)"
  using assms
  by (auto simp: validateCallInput_def isValidProfileName_def split: jsval.splits Option.bind_splits)

text \<open>C5: Without a mint, nothing. If no token was minted for the run, the profile, the generation the
  ledger now expects and the gateway's limits that has not expired (none at all, or only for a generation
  before a cancellation), and the tag presented was not forged, then the call changes nothing but its
  own answer, a capability refusal, which is the same whatever profiles the gateway serves.\<close>

theorem unminted_call_refused:
  assumes "validateCallInput input = Some i" and "validateBudgetLimits v = Inr (gc_caps cfg)"
    and "\<forall>(ci, e) \<in> M. \<exists>t0 identity ttlMs t. 0 \<le> t0 \<and> mint (gc_mac cfg) t0 identity ttlMs = Inr t \<and>
      requireIdentity identity = Inr ci \<and> mt_expiresAtMs t = e"
    and "\<forall>x. gc_mac cfg x = token_tag (JStr (in_token i)) \<longrightarrow> x \<in> signed_inputs M"
    and "\<forall>e. (\<lparr>ci_runId = in_runId i, ci_modelProfile = in_modelProfile i,
      ci_generation = generationFor (gw_ledger G) (in_runId i), ci_limits = gc_caps cfg\<rparr>, e) \<in> M \<longrightarrow> e \<le> now"
  shows "\<exists>code. \<forall>profiles. gateway_call (cfg\<lparr>gc_profiles := profiles\<rparr>) now caller input G =
    G\<lparr>gw_answers := gw_answers G @ [(caller, Refusal (Code_capability code) None)]\<rparr>"
proof -
  let ?p = "\<lparr>pr_runId = in_runId i, pr_modelProfile = in_modelProfile i,
    pr_expectedGeneration = generationFor (gw_ledger G) (in_runId i), pr_limits = limits_js (gc_caps cfg)\<rparr>"
  have "verifyDetailed (gc_mac cfg) now (JStr (in_token i)) ?p \<noteq> Verified"
  proof
    assume ok: "verifyDetailed (gc_mac cfg) now (JStr (in_token i)) ?p = Verified"
    have ids: "run_id_re (pr_runId ?p)" "profile_name_re (pr_modelProfile ?p)"
      using validated_ids [OF assms(1)] by simp_all
    from capability_sound [OF ok ids assms(3,4)] show False
      using assms(5) limits_js_valid [OF assms(2)] by force
  qed
  then obtain code where "verifyDetailed (gc_mac cfg) now (JStr (in_token i)) ?p = Refused code"
    by (cases "verifyDetailed (gc_mac cfg) now (JStr (in_token i)) ?p") auto
  then have "admission (cfg\<lparr>gc_profiles := profiles\<rparr>) now input (gw_ledger G) =
      (Inl (Refusal (Code_capability code) None), gw_ledger G)" for profiles
    by (simp add: admission_def assms(1) Let_def)
  then show ?thesis by (auto simp: gateway_call_def)
qed

definition forged_call :: call_input where
  "forged_call = (sample_gateway_call ''u1'')\<lparr>in_token := ''x''\<rparr>"

definition forged_request :: jsval where
  "forged_request = JObj [(''token'', JStr ''x''), (''runId'', JStr ''run1''),
     (''modelProfile'', JStr ''fast''), (''role'', JStr ''primary''), (''usageId'', JStr ''u1''),
     (''reservationId'', JStr ''c1''), (''platform'', JStr ''github''), (''installationId'', JStr ''''),
     (''repoFullName'', JStr ''a''), (''payload'', JObj [(''body'', JObj [])])]"

theorem unminted_call_refused_witness:
  "\<exists>code. gateway_call (sample_gateway_config\<lparr>gc_profiles := []\<rparr>) 9 5 forged_request sample_waiting =
    sample_waiting\<lparr>gw_answers := [(5, Refusal (Code_capability code) None)]\<rparr>"
proof -
  have "''c1'' = js_trim ''c1''" by (simp add: js_trim_def js_space_def)
  then have v: "validateCallInput forged_request = Some forged_call"
    using sample_uid
    by (simp add: validateCallInput_def forged_request_def forged_call_def js_string_def require_that_def
        is_alnum_def run_id_char_def profile_char_def isValidProfileName_def payload_ok_def js_object_def
        sample_gateway_call_def)
  have "length (sample_mac x) = 64" for x by (simp add: sample_mac_def)
  then have "sample_mac x \<noteq> ''x''" for x by (metis list.size(3,4) numeral_eq_one_iff num.distinct(1) One_nat_def add_0)
  then have f: "\<forall>x. gc_mac sample_gateway_config x = token_tag (JStr (in_token forged_call)) \<longrightarrow> x \<in> signed_inputs {}"
    by (simp add: sample_gateway_config_def token_tag_def forged_call_def)
  have c: "validateBudgetLimits sample_limits = Inr (gc_caps sample_gateway_config)"
    by (simp add: sample_limits_valid sample_gateway_config_def)
  have "\<exists>code. \<forall>profiles. gateway_call (sample_gateway_config\<lparr>gc_profiles := profiles\<rparr>) 9 5 forged_request sample_waiting =
      sample_waiting\<lparr>gw_answers := gw_answers sample_waiting @ [(5, Refusal (Code_capability code) None)]\<rparr>"
    by (rule unminted_call_refused [OF v c _ f]) simp_all
  then show ?thesis by (auto simp: sample_waiting_def)
qed

subsection \<open>A billed call that leaves no trace\<close>

lemma control_not_recorded:
  assumes "list_ex control_char (in_usageId i)"
  shows "buildUsageRecord i r pricing now = None" and "attemptRecord i now = None"
proof -
  have "ledger_identifier (JStr (in_usageId i)) 256 = None"
    using assms by (simp add: ledger_identifier_def)
  then show "buildUsageRecord i r pricing now = None" "attemptRecord i now = None"
    by (cases pricing; simp add: buildUsageRecord_def attemptRecord_def validateUsage_def usage_entry_def
        usageWithoutCost_def Let_def)+
qed

text \<open>C35: A billed request can leave no trace. The check of a request admits a usage id with a control
  character inside, which the usage record does not: when the provider answers such a request with a
  response that carries no known secret, every waiting caller gets \<open>usage_record_invalid\<close> with no attempt record, the reservation is refunded and the
  run's usage falls back by the whole estimate, although the request was sent. So a run that chooses such
  ids is never charged.\<close>

theorem unrecordable_call_uncharged:
  assumes "validateBudgetLimits v = Inr c" and "lives (empty_ledger c) L"
    and "list_all timely_event es" and "G = gateway_run cfg es (new_gateway L)"
    and "in_flight G key = Some d" and "d_phase d = Awaiting_provider m"
    and "list_ex control_char (in_usageId (d_input d))"
    and "\<not> responseCarriesKnownSecret (JObj r) (gatewayCallSecrets m (ep_extraHeaders (d_endpoint d)))"
    and "G' = gateway_step cfg (Ev_provider now key (Chat_ok r)) G"
  shows "key \<in> set (gw_sent G') \<and>
    gw_answers G' = gw_answers G @ map (\<lambda>caller. (caller, Refusal Usage_record_invalid None)) (d_callers d) \<and>
    (\<exists>row. row_at (gw_ledger G) key = Some row \<and> row_at (gw_ledger G') key =
        Some (row\<lparr>row_state := Refunded, row_settledAtMs := now\<rparr>) \<and>
      usageFor (gw_ledger G') (fst key) = usageFor (gw_ledger G) (fst key) - estimate row)"
proof -
  have "ledger_ok L" by (rule lives_ok [OF assms(2) caps_valid_start [OF assms(1)]])
  then have ok: "gateway_ok L G" unfolding assms(4) by (rule gateway_run_ok [OF assms(3)])
  then obtain row where row: "row_at (gw_ledger G) key = Some row" "row_state row = Reserved"
    using assms(5) live_row unfolding gateway_ok_def by metis
  let ?row' = "row\<lparr>row_state := Refunded, row_settledAtMs := now\<rparr>"
  let ?L' = "set_row (fst key) (snd key) ?row' (gw_ledger G)"
  have "provider_outcome now key d m (Chat_ok r) (gw_ledger G) =
      refunded now key (Refusal Usage_record_invalid None) (gw_ledger G)"
    using assms(8) control_not_recorded [OF assms(7)] by (simp add: provider_outcome_def Let_def)
  then have out: "provider_outcome now key d m (Chat_ok r) (gw_ledger G) =
      (Refusal Usage_record_invalid None, ?L')"
    using refunded_row [OF row] by (simp add: prod_eq_iff settled_row_def)
  then have G': "G' = settle_dispatch key d (Refusal Usage_record_invalid None, ?L') G"
    using assms(5,6) by (simp add: assms(9) provider_answers_def in_flight_def)
  have m: "map_ok (run_rows (gw_ledger G))" using ok by (simp add: gateway_ok_def ledger_ok_def)
  have m': "map_ok (run_rows ?L')" using AList_map_ok_update [OF m] by (simp add: set_row_def)
  have "usageFor ?L' (fst key) = usageFor (gw_ledger G) (fst key) - charge row + charge ?row'"
    using group_sum_present [of "rowsForRun (gw_ledger G) (fst key)" "snd key" row charge ?row'] row(1)
    by (simp add: usageFor_group [OF m] usageFor_group [OF m'] row_at_def row_of_def)
  moreover have "charge row = estimate row" "charge ?row' = 0" using row(2) by (simp_all add: charge_def)
  moreover have "key \<in> set (gw_sent G)" using ok assms(5,6) by (auto simp: gateway_ok_def at_provider_def)
  ultimately show ?thesis using row(1) by (simp add: G')
qed

definition odd_uid :: string where
  "odd_uid = [CHR ''a'', CHR 0x01, CHR ''b'']"

lemma control_uid: "odd_uid \<noteq> ''''" "length odd_uid \<le> 256"
    "odd_uid = js_trim odd_uid"
  by (simp_all add: odd_uid_def js_trim_def js_space_def)

theorem unrecordable_call_uncharged_witness:
  "validateCallInput (sample_request odd_uid) = Some (sample_gateway_call odd_uid) \<and>
   gw_answers (gateway_step sample_gateway_config (Ev_provider 9 sample_key (Chat_ok sample_response))
     (gateway_run sample_gateway_config [Ev_call 7 0 (sample_request odd_uid),
       Ev_broker 8 sample_key (Resolved ''material'')] sample_start)) =
   [(0, Refusal Usage_record_invalid None)]"
proof -
  let ?G = "gateway_run sample_gateway_config [Ev_call 7 0 (sample_request odd_uid),
    Ev_broker 8 sample_key (Resolved ''material'')] (new_gateway (empty_ledger sample_caps))"
  let ?d = "(sample_dispatch odd_uid)\<lparr>d_phase := Awaiting_provider ''material''\<rparr>"
  have d: "in_flight ?G sample_key = Some ?d"
    using sample_sent [OF control_uid] by (simp add: sample_start_def in_flight_def)
  have p: "d_phase ?d = Awaiting_provider ''material''" by simp
  have u: "list_ex control_char (in_usageId (d_input ?d))"
    by (simp add: sample_dispatch_def sample_gateway_call_def control_char_def odd_uid_def)
  have e: "ep_extraHeaders (d_endpoint ?d) = []" by (simp add: sample_dispatch_def sample_endpoint_def)
  have clean: "\<not> responseCarriesKnownSecret (JObj sample_response)
      (gatewayCallSecrets ''material'' (ep_extraHeaders (d_endpoint ?d)))"
    unfolding e by code_simp
  from unrecordable_call_uncharged [OF sample_limits_valid rtranclp.rtrancl_refl sample_events_timely refl d p u
      clean refl] sample_sent [OF control_uid] sample_validated [OF control_uid]
  show ?thesis by (simp add: sample_start_def sample_dispatch_def)
qed

end
