(* ===== verification/Rate_Limit.thy ===== *)
theory Rate_Limit
  imports Js_Prelude
begin

text \<open>
  The follow-up rate limit, \<^verbatim>\<open>src/followup/rate-limit.ts\<close>: the sliding-window store seam, the
  in-memory store, and the multi-scope decision \<open>consumeFollowUpBudget\<close> over a store with or
  without the atomic capability.

  Instants, limits and windows are JavaScript numbers (\<open>jsnum\<close>), with NaN and the infinities, since
  the comparisons of the code decide what a malformed rule does.
\<close>

section \<open>Comparison and arithmetic of numbers\<close>

fun js_less :: "jsnum \<Rightarrow> jsnum \<Rightarrow> bool" where
  "js_less NaN y = False"
| "js_less x NaN = False"
| "js_less (Fin a) (Fin b) = (a < b)"
| "js_less NegInf NegInf = False"
| "js_less NegInf y = True"
| "js_less x NegInf = False"
| "js_less PosInf y = False"
| "js_less x PosInf = True"

definition js_le :: "jsnum \<Rightarrow> jsnum \<Rightarrow> bool" where
  "js_le x y = (x \<noteq> NaN \<and> y \<noteq> NaN \<and> \<not> js_less y x)"

fun js_minus :: "jsnum \<Rightarrow> jsnum \<Rightarrow> jsnum" where
  "js_minus (Fin a) (Fin b) = Fin (a - b)"
| "js_minus NaN y = NaN"
| "js_minus x NaN = NaN"
| "js_minus PosInf PosInf = NaN"
| "js_minus NegInf NegInf = NaN"
| "js_minus PosInf y = PosInf"
| "js_minus NegInf y = NegInf"
| "js_minus x PosInf = NegInf"
| "js_minus x NegInf = PosInf"

text \<open>\<open>Math.max\<close> and \<open>Math.floor\<close>\<close>

definition js_max :: "jsnum \<Rightarrow> jsnum \<Rightarrow> jsnum" where
  "js_max x y = (if x = NaN \<or> y = NaN then NaN else if js_less x y then y else x)"

fun js_floor :: "jsnum \<Rightarrow> jsnum" where
  "js_floor (Fin q) = Fin (of_int \<lfloor>q\<rfloor>)"
| "js_floor x = x"

definition js_nat :: "nat \<Rightarrow> jsnum" where
  "js_nat n = Fin (of_nat n)"

lemma js_le_Fin [simp]: "js_le (Fin a) (Fin b) \<longleftrightarrow> a \<le> b"
  by (auto simp: js_le_def)

lemma js_max_Fin [simp]: "js_max (Fin a) (Fin b) = Fin (max a b)"
  by (auto simp: js_max_def max_def)

section \<open>The store seam and the decision\<close>

record rate_scope =
  sc_key :: string
  sc_limit :: jsnum
  sc_windowMs :: jsnum

text \<open>What a store can throw: a file-system error with its code, a plain \<open>Error\<close> or \<open>LedgerError\<close>
  with its message, a \<open>RangeError\<close>, or the \<open>TypeError\<close> of reading a property of \<open>undefined\<close>.\<close>

datatype rate_error = Io_error string | Store_error string | Argument_error string | Type_error

type_synonym ('s, 'a) rop = "(rate_error, 's, 'a) sx"

text \<open>A store: the two methods of \<open>RateLimitStore\<close>, the optional atomic capability and its optional
  probe.\<close>

record 's rate_store =
  rs_countInWindow :: "string \<Rightarrow> jsnum \<Rightarrow> jsnum \<Rightarrow> ('s, jsnum) rop"
  rs_record :: "string \<Rightarrow> jsnum \<Rightarrow> ('s, unit) rop"
  rs_consumeScopesAtomically ::
    "(rate_scope list \<Rightarrow> jsnum \<Rightarrow> string option \<Rightarrow> ('s, bool) rop) option"
  rs_isRequestCharged :: "(rate_scope list \<Rightarrow> string \<Rightarrow> ('s, bool) rop) option"

text \<open>The loop of per-scope checks: false at the first scope that is malformed or at its limit.\<close>

fun check_scopes :: "'s rate_store \<Rightarrow> jsnum \<Rightarrow> rate_scope list \<Rightarrow> ('s, bool) rop" where
  "check_scopes st now [] = ret True"
| "check_scopes st now (sc # scs) =
     (let lim = js_floor (sc_limit sc) in
      if js_le lim (Fin 0) \<or> js_le (js_floor (sc_windowMs sc)) (Fin 0) then ret False
      else bnd (rs_countInWindow st (sc_key sc) (sc_windowMs sc) now) (\<lambda>n.
        if js_le lim n then ret False else check_scopes st now scs))"

definition consumeFollowUpBudget ::
  "'s rate_store \<Rightarrow> rate_scope list \<Rightarrow> jsnum \<Rightarrow> string option \<Rightarrow> ('s, bool) rop" where
  "consumeFollowUpBudget st scopes now requestId =
     (case rs_consumeScopesAtomically st of
        None \<Rightarrow> bnd (check_scopes st now scopes)
          (\<lambda>ok. if ok then seqn (for_each scopes (\<lambda>sc. rs_record st (sc_key sc) now)) (ret True)
            else ret False)
      | Some consume \<Rightarrow>
          bnd (case (requestId, rs_isRequestCharged st) of
                 (Some rid, Some charged) \<Rightarrow> if rid \<noteq> '''' then charged scopes rid else ret False
               | _ \<Rightarrow> ret False)
            (\<lambda>readmit. if readmit then consume scopes now requestId
               else bnd (check_scopes st now scopes)
                 (\<lambda>ok. if ok then consume scopes now requestId else ret False)))"

section \<open>The in-memory store\<close>

type_synonym mem_events = "(string \<times> jsnum list) list"

definition in_window :: "jsnum \<Rightarrow> jsnum \<Rightarrow> jsnum \<Rightarrow> bool" where
  "in_window w now t = js_less (js_minus now (js_max (Fin 0) w)) t"

definition countInWindow :: "string \<Rightarrow> jsnum \<Rightarrow> jsnum \<Rightarrow> (mem_events, jsnum) rop" where
  "countInWindow key w now s =
     (case map_of s key of
        None \<Rightarrow> (Inr (Fin 0), s)
      | Some evs \<Rightarrow>
          let recent = filter (in_window w now) evs in
          (Inr (js_nat (length recent)),
           if recent = [] then AList.delete key s
           else if length recent \<noteq> length evs then AList.update key recent s else s))"

definition record_event :: "nat \<Rightarrow> string \<Rightarrow> jsnum \<Rightarrow> (mem_events, unit) rop" where
  "record_event maxKeys key now s =
     (case map_of s key of
        Some evs \<Rightarrow> (Inr (), AList.update key (evs @ [now]) s)
      | None \<Rightarrow>
          let s1 = (if length s \<ge> maxKeys then (case s of [] \<Rightarrow> s | e # rest \<Rightarrow> AList.delete (fst e) s)
                    else s) in
          (Inr (), AList.update key [now] s1))"

definition constructor_maxKeys :: "rat \<Rightarrow> nat" where
  "constructor_maxKeys q = (if q \<ge> 1 then nat \<lfloor>q\<rfloor> else 1)"

definition memory_store :: "nat \<Rightarrow> mem_events rate_store" where
  "memory_store maxKeys =
     \<lparr>rs_countInWindow = countInWindow, rs_record = record_event maxKeys,
      rs_consumeScopesAtomically = None, rs_isRequestCharged = None\<rparr>"

section \<open>The contract of a store without the atomic capability\<close>

text \<open>
  What the decision relies on. \<open>events s k\<close> are the instants on record for a scope. \<open>good\<close> is the
  store's own invariant, \<open>room s ks\<close> says it can take the scopes \<open>ks\<close> without evicting another. A
  count never throws, never under-counts the window, and forgets only what is outside it.
\<close>

definition events_in :: "jsnum \<Rightarrow> jsnum \<Rightarrow> jsnum list \<Rightarrow> nat" where
  "events_in w now evs = length (filter (in_window w now) evs)"

text \<open>A later instant: its windows see nothing that the windows of the earlier one do not.\<close>

definition later :: "jsnum \<Rightarrow> jsnum \<Rightarrow> bool" where
  "later now now2 = (\<forall>w t. in_window w now2 t \<longrightarrow> in_window w now t)"

lemma later_refl [simp]: "later now now"
  by (simp add: later_def)

lemma later_filter:
  "later now now2 \<Longrightarrow> filter (in_window w now2) (filter (in_window w now) evs) = filter (in_window w now2) evs"
  unfolding later_def by (induction evs) auto

lemma later_Fin: "p \<le> q \<Longrightarrow> later (Fin p) (Fin q)"
  unfolding later_def in_window_def
proof (intro allI impI)
  fix w t assume "p \<le> q" "js_less (js_minus (Fin q) (js_max (Fin 0) w)) t"
  then show "js_less (js_minus (Fin p) (js_max (Fin 0) w)) t"
    by (cases w; cases t) (auto simp: js_max_def split: if_splits)
qed

text \<open>A run of requests in the order they are decided, and those that were admitted; the instants
  at which a scope was charged; how many of them a window holds.\<close>

type_synonym request = "rate_scope list \<times> rat"

fun admissions :: "'s rate_store \<Rightarrow> request list \<Rightarrow> 's \<Rightarrow> request list" where
  "admissions st [] s = []"
| "admissions st ((scopes, now) # reqs) s =
     (case consumeFollowUpBudget st scopes (Fin now) None s of
        (Inr True, s') \<Rightarrow> (scopes, now) # admissions st reqs s'
      | (_, s') \<Rightarrow> admissions st reqs s')"

definition charged_at :: "string \<Rightarrow> request list \<Rightarrow> rat list" where
  "charged_at k reqs = map snd (filter (\<lambda>r. k \<in> sc_key ` set (fst r)) reqs)"

definition charges_within :: "jsnum \<Rightarrow> rat \<Rightarrow> rat list \<Rightarrow> nat" where
  "charges_within w now ts = length (filter (\<lambda>t. t \<le> now \<and> in_window w (Fin now) (Fin t)) ts)"

definition follows_rule :: "string \<Rightarrow> jsnum \<Rightarrow> jsnum \<Rightarrow> request list \<Rightarrow> bool" where
  "follows_rule k l w reqs = list_all (\<lambda>(scopes, _). distinct (map sc_key scopes) \<and>
     list_all (\<lambda>sc. sc_key sc = k \<longrightarrow> sc_limit sc = l \<and> sc_windowMs sc = w) scopes) reqs"

definition keys_of :: "request list \<Rightarrow> string list" where
  "keys_of reqs = concat (map (\<lambda>r. map sc_key (fst r)) reqs)"

lemma charges_within_snoc:
  assumes now: "charges_within w now ts < n" and past: "list_all (\<lambda>t. t \<le> now) ts"
    and before: "charges_within w T ts \<le> n"
  shows "charges_within w T (ts @ [now]) \<le> n"
proof (cases "now \<le> T \<and> in_window w (Fin T) (Fin now)")
  case True
  have "t \<le> now \<and> in_window w (Fin now) (Fin t)"
    if "t \<in> set ts" "t \<le> T \<and> in_window w (Fin T) (Fin t)" for t
    using that past later_Fin [of now T] True unfolding later_def list_all_iff by blast
  then have "charges_within w T ts \<le> charges_within w now ts"
    unfolding charges_within_def by (induction ts) auto
  then show ?thesis using now True by (simp add: charges_within_def)
next
  case False
  then show ?thesis using before by (auto simp: charges_within_def)
qed

lemma charges_within_events:
  assumes "list_all (\<lambda>t. t \<le> now) ts"
  shows "charges_within w now ts = events_in w (Fin now) (map Fin ts)"
  using assms by (induction ts) (auto simp: charges_within_def events_in_def)

locale rate_limit_store =
  fixes store :: "'s rate_store" and events :: "'s \<Rightarrow> string \<Rightarrow> jsnum list"
    and good :: "'s \<Rightarrow> bool" and room :: "'s \<Rightarrow> string list \<Rightarrow> bool"
  assumes no_atomic: "rs_consumeScopesAtomically store = None"
    and room_sub: "room s ks \<Longrightarrow> set ks' \<subseteq> set ks \<Longrightarrow> room s ks'"
    and count_runs: "good s \<Longrightarrow> \<exists>n s'. rs_countInWindow store k w now s = (Inr n, s') \<and>
      n \<noteq> NaN \<and> js_le (js_nat (events_in w now (events s k))) n \<and> good s' \<and>
      events s' k = filter (in_window w now) (events s k) \<and>
      (\<forall>j. j \<noteq> k \<longrightarrow> events s' j = events s j) \<and> (\<forall>ks. room s ks \<longrightarrow> room s' ks)"
    and record_runs: "good s \<Longrightarrow> room s (k # ks) \<Longrightarrow> \<exists>s'. rs_record store k now s = (Inr (), s') \<and>
      good s' \<and> events s' k = events s k @ [now] \<and> (\<forall>j. j \<noteq> k \<longrightarrow> events s' j = events s j) \<and>
      room s' ks"
begin

lemma check_runs:
  assumes "good s" and "distinct (map sc_key scopes)"
  shows "\<exists>ok s'. check_scopes store now scopes s = (Inr ok, s') \<and> good s' \<and>
    (\<forall>ks. room s ks \<longrightarrow> room s' ks) \<and>
    (\<forall>j. j \<notin> sc_key ` set scopes \<longrightarrow> events s' j = events s j) \<and>
    (\<forall>sc \<in> set scopes. \<forall>now2. later now now2 \<longrightarrow>
       filter (in_window (sc_windowMs sc) now2) (events s' (sc_key sc)) =
       filter (in_window (sc_windowMs sc) now2) (events s (sc_key sc))) \<and>
    (ok \<longrightarrow> (\<forall>sc \<in> set scopes. \<not> js_le (js_floor (sc_limit sc))
       (js_nat (events_in (sc_windowMs sc) now (events s (sc_key sc))))))"
  using assms
proof (induction scopes arbitrary: s)
  case Nil
  then show ?case by (intro exI [of _ True] exI [of _ s]) simp
next
  case (Cons sc scs)
  let ?lim = "js_floor (sc_limit sc)" and ?w = "sc_windowMs sc" and ?k = "sc_key sc"
  show ?case
  proof (cases "js_le ?lim (Fin 0) \<or> js_le (js_floor ?w) (Fin 0)")
    case True
    then show ?thesis using Cons.prems(1) by auto
  next
    case pos: False
    obtain n s1 where c: "rs_countInWindow store ?k ?w now s = (Inr n, s1)" "n \<noteq> NaN"
      "js_le (js_nat (events_in ?w now (events s ?k))) n" "good s1"
      "events s1 ?k = filter (in_window ?w now) (events s ?k)"
      "\<And>j. j \<noteq> ?k \<Longrightarrow> events s1 j = events s j" "\<And>ks. room s ks \<Longrightarrow> room s1 ks"
      using count_runs [OF Cons.prems(1), of ?k ?w now] by blast
    have same: "filter (in_window ?w now2) (events s1 ?k) = filter (in_window ?w now2) (events s ?k)"
      if "later now now2" for now2
      unfolding c(5) by (rule later_filter [OF that])
    show ?thesis
    proof (cases "js_le ?lim n")
      case True
      have "check_scopes store now (sc # scs) s = (Inr False, s1)"
        using pos c(1) True by (simp add: Let_def bnd_def)
      moreover have "filter (in_window (sc_windowMs d) now2) (events s1 (sc_key d)) =
          filter (in_window (sc_windowMs d) now2) (events s (sc_key d))"
        if "d \<in> set (sc # scs)" "later now now2" for d now2
      proof (cases "d = sc")
        case False
        then have "d \<in> set scs" using that(1) by simp
        then have "sc_key d \<noteq> ?k"
          using Cons.prems(2) by (metis distinct.simps(2) image_eqI list.set_map list.simps(9))
        then show ?thesis by (simp add: c(6))
      qed (simp add: same that(2))
      moreover have "\<forall>j. j \<notin> sc_key ` set (sc # scs) \<longrightarrow> events s1 j = events s j"
        using c(6) by simp
      ultimately show ?thesis using c(4,7) by (intro exI [of _ False] exI [of _ s1]) blast
    next
      case False
      obtain ok s2 where r: "check_scopes store now scs s1 = (Inr ok, s2)" "good s2"
        "\<And>ks. room s1 ks \<Longrightarrow> room s2 ks"
        "\<And>j. j \<notin> sc_key ` set scs \<Longrightarrow> events s2 j = events s1 j"
        "\<And>c now2. c \<in> set scs \<Longrightarrow> later now now2 \<Longrightarrow>
           filter (in_window (sc_windowMs c) now2) (events s2 (sc_key c)) =
           filter (in_window (sc_windowMs c) now2) (events s1 (sc_key c))"
        "ok \<Longrightarrow> \<forall>c \<in> set scs. \<not> js_le (js_floor (sc_limit c))
           (js_nat (events_in (sc_windowMs c) now (events s1 (sc_key c))))"
        using Cons.IH [OF c(4)] Cons.prems(2) by auto
      have run: "check_scopes store now (sc # scs) s = (Inr ok, s2)"
        using pos c(1) False r(1) by (simp add: Let_def bnd_def)
      have k: "?k \<notin> sc_key ` set scs" using Cons.prems(2) by simp
      then have other: "events s1 (sc_key c) = events s (sc_key c)" if "c \<in> set scs" for c
        using that c(6) by (metis image_eqI)
      have "\<not> js_le ?lim (js_nat (events_in ?w now (events s ?k)))"
        using False c(2,3) by (cases ?lim; cases n) (auto simp: js_nat_def js_le_def)
      then have lims: "\<forall>c \<in> set (sc # scs). \<not> js_le (js_floor (sc_limit c))
          (js_nat (events_in (sc_windowMs c) now (events s (sc_key c))))" if ok
        using r(6) [OF that] other by simp
      have cnt: "\<forall>c \<in> set (sc # scs). \<forall>now2. later now now2 \<longrightarrow>
          filter (in_window (sc_windowMs c) now2) (events s2 (sc_key c)) =
          filter (in_window (sc_windowMs c) now2) (events s (sc_key c))"
        using r(5) r(4) [OF k] same other by simp
      have outside: "\<forall>j. j \<notin> sc_key ` set (sc # scs) \<longrightarrow> events s2 j = events s j"
        using r(4) c(6) by simp
      have rooms: "\<forall>ks. room s ks \<longrightarrow> room s2 ks" using c(7) r(3) by blast
      show ?thesis
        by (intro exI [of _ ok] exI [of _ s2] conjI impI)
          (rule run r(2) rooms outside cnt lims | assumption)+
    qed
  qed
qed

lemma records_run:
  assumes "good s" and "room s (map sc_key scopes @ ks)" and "distinct (map sc_key scopes)"
  shows "\<exists>s'. for_each scopes (\<lambda>sc. rs_record store (sc_key sc) now) s = (Inr (), s') \<and> good s' \<and>
    room s' ks \<and>
    (\<forall>j. events s' j = (if j \<in> sc_key ` set scopes then events s j @ [now] else events s j))"
  using assms
proof (induction scopes arbitrary: s)
  case (Cons c scopes)
  obtain s1 where r: "rs_record store (sc_key c) now s = (Inr (), s1)" "good s1"
    "events s1 (sc_key c) = events s (sc_key c) @ [now]"
    "\<And>j. j \<noteq> sc_key c \<Longrightarrow> events s1 j = events s j" "room s1 (map sc_key scopes @ ks)"
    using record_runs [of s "sc_key c" "map sc_key scopes @ ks" now] Cons.prems(1,2) by auto
  obtain s2 where r2: "for_each scopes (\<lambda>sc. rs_record store (sc_key sc) now) s1 = (Inr (), s2)"
    "good s2" "room s2 ks"
    "\<And>j. events s2 j = (if j \<in> sc_key ` set scopes then events s1 j @ [now] else events s1 j)"
    using Cons.IH [OF r(2,5)] Cons.prems(3) by auto
  have "sc_key c \<notin> sc_key ` set scopes" using Cons.prems(3) by simp
  then have "events s2 j = (if j \<in> sc_key ` set (c # scopes) then events s j @ [now] else events s j)"
    for j
    using r2(4) [of j] r(3) r(4) [of j] by (cases "j = sc_key c") auto
  with r(1) r2(1-3) show ?case by (intro exI [of _ s2]) (simp add: seqn_def bnd_def)
qed simp

text \<open>The decision over such a store: it never throws; allowed, every scope was under its limit and
  gains exactly this event; denied, nothing is recorded.\<close>

lemma consume_runs:
  assumes "good s" and "room s (map sc_key scopes @ ks)" and "distinct (map sc_key scopes)"
  shows "\<exists>ok s'. consumeFollowUpBudget store scopes now rid s = (Inr ok, s') \<and> good s' \<and> room s' ks \<and>
    (\<forall>sc \<in> set scopes. \<forall>now2. later now now2 \<longrightarrow>
       filter (in_window (sc_windowMs sc) now2) (events s' (sc_key sc)) =
       filter (in_window (sc_windowMs sc) now2) (events s (sc_key sc) @ (if ok then [now] else []))) \<and>
    (\<forall>j. j \<notin> sc_key ` set scopes \<longrightarrow> events s' j = events s j) \<and>
    (ok \<longrightarrow> (\<forall>sc \<in> set scopes. \<not> js_le (js_floor (sc_limit sc))
       (js_nat (events_in (sc_windowMs sc) now (events s (sc_key sc))))))"
proof -
  obtain ok s1 where c: "check_scopes store now scopes s = (Inr ok, s1)" "good s1"
    "\<And>ks. room s ks \<Longrightarrow> room s1 ks" "\<And>j. j \<notin> sc_key ` set scopes \<Longrightarrow> events s1 j = events s j"
    "\<And>sc now2. sc \<in> set scopes \<Longrightarrow> later now now2 \<Longrightarrow>
       filter (in_window (sc_windowMs sc) now2) (events s1 (sc_key sc)) =
       filter (in_window (sc_windowMs sc) now2) (events s (sc_key sc))"
    "ok \<Longrightarrow> \<forall>sc \<in> set scopes. \<not> js_le (js_floor (sc_limit sc))
       (js_nat (events_in (sc_windowMs sc) now (events s (sc_key sc))))"
    using check_runs [OF assms(1,3), of now] by blast
  have eq: "consumeFollowUpBudget store scopes now rid s =
      (if ok then seqn (for_each scopes (\<lambda>sc. rs_record store (sc_key sc) now)) (ret True) s1
       else (Inr False, s1))"
    by (simp add: consumeFollowUpBudget_def no_atomic bnd_def c(1))
  show ?thesis
  proof (cases ok)
    case False
    have "room s1 ks" by (rule c(3), rule room_sub [OF assms(2)]) simp
    then show ?thesis using False eq c(2,4,5) by (intro exI [of _ False] exI [of _ s1]) simp
  next
    case True
    obtain s2 where r: "for_each scopes (\<lambda>sc. rs_record store (sc_key sc) now) s1 = (Inr (), s2)"
      "good s2" "room s2 ks"
      "\<And>j. events s2 j = (if j \<in> sc_key ` set scopes then events s1 j @ [now] else events s1 j)"
      using records_run [OF c(2) c(3) [OF assms(2)] assms(3), of now] by blast
    have run: "consumeFollowUpBudget store scopes now rid s = (Inr True, s2)"
      using eq True r(1) by (simp add: seqn_def bnd_def)
    have cnt: "filter (in_window (sc_windowMs sc) now2) (events s2 (sc_key sc)) =
        filter (in_window (sc_windowMs sc) now2) (events s (sc_key sc) @ [now])"
      if "sc \<in> set scopes" "later now now2" for sc now2
      using that c(5) by (simp add: r(4))
    show ?thesis
      using run r(2,3) c(4) cnt c(6) [OF True]
      by (intro exI [of _ True] exI [of _ s2]) (simp add: r(4))
  qed
qed

text \<open>No window of a scope ever holds more charges than the scope's limit.\<close>

lemma window_bound:
  assumes "good s" and "room s (keys_of reqs)" and "follows_rule k (Fin l) w reqs"
    and "sorted (t0 # map snd reqs)"
    and "\<And>q. t0 \<le> q \<Longrightarrow>
      filter (in_window w (Fin q)) (events s k) = filter (in_window w (Fin q)) (map Fin ts)"
    and "list_all (\<lambda>t. t \<le> t0) ts" and "\<And>T. charges_within w T ts \<le> nat \<lfloor>l\<rfloor>"
  shows "charges_within w T (ts @ charged_at k (admissions store reqs s)) \<le> nat \<lfloor>l\<rfloor>"
  using assms
proof (induction reqs arbitrary: s t0 ts)
  case Nil
  then show ?case by (simp add: charged_at_def)
next
  case (Cons r reqs)
  obtain scopes now where r: "r = (scopes, now)" by (cases r)
  have d: "distinct (map sc_key scopes)" and f: "follows_rule k (Fin l) w reqs"
    and rule: "\<And>sc. sc \<in> set scopes \<Longrightarrow> sc_key sc = k \<Longrightarrow> sc_limit sc = Fin l \<and> sc_windowMs sc = w"
    using Cons.prems(3) by (auto simp: follows_rule_def r list_all_iff)
  have now: "t0 \<le> now" and sorted: "sorted (now # map snd reqs)"
    using Cons.prems(4) by (auto simp: r)
  obtain ok s' where c: "consumeFollowUpBudget store scopes (Fin now) None s = (Inr ok, s')" "good s'"
    "room s' (keys_of reqs)"
    "\<And>sc now2. sc \<in> set scopes \<Longrightarrow> later (Fin now) now2 \<Longrightarrow>
       filter (in_window (sc_windowMs sc) now2) (events s' (sc_key sc)) =
       filter (in_window (sc_windowMs sc) now2) (events s (sc_key sc) @ (if ok then [Fin now] else []))"
    "\<And>j. j \<notin> sc_key ` set scopes \<Longrightarrow> events s' j = events s j"
    "\<And>sc. ok \<Longrightarrow> sc \<in> set scopes \<Longrightarrow> \<not> js_le (js_floor (sc_limit sc))
       (js_nat (events_in (sc_windowMs sc) (Fin now) (events s (sc_key sc))))"
    using consume_runs [of s scopes "keys_of reqs" "Fin now" None] Cons.prems(1,2) d
    by (auto simp: r keys_of_def)
  have past: "list_all (\<lambda>t. t \<le> now) ts" using Cons.prems(6) now by (auto simp: list_all_iff)
  show ?case
  proof (cases "ok \<and> k \<in> sc_key ` set scopes")
    case True
    then obtain sc where sc: "sc \<in> set scopes" "sc_key sc = k" by auto
    note rule = rule [OF sc]
    have "charges_within w now ts = events_in w (Fin now) (events s k)"
      using Cons.prems(5) [OF now] past by (simp add: charges_within_events events_in_def)
    then have room: "charges_within w now ts < nat \<lfloor>l\<rfloor>"
      using c(6) [OF _ sc(1)] True rule sc(2) by (simp add: js_nat_def)
    have ev: "filter (in_window w (Fin q)) (events s' k) = filter (in_window w (Fin q)) (map Fin (ts @ [now]))"
      if "now \<le> q" for q
      using c(4) [OF sc(1) later_Fin [OF that]] True rule sc(2) Cons.prems(5) [of q] that now by simp
    have past': "list_all (\<lambda>t. t \<le> now) (ts @ [now])" using past by simp
    have adm: "charged_at k (admissions store (r # reqs) s) = now # charged_at k (admissions store reqs s')"
      using True by (simp add: r c(1) charged_at_def)
    have b: "charges_within w T (ts @ [now]) \<le> nat \<lfloor>l\<rfloor>" for T
      by (rule charges_within_snoc [OF room past Cons.prems(7)])
    show ?thesis using Cons.IH [OF c(2,3) f sorted ev past' b] by (simp add: adm)
  next
    case False
    have ev: "filter (in_window w (Fin q)) (events s' k) = filter (in_window w (Fin q)) (map Fin ts)"
      if "now \<le> q" for q
    proof (cases "k \<in> sc_key ` set scopes")
      case True
      then obtain sc where sc: "sc \<in> set scopes" "sc_key sc = k" by auto
      then show ?thesis
        using c(4) [OF sc(1) later_Fin [OF that]] True False rule [OF sc] Cons.prems(5) [of q] that now
        by simp
    next
      case no: False
      then show ?thesis using c(5) Cons.prems(5) [of q] that now by simp
    qed
    have "charged_at k (admissions store (r # reqs) s) = charged_at k (admissions store reqs s')"
      using False by (cases ok) (auto simp: r c(1) charged_at_def)
    then show ?thesis using Cons.IH [OF c(2,3) f sorted ev past Cons.prems(7)] by simp
  qed
qed

end

section \<open>The in-memory store keeps the contract\<close>

definition mem_list :: "mem_events \<Rightarrow> string \<Rightarrow> jsnum list" where
  "mem_list s k = (case map_of s k of None \<Rightarrow> [] | Some evs \<Rightarrow> evs)"

definition mem_good :: "mem_events \<Rightarrow> bool" where
  "mem_good s = distinct (map fst s)"

definition mem_room :: "nat \<Rightarrow> mem_events \<Rightarrow> string list \<Rightarrow> bool" where
  "mem_room maxKeys s ks = (card (fst ` set s \<union> set ks) \<le> maxKeys)"

lemma mem_list_simps [simp]:
  "mem_list (AList.update k evs s) j = (if j = k then evs else mem_list s j)"
  "mem_list (AList.delete k s) j = (if j = k then [] else mem_list s j)"
  by (simp_all add: mem_list_def update_conv' delete_conv')

lemma mem_good_simps [simp]:
  "mem_good s \<Longrightarrow> mem_good (AList.update k evs s)" "mem_good s \<Longrightarrow> mem_good (AList.delete k s)"
  by (simp_all add: mem_good_def distinct_update distinct_delete)

lemma mem_room_mono:
  assumes "mem_room n s ks" and "fst ` set s' \<union> set ks' \<subseteq> fst ` set s \<union> set ks"
  shows "mem_room n s' ks'"
  using assms card_mono [OF _ assms(2)] unfolding mem_room_def by fastforce

lemma delete_keys_subset: "fst ` set (AList.delete k s) \<subseteq> fst ` set s"
  by (metis AList.delete_keys Diff_subset list.set_map set_removeAll)

lemma keys_update_set: "k \<in> fst ` set s \<Longrightarrow> fst ` set (AList.update k v s) = fst ` set s"
  by (simp add: AList.dom_update insert_absorb)

lemma mem_count:
  assumes "mem_good s"
  shows "\<exists>n s'. countInWindow k w now s = (Inr n, s') \<and> n = js_nat (events_in w now (mem_list s k)) \<and>
      mem_good s' \<and> mem_list s' k = filter (in_window w now) (mem_list s k) \<and>
      (\<forall>j. j \<noteq> k \<longrightarrow> mem_list s' j = mem_list s j) \<and> fst ` set s' \<subseteq> fst ` set s"
proof (cases "map_of s k")
  case None
  then show ?thesis using assms by (simp add: countInWindow_def mem_list_def events_in_def js_nat_def)
next
  case (Some evs)
  let ?r = "filter (in_window w now) evs"
  have m: "mem_list s k = evs" by (simp add: mem_list_def Some)
  have key: "k \<in> fst ` set s" using Some by (metis domI dom_map_of_conv_image_fst)
  have full: "?r = evs" if "length ?r = length evs"
    using that by (metis length_filter_less less_irrefl filter_True)
  consider "?r = []" | "?r \<noteq> []" "length ?r \<noteq> length evs" | "?r \<noteq> []" "length ?r = length evs"
    by blast
  then show ?thesis
  proof cases
    case 1
    then show ?thesis using assms m delete_keys_subset [of k s]
      by (simp add: countInWindow_def Some events_in_def js_nat_def)
  next
    case 2
    then show ?thesis using assms m key
      by (simp add: countInWindow_def Some events_in_def js_nat_def Let_def keys_update_set)
  next
    case 3
    then show ?thesis using assms m full [OF 3(2)]
      by (simp add: countInWindow_def Some events_in_def js_nat_def)
  qed
qed

lemma mem_record:
  assumes g: "mem_good s" and room: "mem_room maxKeys s (k # ks)"
  shows "\<exists>s'. record_event maxKeys k now s = (Inr (), s') \<and> mem_good s' \<and>
    mem_list s' k = mem_list s k @ [now] \<and> (\<forall>j. j \<noteq> k \<longrightarrow> mem_list s' j = mem_list s j) \<and>
    mem_room maxKeys s' ks"
proof -
  have sub: "mem_room maxKeys (AList.update k evs s) ks" for evs
    by (rule mem_room_mono [OF room]) (auto simp: AList.dom_update)
  show ?thesis
  proof (cases "map_of s k")
    case (Some evs)
    then have "mem_list s k = evs" by (simp add: mem_list_def)
    with g sub show ?thesis by (simp add: record_event_def Some)
  next
    case None
    then have "k \<notin> fst ` set s" by (simp add: map_of_eq_None_iff)
    then have "card (fst ` set s) < card (fst ` set s \<union> set (k # ks))"
      by (intro psubset_card_mono) auto
    also have "\<dots> \<le> maxKeys" using room by (simp add: mem_room_def)
    finally have "length s < maxKeys"
      using g by (metis distinct_card length_map list.set_map mem_good_def)
    with None g sub show ?thesis by (simp add: record_event_def mem_list_def)
  qed
qed

interpretation mem: rate_limit_store "memory_store maxKeys" mem_list mem_good "mem_room maxKeys"
  for maxKeys
proof
  show "rs_consumeScopesAtomically (memory_store maxKeys) = None" by (simp add: memory_store_def)
next
  fix s ks ks' assume "mem_room maxKeys s ks" "set ks' \<subseteq> set ks"
  then show "mem_room maxKeys s ks'" by (blast intro: mem_room_mono)
next
  fix s k w now assume "mem_good s"
  from mem_count [OF this, of k w now] obtain s' where
    "countInWindow k w now s = (Inr (js_nat (events_in w now (mem_list s k))), s')" "mem_good s'"
    "mem_list s' k = filter (in_window w now) (mem_list s k)"
    "\<forall>j. j \<noteq> k \<longrightarrow> mem_list s' j = mem_list s j" "fst ` set s' \<subseteq> fst ` set s"
    by blast
  then show "\<exists>n s'. rs_countInWindow (memory_store maxKeys) k w now s = (Inr n, s') \<and> n \<noteq> NaN \<and>
      js_le (js_nat (events_in w now (mem_list s k))) n \<and> mem_good s' \<and>
      mem_list s' k = filter (in_window w now) (mem_list s k) \<and>
      (\<forall>j. j \<noteq> k \<longrightarrow> mem_list s' j = mem_list s j) \<and>
      (\<forall>ks. mem_room maxKeys s ks \<longrightarrow> mem_room maxKeys s' ks)"
    by (intro exI [of _ "js_nat (events_in w now (mem_list s k))"] exI [of _ s'])
      (auto simp: memory_store_def js_nat_def elim!: mem_room_mono)
next
  fix s k ks now assume "mem_good s" "mem_room maxKeys s (k # ks)"
  from mem_record [OF this] show "\<exists>s'. rs_record (memory_store maxKeys) k now s = (Inr (), s') \<and>
      mem_good s' \<and> mem_list s' k = mem_list s k @ [now] \<and>
      (\<forall>j. j \<noteq> k \<longrightarrow> mem_list s' j = mem_list s j) \<and> mem_room maxKeys s' ks"
    by (simp add: memory_store_def)
qed

section \<open>Properties\<close>

text \<open>The sliding window is enforced over a whole run. Over an in-memory store whose key cap is not
  reached, whatever requests are decided in the order of their clock readings, no window
  \<open>(T - windowMs, T]\<close> holds more admitted requests of a scope than the scope's (floored) limit.
\<close>

theorem sliding_window_enforced:
  assumes "follows_rule k (Fin limit) windowMs reqs" and "sorted (map snd reqs)"
    and "card (set (keys_of reqs)) \<le> maxKeys"
  shows "charges_within windowMs T (charged_at k (admissions (memory_store maxKeys) reqs [])) \<le> nat \<lfloor>limit\<rfloor>"
proof -
  have start: "mem_good []" "mem_room maxKeys [] (keys_of reqs)"
    using assms(3) by (simp_all add: mem_good_def mem_room_def)
  have "sorted (foldr min (map snd reqs) 0 # map snd reqs)"
    using assms(2) by (induction reqs) (auto simp: min.coboundedI1)
  then show ?thesis
    using mem.window_bound [OF start assms(1), of "foldr min (map snd reqs) 0" "[]" T] by (simp add: mem_list_def charges_within_def)
qed

theorem sliding_window_enforced_witness:
  "charges_within (Fin 10) 7
     (charged_at ''pr'' (admissions (memory_store 2)
       [([\<lparr>sc_key = ''pr'', sc_limit = Fin 1, sc_windowMs = Fin 10\<rparr>], 0),
        ([\<lparr>sc_key = ''pr'', sc_limit = Fin 1, sc_windowMs = Fin 10\<rparr>], 5)] [])) \<le> 1"
  using sliding_window_enforced [of "''pr''" 1 "Fin 10"
      "[([\<lparr>sc_key = ''pr'', sc_limit = Fin 1, sc_windowMs = Fin 10\<rparr>], 0),
        ([\<lparr>sc_key = ''pr'', sc_limit = Fin 1, sc_windowMs = Fin 10\<rparr>], 5)]" 2 7]
  by (simp add: follows_rule_def keys_of_def)

text \<open>A rule whose limit is not a number admits every request, at any rate: neither check of the
  decision sees it, for NaN compares false.
\<close>

theorem nan_limit_admits:
  "fst (consumeFollowUpBudget (memory_store maxKeys)
     [\<lparr>sc_key = k, sc_limit = NaN, sc_windowMs = Fin 60000\<rparr>] now rid s) = Inr True"
  by (auto simp: consumeFollowUpBudget_def memory_store_def bnd_def seqn_def js_le_def
      countInWindow_def record_event_def Let_def split: option.splits)

end
