(* ===== verification/Durable_Rate_Limit.thy ===== *)
theory Durable_Rate_Limit
  imports Rate_Limit
begin

text \<open>
  The durable follow-up budget, \<^verbatim>\<open>src/followup/durable-rate-limit.ts\<close>: the ledger, its parser and
  serialiser, the horizons and the cap, the exclusive lock file, the atomic commit, and every method
  of \<open>DurableRateLimitStore\<close>.

  The methods act on a disk that other processes change: \<open>world\<close> says, for each file operation, what
  others did to the disk since the previous one and with which error code the operation fails.
  SHA-256 is the parameter \<open>sha\<close> of the configuration.
\<close>

section \<open>The ledger\<close>

record ledger_event =
  ev_at :: int
  ev_id :: "string option"

type_synonym charge_ledger = "(string \<times> ledger_event list) list"

abbreviation ledger_error :: "string \<Rightarrow> rate_error + 'a" where
  "ledger_error msg \<equiv> Inl (Store_error (''rate-limit ledger: '' @ msg))"

definition KEY_PATTERN :: "string \<Rightarrow> bool" where
  "KEY_PATTERN = all_of (\<lambda>c. is_alnum c \<or> c \<in> set '':._/#-'') 1 256"

definition ID_PATTERN :: "string \<Rightarrow> bool" where
  "ID_PATTERN = all_of is_hex 64 64"

text \<open>\<open>typeof v === "number" && Number.isSafeInteger(v) && v >= 0\<close>\<close>

definition js_instant :: "jsval \<Rightarrow> int option" where
  "js_instant v =
     (case v of
        JNum n \<Rightarrow> (case safe_int n of Some i \<Rightarrow> if 0 \<le> i then Some i else None | None \<Rightarrow> None)
      | _ \<Rightarrow> None)"

definition compareCharges :: "ledger_event \<Rightarrow> ledger_event \<Rightarrow> int" where
  "compareCharges a b =
     (if ev_at a \<noteq> ev_at b then ev_at a - ev_at b
      else let left = (case ev_id a of Some i \<Rightarrow> i | None \<Rightarrow> '''');
               right = (case ev_id b of Some i \<Rightarrow> i | None \<Rightarrow> '''') in
           if left < right then -1 else if left > right then 1 else 0)"

definition parseEvent :: "bool \<Rightarrow> jsval \<Rightarrow> rate_error + ledger_event" where
  "parseEvent legacy raw =
     (if legacy then
        (case js_instant raw of
           Some t \<Rightarrow> Inr \<lparr>ev_at = t, ev_id = None\<rparr>
         | None \<Rightarrow> ledger_error ''malformed event instant'')
      else
        (case raw of
           JObj ps \<Rightarrow>
             if list_ex (\<lambda>k. k \<noteq> ''at'' \<and> k \<noteq> ''id'') (map fst ps)
             then ledger_error ''malformed event''
             else (case js_instant (get_prop ps ''at'') of
                     None \<Rightarrow> ledger_error ''malformed event instant''
                   | Some t \<Rightarrow>
                       (case get_prop ps ''id'' of
                          JUndef \<Rightarrow> Inr \<lparr>ev_at = t, ev_id = None\<rparr>
                        | JStr i \<Rightarrow>
                            if ID_PATTERN i then Inr \<lparr>ev_at = t, ev_id = Some i\<rparr>
                            else ledger_error ''malformed event identity''
                        | _ \<Rightarrow> ledger_error ''malformed event identity''))
         | _ \<Rightarrow> ledger_error ''malformed event''))"

text \<open>The charges of one scope: in canonical order, strictly increasing. \<open>prev\<close> is the last one read.\<close>

fun parse_events :: "bool \<Rightarrow> ledger_event option \<Rightarrow> jsval list \<Rightarrow> rate_error + ledger_event list" where
  "parse_events legacy prev [] = Inr []"
| "parse_events legacy prev (v # vs) =
     (case parseEvent legacy v of
        Inl e \<Rightarrow> Inl e
      | Inr ev \<Rightarrow>
          if (case prev of Some p \<Rightarrow> compareCharges p ev \<ge> 0 | None \<Rightarrow> False)
          then ledger_error ''events must be ascending and unique''
          else (case parse_events legacy (Some ev) vs of
                  Inl e \<Rightarrow> Inl e
                | Inr evs \<Rightarrow> Inr (ev # evs)))"

fun parse_scopes :: "bool \<Rightarrow> jsval list \<Rightarrow> charge_ledger \<Rightarrow> rate_error + charge_ledger" where
  "parse_scopes legacy [] l = Inr l"
| "parse_scopes legacy (v # vs) l =
     (case v of
        JObj ps \<Rightarrow>
          if length ps \<noteq> 2 \<or> \<not> list_all (\<lambda>k. k \<in> set (map fst ps)) [''key'', ''events'']
          then ledger_error ''malformed scope entry''
          else (case get_prop ps ''key'' of
                  JStr key \<Rightarrow>
                    if \<not> KEY_PATTERN key then ledger_error ''malformed scope key''
                    else if map_of l key \<noteq> None then ledger_error ''duplicate scope key''
                    else (case get_prop ps ''events'' of
                            JArr evs \<Rightarrow>
                              if evs = [] then ledger_error ''events must be a non-empty array''
                              else (case parse_events legacy None evs of
                                      Inl e \<Rightarrow> Inl e
                                    | Inr charges \<Rightarrow> parse_scopes legacy vs (AList.update key charges l))
                          | _ \<Rightarrow> ledger_error ''events must be a non-empty array'')
                | _ \<Rightarrow> ledger_error ''malformed scope key'')
      | _ \<Rightarrow> ledger_error ''malformed scope entry'')"

definition parseLedger :: "jsval \<Rightarrow> nat \<Rightarrow> rate_error + charge_ledger" where
  "parseLedger v maxKeys =
     (case v of
        JObj ps \<Rightarrow>
          if \<not> list_all (\<lambda>k. k = ''version'' \<or> k = ''scopes'') (map fst ps)
          then ledger_error ''unknown top-level key present''
          else let version = get_prop ps ''version'' in
            if version \<noteq> JNum (Fin 2) \<and> version \<noteq> JNum (Fin 1)
            then ledger_error ''unsupported version''
            else (case get_prop ps ''scopes'' of
                    JArr scopes \<Rightarrow>
                      if length scopes > maxKeys
                      then ledger_error ''scope count exceeds the configured cap''
                      else parse_scopes (version = JNum (Fin 1)) scopes []
                  | _ \<Rightarrow> ledger_error ''scopes must be an array'')
      | _ \<Rightarrow> ledger_error ''top-level value must be a plain object'')"

text \<open>The document a commit writes.\<close>

definition event_js :: "ledger_event \<Rightarrow> jsval" where
  "event_js ev =
     (case ev_id ev of
        None \<Rightarrow> JObj [(''at'', JNum (Fin (of_int (ev_at ev))))]
      | Some i \<Rightarrow> JObj [(''at'', JNum (Fin (of_int (ev_at ev)))), (''id'', JStr i)])"

definition serializeLedger :: "charge_ledger \<Rightarrow> jsval" where
  "serializeLedger l =
     JObj [(''version'', JNum (Fin 2)),
       (''scopes'', JArr (map (\<lambda>(key, charges). JObj [(''key'', JStr key), (''events'', JArr (map event_js charges))])
          (sort_key fst (filter (\<lambda>(key, charges). charges \<noteq> []) l))))]"

definition kept_charge :: "int \<Rightarrow> int \<Rightarrow> int \<Rightarrow> ledger_event \<Rightarrow> bool" where
  "kept_charge nowMs retentionMs idempotencyRetentionMs charge =
     (case ev_id charge of
        None \<Rightarrow> ev_at charge > nowMs - retentionMs
      | Some _ \<Rightarrow> ev_at charge > nowMs - idempotencyRetentionMs)"

definition pruneLedger :: "int \<Rightarrow> int \<Rightarrow> int \<Rightarrow> charge_ledger \<Rightarrow> charge_ledger" where
  "pruneLedger nowMs retentionMs idempotencyRetentionMs l =
     filter (\<lambda>(key, kept). kept \<noteq> [])
       (map (\<lambda>(key, charges). (key, filter (kept_charge nowMs retentionMs idempotencyRetentionMs) charges)) l)"

text \<open>The while loop of \<open>insertCharge\<close>, and the insertion: \<open>None\<close> when the exact charge is there.\<close>

fun insert_index :: "ledger_event list \<Rightarrow> ledger_event \<Rightarrow> nat" where
  "insert_index [] charge = 0"
| "insert_index (c # cs) charge = (if compareCharges c charge \<le> 0 then Suc (insert_index cs charge) else 0)"

definition insertCharge :: "ledger_event list \<Rightarrow> ledger_event \<Rightarrow> ledger_event list option" where
  "insertCharge charges charge =
     (let index = insert_index charges charge in
      if index > 0 \<and> compareCharges (charges ! (index - 1)) charge = 0 then None
      else Some (take index charges @ [charge] @ drop index charges))"

fun evict_loop :: "nat \<Rightarrow> string list \<Rightarrow> charge_ledger \<Rightarrow> charge_ledger" where
  "evict_loop maxKeys [] l = l"
| "evict_loop maxKeys (key # keys) l =
     (if length l \<le> maxKeys then l else evict_loop maxKeys keys (AList.delete key l))"

definition eviction_rank :: "string \<times> ledger_event list \<Rightarrow> bool \<times> int \<times> string" where
  "eviction_rank = (\<lambda>(key, charges). (list_ex (\<lambda>c. ev_id c \<noteq> None) charges, ev_at (last charges), key))"

definition evictToCap :: "charge_ledger \<Rightarrow> nat \<Rightarrow> string list \<Rightarrow> rate_error + charge_ledger" where
  "evictToCap l maxKeys protected =
     (if length l \<le> maxKeys then Inr l
      else let candidates = filter (\<lambda>(key, charges). key \<notin> set protected) l in
        if list_ex (\<lambda>(key, charges). charges = []) candidates then Inl Type_error
        else Inr (evict_loop maxKeys (map fst (sort_key eviction_rank candidates)) l))"

section \<open>The configuration\<close>

record dl_options =
  opt_filePath :: string
  opt_retentionMs :: "jsnum option"
  opt_idempotencyRetentionMs :: "jsnum option"
  opt_maxKeys :: "jsnum option"
  opt_lockStaleMs :: "jsnum option"
  opt_lockAttempts :: "jsnum option"
  opt_lockRetryDelayMs :: "jsnum option"

record dl_config =
  filePath :: string
  lockPath :: string
  retentionMs :: int
  idempotencyRetentionMs :: int
  maxKeys :: nat
  lockStaleMs :: int
  lockAttempts :: nat
  lockRetryDelayMs :: int
  sha :: "string \<Rightarrow> string"

definition positive_option :: "string \<Rightarrow> jsnum option \<Rightarrow> jsnum \<Rightarrow> rate_error + int" where
  "positive_option name value dflt =
     (case (case value of None \<Rightarrow> dflt | Some v \<Rightarrow> v) of
        Fin q \<Rightarrow>
          if is_integral q \<and> q > 0 then Inr (floor q)
          else Inl (Argument_error (name @ '' must be a positive integer''))
      | _ \<Rightarrow> Inl (Argument_error (name @ '' must be a positive integer'')))"

definition new_store :: "(string \<Rightarrow> string) \<Rightarrow> dl_options \<Rightarrow> rate_error + dl_config" where
  "new_store h opts =
     (if opt_filePath opts = '''' then Inl (Argument_error ''filePath must be a non-empty string'')
      else case positive_option ''retentionMs'' (opt_retentionMs opts) (Fin 86400000) of
        Inl e \<Rightarrow> Inl e
      | Inr retention \<Rightarrow>
      (case positive_option ''idempotencyRetentionMs'' (opt_idempotencyRetentionMs opts)
              (Fin (of_int (max retention 604800000))) of
        Inl e \<Rightarrow> Inl e
      | Inr idem \<Rightarrow>
      if idem < retention
      then Inl (Argument_error ''idempotencyRetentionMs must not be shorter than retentionMs'')
      else (case positive_option ''maxKeys'' (opt_maxKeys opts) (Fin 10000) of
        Inl e \<Rightarrow> Inl e
      | Inr keys \<Rightarrow>
      (case positive_option ''lockStaleMs'' (opt_lockStaleMs opts) (Fin 30000) of
        Inl e \<Rightarrow> Inl e
      | Inr stale \<Rightarrow>
      (case positive_option ''lockAttempts'' (opt_lockAttempts opts) (Fin 40) of
        Inl e \<Rightarrow> Inl e
      | Inr attempts \<Rightarrow>
      (case positive_option ''lockRetryDelayMs'' (opt_lockRetryDelayMs opts) (Fin 25) of
        Inl e \<Rightarrow> Inl e
      | Inr delay \<Rightarrow>
        Inr \<lparr>filePath = opt_filePath opts, lockPath = opt_filePath opts @ ''.lock'',
          retentionMs = retention, idempotencyRetentionMs = idem, maxKeys = nat keys,
          lockStaleMs = stale, lockAttempts = nat attempts, lockRetryDelayMs = delay, sha = h\<rparr>))))))"

section \<open>The disk, the other processes and the store\<close>

record lock_file =
  lk_content :: string
  lk_inode :: nat
  lk_mtime :: rat

record disk =
  dk_file :: file_content
  dk_tmp :: file_content
  dk_lock :: "lock_file option"

text \<open>The file operations, those of the acquisition loop with the number of the attempt.\<close>

datatype io_point =
    Create_lock nat | Write_token nat | Close_new nat | Remove_new nat
  | Stat_held nat | Remove_stale nat
  | Read_ledger | Read_token | Create_temp | Write_temp | Fsync_temp | Close_temp
  | Stat_lock | Fstat_fd | Rename_temp | Fsync_dir | Remove_temp
  | Release_fstat | Release_stat | Release_token | Release_remove

record world =
  w_other :: "io_point \<Rightarrow> disk \<Rightarrow> disk"
  w_fault :: "io_point \<Rightarrow> string option"
  w_clock :: "nat \<Rightarrow> jsnum"
  w_token :: "nat \<Rightarrow> string"
  w_inode :: "nat \<Rightarrow> nat"
  w_mtime :: "nat \<Rightarrow> rat"

text \<open>The store's fields, the lock waits it slept (in ms), and the disk.\<close>

record dstore =
  degraded :: "string option"
  durability :: "string option"
  identityNote :: "string option"
  commitUnreliable :: bool
  slept :: "int list"
  disk :: disk

type_synonym 'a dl = "(dstore, 'a) rop"

definition upd :: "(dstore \<Rightarrow> dstore) \<Rightarrow> unit dl" where
  "upd f s = (Inr (), f s)"

text \<open>One file operation: the others act first; then it fails with its error code, or acts.\<close>

definition fs_call :: "world \<Rightarrow> io_point \<Rightarrow> (disk \<Rightarrow> (rate_error + 'a) \<times> disk) \<Rightarrow> 'a dl" where
  "fs_call w p act s =
     (let d = w_other w p (disk s) in
      case w_fault w p of
        Some code \<Rightarrow> (Inl (Io_error code), s\<lparr>disk := d\<rparr>)
      | None \<Rightarrow> (case act d of (r, d') \<Rightarrow> (r, s\<lparr>disk := d'\<rparr>)))"

definition change :: "(disk \<Rightarrow> disk) \<Rightarrow> disk \<Rightarrow> (rate_error + unit) \<times> disk" where
  "change f d = (Inr (), f d)"

text \<open>\<open>try { m } catch { }\<close>\<close>

definition best_effort :: "unit dl \<Rightarrow> unit dl" where
  "best_effort m s = (Inr (), snd (m s))"

text \<open>\<open>try { m } catch (err) { h(err) }\<close> and \<open>try { m } finally { f }\<close> for an \<open>f\<close> that may throw.\<close>

definition catch :: "'a dl \<Rightarrow> (rate_error \<Rightarrow> 'a dl) \<Rightarrow> 'a dl" where
  "catch m h s = (case m s of (Inl e, s') \<Rightarrow> h e s' | (Inr x, s') \<Rightarrow> (Inr x, s'))"

definition finally_do :: "'a dl \<Rightarrow> unit dl \<Rightarrow> 'a dl" where
  "finally_do m f s =
     (case m s of (r, s') \<Rightarrow> (case f s' of (Inl e, s'') \<Rightarrow> (Inl e, s'') | (Inr u, s'') \<Rightarrow> (r, s'')))"

text \<open>The message the store keeps of an error; of a file-system error, its code.\<close>

definition err_message :: "rate_error \<Rightarrow> string" where
  "err_message e =
     (case e of Io_error code \<Rightarrow> code | Store_error msg \<Rightarrow> msg | Argument_error msg \<Rightarrow> msg
      | Type_error \<Rightarrow> ''TypeError'')"

section \<open>The lock\<close>

definition remove_lock :: "disk \<Rightarrow> disk" where
  "remove_lock d = d\<lparr>dk_lock := None\<rparr>"

definition readLockToken :: "world \<Rightarrow> io_point \<Rightarrow> string option dl" where
  "readLockToken w p =
     catch (fs_call w p (\<lambda>d. (case dk_lock d of
               None \<Rightarrow> Inl (Io_error ''ENOENT'') | Some l \<Rightarrow> Inr (Some (js_trim (lk_content l))), d)))
       (\<lambda>e. ret None)"

text \<open>One attempt: the exclusive create and the token write. A failed token write closes and
  removes the lock again.\<close>

definition create_lock :: "world \<Rightarrow> nat \<Rightarrow> (string \<times> nat) dl" where
  "create_lock w n =
     seqn (fs_call w (Create_lock n) (\<lambda>d. case dk_lock d of
             Some l \<Rightarrow> (Inl (Io_error ''EEXIST''), d)
           | None \<Rightarrow> (Inr (), d\<lparr>dk_lock := Some \<lparr>lk_content = '''', lk_inode = w_inode w n,
               lk_mtime = w_mtime w n\<rparr>\<rparr>)))
      (seqn (catch (fs_call w (Write_token n) (\<lambda>d.
               (Inr (), d\<lparr>dk_lock := map_option (\<lambda>l. if lk_inode l = w_inode w n
                  then l\<lparr>lk_content := w_token w n @ [CHR 0x0A]\<rparr> else l) (dk_lock d)\<rparr>)))
         (\<lambda>e. seqn (best_effort (fs_call w (Close_new n) (change (\<lambda>d. d))))
           (seqn (best_effort (fs_call w (Remove_new n) (change remove_lock))) (throw e))))
      (ret (w_token w n, w_inode w n)))"

fun acquire :: "dl_config \<Rightarrow> world \<Rightarrow> nat \<Rightarrow> nat \<Rightarrow> (string \<times> nat) option dl" where
  "acquire c w n 0 = ret None"
| "acquire c w n (Suc left) = (\<lambda>s.
     case create_lock w n s of
       (Inr h, s1) \<Rightarrow> (Inr (Some h), s1)
     | (Inl e, s1) \<Rightarrow>
         if e \<noteq> Io_error ''EEXIST'' then (Inl e, s1)
         else (case fs_call w (Stat_held n) (\<lambda>d. (case dk_lock d of
                    None \<Rightarrow> Inl (Io_error ''ENOENT'') | Some l \<Rightarrow> Inr (lk_mtime l), d)) s1 of
             (Inl _, s2) \<Rightarrow> acquire c w (Suc n) left s2
           | (Inr mtime, s2) \<Rightarrow>
               (case w_clock w n of
                  Fin now \<Rightarrow>
                    if now - mtime > of_int (lockStaleMs c)
                    then seqn (best_effort (fs_call w (Remove_stale n) (change remove_lock)))
                           (acquire c w (Suc n) left) s2
                    else seqn (if left > 0 then upd (\<lambda>s. s\<lparr>slept := slept s @ [lockRetryDelayMs c]\<rparr>) else ret ())
                           (acquire c w (Suc n) left) s2
                | _ \<Rightarrow> seqn (if left > 0 then upd (\<lambda>s. s\<lparr>slept := slept s @ [lockRetryDelayMs c]\<rparr>) else ret ())
                           (acquire c w (Suc n) left) s2)))"

definition stolen :: rate_error where
  "stolen = Store_error ''rate-limit ledger: commit lock was stolen mid-commit; refusing to write''"

definition assertHolder :: "world \<Rightarrow> string \<times> nat \<Rightarrow> unit dl" where
  "assertHolder w h =
     bnd (readLockToken w Read_token) (\<lambda>t. if t \<noteq> Some (fst h) then throw stolen else ret ())"

text \<open>The release: it unlinks the lock only while inode and token are its own, and never throws.\<close>

definition release :: "world \<Rightarrow> string \<times> nat \<Rightarrow> unit dl" where
  "release w h =
     bnd (catch (seqn (fs_call w Release_fstat (change (\<lambda>d. d))) (ret True)) (\<lambda>e. ret False)) (\<lambda>own.
     if \<not> own then ret ()
     else bnd (catch (fs_call w Release_stat (\<lambda>d. (case dk_lock d of
                  None \<Rightarrow> Inl (Io_error ''ENOENT'') | Some l \<Rightarrow> Inr (lk_inode l = snd h), d)))
            (\<lambda>e. ret False)) (\<lambda>same.
       if \<not> same then ret ()
       else bnd (readLockToken w Release_token) (\<lambda>t.
         if t = Some (fst h) then best_effort (fs_call w Release_remove (change remove_lock))
         else ret ())))"

definition withLock :: "dl_config \<Rightarrow> world \<Rightarrow> (string \<times> nat \<Rightarrow> 'a dl) \<Rightarrow> 'a dl" where
  "withLock c w fn =
     bnd (acquire c w 0 (lockAttempts c)) (\<lambda>held.
       case held of
         None \<Rightarrow> throw (Store_error (''rate-limit ledger: commit lock busy ('' @ lockPath c @ '') after '' @
             string_of_nat (lockAttempts c) @ '' attempts''))
       | Some h \<Rightarrow> finally_do (fn h) (release w h))"

section \<open>Reading and committing the ledger\<close>

definition loadLedgerUnlocked :: "dl_config \<Rightarrow> world \<Rightarrow> charge_ledger option dl" where
  "loadLedgerUnlocked c w =
     bnd (catch (fs_call w Read_ledger (\<lambda>d. (case dk_file d of
              Missing \<Rightarrow> Inl (Io_error ''ENOENT'')
            | Unreadable code \<Rightarrow> Inl (Io_error code)
            | Corrupt \<Rightarrow> Inr (Some None)
            | Json v \<Rightarrow> Inr (Some (Some v)), d)))
          (\<lambda>e. if e = Io_error ''ENOENT'' then ret None else throw e)) (\<lambda>raw.
       case raw of
         None \<Rightarrow> ret None
       | Some None \<Rightarrow> throw (Store_error ''rate-limit ledger: corrupt (unparseable JSON)'')
       | Some (Some v) \<Rightarrow> bnd (lift_sum (parseLedger v (maxKeys c))) (\<lambda>l. ret (Some l)))"

definition write_temp :: "world \<Rightarrow> charge_ledger \<Rightarrow> unit dl" where
  "write_temp w l =
     finally_do
       (seqn (fs_call w Write_temp (change (\<lambda>d. d\<lparr>dk_tmp := Json (serializeLedger l)\<rparr>)))
         (fs_call w Fsync_temp (change (\<lambda>d. d))))
       (fs_call w Close_temp (change (\<lambda>d. d)))"

definition rename_owned :: "world \<Rightarrow> string \<times> nat \<Rightarrow> unit dl" where
  "rename_owned w h =
     bnd (fs_call w Stat_lock (\<lambda>d. (case dk_lock d of
            None \<Rightarrow> Inl (Io_error ''ENOENT'') | Some k \<Rightarrow> Inr (lk_inode k), d))) (\<lambda>ino.
     seqn (fs_call w Fstat_fd (change (\<lambda>d. d)))
       (if ino \<noteq> snd h then throw stolen
        else fs_call w Rename_temp (\<lambda>d. if dk_tmp d = Missing then (Inl (Io_error ''ENOENT''), d)
               else (Inr (), d\<lparr>dk_file := dk_tmp d, dk_tmp := Missing\<rparr>))))"

definition saveLedger :: "world \<Rightarrow> string \<times> nat \<Rightarrow> charge_ledger \<Rightarrow> unit dl" where
  "saveLedger w h l =
     seqn (fs_call w Create_temp (\<lambda>d. if dk_tmp d = Missing then (Inr (), d\<lparr>dk_tmp := Corrupt\<rparr>)
             else (Inl (Io_error ''EEXIST''), d)))
    (seqn (catch (seqn (write_temp w l) (rename_owned w h))
             (\<lambda>e. seqn (best_effort (fs_call w Remove_temp (change (\<lambda>d. d\<lparr>dk_tmp := Missing\<rparr>)))) (throw e)))
      (catch (seqn (fs_call w Fsync_dir (change (\<lambda>d. d))) (upd (\<lambda>s. s\<lparr>durability := None\<rparr>)))
        (\<lambda>e. upd (\<lambda>s. s\<lparr>durability :=
           Some ''rate-limit ledger: committed, but the directory fsync failed''\<rparr>))))"

section \<open>Queries\<close>

definition deny :: jsnum where
  "deny = Fin (of_int max_safe_integer)"

definition set_degraded :: "string option \<Rightarrow> unit dl" where
  "set_degraded m = upd (\<lambda>s. s\<lparr>degraded := m\<rparr>)"

definition charges_of :: "charge_ledger \<Rightarrow> string \<Rightarrow> ledger_event list" where
  "charges_of l key = (case map_of l key of Some cs \<Rightarrow> cs | None \<Rightarrow> [])"

definition window_count :: "ledger_event list \<Rightarrow> rat \<Rightarrow> int \<Rightarrow> nat" where
  "window_count charges windowMs nowMs =
     length (filter (\<lambda>c. of_int (ev_at c) > of_int nowMs - windowMs \<and> ev_at c \<le> nowMs) charges)"

definition isRequestCharged :: "dl_config \<Rightarrow> world \<Rightarrow> rate_scope list \<Rightarrow> string \<Rightarrow> bool dl" where
  "isRequestCharged c w scopes requestId =
     (if requestId = '''' \<or> scopes = [] then ret False
      else catch (bnd (loadLedgerUnlocked c w) (\<lambda>l. ret (case l of
             None \<Rightarrow> False
           | Some l \<Rightarrow> list_all (\<lambda>sc. list_ex (\<lambda>ch. ev_id ch = Some (sha c requestId))
               (charges_of l (sc_key sc))) scopes)))
         (\<lambda>e. ret False))"

definition js_window :: "jsval \<Rightarrow> rat option" where
  "js_window v = (case v of JNum (Fin q) \<Rightarrow> if q > 0 then Some q else None | _ \<Rightarrow> None)"

definition deny_with :: "string \<Rightarrow> jsnum dl" where
  "deny_with msg = seqn (set_degraded (Some (''rate-limit ledger: '' @ msg))) (ret deny)"

definition probe_lock :: "dl_config \<Rightarrow> world \<Rightarrow> unit dl" where
  "probe_lock c w s =
     (if commitUnreliable s
      then seqn (withLock c w (\<lambda>h. ret ())) (upd (\<lambda>s. s\<lparr>commitUnreliable := False\<rparr>)) s
      else ret () s)"

definition countInWindow_durable :: "dl_config \<Rightarrow> world \<Rightarrow> jsval \<Rightarrow> jsval \<Rightarrow> jsval \<Rightarrow> jsnum dl" where
  "countInWindow_durable c w key windowMs nowMs =
     (case key of
        JStr k \<Rightarrow>
          if \<not> KEY_PATTERN k then deny_with ''scope key outside the identifier grammar''
          else (case (js_window windowMs, js_instant nowMs) of
                  (Some win, Some now) \<Rightarrow>
                    if win > of_int (retentionMs c) then deny_with ''window exceeds the ledger retention''
                    else catch
                      (seqn (probe_lock c w)
                        (bnd (loadLedgerUnlocked c w) (\<lambda>l.
                         seqn (set_degraded None)
                           (ret (case l of None \<Rightarrow> Fin 0
                              | Some l \<Rightarrow> js_nat (window_count (charges_of l k) win now))))))
                      (\<lambda>e. seqn (set_degraded (Some (err_message e))) (ret deny))
                | _ \<Rightarrow> deny_with ''malformed count query'')
      | _ \<Rightarrow> deny_with ''scope key outside the identifier grammar'')"

section \<open>Commits\<close>

text \<open>What the lock-held phase decides from the ledger it read: refuse (with a reason to keep), find
  the ledger already as it should be, or write a new one.\<close>

datatype commit_decision = Refuse "string option" | Already | Write charge_ledger

definition latch_on_error :: "'a dl \<Rightarrow> 'a dl" where
  "latch_on_error m =
     catch m (\<lambda>e. seqn (upd (\<lambda>s. s\<lparr>degraded := Some (err_message e), commitUnreliable := True\<rparr>)) (throw e))"

definition healthy :: "unit dl" where
  "healthy = upd (\<lambda>s. s\<lparr>commitUnreliable := False\<rparr>)"

definition record_decision :: "dl_config \<Rightarrow> string \<Rightarrow> int \<Rightarrow> charge_ledger option \<Rightarrow> rate_error + commit_decision" where
  "record_decision c key nowMs loaded =
     (let charge = \<lparr>ev_at = nowMs, ev_id = None\<rparr>;
          prune = (\<lambda>l. Write (pruneLedger nowMs (retentionMs c) (idempotencyRetentionMs c) l)) in
      case loaded of
        None \<Rightarrow> Inr (Write [(key, [charge])])
      | Some l \<Rightarrow>
          (case map_of l key of
             None \<Rightarrow>
               (case evictToCap (AList.update key [charge] l) (maxKeys c) [key] of
                  Inl e \<Rightarrow> Inl e
                | Inr l' \<Rightarrow> Inr (prune l'))
           | Some existing \<Rightarrow>
               (case insertCharge existing charge of
                  None \<Rightarrow> Inr Already
                | Some charges \<Rightarrow> Inr (prune (AList.update key charges l)))))"

text \<open>The commit both methods end with.\<close>

definition commit_decision :: "world \<Rightarrow> string \<times> nat \<Rightarrow> commit_decision \<Rightarrow> bool dl" where
  "commit_decision w h d =
     (case d of
        Refuse None \<Rightarrow> ret False
      | Refuse (Some reason) \<Rightarrow> seqn (set_degraded (Some reason)) (ret False)
      | Already \<Rightarrow> ret True
      | Write l \<Rightarrow> seqn (assertHolder w h) (seqn (saveLedger w h l) (ret True)))"

definition record_at :: "dl_config \<Rightarrow> world \<Rightarrow> jsval \<Rightarrow> jsval \<Rightarrow> unit dl" where
  "record_at c w key nowMs =
     (case key of
        JStr k \<Rightarrow>
          if \<not> KEY_PATTERN k then throw (Argument_error ''scope key must match the identifier grammar'')
          else (case js_instant nowMs of
                  None \<Rightarrow> throw (Argument_error ''nowMs must be a non-negative safe integer'')
                | Some now \<Rightarrow>
                    latch_on_error
                      (seqn (withLock c w (\<lambda>h.
                          bnd (loadLedgerUnlocked c w) (\<lambda>loaded.
                          seqn (set_degraded None)
                         (bnd (lift_sum (record_decision c k now loaded)) (commit_decision w h)))))
                        healthy))
      | _ \<Rightarrow> throw (Argument_error ''scope key must match the identifier grammar''))"

text \<open>The validation of a multi-scope request: \<open>Inl\<close> is a refusal, with its reason when it sets one.\<close>

record valid_scope =
  vs_key :: string
  vs_windowMs :: rat
  vs_limit :: int

definition scope_js :: "rate_scope \<Rightarrow> jsval" where
  "scope_js sc = JObj [(''key'', JStr (sc_key sc)),
     (''rule'', JObj [(''limit'', JNum (sc_limit sc)), (''windowMs'', JNum (sc_windowMs sc))])]"

definition validate_scope :: "dl_config \<Rightarrow> jsval \<Rightarrow> string option + valid_scope" where
  "validate_scope c v =
     (case v of
        JObj ps \<Rightarrow>
          (case (get_prop ps ''key'', get_prop ps ''rule'') of
             (JStr key, JObj rule) \<Rightarrow>
               if \<not> KEY_PATTERN key
               then Inl (Some ''rate-limit ledger: scope key outside the identifier grammar'')
               else (case js_window (get_prop rule ''windowMs'') of
                       None \<Rightarrow> Inl (Some ''rate-limit ledger: malformed count query'')
                     | Some win \<Rightarrow>
                         if win > of_int (retentionMs c)
                         then Inl (Some ''rate-limit ledger: window exceeds the ledger retention'')
                         else (case get_prop rule ''limit'' of
                                 JNum (Fin q) \<Rightarrow>
                                   if floor q \<le> 0 then Inl None
                                   else Inr \<lparr>vs_key = key, vs_windowMs = win, vs_limit = floor q\<rparr>
                               | _ \<Rightarrow> Inl None))
           | _ \<Rightarrow> Inl (Some ''rate-limit ledger: scope key outside the identifier grammar''))
      | _ \<Rightarrow> Inl (Some ''rate-limit ledger: scope key outside the identifier grammar''))"

fun validate_scopes :: "dl_config \<Rightarrow> jsval list \<Rightarrow> string option + valid_scope list" where
  "validate_scopes c [] = Inr []"
| "validate_scopes c (v # vs) =
     (case validate_scope c v of
        Inl e \<Rightarrow> Inl e
      | Inr sc \<Rightarrow> (case validate_scopes c vs of Inl e \<Rightarrow> Inl e | Inr scs \<Rightarrow> Inr (sc # scs)))"

definition carries :: "string \<Rightarrow> ledger_event list \<Rightarrow> bool" where
  "carries digest charges = list_ex (\<lambda>c. ev_id c = Some digest) charges"

definition chargedScopes :: "string \<Rightarrow> charge_ledger \<Rightarrow> valid_scope list \<Rightarrow> nat" where
  "chargedScopes digest l scopes =
     length (filter (\<lambda>sc. carries digest (charges_of l (vs_key sc))) scopes)"

definition presentButMissing :: "string \<Rightarrow> charge_ledger \<Rightarrow> valid_scope list \<Rightarrow> bool" where
  "presentButMissing digest l scopes =
     list_ex (\<lambda>sc. case map_of l (vs_key sc) of None \<Rightarrow> False | Some charges \<Rightarrow> \<not> carries digest charges) scopes"

text \<open>The insertion loop: whether anything changed, and the ledger.\<close>

fun charge_scopes :: "ledger_event \<Rightarrow> valid_scope list \<Rightarrow> bool \<times> charge_ledger \<Rightarrow> bool \<times> charge_ledger" where
  "charge_scopes charge [] st = st"
| "charge_scopes charge (sc # scs) (changed, l) =
     charge_scopes charge scs
       (case map_of l (vs_key sc) of
          None \<Rightarrow> (True, AList.update (vs_key sc) [charge] l)
        | Some existing \<Rightarrow>
            (case insertCharge existing charge of
               None \<Rightarrow> (changed, l)
             | Some charges \<Rightarrow> (True, AList.update (vs_key sc) charges l)))"

definition charge_decision ::
  "dl_config \<Rightarrow> valid_scope list \<Rightarrow> int \<Rightarrow> string option \<Rightarrow> charge_ledger \<Rightarrow> rate_error + commit_decision" where
  "charge_decision c scopes nowMs digest l =
     (if \<exists>sc \<in> set scopes. int (window_count (charges_of l (vs_key sc)) (vs_windowMs sc) nowMs) \<ge> vs_limit sc
      then Inr (Refuse None)
      else case charge_scopes \<lparr>ev_at = nowMs, ev_id = digest\<rparr> scopes (False, l) of
        (changed, charged) \<Rightarrow>
          if \<not> changed then Inr Already
          else (case evictToCap charged (maxKeys c) (map vs_key scopes) of
                  Inl e \<Rightarrow> Inl e
                | Inr kept \<Rightarrow>
                    if length kept > maxKeys c then Inr (Refuse None)
                    else Inr (Write (pruneLedger nowMs (retentionMs c) (idempotencyRetentionMs c) kept))))"

definition consume_decision ::
  "dl_config \<Rightarrow> valid_scope list \<Rightarrow> int \<Rightarrow> string option \<Rightarrow> charge_ledger \<Rightarrow> rate_error + commit_decision" where
  "consume_decision c scopes nowMs digest l =
     (case digest of
        None \<Rightarrow> charge_decision c scopes nowMs digest l
      | Some d \<Rightarrow>
          if chargedScopes d l scopes = length scopes then Inr Already
          else if chargedScopes d l scopes > 0
          then Inr (Refuse (Some (if presentButMissing d l scopes
                 then ''rate-limit ledger: inconsistent request charge''
                 else ''rate-limit ledger: request charge partially evicted'')))
          else charge_decision c scopes nowMs digest l)"

definition js_digest :: "dl_config \<Rightarrow> jsval \<Rightarrow> string option" where
  "js_digest c v = (case v of JStr rid \<Rightarrow> if rid \<noteq> '''' then Some (sha c rid) else None | _ \<Rightarrow> None)"

definition note_identity :: "string option \<Rightarrow> unit dl" where
  "note_identity digest =
     (if digest = None
      then upd (\<lambda>s. s\<lparr>identityNote :=
        Some ''rate-limit ledger: consume without a request identity; a redelivery is not idempotent''\<rparr>)
      else ret ())"

definition consumeScopesAtomically ::
  "dl_config \<Rightarrow> world \<Rightarrow> jsval \<Rightarrow> jsval \<Rightarrow> jsval \<Rightarrow> bool dl" where
  "consumeScopesAtomically c w scopes nowMs requestId =
     (case (js_instant nowMs, scopes) of
        (Some now, JArr raw) \<Rightarrow>
          (case validate_scopes c raw of
             Inl None \<Rightarrow> ret False
           | Inl (Some reason) \<Rightarrow> seqn (set_degraded (Some reason)) (ret False)
           | Inr validated \<Rightarrow>
               latch_on_error
                 (bnd (withLock c w (\<lambda>h.
                     bnd (loadLedgerUnlocked c w) (\<lambda>loaded.
                     seqn (set_degraded None)
                    (seqn (note_identity (js_digest c requestId))
                    (bnd (lift_sum (consume_decision c validated now (js_digest c requestId)
                        (case loaded of None \<Rightarrow> [] | Some l \<Rightarrow> l))) (commit_decision w h))))))
                   (\<lambda>ok. if ok then seqn healthy (ret True) else ret False)))
      | _ \<Rightarrow> seqn (set_degraded (Some ''rate-limit ledger: malformed count query'')) (ret False))"

text \<open>The store as the planner's decision sees it.\<close>

definition durable_store :: "dl_config \<Rightarrow> world \<Rightarrow> dstore rate_store" where
  "durable_store c w =
     \<lparr>rs_countInWindow = (\<lambda>k win now. countInWindow_durable c w (JStr k) (JNum win) (JNum now)),
      rs_record = (\<lambda>k now. record_at c w (JStr k) (JNum now)),
      rs_consumeScopesAtomically = Some (\<lambda>scopes now rid.
        consumeScopesAtomically c w (JArr (map scope_js scopes)) (JNum now)
          (case rid of None \<Rightarrow> JUndef | Some r \<Rightarrow> JStr r)),
      rs_isRequestCharged = Some (isRequestCharged c w)\<rparr>"

end
