(* ===== verification/Durable_Rate_Limit_Properties.thy ===== *)
theory Durable_Rate_Limit_Properties
  imports Durable_Rate_Limit
begin

text \<open>
  What the durable follow-up budget guarantees: the ledger stays loadable, a commit is one
  all-or-nothing step within every scope's limit, a charged request is recognised again, and no
  state that cannot be read admits a request.
\<close>

section \<open>The canonical order of charges\<close>

definition charge_key :: "ledger_event \<Rightarrow> int \<times> string" where
  "charge_key c = (ev_at c, case ev_id c of Some i \<Rightarrow> i | None \<Rightarrow> '''')"

lemma compareCharges_iff:
  "compareCharges a b < 0 \<longleftrightarrow> charge_key a < charge_key b"
  "compareCharges a b \<le> 0 \<longleftrightarrow> charge_key a \<le> charge_key b"
  "0 \<le> compareCharges a b \<longleftrightarrow> charge_key b \<le> charge_key a"
  "compareCharges a b = 0 \<longleftrightarrow> charge_key a = charge_key b"
  by (auto simp: compareCharges_def charge_key_def Let_def less_prod_def' less_eq_prod_def prod_le_def
      split: option.splits)

definition ascending :: "ledger_event list \<Rightarrow> bool" where
  "ascending cs = sorted_wrt (<) (map charge_key cs)"

definition event_ok :: "ledger_event \<Rightarrow> bool" where
  "event_ok c = (0 \<le> ev_at c \<and> ev_at c \<le> max_safe_integer \<and> (case ev_id c of None \<Rightarrow> True | Some i \<Rightarrow> ID_PATTERN i))"

definition charges_ok :: "ledger_event list \<Rightarrow> bool" where
  "charges_ok cs = (cs \<noteq> [] \<and> ascending cs \<and> list_all event_ok cs)"

definition entries_ok :: "charge_ledger \<Rightarrow> bool" where
  "entries_ok l = (map_ok l \<and> list_all (\<lambda>(k, cs). KEY_PATTERN k \<and> charges_ok cs) l)"

definition ledger_ok :: "nat \<Rightarrow> charge_ledger \<Rightarrow> bool" where
  "ledger_ok n l = (entries_ok l \<and> length l \<le> n)"

lemma event_key_inj: "event_ok a \<Longrightarrow> event_ok b \<Longrightarrow> charge_key a = charge_key b \<longleftrightarrow> a = b"
  by (auto simp: event_ok_def charge_key_def ID_PATTERN_def all_of_def split: option.splits)

lemma ascending_distinct: "ascending cs \<Longrightarrow> distinct cs"
  unfolding ascending_def using strict_sorted_iff distinct_map by blast

lemma ascending_eq:
  assumes "ascending xs" and "ascending ys" and "set xs = set ys"
  shows "xs = ys"
proof -
  have keys: "sorted_wrt (<) (map charge_key xs)" "sorted_wrt (<) (map charge_key ys)"
    using assms by (simp_all add: ascending_def)
  then have inj: "inj_on charge_key (set xs \<union> set ys)"
    using assms(3) by (metis distinct_map strict_sorted_iff sup.idem)
  have "map charge_key xs = map charge_key ys"
    using keys assms(3) by (metis list.set_map strict_sorted_equal)
  then show ?thesis using inj by (rule map_inj_on)
qed

lemma ascending_filter: "ascending cs \<Longrightarrow> ascending (filter P cs)"
  by (simp add: ascending_def sorted_wrt_map sorted_wrt_filter)

lemma insert_index: "insert_index cs c = length (takeWhile (\<lambda>x. charge_key x \<le> charge_key c) cs)"
  by (induction cs) (simp_all add: compareCharges_iff)

lemma ascending_split:
  fixes c :: ledger_event
  defines "P \<equiv> \<lambda>x. charge_key x \<le> charge_key c"
  assumes "ascending cs"
  shows "sorted_wrt (<) (map charge_key (takeWhile P cs) @ map charge_key (dropWhile P cs))"
    and "\<And>x. x \<in> set (takeWhile P cs) \<Longrightarrow> charge_key x \<le> charge_key c"
    and "\<And>x. x \<in> set (dropWhile P cs) \<Longrightarrow> charge_key c < charge_key x"
proof -
  let ?t = "takeWhile P cs" and ?d = "dropWhile P cs"
  have split: "cs = ?t @ ?d" by simp
  show asc: "sorted_wrt (<) (map charge_key ?t @ map charge_key ?d)"
    using assms(2) unfolding ascending_def by (metis split map_append)
  show "charge_key x \<le> charge_key c" if "x \<in> set ?t" for x
    using that unfolding P_def by (metis set_takeWhileD)
  show "charge_key c < charge_key x" if "x \<in> set ?d" for x
  proof -
    from that have ne: "?d \<noteq> []" by (metis empty_iff list.set(1))
    then have hd: "\<not> P (hd ?d)" by (rule hd_dropWhile)
    have "sorted_wrt (<) (map charge_key ?d)" using asc by (simp add: sorted_wrt_append)
    then have "charge_key (hd ?d) \<le> charge_key x"
      using that ne by (cases ?d) auto
    then show ?thesis using hd by (simp add: P_def)
  qed
qed

lemma insertCharge:
  assumes "ascending cs"
  shows "insertCharge cs c =
    (if charge_key c \<in> charge_key ` set cs then None
     else Some (takeWhile (\<lambda>x. charge_key x \<le> charge_key c) cs @ [c] @
       dropWhile (\<lambda>x. charge_key x \<le> charge_key c) cs))"
proof -
  let ?P = "\<lambda>x. charge_key x \<le> charge_key c"
  let ?t = "takeWhile ?P cs" and ?d = "dropWhile ?P cs"
  have split: "cs = ?t @ ?d" by simp
  note asc = ascending_split(1) [OF assms, of c] and low = ascending_split(2) [OF assms, of _ c]
    and high = ascending_split(3) [OF assms, of _ c]
  have tk: "take (length ?t) cs = ?t" "drop (length ?t) cs = ?d"
    by (metis append_eq_conv_conj split)+
  show ?thesis
  proof (cases ?t rule: rev_cases)
    case Nil
    then have "charge_key c \<notin> charge_key ` set cs" using high split by force
    then show ?thesis using tk by (simp add: insertCharge_def insert_index Nil)
  next
    case (snoc ys z)
    have e: "cs = ys @ z # ?d"
      by (subst split, subst snoc) simp
    have "cs ! length ys = z" by (subst e) simp
    then have z: "cs ! (length ?t - 1) = z" "0 < length ?t" by (simp_all add: snoc)
    have zc: "z \<in> set cs" by (subst e) simp
    have "charge_key c \<in> charge_key ` set cs \<longleftrightarrow> charge_key z = charge_key c"
    proof
      assume "charge_key c \<in> charge_key ` set cs"
      then obtain x where x: "x \<in> set cs" "charge_key x = charge_key c" by force
      then have "x \<in> set (ys @ [z])" using high snoc split by (metis Un_iff less_irrefl set_append)
      moreover have "charge_key x < charge_key z" if "x \<in> set ys"
        using asc that unfolding snoc by (auto simp: sorted_wrt_append)
      moreover have "charge_key z \<le> charge_key c" using low snoc by simp
      ultimately show "charge_key z = charge_key c" using x(2) by force
    qed (use zc in \<open>metis imageI\<close>)
    then show ?thesis using tk z(1,2) by (simp add: insertCharge_def insert_index compareCharges_iff Let_def)
  qed
qed

lemma insertCharge_Some:
  assumes "charges_ok cs" and "event_ok c" and "insertCharge cs c = Some cs'"
  shows "charges_ok cs'" and "set cs' = insert c (set cs)"
proof -
  let ?P = "\<lambda>x. charge_key x \<le> charge_key c"
  let ?t = "takeWhile ?P cs" and ?d = "dropWhile ?P cs"
  have asc: "ascending cs" using assms(1) by (simp add: charges_ok_def)
  from assms(3) have new: "charge_key c \<notin> charge_key ` set cs" and cs': "cs' = ?t @ [c] @ ?d"
    by (simp_all add: insertCharge [OF asc] split: if_splits)
  show mem: "set cs' = insert c (set cs)"
    by (metis cs' set_append Un_insert_right append_Cons append_Nil list.set(2) takeWhile_dropWhile_id)
  have low: "charge_key x < charge_key c" if "x \<in> set ?t" for x
  proof -
    have "x \<in> set cs" using that by (rule set_takeWhileD [THEN conjunct1])
    then have "charge_key x \<noteq> charge_key c" using new by (metis imageI)
    then show ?thesis using ascending_split(2) [OF asc that] by simp
  qed
  have "ascending cs'"
    using ascending_split(1) [OF asc, of c] low ascending_split(3) [OF asc, of _ c]
    by (auto simp: ascending_def cs' sorted_wrt_append)
  moreover have "list_all event_ok cs'"
    using assms(1,2) mem by (auto simp: list_all_iff charges_ok_def)
  ultimately show "charges_ok cs'" by (simp add: charges_ok_def cs')
qed

lemma insertCharge_None:
  assumes "charges_ok cs" and "event_ok c" and "insertCharge cs c = None"
  shows "c \<in> set cs"
proof -
  have "charge_key c \<in> charge_key ` set cs"
    using assms by (simp add: charges_ok_def insertCharge split: if_splits)
  then obtain x where "x \<in> set cs" "charge_key x = charge_key c" by force
  with assms(1,2) show ?thesis
    by (metis charges_ok_def event_key_inj list_all_iff)
qed

section \<open>Horizons, the cap and counting\<close>

lemma fold_delete:
  "map_of (fold AList.delete ks l) k = (if k \<in> set ks then None else map_of l k)"
  by (induction ks arbitrary: l) auto

lemma fold_delete_ok: "map_ok l \<Longrightarrow> map_ok (fold AList.delete ks l)"
  by (induction ks arbitrary: l) (simp_all add: AList_map_ok_delete)

lemma entries_okD:
  "entries_ok l \<Longrightarrow> map_of l k = Some cs \<Longrightarrow> KEY_PATTERN k \<and> charges_ok cs"
  by (auto simp: entries_ok_def list_all_iff dest: map_of_SomeD)

lemma entries_okI:
  "map_ok l \<Longrightarrow> (\<And>k cs. map_of l k = Some cs \<Longrightarrow> KEY_PATTERN k \<and> charges_ok cs) \<Longrightarrow> entries_ok l"
  by (auto simp: entries_ok_def list_all_iff)

lemma entries_ok_map_ok: "entries_ok l \<Longrightarrow> map_ok l"
  by (simp add: entries_ok_def)

lemma entries_ok_ascending: "entries_ok l \<Longrightarrow> ascending (charges_of l k)"
  by (auto simp: charges_of_def charges_ok_def ascending_def dest: entries_okD split: option.splits)

lemma entries_ok_update:
  "entries_ok l \<Longrightarrow> KEY_PATTERN k \<Longrightarrow> charges_ok cs \<Longrightarrow> entries_ok (AList.update k cs l)"
  by (rule entries_okI) (auto simp: AList_map_ok_update entries_ok_map_ok dest: entries_okD split: if_splits
      simp del: map_of_eq_Some_iff)

lemma entries_ok_fold_delete: "entries_ok l \<Longrightarrow> entries_ok (fold AList.delete ks l)"
  by (rule entries_okI) (auto simp: fold_delete fold_delete_ok entries_ok_map_ok dest: entries_okD split: if_splits
      simp del: map_of_eq_Some_iff)

lemma map_of_prune:
  assumes "map_ok l"
  shows "map_of (pruneLedger now r i l) k =
    (case map_of l k of None \<Rightarrow> None
     | Some cs \<Rightarrow> (let cs' = filter (kept_charge now r i) cs in if cs' = [] then None else Some cs'))"
  using assms unfolding pruneLedger_def
  by (induction l) (auto simp: Let_def map_of_eq_None_iff image_iff split: option.splits)

lemma prune_keys: "set (map fst (pruneLedger now r i l)) \<subseteq> set (map fst l)"
  by (force simp: pruneLedger_def)

lemma prune_map_ok: "map_ok l \<Longrightarrow> map_ok (pruneLedger now r i l)"
  unfolding pruneLedger_def by (induction l) (auto simp: image_iff)

lemma charges_of_prune:
  "map_ok l \<Longrightarrow> charges_of (pruneLedger now r i l) k = filter (kept_charge now r i) (charges_of l k)"
  by (simp add: charges_of_def map_of_prune Let_def split: option.splits)

lemma prune_ok: "entries_ok l \<Longrightarrow> entries_ok (pruneLedger now r i l)"
  by (rule entries_okI)
    (auto simp: prune_map_ok entries_ok_map_ok map_of_prune Let_def charges_ok_def ascending_filter list_all_iff
      dest!: entries_okD split: option.splits if_splits simp del: map_of_eq_Some_iff)

lemma prune_length: "length (pruneLedger now r i l) \<le> length l"
  unfolding pruneLedger_def by (rule order_trans [OF length_filter_le]) simp

lemma window_count_card:
  "ascending cs \<Longrightarrow> window_count cs w now =
    card {c \<in> set cs. of_int (ev_at c) > of_int now - w \<and> ev_at c \<le> now}"
  using distinct_card [OF distinct_filter [OF ascending_distinct]] by (simp add: window_count_def)

lemma length_delete: "map_ok l \<Longrightarrow> k \<in> set (map fst l) \<Longrightarrow> length (AList.delete k l) = length l - 1"
  by (metis AList.delete_keys distinct_remove1_removeAll length_map length_remove1)

lemma evict_loop:
  assumes "map_ok l" and "distinct ks" and "set ks \<subseteq> set (map fst l)"
  shows "\<exists>m. evict_loop n ks l = fold AList.delete (take m ks) l \<and>
    length (evict_loop n ks l) \<le> max n (length l - length ks)"
  using assms
proof (induction ks arbitrary: l)
  case (Cons k ks)
  show ?case
  proof (cases "length l \<le> n")
    case True
    then show ?thesis by (intro exI [of _ 0]) simp
  next
    case False
    have ok: "map_ok (AList.delete k l)" using Cons.prems(1) by (rule AList_map_ok_delete)
    have "set ks \<subseteq> set (map fst (AList.delete k l))"
      using Cons.prems(2,3) by (auto simp: AList.delete_keys simp del: set_map)
    from Cons.IH [OF ok _ this] Cons.prems(2) obtain m where
      "evict_loop n ks (AList.delete k l) = fold AList.delete (take m ks) (AList.delete k l)"
      "length (evict_loop n ks (AList.delete k l)) \<le> max n (length (AList.delete k l) - length ks)"
      by auto
    moreover have "length (AList.delete k l) = length l - 1"
      using Cons.prems by (intro length_delete) auto
    ultimately show ?thesis using False by (intro exI [of _ "Suc m"]) simp
  qed
qed simp

definition unprotected :: "string list \<Rightarrow> charge_ledger \<Rightarrow> charge_ledger" where
  "unprotected prot l = filter (\<lambda>(key, charges). key \<notin> set prot) l"

lemma map_of_unprotected:
  "map_of (unprotected prot l) k = (if k \<in> set prot then None else map_of l k)"
  by (induction l) (auto simp: unprotected_def)

lemma length_unprotected:
  assumes "map_ok l"
  shows "length l - length (unprotected prot l) \<le> length (remdups prot)"
proof -
  let ?in = "filter (\<lambda>p. fst p \<in> set prot) l"
  have "length (unprotected prot l) + length ?in = length l"
    unfolding unprotected_def by (induction l) auto
  moreover have "length ?in \<le> length (remdups prot)"
  proof -
    have "distinct (map fst ?in)" using assms by (rule distinct_map_filter)
    then have "length ?in = card (fst ` set ?in)" by (metis distinct_card length_map set_map)
    also have "\<dots> \<le> card (set prot)" by (rule card_mono) auto
    finally show ?thesis by (simp add: length_remdups_card_conv)
  qed
  ultimately show ?thesis by linarith
qed

lemma evictToCap_runs:
  assumes "map_ok l" and "\<And>k cs. map_of l k = Some cs \<Longrightarrow> cs \<noteq> []"
  shows "\<exists>m l'. evictToCap l n prot = Inr l' \<and>
    l' = fold AList.delete (take m (map fst (sort_key eviction_rank (unprotected prot l)))) l \<and>
    length l' \<le> max n (length (remdups prot))"
proof (cases "length l \<le> n")
  case True
  then show ?thesis by (intro exI [of _ 0] exI [of _ l]) (simp add: evictToCap_def)
next
  case False
  let ?ks = "map fst (sort_key eviction_rank (unprotected prot l))"
  have d: "distinct ?ks"
  proof -
    have "map_ok (unprotected prot l)" unfolding unprotected_def by (rule distinct_map_filter [OF assms(1)])
    then show ?thesis by (simp add: distinct_map)
  qed
  have sub: "set ?ks \<subseteq> set (map fst l)" by (auto simp: unprotected_def)
  have ne: "\<not> list_ex (\<lambda>(key, charges). charges = []) (unprotected prot l)"
    using assms by (auto simp: list_ex_iff unprotected_def)
  obtain m where m: "evict_loop n ?ks l = fold AList.delete (take m ?ks) l"
    "length (evict_loop n ?ks l) \<le> max n (length l - length ?ks)"
    using evict_loop [OF assms(1) d sub] by blast
  have "evictToCap l n prot = Inr (evict_loop n ?ks l)"
    using False ne by (simp add: evictToCap_def Let_def unprotected_def)
  moreover have "length (evict_loop n ?ks l) \<le> max n (length (remdups prot))"
    using m(2) length_unprotected [OF assms(1), of prot] by simp
  ultimately show ?thesis using m(1) by blast
qed

section \<open>What a commit decides\<close>

lemma charge_scopes_runs:
  assumes "charge_scopes ev scs (b, l) = (b', l')" and "entries_ok l" and "event_ok ev"
    and "list_all (\<lambda>sc. KEY_PATTERN (vs_key sc)) scs"
  shows "entries_ok l' \<and> (\<not> b' \<longrightarrow> \<not> b \<and> l' = l) \<and>
    (\<forall>k. set (charges_of l' k) = set (charges_of l k) \<union> (if k \<in> vs_key ` set scs then {ev} else {}))"
  using assms
proof (induction scs arbitrary: b l)
  case (Cons sc scs)
  let ?k = "vs_key sc"
  have one: "charges_ok [ev]" using Cons.prems(3) by (simp add: charges_ok_def ascending_def)
  obtain b1 l1 where step: "charge_scopes ev (sc # scs) (b, l) = charge_scopes ev scs (b1, l1)"
    "entries_ok l1" "\<not> b1 \<Longrightarrow> \<not> b \<and> l1 = l"
    "\<And>k. set (charges_of l1 k) = set (charges_of l k) \<union> (if k = ?k then {ev} else {})"
  proof (cases "map_of l ?k")
    case None
    show thesis
      by (rule that [of True "AList.update ?k [ev] l"])
        (use None Cons.prems one in \<open>auto simp: charges_of_def entries_ok_update\<close>)
  next
    case (Some cs)
    note ok = entries_okD [OF Cons.prems(2) Some]
    show thesis
    proof (cases "insertCharge cs ev")
      case None
      have "ev \<in> set cs" using insertCharge_None ok Cons.prems(3) None by blast
      then show thesis
        by (intro that [of b l]) (use Some None Cons.prems(2) in \<open>auto simp: charges_of_def\<close>)
    next
      case (Some cs')
      have "charges_ok cs'" "set cs' = insert ev (set cs)"
        using insertCharge_Some [OF _ Cons.prems(3) Some] ok by blast+
      then show thesis
        by (intro that [of True "AList.update ?k cs' l"])
          (use Some \<open>map_of l ?k = Some cs\<close> Cons.prems ok in \<open>auto simp: charges_of_def entries_ok_update\<close>)
    qed
  qed
  have "charge_scopes ev scs (b1, l1) = (b', l')" using step(1) Cons.prems(1) by simp
  from Cons.IH [OF this step(2) Cons.prems(3)] Cons.prems(4) step(3,4) show ?case by auto
qed simp

definition config_ok :: "dl_config \<Rightarrow> bool" where
  "config_ok c = (0 < retentionMs c \<and> retentionMs c \<le> idempotencyRetentionMs c \<and> 1 \<le> maxKeys c \<and>
     1 \<le> lockAttempts c \<and> (\<forall>x. ID_PATTERN (sha c x)))"

lemma positive_option: "positive_option name v dflt = Inr i \<Longrightarrow> 0 < i"
  by (auto simp: positive_option_def is_integral_def split: option.splits jsnum.splits if_splits)

lemma new_store_ok: "new_store h opts = Inr c \<Longrightarrow> (\<And>x. ID_PATTERN (h x)) \<Longrightarrow> config_ok c"
  by (auto simp: new_store_def config_ok_def split: if_splits sum.splits dest!: positive_option)

definition scope_ok :: "dl_config \<Rightarrow> valid_scope \<Rightarrow> bool" where
  "scope_ok c sc = (KEY_PATTERN (vs_key sc) \<and> 0 < vs_windowMs sc \<and> vs_windowMs sc \<le> of_int (retentionMs c) \<and>
     0 < vs_limit sc)"

lemma validate_scopes_ok: "validate_scopes c vs = Inr scs \<Longrightarrow> list_all (scope_ok c) scs"
proof (induction vs arbitrary: scs)
  case (Cons v vs)
  then obtain sc rest where "validate_scope c v = Inr sc" "validate_scopes c vs = Inr rest" "scs = sc # rest"
    by (auto split: sum.splits)
  moreover from this(1) have "scope_ok c sc"
    by (auto simp: validate_scope_def scope_ok_def js_window_def split: jsval.splits jsnum.splits option.splits if_splits)
  ultimately show ?case using Cons.IH by simp
qed simp

text \<open>The ledger \<open>l'\<close> is \<open>l\<close> with the charge on every scope of the request, pruned, and possibly
  with other scopes evicted.\<close>

definition charged_ledger ::
  "dl_config \<Rightarrow> string set \<Rightarrow> ledger_event \<Rightarrow> charge_ledger \<Rightarrow> charge_ledger \<Rightarrow> bool" where
  "charged_ledger c ks ev l l' =
     (let kept = kept_charge (ev_at ev) (retentionMs c) (idempotencyRetentionMs c) in
      ledger_ok (maxKeys c) l' \<and>
      (\<forall>k \<in> ks. set (charges_of l' k) = {ch \<in> insert ev (set (charges_of l k)). kept ch}) \<and>
      (\<forall>k. k \<notin> ks \<longrightarrow> charges_of l' k = filter kept (charges_of l k) \<or>
         charges_of l' k = [] \<and> card (fst ` set l \<union> ks) > maxKeys c))"

lemma charges_of_fold_delete:
  "charges_of (fold AList.delete ks l) k = (if k \<in> set ks then [] else charges_of l k)"
  by (simp add: charges_of_def fold_delete)

lemma charges_of_Nil_iff: "entries_ok l \<Longrightarrow> charges_of l k = [] \<longleftrightarrow> k \<notin> fst ` set l"
proof (cases "map_of l k")
  case None
  then have "k \<notin> fst ` set l" by (simp only: map_of_eq_None_iff) simp
  then show ?thesis by (simp add: charges_of_def None)
next
  case (Some cs)
  then have "k \<in> fst ` set l" by (metis domI dom_map_of_conv_image_fst)
  then show "entries_ok l \<Longrightarrow> ?thesis"
    using entries_okD [OF _ Some] by (simp add: charges_of_def Some charges_ok_def)
qed

text \<open>Evicting to the cap and pruning a ledger that holds the charge on every scope of \<open>ks\<close>.\<close>

lemma evict_prune:
  assumes c: "config_ok c" and l: "entries_ok l" and l2: "entries_ok l2"
    and charged: "\<And>k. set (charges_of l2 k) = set (charges_of l k) \<union> (if k \<in> set ks then {ev} else {})"
    and same: "\<And>k. k \<notin> set ks \<Longrightarrow> charges_of l2 k = charges_of l k"
    and ev: "evictToCap l2 (maxKeys c) ks = r"
  obtains l3 where "r = Inr l3" "length l3 \<le> maxKeys c \<or> length l3 \<le> length (remdups ks)"
    "length l3 \<le> maxKeys c \<Longrightarrow>
      charged_ledger c (set ks) ev l (pruneLedger (ev_at ev) (retentionMs c) (idempotencyRetentionMs c) l3)"
proof -
  let ?kept = "kept_charge (ev_at ev) (retentionMs c) (idempotencyRetentionMs c)"
  have ok2: "map_ok l2" by (rule entries_ok_map_ok [OF l2])
  have ne: "cs \<noteq> []" if "map_of l2 k = Some cs" for k cs
    using entries_okD [OF l2 that] by (simp add: charges_ok_def)
  let ?ranked = "map fst (sort_key eviction_rank (unprotected ks l2))"
  obtain m l3 where l3: "r = Inr l3" "l3 = fold AList.delete (take m ?ranked) l2"
    "length l3 \<le> max (maxKeys c) (length (remdups ks))"
  proof -
    have "\<exists>m l'. evictToCap l2 (maxKeys c) ks = Inr l' \<and> l' = fold AList.delete (take m ?ranked) l2 \<and>
        length l' \<le> max (maxKeys c) (length (remdups ks))"
      by (rule evictToCap_runs [OF ok2]) (rule ne)
    then show ?thesis using that ev by blast
  qed
  have gone: "set (take m ?ranked) \<inter> set ks = {}"
    using set_take_subset [of m ?ranked] by (auto simp: unprotected_def)
  have e3: "entries_ok l3" unfolding l3(2) by (rule entries_ok_fold_delete [OF l2])
  let ?l4 = "pruneLedger (ev_at ev) (retentionMs c) (idempotencyRetentionMs c) l3"
  have c4: "charges_of ?l4 k = filter ?kept (charges_of l3 k)" for k
    by (rule charges_of_prune [OF entries_ok_map_ok [OF e3]])
  have keys2: "fst ` set l2 = fst ` set l \<union> set ks"
  proof -
    have "k \<in> fst ` set l2 \<longleftrightarrow> k \<in> fst ` set l \<union> set ks" for k
      using charges_of_Nil_iff [OF l, of k] charges_of_Nil_iff [OF l2, of k] charged [of k]
      by (auto split: if_splits)
    then show ?thesis by blast
  qed
  have "charged_ledger c (set ks) ev l ?l4" if len: "length l3 \<le> maxKeys c"
    unfolding charged_ledger_def Let_def
  proof (intro conjI ballI allI impI)
    show "ledger_ok (maxKeys c) ?l4"
      using prune_ok [OF e3] order_trans [OF prune_length len] by (simp add: ledger_ok_def)
    fix k
    show "set (charges_of ?l4 k) = {ch \<in> insert ev (set (charges_of l k)). ?kept ch}" if "k \<in> set ks"
    proof -
      have "charges_of l3 k = charges_of l2 k"
        using gone that by (auto simp: l3(2) charges_of_fold_delete)
      then show ?thesis using charged [of k] that by (auto simp: c4)
    qed
    show "charges_of ?l4 k = filter ?kept (charges_of l k) \<or>
        charges_of ?l4 k = [] \<and> card (fst ` set l \<union> set ks) > maxKeys c" if "k \<notin> set ks"
    proof (cases "k \<in> set (take m ?ranked)")
      case False
      then show ?thesis unfolding c4 using same [OF that] by (simp add: l3(2) charges_of_fold_delete)
    next
      case True
      have "\<not> length l2 \<le> maxKeys c"
      proof
        assume "length l2 \<le> maxKeys c"
        then have "l3 = l2" using ev l3(1) by (simp add: evictToCap_def)
        moreover have "k \<in> fst ` set l2"
          using True set_take_subset [of m ?ranked] by (auto simp: unprotected_def)
        ultimately have "charges_of l3 k \<noteq> []" using charges_of_Nil_iff [OF l2] by simp
        then show False using True by (simp add: l3(2) charges_of_fold_delete)
      qed
      then have "card (fst ` set l2) > maxKeys c"
        using ok2 by (metis distinct_card length_map list.set_map not_le)
      then show ?thesis unfolding c4 using True by (simp add: l3(2) charges_of_fold_delete keys2)
    qed
  qed
  then show thesis using that l3(1,3) by (metis max_def)
qed

lemma charge_decision_cases:
  assumes c: "config_ok c" and l: "entries_ok l" and scs: "list_all (scope_ok c) scs"
    and now: "0 \<le> now" "now \<le> max_safe_integer" and dig: "\<And>d. digest = Some d \<Longrightarrow> ID_PATTERN d"
    and r: "charge_decision c scs now digest l = r"
  obtains (refused) "r = Inr (Refuse None)"
  | (already) "r = Inr Already"
      "\<And>sc. sc \<in> set scs \<Longrightarrow> \<lparr>ev_at = now, ev_id = digest\<rparr> \<in> set (charges_of l (vs_key sc))"
  | (written) l' where "r = Inr (Write l')"
      "charged_ledger c (vs_key ` set scs) \<lparr>ev_at = now, ev_id = digest\<rparr> l l'"
      "\<And>sc. sc \<in> set scs \<Longrightarrow> int (window_count (charges_of l (vs_key sc)) (vs_windowMs sc) now) < vs_limit sc"
proof (cases "\<exists>sc \<in> set scs. int (window_count (charges_of l (vs_key sc)) (vs_windowMs sc) now) \<ge> vs_limit sc")
  case True
  then show thesis using r refused by (simp add: charge_decision_def)
next
  case False
  let ?ev = "\<lparr>ev_at = now, ev_id = digest\<rparr>"
  have ev: "event_ok ?ev" using now dig by (simp add: event_ok_def split: option.split)
  have keys: "list_all (\<lambda>sc. KEY_PATTERN (vs_key sc)) scs"
    using scs by (auto simp: scope_ok_def list_all_iff)
  obtain b l2 where cs: "charge_scopes ?ev scs (False, l) = (b, l2)" by fastforce
  note run = charge_scopes_runs [OF cs l ev keys]
  show thesis
  proof (cases b)
    case b: False
    with run have "ev_at ?ev = now" "?ev \<in> set (charges_of l (vs_key sc))" if "sc \<in> set scs" for sc
      using that by (auto split: if_splits)
    then show thesis using r False cs b already by (simp add: charge_decision_def)
  next
    case True
    have l2: "entries_ok l2" and m: "\<And>k. set (charges_of l2 k) =
        set (charges_of l k) \<union> (if k \<in> set (map vs_key scs) then {?ev} else {})"
      using run by simp_all
    have same: "charges_of l2 k = charges_of l k" if "k \<notin> set (map vs_key scs)" for k
      using m [of k] that entries_ok_ascending [OF l, of k] entries_ok_ascending [OF l2, of k]
      by (simp add: ascending_eq)
    obtain l3 where l3: "evictToCap l2 (maxKeys c) (map vs_key scs) = Inr l3"
      "length l3 \<le> maxKeys c \<Longrightarrow> charged_ledger c (set (map vs_key scs)) ?ev l
         (pruneLedger (ev_at ?ev) (retentionMs c) (idempotencyRetentionMs c) l3)"
      using evict_prune [OF c l l2 m same refl] by blast
    have r: "r = (if length l3 > maxKeys c then Inr (Refuse None)
        else Inr (Write (pruneLedger now (retentionMs c) (idempotencyRetentionMs c) l3)))"
      using r False cs True l3(1) by (simp add: charge_decision_def)
    show thesis
    proof (cases "length l3 > maxKeys c")
      case True
      then show thesis using r refused by simp
    next
      case fits: False
      then show thesis
        using written [of "pruneLedger now (retentionMs c) (idempotencyRetentionMs c) l3"] l3(2) r False
        by (simp add: not_le)
    qed
  qed
qed

lemma consume_decision_cases:
  assumes c: "config_ok c" and l: "entries_ok l" and scs: "list_all (scope_ok c) scs"
    and now: "0 \<le> now" "now \<le> max_safe_integer" and dig: "\<And>d. digest = Some d \<Longrightarrow> ID_PATTERN d"
    and r: "consume_decision c scs now digest l = r"
  obtains (refused) why where "r = Inr (Refuse why)"
  | (already) "r = Inr Already"
      "\<And>sc. sc \<in> set scs \<Longrightarrow> \<exists>ch \<in> set (charges_of l (vs_key sc)). ev_id ch = digest"
  | (written) l' where "r = Inr (Write l')"
      "charged_ledger c (vs_key ` set scs) \<lparr>ev_at = now, ev_id = digest\<rparr> l l'"
      "\<And>sc. sc \<in> set scs \<Longrightarrow> int (window_count (charges_of l (vs_key sc)) (vs_windowMs sc) now) < vs_limit sc"
      "\<And>sc d. sc \<in> set scs \<Longrightarrow> digest = Some d \<Longrightarrow> \<not> carries d (charges_of l (vs_key sc))"
proof -
  have step: thesis if r': "charge_decision c scs now digest l = r"
    and fresh: "\<And>sc d. sc \<in> set scs \<Longrightarrow> digest = Some d \<Longrightarrow> \<not> carries d (charges_of l (vs_key sc))"
  proof (rule charge_decision_cases [OF c l scs now dig r'])
    show "digest = Some d \<Longrightarrow> digest = Some d" for d .
    assume "r = Inr (Refuse None)" then show thesis by (rule refused)
  next
    assume "r = Inr Already"
      "\<And>sc. sc \<in> set scs \<Longrightarrow> \<lparr>ev_at = now, ev_id = digest\<rparr> \<in> set (charges_of l (vs_key sc))"
    then show thesis by (intro already) force+
  next
    fix l' assume "r = Inr (Write l')"
      "charged_ledger c (vs_key ` set scs) \<lparr>ev_at = now, ev_id = digest\<rparr> l l'"
      "\<And>sc. sc \<in> set scs \<Longrightarrow> int (window_count (charges_of l (vs_key sc)) (vs_windowMs sc) now) < vs_limit sc"
    then show thesis using written fresh by blast
  qed
  show thesis
  proof (cases digest)
    case None
    then show thesis using r step by (simp add: consume_decision_def)
  next
    case (Some d)
    let ?n = "chargedScopes d l scs"
    consider "?n = length scs" | "?n \<noteq> length scs" "?n > 0" | "?n \<noteq> length scs" "?n = 0" by blast
    then show thesis
    proof cases
      case 1
      then have "carries d (charges_of l (vs_key sc))" if "sc \<in> set scs" for sc
        using that unfolding chargedScopes_def by (metis filter_True length_filter_less less_irrefl)
      then show thesis using r Some 1 already
        by (simp add: consume_decision_def carries_def list_ex_iff)
    next
      case 2
      then have "\<exists>why. r = Inr (Refuse why)" using r Some by (auto simp: consume_decision_def)
      then show thesis using refused by blast
    next
      case 3
      then have "\<not> carries d (charges_of l (vs_key sc))" if "sc \<in> set scs" for sc
        using that by (auto simp: chargedScopes_def filter_empty_conv)
      then have fresh: "\<not> carries d' (charges_of l (vs_key sc))" if "sc \<in> set scs" "digest = Some d'" for sc d'
        using that Some by simp
      have "charge_decision c scs now digest l = r" using r Some 3 by (simp add: consume_decision_def)
      then show thesis by (rule step) (rule fresh)
    qed
  qed
qed

section \<open>Reading and writing the ledger\<close>

lemma js_instant_bounds: "js_instant v = Some t \<Longrightarrow> 0 \<le> t \<and> t \<le> max_safe_integer"
  by (auto simp: js_instant_def split: jsval.splits option.splits if_splits dest: safe_int_Some)

lemma js_instant_of_int [simp]:
  "0 \<le> t \<Longrightarrow> t \<le> max_safe_integer \<Longrightarrow> js_instant (JNum (Fin (of_int t))) = Some t"
  by (simp add: js_instant_def)

lemma parseEvent_ok: "parseEvent legacy v = Inr ev \<Longrightarrow> event_ok ev"
  by (auto simp: parseEvent_def event_ok_def split: if_splits option.splits jsval.splits
      dest: js_instant_bounds)

lemma parse_events_ok:
  "parse_events legacy prev vs = Inr evs \<Longrightarrow>
    list_all event_ok evs \<and> length evs = length vs \<and>
    ascending ((case prev of None \<Rightarrow> [] | Some p \<Rightarrow> [p]) @ evs)"
proof (induction vs arbitrary: prev evs)
  case (Cons v vs)
  then obtain ev rest where ev: "parseEvent legacy v = Inr ev" "parse_events legacy (Some ev) vs = Inr rest"
    "evs = ev # rest" "case prev of Some p \<Rightarrow> charge_key p < charge_key ev | None \<Rightarrow> True"
    by (auto split: sum.splits if_splits option.splits simp: compareCharges_iff)
  from Cons.IH [OF ev(2)] ev parseEvent_ok [OF ev(1)] show ?case
    by (auto simp: ascending_def split: option.splits)
qed (simp add: ascending_def split: option.split)

lemma parse_scopes_ok:
  "parse_scopes legacy vs l = Inr l' \<Longrightarrow> entries_ok l \<Longrightarrow> entries_ok l' \<and> length l' = length l + length vs"
proof (induction vs arbitrary: l)
  case (Cons v vs)
  from Cons.prems(1) obtain ps key evs charges where v: "v = JObj ps" "get_prop ps ''key'' = JStr key"
    "KEY_PATTERN key" "map_of l key = None" "get_prop ps ''events'' = JArr evs" "evs \<noteq> []"
    "parse_events legacy None evs = Inr charges" "parse_scopes legacy vs (AList.update key charges l) = Inr l'"
    by (auto split: jsval.splits if_splits sum.splits)
  have "charges_ok charges"
    using parse_events_ok [OF v(7)] v(6) by (auto simp: charges_ok_def)
  then have "entries_ok (AList.update key charges l)"
    by (rule entries_ok_update [OF Cons.prems(2) v(3)])
  from Cons.IH [OF v(8) this] v(4) show ?case
    by (metis AList_keys_update add_Suc_right add_Suc length_Cons length_append_singleton length_map
        map_of_eq_None_iff set_map)
qed simp

lemma parseLedger_ok:
  assumes "parseLedger v n = Inr l"
  shows "ledger_ok n l"
proof -
  from assms obtain legacy scopes where "parse_scopes legacy scopes [] = Inr l" "length scopes \<le> n"
    by (auto simp: parseLedger_def Let_def split: jsval.splits if_splits)
  then show ?thesis using parse_scopes_ok [of legacy scopes "[]" l]
    by (auto simp: ledger_ok_def entries_ok_def)
qed

lemma parseEvent_event_js: "event_ok ev \<Longrightarrow> parseEvent False (event_js ev) = Inr ev"
  by (cases ev) (auto simp: parseEvent_def event_js_def event_ok_def split: option.splits)

lemma parse_events_js:
  "list_all event_ok evs \<Longrightarrow> ascending ((case prev of None \<Rightarrow> [] | Some p \<Rightarrow> [p]) @ evs) \<Longrightarrow>
    parse_events False prev (map event_js evs) = Inr evs"
proof (induction evs arbitrary: prev)
  case (Cons ev evs)
  have "case prev of Some p \<Rightarrow> \<not> compareCharges p ev \<ge> 0 | None \<Rightarrow> True"
    using Cons.prems(2) by (auto simp: compareCharges_iff ascending_def split: option.splits)
  moreover have "parse_events False (Some ev) (map event_js evs) = Inr evs"
    using Cons by (auto simp: ascending_def split: option.splits)
  ultimately show ?case using Cons.prems(1) by (auto simp: parseEvent_event_js split: option.splits)
qed simp

lemma parse_scopes_js:
  assumes "entries_ok l2" and "map_ok (l @ l2)"
  shows "parse_scopes False (map (\<lambda>(key, charges). JObj [(''key'', JStr key),
      (''events'', JArr (map event_js charges))]) l2) l = Inr (l @ l2)"
  using assms
proof (induction l2 arbitrary: l)
  case (Cons e l2)
  obtain k cs where e: "e = (k, cs)" by (cases e)
  have ok: "KEY_PATTERN k" "charges_ok cs" "entries_ok l2"
    using Cons.prems(1) by (auto simp: e entries_ok_def)
  have new: "map_of l k = None" using Cons.prems(2) by (auto simp: e map_of_eq_None_iff)
  then have upd: "AList.update k cs l = l @ [(k, cs)]"
    by (induction l) (auto split: if_splits)
  have "parse_events False None (map event_js cs) = Inr cs"
    using ok(2) by (intro parse_events_js) (simp_all add: charges_ok_def)
  moreover have "cs \<noteq> []" using ok(2) by (simp add: charges_ok_def)
  ultimately show ?case
    using Cons.IH [of "l @ [(k, cs)]"] ok Cons.prems(2) new upd by (simp add: e)
qed simp

lemma sort_key_ok: "entries_ok l \<Longrightarrow> entries_ok (sort_key fst l)"
  by (auto simp: entries_ok_def list_all_iff distinct_map)

lemma parse_serialize:
  assumes "ledger_ok n l"
  shows "parseLedger (serializeLedger l) n = Inr (sort_key fst l)"
proof -
  have l: "entries_ok l" "length l \<le> n" using assms by (simp_all add: ledger_ok_def)
  have "filter (\<lambda>(key, charges). charges \<noteq> []) l = l"
    using l(1) by (auto simp: entries_ok_def list_all_iff charges_ok_def filter_id_conv)
  then show ?thesis
    using parse_scopes_js [OF sort_key_ok [OF l(1)], of "[]"] entries_ok_map_ok [OF sort_key_ok [OF l(1)]] l(2)
    by (simp add: parseLedger_def serializeLedger_def)
qed

lemma charges_of_sort: "entries_ok l \<Longrightarrow> charges_of (sort_key fst l) k = charges_of l k"
proof -
  assume "entries_ok l"
  then have "map_ok l" "map_ok (sort_key fst l)" by (simp_all add: entries_ok_map_ok sort_key_ok)
  then have "map_of (sort_key fst l) = map_of l" by (intro map_of_inject_set [THEN iffD2]) simp_all
  then show ?thesis by (simp add: charges_of_def)
qed

section \<open>File operations\<close>

text \<open>No other process touches the ledger or the temporary file, and a ledger that exists is never
  reported missing. The lock file, and every failure, are left free.\<close>

definition solo :: "world \<Rightarrow> bool" where
  "solo w = ((\<forall>p d. dk_file (w_other w p d) = dk_file d \<and> dk_tmp (w_other w p d) = dk_tmp d) \<and>
     w_fault w Read_ledger \<noteq> Some ''ENOENT'')"

definition lock_only :: "dstore \<Rightarrow> dstore \<Rightarrow> bool" where
  "lock_only s s' = (dk_file (disk s') = dk_file (disk s) \<and> dk_tmp (disk s') = dk_tmp (disk s) \<and>
     degraded s' = degraded s \<and> durability s' = durability s \<and> identityNote s' = identityNote s \<and>
     commitUnreliable s' = commitUnreliable s)"

definition leaves :: "'a dl \<Rightarrow> bool" where
  "leaves m = (\<forall>s. lock_only s (snd (m s)))"

lemma lock_only_refl [simp]: "lock_only s s"
  by (simp add: lock_only_def)

lemma lock_only_trans: "lock_only s t \<Longrightarrow> lock_only t u \<Longrightarrow> lock_only s u"
  by (simp add: lock_only_def)

named_theorems leaves_intros \<open>rules for computations that only touch the lock\<close>

lemma leaves_ret [leaves_intros]: "leaves (ret x)"
  by (simp add: leaves_def)

lemma leaves_throw [leaves_intros]: "leaves (throw e)"
  by (simp add: leaves_def)

lemma leaves_bnd [leaves_intros]: "leaves m \<Longrightarrow> (\<And>x. leaves (k x)) \<Longrightarrow> leaves (bnd m k)"
  unfolding leaves_def bnd_def
  by (auto split: prod.split sum.split) (metis lock_only_trans snd_conv)+

lemma leaves_seqn [leaves_intros]: "leaves m \<Longrightarrow> leaves n \<Longrightarrow> leaves (seqn m n)"
  unfolding seqn_def by (rule leaves_bnd)

lemma leaves_catch [leaves_intros]: "leaves m \<Longrightarrow> (\<And>e. leaves (h e)) \<Longrightarrow> leaves (catch m h)"
  unfolding leaves_def catch_def
  by (auto split: prod.split sum.split) (metis lock_only_trans snd_conv)+

lemma leaves_try:
  assumes "leaves m" and "\<And>x. leaves (k x)" and "\<And>e. leaves (h e)"
  shows "leaves (\<lambda>s. case m s of (Inl e, s') \<Rightarrow> h e s' | (Inr x, s') \<Rightarrow> k x s')"
  unfolding leaves_def
proof
  fix s
  obtain r s1 where m: "m s = (r, s1)" by fastforce
  then have 1: "lock_only s s1" using assms(1) by (metis leaves_def snd_conv)
  have 2: "lock_only s1 (snd (h e s1))" "lock_only s1 (snd (k x s1))" for e x
    using assms(2,3) by (simp_all add: leaves_def)
  show "lock_only s (snd (case m s of (Inl e, s') \<Rightarrow> h e s' | (Inr x, s') \<Rightarrow> k x s'))"
    using lock_only_trans [OF 1 2(1)] lock_only_trans [OF 1 2(2)] by (simp add: m split: sum.split)
qed

lemma leaves_best_effort [leaves_intros]: "leaves m \<Longrightarrow> leaves (best_effort m)"
  by (simp add: leaves_def best_effort_def)

lemma leaves_fs_call:
  "solo w \<Longrightarrow> (\<And>d. dk_file (snd (act d)) = dk_file d \<and> dk_tmp (snd (act d)) = dk_tmp d) \<Longrightarrow>
    leaves (fs_call w p act)"
  by (auto simp: leaves_def lock_only_def fs_call_def solo_def Let_def split: option.split prod.split)
    (metis snd_conv)+

lemma leaves_change [leaves_intros]:
  "solo w \<Longrightarrow> leaves (fs_call w p (change remove_lock))" "solo w \<Longrightarrow> leaves (fs_call w p (change (\<lambda>d. d)))"
  by (auto intro!: leaves_fs_call simp: change_def remove_lock_def)

lemma leaves_read [leaves_intros]: "solo w \<Longrightarrow> leaves (fs_call w p (\<lambda>d. (f d, d)))"
  by (rule leaves_fs_call) simp_all

lemma leaves_token [leaves_intros]: "solo w \<Longrightarrow> leaves (readLockToken w p)"
  unfolding readLockToken_def by (intro leaves_intros)

lemma leaves_create [leaves_intros]: "solo w \<Longrightarrow> leaves (create_lock w n)"
  unfolding create_lock_def
  by (intro leaves_intros leaves_fs_call) (auto split: option.split)

lemma leaves_if [leaves_intros]: "leaves m \<Longrightarrow> leaves n \<Longrightarrow> leaves (if b then m else n)"
  by simp

lemma leaves_acquire: "solo w \<Longrightarrow> leaves (acquire c w n left)"
proof (induction left arbitrary: n)
  case (Suc left)
  define st where "st = fs_call w (Stat_held n) (\<lambda>d. (case dk_lock d of
      None \<Rightarrow> Inl (Io_error ''ENOENT'') | Some l \<Rightarrow> Inr (lk_mtime l), d))"
  define nap :: "unit dl" where
    "nap = (if left > 0 then upd (\<lambda>s. s\<lparr>slept := slept s @ [lockRetryDelayMs c]\<rparr>) else ret ())"
  define again where "again = acquire c w (Suc n) left"
  define retry where "retry = (\<lambda>mtime. case w_clock w n of
      Fin now \<Rightarrow> if now - mtime > of_int (lockStaleMs c)
        then seqn (best_effort (fs_call w (Remove_stale n) (change remove_lock))) again else seqn nap again
    | _ \<Rightarrow> seqn nap again)"
  have nap: "leaves nap" by (simp add: nap_def leaves_def upd_def lock_only_def)
  have again: "leaves again" unfolding again_def by (rule Suc.IH [OF Suc.prems])
  have retry: "leaves (retry mtime)" for mtime
    unfolding retry_def using nap again Suc.prems by (cases "w_clock w n") (auto intro!: leaves_intros)
  have rest: "leaves (\<lambda>s. case st s of (Inl e, s2) \<Rightarrow> again s2 | (Inr mtime, s2) \<Rightarrow> retry mtime s2)"
    by (rule leaves_try) (auto simp: st_def intro: leaves_read [OF Suc.prems] again retry)
  have "acquire c w n (Suc left) = (\<lambda>s. case create_lock w n s of
      (Inl e, s1) \<Rightarrow> (if e \<noteq> Io_error ''EEXIST'' then throw e
        else (\<lambda>s. case st s of (Inl e, s2) \<Rightarrow> again s2 | (Inr mtime, s2) \<Rightarrow> retry mtime s2)) s1
    | (Inr h, s1) \<Rightarrow> ret (Some h) s1)"
    by (rule ext) (simp add: st_def nap_def again_def retry_def split: prod.split sum.split jsnum.split)
  moreover have "leaves \<dots>"
    by (rule leaves_try) (rule leaves_create [OF Suc.prems] leaves_ret leaves_if leaves_throw rest)+
  ultimately show ?case by simp
qed (simp add: leaves_ret)

lemma leaves_release: "solo w \<Longrightarrow> leaves (release w h)"
  unfolding release_def by (intro leaves_intros)

lemma release_runs: "\<exists>s'. release w h s = (Inr (), s')"
  by (auto simp: release_def bnd_def catch_def seqn_def readLockToken_def best_effort_def split: prod.split sum.split)

text \<open>The handle of the lock is the one this process created at some attempt.\<close>

lemma acquire_handle: "acquire c w n left s = (Inr (Some h), s') \<Longrightarrow> snd h \<in> range (w_inode w)"
proof (induction left arbitrary: n s)
  case (Suc left)
  obtain r s1 where 1: "create_lock w n s = (r, s1)" by fastforce
  show ?case
  proof (cases r)
    case (Inl e)
    show ?thesis
      using Suc.prems Suc.IH unfolding acquire.simps 1 Inl
      by (auto simp: seqn_def bnd_def best_effort_def upd_def
          split: if_splits prod.splits sum.splits jsnum.splits)
  next
    case (Inr a)
    then have "snd a = w_inode w n"
      using 1 by (auto simp: create_lock_def seqn_def bnd_def catch_def best_effort_def
          split: prod.splits sum.splits)
    then show ?thesis using Suc.prems 1 Inr by simp
  qed
qed simp

lemma withLock_cases:
  assumes "solo w" and "withLock c w fn s = (r, s')"
  obtains (busy) e where "r = Inl e" "lock_only s s'"
  | (held) h s1 s2 where "lock_only s s1" "fn h s1 = (r, s2)" "lock_only s2 s'" "snd h \<in> range (w_inode w)"
proof -
  obtain a s1 where a: "acquire c w 0 (lockAttempts c) s = (a, s1)" "lock_only s s1"
    using leaves_acquire [OF assms(1)] by (metis leaves_def prod.collapse)
  show thesis
  proof (cases a)
    case (Inl e)
    then show thesis using a assms(2) busy by (auto simp: withLock_def bnd_def)
  next
    case (Inr held_opt)
    show thesis
    proof (cases held_opt)
      case None
      then show thesis using a Inr assms(2) busy by (auto simp: withLock_def bnd_def)
    next
      case (Some h)
      obtain r1 s2 where f: "fn h s1 = (r1, s2)" by fastforce
      obtain s3 where rel: "release w h s2 = (Inr (), s3)" using release_runs by blast
      then have "lock_only s2 s3" using leaves_release [OF assms(1)] by (metis leaves_def snd_conv)
      moreover have "(r, s') = (r1, s3)"
        using assms(2) a Inr Some f rel by (simp add: withLock_def bnd_def finally_do_def)
      ultimately show thesis using held [OF a(2)] f acquire_handle [of c w 0 "lockAttempts c" s h s1] a(1) Inr Some
        by auto
    qed
  qed
qed

text \<open>The ledger a file stands for.\<close>

definition ledger_in :: "dl_config \<Rightarrow> file_content \<Rightarrow> rate_error + charge_ledger" where
  "ledger_in c f =
     (case f of
        Missing \<Rightarrow> Inr []
      | Unreadable code \<Rightarrow> if code = ''ENOENT'' then Inr [] else Inl (Io_error code)
      | Corrupt \<Rightarrow> Inl (Store_error ''rate-limit ledger: corrupt (unparseable JSON)'')
      | Json v \<Rightarrow> parseLedger v (maxKeys c))"

lemma ledger_in_ok: "ledger_in c f = Inr l \<Longrightarrow> ledger_ok (maxKeys c) l"
  by (auto simp: ledger_in_def ledger_ok_def entries_ok_def split: file_content.splits if_splits
      dest: parseLedger_ok [unfolded ledger_ok_def entries_ok_def])

lemma load_cases:
  assumes "solo w" and "loadLedgerUnlocked c w s = (r, s')"
  shows "lock_only s s'"
    and "r = Inr loaded \<Longrightarrow> ledger_in c (dk_file (disk s)) = Inr (case loaded of None \<Rightarrow> [] | Some l \<Rightarrow> l)"
proof -
  have "leaves (loadLedgerUnlocked c w)"
    unfolding loadLedgerUnlocked_def
    by (rule leaves_bnd, intro leaves_intros assms(1))
      (auto simp: leaves_def bnd_def lift_sum_def split: option.split sum.split)
  then show "lock_only s s'" using assms(2) by (metis leaves_def snd_conv)
  have d: "dk_file (w_other w Read_ledger (disk s)) = dk_file (disk s)" "w_fault w Read_ledger \<noteq> Some ''ENOENT''"
    using assms(1) by (simp_all add: solo_def)
  show "ledger_in c (dk_file (disk s)) = Inr (case loaded of None \<Rightarrow> [] | Some l \<Rightarrow> l)" if "r = Inr loaded"
    using assms(2) d that unfolding loadLedgerUnlocked_def ledger_in_def
    by (auto simp: bnd_def catch_def fs_call_def Let_def split: option.splits sum.splits file_content.splits if_splits)
qed

text \<open>All but the durability note and the lock.\<close>

definition kept_fields :: "dstore \<Rightarrow> dstore \<Rightarrow> bool" where
  "kept_fields s s' = (degraded s' = degraded s \<and> identityNote s' = identityNote s \<and>
     commitUnreliable s' = commitUnreliable s)"

lemma soloD:
  "solo w \<Longrightarrow> dk_file (w_other w p d) = dk_file d" "solo w \<Longrightarrow> dk_tmp (w_other w p d) = dk_tmp d"
  by (simp_all add: solo_def)

lemma write_temp_cases:
  assumes "solo w" and "write_temp w l s = (r, s')"
  shows "dk_file (disk s') = dk_file (disk s) \<and> kept_fields s s' \<and>
    (r = Inr () \<longrightarrow> dk_tmp (disk s') = Json (serializeLedger l))"
  using assms unfolding write_temp_def
  by (auto simp: finally_do_def seqn_def bnd_def fs_call_def change_def Let_def kept_fields_def soloD
      split: option.splits prod.splits sum.splits)

lemma rename_owned_cases:
  assumes "solo w" and "rename_owned w h s = (r, s')"
  shows "kept_fields s s' \<and> (\<forall>e. r = Inl e \<longrightarrow> dk_file (disk s') = dk_file (disk s)) \<and>
    (r = Inr () \<longrightarrow> dk_file (disk s') = dk_tmp (disk s))"
  using assms unfolding rename_owned_def
  by (auto simp: seqn_def bnd_def fs_call_def change_def Let_def kept_fields_def soloD
      split: option.splits prod.splits sum.splits if_splits)

lemma saveLedger_cases:
  assumes "solo w" and "saveLedger w h l s = (r, s')"
  shows "kept_fields s s' \<and> (\<forall>e. r = Inl e \<longrightarrow> dk_file (disk s') = dk_file (disk s)) \<and>
    (r = Inr () \<longrightarrow> dk_file (disk s') = Json (serializeLedger l))"
proof -
  define cr where "cr = fs_call w Create_temp (\<lambda>d. if dk_tmp d = Missing then (Inr (), d\<lparr>dk_tmp := Corrupt\<rparr>)
             else (Inl (Io_error ''EEXIST''), d))"
  define body where "body = seqn (write_temp w l) (rename_owned w h)"
  define undo :: "rate_error \<Rightarrow> unit dl" where "undo = (\<lambda>e. seqn (best_effort (fs_call w Remove_temp (change (\<lambda>d. d\<lparr>dk_tmp := Missing\<rparr>)))) (throw e))"
  define sync :: "unit dl" where "sync = catch (seqn (fs_call w Fsync_dir (change (\<lambda>d. d))) (upd (\<lambda>s. s\<lparr>durability := None\<rparr>)))
        (\<lambda>e. upd (\<lambda>s. s\<lparr>durability :=
           Some ''rate-limit ledger: committed, but the directory fsync failed''\<rparr>))"
  have save: "saveLedger w h l = seqn cr (seqn (catch body undo) sync)"
    by (simp add: saveLedger_def cr_def body_def undo_def sync_def)
  obtain r1 s1 where 1: "cr s = (r1, s1)" by fastforce
  then have f1: "dk_file (disk s1) = dk_file (disk s)" "kept_fields s s1"
    using assms(1) by (auto simp: cr_def fs_call_def Let_def kept_fields_def soloD split: option.splits if_splits)
  obtain rw sw where w: "write_temp w l s1 = (rw, sw)" by fastforce
  note fw = write_temp_cases [OF assms(1) w]
  obtain r2 s2 where 2: "body s1 = (r2, s2)" by fastforce
  then have f2: "kept_fields s1 s2 \<and> (\<forall>e. r2 = Inl e \<longrightarrow> dk_file (disk s2) = dk_file (disk s1)) \<and>
      (r2 = Inr () \<longrightarrow> dk_file (disk s2) = Json (serializeLedger l))"
  proof (cases rw)
    case (Inl e)
    then show ?thesis using 2 fw by (auto simp: body_def seqn_def bnd_def w)
  next
    case (Inr u)
    obtain rr sr where rr: "rename_owned w h sw = (rr, sr)" by fastforce
    have "(r2, s2) = (rr, sr)" using 2 Inr by (simp add: body_def seqn_def bnd_def w rr)
    then show ?thesis using fw Inr rename_owned_cases [OF assms(1) rr] by (simp add: kept_fields_def)
  qed
  have undo: "\<exists>s4. undo e s3 = (Inl e, s4) \<and> dk_file (disk s4) = dk_file (disk s3) \<and> kept_fields s3 s4" for e s3
    using assms(1) by (auto simp: undo_def seqn_def bnd_def best_effort_def fs_call_def change_def Let_def
        kept_fields_def soloD split: option.splits)
  have sync: "\<exists>s4. sync s3 = (Inr (), s4) \<and> dk_file (disk s4) = dk_file (disk s3) \<and> kept_fields s3 s4" for s3
    using assms(1) by (auto simp: sync_def seqn_def bnd_def catch_def upd_def fs_call_def change_def Let_def
        kept_fields_def soloD split: option.splits)
  obtain s4 where s4: "sync s2 = (Inr (), s4)" "dk_file (disk s4) = dk_file (disk s2)" "kept_fields s2 s4"
    using sync by blast
  show ?thesis
  proof (cases r1)
    case (Inl e)
    then show ?thesis using assms(2) 1 f1 by (auto simp: save seqn_def bnd_def)
  next
    case r1: (Inr u)
    show ?thesis
    proof (cases r2)
      case (Inl e)
      obtain s5 where "undo e s2 = (Inl e, s5)" "dk_file (disk s5) = dk_file (disk s2)" "kept_fields s2 s5"
        using undo by blast
      then show ?thesis using assms(2) 1 r1 2 Inl f1 f2
        by (auto simp: save seqn_def bnd_def catch_def kept_fields_def)
    next
      case (Inr u2)
      then show ?thesis using assms(2) 1 r1 2 f1 f2 s4
        by (auto simp: save seqn_def bnd_def catch_def kept_fields_def)
    qed
  qed
qed

text \<open>A commit of this world can reach its end.\<close>

definition can_commit :: "world \<Rightarrow> bool" where
  "can_commit w = (\<exists>h l s s'. snd h \<in> range (w_inode w) \<and> saveLedger w h l s = (Inr (), s'))"

lemma commit_decision_cases:
  assumes "solo w" and "commit_decision w h d s = (r, s')"
  shows "commitUnreliable s' = commitUnreliable s"
    and "(\<forall>l. d \<noteq> Write l) \<or> r = Inr False \<or> (\<exists>e. r = Inl e) \<Longrightarrow> dk_file (disk s') = dk_file (disk s)"
    and "d = Write l \<Longrightarrow> r = Inr x \<Longrightarrow> x \<and> dk_file (disk s') = Json (serializeLedger l) \<and>
      (snd h \<in> range (w_inode w) \<longrightarrow> can_commit w)"
    and "d = Already \<Longrightarrow> r = Inr True" and "d = Refuse m \<Longrightarrow> r = Inr False"
proof -
  have saved: "commitUnreliable s' = commitUnreliable s \<and>
      (\<forall>e. r = Inl e \<longrightarrow> dk_file (disk s') = dk_file (disk s)) \<and> r \<noteq> Inr False \<and>
      (r = Inr True \<longrightarrow> dk_file (disk s') = Json (serializeLedger l) \<and>
        (snd h \<in> range (w_inode w) \<longrightarrow> can_commit w))" if d: "d = Write l" for l
  proof -
    obtain ra sa where a: "assertHolder w h s = (ra, sa)" by fastforce
    have "leaves (assertHolder w h)"
      unfolding assertHolder_def by (intro leaves_intros assms(1))
    then have la: "lock_only s sa" using a by (metis leaves_def snd_conv)
    obtain rb sb where b: "saveLedger w h l sa = (rb, sb)" by fastforce
    have "snd h \<in> range (w_inode w) \<longrightarrow> can_commit w" if "rb = Inr ()"
      using b that unfolding can_commit_def by blast
    then show ?thesis
      using assms(2) a b la saveLedger_cases [OF assms(1) b] unfolding d
      by (cases ra; cases rb) (auto simp: commit_decision_def seqn_def bnd_def lock_only_def kept_fields_def)
  qed
  have other: "commitUnreliable s' = commitUnreliable s \<and> dk_file (disk s') = dk_file (disk s) \<and>
      r = Inr (d = Already)" if "\<forall>l. d \<noteq> Write l"
    using assms(2) that
    by (cases d) (auto simp: commit_decision_def set_degraded_def upd_def seqn_def bnd_def split: option.splits)
  show "commitUnreliable s' = commitUnreliable s"
    and "(\<forall>l. d \<noteq> Write l) \<or> r = Inr False \<or> (\<exists>e. r = Inl e) \<Longrightarrow> dk_file (disk s') = dk_file (disk s)"
    and "d = Write l \<Longrightarrow> r = Inr x \<Longrightarrow> x \<and> dk_file (disk s') = Json (serializeLedger l) \<and>
      (snd h \<in> range (w_inode w) \<longrightarrow> can_commit w)"
    and "d = Already \<Longrightarrow> r = Inr True" and "d = Refuse m \<Longrightarrow> r = Inr False"
    using saved other by (cases d; cases x; auto)+
qed

section \<open>What each operation does to the ledger\<close>

lemma record_decision_cases:
  assumes c: "config_ok c" and l: "ledger_ok (maxKeys c) (case loaded of None \<Rightarrow> [] | Some l \<Rightarrow> l)"
    and k: "KEY_PATTERN key" and now: "0 \<le> now" "now \<le> max_safe_integer"
    and r: "record_decision c key now loaded = r"
  obtains (already) "r = Inr Already"
  | (written) l' where "r = Inr (Write l')"
      "charged_ledger c {key} \<lparr>ev_at = now, ev_id = None\<rparr> (case loaded of None \<Rightarrow> [] | Some l \<Rightarrow> l) l'"
proof -
  let ?ev = "\<lparr>ev_at = now, ev_id = None\<rparr>"
  have ev: "event_ok ?ev" using now by (simp add: event_ok_def)
  have kept: "kept_charge now (retentionMs c) (idempotencyRetentionMs c) ?ev"
    using c by (simp add: kept_charge_def config_ok_def)
  have one: "charges_ok [?ev]" using ev by (simp add: charges_ok_def ascending_def)
  show thesis
  proof (cases loaded)
    case None
    have "charged_ledger c {key} ?ev [] [(key, [?ev])]"
      using c k one kept unfolding charged_ledger_def Let_def
      by (auto simp: ledger_ok_def entries_ok_def charges_of_def config_ok_def)
    then show thesis using r [symmetric] written None by (simp add: record_decision_def Let_def)
  next
    case (Some l)
    have l: "entries_ok l" "length l \<le> maxKeys c" using assms(2) Some by (simp_all add: ledger_ok_def)
    show thesis
    proof (cases "map_of l key")
      case None
      let ?l2 = "AList.update key [?ev] l"
      have l2: "entries_ok ?l2" by (rule entries_ok_update [OF l(1) k one])
      have m: "set (charges_of ?l2 j) = set (charges_of l j) \<union> (if j \<in> set [key] then {?ev} else {})" for j
        using None by (simp add: charges_of_def)
      have same: "charges_of ?l2 j = charges_of l j" if "j \<notin> set [key]" for j
        using that by (simp add: charges_of_def)
      obtain l3 where "evictToCap ?l2 (maxKeys c) [key] = Inr l3"
        "length l3 \<le> maxKeys c \<or> length l3 \<le> length (remdups [key])"
        "length l3 \<le> maxKeys c \<Longrightarrow> charged_ledger c (set [key]) ?ev l
           (pruneLedger (ev_at ?ev) (retentionMs c) (idempotencyRetentionMs c) l3)"
        using evict_prune [OF c l(1) l2 m same refl] by blast
      then show thesis using c r Some None written by (auto simp: record_decision_def Let_def config_ok_def)
    next
      case old: (Some cs)
      note cs = entries_okD [OF l(1) old]
      show thesis
      proof (cases "insertCharge cs ?ev")
        case None
        then show thesis using r Some old already by (simp add: record_decision_def Let_def)
      next
        case new: (Some cs')
        have cs': "charges_ok cs'" "set cs' = insert ?ev (set cs)"
          using insertCharge_Some [OF _ ev new] cs by blast+
        let ?l2 = "AList.update key cs' l"
        have l2: "entries_ok ?l2" by (rule entries_ok_update [OF l(1) k cs'(1)])
        have m: "set (charges_of ?l2 j) = set (charges_of l j) \<union> (if j \<in> set [key] then {?ev} else {})" for j
          using old cs'(2) by (auto simp: charges_of_def)
        have same: "charges_of ?l2 j = charges_of l j" if "j \<notin> set [key]" for j
          using that by (simp add: charges_of_def)
        have len: "length ?l2 \<le> maxKeys c"
          using l(2) old by (metis AList_keys_update domI dom_map_of_conv_image_fst length_map set_map)
        then have "evictToCap ?l2 (maxKeys c) [key] = Inr ?l2" by (simp add: evictToCap_def)
        then have "charged_ledger c {key} ?ev l
            (pruneLedger now (retentionMs c) (idempotencyRetentionMs c) ?l2)"
          using evict_prune [OF c l(1) l2 m same refl] len by auto
        then show thesis using r [symmetric] Some old new written by (simp add: record_decision_def Let_def)
      qed
    qed
  qed
qed

text \<open>The lock-held part that \<open>record\<close> and \<open>consumeScopesAtomically\<close> share.\<close>

lemma locked_commit_cases:
  assumes "solo w"
    and "\<And>loaded s1 s2. pre s1 = (Inr (), s2) \<Longrightarrow> dk_file (disk s2) = dk_file (disk s1) \<and>
       commitUnreliable s2 = commitUnreliable s1" and "\<And>s1. \<exists>s2. pre s1 = (Inr (), s2)"
    and "withLock c w (\<lambda>h. bnd (loadLedgerUnlocked c w) (\<lambda>loaded. seqn pre
           (bnd (lift_sum (decide loaded)) (commit_decision w h)))) s = (r, s')"
  obtains (failed) e where "r = Inl e" "dk_file (disk s') = dk_file (disk s)"
  | (decided) loaded d where "ledger_in c (dk_file (disk s)) = Inr (case loaded of None \<Rightarrow> [] | Some l \<Rightarrow> l)"
      "decide loaded = Inr d" "r = Inr (\<forall>m. d \<noteq> Refuse m)" "commitUnreliable s' = commitUnreliable s"
      "dk_file (disk s') = (case d of Write l \<Rightarrow> Json (serializeLedger l) | _ \<Rightarrow> dk_file (disk s))"
      "\<And>l. d = Write l \<Longrightarrow> can_commit w"
  using assms(1) assms(4)
proof (rule withLock_cases)
  fix e assume "r = Inl e" "lock_only s s'"
  then show thesis using failed by (simp add: lock_only_def)
next
  fix h s1 s5
  assume a: "lock_only s s1" "lock_only s5 s'" "snd h \<in> range (w_inode w)"
    and run: "bnd (loadLedgerUnlocked c w) (\<lambda>loaded. seqn pre
           (bnd (lift_sum (decide loaded)) (commit_decision w h))) s1 = (r, s5)"
  obtain rl s2 where l: "loadLedgerUnlocked c w s1 = (rl, s2)" by fastforce
  note load = load_cases [OF assms(1) l]
  have fl: "dk_file (disk s2) = dk_file (disk s)" "commitUnreliable s2 = commitUnreliable s"
    using a(1) load(1) by (simp_all add: lock_only_def)
  show thesis
  proof (cases rl)
    case (Inl e)
    then show thesis using failed [of e] run l fl a(2) by (simp add: bnd_def lock_only_def)
  next
    case (Inr loaded)
    obtain s3 where p: "pre s2 = (Inr (), s3)" using assms(3) by blast
    note pf = assms(2) [OF p]
    have L: "ledger_in c (dk_file (disk s)) = Inr (case loaded of None \<Rightarrow> [] | Some l \<Rightarrow> l)"
      using load(2) [OF Inr] a(1) by (simp add: lock_only_def)
    show thesis
    proof (cases "decide loaded")
      case (Inl e)
      then show thesis using failed [of e] run l Inr p pf fl a(2) by (simp add: bnd_def seqn_def lock_only_def)
    next
      case d: (Inr d)
      have c: "commit_decision w h d s3 = (r, s5)"
        using run l Inr p d by (simp add: bnd_def seqn_def)
      note cd = commit_decision_cases [OF assms(1) c]
      show thesis
      proof (cases r)
        case (Inl e)
        then show thesis using failed cd(2) pf fl a(2) by (simp add: lock_only_def)
      next
        case (Inr x)
        have x: "x = (\<forall>m. d \<noteq> Refuse m)" using cd(3-5) Inr by (cases d) auto
        have "dk_file (disk s') = (case d of Write l \<Rightarrow> Json (serializeLedger l) | _ \<Rightarrow> dk_file (disk s))"
          using cd(2,3) Inr pf fl a(2) by (cases d) (auto simp: lock_only_def)
        moreover have "can_commit w" if "d = Write l" for l
          using cd(3) [OF that Inr] a(3) by blast
        ultimately show thesis using decided [OF L d] Inr x cd(1) pf fl a(2) by (simp add: lock_only_def)
      qed
    qed
  qed
qed

lemma latch_Inl:
  "m s = (Inl e, s1) \<Longrightarrow> latch_on_error m s = (r, s') \<Longrightarrow>
    r = Inl e \<and> disk s' = disk s1 \<and> commitUnreliable s'"
  by (auto simp: latch_on_error_def catch_def seqn_def bnd_def upd_def)

lemma latch_Inr: "m s = (Inr x, s1) \<Longrightarrow> latch_on_error m s = (Inr x, s1)"
  by (simp add: latch_on_error_def catch_def)

lemma record_cases:
  assumes "solo w" and "config_ok c" and "record_at c w key now s = (r, s')"
  obtains (failed) e where "r = Inl e" "dk_file (disk s') = dk_file (disk s)"
  | (already) l where "r = Inr ()" "ledger_in c (dk_file (disk s)) = Inr l" "dk_file (disk s') = dk_file (disk s)"
  | (written) k t l l' where "r = Inr ()" "key = JStr k" "js_instant now = Some t" "ledger_in c (dk_file (disk s)) = Inr l"
      "charged_ledger c {k} \<lparr>ev_at = t, ev_id = None\<rparr> l l'" "dk_file (disk s') = Json (serializeLedger l')"
      "can_commit w"
proof (cases "\<exists>k t. key = JStr k \<and> KEY_PATTERN k \<and> js_instant now = Some t")
  case False
  then show thesis using assms(3) failed
    by (auto simp: record_at_def split: jsval.splits if_splits option.splits)
next
  case True
  then obtain k t where kt: "key = JStr k" "KEY_PATTERN k" "js_instant now = Some t" by blast
  let ?body = "withLock c w (\<lambda>h. bnd (loadLedgerUnlocked c w) (\<lambda>loaded. seqn (set_degraded None)
      (bnd (lift_sum (record_decision c k t loaded)) (commit_decision w h))))"
  have run: "latch_on_error (seqn ?body healthy) s = (r, s')"
    using assms(3) kt by (simp add: record_at_def)
  obtain r1 s1 where b: "?body s = (r1, s1)" by fastforce
  from assms(1) _ _ b show thesis
  proof (rule locked_commit_cases)
    show "\<exists>s2. set_degraded None s1 = (Inr (), s2)" for s1
      by (simp add: set_degraded_def upd_def)
    show "dk_file (disk s2) = dk_file (disk s1) \<and> commitUnreliable s2 = commitUnreliable s1"
      if "set_degraded None s1 = (Inr (), s2)" for s1 s2
      using that by (auto simp: set_degraded_def upd_def)
    fix e assume "r1 = Inl e" "dk_file (disk s1) = dk_file (disk s)"
    then show thesis using failed [of e] latch_Inl [OF _ run, of e s1] b by (simp add: seqn_def bnd_def)
  next
    fix loaded d
    assume d: "ledger_in c (dk_file (disk s)) = Inr (case loaded of None \<Rightarrow> [] | Some l \<Rightarrow> l)"
      "record_decision c k t loaded = Inr d" "r1 = Inr (\<forall>m. d \<noteq> Refuse m)"
      "dk_file (disk s1) = (case d of Write l \<Rightarrow> Json (serializeLedger l) | _ \<Rightarrow> dk_file (disk s))"
      "\<And>l. d = Write l \<Longrightarrow> can_commit w"
    have out: "r = Inr ()" "disk s' = disk s1"
      using run b d(3) by (auto simp: latch_on_error_def catch_def seqn_def bnd_def upd_def healthy_def)
    show thesis
    proof (rule record_decision_cases [OF assms(2) ledger_in_ok [OF d(1)] kt(2) _ _ d(2)])
      show "0 \<le> t" "t \<le> max_safe_integer" using js_instant_bounds [OF kt(3)] by simp_all
      assume "Inr d = Inr Already"
      then show thesis using already d out by simp
    next
      fix l' assume "Inr d = Inr (Write l')" "charged_ledger c {k} \<lparr>ev_at = t, ev_id = None\<rparr>
        (case loaded of None \<Rightarrow> [] | Some l \<Rightarrow> l) l'"
      then show thesis using written d out kt by simp
    qed
  qed
qed

definition note_and_clear :: "string option \<Rightarrow> unit dl" where
  "note_and_clear digest = seqn (set_degraded None) (note_identity digest)"

lemma note_and_clear: "\<exists>s'. note_and_clear digest s = (Inr (), s') \<and> disk s' = disk s \<and>
    commitUnreliable s' = commitUnreliable s"
  by (simp add: note_and_clear_def set_degraded_def note_identity_def upd_def seqn_def bnd_def)

lemma seqn_note: "seqn (set_degraded None) (seqn (note_identity digest) m) = seqn (note_and_clear digest) m"
  by (simp add: note_and_clear_def seqn_assoc)

lemma js_digest_ok: "config_ok c \<Longrightarrow> js_digest c v = Some d \<Longrightarrow> ID_PATTERN d"
  by (auto simp: js_digest_def config_ok_def split: jsval.splits if_splits)

lemma consume_cases:
  assumes w: "solo w" and c: "config_ok c" and run: "consumeScopesAtomically c w scopes now rid s = (r, s')"
  obtains (failed) e where "r = Inl e" "dk_file (disk s') = dk_file (disk s)" "commitUnreliable s'"
  | (denied) "r = Inr False" "dk_file (disk s') = dk_file (disk s)" "commitUnreliable s' = commitUnreliable s"
      "\<And>t raw scs. js_instant now = Some t \<Longrightarrow> scopes = JArr raw \<Longrightarrow> validate_scopes c raw = Inr scs \<Longrightarrow>
        \<exists>l why. ledger_in c (dk_file (disk s)) = Inr l \<and> consume_decision c scs t (js_digest c rid) l = Inr (Refuse why)"
  | (already) raw scs l where "r = Inr True" "dk_file (disk s') = dk_file (disk s)" "\<not> commitUnreliable s'"
      "scopes = JArr raw" "validate_scopes c raw = Inr scs" "ledger_in c (dk_file (disk s)) = Inr l"
      "\<And>sc. sc \<in> set scs \<Longrightarrow> \<exists>ch \<in> set (charges_of l (vs_key sc)). ev_id ch = js_digest c rid"
  | (written) raw scs t l l' where "r = Inr True" "\<not> commitUnreliable s'"
      "scopes = JArr raw" "validate_scopes c raw = Inr scs" "js_instant now = Some t"
      "ledger_in c (dk_file (disk s)) = Inr l"
      "charged_ledger c (vs_key ` set scs) \<lparr>ev_at = t, ev_id = js_digest c rid\<rparr> l l'"
      "dk_file (disk s') = Json (serializeLedger l')"
      "\<And>sc. sc \<in> set scs \<Longrightarrow> int (window_count (charges_of l (vs_key sc)) (vs_windowMs sc) t) < vs_limit sc"
      "\<And>sc d. sc \<in> set scs \<Longrightarrow> js_digest c rid = Some d \<Longrightarrow> \<not> carries d (charges_of l (vs_key sc))"
      "consume_decision c scs t (js_digest c rid) l = Inr (Write l')" "can_commit w"
proof (cases "\<exists>t raw scs. js_instant now = Some t \<and> scopes = JArr raw \<and> validate_scopes c raw = Inr scs")
  case False
  then have "r = Inr False \<and> disk s' = disk s \<and> commitUnreliable s' = commitUnreliable s"
    using run by (auto simp: consumeScopesAtomically_def set_degraded_def upd_def seqn_def bnd_def
        split: option.splits jsval.splits sum.splits)
  then show thesis by (intro denied) (use False in auto)
next
  case True
  then obtain t raw scs where v: "js_instant now = Some t" "scopes = JArr raw" "validate_scopes c raw = Inr scs"
    by blast
  let ?dig = "js_digest c rid"
  let ?decide = "\<lambda>loaded. consume_decision c scs t ?dig (case loaded of None \<Rightarrow> [] | Some l \<Rightarrow> l)"
  let ?body = "withLock c w (\<lambda>h. bnd (loadLedgerUnlocked c w) (\<lambda>loaded. seqn (note_and_clear ?dig)
      (bnd (lift_sum (?decide loaded)) (commit_decision w h))))"
  have run: "latch_on_error (bnd ?body (\<lambda>ok. if ok then seqn healthy (ret True) else ret False)) s = (r, s')"
    using run v by (simp add: consumeScopesAtomically_def seqn_note)
  obtain r1 s1 where b: "?body s = (r1, s1)" by fastforce
  from w _ _ b show thesis
  proof (rule locked_commit_cases)
    show "\<exists>s2. note_and_clear ?dig s1 = (Inr (), s2)" for s1
      using note_and_clear [of ?dig s1] by blast
    show "dk_file (disk s2) = dk_file (disk s1) \<and> commitUnreliable s2 = commitUnreliable s1"
      if "note_and_clear ?dig s1 = (Inr (), s2)" for s1 s2
      using that note_and_clear [of ?dig s1] by auto
    fix e assume "r1 = Inl e" "dk_file (disk s1) = dk_file (disk s)"
    then show thesis using failed [of e] latch_Inl [OF _ run, of e s1] b by (simp add: bnd_def)
  next
    fix loaded :: "charge_ledger option" and d
    let ?l = "case loaded of None \<Rightarrow> [] | Some l \<Rightarrow> l"
    assume d: "ledger_in c (dk_file (disk s)) = Inr ?l" "?decide loaded = Inr d" "r1 = Inr (\<forall>m. d \<noteq> Refuse m)"
      "commitUnreliable s1 = commitUnreliable s"
      "dk_file (disk s1) = (case d of Write l \<Rightarrow> Json (serializeLedger l) | _ \<Rightarrow> dk_file (disk s))"
      "\<And>l. d = Write l \<Longrightarrow> can_commit w"
    have out: "r = r1" "disk s' = disk s1" "commitUnreliable s' = (if r1 = Inr True then False else commitUnreliable s)"
      using run b d(3,4) by (auto simp: latch_on_error_def catch_def seqn_def bnd_def upd_def healthy_def split: if_splits)
    have l: "entries_ok ?l" using ledger_in_ok [OF d(1)] by (simp add: ledger_ok_def)
    have t: "0 \<le> t" "t \<le> max_safe_integer" using js_instant_bounds [OF v(1)] by simp_all
    show thesis
    proof (rule consume_decision_cases [OF c l validate_scopes_ok [OF v(3)] t js_digest_ok [OF c] d(2)])
      show "js_digest c rid = Some x \<Longrightarrow> js_digest c rid = Some x" for x .
      fix why assume "Inr d = Inr (Refuse why)"
      then show thesis by (intro denied) (use d v out in auto)
    next
      assume "Inr d = Inr Already"
        "\<And>sc. sc \<in> set scs \<Longrightarrow> \<exists>ch \<in> set (charges_of ?l (vs_key sc)). ev_id ch = ?dig"
      then show thesis using already [OF _ _ _ v(2,3) d(1)] d(3,5) out by auto
    next
      fix l' assume w: "Inr d = Inr (Write l')"
        "charged_ledger c (vs_key ` set scs) \<lparr>ev_at = t, ev_id = ?dig\<rparr> ?l l'"
        "\<And>sc. sc \<in> set scs \<Longrightarrow> int (window_count (charges_of ?l (vs_key sc)) (vs_windowMs sc) t) < vs_limit sc"
        "\<And>sc d. sc \<in> set scs \<Longrightarrow> ?dig = Some d \<Longrightarrow> \<not> carries d (charges_of ?l (vs_key sc))"
      have "r = Inr True" "\<not> commitUnreliable s'" "dk_file (disk s') = Json (serializeLedger l')"
        using w(1) d(3,5) out by auto
      from written [OF this(1,2) v(2,3,1) d(1) w(2) this(3) w(3,4)] show thesis
        using d(2,6) w(1) by simp
    qed
  qed
qed

lemma charged_ledger_reload:
  assumes "charged_ledger c ks ev l l'"
  shows "\<exists>l2. ledger_in c (Json (serializeLedger l')) = Inr l2 \<and> charges_of l2 = charges_of l'"
proof -
  have ok: "ledger_ok (maxKeys c) l'" using assms by (simp add: charged_ledger_def Let_def)
  then have "entries_ok l'" by (simp add: ledger_ok_def)
  then show ?thesis
    using parse_serialize [OF ok] by (auto simp: ledger_in_def charges_of_sort)
qed

lemma charged_ledger_window:
  assumes "charged_ledger c ks ev l l'" and "entries_ok l" and "k \<in> ks"
  shows "window_count (charges_of l' k) win t \<le> Suc (window_count (charges_of l k) win t)"
proof -
  let ?in = "\<lambda>cs. {ch \<in> set cs. of_int (ev_at ch) > of_int t - win \<and> ev_at ch \<le> t}"
  have ok: "entries_ok l'" using assms(1) by (simp add: charged_ledger_def Let_def ledger_ok_def)
  have "set (charges_of l' k) \<subseteq> insert ev (set (charges_of l k))"
    using assms(1,3) by (auto simp: charged_ledger_def Let_def)
  then have "card (?in (charges_of l' k)) \<le> card (insert ev (?in (charges_of l k)))"
    by (intro card_mono) auto
  also have "\<dots> \<le> Suc (card (?in (charges_of l k)))" by (simp add: card_insert_if)
  finally show ?thesis
    by (simp add: window_count_card entries_ok_ascending [OF ok] entries_ok_ascending [OF assms(2)])
qed

lemma charged_ledger_has:
  assumes "charged_ledger c ks ev l l'" and "config_ok c" and "k \<in> ks"
  shows "ev \<in> set (charges_of l' k)"
proof -
  have "kept_charge (ev_at ev) (retentionMs c) (idempotencyRetentionMs c) ev"
    using assms(2) by (simp add: kept_charge_def config_ok_def split: option.split)
  then show ?thesis using assms(1,3) by (auto simp: charged_ledger_def Let_def)
qed

lemma validate_scope_js:
  "validate_scope c (scope_js sc) = Inr v \<Longrightarrow>
    \<exists>q. vs_key v = sc_key sc \<and> sc_windowMs sc = Fin (vs_windowMs v) \<and> sc_limit sc = Fin q \<and> vs_limit v = \<lfloor>q\<rfloor>"
  by (auto simp: validate_scope_def scope_js_def js_window_def split: if_splits jsnum.splits)

lemma validate_scopes_js:
  "validate_scopes c (map scope_js scopes) = Inr scs \<Longrightarrow> sc \<in> set scopes \<Longrightarrow>
    \<exists>v q. v \<in> set scs \<and> vs_key v = sc_key sc \<and> sc_windowMs sc = Fin (vs_windowMs v) \<and>
      sc_limit sc = Fin q \<and> vs_limit v = \<lfloor>q\<rfloor>"
proof (induction scopes arbitrary: scs)
  case (Cons s scopes)
  then obtain v rest where v: "validate_scope c (scope_js s) = Inr v"
    "validate_scopes c (map scope_js scopes) = Inr rest" "scs = v # rest"
    by (auto split: sum.splits)
  show ?case
  proof (cases "sc = s")
    case True
    then show ?thesis using validate_scope_js [OF v(1)] v(3) by auto
  next
    case False
    then show ?thesis using Cons.IH [OF v(2)] Cons.prems(2) v(3) by auto
  qed
qed simp

lemma count_cases:
  assumes "solo w" and "countInWindow_durable c w key win now s = (r, s')"
  shows "dk_file (disk s') = dk_file (disk s)"
    and "r = Inr deny \<or> (\<exists>k q t l. key = JStr k \<and> win = JNum (Fin q) \<and> js_instant now = Some t \<and>
      ledger_in c (dk_file (disk s)) = Inr l \<and> r = Inr (js_nat (window_count (charges_of l k) q t)))"
proof -
  have "dk_file (disk s') = dk_file (disk s) \<and> (r = Inr deny \<or> (\<exists>k q t l. key = JStr k \<and> win = JNum (Fin q) \<and>
      js_instant now = Some t \<and> ledger_in c (dk_file (disk s)) = Inr l \<and>
      r = Inr (js_nat (window_count (charges_of l k) q t))))"
  proof (cases "\<exists>k q t. key = JStr k \<and> KEY_PATTERN k \<and> js_window win = Some q \<and> js_instant now = Some t \<and>
      \<not> q > of_int (retentionMs c)")
    case False
    then show ?thesis using assms(2)
      by (auto simp: countInWindow_durable_def deny_with_def set_degraded_def upd_def seqn_def bnd_def
          split: jsval.splits if_splits option.splits)
  next
    case True
    then obtain k q t where kq: "key = JStr k" "KEY_PATTERN k" "js_window win = Some q" "js_instant now = Some t"
      "\<not> q > of_int (retentionMs c)" by blast
    have win: "win = JNum (Fin q)" using kq(3) by (auto simp: js_window_def split: jsval.splits jsnum.splits if_splits)
    let ?body = "seqn (probe_lock c w) (bnd (loadLedgerUnlocked c w) (\<lambda>l. seqn (set_degraded None)
        (ret (case l of None \<Rightarrow> Fin 0 | Some l \<Rightarrow> js_nat (window_count (charges_of l k) q t)))))"
    have run: "catch ?body (\<lambda>e. seqn (set_degraded (Some (err_message e))) (ret deny)) s = (r, s')"
      using assms(2) kq by (simp add: countInWindow_durable_def)
    obtain rp s1 where p: "probe_lock c w s = (rp, s1)" by fastforce
    have f1: "dk_file (disk s1) = dk_file (disk s)"
    proof (cases "commitUnreliable s")
      case False
      then show ?thesis using p by (simp add: probe_lock_def)
    next
      case True
      obtain rl sl where wl: "withLock c w (\<lambda>h. ret ()) s = (rl, sl)" by fastforce
      have "lock_only s sl" using assms(1) wl
      proof (rule withLock_cases)
        fix h s2 s3 assume "lock_only s s2" "ret () s2 = (rl, s3)" "lock_only s3 sl"
        then show ?thesis by (auto intro: lock_only_trans)
      qed
      then show ?thesis using p True wl
        by (cases rl) (auto simp: probe_lock_def seqn_def bnd_def upd_def lock_only_def)
    qed
    obtain rl s2 where l: "loadLedgerUnlocked c w s1 = (rl, s2)" by fastforce
    note load = load_cases [OF assms(1) l]
    have f2: "dk_file (disk s2) = dk_file (disk s)" using load(1) f1 by (simp add: lock_only_def)
    show ?thesis
    proof (cases rp)
      case (Inl e)
      then show ?thesis using run p f1
        by (auto simp: catch_def seqn_def bnd_def set_degraded_def upd_def)
    next
      case rp: (Inr u)
      show ?thesis
      proof (cases rl)
        case (Inl e)
        then show ?thesis using run p rp l f2
          by (auto simp: catch_def seqn_def bnd_def set_degraded_def upd_def)
      next
        case (Inr loaded)
        have "ledger_in c (dk_file (disk s)) = Inr (case loaded of None \<Rightarrow> [] | Some l \<Rightarrow> l)"
          using load(2) [OF Inr] f1 by simp
        moreover have "r = Inr (case loaded of None \<Rightarrow> Fin 0 | Some l \<Rightarrow> js_nat (window_count (charges_of l k) q t))"
          "dk_file (disk s') = dk_file (disk s)"
          using run p rp l Inr f2 by (auto simp: catch_def seqn_def bnd_def set_degraded_def upd_def)
        ultimately show ?thesis using kq win
          by (cases loaded) (auto simp: js_nat_def window_count_def charges_of_def)
      qed
    qed
  qed
  then show "dk_file (disk s') = dk_file (disk s)"
    and "r = Inr deny \<or> (\<exists>k q t l. key = JStr k \<and> win = JNum (Fin q) \<and> js_instant now = Some t \<and>
      ledger_in c (dk_file (disk s)) = Inr l \<and> r = Inr (js_nat (window_count (charges_of l k) q t)))"
    by blast+
qed

lemma probe_leaves: "solo w \<Longrightarrow> leaves (isRequestCharged c w scopes rid)"
  unfolding isRequestCharged_def
  by (intro leaves_if leaves_catch leaves_bnd leaves_ret) (metis leaves_def load_cases(1) prod.collapse)+

text \<open>A life of the store: operations of this process, each with what the world does during it.\<close>

datatype dl_op =
    Op_count world jsval jsval jsval
  | Op_probe world "rate_scope list" string
  | Op_record world jsval jsval
  | Op_consume world jsval jsval jsval

fun op_world :: "dl_op \<Rightarrow> world" where
  "op_world (Op_count w key win now) = w"
| "op_world (Op_probe w scopes rid) = w"
| "op_world (Op_record w key now) = w"
| "op_world (Op_consume w scopes now rid) = w"

fun perform_op :: "dl_config \<Rightarrow> dl_op \<Rightarrow> dstore \<Rightarrow> dstore" where
  "perform_op c (Op_count w key win now) s = snd (countInWindow_durable c w key win now s)"
| "perform_op c (Op_probe w scopes rid) s = snd (isRequestCharged c w scopes rid s)"
| "perform_op c (Op_record w key now) s = snd (record_at c w key now s)"
| "perform_op c (Op_consume w scopes now rid) s = snd (consumeScopesAtomically c w scopes now rid s)"

text \<open>The instant of a commit, and the keys it may add.\<close>

fun op_instant :: "dl_op \<Rightarrow> int option" where
  "op_instant (Op_record w key now) = js_instant now"
| "op_instant (Op_consume w scopes now rid) = js_instant now"
| "op_instant op = None"

fun op_keys :: "dl_config \<Rightarrow> dl_op \<Rightarrow> string set" where
  "op_keys c (Op_record w key now) = (case key of JStr k \<Rightarrow> {k} | _ \<Rightarrow> {})"
| "op_keys c (Op_consume w scopes now rid) =
     (case scopes of
        JArr raw \<Rightarrow> (case validate_scopes c raw of Inr scs \<Rightarrow> vs_key ` set scs | Inl e \<Rightarrow> {})
      | _ \<Rightarrow> {})"
| "op_keys c op = {}"

text \<open>Every operation leaves the file alone or commits one charge on its keys at its instant.\<close>

lemma perform_op_cases:
  assumes "solo (op_world op)" and "config_ok c"
  obtains (same) "dk_file (disk (perform_op c op s)) = dk_file (disk s)"
  | (commit) l l' t i where "ledger_in c (dk_file (disk s)) = Inr l" "op_instant op = Some t"
      "charged_ledger c (op_keys c op) \<lparr>ev_at = t, ev_id = i\<rparr> l l'"
      "dk_file (disk (perform_op c op s)) = Json (serializeLedger l')"
proof (cases op)
  case (Op_count w key win now)
  then show thesis using same count_cases(1) [OF _ prod.collapse [symmetric]] assms(1) by simp
next
  case (Op_probe w scopes rid)
  then have "lock_only s (perform_op c op s)"
    using probe_leaves [of w] assms(1) by (simp add: leaves_def)
  then show thesis using same by (simp add: lock_only_def)
next
  case (Op_record w key now)
  obtain r s' where run: "record_at c w key now s = (r, s')" by fastforce
  have w: "solo w" using assms(1) Op_record by simp
  show thesis
    by (rule record_cases [OF w assms(2) run]) (use same commit Op_record run in auto)
next
  case (Op_consume w scopes now rid)
  obtain r s' where run: "consumeScopesAtomically c w scopes now rid s = (r, s')" by fastforce
  have w: "solo w" using assms(1) Op_consume by simp
  show thesis
    by (rule consume_cases [OF w assms(2) run]) (use same commit Op_consume run in auto)
qed

lemma perform_op_loadable:
  assumes "solo (op_world op)" and "config_ok c" and "ledger_in c (dk_file (disk s)) = Inr l"
  shows "\<exists>l'. ledger_in c (dk_file (disk (perform_op c op s))) = Inr l'"
  using assms(1,2)
proof (rule perform_op_cases [of op c s])
  assume "dk_file (disk (perform_op c op s)) = dk_file (disk s)"
  then show ?thesis using assms(3) by simp
next
  fix l l' t i assume "charged_ledger c (op_keys c op) \<lparr>ev_at = t, ev_id = i\<rparr> l l'"
    "dk_file (disk (perform_op c op s)) = Json (serializeLedger l')"
  then show ?thesis using charged_ledger_reload by metis
qed

section \<open>Properties\<close>

text \<open>C6: A multi-scope request is all or nothing and within every limit. Whatever file operation
  fails and whatever happens to the lock file, a request that is not admitted leaves the ledger file
  as it was, and one that threw latches the store. An admitted request leaves a ledger that loads,
  and either every scope already carried its charge and the file is untouched, or every scope was
  under its limit before, is within it after, and holds the new charge.\<close>

theorem consume_all_or_nothing:
  assumes "new_store h opts = Inr c" and "\<And>x. ID_PATTERN (h x)" and "solo w"
    and "consumeScopesAtomically c w (JArr (map scope_js scopes)) (JNum now) rid s = (r, s')"
  shows "(r \<noteq> Inr True \<longrightarrow> dk_file (disk s') = dk_file (disk s)) \<and>
    ((\<exists>e. r = Inl e) \<longrightarrow> commitUnreliable s') \<and>
    (r = Inr True \<longrightarrow> (\<exists>l l'. ledger_in c (dk_file (disk s)) = Inr l \<and>
      ledger_in c (dk_file (disk s')) = Inr l' \<and>
      (dk_file (disk s') = dk_file (disk s) \<and>
         (\<forall>sc \<in> set scopes. \<exists>ch \<in> set (charges_of l (sc_key sc)). ev_id ch = js_digest c rid) \<or>
       (\<exists>t. now = Fin (of_int t) \<and> (\<forall>sc \<in> set scopes. \<exists>q win.
         sc_limit sc = Fin q \<and> sc_windowMs sc = Fin win \<and>
         window_count (charges_of l (sc_key sc)) win t < nat \<lfloor>q\<rfloor> \<and>
         window_count (charges_of l' (sc_key sc)) win t \<le> nat \<lfloor>q\<rfloor> \<and>
         \<lparr>ev_at = t, ev_id = js_digest c rid\<rparr> \<in> set (charges_of l' (sc_key sc)))))))"
proof -
  have c: "config_ok c" using assms(1,2) by (rule new_store_ok)
  from assms(3) c assms(4) show ?thesis
  proof (rule consume_cases)
    assume "r = Inr False" "dk_file (disk s') = dk_file (disk s)"
    then show ?thesis by simp
  next
    fix e assume "r = Inl e" "dk_file (disk s') = dk_file (disk s)" "commitUnreliable s'"
    then show ?thesis by simp
  next
    fix raw scs l assume a: "r = Inr True" "dk_file (disk s') = dk_file (disk s)"
      "JArr (map scope_js scopes) = JArr raw" "validate_scopes c raw = Inr scs"
      "ledger_in c (dk_file (disk s)) = Inr l"
      "\<And>sc. sc \<in> set scs \<Longrightarrow> \<exists>ch \<in> set (charges_of l (vs_key sc)). ev_id ch = js_digest c rid"
    have "\<exists>ch \<in> set (charges_of l (sc_key sc)). ev_id ch = js_digest c rid" if sc: "sc \<in> set scopes" for sc
    proof -
      obtain v where "v \<in> set scs" "vs_key v = sc_key sc"
        using validate_scopes_js [OF _ sc, of c scs] a(3,4) by auto
      then show ?thesis using a(6) by metis
    qed
    then show ?thesis using a(1,2,5) by auto
  next
    fix raw scs t l l' assume a: "r = Inr True" "JArr (map scope_js scopes) = JArr raw"
      "validate_scopes c raw = Inr scs" "js_instant (JNum now) = Some t" "ledger_in c (dk_file (disk s)) = Inr l"
      "charged_ledger c (vs_key ` set scs) \<lparr>ev_at = t, ev_id = js_digest c rid\<rparr> l l'"
      "dk_file (disk s') = Json (serializeLedger l')"
      "\<And>sc. sc \<in> set scs \<Longrightarrow> int (window_count (charges_of l (vs_key sc)) (vs_windowMs sc) t) < vs_limit sc"
    have now: "now = Fin (of_int t)"
      using a(4) by (auto simp: js_instant_def split: option.splits if_splits dest: safe_int_Some)
    have l: "entries_ok l" using ledger_in_ok [OF a(5)] by (simp add: ledger_ok_def)
    obtain l2 where l2: "ledger_in c (dk_file (disk s')) = Inr l2" "charges_of l2 = charges_of l'"
      using charged_ledger_reload [OF a(6)] a(7) by auto
    have "\<exists>q win. sc_limit sc = Fin q \<and> sc_windowMs sc = Fin win \<and>
         window_count (charges_of l (sc_key sc)) win t < nat \<lfloor>q\<rfloor> \<and>
         window_count (charges_of l2 (sc_key sc)) win t \<le> nat \<lfloor>q\<rfloor> \<and>
         \<lparr>ev_at = t, ev_id = js_digest c rid\<rparr> \<in> set (charges_of l2 (sc_key sc))" if sc: "sc \<in> set scopes" for sc
    proof -
      obtain v q where v: "v \<in> set scs" "vs_key v = sc_key sc" "sc_windowMs sc = Fin (vs_windowMs v)"
        "sc_limit sc = Fin q" "vs_limit v = \<lfloor>q\<rfloor>"
        using validate_scopes_js [OF _ sc, of c scs] a(2,3) by auto
      have k: "sc_key sc \<in> vs_key ` set scs" using v(1,2) by (metis imageI)
      have lt: "window_count (charges_of l (sc_key sc)) (vs_windowMs v) t < nat \<lfloor>q\<rfloor>"
        using a(8) [OF v(1)] v(2,5) by (simp add: zless_nat_eq_int_zless)
      then have "window_count (charges_of l2 (sc_key sc)) (vs_windowMs v) t \<le> nat \<lfloor>q\<rfloor>"
        using charged_ledger_window [OF a(6) l k, of "vs_windowMs v" t] by (simp add: l2(2))
      then show ?thesis using v(3,4) lt charged_ledger_has [OF a(6) c k] by (simp add: l2(2))
    qed
    then show ?thesis using a(1,5) l2(1) now by blast
  qed
qed

definition sample_hash :: "string \<Rightarrow> string" where
  "sample_hash x = replicate 64 CHR ''a''"

definition sample_options :: dl_options where
  "sample_options = \<lparr>opt_filePath = ''l.json'', opt_retentionMs = None, opt_idempotencyRetentionMs = None,
     opt_maxKeys = Some (Fin 2), opt_lockStaleMs = None, opt_lockAttempts = Some (Fin 1),
     opt_lockRetryDelayMs = None\<rparr>"

definition sample_config :: dl_config where
  "sample_config = \<lparr>filePath = ''l.json'', lockPath = ''l.json.lock'', retentionMs = 86400000,
     idempotencyRetentionMs = 604800000, maxKeys = 2, lockStaleMs = 30000, lockAttempts = 1,
     lockRetryDelayMs = 25, sha = sample_hash\<rparr>"

text \<open>Nobody else is active and nothing fails.\<close>

definition calm :: world where
  "calm = \<lparr>w_other = (\<lambda>p d. d), w_fault = (\<lambda>p. None), w_clock = (\<lambda>n. Fin 0), w_token = (\<lambda>n. ''1 a''),
     w_inode = (\<lambda>n. 7), w_mtime = (\<lambda>n. 0)\<rparr>"

definition fresh_store :: "file_content \<Rightarrow> dstore" where
  "fresh_store f = \<lparr>degraded = None, durability = None, identityNote = None, commitUnreliable = False,
     slept = [], disk = \<lparr>dk_file = f, dk_tmp = Missing, dk_lock = None\<rparr>\<rparr>"

definition sample_scope :: rate_scope where
  "sample_scope = \<lparr>sc_key = ''pr:1'', sc_limit = Fin 2, sc_windowMs = Fin 1000\<rparr>"

definition sample_ledger :: charge_ledger where
  "sample_ledger = [(''pr:1'', [\<lparr>ev_at = 500, ev_id = Some (sample_hash '''')\<rparr>])]"

lemma sample_new_store: "new_store sample_hash sample_options = Inr sample_config"
  by (simp add: new_store_def sample_options_def sample_config_def positive_option_def)

lemma sample_hash_ok: "ID_PATTERN (sample_hash x)"
  by (simp add: sample_hash_def ID_PATTERN_def all_of_def is_hex_def list_all_iff)

lemma calm_solo: "solo calm"
  by (simp add: solo_def calm_def)

text \<open>What a redelivery relies on: every scope of the request holds the charge of digest \<open>d\<close> made at
  \<open>t\<close>, and the scopes on record are among \<open>U\<close>.\<close>

definition charge_kept :: "dl_config \<Rightarrow> string set \<Rightarrow> string set \<Rightarrow> string \<Rightarrow> int \<Rightarrow> dstore \<Rightarrow> bool" where
  "charge_kept c U ks d t s = (\<exists>l. ledger_in c (dk_file (disk s)) = Inr l \<and> fst ` set l \<subseteq> U \<and>
     (\<forall>k \<in> ks. \<exists>ch \<in> set (charges_of l k). ev_id ch = Some d \<and> ev_at ch = t))"

lemma charge_kept_step:
  assumes c: "config_ok c" and w: "solo (op_world op)" and kept: "charge_kept c U ks d t s"
    and U: "finite U" "card U \<le> maxKeys c" "op_keys c op \<subseteq> U"
    and horizon: "\<And>u. op_instant op = Some u \<Longrightarrow> u < t + idempotencyRetentionMs c"
  shows "charge_kept c U ks d t (perform_op c op s)"
  using w c
proof (rule perform_op_cases [of op c s])
  assume "dk_file (disk (perform_op c op s)) = dk_file (disk s)"
  then show ?thesis using kept by (simp add: charge_kept_def)
next
  fix l l' u i
  assume a: "ledger_in c (dk_file (disk s)) = Inr l" "op_instant op = Some u"
    "charged_ledger c (op_keys c op) \<lparr>ev_at = u, ev_id = i\<rparr> l l'"
    "dk_file (disk (perform_op c op s)) = Json (serializeLedger l')"
  have l: "fst ` set l \<subseteq> U" and held: "\<And>k. k \<in> ks \<Longrightarrow> \<exists>ch \<in> set (charges_of l k). ev_id ch = Some d \<and> ev_at ch = t"
    using kept a(1) by (auto simp: charge_kept_def)
  have ok: "entries_ok l" using ledger_in_ok [OF a(1)] by (simp add: ledger_ok_def)
  obtain l2 where l2: "ledger_in c (dk_file (disk (perform_op c op s))) = Inr l2" "charges_of l2 = charges_of l'"
    using charged_ledger_reload [OF a(3)] a(4) by auto
  have ok2: "entries_ok l2" using ledger_in_ok [OF l2(1)] by (simp add: ledger_ok_def)
  let ?keep = "kept_charge u (retentionMs c) (idempotencyRetentionMs c)"
  have room: "\<not> card (fst ` set l \<union> op_keys c op) > maxKeys c"
    using card_mono [OF U(1), of "fst ` set l \<union> op_keys c op"] l U(2,3) by auto
  have sup: "set (filter ?keep (charges_of l k)) \<subseteq> set (charges_of l' k)" for k
    using a(3) room by (cases "k \<in> op_keys c op") (auto simp: charged_ledger_def Let_def)
  have "\<exists>ch \<in> set (charges_of l2 k). ev_id ch = Some d \<and> ev_at ch = t" if "k \<in> ks" for k
  proof -
    obtain ch where ch: "ch \<in> set (charges_of l k)" "ev_id ch = Some d" "ev_at ch = t" using held [OF \<open>k \<in> ks\<close>] by blast
    then have "?keep ch" using horizon [OF a(2)] by (simp add: kept_charge_def)
    then show ?thesis using ch sup [of k] by (auto simp: l2(2))
  qed
  moreover have "k \<in> U" if "k \<in> fst ` set l2" for k
  proof (cases "k \<in> op_keys c op")
    case True
    then show ?thesis using U(3) by blast
  next
    case False
    have "charges_of l' k \<noteq> []" using charges_of_Nil_iff [OF ok2, of k] that by (simp add: l2(2))
    then have "charges_of l k \<noteq> []" using a(3) False by (auto simp: charged_ledger_def Let_def)
    then show ?thesis using charges_of_Nil_iff [OF ok, of k] l by auto
  qed
  ultimately show ?thesis using l2(1) by (auto simp: charge_kept_def)
qed

lemma op_keys_finite: "finite (op_keys c op)"
  by (cases op) (auto split: jsval.split sum.split)

lemma charge_kept_fold:
  assumes "config_ok c" and "charge_kept c U ks d t s" and "finite U" and "card U \<le> maxKeys c"
    and "\<And>op. op \<in> set ops \<Longrightarrow> solo (op_world op) \<and> op_keys c op \<subseteq> U \<and>
      (\<forall>u. op_instant op = Some u \<longrightarrow> u < t + idempotencyRetentionMs c)"
  shows "charge_kept c U ks d t (fold (perform_op c) ops s)"
  using assms(2,5)
proof (induction ops arbitrary: s)
  case (Cons op ops)
  have "charge_kept c U ks d t (perform_op c op s)"
    using Cons.prems(2) [of op] by (intro charge_kept_step [OF assms(1) _ Cons.prems(1) assms(3,4)]) auto
  then have "charge_kept c U ks d t (fold (perform_op c) ops (perform_op c op s))"
    by (rule Cons.IH) (rule Cons.prems(2), simp)
  then show ?case by simp
qed simp

lemma sample_run:
  "fst (consumeScopesAtomically sample_config calm (JArr (map scope_js [sample_scope])) (JNum (Fin 500)) (JStr ''r'')
     (fresh_store Missing)) = Inr True"
  by code_simp

theorem consume_all_or_nothing_witness:
  "\<exists>s' l'. consumeScopesAtomically sample_config calm (JArr (map scope_js [sample_scope])) (JNum (Fin 500)) (JStr ''r'')
      (fresh_store Missing) = (Inr True, s') \<and> ledger_in sample_config (dk_file (disk s')) = Inr l' \<and>
    (charges_of l' ''pr:1'' = [] \<or> window_count (charges_of l' ''pr:1'') 1000 500 \<le> 2)"
proof -
  obtain s' where run: "consumeScopesAtomically sample_config calm (JArr (map scope_js [sample_scope])) (JNum (Fin 500))
      (JStr ''r'') (fresh_store Missing) = (Inr True, s')"
    using sample_run by (metis prod.collapse)
  show ?thesis
    using consume_all_or_nothing [OF sample_new_store sample_hash_ok calm_solo run] run
    by (auto simp: sample_scope_def ledger_in_def fresh_store_def charges_of_def)
qed

text \<open>What becomes of a call whose request the ledger already holds, in terms of its lock and its read.\<close>

definition lock_busy :: "dl_config \<Rightarrow> rate_error" where
  "lock_busy c = Store_error (''rate-limit ledger: commit lock busy ('' @ lockPath c @ '') after '' @
     string_of_nat (lockAttempts c) @ '' attempts'')"

lemma fs_call_fails:
  "fs_call w p act s = (Inl e, s') \<Longrightarrow>
    (\<exists>code. w_fault w p = Some code \<and> e = Io_error code) \<or> (\<exists>d. fst (act d) = Inl e)"
  by (auto simp: fs_call_def Let_def split: option.splits prod.splits) (metis fst_conv)

lemma create_lock_fails:
  assumes "create_lock w n s = (Inl e, s')"
  shows "e = Io_error ''EEXIST'' \<or>
    (\<exists>p \<in> {Create_lock n, Write_token n}. \<exists>code. w_fault w p = Some code \<and> e = Io_error code)"
proof -
  let ?create = "fs_call w (Create_lock n) (\<lambda>d. case dk_lock d of
      Some l \<Rightarrow> (Inl (Io_error ''EEXIST''), d)
    | None \<Rightarrow> (Inr (), d\<lparr>dk_lock := Some \<lparr>lk_content = '''', lk_inode = w_inode w n,
        lk_mtime = w_mtime w n\<rparr>\<rparr>))"
  let ?stamp = "fs_call w (Write_token n) (\<lambda>d.
      (Inr (), d\<lparr>dk_lock := map_option (\<lambda>l. if lk_inode l = w_inode w n
         then l\<lparr>lk_content := w_token w n @ [CHR 0x0A]\<rparr> else l) (dk_lock d)\<rparr>))"
  consider (creating) s1 where "?create s = (Inl e, s1)"
    | (writing) s1 s2 where "?stamp s1 = (Inl e, s2)"
    using assms by (fastforce simp: create_lock_def seqn_def bnd_def catch_def best_effort_def throw_def
        split: prod.splits sum.splits)
  then show ?thesis
  proof cases
    case creating
    from fs_call_fails [OF this] show ?thesis by (auto split: option.splits)
  next
    case writing
    from fs_call_fails [OF this] show ?thesis by auto
  qed
qed

lemma acquire_fails:
  "fst (acquire c w n left s) = Inl e \<Longrightarrow>
    \<exists>p \<in> range Create_lock \<union> range Write_token. \<exists>code. w_fault w p = Some code \<and> e = Io_error code"
proof (induction left arbitrary: n s)
  case (Suc left)
  obtain r s1 where 1: "create_lock w n s = (r, s1)" by fastforce
  show ?case
  proof (cases r)
    case (Inl e')
    show ?thesis
    proof (cases "e' = Io_error ''EEXIST''")
      case False
      then have "e = e'" using Suc.prems 1 Inl by simp
      then show ?thesis using False create_lock_fails [of w n s e' s1] 1 Inl by auto
    next
      case True
      then obtain s2 where "fst (acquire c w (Suc n) left s2) = Inl e"
        using Suc.prems 1 Inl by (auto simp: seqn_def bnd_def best_effort_def upd_def
            split: if_splits prod.splits sum.splits jsnum.splits)
      then show ?thesis by (rule Suc.IH)
    qed
  next
    case (Inr h)
    then show ?thesis using Suc.prems 1 by simp
  qed
qed simp

lemma acquire_free:
  assumes "1 \<le> left" and "dk_lock (w_other w (Create_lock n) (disk s)) = None"
    and "w_fault w (Create_lock n) = None" and "w_fault w (Write_token n) = None"
  shows "fst (acquire c w n left s) = Inr (Some (w_token w n, w_inode w n))"
proof -
  have "fst (create_lock w n s) = Inr (w_token w n, w_inode w n)"
    using assms(2-4) by (simp add: create_lock_def seqn_def bnd_def catch_def fs_call_def Let_def)
  then obtain s1 where "create_lock w n s = (Inr (w_token w n, w_inode w n), s1)" by (metis prod.collapse)
  moreover obtain m where "left = Suc m" using assms(1) by (cases left) auto
  ultimately show ?thesis by simp
qed

lemma load_runs:
  assumes "solo w" and "ledger_in c (dk_file (disk s)) = Inr l"
  shows "w_fault w Read_ledger = Some code \<Longrightarrow> fst (loadLedgerUnlocked c w s) = Inl (Io_error code)"
    and "w_fault w Read_ledger = None \<Longrightarrow>
      \<exists>loaded s'. loadLedgerUnlocked c w s = (Inr loaded, s') \<and> (case loaded of None \<Rightarrow> [] | Some l \<Rightarrow> l) = l"
  using assms
  by (auto simp: loadLedgerUnlocked_def bnd_def catch_def fs_call_def Let_def ledger_in_def lift_sum_def solo_def
      split: file_content.splits sum.splits if_splits option.splits)

lemma fst_latch: "fst (latch_on_error m s) = fst (m s)"
  by (cases "m s"; cases "fst (m s)")
    (auto simp: latch_on_error_def catch_def seqn_def bnd_def upd_def throw_def)

lemma fst_healthy: "fst (bnd m (\<lambda>ok. if ok then seqn healthy (ret True) else ret False) s) = fst (m s)"
  by (cases "m s"; cases "fst (m s)") (auto simp: seqn_def bnd_def healthy_def upd_def)

lemma recognised_outcome:
  assumes w: "solo w" and now: "js_instant now = Some t" and scs: "validate_scopes c raw = Inr scs"
    and l: "ledger_in c (dk_file (disk s)) = Inr l"
    and known: "consume_decision c scs t (js_digest c rid) l = Inr Already"
    and run: "consumeScopesAtomically c w (JArr raw) now rid s = (r, s')"
  shows "r = (case fst (acquire c w 0 (lockAttempts c) s) of
      Inl e \<Rightarrow> Inl e
    | Inr None \<Rightarrow> Inl (lock_busy c)
    | Inr (Some h) \<Rightarrow> (case w_fault w Read_ledger of None \<Rightarrow> Inr True | Some code \<Rightarrow> Inl (Io_error code)))"
proof -
  let ?dig = "js_digest c rid"
  let ?fn = "\<lambda>h. bnd (loadLedgerUnlocked c w) (\<lambda>loaded. seqn (note_and_clear ?dig)
      (bnd (lift_sum (consume_decision c scs t ?dig (case loaded of None \<Rightarrow> [] | Some l \<Rightarrow> l))) (commit_decision w h)))"
  have run: "latch_on_error (bnd (withLock c w ?fn) (\<lambda>ok. if ok then seqn healthy (ret True) else ret False)) s = (r, s')"
    using run now scs by (simp add: consumeScopesAtomically_def seqn_note)
  have "fst (withLock c w ?fn s) = r"
    using arg_cong [OF run, of fst] by (simp only: fst_latch fst_healthy fst_conv)
  moreover have fn: "fst (?fn h s1) = (case w_fault w Read_ledger of None \<Rightarrow> Inr True | Some code \<Rightarrow> Inl (Io_error code))"
    if "dk_file (disk s1) = dk_file (disk s)" for h s1
  proof -
    have l1: "ledger_in c (dk_file (disk s1)) = Inr l" using l that by simp
    show ?thesis
    proof (cases "w_fault w Read_ledger")
      case None
      then obtain loaded s2 where load: "loadLedgerUnlocked c w s1 = (Inr loaded, s2)"
        "(case loaded of None \<Rightarrow> [] | Some l \<Rightarrow> l) = l"
        using load_runs(2) [OF w l1] by blast
      obtain s3 where "note_and_clear ?dig s2 = (Inr (), s3)" using note_and_clear [of ?dig s2] by blast
      then show ?thesis using None load known
        by (simp add: bnd_def seqn_def commit_decision_def lift_sum_def)
    next
      case (Some code)
      then show ?thesis using load_runs(1) [OF w l1 Some]
        by (auto simp: bnd_def split: prod.split sum.split)
    qed
  qed
  moreover obtain a s1 where a: "acquire c w 0 (lockAttempts c) s = (a, s1)" "lock_only s s1"
    using leaves_acquire [OF w] by (metis leaves_def prod.collapse)
  moreover have "fst (finally_do (?fn h) (release w h) s1) = fst (?fn h s1)" for h
  proof -
    obtain r1 s2 where "?fn h s1 = (r1, s2)" by fastforce
    moreover obtain s3 where "release w h s2 = (Inr (), s3)" using release_runs by blast
    ultimately show ?thesis by (simp add: finally_do_def)
  qed
  moreover have "dk_file (disk s1) = dk_file (disk s)" using a(2) by (simp add: lock_only_def)
  ultimately show ?thesis
    by (auto simp: withLock_def bnd_def lock_busy_def throw_def split: sum.splits option.splits)
qed

lemma charge_kept_start:
  assumes "config_ok c" and "charged_ledger c ks \<lparr>ev_at = t, ev_id = Some d\<rparr> l l'"
    and "dk_file (disk s) = Json (serializeLedger l')" and "ledger_in c (dk_file (disk s)) = Inr l1"
    and "fst ` set l1 \<subseteq> U"
  shows "charge_kept c U ks d t s"
proof -
  have "charges_of l1 = charges_of l'"
    using charged_ledger_reload [OF assms(2)] assms(3,4) by auto
  then show ?thesis using charged_ledger_has [OF assms(2,1)] assms(4,5)
    by (auto simp: charge_kept_def intro!: bexI [of _ "\<lparr>ev_at = t, ev_id = Some d\<rparr>"])
qed

lemma kept_recognised:
  assumes "charge_kept c U (vs_key ` set scs) d t s"
  obtains l where "ledger_in c (dk_file (disk s)) = Inr l"
    and "\<And>u. consume_decision c scs u (Some d) l = Inr Already"
proof -
  obtain l where l: "ledger_in c (dk_file (disk s)) = Inr l"
    "\<forall>k \<in> vs_key ` set scs. \<exists>ch \<in> set (charges_of l k). ev_id ch = Some d \<and> ev_at ch = t"
    using assms unfolding charge_kept_def by (elim exE conjE)
  have "carries d (charges_of l (vs_key sc))" if "sc \<in> set scs" for sc
    using l(2) that by (force simp: carries_def list_ex_iff)
  then have "filter (\<lambda>sc. carries d (charges_of l (vs_key sc))) scs = scs"
    by (simp add: filter_id_conv)
  then show ?thesis using that l(1) by (simp add: consume_decision_def chargedScopes_def)
qed

text \<open>C24: A redelivery is recognised. Once a call has charged a request that carries an identity,
  whatever other operations this process performs, with whatever failures and changes of the lock
  file, as long as they stay within the idempotency horizon and no scope has to be evicted, a
  redelivery of the request never changes the ledger and is admitted, however exhausted the limits
  are. The only other outcomes are errors of the file system: the error of a failed creation of the
  lock, of its token write or of the read of the ledger, and the busy error, when every attempt to
  take the lock was lost to another holder. With the lock free and none of the three operations
  failing it is admitted at once.\<close>

theorem redelivery_idempotent:
  assumes "new_store h opts = Inr c" and "\<And>x. ID_PATTERN (h x)" and "request \<noteq> ''''"
    and "solo w" and "js_instant now = Some t"
    and "consumeScopesAtomically c w scopes now (JStr request) s = (Inr True, s1)"
    and "dk_file (disk s1) \<noteq> dk_file (disk s)" and "ledger_in c (dk_file (disk s1)) = Inr l1"
    and "\<And>op. op \<in> set ops \<Longrightarrow> solo (op_world op)"
    and "\<And>op u. op \<in> set ops \<Longrightarrow> op_instant op = Some u \<Longrightarrow> u < t + idempotencyRetentionMs c"
    and "card (fst ` set l1 \<union> \<Union> (op_keys c ` set ops)) \<le> maxKeys c"
    and "solo w2" and "js_instant now2 \<noteq> None"
    and "consumeScopesAtomically c w2 scopes now2 (JStr request) (fold (perform_op c) ops s1) = (r2, s2)"
  shows "let before = fold (perform_op c) ops s1 in
    dk_file (disk s2) = dk_file (disk before) \<and>
    (r2 = Inr True \<or>
     (\<exists>p code. p \<in> {Read_ledger} \<union> range Create_lock \<union> range Write_token \<and> w_fault w2 p = Some code \<and>
        r2 = Inl (Io_error code)) \<or>
     fst (acquire c w2 0 (lockAttempts c) before) = Inr None \<and> r2 = Inl (lock_busy c)) \<and>
    (dk_lock (w_other w2 (Create_lock 0) (disk before)) = None \<and>
     (\<forall>p \<in> {Create_lock 0, Write_token 0, Read_ledger}. w_fault w2 p = None) \<longrightarrow> r2 = Inr True)"
proof -
  have c: "config_ok c" using assms(1,2) by (rule new_store_ok)
  let ?d = "sha c request" and ?U = "fst ` set l1 \<union> \<Union> (op_keys c ` set ops)"
  have dig: "js_digest c (JStr request) = Some ?d" using assms(3) by (simp add: js_digest_def)
  obtain raw scs l l' where a: "scopes = JArr raw" "validate_scopes c raw = Inr scs"
    "charged_ledger c (vs_key ` set scs) \<lparr>ev_at = t, ev_id = Some ?d\<rparr> l l'"
    "dk_file (disk s1) = Json (serializeLedger l')"
    by (rule consume_cases [OF assms(4) c assms(6)]) (use assms(5,7) dig in auto)
  let ?ks = "vs_key ` set scs" and ?s = "fold (perform_op c) ops s1"
  have start: "charge_kept c ?U ?ks ?d t s1"
    by (rule charge_kept_start [OF c a(3,4) assms(8)]) simp
  have "charge_kept c ?U ?ks ?d t ?s"
    by (rule charge_kept_fold [OF c start _ assms(11)]) (use assms(9,10) op_keys_finite in auto)
  from kept_recognised [OF this] obtain l2 where l2: "ledger_in c (dk_file (disk ?s)) = Inr l2"
    and known: "\<And>u. consume_decision c scs u (Some ?d) l2 = Inr Already"
    by metis
  obtain u where u: "js_instant now2 = Some u" using assms(13) by blast
  have same_file: "dk_file (disk s2) = dk_file (disk ?s)"
    using assms(12) c assms(14)
  proof (rule consume_cases)
    fix raw' scs' u' l3 l3' assume "scopes = JArr raw'" "validate_scopes c raw' = Inr scs'"
      "ledger_in c (dk_file (disk ?s)) = Inr l3"
      "consume_decision c scs' u' (js_digest c (JStr request)) l3 = Inr (Write l3')"
    then show ?thesis using known l2 a(1,2) by (simp add: dig)
  qed auto
  note out = recognised_outcome [OF assms(12) u a(2) l2 known [of u, folded dig] assms(14) [unfolded a(1)]]
  have "1 \<le> lockAttempts c" using c by (simp add: config_ok_def)
  note free = acquire_free [OF this]
  show ?thesis
    unfolding Let_def
  proof (intro conjI impI same_file)
    show "r2 = Inr True \<or>
     (\<exists>p code. p \<in> {Read_ledger} \<union> range Create_lock \<union> range Write_token \<and> w_fault w2 p = Some code \<and>
        r2 = Inl (Io_error code)) \<or>
     fst (acquire c w2 0 (lockAttempts c) ?s) = Inr None \<and> r2 = Inl (lock_busy c)"
      using out acquire_fails [of c w2 0 "lockAttempts c" ?s]
      by (auto split: sum.splits option.splits)
    assume "dk_lock (w_other w2 (Create_lock 0) (disk ?s)) = None \<and>
      (\<forall>p \<in> {Create_lock 0, Write_token 0, Read_ledger}. w_fault w2 p = None)"
    then show "r2 = Inr True" using out free [of w2 0 ?s] by auto
  qed
qed

theorem redelivery_idempotent_witness:
  "let s1 = snd (consumeScopesAtomically sample_config calm (JArr [scope_js sample_scope]) (JNum (Fin 500)) (JStr ''r'')
          (fresh_store Missing));
       s2 = perform_op sample_config (Op_record calm (JStr ''pr:1'') (JNum (Fin 600))) s1
   in dk_file (disk (snd (consumeScopesAtomically sample_config calm (JArr [scope_js sample_scope]) (JNum (Fin 700))
       (JStr ''r'') s2))) = dk_file (disk s2) \<and>
      (dk_lock (disk s2) = None \<longrightarrow>
       fst (consumeScopesAtomically sample_config calm (JArr [scope_js sample_scope]) (JNum (Fin 700))
         (JStr ''r'') s2) = Inr True)"
proof -
  let ?r = "consumeScopesAtomically sample_config calm (JArr [scope_js sample_scope]) (JNum (Fin 500)) (JStr ''r'')
      (fresh_store Missing)"
  let ?op = "Op_record calm (JStr ''pr:1'') (JNum (Fin 600))"
  let ?s2 = "perform_op sample_config ?op (snd ?r)"
  have "fst ?r = Inr True" using sample_run by simp
  then have r: "?r = (Inr True, snd ?r)" by (metis prod.collapse)
  have l1: "ledger_in sample_config (dk_file (disk (snd ?r))) = Inr sample_ledger" by code_simp
  have keys: "card (fst ` set sample_ledger \<union> \<Union> (op_keys sample_config ` set [?op])) \<le> maxKeys sample_config"
    by (simp add: sample_ledger_def sample_config_def)
  have ne: "dk_file (disk (snd ?r)) \<noteq> dk_file (disk (fresh_store Missing))"
    using l1 by (auto simp: fresh_store_def ledger_in_def sample_ledger_def)
  have t: "js_instant (JNum (Fin 500)) = Some 500" "js_instant (JNum (Fin 600)) = Some 600"
    "js_instant (JNum (Fin 700)) \<noteq> None"
    by code_simp+
  have op: "solo (op_world op)" if "op \<in> set [?op]" for op
    using that calm_solo by simp
  have horizon: "u < 500 + idempotencyRetentionMs sample_config"
    if "op \<in> set [?op]" "op_instant op = Some u" for op u
    using that t(2) by (auto simp: sample_config_def)
  have calm: "w_fault calm p = None" "w_other calm p d = d" for p d by (simp_all add: calm_def)
  show ?thesis
    using redelivery_idempotent [OF sample_new_store sample_hash_ok _ calm_solo t(1) r ne l1 op horizon keys
        calm_solo t(3) prod.collapse [symmetric]]
    unfolding Let_def calm by simp
qed

text \<open>The ledger file survives. Any ledger the parser accepts, written back, is read as the same
  scopes and charges in key order, and writing that gives the same document; and from a file that
  loads, no sequence of operations of this process, with whatever failures and changes of the lock
  file, makes the file one that a later load refuses.\<close>

theorem ledger_never_bricked:
  assumes "new_store h opts = Inr c" and "\<And>x. ID_PATTERN (h x)"
    and "ledger_in c (dk_file (disk s)) = Inr l" and "\<And>op. op \<in> set ops \<Longrightarrow> solo (op_world op)"
  shows "\<exists>l'. ledger_in c (dk_file (disk (fold (perform_op c) ops s))) = Inr l' \<and>
    parseLedger (serializeLedger l') (maxKeys c) = Inr (sort_key fst l') \<and>
    serializeLedger (sort_key fst l') = serializeLedger l'"
proof -
  have c: "config_ok c" using assms(1,2) by (rule new_store_ok)
  have "\<exists>l'. ledger_in c (dk_file (disk (fold (perform_op c) ops s))) = Inr l'"
    using assms(3,4)
  proof (induction ops arbitrary: s l)
    case (Cons op ops)
    obtain l1 where "ledger_in c (dk_file (disk (perform_op c op s))) = Inr l1"
      using perform_op_loadable [OF _ c Cons.prems(1)] Cons.prems(2) by auto
    then show ?case using Cons.IH Cons.prems(2) by simp
  qed auto
  then obtain l' where l': "ledger_in c (dk_file (disk (fold (perform_op c) ops s))) = Inr l'" by blast
  have ok: "ledger_ok (maxKeys c) l'" by (rule ledger_in_ok [OF l'])
  then have "filter (\<lambda>(key, charges). charges \<noteq> []) l' = l'"
    by (auto simp: ledger_ok_def entries_ok_def list_all_iff charges_ok_def filter_id_conv)
  moreover have "filter (\<lambda>(key, charges). charges \<noteq> []) (sort_key fst l') = sort_key fst l'"
    using ok by (auto simp: ledger_ok_def entries_ok_def list_all_iff charges_ok_def filter_id_conv)
  ultimately have "serializeLedger (sort_key fst l') = serializeLedger l'"
    by (simp add: serializeLedger_def sort_key_id_if_sorted)
  then show ?thesis using l' parse_serialize [OF ok] by blast
qed

theorem ledger_never_bricked_witness:
  "\<exists>l'. ledger_in sample_config (dk_file (disk (fold (perform_op sample_config)
      [Op_record calm (JStr ''pr:1'') (JNum (Fin 600)), Op_record calm (JStr ''pr:2'') (JNum (Fin 1))]
      (fresh_store Missing)))) = Inr l'"
proof -
  have "ledger_in sample_config (dk_file (disk (fresh_store Missing))) = Inr []"
    by (simp add: ledger_in_def fresh_store_def)
  moreover have "solo (op_world op)"
    if "op \<in> set [Op_record calm (JStr ''pr:1'') (JNum (Fin 600)), Op_record calm (JStr ''pr:2'') (JNum (Fin 1))]" for op
    using that calm_solo by auto
  ultimately show ?thesis
    using ledger_never_bricked [OF sample_new_store sample_hash_ok] by blast
qed

lemma bnd_run: "m s = (b, s1) \<Longrightarrow> bnd m k s = (case b of Inl e \<Rightarrow> (Inl e, s1) | Inr x \<Rightarrow> k x s1)"
  by (simp add: bnd_def)

lemma durable_store_simps:
  "rs_countInWindow (durable_store c w) k win now = countInWindow_durable c w (JStr k) (JNum win) (JNum now)"
  "rs_consumeScopesAtomically (durable_store c w) = Some (\<lambda>scopes now rid.
     consumeScopesAtomically c w (JArr (map scope_js scopes)) (JNum now)
       (case rid of None \<Rightarrow> JUndef | Some r \<Rightarrow> JStr r))"
  "rs_isRequestCharged (durable_store c w) = Some (isRequestCharged c w)"
  by (simp_all add: durable_store_def)

lemma deny_stops_file:
  assumes "solo w" and "ledger_in c (dk_file (disk s)) = Inl e"
  shows "\<exists>b s'. check_scopes (durable_store c w) now scopes s = (Inr b, s') \<and> dk_file (disk s') = dk_file (disk s)"
  using assms(2)
proof (induction scopes arbitrary: s)
  case (Cons sc scopes)
  obtain r s1 where run: "countInWindow_durable c w (JStr (sc_key sc)) (JNum (sc_windowMs sc)) (JNum now) s = (r, s1)"
    by fastforce
  have r: "r = Inr deny" and f: "dk_file (disk s1) = dk_file (disk s)"
    using count_cases [OF assms(1) run] Cons.prems by auto
  then obtain b s' where "check_scopes (durable_store c w) now scopes s1 = (Inr b, s')"
    "dk_file (disk s') = dk_file (disk s1)"
    using Cons.IH [of s1] Cons.prems by auto
  then show ?case using run r f by (auto simp: Let_def durable_store_simps bnd_def)
qed (simp, metis)

text \<open>A budget that cannot be proven admits nothing. While the ledger file is unreadable, not
  JSON, or not a ledger within the cap, the planner's decision over the durable store admits no
  request, whatever its scopes, limits, instant and identity, and leaves the file as it is.\<close>

theorem unprovable_budget_denies:
  assumes "new_store h opts = Inr c" and "\<And>x. ID_PATTERN (h x)" and "solo w"
    and "ledger_in c (dk_file (disk s)) = Inl e"
    and "consumeFollowUpBudget (durable_store c w) scopes now rid s = (r, s')"
  shows "r \<noteq> Inr True \<and> dk_file (disk s') = dk_file (disk s)"
proof -
  have c: "config_ok c" using assms(1,2) by (rule new_store_ok)
  let ?rid = "case rid of None \<Rightarrow> JUndef | Some r \<Rightarrow> JStr r"
  let ?consume = "consumeScopesAtomically c w (JArr (map scope_js scopes)) (JNum now) ?rid"
  have consume: "r' \<noteq> Inr True \<and> dk_file (disk s2) = dk_file (disk s)"
    if "?consume s1 = (r', s2)" "dk_file (disk s1) = dk_file (disk s)" for s1 r' s2
    by (rule consume_cases [OF assms(3) c that(1)]) (use that(2) assms(4) in auto)
  have check: "r' \<noteq> Inr True \<and> dk_file (disk s2) = dk_file (disk s)"
    if "bnd (check_scopes (durable_store c w) now scopes) (\<lambda>ok. if ok then ?consume else ret False) s1 = (r', s2)"
      and same: "dk_file (disk s1) = dk_file (disk s)" for s1 r' s2
  proof -
    obtain b s3 where b: "check_scopes (durable_store c w) now scopes s1 = (Inr b, s3)"
      "dk_file (disk s3) = dk_file (disk s1)"
      using deny_stops_file [OF assms(3), of c s1] same assms(4) by metis
    show ?thesis
      using that(1) same b consume [of s3] by (cases b) (auto simp: bnd_def)
  qed
  have probe: "dk_file (disk (snd (isRequestCharged c w scopes x s))) = dk_file (disk s)" for x
    using probe_leaves [OF assms(3)] by (simp add: leaves_def lock_only_def)
  let ?pre = "case (rid, Some (isRequestCharged c w)) of
       (Some rid, Some charged) \<Rightarrow> if rid \<noteq> '''' then charged scopes rid else ret False
     | _ \<Rightarrow> ret False"
  obtain b s1 where b: "?pre s = (b, s1)" by fastforce
  have same: "dk_file (disk s1) = dk_file (disk s)"
  proof -
    have "dk_file (disk (snd (?pre s))) = dk_file (disk s)"
      using probe by (simp split: option.split)
    then show ?thesis by (simp only: b snd_conv)
  qed
  have "consumeFollowUpBudget (durable_store c w) scopes now rid s =
      (case b of Inl e \<Rightarrow> (Inl e, s1)
       | Inr readmit \<Rightarrow> if readmit then ?consume s1
           else bnd (check_scopes (durable_store c w) now scopes) (\<lambda>ok. if ok then ?consume else ret False) s1)"
    unfolding consumeFollowUpBudget_def durable_store_simps option.case
    by (subst bnd_run [where m = ?pre and s = s, OF b]) (simp split: sum.split)
  then have run: "(case b of Inl e \<Rightarrow> (Inl e, s1)
       | Inr readmit \<Rightarrow> if readmit then ?consume s1
           else bnd (check_scopes (durable_store c w) now scopes) (\<lambda>ok. if ok then ?consume else ret False) s1) = (r, s')"
    using assms(5) by simp
  show ?thesis
  proof (cases b)
    case (Inl e)
    then show ?thesis using run same by auto
  next
    case (Inr readmit)
    then show ?thesis using run consume [OF _ same, of r s'] check [OF _ same, of r s'] by (cases readmit) simp_all
  qed
qed

theorem unprovable_budget_denies_witness:
  "fst (consumeFollowUpBudget (durable_store sample_config calm) [sample_scope] (Fin 5) None (fresh_store Corrupt)) \<noteq> Inr True"
proof -
  have "\<exists>e. ledger_in sample_config (dk_file (disk (fresh_store Corrupt))) = Inl e"
    by (simp add: ledger_in_def fresh_store_def)
  then show ?thesis
    using unprovable_budget_denies [OF sample_new_store sample_hash_ok calm_solo _ prod.collapse [symmetric]] by blast
qed

text \<open>A stolen lock never writes. If, when a commit is about to rename, the lock file is gone or
  is another process's (another inode), then neither a \<open>record\<close> nor a multi-scope request changes
  the ledger file, and the only requests still admitted are those that were already charged.\<close>

theorem stolen_lock_never_writes:
  assumes "new_store h opts = Inr c" and "\<And>x. ID_PATTERN (h x)" and "solo w"
    and "\<And>d k n. dk_lock (w_other w Stat_lock d) = Some k \<Longrightarrow> lk_inode k \<noteq> w_inode w n"
  shows "dk_file (disk (snd (record_at c w key now s))) = dk_file (disk s) \<and>
    dk_file (disk (snd (consumeScopesAtomically c w scopes now rid s))) = dk_file (disk s)"
proof -
  have c: "config_ok c" using assms(1,2) by (rule new_store_ok)
  have "rename_owned w h s1 \<noteq> (Inr (), s2)" if "snd h \<in> range (w_inode w)" for h s1 s2
    using that assms(4) unfolding rename_owned_def
    by (auto simp: bnd_def seqn_def fs_call_def Let_def split: option.splits sum.splits prod.splits if_splits)
  then have no: "\<not> can_commit w"
    unfolding can_commit_def saveLedger_def
    by (auto simp: seqn_def bnd_def catch_def best_effort_def split: prod.splits sum.splits)
  have "dk_file (disk s1) = dk_file (disk s)" if "record_at c w key now s = (r, s1)" for r s1
    by (rule record_cases [OF assms(3) c that]) (use no in auto)
  moreover have "dk_file (disk s1) = dk_file (disk s)"
    if "consumeScopesAtomically c w scopes now rid s = (r, s1)" for r s1
    by (rule consume_cases [OF assms(3) c that]) (use no in auto)
  ultimately show ?thesis by (metis prod.collapse)
qed

definition thief :: world where
  "thief = calm\<lparr>w_other := (\<lambda>p d. if p = Stat_lock
     then d\<lparr>dk_lock := Some \<lparr>lk_content = ''2 b'', lk_inode = 8, lk_mtime = 0\<rparr>\<rparr> else d)\<rparr>"

theorem stolen_lock_never_writes_witness:
  "dk_file (disk (snd (record_at sample_config thief (JStr ''pr:1'') (JNum (Fin 5)) (fresh_store Missing)))) = Missing"
proof -
  have "solo thief" by (simp add: thief_def calm_def solo_def)
  moreover have "lk_inode k \<noteq> w_inode thief n" if "dk_lock (w_other thief Stat_lock d) = Some k" for d k n
    using that by (auto simp: thief_def calm_def)
  ultimately have "dk_file (disk (snd (record_at sample_config thief (JStr ''pr:1'') (JNum (Fin 5)) (fresh_store Missing)))) =
      dk_file (disk (fresh_store Missing))"
    using stolen_lock_never_writes [OF sample_new_store sample_hash_ok] by blast
  then show ?thesis by (simp add: fresh_store_def)
qed

text \<open>A request whose charge is on some of its scopes only is refused, not charged again: while
  the ledger holds the identity on one scope of the request and lacks it on another (because the cap
  evicted that scope, or the file was edited), no call admits the request or changes the file.\<close>

theorem partial_charge_refused:
  assumes "new_store h opts = Inr c" and "\<And>x. ID_PATTERN (h x)" and "solo w" and "request \<noteq> ''''"
    and "ledger_in c (dk_file (disk s)) = Inr l"
    and "sc1 \<in> set scopes" and "carries (h request) (charges_of l (sc_key sc1))"
    and "sc2 \<in> set scopes" and "\<not> carries (h request) (charges_of l (sc_key sc2))"
    and "consumeScopesAtomically c w (JArr (map scope_js scopes)) (JNum now) (JStr request) s = (r, s')"
  shows "r \<noteq> Inr True \<and> dk_file (disk s') = dk_file (disk s)"
proof -
  have c: "config_ok c" using assms(1,2) by (rule new_store_ok)
  have "sha c = h" using assms(1) by (auto simp: new_store_def split: if_splits sum.splits)
  then have dig: "js_digest c (JStr request) = Some (h request)" using assms(4) by (simp add: js_digest_def)
  have both: "\<exists>v1 v2. v1 \<in> set scs \<and> v2 \<in> set scs \<and> carries (h request) (charges_of l (vs_key v1)) \<and>
      \<not> carries (h request) (charges_of l (vs_key v2))"
    if "validate_scopes c (map scope_js scopes) = Inr scs" for scs
    using validate_scopes_js [OF that assms(6)] validate_scopes_js [OF that assms(8)] assms(7,9) by metis
  from assms(3) c assms(10) show ?thesis
  proof (rule consume_cases)
    fix raw scs l0 assume a: "JArr (map scope_js scopes) = JArr raw" "validate_scopes c raw = Inr scs"
      "ledger_in c (dk_file (disk s)) = Inr l0"
      "\<And>sc. sc \<in> set scs \<Longrightarrow> \<exists>ch \<in> set (charges_of l0 (vs_key sc)). ev_id ch = js_digest c (JStr request)"
    then show ?thesis using both [of scs] assms(5) by (auto simp: carries_def list_ex_iff dig)
  next
    fix raw scs l0 assume a: "JArr (map scope_js scopes) = JArr raw" "validate_scopes c raw = Inr scs"
      "ledger_in c (dk_file (disk s)) = Inr l0"
      "\<And>sc d. sc \<in> set scs \<Longrightarrow> js_digest c (JStr request) = Some d \<Longrightarrow> \<not> carries d (charges_of l0 (vs_key sc))"
    then show ?thesis using both [of scs] assms(5) by (auto simp: dig)
  qed auto
qed

theorem partial_charge_refused_witness:
  "fst (consumeScopesAtomically sample_config calm
      (JArr (map scope_js [sample_scope, sample_scope\<lparr>sc_key := ''actor:a''\<rparr>])) (JNum (Fin 700)) (JStr ''r'')
      (fresh_store (Json (serializeLedger sample_ledger)))) \<noteq> Inr True"
proof -
  have l: "ledger_in sample_config (dk_file (disk (fresh_store (Json (serializeLedger sample_ledger))))) = Inr sample_ledger"
    by code_simp
  let ?other = "sample_scope\<lparr>sc_key := ''actor:a''\<rparr>"
  have held: "carries (sample_hash ''r'') (charges_of sample_ledger (sc_key sample_scope))"
    and lacks: "\<not> carries (sample_hash ''r'') (charges_of sample_ledger (sc_key ?other))"
    by code_simp+
  have "sample_scope \<in> set [sample_scope, ?other]" "?other \<in> set [sample_scope, ?other]" by simp_all
  from partial_charge_refused [OF sample_new_store sample_hash_ok calm_solo _ l this(1) held this(2) lacks
      prod.collapse [symmetric]]
  show ?thesis by simp
qed

end
