(* ===== verification/Truncate.thy ===== *)
theory Truncate
  imports Utf8
begin

text \<open>
  \<open>truncateClean\<close> of \<^verbatim>\<open>src/corpus/truncate.ts\<close>: cut a section of the corpus to a byte budget at a line
  boundary, close a code fence the cut left open, and append a marker.

  A line is a list of code points. The comparisons of \<open>stripped.length\<close> with \<open>fence.length\<close> count UTF-16
  units in the code and code points here; they are made only together with the equality of \<open>stripped\<close>
  with a repetition of an ASCII character, where the two agree.
\<close>

section \<open>Lines\<close>

abbreviation NL :: nat where "NL \<equiv> 10"

fun split_nl :: "code_points \<Rightarrow> code_points list" where
  "split_nl [] = [[]]"
| "split_nl (c # cs) =
     (if c = NL then [] # split_nl cs
      else (case split_nl cs of [] \<Rightarrow> [[c]] | l # ls \<Rightarrow> (c # l) # ls))"

fun join_nl :: "code_points list \<Rightarrow> code_points" where
  "join_nl [] = []"
| "join_nl [l] = l"
| "join_nl (l # l' # ls) = l @ NL # join_nl (l' # ls)"

definition last_index :: "'a \<Rightarrow> 'a list \<Rightarrow> nat option" where
  "last_index x xs = List.find (\<lambda>i. xs ! i = x) (rev [0..<length xs])"

section \<open>Fences\<close>

definition blank :: "nat \<Rightarrow> bool" where
  "blank c = (c = 32 \<or> c = 9 \<or> c = 13 \<or> c = NL)"

definition strip :: "code_points \<Rightarrow> code_points" where
  "strip line = rev (dropWhile blank (rev (dropWhile blank line)))"

definition fence_match :: "code_points \<Rightarrow> code_points option" where
  "fence_match line =
     (let rest = dropWhile (\<lambda>c. c = 32 \<or> c = 9) line;
          ticks = takeWhile (\<lambda>c. c = 96) rest;
          tildes = takeWhile (\<lambda>c. c = 126) rest in
      if 3 \<le> length ticks then Some ticks
      else if 3 \<le> length tildes then Some tildes else None)"

definition fence_step :: "int \<times> code_points \<Rightarrow> nat \<times> code_points \<Rightarrow> int \<times> code_points" where
  "fence_step st il =
     (case st of (opener, fence) \<Rightarrow> case il of (index, line) \<Rightarrow>
        let stripped = strip line in
        if fence \<noteq> [] then
          (if length fence \<le> length stripped \<and> stripped = replicate (length stripped) (hd fence)
           then (opener, []) else (opener, fence))
        else (case fence_match line of
                Some m \<Rightarrow> (int index, m)
              | None \<Rightarrow> (opener, fence)))"

definition scan_fences :: "code_points list \<Rightarrow> int \<times> code_points" where
  "scan_fences lines = foldl fence_step (-1, []) (enumerate 0 lines)"

text \<open>\<open>while (lines.length > opener && byteLength > room) lines.pop()\<close>; the loop is entered with an
  opener, so never on an index below zero.\<close>

function pop_lines :: "nat \<Rightarrow> int \<Rightarrow> code_points list \<Rightarrow> code_points list" where
  "pop_lines opener room lines =
     (if opener < length lines \<and> room < int (length (encode (join_nl lines)))
      then pop_lines opener room (butlast lines) else lines)"
  by pat_completeness auto
termination
  by (relation "measure (\<lambda>(_, _, lines). length lines)") auto

declare pop_lines.simps [simp del]

section \<open>The cut\<close>

definition dots :: "int \<Rightarrow> bytes" where
  "dots budget = replicate (nat (min budget 3)) 0x2E"

text \<open>The clip \<open>src.subarray(0, max(0, room))\<close>, snapped back to its last newline unless that is its
  first byte.\<close>

definition clip_line :: "bytes \<Rightarrow> int \<Rightarrow> bytes" where
  "clip_line src room =
     (let clip = take (nat room) src in
      case last_index 10 clip of
        Some nl \<Rightarrow> if 0 < nl then take nl clip else clip
      | None \<Rightarrow> clip)"

definition close_fence :: "code_points \<Rightarrow> int \<Rightarrow> code_points" where
  "close_fence text room =
     (let lines = split_nl text; (opener, fence) = scan_fences lines in
      if fence = [] then text
      else
        let kept = pop_lines (nat opener) (room - int (length (encode (NL # fence)))) lines in
        if opener < int (length kept) then join_nl kept @ NL # fence else join_nl kept)"

definition truncateClean :: "bytes \<Rightarrow> int \<Rightarrow> code_points \<Rightarrow> bytes" where
  "truncateClean src maxBytes marker =
     (if int (length src) \<le> maxBytes then src
      else
        let suffix = encode (NL # marker @ [NL]) in
        if maxBytes < int (length suffix) then dots maxBytes
        else
          let room = maxBytes - int (length suffix);
              text = decodeUtf8Ignore (clip_line src room) in
          encode (close_fence text room) @ suffix)"

section \<open>Lines and their text\<close>

lemma split_nl_nonempty [simp]: "split_nl t \<noteq> []"
  by (cases t) (auto split: list.splits)

lemma join_nl_Cons: "ls \<noteq> [] \<Longrightarrow> join_nl (l # ls) = l @ NL # join_nl ls"
  by (cases ls) simp_all

lemma join_split [simp]: "join_nl (split_nl t) = t"
proof (induction t)
  case (Cons c t)
  obtain l ls where s: "split_nl t = l # ls" by (cases "split_nl t") auto
  with Cons show ?case by (cases ls) (auto simp: join_nl_Cons)
qed simp

lemma split_nl_line: "NL \<notin> set l \<Longrightarrow> split_nl l = [l]"
  by (induction l) auto

lemma split_nl_append: "NL \<notin> set l \<Longrightarrow> split_nl (l @ NL # t) = l # split_nl t"
  by (induction l) auto

lemma split_nl_lines: "l \<in> set (split_nl t) \<Longrightarrow> NL \<notin> set l"
proof (induction t arbitrary: l)
  case (Cons c t)
  obtain m ls where s: "split_nl t = m # ls" by (cases "split_nl t") auto
  with Cons show ?case by (auto split: if_splits)
qed simp

lemma split_join: "ls \<noteq> [] \<Longrightarrow> (\<forall>l \<in> set ls. NL \<notin> set l) \<Longrightarrow> split_nl (join_nl ls) = ls"
proof (induction ls rule: join_nl.induct)
  case (3 l l' ls)
  then show ?case by (simp add: split_nl_append)
qed (simp_all add: split_nl_line)

lemma join_nl_append: "xs \<noteq> [] \<Longrightarrow> ys \<noteq> [] \<Longrightarrow> join_nl (xs @ ys) = join_nl xs @ NL # join_nl ys"
  by (induction xs rule: join_nl.induct) (simp_all add: join_nl_Cons)

lemma join_take_length: "length (encode (join_nl (take k ls))) \<le> length (encode (join_nl ls))"
proof (cases "take k ls = [] \<or> drop k ls = []")
  case True
  then show ?thesis by auto
next
  case False
  then have "join_nl (take k ls @ drop k ls) = join_nl (take k ls) @ NL # join_nl (drop k ls)"
    by (intro join_nl_append) auto
  then show ?thesis by simp
qed

lemma pop_lines_take:
  "\<exists>k. pop_lines opener room ls = take k ls \<and> (opener \<le> length ls \<longrightarrow> opener \<le> k) \<and> k \<le> length ls \<and>
     (k \<le> opener \<or> int (length (encode (join_nl (take k ls)))) \<le> room)"
proof (induction opener room ls rule: pop_lines.induct)
  case (1 opener room ls)
  show ?case
  proof (cases "opener < length ls \<and> room < int (length (encode (join_nl ls)))")
    case True
    with 1 obtain k where k: "pop_lines opener room (butlast ls) = take k (butlast ls)"
      "opener \<le> length (butlast ls) \<longrightarrow> opener \<le> k" "k \<le> length (butlast ls)"
      "k \<le> opener \<or> int (length (encode (join_nl (take k (butlast ls))))) \<le> room" by auto
    moreover have "take k (butlast ls) = take k ls" 
      using k(3) True by (simp add: butlast_conv_take)
    ultimately show ?thesis using True
      by (subst pop_lines.simps) (auto intro!: exI [of _ k])
  next
    case False
    then show ?thesis by (subst pop_lines.simps) (auto intro!: exI [of _ "length ls"])
  qed
qed


section \<open>The fence scan\<close>

lemma scan_fences_snoc: "scan_fences (ls @ [l]) = fence_step (scan_fences ls) (length ls, l)"
  by (simp add: scan_fences_def enumerate_append_eq)

lemma scan_fences_Nil [simp]: "scan_fences [] = (-1, [])"
  by (simp add: scan_fences_def)

text \<open>A fence is at least three backticks or at least three tildes.\<close>

definition fence_text :: "code_points \<Rightarrow> bool" where
  "fence_text f = (3 \<le> length f \<and> (f = replicate (length f) 96 \<or> f = replicate (length f) 126))"

lemma takeWhile_replicate: "takeWhile (\<lambda>c. c = a) xs = replicate (length (takeWhile (\<lambda>c. c = a) xs)) a"
  by (induction xs) auto

lemma fence_match_text: "fence_match l = Some f \<Longrightarrow> fence_text f"
  using takeWhile_replicate [of 96] takeWhile_replicate [of 126]
  by (auto simp: fence_match_def fence_text_def Let_def split: if_splits)

lemma fence_textE:
  assumes "fence_text f"
  obtains n c where "f = replicate n c" and "0 < n" and "\<not> blank c"
proof -
  have "\<not> blank 96" "\<not> blank 126" by (simp_all add: blank_def)
  moreover from assms have "0 < length f" and "f = replicate (length f) 96 \<or> f = replicate (length f) 126"
    by (auto simp: fence_text_def)
  ultimately show thesis using that by blast
qed

lemma dropWhile_not_blank: "\<not> blank c \<Longrightarrow> dropWhile blank (replicate n c) = replicate n c"
  by (cases n) simp_all

lemma fence_strip: "fence_text f \<Longrightarrow> strip f = f"
  by (erule fence_textE) (simp add: strip_def dropWhile_not_blank)

lemma fence_text_facts:
  assumes "fence_text f"
  shows "f \<noteq> []" and "NL \<notin> set f" and "replicate (length f) (hd f) = f"
  using assms by (auto elim!: fence_textE simp: blank_def)

text \<open>While a fence is open, the scan remembers the line that opened it: before that line no fence was
  open, and after each line since the fence has been the same.\<close>

lemma scan_fences_open:
  assumes "scan_fences ls = (op, f)" and "f \<noteq> []"
  shows "fence_text f \<and> (\<exists>j < length ls. op = int j \<and> snd (scan_fences (take j ls)) = [] \<and>
    (\<forall>k. j < k \<longrightarrow> scan_fences (take k ls) = (op, f)))"
  using assms
proof (induction ls arbitrary: op f rule: rev_induct)
  case (snoc l ls)
  obtain op0 f0 where s: "scan_fences ls = (op0, f0)" by (cases "scan_fences ls")
  have step: "fence_step (op0, f0) (length ls, l) = (op, f)"
    using snoc.prems(1) by (simp add: scan_fences_snoc s)
  show ?case
  proof (cases "f0 = []")
    case True
    with step snoc.prems(2) have "fence_match l = Some f" "op = int (length ls)"
      by (auto simp: fence_step_def Let_def split: option.splits)
    moreover have "scan_fences (take k (ls @ [l])) = (op, f)" if "length ls < k" for k
      using that snoc.prems(1) by simp
    ultimately show ?thesis using True s fence_match_text
      by (intro conjI exI [of _ "length ls"]) auto
  next
    case False
    with step snoc.prems(2) have eq: "op = op0" "f = f0"
      by (auto simp: fence_step_def Let_def split: if_splits)
    from snoc.IH [OF s False] obtain j where j: "fence_text f0" "j < length ls" "op0 = int j"
      "snd (scan_fences (take j ls)) = []" "\<And>k. j < k \<Longrightarrow> scan_fences (take k ls) = (op0, f0)" by blast
    have "scan_fences (take k (ls @ [l])) = (op, f)" if "j < k" for k
    proof (cases "k \<le> length ls")
      case True
      then show ?thesis using j(5) [OF that] eq by simp
    next
      case False
      then show ?thesis using snoc.prems(1) by simp
    qed
    with j eq show ?thesis by (intro conjI exI [of _ j]) auto
  qed
qed simp

lemma fence_closes:
  assumes "scan_fences ls = (op, f)" and "fence_text f"
  shows "snd (scan_fences (ls @ [f])) = []"
  using assms fence_text_facts [OF assms(2)] by (simp add: scan_fences_snoc fence_step_def fence_strip)

lemma last_index_less: "last_index x xs = Some i \<Longrightarrow> i < length xs \<and> xs ! i = x"
  by (auto simp: last_index_def find_Some_iff rev_nth)

lemma clip_line_length: "length (clip_line src room) \<le> nat room"
  by (auto simp: clip_line_def Let_def min_def split: option.splits)

lemma clip_line_prefix: "\<exists>rest. src = clip_line src room @ rest"
  unfolding clip_line_def Let_def
  by (auto simp: take_take split: option.splits) (metis append_take_drop_id)+

lemma dots_length: "int (length (dots b)) \<le> max 0 b"
  by (auto simp: dots_def)


section \<open>The budget and the fences\<close>

lemma close_fence_length:
  assumes "int (length (encode text)) \<le> room"
  shows "int (length (encode (close_fence text room))) \<le> room"
proof -
  obtain op f where s: "scan_fences (split_nl text) = (op, f)" by (cases "scan_fences (split_nl text)")
  define need where "need = int (length (encode (NL # f)))"
  obtain k where k: "pop_lines (nat op) (room - need) (split_nl text) = take k (split_nl text)"
    "k \<le> length (split_nl text)"
    "k \<le> nat op \<or> int (length (encode (join_nl (take k (split_nl text))))) \<le> room - need"
    using pop_lines_take by blast
  have short: "int (length (encode (join_nl (take k (split_nl text))))) \<le> room"
    using join_take_length [of k "split_nl text"] assms by simp
  show ?thesis
  proof (cases "f = []")
    case True
    with s assms show ?thesis by (simp add: close_fence_def)
  next
    case False
    from scan_fences_open [OF s False] have "0 \<le> op" by auto
    with k(3) have fits: "int (length (encode (join_nl (take k (split_nl text))))) + need \<le> room" if "op < int k"
      using that by linarith
    have "close_fence text room =
        (if op < int k then join_nl (take k (split_nl text)) @ NL # f else join_nl (take k (split_nl text)))"
      using False s k(1,2) by (simp add: close_fence_def need_def Let_def)
    then show ?thesis using short fits by (simp add: need_def)
  qed
qed

lemma close_fence_closed: "snd (scan_fences (split_nl (close_fence text room))) = []"
proof -
  define ls where "ls = split_nl text"
  obtain op f where s: "scan_fences ls = (op, f)" by (cases "scan_fences ls")
  define room' where "room' = room - int (length (encode (NL # f)))"
  show ?thesis
  proof (cases "f = []")
    case True
    with s show ?thesis by (simp add: close_fence_def ls_def)
  next
    case False
    from scan_fences_open [OF s False] obtain j where f: "fence_text f" and j: "j < length ls" "op = int j"
      "snd (scan_fences (take j ls)) = []" "\<And>k. j < k \<Longrightarrow> scan_fences (take k ls) = (op, f)" by blast
    obtain k where k: "pop_lines j room' ls = take k ls" "j \<le> length ls \<longrightarrow> j \<le> k" "k \<le> length ls"
      using pop_lines_take by blast
    have lines: "\<forall>l \<in> set (take k ls). NL \<notin> set l"
      using split_nl_lines by (auto simp: ls_def dest: in_set_takeD)
    have close: "close_fence text room =
        (if j < k then join_nl (take k ls) @ NL # f else join_nl (take k ls))"
      using False s k(1,3) j(2) by (simp add: close_fence_def room'_def ls_def Let_def)
    show ?thesis
    proof (cases "j < k")
      case True
      then have ne: "take k ls \<noteq> []" using k(3) by auto
      then have "join_nl (take k ls) @ NL # f = join_nl (take k ls @ [f])" by (simp add: join_nl_append)
      then have "split_nl (close_fence text room) = take k ls @ [f]"
        using True close lines fence_text_facts(2) [OF f] by (simp add: split_join)
      with fence_closes [OF j(4) [OF True] f] show ?thesis by simp
    next
      case False
      with k(2) j(1) have [simp]: "k = j" by simp
      show ?thesis
      proof (cases "take j ls = []")
        case True
        then have "close_fence text room = []" using close by (simp del: take_eq_Nil)
        then show ?thesis by (simp add: scan_fences_def fence_step_def fence_match_def)
      next
        case False
        then have "split_nl (close_fence text room) = take j ls" using close lines by (simp add: split_join)
        then show ?thesis using j(3) by simp
      qed
    qed
  qed
qed

lemma truncateClean_length: "int (length (truncateClean src maxBytes marker)) \<le> max 0 maxBytes"
proof -
  define suffix where "suffix = encode (NL # marker @ [NL])"
  define room where "room = maxBytes - int (length suffix)"
  consider "int (length src) \<le> maxBytes" | "\<not> int (length src) \<le> maxBytes" "maxBytes < int (length suffix)"
    | "\<not> int (length src) \<le> maxBytes" "int (length suffix) \<le> maxBytes" "0 \<le> room"
    unfolding room_def by linarith
  then show ?thesis
  proof cases
    case 3
    have "int (length (encode (decodeUtf8Ignore (clip_line src room)))) \<le> room"
      using reencode_length [of "clip_line src room"] clip_line_length [of src room] 3(3) by linarith
    from close_fence_length [OF this] 3 show ?thesis
      by (simp add: truncateClean_def suffix_def room_def Let_def)
  qed (use dots_length [of maxBytes] in \<open>auto simp: truncateClean_def suffix_def Let_def\<close>)
qed

section \<open>What is kept of the source\<close>

lemma last_index_None: "last_index x xs = None \<Longrightarrow> x \<notin> set xs"
  by (auto simp: last_index_def find_None_iff in_set_conv_nth)

lemma last_index_split:
  assumes "last_index x xs = Some i"
  shows "xs = take i xs @ x # drop (Suc i) xs" and "x \<notin> set (drop (Suc i) xs)"
proof -
  note at = last_index_less [OF assms]
  then show "xs = take i xs @ x # drop (Suc i) xs" using id_take_nth_drop [of i xs] by simp
  show "x \<notin> set (drop (Suc i) xs)"
  proof
    assume "x \<in> set (drop (Suc i) xs)"
    then obtain k where k: "k < length xs - Suc i" "xs ! (Suc i + k) = x"
      by (auto simp: in_set_conv_nth)
    from assms obtain n where n: "n < length xs" "rev [0..<length xs] ! n = i"
      "\<forall>m < n. xs ! (rev [0..<length xs] ! m) \<noteq> x"
      by (auto simp: last_index_def find_Some_iff)
    then have "i = length xs - Suc n" by (simp add: rev_nth)
    moreover define m where "m = length xs - Suc (Suc i + k)"
    ultimately have "m < n" "rev [0..<length xs] ! m = Suc i + k"
      using n(1) k(1) by (simp_all add: rev_nth)
    then show False using n(3) k(2) by metis
  qed
qed

text \<open>The cut of the source at the last line boundary within \<open>room\<close> bytes: everything before the last
  newline of these bytes, or all of them when they hold no newline but as their first byte.\<close>

definition line_cut :: "bytes \<Rightarrow> nat \<Rightarrow> bytes \<Rightarrow> bool" where
  "line_cut src room head \<longleftrightarrow>
     (\<exists>tail. take room src = head @ 10 # tail \<and> head \<noteq> [] \<and> 10 \<notin> set tail) \<or>
     head = take room src \<and> 10 \<notin> set (tl head)"

lemma clip_line_cut: "line_cut src (nat room) (clip_line src room)"
proof -
  let ?clip = "take (nat room) src"
  show ?thesis
  proof (cases "last_index 10 ?clip")
    case None
    then have "10 \<notin> set ?clip" by (rule last_index_None)
    then have "10 \<notin> set (tl ?clip)" by (cases ?clip) auto
    then show ?thesis using None by (simp add: line_cut_def clip_line_def)
  next
    case (Some i)
    note split = last_index_split [OF Some]
    show ?thesis
    proof (cases "0 < i")
      case True
      then have "take i ?clip \<noteq> []" using last_index_less [OF Some] by (cases ?clip) auto
      then show ?thesis using True Some split unfolding line_cut_def clip_line_def Let_def by auto
    next
      case False
      then have "tl ?clip = drop (Suc i) ?clip" by (simp add: drop_Suc)
      then show ?thesis using False Some split(2) by (simp add: line_cut_def clip_line_def)
    qed
  qed
qed

lemma pop_lines_longest:
  "length (pop_lines opener room ls) < length ls \<Longrightarrow>
    room < int (length (encode (join_nl (take (Suc (length (pop_lines opener room ls))) ls))))"
proof (induction opener room ls rule: pop_lines.induct)
  case (1 opener room ls)
  show ?case
  proof (cases "opener < length ls \<and> room < int (length (encode (join_nl ls)))")
    case True
    then have pop: "pop_lines opener room ls = pop_lines opener room (butlast ls)"
      by (subst pop_lines.simps) simp
    let ?n = "length (pop_lines opener room (butlast ls))"
    obtain k where "pop_lines opener room (butlast ls) = take k (butlast ls)"
      using pop_lines_take by blast
    then have le: "?n \<le> length (butlast ls)" by simp
    show ?thesis
    proof (cases "?n < length (butlast ls)")
      case shorter: True
      then have "take (Suc ?n) (butlast ls) = take (Suc ?n) ls"
        by (simp add: butlast_conv_take)
      then show ?thesis using "1.IH" [OF True shorter] unfolding pop by simp
    next
      case False
      moreover have "0 < length ls" using True by linarith
      ultimately have "Suc ?n = length ls" using le by simp
      then show ?thesis using True unfolding pop by simp
    qed
  next
    case False
    then have "pop_lines opener room ls = ls" by (subst pop_lines.simps) auto
    then show ?thesis using "1.prems" by simp
  qed
qed

text \<open>The lines of a text that are kept when a fence is open at its end: the most that leave room for the
  closing fence, and at least those before the fence.\<close>

definition closed_lines :: "code_points \<Rightarrow> int \<Rightarrow> code_points \<Rightarrow> bool" where
  "closed_lines text room body \<longleftrightarrow>
     (case scan_fences (split_nl text) of (opener, fence) \<Rightarrow>
        if fence = [] then body = text
        else \<exists>k \<le> length (split_nl text). nat opener \<le> k \<and>
          body = join_nl (take k (split_nl text)) @ (if nat opener < k then NL # fence else []) \<and>
          (k < length (split_nl text) \<longrightarrow>
            room < int (length (encode (join_nl (take (Suc k) (split_nl text))))) + int (length (encode (NL # fence)))))"

lemma close_fence_lines: "closed_lines text room (close_fence text room)"
proof -
  let ?ls = "split_nl text"
  obtain op f where s: "scan_fences ?ls = (op, f)" by (cases "scan_fences ?ls")
  show ?thesis
  proof (cases "f = []")
    case True
    then show ?thesis by (simp add: closed_lines_def close_fence_def s)
  next
    case False
    from scan_fences_open [OF s False] obtain j where j: "j < length ?ls" "op = int j" by blast
    let ?room = "room - int (length (encode (NL # f)))"
    obtain k where k: "pop_lines j ?room ?ls = take k ?ls" "j \<le> length ?ls \<longrightarrow> j \<le> k" "k \<le> length ?ls"
      using pop_lines_take by blast
    have "close_fence text room = join_nl (take k ?ls) @ (if j < k then NL # f else [])"
      using False s k(1,3) j(2) by (simp add: close_fence_def Let_def)
    moreover have "?room < int (length (encode (join_nl (take (Suc k) ?ls))))" if "k < length ?ls"
      using pop_lines_longest [of j ?room ?ls] k(1,3) that by simp
    then have "k < length ?ls \<longrightarrow> room < int (length (encode (join_nl (take (Suc k) ?ls)))) +
        int (length (encode (NL # f)))" by linarith
    moreover have "nat op = j" "j \<le> k" using k(2) j by simp_all
    ultimately show ?thesis
      unfolding closed_lines_def s prod.case if_not_P [OF False] \<open>nat op = j\<close>
      using k(3) by (intro exI [of _ k] conjI)
  qed
qed

section \<open>Properties\<close>

text \<open>C38: A section that fits its budget is unchanged. Any other is cut to the budget (to nothing, for a
  budget that is not positive). When the marker fits, the result is a body with the marker after it,
  and the body is the start of the source: what precedes the last newline within the bytes the marker
  leaves (all of them, if there is none), without the bytes that are not UTF-8. Only a code fence that
  this cut leaves open changes it: then the body is the longest run of its first lines after which the
  closing fence still fits, and that fence, or, when not even the opening line can stay, the lines
  before it. Every fence of the body is closed.\<close>

lemma truncateClean_budget:
  "if int (length src) \<le> maxBytes then truncateClean src maxBytes marker = src
   else int (length (truncateClean src maxBytes marker)) \<le> max 0 maxBytes \<and>
     (let suffix = encode (NL # marker @ [NL]); room = maxBytes - int (length suffix) in
      0 \<le> room \<longrightarrow>
       (\<exists>head body. line_cut src (nat room) head \<and> closed_lines (decodeUtf8Ignore head) room body \<and>
          truncateClean src maxBytes marker = encode body @ suffix \<and>
          snd (scan_fences (split_nl body)) = []))"
proof (cases "int (length src) \<le> maxBytes")
  case False
  define suffix where "suffix = encode (NL # marker @ [NL])"
  define room where "room = maxBytes - int (length suffix)"
  let ?text = "decodeUtf8Ignore (clip_line src room)"
  have "\<exists>head body. line_cut src (nat room) head \<and> closed_lines (decodeUtf8Ignore head) room body \<and>
      truncateClean src maxBytes marker = encode body @ suffix \<and> snd (scan_fences (split_nl body)) = []"
    if "0 \<le> room"
  proof (intro exI [of _ "clip_line src room"] exI [of _ "close_fence ?text room"] conjI)
    show "truncateClean src maxBytes marker = encode (close_fence ?text room) @ suffix"
      using False that unfolding truncateClean_def suffix_def [symmetric] room_def by (simp add: Let_def)
  qed (rule clip_line_cut close_fence_lines close_fence_closed)+
  then show ?thesis
    using False truncateClean_length [of src maxBytes marker]
    unfolding suffix_def [symmetric] Let_def room_def [symmetric] by simp
qed (simp add: truncateClean_def)

lemma truncateClean_budget_witness:
  "length (truncateClean (encode [96, 96, 96, 10, 97, 97, 97, 97, 97, 97, 97, 97, 97]) 9 [46]) \<le> 9 \<and>
   truncateClean (encode [97]) 9 [46] = encode [97]"
  using truncateClean_budget [of "encode [96, 96, 96, 10, 97, 97, 97, 97, 97, 97, 97, 97, 97]" 9 "[46]"]
    truncateClean_budget [of "encode [97]" 9 "[46]"]
  by (simp add: encode_cp_def)

end
