(* ===== verification/Diff_Priority.thy ===== *)
theory Diff_Priority
  imports Truncate
begin

text \<open>
  \<^verbatim>\<open>src/corpus/diff-priority.ts\<close>: which bytes of a pull request's diff survive the context budget. The
  diff is cut into one chunk per file; chunks are ranked by path (source, then bulk data, then generated
  and lock files), the budget is water-filled within a rank, and what is clipped or omitted is listed in
  a manifest after the marker.

  Buffers are lists of bytes; \<open>Buffer.indexOf\<close> and \<open>lastIndexOf\<close> are searches for the first and last
  index. \<open>new TextDecoder("utf-8").decode\<close> is the WHATWG decoder: U+FFFD for each maximal ill-formed part,
  and a leading byte order mark dropped.
\<close>

section \<open>Constants\<close>

definition ascii :: "string \<Rightarrow> bytes" where
  "ascii s = map of_char s"

definition ELLIPSIS :: bytes where
  "ELLIPSIS = encode [0x2026]"

definition DEFAULT_DIFF_MARKER :: bytes where
  "DEFAULT_DIFF_MARKER = ELLIPSIS @ ascii ''[diff truncated to fit context budget]''"

definition CHUNK_HEADER :: bytes where
  "CHUNK_HEADER = ascii ''diff --git ''"

definition MIN_CHUNK_BYTES :: nat where "MIN_CHUNK_BYTES = 512"
definition BULK_DATA_BYTES :: nat where "BULK_DATA_BYTES = 32 * 1024"
definition MANIFEST_MAX_LINES :: nat where "MANIFEST_MAX_LINES = 200"

definition RANK_SOURCE :: nat where "RANK_SOURCE = 0"
definition RANK_BULK :: nat where "RANK_BULK = 2"
definition RANK_GENERATED :: nat where "RANK_GENERATED = 3"

definition RANKS :: "nat list" where
  "RANKS = [RANK_SOURCE, RANK_BULK, RANK_GENERATED]"

definition NOTE_PREFIX :: bytes where
  "NOTE_PREFIX = ELLIPSIS @ ascii ''[file diff clipped: ''"

definition NOTE_SUFFIX :: bytes where
  "NOTE_SUFFIX = ascii '' more bytes]'' @ [10]"

definition MANIFEST_HEADER_PREFIX :: bytes where
  "MANIFEST_HEADER_PREFIX = ascii ''Files omitted from this diff (''"

definition MANIFEST_HEADER_SUFFIX :: bytes where
  "MANIFEST_HEADER_SUFFIX = ascii ''):'' @ [10]"

definition MORE_PREFIX :: bytes where
  "MORE_PREFIX = ascii ''- '' @ ELLIPSIS @ ascii '' and ''"

definition MORE_SUFFIX :: bytes where
  "MORE_SUFFIX = ascii '' more'' @ [10]"

definition OMITTED :: bytes where "OMITTED = ascii ''omitted''"
definition CLIPPED :: bytes where "CLIPPED = ascii ''clipped''"

definition LOCK_BASENAMES :: "bytes list" where
  "LOCK_BASENAMES = map ascii
     [''package-lock.json'', ''yarn.lock'', ''pnpm-lock.yaml'', ''cargo.lock'',
      ''go.sum'', ''poetry.lock'', ''gemfile.lock'', ''composer.lock'']"

definition GENERATED_SUFFIXES :: "bytes list" where
  "GENERATED_SUFFIXES = map ascii [''.lock'', ''.min.js'', ''.min.css'', ''.snap'', ''.pb.go'']"

definition GENERATED_DIRS :: "bytes list" where
  "GENERATED_DIRS = map ascii [''dist'', ''build'', ''vendor'', ''node_modules'', ''__snapshots__'']"

definition BULK_TOKENS :: "bytes list" where
  "BULK_TOKENS = map ascii [''fixture'', ''testdata'', ''snapshot'', ''golden'']"

definition DATA_SUFFIXES :: "bytes list" where
  "DATA_SUFFIXES = map ascii [''.json'', ''.jsonl'', ''.csv'', ''.svg'', ''.txt'', ''.xml'']"

record chunk =
  path :: bytes
  data :: bytes
  adds :: nat
  dels :: nat
  rank :: nat

section \<open>Buffer searches\<close>

definition index_from :: "'a list \<Rightarrow> 'a list \<Rightarrow> nat \<Rightarrow> nat option" where
  "index_from pat buf pos = List.find (\<lambda>i. prefix pat (drop i buf)) [pos..<length buf]"

definition last_index_of :: "'a list \<Rightarrow> 'a list \<Rightarrow> nat option" where
  "last_index_of pat buf = List.find (\<lambda>i. prefix pat (drop i buf)) (rev [0..<length buf])"

definition includesBytes :: "'a list \<Rightarrow> 'a list \<Rightarrow> bool" where
  "includesBytes buf pat = list_ex (\<lambda>i. prefix pat (drop i buf)) [0..<Suc (length buf)]"

definition byte_at :: "bytes \<Rightarrow> nat \<Rightarrow> byte option" where
  "byte_at buf i = (if i < length buf then Some (buf ! i) else None)"

section \<open>Chunks\<close>

definition lower_byte :: "byte \<Rightarrow> byte" where
  "lower_byte b = (if 0x41 \<le> b \<and> b \<le> 0x5A then b + 0x20 else b)"

definition asciiLower :: "bytes \<Rightarrow> bytes" where
  "asciiLower bs = map lower_byte bs"

definition endsWithAny :: "bytes \<Rightarrow> bytes list \<Rightarrow> bool" where
  "endsWithAny t endings = list_ex (\<lambda>s. suffix s t) endings"

lemma index_from_bounds: "index_from pat buf pos = Some i \<Longrightarrow> pos \<le> i \<and> i < length buf \<and> prefix pat (drop i buf)"
  by (auto simp: index_from_def find_Some_iff)

function chunk_starts :: "bytes \<Rightarrow> nat \<Rightarrow> nat list" where
  "chunk_starts buf pos =
     (case index_from CHUNK_HEADER buf pos of
        None \<Rightarrow> []
      | Some found \<Rightarrow>
          (if found = 0 \<or> buf ! (found - 1) = 10 then [found] else []) @ chunk_starts buf (found + 1))"
  by pat_completeness auto
termination
  by (relation "measure (\<lambda>(buf, pos). length buf - pos)") (auto dest!: index_from_bounds)

declare chunk_starts.simps [simp del]

definition chunkPath :: "bytes \<Rightarrow> bytes" where
  "chunkPath buf =
     (let stop = (case index_from [10] buf 0 of Some n \<Rightarrow> n | None \<Rightarrow> length buf);
          header = drop (length CHUNK_HEADER) (take stop buf);
          plain = (case last_index_of (ascii '' b/'') header of
                     Some i \<Rightarrow> drop (i + 3) header
                   | None \<Rightarrow> header) in
      if header \<noteq> [] \<and> List.last header = 0x22
      then (case last_index_of (ascii [CHR '' '', CHR 0x22, CHR ''b'', CHR ''/'']) header of
              Some i \<Rightarrow> drop (i + 4) (butlast header)
            | None \<Rightarrow> plain)
      else plain)"

definition splitChunks :: "bytes \<Rightarrow> bytes \<times> (bytes \<times> bytes) list" where
  "splitChunks diff =
     (case chunk_starts diff 0 of
        [] \<Rightarrow> (diff, [])
      | s # ss \<Rightarrow>
          (take s diff,
           map (\<lambda>(start, stop). let d = drop start (take stop diff) in (chunkPath d, d))
             (zip (s # ss) (ss @ [length diff]))))"

function count_from :: "bytes \<Rightarrow> nat \<Rightarrow> nat \<Rightarrow> nat \<Rightarrow> nat \<times> nat" where
  "count_from buf pos a d =
     (if pos < length buf then
        (let stop = (case index_from [10] buf pos of Some n \<Rightarrow> n | None \<Rightarrow> length buf);
             next3 = [byte_at buf (pos + 1), byte_at buf (pos + 2), byte_at buf (pos + 3)] in
         if buf ! pos = 0x2B
         then count_from buf (stop + 1) (if next3 = [Some 0x2B, Some 0x2B, Some 0x20] then a else a + 1) d
         else if buf ! pos = 0x2D
         then count_from buf (stop + 1) a (if next3 = [Some 0x2D, Some 0x2D, Some 0x20] then d else d + 1)
         else count_from buf (stop + 1) a d)
      else (a, d))"
  by pat_completeness auto
termination
  by (relation "measure (\<lambda>(buf, pos, _, _). length buf - pos)")
     (auto split: option.splits dest!: index_from_bounds)

declare count_from.simps [simp del]

definition countChanges :: "bytes \<Rightarrow> nat \<times> nat" where
  "countChanges buf = count_from buf 0 0 0"

definition rankPath :: "bytes \<Rightarrow> nat \<Rightarrow> code_points list \<Rightarrow> nat" where
  "rankPath p bytelen generated =
     (if textDecode p \<in> set generated then RANK_GENERATED
      else
        let lower = asciiLower p;
            segments = split_sep 0x2F lower;
            base = List.last segments in
        if base \<in> set LOCK_BASENAMES \<or> endsWithAny base GENERATED_SUFFIXES then RANK_GENERATED
        else if list_ex (\<lambda>segment. segment \<in> set GENERATED_DIRS) (butlast segments) then RANK_GENERATED
        else if includesBytes base (ascii ''.generated.'') \<or> includesBytes base (ascii ''_generated.'') then RANK_GENERATED
        else if list_ex (\<lambda>segment. list_ex (\<lambda>token. includesBytes segment token) BULK_TOKENS) segments then RANK_BULK
        else if endsWithAny base DATA_SUFFIXES \<and> BULK_DATA_BYTES < bytelen then RANK_BULK
        else RANK_SOURCE)"


section \<open>The water level\<close>

definition water_used :: "nat list \<Rightarrow> nat \<Rightarrow> nat" where
  "water_used sizes level = sum_list (map (\<lambda>s. min s level) sizes)"

function water_search :: "nat list \<Rightarrow> nat \<Rightarrow> nat \<Rightarrow> nat \<Rightarrow> nat" where
  "water_search sizes avail lo hi =
     (if lo < hi then
        (let mid = (lo + hi + 1) div 2 in
         if water_used sizes mid \<le> avail then water_search sizes avail mid hi
         else water_search sizes avail lo (mid - 1))
      else lo)"
  by pat_completeness auto
termination
  by (relation "measure (\<lambda>(_, _, lo, hi). hi - lo)") auto

declare water_search.simps [simp del]

definition waterLevel :: "nat list \<Rightarrow> nat \<Rightarrow> nat" where
  "waterLevel sizes avail = water_search sizes avail 0 (fold max sizes 0)"

section \<open>The manifest\<close>

definition manifestLine :: "chunk \<Rightarrow> bytes \<Rightarrow> bytes" where
  "manifestLine c status =
     ascii ''- '' @ path c @ ascii '' (+'' @ ascii (string_of_nat (adds c)) @ ascii ''/-'' @
     ascii (string_of_nat (dels c)) @ ascii '') '' @ status @ [10]"

definition moreLine :: "nat \<Rightarrow> bytes" where
  "moreLine count = MORE_PREFIX @ ascii (string_of_nat count) @ MORE_SUFFIX"

definition manifestHeader :: "nat \<Rightarrow> bytes" where
  "manifestHeader count = MANIFEST_HEADER_PREFIX @ ascii (string_of_nat count) @ MANIFEST_HEADER_SUFFIX"

definition truncatePlain :: "bytes \<Rightarrow> int \<Rightarrow> bytes \<Rightarrow> bytes" where
  "truncatePlain d budget marker =
     (if int (length d) \<le> budget then d
      else
        let suffix = 10 # marker @ [10] in
        if budget < int (length suffix) then dots budget
        else encode (decodeUtf8Ignore (clip_line d (budget - int (length suffix)))) @ suffix)"

section \<open>The selection\<close>

text \<open>The loop over a rank whose chunks do not all fit: \<open>(used, emitted, listed)\<close>.\<close>

definition clip_note :: "nat \<Rightarrow> nat \<Rightarrow> bytes" where
  "clip_note bytelen stop = NOTE_PREFIX @ ascii (string_of_nat (bytelen - stop)) @ NOTE_SUFFIX"

definition fill_chunk ::
  "nat \<Rightarrow> chunk \<Rightarrow> nat \<times> bytes list \<times> (chunk \<times> bytes) list \<Rightarrow> nat \<times> bytes list \<times> (chunk \<times> bytes) list" where
  "fill_chunk level c st =
     (case st of (used, emitted, listed) \<Rightarrow>
        let bytelen = length (data c) in
        if bytelen \<le> level then (used + bytelen, emitted @ [data c], listed)
        else
          let noteMax = length NOTE_PREFIX + length (string_of_nat bytelen) + length NOTE_SUFFIX;
              limit = int level - int noteMax;
              stop = (if 0 < limit
                      then (case last_index 10 (take (nat limit) (data c)) of
                              Some n \<Rightarrow> int n + 1
                            | None \<Rightarrow> -1)
                      else -1) in
          if stop < int MIN_CHUNK_BYTES then (used, emitted, listed @ [(c, OMITTED)])
          else
            let note = clip_note bytelen (nat stop) in
            (used + nat stop + length note, emitted @ [take (nat stop) (data c) @ note],
             listed @ [(c, CLIPPED)]))"

definition fill_rank ::
  "chunk list \<Rightarrow> nat \<Rightarrow> int \<times> bytes list \<times> (chunk \<times> bytes) list \<Rightarrow> int \<times> bytes list \<times> (chunk \<times> bytes) list" where
  "fill_rank ordered r st =
     (case st of (avail, emitted, listed) \<Rightarrow>
        let bucket = filter (\<lambda>c. rank c = r) ordered; sizes = map (\<lambda>c. length (data c)) bucket in
        if bucket = [] then st
        else if int (sum_list sizes) \<le> avail
        then (avail - int (sum_list sizes), emitted @ map data bucket, listed)
        else
          let level = waterLevel sizes (nat (max 0 avail));
              (used, emitted', listed') = fold (fill_chunk level) bucket (0, emitted, listed) in
          (avail - int used, emitted', listed'))"

text \<open>The loop that drops manifest lines until the output fits.\<close>

definition manifest_out :: "bytes \<Rightarrow> bytes \<Rightarrow> nat \<Rightarrow> bytes list \<Rightarrow> bytes" where
  "manifest_out body marker count lines =
     body @ marker @ [10] @ manifestHeader count @ concat (take MANIFEST_MAX_LINES lines) @
     (if MANIFEST_MAX_LINES < length lines then moreLine (length lines - MANIFEST_MAX_LINES) else [])"

function fit_manifest :: "bytes \<Rightarrow> bytes \<Rightarrow> nat \<Rightarrow> int \<Rightarrow> bytes list \<Rightarrow> bytes" where
  "fit_manifest body marker count budget lines =
     (let out = manifest_out body marker count lines in
      if int (length out) \<le> budget \<or> lines = [] then out
      else fit_manifest body marker count budget (butlast lines))"
  by pat_completeness auto
termination
  by (relation "measure (\<lambda>(_, _, _, _, lines). length lines)") auto

declare fit_manifest.simps [simp del]

definition mk_chunk :: "code_points list \<Rightarrow> bytes \<times> bytes \<Rightarrow> chunk" where
  "mk_chunk generated pd =
     (case pd of (p, d) \<Rightarrow>
        \<lparr>path = p, data = d, adds = fst (countChanges d), dels = snd (countChanges d),
          rank = rankPath p (length d) generated\<rparr>)"

text \<open>The bytes set aside for the marker and the manifest.\<close>

definition reserve_bytes :: "chunk list \<Rightarrow> bytes \<Rightarrow> nat" where
  "reserve_bytes chunks marker =
     (let total = length chunks;
          lineLengths = rev (sort (map (\<lambda>c. length (manifestLine c OMITTED)) chunks)) in
      1 + length marker + 1 + length (manifestHeader total) +
      sum_list (take MANIFEST_MAX_LINES lineLengths) +
      (if MANIFEST_MAX_LINES < total then length (moreLine total) else 0))"

definition fit_preamble :: "bytes \<Rightarrow> int \<Rightarrow> bytes" where
  "fit_preamble preamble room =
     (if room < int (length preamble)
      then (if 0 < room
            then (case last_index 10 (take (nat room) preamble) of
                    Some n \<Rightarrow> take (n + 1) preamble
                  | None \<Rightarrow> [])
            else [])
      else preamble)"

definition in_rank_order :: "chunk list \<Rightarrow> chunk list" where
  "in_rank_order chunks = concat (map (\<lambda>r. filter (\<lambda>c. rank c = r) chunks) RANKS)"

definition with_newline :: "bytes \<Rightarrow> bytes" where
  "with_newline body = (if body \<noteq> [] \<and> List.last body \<noteq> 10 then body @ [10] else body)"

definition select_chunks ::
  "chunk list \<Rightarrow> int \<Rightarrow> int \<times> bytes list \<times> (chunk \<times> bytes) list" where
  "select_chunks chunks avail = fold (fill_rank (in_rank_order chunks)) RANKS (avail, [], [])"

definition prioritizeDiff :: "bytes \<Rightarrow> int \<Rightarrow> code_points list \<Rightarrow> bytes \<Rightarrow> bytes" where
  "prioritizeDiff diff budget generated marker =
     (if int (length diff) \<le> budget then diff
      else
        let (rawPreamble, rawChunks) = splitChunks diff in
        if rawChunks = [] then truncatePlain diff budget marker
        else if budget < int (length marker) + 2 then dots budget
        else
          let chunks = map (mk_chunk generated) rawChunks;
              room = budget - int (reserve_bytes chunks marker);
              preamble = fit_preamble rawPreamble room;
              (_, emitted, listed) = select_chunks chunks (room - int (length preamble));
              body = with_newline (preamble @ concat emitted);
              out = fit_manifest body marker (length listed) budget
                (map (\<lambda>(c, status). manifestLine c status) listed) in
          if budget < int (length out) then truncatePlain out budget marker else out)"


section \<open>The water level is the highest that fits\<close>

lemma water_used_mono: "l \<le> l' \<Longrightarrow> water_used sizes l \<le> water_used sizes l'"
  unfolding water_used_def by (intro sum_list_mono) auto

lemma water_used_zero [simp]: "water_used sizes 0 = 0"
  by (induction sizes) (simp_all add: water_used_def)

lemma water_search_spec:
  assumes "water_used sizes lo \<le> avail" and "lo \<le> hi"
  shows "water_used sizes (water_search sizes avail lo hi) \<le> avail \<and> lo \<le> water_search sizes avail lo hi \<and>
    water_search sizes avail lo hi \<le> hi \<and>
    (\<forall>l. water_search sizes avail lo hi < l \<and> l \<le> hi \<longrightarrow> avail < water_used sizes l)"
  using assms
proof (induction sizes avail lo hi rule: water_search.induct)
  case (1 sizes avail lo hi)
  show ?case
  proof (cases "lo < hi")
    case False
    with 1 show ?thesis by (simp add: water_search.simps)
  next
    case True
    define mid where "mid = (lo + hi + 1) div 2"
    have mid: "lo < mid" "mid \<le> hi" using True by (auto simp: mid_def)
    show ?thesis
    proof (cases "water_used sizes mid \<le> avail")
      case fits: True
      with True have eq: "water_search sizes avail lo hi = water_search sizes avail mid hi"
        by (simp add: water_search.simps [of sizes avail lo] mid_def Let_def)
      from 1(1) [OF True mid_def fits fits mid(2)] mid show ?thesis unfolding eq by auto
    next
      case over: False
      with True have eq: "water_search sizes avail lo hi = water_search sizes avail lo (mid - 1)"
        by (simp add: water_search.simps [of sizes avail lo] mid_def Let_def)
      have "avail < water_used sizes l" if "mid - 1 < l" for l
        using over water_used_mono [of mid l sizes] that by linarith
      moreover have "lo \<le> mid - 1" using mid(1) by simp
      ultimately show ?thesis using 1(2) [OF True mid_def over 1(3)] mid(2) unfolding eq
        by (meson diff_le_self le_trans not_le)
    qed
  qed
qed

lemma fold_max_le: "s \<in> set sizes \<Longrightarrow> s \<le> fold max sizes (m :: nat)" and fold_max_base: "m \<le> fold max sizes m"
  by (induction sizes arbitrary: m) (auto intro: order.trans [OF max.cobounded1], metis max.cobounded2 order.trans)

lemma waterLevel_fits: "water_used sizes (waterLevel sizes avail) \<le> avail"
  using water_search_spec [of sizes 0 avail] by (simp add: waterLevel_def)

lemma waterLevel_highest:
  assumes "water_used sizes l \<le> avail" and "s \<in> set sizes"
  shows "min s l \<le> waterLevel sizes avail"
proof (rule ccontr)
  assume "\<not> min s l \<le> waterLevel sizes avail"
  then have above: "waterLevel sizes avail < min s l" by (simp only: not_le)
  have "min s l \<le> fold max sizes 0" using fold_max_le [OF assms(2), of 0] by simp
  with above have "avail < water_used sizes (min s l)"
    using water_search_spec [of sizes 0 avail "fold max sizes 0"] by (simp add: waterLevel_def)
  moreover have "water_used sizes (min s l) \<le> water_used sizes l" by (rule water_used_mono) simp
  ultimately show False using assms(1) by linarith
qed

section \<open>Chunks cut the diff at every header line\<close>

definition header_at :: "bytes \<Rightarrow> nat \<Rightarrow> bool" where
  "header_at buf i = (prefix CHUNK_HEADER (drop i buf) \<and> (i = 0 \<or> buf ! (i - 1) = 10))"

lemma find_upt_None: "List.find P [a..<b] = None \<longleftrightarrow> (\<forall>i. a \<le> i \<and> i < b \<longrightarrow> \<not> P i)"
  by (auto simp: find_None_iff)

lemma find_upt_Some:
  assumes "List.find P [a..<b] = Some i"
  shows "a \<le> i \<and> i < b \<and> P i \<and> (\<forall>j. a \<le> j \<and> j < i \<longrightarrow> \<not> P j)"
proof -
  from assms obtain k where k: "k < b - a" "P (a + k)" "i = a + k" "\<And>j. j < k \<Longrightarrow> \<not> P ([a..<b] ! j)"
    by (auto simp: find_Some_iff)
  have "\<not> P j" if "a \<le> j" "j < i" for j
    using k(4) [of "j - a"] that k(1,3) by simp
  with k show ?thesis by auto
qed

lemma chunk_starts_eq: "chunk_starts buf pos = filter (header_at buf) [pos..<length buf]"
proof (induction buf pos rule: chunk_starts.induct)
  case (1 buf pos)
  show ?case
  proof (cases "index_from CHUNK_HEADER buf pos")
    case None
    then have "\<not> prefix CHUNK_HEADER (drop i buf)" if "pos \<le> i" "i < length buf" for i
      using that by (auto simp: index_from_def find_upt_None)
    then have "filter (header_at buf) [pos..<length buf] = []"
      by (auto simp: filter_empty_conv header_at_def)
    with None show ?thesis by (simp add: chunk_starts.simps)
  next
    case (Some found)
    then have found: "pos \<le> found" "found < length buf" "prefix CHUNK_HEADER (drop found buf)"
      "\<And>j. pos \<le> j \<Longrightarrow> j < found \<Longrightarrow> \<not> prefix CHUNK_HEADER (drop j buf)"
      using find_upt_Some by (force simp: index_from_def)+
    have "[pos..<length buf] = [pos..<found] @ found # [Suc found..<length buf]"
      using found(1,2) upt_add_eq_append [of pos found "length buf - found"] by (simp add: upt_conv_Cons)
    moreover have "filter (header_at buf) [pos..<found] = []"
      using found(4) by (auto simp: filter_empty_conv header_at_def)
    moreover have "header_at buf found = (found = 0 \<or> buf ! (found - 1) = 10)"
      using found(3) by (simp add: header_at_def)
    ultimately show ?thesis using 1 [OF Some] Some
      by (simp add: chunk_starts.simps [of buf pos])
  qed
qed


definition spans :: "nat list \<Rightarrow> nat \<Rightarrow> (nat \<times> nat) list" where
  "spans starts n = zip starts (tl starts @ [n])"

lemma spans_Cons2: "spans (s # t # ss) n = (s, t) # spans (t # ss) n"
  by (simp add: spans_def)

lemma spans_concat:
  assumes "sorted_wrt (<) (s # ss)" and "\<forall>x \<in> set (s # ss). x \<le> n" and "n \<le> length buf"
  shows "concat (map (\<lambda>(a, b). drop a (take b buf)) (spans (s # ss) n)) = drop s (take n buf)"
  using assms
proof (induction ss arbitrary: s)
  case (Cons t ss)
  then have "s < t" "t \<le> n" by auto
  then have "take t buf = take t (take n buf)" and "length (take t buf) = t"
    using Cons.prems(3) by (simp_all add: min_def)
  then have "drop s (take t buf) @ drop t (take n buf) = drop s (take t (take n buf) @ drop t (take n buf))"
    using \<open>s < t\<close> by (simp only: drop_append) simp
  also have "\<dots> = drop s (take n buf)" by (simp only: append_take_drop_id)
  finally have "drop s (take t buf) @ drop t (take n buf) = drop s (take n buf)" .
  with Cons show ?case by (simp add: spans_Cons2)
qed (simp add: spans_def)

lemma spans_between:
  assumes "sorted_wrt (<) starts" and "\<forall>x \<in> set starts. x < n" and "(a, b) \<in> set (spans starts n)"
  shows "a \<in> set starts \<and> a < b \<and> (b = n \<or> b \<in> set starts) \<and> (\<forall>x \<in> set starts. \<not> (a < x \<and> x < b))"
  using assms
proof (induction starts)
  case (Cons s starts)
  show ?case
  proof (cases starts)
    case Nil
    with Cons.prems show ?thesis by (auto simp: spans_def)
  next
    case (Cons t ss)
    with Cons.prems have "(a, b) = (s, t) \<or> (a, b) \<in> set (spans starts n)" by (auto simp: spans_Cons2)
    then show ?thesis
    proof
      assume "(a, b) = (s, t)"
      then show ?thesis using Cons.prems(1) Cons by auto
    next
      assume "(a, b) \<in> set (spans starts n)"
      with Cons.IH Cons.prems show ?thesis by auto
    qed
  qed
qed (simp add: spans_def)

lemma header_length [simp]: "length CHUNK_HEADER = 11"
  by (simp add: CHUNK_HEADER_def ascii_def)

lemma header_no_newline: "10 \<notin> set CHUNK_HEADER"
  by (simp add: CHUNK_HEADER_def ascii_def)

lemma header_at_less: "header_at buf i \<Longrightarrow> i + 11 \<le> length buf"
  unfolding header_at_def by (auto dest: prefix_length_le)

lemma prefix_take: "prefix p (take n xs) \<longleftrightarrow> prefix p xs \<and> length p \<le> n"
  by (auto simp: prefix_def take_append intro: prefix_order.trans)
     (metis length_take append_take_drop_id append.assoc, metis length_append length_take min.bounded_iff le_add1)

lemma drop_take_swap: "drop a (take b xs) = take (b - a) (drop a xs)"
  by (simp add: drop_take)

lemma header_at_slice:
  assumes "header_at (drop a (take b buf)) i" and "0 < i"
  shows "header_at buf (a + i) \<and> a + i < b"
proof -
  have len: "i + 11 \<le> length (drop a (take b buf))" using header_at_less [OF assms(1)] .
  then have "a + i < b" "a + i < length buf" by auto
  moreover have "drop a (take b buf) ! (i - 1) = buf ! (a + i - 1)"
    using len assms(2) by (cases i) (auto simp: min_def split: if_splits)
  ultimately show ?thesis using assms
    by (auto simp: header_at_def drop_take_swap prefix_take add.commute)
qed

lemma header_at_start:
  assumes "header_at buf a" and "b \<le> length buf" and "a < b" and "b = length buf \<or> header_at buf b"
  shows "header_at (drop a (take b buf)) 0"
proof -
  have "a + 11 \<le> b"
  proof (rule ccontr)
    assume "\<not> a + 11 \<le> b"
    with assms header_at_less [OF assms(1)] have b: "b \<noteq> length buf" "b - 1 - a < 11" "header_at buf b" by auto
    with assms(3) have "buf ! (b - 1) = 10" by (auto simp: header_at_def)
    moreover obtain rest where "drop a buf = CHUNK_HEADER @ rest"
      using assms(1) by (auto simp: header_at_def prefix_def)
    then have "CHUNK_HEADER ! (b - 1 - a) = drop a buf ! (b - 1 - a)" using b(2) by (simp add: nth_append)
    ultimately have "CHUNK_HEADER ! (b - 1 - a) = 10" using assms(2,3) by simp
    then show False using header_no_newline b(2) by (metis header_length nth_mem)
  qed
  then show ?thesis using assms(1) by (simp add: header_at_def drop_take_swap prefix_take)
qed

lemma splitChunks_exact:
  assumes "splitChunks diff = (preamble, chunks)"
  shows "preamble @ concat (map snd chunks) = diff \<and>
    (\<forall>i. \<not> header_at preamble i) \<and>
    (\<forall>(p, d) \<in> set chunks. p = chunkPath d \<and> (\<forall>i. header_at d i \<longleftrightarrow> i = 0))"
proof -
  define starts where "starts = chunk_starts diff 0"
  have starts: "starts = filter (header_at diff) [0..<length diff]" by (simp add: starts_def chunk_starts_eq)
  have mem: "x \<in> set starts \<longleftrightarrow> header_at diff x" for x
    using header_at_less [of diff x] by (auto simp: starts)
  have sorted: "sorted_wrt (<) starts" by (simp add: starts sorted_wrt_filter)
  have less: "\<forall>x \<in> set starts. x < length diff" by (auto simp: starts)
  show ?thesis
  proof (cases starts)
    case Nil
    with assms have "preamble = diff" "chunks = []" by (simp_all add: splitChunks_def starts_def [symmetric])
    moreover have "\<not> header_at diff i" for i using mem [of i] Nil by simp
    ultimately show ?thesis by simp
  next
    case (Cons s ss)
    have eq: "preamble = take s diff"
      "chunks = map (\<lambda>(a, b). (chunkPath (drop a (take b diff)), drop a (take b diff))) (spans starts (length diff))"
      using assms Cons by (simp_all add: splitChunks_def starts_def [symmetric] spans_def Let_def)
    have "concat (map snd chunks) = concat (map (\<lambda>(a, b). drop a (take b diff)) (spans starts (length diff)))"
      unfolding eq by (simp add: comp_def case_prod_unfold)
    also have "\<dots> = drop s diff"
      using spans_concat [of s ss "length diff" diff] sorted less Cons by (auto simp: less_imp_le)
    finally have 1: "preamble @ concat (map snd chunks) = diff" by (simp add: eq)
    have 2: "\<not> header_at preamble i" for i
    proof
      assume h: "header_at preamble i"
      have "i < s" using header_at_less [OF h] by (simp add: eq)
      moreover have "header_at diff i" using h \<open>i < s\<close>
        by (cases "i = 0") (auto simp: eq header_at_def drop_take_swap prefix_take)
      ultimately show False using mem [of i] sorted Cons by auto
    qed
    have 3: "p = chunkPath d \<and> (\<forall>i. header_at d i \<longleftrightarrow> i = 0)" if pd: "(p, d) \<in> set chunks" for p d
    proof -
      from pd obtain a b where ab: "(a, b) \<in> set (spans starts (length diff))" "d = drop a (take b diff)"
        "p = chunkPath d" by (auto simp: eq)
      note between = spans_between [OF sorted less ab(1)]
      then have "header_at d 0"
        unfolding ab(2) using less by (intro header_at_start) (auto simp: mem less_imp_le)
      moreover have "\<not> header_at d i" if "0 < i" for i
        using header_at_slice [of a b diff i] that between ab(2) by (auto simp: mem)
      ultimately show ?thesis using ab(3) by (metis neq0_conv)
    qed
    from 1 2 3 show ?thesis by auto
  qed
qed


section \<open>The selection stays within its reserve_bytes\<close>

lemma length_string_of_nat_mono: "m \<le> n \<Longrightarrow> length (string_of_nat m) \<le> length (string_of_nat n)"
proof (induction n arbitrary: m rule: string_of_nat.induct)
  case (1 n)
  show ?case
  proof (cases "m < 10")
    case True
    have "1 \<le> length (string_of_nat n)" by (simp add: Suc_leI)
    with True show ?thesis by (simp add: string_of_nat.simps [of m])
  next
    case False
    with 1(2) have "\<not> n < 10" "m div 10 \<le> n div 10" by (simp_all add: div_le_mono)
    with False 1(1) show ?thesis
      by (simp add: string_of_nat.simps [of m] string_of_nat.simps [of n])
  qed
qed

lemma ascii_length [simp]: "length (ascii s) = length s"
  by (simp add: ascii_def)

text \<open>What becomes of a chunk: emitted whole, clipped and listed, or omitted and listed.\<close>

definition accounted :: "bytes list \<Rightarrow> (chunk \<times> bytes) list \<Rightarrow> chunk \<Rightarrow> bool" where
  "accounted emitted listed c =
     (data c \<in> set emitted \<or> (c, OMITTED) \<in> set listed \<or>
      (c, CLIPPED) \<in> set listed \<and>
        (\<exists>stop. MIN_CHUNK_BYTES \<le> stop \<and> stop < length (data c) \<and>
           take stop (data c) @ clip_note (length (data c)) stop \<in> set emitted))"

lemma accounted_mono:
  "accounted e l c \<Longrightarrow> set e \<subseteq> set e' \<Longrightarrow> set l \<subseteq> set l' \<Longrightarrow> accounted e' l' c"
  unfolding accounted_def by blast

lemma fill_chunk_cases:
  obtains (whole) "length (data c) \<le> level"
      "fill_chunk level c (u, e, l) = (u + length (data c), e @ [data c], l)"
    | (omitted) "level < length (data c)" "fill_chunk level c (u, e, l) = (u, e, l @ [(c, OMITTED)])"
    | (clipped) stop where "level < length (data c)" "MIN_CHUNK_BYTES \<le> stop" "stop < length (data c)"
      "stop + length (clip_note (length (data c)) stop) \<le> level"
      "fill_chunk level c (u, e, l) =
        (u + stop + length (clip_note (length (data c)) stop),
         e @ [take stop (data c) @ clip_note (length (data c)) stop], l @ [(c, CLIPPED)])"
proof (cases "length (data c) \<le> level")
  case True
  then show ?thesis by (intro whole) (simp_all add: fill_chunk_def)
next
  case False
  define noteMax where "noteMax = length NOTE_PREFIX + length (string_of_nat (length (data c))) + length NOTE_SUFFIX"
  define limit where "limit = int level - int noteMax"
  define stop where "stop = (if 0 < limit
      then (case last_index 10 (take (nat limit) (data c)) of Some n \<Rightarrow> int n + 1 | None \<Rightarrow> -1) else -1)"
  have run: "fill_chunk level c (u, e, l) =
     (if stop < int MIN_CHUNK_BYTES then (u, e, l @ [(c, OMITTED)])
      else (u + nat stop + length (clip_note (length (data c)) (nat stop)),
        e @ [take (nat stop) (data c) @ clip_note (length (data c)) (nat stop)], l @ [(c, CLIPPED)]))"
    using False unfolding fill_chunk_def stop_def limit_def noteMax_def Let_def by simp
  show ?thesis
  proof (cases "stop < int MIN_CHUNK_BYTES")
    case True
    with run False show ?thesis by (intro omitted) simp_all
  next
    case big: False
    then have pos: "0 < limit" by (auto simp: stop_def MIN_CHUNK_BYTES_def split: if_splits)
    with big obtain n where n: "last_index 10 (take (nat limit) (data c)) = Some n" "stop = int n + 1"
      by (auto simp: stop_def MIN_CHUNK_BYTES_def split: option.splits)
    then have "n < nat limit" using last_index_less by fastforce
    then have le: "stop \<le> limit" using n(2) by simp
    have "length (clip_note (length (data c)) (nat stop)) \<le> noteMax"
      using length_string_of_nat_mono [of "length (data c) - nat stop" "length (data c)"]
      by (simp add: clip_note_def noteMax_def)
    with le have "nat stop + length (clip_note (length (data c)) (nat stop)) \<le> level"
      using n(2) unfolding limit_def by linarith
    moreover have "nat stop < length (data c)" using calculation False by linarith
    ultimately show ?thesis using run big False by (intro clipped [of "nat stop"]) auto
  qed
qed

lemma fill_chunk_spec:
  assumes "fill_chunk level c (u, e, l) = (u', e', l')"
  shows "u' \<le> u + min (length (data c)) level" and "u' + length (concat e) = u + length (concat e')"
    and "prefix e e'" and "set l \<subseteq> set l'" and "accounted e' l' c"
    and "l' = l \<or> (\<exists>status \<in> {OMITTED, CLIPPED}. l' = l @ [(c, status)])"
proof -
  show "u' \<le> u + min (length (data c)) level" and "u' + length (concat e) = u + length (concat e')"
    and "prefix e e'" and "set l \<subseteq> set l'" and "accounted e' l' c"
    and "l' = l \<or> (\<exists>status \<in> {OMITTED, CLIPPED}. l' = l @ [(c, status)])"
    using assms by (cases rule: fill_chunk_cases [of c level u e l]; force simp: accounted_def)+
qed


text \<open>What a stage of the selection did to \<open>(avail, emitted, listed)\<close> for the chunks \<open>cs\<close>.\<close>

definition stage_ok ::
  "chunk list \<Rightarrow> bytes list \<times> (chunk \<times> bytes) list \<Rightarrow> bytes list \<times> (chunk \<times> bytes) list \<Rightarrow> bool" where
  "stage_ok cs el el' =
     (prefix (fst el) (fst el') \<and> (\<forall>c \<in> set cs. accounted (fst el') (snd el') c) \<and>
      (\<exists>new. snd el' = snd el @ new \<and> subseq (map fst new) cs \<and> (\<forall>p \<in> set new. snd p \<in> {OMITTED, CLIPPED})))"

lemma stage_ok_trans:
  assumes "stage_ok cs (e, l) (e', l')" and "stage_ok ds (e', l') (e'', l'')"
  shows "stage_ok (cs @ ds) (e, l) (e'', l'')"
proof -
  from assms(1) obtain new where new: "l' = l @ new" "subseq (map fst new) cs"
    "\<forall>p \<in> set new. snd p \<in> {OMITTED, CLIPPED}" by (auto simp: stage_ok_def)
  from assms(2) obtain new' where new': "l'' = l' @ new'" "subseq (map fst new') ds"
    "\<forall>p \<in> set new'. snd p \<in> {OMITTED, CLIPPED}" by (auto simp: stage_ok_def)
  have "set e' \<subseteq> set e''" "set l' \<subseteq> set l''"
    using assms new'(1) by (auto simp: stage_ok_def dest: set_mono_prefix)
  then have "\<forall>c \<in> set cs. accounted e'' l'' c"
    using assms(1) accounted_mono by (fastforce simp: stage_ok_def)
  moreover have "subseq (map fst (new @ new')) (cs @ ds)"
    using new(2) new'(2) by (auto intro: list_emb_append_mono)
  moreover have "prefix e e''" using assms prefix_order.trans by (auto simp: stage_ok_def)
  ultimately show ?thesis using assms new new' unfolding stage_ok_def
    by (auto intro!: exI [of _ "new @ new'"])
qed

lemma stage_ok_fill: "fill_chunk level c (u, e, l) = (u', e', l') \<Longrightarrow> stage_ok [c] (e, l) (e', l')"
  using fill_chunk_spec(3,5,6) [of level c u e l u' e' l'] unfolding stage_ok_def by auto

lemma fold_fill_chunk:
  assumes "fold (fill_chunk level) cs (u, e, l) = (u', e', l')"
  shows "u' \<le> u + water_used (map (\<lambda>c. length (data c)) cs) level \<and>
    u' + length (concat e) = u + length (concat e') \<and> stage_ok cs (e, l) (e', l')"
  using assms
proof (induction cs arbitrary: u e l)
  case Nil
  then show ?case by (simp add: stage_ok_def water_used_def)
next
  case (Cons c cs)
  obtain u1 e1 l1 where s: "fill_chunk level c (u, e, l) = (u1, e1, l1)"
    by (cases "fill_chunk level c (u, e, l)")
  note spec = fill_chunk_spec(1,2) [OF s]
  from Cons.prems s have "fold (fill_chunk level) cs (u1, e1, l1) = (u', e', l')" by simp
  note IH = Cons.IH [OF this]
  show ?case
    using spec IH stage_ok_trans [OF stage_ok_fill [OF s], of cs e' l']
    by (auto simp: water_used_def)
qed

lemma fill_rank_spec:
  assumes "fill_rank ordered r (avail, e, l) = (avail', e', l')" and "0 \<le> avail"
  defines "bucket \<equiv> filter (\<lambda>c. rank c = r) ordered"
  shows "0 \<le> avail'" and "avail' + int (length (concat e')) = avail + int (length (concat e))"
    and "stage_ok bucket (e, l) (e', l')"
    and "int (sum_list (map (\<lambda>c. length (data c)) bucket)) \<le> avail \<Longrightarrow> l' = l \<and> e' = e @ map data bucket"
proof -
  define sizes where "sizes = map (\<lambda>c. length (data c)) bucket"
  have total: "length (concat (map data bucket)) = sum_list sizes"
    by (simp add: sizes_def length_concat comp_def)
  have "0 \<le> avail' \<and> avail' + int (length (concat e')) = avail + int (length (concat e)) \<and>
    stage_ok bucket (e, l) (e', l') \<and> (int (sum_list sizes) \<le> avail \<longrightarrow> l' = l \<and> e' = e @ map data bucket)"
  proof (cases "int (sum_list sizes) \<le> avail")
    case True
    then have run: "avail' = avail - int (sum_list sizes)" "e' = e @ map data bucket" "l' = l"
      using assms(1) by (auto simp: fill_rank_def bucket_def [symmetric] sizes_def Let_def split: if_splits)
    then show ?thesis using True total by (auto simp: stage_ok_def accounted_def)
  next
    case False
    define level where "level = waterLevel sizes (nat (max 0 avail))"
    obtain u e1 l1 where f: "fold (fill_chunk level) bucket (0, e, l) = (u, e1, l1)"
      by (cases "fold (fill_chunk level) bucket (0, e, l)")
    have "bucket \<noteq> []" using False assms(2) by (auto simp: sizes_def)
    then have run: "avail' = avail - int u" "e' = e1" "l' = l1"
      using assms(1) False f
      by (auto simp: fill_rank_def bucket_def [symmetric] sizes_def [symmetric] level_def [symmetric] Let_def)
    have "water_used sizes level \<le> nat (max 0 avail)" unfolding level_def by (rule waterLevel_fits)
    moreover have "u \<le> water_used sizes level" using fold_fill_chunk [OF f] by (simp add: sizes_def)
    ultimately have "int u \<le> avail" using assms(2) by linarith
    with fold_fill_chunk [OF f] run False show ?thesis by auto
  qed
  then show "0 \<le> avail'" and "avail' + int (length (concat e')) = avail + int (length (concat e))"
    and "stage_ok bucket (e, l) (e', l')"
    and "int (sum_list (map (\<lambda>c. length (data c)) bucket)) \<le> avail \<Longrightarrow> l' = l \<and> e' = e @ map data bucket"
    by (simp_all add: sizes_def)
qed

lemma fold_fill_rank:
  assumes "fold (fill_rank ordered) rs (avail, e, l) = (avail', e', l')" and "0 \<le> avail"
  shows "0 \<le> avail' \<and> avail' + int (length (concat e')) = avail + int (length (concat e)) \<and>
    stage_ok (concat (map (\<lambda>r. filter (\<lambda>c. rank c = r) ordered) rs)) (e, l) (e', l')"
  using assms
proof (induction rs arbitrary: avail e l)
  case Nil
  then show ?case by (simp add: stage_ok_def)
next
  case (Cons r rs)
  obtain a1 e1 l1 where s: "fill_rank ordered r (avail, e, l) = (a1, e1, l1)"
    by (cases "fill_rank ordered r (avail, e, l)")
  note spec = fill_rank_spec(1-3) [OF s Cons.prems(2)]
  from Cons.prems s have "fold (fill_rank ordered) rs (a1, e1, l1) = (avail', e', l')" by simp
  from Cons.IH [OF this spec(1)] spec stage_ok_trans [OF spec(3)] show ?case by simp
qed

end
