(* ===== verification/Diff_Priority_Properties.thy ===== *)
theory Diff_Priority_Properties
  imports Diff_Priority "HOL-Library.Multiset"
begin

text \<open>
  What \<open>prioritizeDiff\<close> promises: the output fits the budget, and when the budget has room for the
  reserve no chunk disappears without a line in the manifest. The multiset lemmas show that the
  reserve, taken from the longest manifest lines, covers whatever lines the selection produces.
\<close>

section \<open>The output\<close>

lemma subseq_mset: "subseq xs ys \<Longrightarrow> mset xs \<subseteq># mset ys"
proof (induction xs ys rule: list_emb.induct)
  case (list_emb_Cons xs ys y)
  have "mset ys \<subseteq># mset (y # ys)" by (simp add: mset_subset_eq_add_right [of _ "{#y#}", simplified])
  with list_emb_Cons show ?case by (blast intro: subset_mset.order_trans)
qed simp_all

text \<open>No \<open>k\<close> of the lengths add up to more than the \<open>k\<close> largest.\<close>

lemma sum_top:
  "sorted_wrt (\<ge>) ds \<Longrightarrow> mset zs \<subseteq># mset ds \<Longrightarrow> length zs \<le> k \<Longrightarrow> sum_list zs \<le> sum_list (take k (ds :: nat list))"
proof (induction ds arbitrary: zs k)
  case (Cons d ds)
  show ?case
  proof (cases zs)
    case zs: (Cons z zs')
    with Cons.prems(3) obtain j where k: "k = Suc j" by (cases k) auto
    define a rest where "a = (if d \<in> set zs then d else z)" and "rest = remove1 a zs"
    have a: "a \<in> set zs" "a \<le> d"
    proof -
      show "a \<in> set zs" using zs by (simp add: a_def)
      then have "a \<in> set (d # ds)" using Cons.prems(2) by (metis mset_subset_eqD set_mset_mset)
      then show "a \<le> d" using Cons.prems(1) by auto
    qed
    then have zsum: "sum_list zs = a + sum_list rest" and len: "length rest \<le> j"
      using Cons.prems(3) k sum_list_map_remove1 [OF a(1), of "\<lambda>x. x"] by (simp_all add: rest_def length_remove1 a(1))
    have "mset rest \<subseteq># mset ds"
    proof (cases "d \<in> set zs")
      case True
      then have "mset rest = mset zs - {#d#}" by (simp add: rest_def a_def)
      then show ?thesis using Cons.prems(2) by (simp add: subset_eq_diff_conv)
    next
      case False
      have "mset zs \<subseteq># mset ds"
      proof (rule mset_subset_eqI)
        fix x
        show "count (mset zs) x \<le> count (mset ds) x"
          using mset_subset_eq_count [OF Cons.prems(2), of x] False by (cases "x = d") (simp_all add: count_mset_0_iff [THEN iffD2])
      qed
      moreover have "mset rest \<subseteq># mset zs" by (simp add: rest_def diff_subset_eq_self)
      ultimately show ?thesis by (rule subset_mset.order_trans [rotated])
    qed
    with Cons.IH [of rest j] Cons.prems(1) len have "sum_list rest \<le> sum_list (take j ds)" by simp
    then show ?thesis using a(2) zsum k by simp
  qed simp
qed simp

lemma sum_top_sort:
  assumes "mset xs \<subseteq># mset ys"
  shows "sum_list (take k xs) \<le> sum_list (take k (rev (sort (ys :: nat list))))"
proof (rule sum_top)
  show "sorted_wrt (\<ge>) (rev (sort ys))" by (simp add: sorted_wrt_rev)
  have "mset (take k xs) \<subseteq># mset xs"
    by (metis append_take_drop_id mset_append mset_subset_eq_add_left)
  with assms show "mset (take k xs) \<subseteq># mset (rev (sort ys))" by (simp add: subset_mset.order_trans)
qed simp

lemma in_rank_order_mset: "mset (in_rank_order cs) \<subseteq># mset cs"
proof -
  have "filter_mset (\<lambda>c. rank c = 0) M + filter_mset (\<lambda>c. rank c = 2) M + filter_mset (\<lambda>c. rank c = 3) M \<subseteq># M"
    for M :: "chunk multiset"
    by (rule mset_subset_eqI) simp
  then show ?thesis
    by (simp add: in_rank_order_def RANKS_def RANK_SOURCE_def RANK_BULK_def RANK_GENERATED_def add.assoc)
qed

lemma in_rank_order_set: "\<forall>c \<in> set cs. rank c \<in> set RANKS \<Longrightarrow> set (in_rank_order cs) = set cs"
  by (auto simp: in_rank_order_def)

lemma rankPath_RANKS: "rankPath p n generated \<in> set RANKS"
  by (auto simp: rankPath_def Let_def RANKS_def)

lemma select_chunks_ok:
  assumes "select_chunks chunks avail = (avail', emitted, listed)" and "0 \<le> avail"
    and "\<forall>c \<in> set chunks. rank c \<in> set RANKS"
  shows "int (length (concat emitted)) \<le> avail" and "\<forall>c \<in> set chunks. accounted emitted listed c"
    and "mset (map fst listed) \<subseteq># mset chunks" and "\<forall>p \<in> set listed. snd p \<in> {OMITTED, CLIPPED}"
proof -
  define order where "order = in_rank_order (in_rank_order chunks)"
  have fold: "0 \<le> avail' \<and> avail' + int (length (concat emitted)) = avail + 0 \<and> stage_ok order ([], []) (emitted, listed)"
    using fold_fill_rank [of "in_rank_order chunks" RANKS avail "[]" "[]" avail' emitted listed] assms(1,2)
    by (simp add: select_chunks_def order_def in_rank_order_def)
  then show "int (length (concat emitted)) \<le> avail" by simp
  have "set order = set chunks" using assms(3) by (simp add: order_def in_rank_order_set)
  with fold show "\<forall>c \<in> set chunks. accounted emitted listed c" by (simp add: stage_ok_def)
  have "mset order \<subseteq># mset chunks"
    unfolding order_def using in_rank_order_mset subset_mset.order_trans by blast
  with fold show "mset (map fst listed) \<subseteq># mset chunks" and "\<forall>p \<in> set listed. snd p \<in> {OMITTED, CLIPPED}"
    using subseq_mset subset_mset.order_trans unfolding stage_ok_def by fastforce+
qed


lemma manifest_line_lengths:
  assumes "\<forall>p \<in> set listed. snd p \<in> {OMITTED, CLIPPED}"
  shows "map length (map (\<lambda>(c, status). manifestLine c status) listed) =
    map (\<lambda>c. length (manifestLine c OMITTED)) (map fst listed)"
  using assms by (auto simp: manifestLine_def OMITTED_def CLIPPED_def)

lemma moreLine_mono: "m \<le> n \<Longrightarrow> length (moreLine m) \<le> length (moreLine n)"
  by (simp add: moreLine_def length_string_of_nat_mono)

lemma manifestHeader_mono: "m \<le> n \<Longrightarrow> length (manifestHeader m) \<le> length (manifestHeader n)"
  by (simp add: manifestHeader_def length_string_of_nat_mono)

lemma manifest_within_reserve:
  assumes "mset (map fst listed) \<subseteq># mset chunks" and "\<forall>p \<in> set listed. snd p \<in> {OMITTED, CLIPPED}"
  defines "lines \<equiv> map (\<lambda>(c, status). manifestLine c status) listed"
  shows "length (manifest_out body marker (length listed) lines) + 1 \<le> length body + reserve_bytes chunks marker"
proof -
  have count: "length listed \<le> length chunks" using size_mset_mono [OF assms(1)] by simp
  define omitted where "omitted = (\<lambda>c. length (manifestLine c OMITTED))"
  have "length (concat (take k lines)) = sum_list (take k (map omitted (map fst listed)))" for k
    unfolding length_concat take_map [symmetric] lines_def omitted_def manifest_line_lengths [OF assms(2), symmetric] ..
  then have listed_sum: "length (concat (take MANIFEST_MAX_LINES lines)) =
      sum_list (take MANIFEST_MAX_LINES (map omitted (map fst listed)))" .
  have "mset (map omitted (map fst listed)) \<subseteq># mset (map omitted chunks)"
    using image_mset_subseteq_mono [OF assms(1), of omitted] by (simp only: mset_map)
  note top = sum_top_sort [OF this, of MANIFEST_MAX_LINES]
  have "length (moreLine (length listed - MANIFEST_MAX_LINES)) \<le> length (moreLine (length chunks))"
    using count by (intro moreLine_mono) simp
  with count have more:
    "(if MANIFEST_MAX_LINES < length listed then length (moreLine (length listed - MANIFEST_MAX_LINES)) else 0)
      \<le> (if MANIFEST_MAX_LINES < length chunks then length (moreLine (length chunks)) else 0)" by simp
  have "length (manifest_out body marker (length listed) lines) =
      length body + length marker + 1 + length (manifestHeader (length listed)) +
      length (concat (take MANIFEST_MAX_LINES lines)) +
      (if MANIFEST_MAX_LINES < length listed then length (moreLine (length listed - MANIFEST_MAX_LINES)) else 0)"
    by (simp add: manifest_out_def lines_def del: length_concat)
  moreover have "reserve_bytes chunks marker = 1 + length marker + 1 + length (manifestHeader (length chunks)) +
      sum_list (take MANIFEST_MAX_LINES (rev (sort (map omitted chunks)))) +
      (if MANIFEST_MAX_LINES < length chunks then length (moreLine (length chunks)) else 0)"
    by (simp only: reserve_bytes_def Let_def omitted_def)
  ultimately show ?thesis
    using manifestHeader_mono [OF count] top more listed_sum by linarith
qed

lemma fit_preamble_length: "int (length (fit_preamble p room)) \<le> max 0 room"
  by (auto simp: fit_preamble_def split: option.splits dest!: last_index_less)

lemma with_newline_length: "length (with_newline b) \<le> Suc (length b)"
  by (simp add: with_newline_def)

lemma truncatePlain_length: "int (length (truncatePlain d budget marker)) \<le> max 0 budget"
proof (cases "int (length d) \<le> budget \<or> budget < int (length (10 # marker @ [10]))")
  case True
  then show ?thesis using dots_length [of budget] by (auto simp: truncatePlain_def Let_def)
next
  case False
  then have "length (encode (decodeUtf8Ignore (clip_line d (budget - int (length (10 # marker @ [10])))))) \<le>
      nat (budget - int (length (10 # marker @ [10])))"
    using reencode_length clip_line_length order.trans by blast
  with False show ?thesis by (auto simp: truncatePlain_def Let_def)
qed


text \<open>When the reserve fits, the manifest is complete and nothing is dropped after the selection.\<close>

lemma prioritizeDiff_fits:
  assumes "budget < int (length diff)" and "splitChunks diff = (rawPreamble, raw)" and "raw \<noteq> []"
    and "chunks = map (mk_chunk generated) raw" and "int (reserve_bytes chunks marker) \<le> budget"
    and "room = budget - int (reserve_bytes chunks marker)"
    and "select_chunks chunks (room - int (length (fit_preamble rawPreamble room))) = (rest, emitted, listed)"
    and "body = with_newline (fit_preamble rawPreamble room @ concat emitted)"
    and "lines = map (\<lambda>(c, status). manifestLine c status) listed"
  shows "prioritizeDiff diff budget generated marker = manifest_out body marker (length listed) lines"
    and "int (length (manifest_out body marker (length listed) lines)) \<le> budget"
    and "\<forall>c \<in> set chunks. accounted emitted listed c"
proof -
  have avail: "0 \<le> room - int (length (fit_preamble rawPreamble room))"
    using fit_preamble_length [of rawPreamble room] assms(5,6) by simp
  have ranks: "\<forall>c \<in> set chunks. rank c \<in> set RANKS"
    using rankPath_RANKS by (auto simp: assms(4) mk_chunk_def)
  note sel = select_chunks_ok [OF assms(7) avail ranks]
  show "\<forall>c \<in> set chunks. accounted emitted listed c" by (rule sel(2))
  have "int (length body) \<le> room + 1"
    using sel(1) with_newline_length [of "fit_preamble rawPreamble room @ concat emitted"] assms(8)
    by (simp del: length_concat)
  with manifest_within_reserve [OF sel(3,4), of body marker] assms(6)
  show fits: "int (length (manifest_out body marker (length listed) lines)) \<le> budget"
    unfolding assms(9) by linarith
  have "int (length marker) + 2 \<le> budget" using assms(5) by (simp add: reserve_bytes_def Let_def)
  then show "prioritizeDiff diff budget generated marker = manifest_out body marker (length listed) lines"
    using assms(1,2,3,7) fits
    unfolding prioritizeDiff_def Let_def assms(4,6,8,9)
    by (simp add: fit_manifest.simps [of _ _ _ _ "map _ _"] Let_def)
qed

text \<open>The source chunks come first.\<close>

lemma select_sources_first:
  assumes "select_chunks chunks avail = (avail', emitted, listed)" and "0 \<le> avail"
  defines "sources \<equiv> filter (\<lambda>c. rank c = RANK_SOURCE) chunks"
  assumes fit: "int (sum_list (map (\<lambda>c. length (data c)) sources)) \<le> avail"
  shows "prefix (map data sources) emitted" and "\<forall>(c, status) \<in> set listed. rank c \<noteq> RANK_SOURCE"
proof -
  define ordered where "ordered = in_rank_order chunks"
  have bucket: "filter (\<lambda>c. rank c = RANK_SOURCE) ordered = sources"
    by (simp add: ordered_def in_rank_order_def RANKS_def RANK_SOURCE_def RANK_BULK_def RANK_GENERATED_def
        sources_def filter_empty_conv)
  obtain a1 e1 l1 where s: "fill_rank ordered RANK_SOURCE (avail, [], []) = (a1, e1, l1)"
    by (cases "fill_rank ordered RANK_SOURCE (avail, [], [])")
  note spec = fill_rank_spec [OF s assms(2), unfolded bucket]
  from spec(4) fit have 1: "l1 = []" "e1 = map data sources" by simp_all
  have "fold (fill_rank ordered) [RANK_BULK, RANK_GENERATED] (a1, e1, l1) = (avail', emitted, listed)"
    using assms(1) s by (simp add: select_chunks_def RANKS_def ordered_def)
  from fold_fill_rank [OF this spec(1)] 1
  have stage: "stage_ok (concat (map (\<lambda>r. filter (\<lambda>c. rank c = r) ordered) [RANK_BULK, RANK_GENERATED]))
      (map data sources, []) (emitted, listed)" by simp
  then show "prefix (map data sources) emitted" by (simp add: stage_ok_def)
  have "fst p \<in> set (concat (map (\<lambda>r. filter (\<lambda>c. rank c = r) ordered) [RANK_BULK, RANK_GENERATED]))"
    if "p \<in> set listed" for p
    using stage that list_emb_set [of "(=)" "map fst listed" _ "fst p"] unfolding stage_ok_def by fastforce
  then show "\<forall>(c, status) \<in> set listed. rank c \<noteq> RANK_SOURCE"
    by (force simp: RANK_SOURCE_def RANK_BULK_def RANK_GENERATED_def)
qed


section \<open>Properties\<close>

text \<open>A one-file diff for the witnesses.\<close>

definition sample_diff :: bytes where
  "sample_diff = ascii ''diff --git a/x b/x'' @ 10 # replicate 60 43"

text \<open>Chunks: cutting a diff at its \<^verbatim>\<open>diff --git\<close> lines loses and reorders nothing. The preamble followed
  by the chunks is the diff; a header line starts every chunk and occurs nowhere else in it, nor in the
  preamble; each path is that of its chunk's header.\<close>

lemma split_chunks_exact:
  "case splitChunks diff of (preamble, chunks) \<Rightarrow>
     preamble @ concat (map snd chunks) = diff \<and>
     (\<forall>i. \<not> header_at preamble i) \<and>
     (\<forall>(p, d) \<in> set chunks. p = chunkPath d \<and> (\<forall>i. header_at d i \<longleftrightarrow> i = 0))"
  using splitChunks_exact [of diff] by (cases "splitChunks diff") simp

lemma split_chunks_exact_witness:
  "concat (map snd (snd (splitChunks (ascii ''diff --git a/x b/x'' @ [10] @ ascii ''diff --git a/y b/y''))))
    = ascii ''diff --git a/x b/x'' @ [10] @ ascii ''diff --git a/y b/y''"
proof -
  have "fst (splitChunks (ascii ''diff --git a/x b/x'' @ [10] @ ascii ''diff --git a/y b/y'')) = []"
    by code_simp
  then show ?thesis
    using split_chunks_exact [of "ascii ''diff --git a/x b/x'' @ [10] @ ascii ''diff --git a/y b/y''"]
    by (auto simp: case_prod_unfold)
qed

text \<open>Water filling: the level computed by bisection keeps the files within the available bytes, and no
  level that does so would give any file more.\<close>

lemma water_level_maximal:
  "water_used sizes (waterLevel sizes avail) \<le> avail \<and>
   (\<forall>l. water_used sizes l \<le> avail \<longrightarrow> (\<forall>s \<in> set sizes. min s l \<le> waterLevel sizes avail))"
  using waterLevel_fits waterLevel_highest by blast

lemma water_level_maximal_witness:
  "min (100 :: nat) 40 \<le> waterLevel [100, 10] 50 \<and> water_used [100, 10] 40 = 50"
proof -
  have "water_used [100, 10] 40 = 50" by (simp add: water_used_def)
  moreover from this have "\<forall>s \<in> set [100, 10]. min s 40 \<le> waterLevel [100, 10] 50"
    using water_level_maximal [of "[100, 10]" 50] by (metis le_refl)
  ultimately show ?thesis by simp
qed

text \<open>Budget: a diff that fits is passed through unchanged, and any other comes out within the budget,
  whatever its bytes, its paths, the marker and the sign of the budget.\<close>

lemma prioritize_within_budget:
  "int (length (prioritizeDiff diff budget generated marker)) \<le> max 0 budget \<and>
   (int (length diff) \<le> budget \<longrightarrow> prioritizeDiff diff budget generated marker = diff)"
proof -
  have last: "int (length (if budget < int (length out) then truncatePlain out budget marker else out)) \<le> max 0 budget"
    for out :: bytes
    using truncatePlain_length [of out budget marker] by simp
  show ?thesis
    using truncatePlain_length [of diff budget marker] dots_length [of budget]
    unfolding prioritizeDiff_def Let_def
    by (simp only: case_prod_unfold last split: if_split) simp
qed

lemma prioritize_within_budget_witness:
  "prioritizeDiff (ascii ''diff --git a/x b/x'') 40 [] [] = ascii ''diff --git a/x b/x'' \<and>
   length (prioritizeDiff (ascii ''diff --git a/x b/x'') 5 [] []) \<le> 5"
  using prioritize_within_budget [of "ascii ''diff --git a/x b/x''" 40 "[]" "[]"]
    prioritize_within_budget [of "ascii ''diff --git a/x b/x''" 5 "[]" "[]"] by simp

text \<open>What the output ships of a cut chunk: nothing, or at least 512 bytes of its start and a note of how
  many bytes are missing.\<close>

definition ships_part :: "bytes list \<Rightarrow> chunk \<Rightarrow> bytes \<Rightarrow> bool" where
  "ships_part emitted c status \<longleftrightarrow> status = OMITTED \<or>
     status = CLIPPED \<and> (\<exists>stop. 512 \<le> stop \<and> stop < length (data c) \<and>
       take stop (data c) @ clip_note (length (data c)) stop \<in> set emitted)"

lemma accounted_listed:
  "accounted emitted listed c \<Longrightarrow> data c \<in> set emitted \<or>
    (\<exists>i < length listed. \<exists>status. listed ! i = (c, status) \<and> ships_part emitted c status)"
  unfolding accounted_def ships_part_def in_set_conv_nth [of _ listed] MIN_CHUNK_BYTES_def by blast

text \<open>C37: No chunk disappears without a trace. When the budget has room for the reserve, the output is
  the selected bytes, the marker, the header with the number of files that were cut, the first 200
  manifest lines and, if more were cut, a last line with the number of the others. Each chunk of the
  diff is shipped whole; or it is cut (omitted, or clipped to at least 512 bytes and a note) and then
  it has one of the printed lines, with its path and its counts, or it is among the others that the
  last line counts and does not name. No chunk is counted twice. If the source chunks fit what the
  reserve leaves, they come first and whole.\<close>

lemma prioritize_no_chunk_lost:
  assumes "budget < int (length diff)" and "splitChunks diff = (rawPreamble, raw)" and "raw \<noteq> []"
    and "chunks = map (mk_chunk generated) raw" and "int (reserve_bytes chunks marker) \<le> budget"
  shows "\<exists>preamble emitted listed. prefix preamble rawPreamble \<and>
    mset (map fst listed) \<subseteq># mset chunks \<and>
    (let printed = take 200 (map (\<lambda>(c, status). manifestLine c status) listed); others = length listed - 200 in
     prioritizeDiff diff budget generated marker =
       with_newline (preamble @ concat emitted) @ marker @ [10] @ manifestHeader (length listed) @
       concat printed @ (if 0 < others then moreLine others else []) \<and>
     (\<forall>c \<in> set chunks. data c \<in> set emitted \<or>
        (\<exists>i < length listed. \<exists>status. listed ! i = (c, status) \<and> ships_part emitted c status \<and>
           (if i < 200 then printed ! i = manifestLine c status else i - 200 < others)))) \<and>
    (let sources = filter (\<lambda>c. rank c = RANK_SOURCE) chunks in
     int (length preamble + length (concat (map data sources)) + reserve_bytes chunks marker) \<le> budget
      \<longrightarrow> prefix (map data sources) emitted)"
proof -
  define room where "room = budget - int (reserve_bytes chunks marker)"
  define preamble where "preamble = fit_preamble rawPreamble room"
  obtain rest emitted listed where sel:
    "select_chunks chunks (room - int (length preamble)) = (rest, emitted, listed)"
    by (cases "select_chunks chunks (room - int (length preamble))")
  note fits = prioritizeDiff_fits [OF assms(1-5) room_def sel [unfolded preamble_def] refl refl]
  have avail: "0 \<le> room - int (length preamble)"
    using fit_preamble_length [of rawPreamble room] assms(5) by (simp add: room_def preamble_def)
  have ranks: "\<forall>c \<in> set chunks. rank c \<in> set RANKS"
    using rankPath_RANKS by (auto simp: assms(4) mk_chunk_def)
  let ?lines = "map (\<lambda>(c, status). manifestLine c status) listed"
  have "prefix preamble rawPreamble"
    by (auto simp: preamble_def fit_preamble_def take_is_prefix split: option.splits)
  moreover have "mset (map fst listed) \<subseteq># mset chunks" by (rule select_chunks_ok(3) [OF sel avail ranks])
  moreover have "prioritizeDiff diff budget generated marker =
      with_newline (preamble @ concat emitted) @ marker @ [10] @ manifestHeader (length listed) @
      concat (take 200 ?lines) @ (if 0 < length listed - 200 then moreLine (length listed - 200) else [])"
    unfolding fits(1) manifest_out_def MANIFEST_MAX_LINES_def preamble_def by simp
  moreover have "data c \<in> set emitted \<or>
      (\<exists>i < length listed. \<exists>status. listed ! i = (c, status) \<and> ships_part emitted c status \<and>
         (if i < 200 then take 200 ?lines ! i = manifestLine c status else i - 200 < length listed - 200))"
    if "c \<in> set chunks" for c
    using accounted_listed [OF bspec [OF fits(3) that]]
  proof (elim disjE exE conjE)
    fix i status assume "i < length listed" "listed ! i = (c, status)" "ships_part emitted c status"
    then show ?thesis by (intro disjI2 exI [of _ i]) auto
  qed simp
  moreover have "prefix (map data (filter (\<lambda>c. rank c = RANK_SOURCE) chunks)) emitted"
    if "int (length preamble + length (concat (map data (filter (\<lambda>c. rank c = RANK_SOURCE) chunks))) +
      reserve_bytes chunks marker) \<le> budget"
    using that select_sources_first(1) [OF sel avail] by (simp add: room_def length_concat comp_def)
  ultimately show ?thesis unfolding Let_def by blast
qed

lemma prioritize_no_chunk_lost_witness:
  "\<exists>preamble emitted listed.
    prioritizeDiff sample_diff 60 [] [] =
      with_newline (preamble @ concat emitted) @ [10] @ manifestHeader (length listed) @
      concat (take 200 (map (\<lambda>(c, status). manifestLine c status) listed)) @
      (if 200 < length listed then moreLine (length listed - 200) else []) \<and>
    length listed \<le> 1 \<and>
    (sample_diff \<in> set emitted \<or> fst (listed ! 0) = mk_chunk [] (ascii ''x'', sample_diff))"
proof -
  let ?c = "mk_chunk [] (ascii ''x'', sample_diff)"
  have 1: "splitChunks sample_diff = ([], [(ascii ''x'', sample_diff)])" by code_simp
  have 2: "(60 :: int) < int (length sample_diff)" by (simp add: sample_diff_def)
  have 3: "int (reserve_bytes [?c] []) \<le> 60" by code_simp
  have 4: "[?c] = map (mk_chunk []) [(ascii ''x'', sample_diff)]" by simp
  obtain preamble emitted listed where
    m: "mset (map fst listed) \<subseteq># mset [?c]" and
    out: "prioritizeDiff sample_diff 60 [] [] =
      with_newline (preamble @ concat emitted) @ [] @ [10] @ manifestHeader (length listed) @
      concat (take 200 (map (\<lambda>(c, status). manifestLine c status) listed)) @
      (if 0 < length listed - 200 then moreLine (length listed - 200) else [])" and
    all: "\<forall>c \<in> set [?c]. data c \<in> set emitted \<or>
        (\<exists>i < length listed. \<exists>status. listed ! i = (c, status) \<and> ships_part emitted c status \<and>
           (if i < 200 then take 200 (map (\<lambda>(c, status). manifestLine c status) listed) ! i = manifestLine c status
            else i - 200 < length listed - 200))"
    using prioritize_no_chunk_lost [OF 2 1 list.distinct(2) 4 3] unfolding Let_def by blast
  have c: "data ?c \<in> set emitted \<or> (\<exists>i < length listed. \<exists>status. listed ! i = (?c, status))"
    using bspec [OF all, of ?c] by auto
  from m have len: "length listed \<le> 1" using size_mset_mono by fastforce
  have "data ?c = sample_diff" by (simp add: mk_chunk_def)
  with c len have "sample_diff \<in> set emitted \<or> fst (listed ! 0) = ?c"
    by (metis fst_conv less_one linorder_not_less order_less_le_trans)
  with out len show ?thesis
    by (intro exI [of _ preamble] exI [of _ emitted] exI [of _ listed]) auto
qed

end
