(* ===== verification/Partition.thy ===== *)
theory Partition
  imports Diff_Priority "HOL-Library.Multiset"
begin

text \<open>
  Partitioned review: \<^verbatim>\<open>src/partition/types.ts\<close>, \<^verbatim>\<open>plan.ts\<close> and \<^verbatim>\<open>coverage.ts\<close>. A large pull request
  is cut into parts of whole files under caps; the outcomes of the parts are folded into one coverage
  verdict that must not be complete unless every file was read.

  A file name is a list of code points; names are ordered by their UTF-16 code units, as \<open><\<close> on
  JavaScript strings orders them. \<open>Array.sort\<close> is stable, as \<open>sort_by\<close> is. SHA-256 (in hexadecimal) is
  the parameter \<open>sha\<close>. Maps and sets of names are association lists and lists.
\<close>

section \<open>Types\<close>

record partition_limits =
  maxParts :: int
  maxFilesPerPart :: int
  maxBytesPerPart :: int
  maxFileBytes :: int
  maxCrossPartitionRefsPerPart :: int
  maxCrossPartitionScanBytes :: int

definition DEFAULT_PARTITION_LIMITS :: partition_limits where
  "DEFAULT_PARTITION_LIMITS =
     \<lparr>maxParts = 8, maxFilesPerPart = 40, maxBytesPerPart = 200000, maxFileBytes = 400000,
      maxCrossPartitionRefsPerPart = 64, maxCrossPartitionScanBytes = 131072\<rparr>"

text \<open>\<open>Partial<PartitionLimits>\<close>\<close>

record limit_overrides =
  o_maxParts :: "int option"
  o_maxFilesPerPart :: "int option"
  o_maxBytesPerPart :: "int option"
  o_maxFileBytes :: "int option"
  o_maxRefs :: "int option"
  o_maxScanBytes :: "int option"

record changed_file =
  cf_filename :: code_points
  cf_status :: code_points

record plan_input =
  changedFiles :: "changed_file list"
  pr_diff :: bytes
  generatedPaths :: "code_points list option"
  plan_headSha :: string
  plan_baseSha :: string
  limits_in :: "limit_overrides option"

record file_ref =
  ref_filename :: code_points
  ref_rank :: nat
  ref_bytes :: nat
  ref_status :: code_points
  ref_oversized :: bool
  ref_no_diff :: bool

record part =
  part_index :: nat
  part_files :: "file_ref list"
  part_bytes :: nat
  part_truncated :: bool
  part_identity :: string

record coverage =
  cov_complete :: bool
  cov_reasons :: "string list"
  cov_changed_files_total :: nat
  cov_assigned_files :: nat
  cov_unassigned_files :: "code_points list"
  cov_oversized_files :: "code_points list"
  cov_no_diff_files :: "code_points list"

record cross_ref =
  ref_from :: code_points
  ref_to :: code_points

record manifest =
  man_head_sha :: string
  man_base_sha :: string
  man_diff_fingerprint :: string
  man_limits :: partition_limits
  man_parts :: "part list"
  man_cross_refs :: "cross_ref list"
  man_coverage :: coverage

datatype outcome_status = O_complete | O_failed | O_timeout | O_truncated | O_missing | O_superseded

record outcome =
  out_index :: nat
  out_status :: outcome_status
  out_headSha :: string
  out_diffFingerprint :: string
  out_partitionIdentity :: string

record partial_coverage =
  stop_reason :: string
  pc_changed_files_total :: nat
  pc_unread_files :: "code_points list"
  pc_leads_total :: nat
  pc_unresolved_leads :: "string list"

section \<open>Names\<close>

definition utf16_unit :: "nat \<Rightarrow> nat list" where
  "utf16_unit n =
     (if int n < 0x10000 then [n]
      else [0xD800 + (n - 0x10000) div 0x400, 0xDC00 + (n - 0x10000) mod 0x400])"

definition utf16 :: "code_points \<Rightarrow> nat list" where
  "utf16 s = concat (map utf16_unit s)"

text \<open>\<open>String.prototype.trim\<close>: white space and line terminators.\<close>

definition text_space :: "nat \<Rightarrow> bool" where
  "text_space c =
     (if c < 0x80 then 9 \<le> c \<and> c \<le> 13 \<or> c = 32
      else c \<in> {160, 0x1680, 0x2028, 0x2029, 0x202F, 0x205F, 0x3000, 0xFEFF} \<or> 0x2000 \<le> c \<and> c \<le> 0x200A)"

definition text_trim :: "code_points \<Rightarrow> code_points" where
  "text_trim s = rev (dropWhile text_space (rev (dropWhile text_space s)))"

text \<open>\<open>Array.sort\<close> by a key.\<close>

definition sort_by :: "('a \<Rightarrow> 'k :: linorder) \<Rightarrow> 'a list \<Rightarrow> 'a list" where
  "sort_by key xs = foldr (insort_key key) xs []"

lemma sort_by_eq: "sort_by key xs = sort_key key xs"
  by (simp add: sort_by_def sort_key_def)

definition sort_names :: "code_points list \<Rightarrow> code_points list" where
  "sort_names = sort_by utf16"

definition basename :: "code_points \<Rightarrow> code_points" where
  "basename p = (case last_index 0x2F p of Some i \<Rightarrow> drop (i + 1) p | None \<Rightarrow> p)"

definition diffFingerprint :: "(bytes \<Rightarrow> string) \<Rightarrow> bytes \<Rightarrow> string" where
  "diffFingerprint sha diff = sha diff"

definition computePartitionIdentity :: "(bytes \<Rightarrow> string) \<Rightarrow> code_points list \<Rightarrow> string" where
  "computePartitionIdentity sha filenames = sha (encode (join_nl (sort_names filenames)))"

section \<open>The plan\<close>

definition override :: "'a option \<Rightarrow> 'a \<Rightarrow> 'a" where
  "override v d = (case v of Some x \<Rightarrow> x | None \<Rightarrow> d)"

definition resolveLimits :: "limit_overrides option \<Rightarrow> partition_limits" where
  "resolveLimits overrides =
     (case overrides of
        None \<Rightarrow> DEFAULT_PARTITION_LIMITS
      | Some ov \<Rightarrow>
          \<lparr>maxParts = override (o_maxParts ov) (maxParts DEFAULT_PARTITION_LIMITS),
           maxFilesPerPart = override (o_maxFilesPerPart ov) (maxFilesPerPart DEFAULT_PARTITION_LIMITS),
           maxBytesPerPart = override (o_maxBytesPerPart ov) (maxBytesPerPart DEFAULT_PARTITION_LIMITS),
           maxFileBytes = override (o_maxFileBytes ov) (maxFileBytes DEFAULT_PARTITION_LIMITS),
           maxCrossPartitionRefsPerPart =
             override (o_maxRefs ov) (maxCrossPartitionRefsPerPart DEFAULT_PARTITION_LIMITS),
           maxCrossPartitionScanBytes =
             override (o_maxScanBytes ov) (maxCrossPartitionScanBytes DEFAULT_PARTITION_LIMITS)\<rparr>)"

definition chunkMap :: "bytes \<Rightarrow> (code_points \<times> bytes) list" where
  "chunkMap diff =
     foldl (\<lambda>m (p, d). if map_of m (decodeUtf8Ignore p) = None then m @ [(decodeUtf8Ignore p, d)] else m)
       [] (snd (splitChunks diff))"

record eligible_file =
  el_filename :: code_points
  el_status :: code_points
  el_bytes :: nat
  el_rank :: nat
  el_noDiff :: bool
  el_oversized :: bool

definition chunk_bytes :: "(code_points \<times> bytes) list \<Rightarrow> code_points \<Rightarrow> nat" where
  "chunk_bytes chunks filename = (case map_of chunks filename of None \<Rightarrow> 0 | Some d \<Rightarrow> length d)"

definition mk_eligible ::
  "partition_limits \<Rightarrow> (code_points \<times> bytes) list \<Rightarrow> code_points list \<Rightarrow> changed_file \<Rightarrow> eligible_file" where
  "mk_eligible limits chunks generated file =
     (let filename = text_trim (cf_filename file); n = chunk_bytes chunks filename in
      \<lparr>el_filename = filename, el_status = cf_status file, el_bytes = n,
       el_rank = rankPath (encode filename) n generated, el_noDiff = (n = 0),
       el_oversized = (maxFileBytes limits < int n)\<rparr>)"

fun collect ::
  "(changed_file \<Rightarrow> eligible_file) \<Rightarrow> code_points list \<Rightarrow> changed_file list \<Rightarrow> eligible_file list" where
  "collect mk seen [] = []"
| "collect mk seen (file # files) =
     (let filename = text_trim (cf_filename file) in
      if filename = [] \<or> filename \<in> set seen then collect mk seen files
      else mk file # collect mk (filename # seen) files)"

definition collectEligible ::
  "changed_file list \<Rightarrow> partition_limits \<Rightarrow> (code_points \<times> bytes) list \<Rightarrow> code_points list \<Rightarrow> eligible_file list" where
  "collectEligible files limits chunks generated =
     sort_by (\<lambda>f. (el_rank f, utf16 (el_filename f)))
       (collect (mk_eligible limits chunks generated) [] files)"

definition makePart ::
  "(bytes \<Rightarrow> string) \<Rightarrow> nat \<Rightarrow> file_ref list \<Rightarrow> nat \<Rightarrow> bool \<Rightarrow> part" where
  "makePart sha index files n truncated =
     \<lparr>part_index = index, part_files = files, part_bytes = n, part_truncated = truncated,
      part_identity = computePartitionIdentity sha (map ref_filename files)\<rparr>"

record assign_state =
  as_parts :: "part list"
  as_unassigned :: "code_points list"
  as_oversized :: "code_points list"
  as_noDiff :: "code_points list"
  as_current :: "file_ref list"
  as_currentBytes :: nat

definition flush :: "(bytes \<Rightarrow> string) \<Rightarrow> assign_state \<Rightarrow> assign_state" where
  "flush sha st =
     (if as_current st = [] then st
      else st\<lparr>as_parts := as_parts st @
            [makePart sha (length (as_parts st)) (as_current st) (as_currentBytes st) False],
          as_current := [], as_currentBytes := 0\<rparr>)"

definition mk_ref :: "eligible_file \<Rightarrow> file_ref" where
  "mk_ref f = \<lparr>ref_filename = el_filename f, ref_rank = el_rank f, ref_bytes = el_bytes f,
     ref_status = el_status f, ref_oversized = el_oversized f, ref_no_diff = el_noDiff f\<rparr>"

definition unassign :: "eligible_file \<Rightarrow> assign_state \<Rightarrow> assign_state" where
  "unassign f st = st\<lparr>as_unassigned := as_unassigned st @ [el_filename f]\<rparr>"

definition note_file :: "eligible_file \<Rightarrow> assign_state \<Rightarrow> assign_state" where
  "note_file f st =
     st\<lparr>as_noDiff := (if el_noDiff f then as_noDiff st @ [el_filename f] else as_noDiff st),
        as_oversized := (if el_oversized f then as_oversized st @ [el_filename f] else as_oversized st)\<rparr>"

definition full :: "partition_limits \<Rightarrow> assign_state \<Rightarrow> bool" where
  "full limits st = (maxParts limits \<le> int (length (as_parts st)))"

definition place :: "(bytes \<Rightarrow> string) \<Rightarrow> partition_limits \<Rightarrow> eligible_file \<Rightarrow> assign_state \<Rightarrow> assign_state" where
  "place sha limits f st0 =
     (let st = note_file f st0 in
      if el_oversized f
      then
        (let st1 = flush sha st in
         if full limits st1 then unassign f st1
         else st1\<lparr>as_parts := as_parts st1 @
                [makePart sha (length (as_parts st1)) [mk_ref f] (el_bytes f) True]\<rparr>)
      else
        let needNew = maxFilesPerPart limits \<le> int (length (as_current st)) \<or>
              maxBytesPerPart limits < int (as_currentBytes st + el_bytes f) \<and> as_current st \<noteq> [];
            st1 = (if needNew then flush sha st else st) in
        if full limits st1 then unassign f st1
        else st1\<lparr>as_current := as_current st1 @ [mk_ref f],
                 as_currentBytes := as_currentBytes st1 + el_bytes f\<rparr>)"

definition assign_start :: assign_state where
  "assign_start = \<lparr>as_parts = [], as_unassigned = [], as_oversized = [], as_noDiff = [],
     as_current = [], as_currentBytes = 0\<rparr>"

definition assignParts :: "(bytes \<Rightarrow> string) \<Rightarrow> partition_limits \<Rightarrow> eligible_file list \<Rightarrow> assign_state" where
  "assignParts sha limits eligible = flush sha (fold (place sha limits) eligible assign_start)"


section \<open>References across parts\<close>

definition token_char :: "nat \<Rightarrow> bool" where
  "token_char c = (0x41 \<le> c \<and> c \<le> 0x5A \<or> 0x61 \<le> c \<and> c \<le> 0x7A \<or> 0x30 \<le> c \<and> c \<le> 0x39
     \<or> c = 0x5F \<or> c = 0x2E \<or> c = 0x2F \<or> c = 0x2D)"

text \<open>The matches of \<open>/[A-Za-z0-9_./-]+/g\<close>.\<close>

function tokens :: "code_points \<Rightarrow> code_points list" where
  "tokens t =
     (case dropWhile (\<lambda>c. \<not> token_char c) t of
        [] \<Rightarrow> []
      | c # cs \<Rightarrow> (c # takeWhile token_char cs) # tokens (dropWhile token_char cs))"
  by pat_completeness auto
termination
proof (relation "measure length")
  fix t c and cs :: code_points
  assume "dropWhile (\<lambda>c. \<not> token_char c) t = c # cs"
  then have "length cs < length t"
    using length_dropWhile_le [of "\<lambda>c. \<not> token_char c" t] by simp
  then show "(dropWhile token_char cs, t) \<in> measure length"
    using length_dropWhile_le [of token_char cs] by simp
qed simp

declare tokens.simps [simp del]

definition part_index_of :: "part list \<Rightarrow> code_points \<Rightarrow> nat option" where
  "part_index_of parts =
     map_of (rev (concat (map (\<lambda>p. map (\<lambda>r. (ref_filename r, part_index p)) (part_files p)) parts)))"

definition basename_owners :: "eligible_file list \<Rightarrow> code_points \<Rightarrow> code_points list" where
  "basename_owners eligible b =
     map el_filename (filter (\<lambda>f. basename (el_filename f) = b) eligible)"

text \<open>\<open>byBasename.get(b) ?? []\<close>: the owner of a base name that only one file has and that is not
  shorter than four code units.\<close>

definition by_basename :: "eligible_file list \<Rightarrow> code_points \<Rightarrow> code_points list" where
  "by_basename eligible b =
     (if length (basename_owners eligible b) = 1 \<and> 4 \<le> length (utf16 b)
      then basename_owners eligible b else [])"

definition token_targets :: "eligible_file list \<Rightarrow> code_points \<Rightarrow> code_points list" where
  "token_targets eligible token =
     (if token \<in> el_filename ` set eligible then [token] else by_basename eligible (basename token))"

text \<open>The key of an edge in the sets of seen edges: the two names joined by a NUL.\<close>

definition edge_key :: "cross_ref \<Rightarrow> code_points" where
  "edge_key e = ref_from e @ 0 # ref_to e"

text \<open>\<open>subarray(0, k)\<close>, where a negative end counts from the back.\<close>

definition subarray_to :: "int \<Rightarrow> 'a list \<Rightarrow> 'a list" where
  "subarray_to k xs = take (nat (if k < 0 then int (length xs) + k else k)) xs"

definition add_edge ::
  "part list \<Rightarrow> part \<Rightarrow> code_points \<Rightarrow> code_points \<Rightarrow> cross_ref list \<Rightarrow> cross_ref list" where
  "add_edge parts p source target found =
     (if target = source \<or> part_index_of parts target = Some (part_index p) \<or>
         source @ 0 # target \<in> edge_key ` set found
      then found else found @ [\<lparr>ref_from = source, ref_to = target\<rparr>])"

definition scan_ref ::
  "eligible_file list \<Rightarrow> part list \<Rightarrow> (code_points \<times> bytes) list \<Rightarrow> partition_limits \<Rightarrow> part
    \<Rightarrow> file_ref \<Rightarrow> cross_ref list \<Rightarrow> cross_ref list" where
  "scan_ref eligible parts chunks limits p r found =
     (case map_of chunks (ref_filename r) of
        None \<Rightarrow> found
      | Some chunk_data \<Rightarrow>
          if chunk_data = [] then found
          else
            let text = decodeUtf8Ignore
                  (subarray_to (min (int (length chunk_data)) (maxCrossPartitionScanBytes limits)) chunk_data) in
            fold (\<lambda>token. fold (add_edge parts p (ref_filename r)) (token_targets eligible token))
              (tokens text) found)"

definition part_edges ::
  "eligible_file list \<Rightarrow> part list \<Rightarrow> (code_points \<times> bytes) list \<Rightarrow> partition_limits \<Rightarrow> part \<Rightarrow> cross_ref list" where
  "part_edges eligible parts chunks limits p =
     take (nat (max 0 (maxCrossPartitionRefsPerPart limits)))
       (sort_by (\<lambda>e. utf16 (ref_to e))
         (fold (scan_ref eligible parts chunks limits p) (part_files p) []))"

definition crossPartitionRefs ::
  "eligible_file list \<Rightarrow> part list \<Rightarrow> (code_points \<times> bytes) list \<Rightarrow> partition_limits \<Rightarrow> cross_ref list" where
  "crossPartitionRefs eligible parts chunks limits =
     sort_by (\<lambda>e. (utf16 (ref_from e), utf16 (ref_to e)))
       (fold (\<lambda>e edges. if edge_key e \<in> edge_key ` set edges then edges else edges @ [e])
         (concat (map (part_edges eligible parts chunks limits) parts)) [])"

section \<open>The manifest\<close>

definition coverage_of :: "eligible_file list \<Rightarrow> assign_state \<Rightarrow> coverage" where
  "coverage_of eligible st =
     (let reasons = sort_by (\<lambda>r. r)
            ((if as_unassigned st \<noteq> [] then [''part-cap''] else []) @
             (if as_oversized st \<noteq> [] then [''oversized-file''] else []) @
             (if as_noDiff st \<noteq> [] then [''no-diff-file''] else [])) in
      \<lparr>cov_complete = (reasons = []), cov_reasons = reasons,
       cov_changed_files_total = length eligible,
       cov_assigned_files = sum_list (map (\<lambda>p. length (part_files p)) (as_parts st)),
       cov_unassigned_files = sort_names (as_unassigned st),
       cov_oversized_files = sort_names (as_oversized st),
       cov_no_diff_files = sort_names (as_noDiff st)\<rparr>)"

definition plan_eligible :: "plan_input \<Rightarrow> eligible_file list" where
  "plan_eligible inp =
     collectEligible (changedFiles inp) (resolveLimits (limits_in inp)) (chunkMap (pr_diff inp))
       (override (generatedPaths inp) [])"

definition planPartitions :: "(bytes \<Rightarrow> string) \<Rightarrow> plan_input \<Rightarrow> manifest" where
  "planPartitions sha inp =
     (let limits = resolveLimits (limits_in inp);
          chunks = chunkMap (pr_diff inp);
          eligible = plan_eligible inp;
          st = assignParts sha limits eligible in
      \<lparr>man_head_sha = plan_headSha inp, man_base_sha = plan_baseSha inp,
       man_diff_fingerprint = diffFingerprint sha (pr_diff inp), man_limits = limits,
       man_parts = as_parts st,
       man_cross_refs = crossPartitionRefs eligible (as_parts st) chunks limits,
       man_coverage = coverage_of eligible st\<rparr>)"

definition partitionDiffBytes :: "part \<Rightarrow> bytes \<Rightarrow> bytes" where
  "partitionDiffBytes p diff =
     concat (map (\<lambda>r. case map_of (chunkMap diff) (ref_filename r) of Some d \<Rightarrow> d | None \<Rightarrow> []) (part_files p))"

section \<open>Coverage\<close>

definition isManifestStale :: "manifest \<Rightarrow> string \<Rightarrow> bool" where
  "isManifestStale m currentHead = (man_head_sha m \<noteq> currentHead)"

definition outcomeMatchesManifest :: "outcome \<Rightarrow> manifest \<Rightarrow> bool" where
  "outcomeMatchesManifest o1 m =
     (if out_headSha o1 \<noteq> man_head_sha m then False
      else if out_diffFingerprint o1 \<noteq> man_diff_fingerprint m then False
      else (case List.find (\<lambda>p. part_index p = out_index o1) (man_parts m) of
              None \<Rightarrow> False
            | Some p \<Rightarrow> out_partitionIdentity o1 = part_identity p))"

text \<open>\<open>(valid, ambiguous, seenIndices)\<close>\<close>

type_synonym validation = "(nat \<times> outcome_status) list \<times> nat list \<times> nat list"

definition validate_step :: "manifest \<Rightarrow> outcome \<Rightarrow> validation \<Rightarrow> validation" where
  "validate_step m o1 v =
     (case v of (valid, ambiguous, seen) \<Rightarrow>
        if out_index o1 \<in> set seen
        then (AList.delete (out_index o1) valid, out_index o1 # ambiguous, seen)
        else if \<not> outcomeMatchesManifest o1 m then (valid, ambiguous, out_index o1 # seen)
        else (AList.update (out_index o1) (out_status o1) valid, ambiguous, out_index o1 # seen))"

definition validateOutcomes :: "outcome list \<Rightarrow> manifest \<Rightarrow> validation" where
  "validateOutcomes outcomes m = fold (validate_step m) outcomes ([], [], [])"

definition part_incomplete :: "validation \<Rightarrow> part \<Rightarrow> bool" where
  "part_incomplete v p =
     (case v of (valid, ambiguous, _) \<Rightarrow>
        part_index p \<in> set ambiguous \<or> map_of valid (part_index p) \<noteq> Some O_complete)"

definition partitionCoverageGap :: "manifest \<Rightarrow> outcome list \<Rightarrow> string \<Rightarrow> partial_coverage option" where
  "partitionCoverageGap m outcomes currentHead =
     (let v = validateOutcomes outcomes m;
          bad = filter (part_incomplete v) (man_parts m);
          cov = man_coverage m;
          unread = concat (map (\<lambda>p. map ref_filename (part_files p)) bad) @
            cov_unassigned_files cov @ cov_oversized_files cov @ cov_no_diff_files cov;
          incomplete = (isManifestStale m currentHead \<or> bad \<noteq> [] \<or> \<not> cov_complete cov) in
      if \<not> incomplete then None
      else Some \<lparr>stop_reason = ''partition-incomplete'',
                 pc_changed_files_total = cov_changed_files_total cov,
                 pc_unread_files = sort_names (remdups unread),
                 pc_leads_total = 0, pc_unresolved_leads = []\<rparr>)"

end
