(* ===== verification/Partition_Properties.thy ===== *)
theory Partition_Properties
  imports Partition
begin

text \<open>
  What the partition planner and the coverage fold promise: every changed file is in exactly one part
  or listed as unassigned, the parts respect the caps, and the run counts as covered only when every
  part has exactly one complete outcome of the same planning round.
\<close>

section \<open>The assignment loop\<close>

definition part_ok :: "(bytes \<Rightarrow> string) \<Rightarrow> partition_limits \<Rightarrow> part \<Rightarrow> bool" where
  "part_ok sha limits p =
     (part_files p \<noteq> [] \<and> part_bytes p = sum_list (map ref_bytes (part_files p)) \<and>
      part_identity p = computePartitionIdentity sha (map ref_filename (part_files p)) \<and>
      int (length (part_files p)) \<le> max 1 (maxFilesPerPart limits) \<and>
      (int (part_bytes p) \<le> maxBytesPerPart limits \<or> length (part_files p) = 1) \<and>
      (if part_truncated p then \<exists>r. part_files p = [r] \<and> ref_oversized r
       else \<forall>r \<in> set (part_files p). \<not> ref_oversized r))"

definition assigned_refs :: "assign_state \<Rightarrow> file_ref list" where
  "assigned_refs st = concat (map part_files (as_parts st)) @ as_current st"

definition current_ok :: "partition_limits \<Rightarrow> assign_state \<Rightarrow> bool" where
  "current_ok limits st =
     (as_currentBytes st = sum_list (map ref_bytes (as_current st)) \<and>
      (\<forall>r \<in> set (as_current st). \<not> ref_oversized r) \<and>
      int (length (as_current st)) \<le> max 1 (maxFilesPerPart limits) \<and>
      (int (as_currentBytes st) \<le> maxBytesPerPart limits \<or> length (as_current st) \<le> 1) \<and>
      (as_current st \<noteq> [] \<longrightarrow> \<not> full limits st))"

definition assign_inv ::
  "(bytes \<Rightarrow> string) \<Rightarrow> partition_limits \<Rightarrow> eligible_file list \<Rightarrow> assign_state \<Rightarrow> bool" where
  "assign_inv sha limits seen st =
     (subseq (assigned_refs st) (map mk_ref seen) \<and>
      mset (map ref_filename (assigned_refs st)) + mset (as_unassigned st) = mset (map el_filename seen) \<and>
      map part_index (as_parts st) = [0..<length (as_parts st)] \<and>
      int (length (as_parts st)) \<le> max 0 (maxParts limits) \<and>
      (\<forall>p \<in> set (as_parts st). part_ok sha limits p) \<and>
      as_oversized st = map el_filename (filter el_oversized seen) \<and>
      as_noDiff st = map el_filename (filter el_noDiff seen) \<and>
      current_ok limits st)"

lemma flush_facts:
  "assigned_refs (flush sha st) = assigned_refs st" "as_unassigned (flush sha st) = as_unassigned st"
  "as_oversized (flush sha st) = as_oversized st" "as_noDiff (flush sha st) = as_noDiff st"
  "as_current (flush sha st) = []" "as_current st = [] \<Longrightarrow> flush sha st = st"
  by (auto simp: flush_def assigned_refs_def makePart_def)

lemma flush_inv:
  assumes "assign_inv sha limits seen st"
  shows "assign_inv sha limits seen (flush sha st)"
proof (cases "as_current st = []")
  case True
  then show ?thesis using assms by (simp add: flush_def)
next
  case False
  have cur: "current_ok limits st" and ok: "\<forall>p \<in> set (as_parts st). part_ok sha limits p"
    and idx: "map part_index (as_parts st) = [0..<length (as_parts st)]"
    using assms by (simp_all add: assign_inv_def)
  define p where "p = makePart sha (length (as_parts st)) (as_current st) (as_currentBytes st) False"
  have parts: "as_parts (flush sha st) = as_parts st @ [p]" and "as_currentBytes (flush sha st) = 0"
    using False by (simp_all add: flush_def p_def)
  moreover have "part_ok sha limits p"
    using cur False by (auto simp: part_ok_def p_def makePart_def current_ok_def le_Suc_eq)
  moreover have "int (length (as_parts st @ [p])) \<le> max 0 (maxParts limits)"
    using cur False by (simp add: current_ok_def full_def)
  ultimately show ?thesis using assms idx ok
    unfolding assign_inv_def flush_facts(1-4)
    by (simp add: current_ok_def flush_facts(5) p_def makePart_def)
qed

lemma note_file_facts [simp]:
  "as_parts (note_file f st) = as_parts st" "as_current (note_file f st) = as_current st"
  "as_currentBytes (note_file f st) = as_currentBytes st" "as_unassigned (note_file f st) = as_unassigned st"
  "assigned_refs (note_file f st) = assigned_refs st" "current_ok limits (note_file f st) = current_ok limits st"
  "full limits (note_file f st) = full limits st"
  by (simp_all add: note_file_def assigned_refs_def current_ok_def full_def)

text \<open>The invariant while \<open>f\<close> is being placed: its notes are taken, its assignment is not.\<close>

definition noted_inv ::
  "(bytes \<Rightarrow> string) \<Rightarrow> partition_limits \<Rightarrow> eligible_file list \<Rightarrow> eligible_file \<Rightarrow> assign_state \<Rightarrow> bool" where
  "noted_inv sha limits seen f st =
     (\<exists>st0. assign_inv sha limits seen st0 \<and> st = note_file f st0)"

lemma flush_note: "flush sha (note_file f st) = note_file f (flush sha st)"
  by (simp add: flush_def note_file_def)

lemma flush_noted: "noted_inv sha limits seen f st \<Longrightarrow> noted_inv sha limits seen f (flush sha st)"
  unfolding noted_inv_def using flush_inv flush_note by metis

lemma subseq_snoc: "subseq xs ys \<Longrightarrow> subseq xs (ys @ [y])" and subseq_snoc2: "subseq xs ys \<Longrightarrow> subseq (xs @ [y]) (ys @ [y])"
  by (auto intro: subseq_order.order_trans list_emb_append_mono)

lemma note_file_notes:
  "as_oversized (note_file f st) = as_oversized st @ map el_filename (filter el_oversized [f])"
  "as_noDiff (note_file f st) = as_noDiff st @ map el_filename (filter el_noDiff [f])"
  by (simp_all add: note_file_def)

lemma noted_invD:
  assumes "noted_inv sha limits seen f st"
  shows "subseq (assigned_refs st) (map mk_ref seen)"
    and "mset (map ref_filename (assigned_refs st)) + mset (as_unassigned st) = mset (map el_filename seen)"
    and "map part_index (as_parts st) = [0..<length (as_parts st)]"
    and "int (length (as_parts st)) \<le> max 0 (maxParts limits)"
    and "\<forall>p \<in> set (as_parts st). part_ok sha limits p"
    and "as_oversized st = map el_filename (filter el_oversized (seen @ [f]))"
    and "as_noDiff st = map el_filename (filter el_noDiff (seen @ [f]))"
    and "current_ok limits st"
proof -
  obtain st0 where inv: "assign_inv sha limits seen st0" and st: "st = note_file f st0"
    using assms by (auto simp: noted_inv_def)
  show "subseq (assigned_refs st) (map mk_ref seen)"
    and "mset (map ref_filename (assigned_refs st)) + mset (as_unassigned st) = mset (map el_filename seen)"
    and "map part_index (as_parts st) = [0..<length (as_parts st)]"
    and "int (length (as_parts st)) \<le> max 0 (maxParts limits)"
    and "\<forall>p \<in> set (as_parts st). part_ok sha limits p"
    and "as_oversized st = map el_filename (filter el_oversized (seen @ [f]))"
    and "as_noDiff st = map el_filename (filter el_noDiff (seen @ [f]))"
    and "current_ok limits st"
    using inv unfolding st assign_inv_def note_file_facts note_file_notes by simp_all
qed

lemma unassign_facts [simp]:
  "assigned_refs (unassign f st) = assigned_refs st" "current_ok limits (unassign f st) = current_ok limits st"
  "as_parts (unassign f st) = as_parts st" "as_oversized (unassign f st) = as_oversized st"
  "as_noDiff (unassign f st) = as_noDiff st" "as_unassigned (unassign f st) = as_unassigned st @ [el_filename f]"
  by (simp_all add: unassign_def assigned_refs_def current_ok_def full_def)

lemma unassign_inv:
  assumes "noted_inv sha limits seen f st"
  shows "assign_inv sha limits (seen @ [f]) (unassign f st)"
  using noted_invD [OF assms] subseq_snoc [OF noted_invD(1) [OF assms]]
  by (simp add: assign_inv_def add.assoc [symmetric])

lemma place_oversized_inv:
  assumes "noted_inv sha limits seen f st" and "as_current st = []" and "\<not> full limits st" and "el_oversized f"
  shows "assign_inv sha limits (seen @ [f])
    (st\<lparr>as_parts := as_parts st @ [makePart sha (length (as_parts st)) [mk_ref f] (el_bytes f) True]\<rparr>)"
proof -
  have "part_ok sha limits (makePart sha (length (as_parts st)) [mk_ref f] (el_bytes f) True)"
    using assms(4) by (auto simp: part_ok_def makePart_def mk_ref_def)
  moreover have "assigned_refs (st\<lparr>as_parts := as_parts st @
      [makePart sha (length (as_parts st)) [mk_ref f] (el_bytes f) True]\<rparr>) = assigned_refs st @ [mk_ref f]"
    using assms(2) by (simp add: assigned_refs_def makePart_def)
  ultimately show ?thesis
    using noted_invD [OF assms(1)] subseq_snoc2 [OF noted_invD(1) [OF assms(1)]] assms(2,3)
    by (simp add: assign_inv_def current_ok_def full_def makePart_def mk_ref_def)
qed

lemma place_current_inv:
  assumes "noted_inv sha limits seen f st" and "\<not> full limits st" and "\<not> el_oversized f"
    and "as_current st = [] \<or> int (length (as_current st)) < maxFilesPerPart limits \<and>
      int (as_currentBytes st + el_bytes f) \<le> maxBytesPerPart limits"
  shows "assign_inv sha limits (seen @ [f])
    (st\<lparr>as_current := as_current st @ [mk_ref f], as_currentBytes := as_currentBytes st + el_bytes f\<rparr>)"
proof -
  note inv = noted_invD [OF assms(1)]
  have cur: "current_ok limits (st\<lparr>as_current := as_current st @ [mk_ref f], as_currentBytes := as_currentBytes st + el_bytes f\<rparr>)"
    using inv(8) assms(2-4) by (auto simp: current_ok_def full_def mk_ref_def)
  have refs: "assigned_refs (st\<lparr>as_current := as_current st @ [mk_ref f], as_currentBytes := as_currentBytes st + el_bytes f\<rparr>)
      = assigned_refs st @ [mk_ref f]" by (simp add: assigned_refs_def)
  show ?thesis
    using inv cur subseq_snoc2 [OF inv(1)] unfolding assign_inv_def refs
    by (simp add: mk_ref_def)
qed

lemma place_inv:
  assumes "assign_inv sha limits seen st"
  shows "assign_inv sha limits (seen @ [f]) (place sha limits f st)"
proof -
  define st1 where "st1 = note_file f st"
  have noted: "noted_inv sha limits seen f st1" using assms by (auto simp: noted_inv_def st1_def)
  note flushed = flush_noted [OF noted] flush_facts(5) [of sha st1]
  show ?thesis
  proof (cases "el_oversized f")
    case True
    then show ?thesis
      using unassign_inv [OF flushed(1)] place_oversized_inv [OF flushed]
      by (simp add: place_def st1_def [symmetric] Let_def)
  next
    case False
    define needNew where "needNew = (maxFilesPerPart limits \<le> int (length (as_current st1)) \<or>
      maxBytesPerPart limits < int (as_currentBytes st1 + el_bytes f) \<and> as_current st1 \<noteq> [])"
    define st2 where "st2 = (if needNew then flush sha st1 else st1)"
    have st2: "noted_inv sha limits seen f st2" using noted flushed by (simp add: st2_def)
    have room: "as_current st2 = [] \<or> int (length (as_current st2)) < maxFilesPerPart limits \<and>
      int (as_currentBytes st2 + el_bytes f) \<le> maxBytesPerPart limits"
      using flushed(2) by (auto simp: st2_def needNew_def)
    have "place sha limits f st = (if full limits st2 then unassign f st2
        else st2\<lparr>as_current := as_current st2 @ [mk_ref f], as_currentBytes := as_currentBytes st2 + el_bytes f\<rparr>)"
      using False by (simp add: place_def st1_def [symmetric] st2_def needNew_def Let_def)
    then show ?thesis
      using unassign_inv [OF st2] place_current_inv [OF st2 _ False room] by simp
  qed
qed

lemma fold_place_inv:
  "assign_inv sha limits seen st \<Longrightarrow> assign_inv sha limits (seen @ fs) (fold (place sha limits) fs st)"
proof (induction fs arbitrary: seen st)
  case (Cons f fs)
  from Cons.IH [OF place_inv [OF Cons.prems]] show ?case by simp
qed simp

lemma assignParts_inv: "assign_inv sha limits eligible (assignParts sha limits eligible)"
proof -
  have "assign_inv sha limits [] assign_start"
    by (simp add: assign_inv_def assign_start_def assigned_refs_def current_ok_def)
  from fold_place_inv [OF this] show ?thesis
    unfolding assignParts_def by (intro flush_inv) simp
qed

lemma assignParts_current: "as_current (assignParts sha limits eligible) = []"
  by (simp add: assignParts_def flush_facts)


section \<open>The plan\<close>

lemma collect_names:
  assumes "\<And>f. el_filename (mk f) = text_trim (cf_filename f)"
  shows "distinct (map el_filename (collect mk seen files)) \<and>
    set (map el_filename (collect mk seen files)) = text_trim ` cf_filename ` set files - {[]} - set seen"
proof (induction files arbitrary: seen)
  case (Cons f files)
  show ?case using Cons [of seen] Cons [of "text_trim (cf_filename f) # seen"]
    by (auto simp: Let_def assms)
qed simp

lemma mk_eligible_filename: "el_filename (mk_eligible limits chunks generated f) = text_trim (cf_filename f)"
  by (simp add: mk_eligible_def Let_def)

lemma plan_eligible_names:
  "distinct (map el_filename (plan_eligible inp)) \<and>
   set (map el_filename (plan_eligible inp)) = text_trim ` cf_filename ` set (changedFiles inp) - {[]}"
proof -
  define cs where "cs = collect (mk_eligible (resolveLimits (limits_in inp)) (chunkMap (pr_diff inp))
    (override (generatedPaths inp) [])) [] (changedFiles inp)"
  have names: "mset (map el_filename (plan_eligible inp)) = mset (map el_filename cs)"
    by (simp add: plan_eligible_def collectEligible_def sort_by_eq cs_def)
  have "distinct (map el_filename cs) \<and>
    set (map el_filename cs) = text_trim ` cf_filename ` set (changedFiles inp) - {[]}"
    unfolding cs_def using collect_names [OF mk_eligible_filename, of _ _ _ "[]" "changedFiles inp"] by simp
  then show ?thesis using names by (metis mset_eq_imp_distinct_iff mset_eq_setD)
qed

lemma collect_from: "f \<in> set (collect mk seen files) \<Longrightarrow> \<exists>c \<in> set files. f = mk c"
  by (induction mk seen files rule: collect.induct) (auto simp: Let_def split: if_splits)

lemma plan_eligible_fields:
  assumes "f \<in> set (plan_eligible inp)"
  shows "el_bytes f = chunk_bytes (chunkMap (pr_diff inp)) (el_filename f)"
    and "el_noDiff f \<longleftrightarrow> el_bytes f = 0"
    and "el_oversized f \<longleftrightarrow> maxFileBytes (resolveLimits (limits_in inp)) < int (el_bytes f)"
    and "el_rank f = rankPath (encode (el_filename f)) (el_bytes f) (override (generatedPaths inp) [])"
  using assms by (auto simp: plan_eligible_def collectEligible_def sort_by_eq mk_eligible_def Let_def dest!: collect_from)

lemma sorted_subseq: "subseq xs ys \<Longrightarrow> sorted ys \<Longrightarrow> sorted xs"
  by (induction xs ys rule: list_emb.induct) (auto dest: list_emb_set)

lemma mset_sort_names [simp]: "mset (sort_names xs) = mset xs"
  by (simp add: sort_names_def sort_by_eq)

definition parts_names :: "part list \<Rightarrow> code_points list" where
  "parts_names ps = map ref_filename (concat (map part_files ps))"

lemma plan_facts:
  fixes sha :: "bytes \<Rightarrow> string" and inp :: plan_input
  defines "m \<equiv> planPartitions sha inp" and "L \<equiv> resolveLimits (limits_in inp)"
  shows "mset (parts_names (man_parts m)) + mset (cov_unassigned_files (man_coverage m)) =
      mset (map el_filename (plan_eligible inp))"
    and "subseq (concat (map part_files (man_parts m))) (map mk_ref (plan_eligible inp))"
    and "map part_index (man_parts m) = [0..<length (man_parts m)]"
    and "int (length (man_parts m)) \<le> max 0 (maxParts L)"
    and "\<forall>p \<in> set (man_parts m). part_ok sha L p"
    and "cov_complete (man_coverage m) \<longleftrightarrow> cov_unassigned_files (man_coverage m) = [] \<and>
      (\<forall>f \<in> set (plan_eligible inp). \<not> el_oversized f \<and> \<not> el_noDiff f)"
proof -
  define st where "st = assignParts sha L (plan_eligible inp)"
  note inv = assignParts_inv [of sha L "plan_eligible inp", folded st_def, unfolded assign_inv_def]
  have refs: "assigned_refs st = concat (map part_files (as_parts st))"
    by (simp add: assigned_refs_def st_def assignParts_current)
  have m: "man_parts m = as_parts st" "man_coverage m = coverage_of (plan_eligible inp) st"
    by (simp_all add: m_def planPartitions_def Let_def st_def L_def)
  show "mset (parts_names (man_parts m)) + mset (cov_unassigned_files (man_coverage m)) =
      mset (map el_filename (plan_eligible inp))"
    using inv by (simp add: m refs parts_names_def coverage_of_def sort_by_eq Let_def)
  show "subseq (concat (map part_files (man_parts m))) (map mk_ref (plan_eligible inp))"
    and "map part_index (man_parts m) = [0..<length (man_parts m)]"
    and "int (length (man_parts m)) \<le> max 0 (maxParts L)"
    and "\<forall>p \<in> set (man_parts m). part_ok sha L p"
    using inv by (simp_all add: m refs)
  have "sort_names xs = [] \<longleftrightarrow> xs = []" for xs
    by (metis mset_sort_names mset_zero_iff)
  moreover have "sort xs = [] \<longleftrightarrow> xs = []" for xs :: "string list"
    by (metis mset_sort mset_zero_iff)
  ultimately show "cov_complete (man_coverage m) \<longleftrightarrow> cov_unassigned_files (man_coverage m) = [] \<and>
      (\<forall>f \<in> set (plan_eligible inp). \<not> el_oversized f \<and> \<not> el_noDiff f)"
    using inv by (auto simp: m coverage_of_def sort_by_eq Let_def filter_empty_conv)
qed


section \<open>Coverage\<close>

abbreviation outcomes_of :: "nat \<Rightarrow> outcome list \<Rightarrow> outcome list" where
  "outcomes_of i os \<equiv> filter (\<lambda>o1. out_index o1 = i) os"

lemma validateOutcomes_spec:
  "case validateOutcomes os m of (valid, ambiguous, seen) \<Rightarrow>
     map_ok valid \<and> set seen = out_index ` set os \<and>
     (\<forall>i. i \<in> set ambiguous \<longleftrightarrow> 2 \<le> length (outcomes_of i os)) \<and>
     (\<forall>i s. map_of valid i = Some s \<longleftrightarrow>
        (\<exists>o1. outcomes_of i os = [o1] \<and> outcomeMatchesManifest o1 m \<and> s = out_status o1))"
proof (induction os rule: rev_induct)
  case Nil
  then show ?case by (simp add: validateOutcomes_def)
next
  case (snoc o1 os)
  obtain valid ambiguous seen where v: "validateOutcomes os m = (valid, ambiguous, seen)"
    by (cases "validateOutcomes os m")
  have ok: "map_ok valid" and seen: "set seen = out_index ` set os"
    and amb: "\<And>i. i \<in> set ambiguous \<longleftrightarrow> 2 \<le> length (outcomes_of i os)"
    and val: "\<And>i s. map_of valid i = Some s \<longleftrightarrow>
        (\<exists>o1. outcomes_of i os = [o1] \<and> outcomeMatchesManifest o1 m \<and> s = out_status o1)"
    using snoc by (simp_all add: v)
  have run: "validateOutcomes (os @ [o1]) m = validate_step m o1 (valid, ambiguous, seen)"
    using v by (simp add: validateOutcomes_def)
  show ?case
  proof (cases "out_index o1 \<in> set seen")
    case True
    then have "outcomes_of (out_index o1) os \<noteq> []" using seen by (auto simp: filter_empty_conv)
    then have len: "2 \<le> length (outcomes_of (out_index o1) (os @ [o1]))"
      by (cases "outcomes_of (out_index o1) os") auto
    have "outcomes_of i (os @ [o1]) \<noteq> [o2]" if "i = out_index o1" for i o2
      using len that by auto
    then show ?thesis using True ok seen amb val len
      by (auto simp: run validate_step_def AList_map_ok_delete)
  next
    case False
    then have "out_index o2 \<noteq> out_index o1" if "o2 \<in> set os" for o2
      using that seen by (metis image_eqI)
    then have none: "outcomes_of (out_index o1) os = []" by (simp add: filter_empty_conv)
    then have "map_of valid (out_index o1) = None"
      using val by (metis list.distinct(1) not_None_eq)
    then show ?thesis using False ok seen amb val none
      by (auto simp: run validate_step_def AList_map_ok_update)
  qed
qed

lemma part_incomplete_iff:
  "part_incomplete (validateOutcomes os m) p \<longleftrightarrow>
    \<not> (\<exists>o1. outcomes_of (part_index p) os = [o1] \<and> outcomeMatchesManifest o1 m \<and> out_status o1 = O_complete)"
proof -
  obtain valid ambiguous seen where v: "validateOutcomes os m = (valid, ambiguous, seen)"
    by (cases "validateOutcomes os m")
  have amb: "\<And>i. i \<in> set ambiguous \<longleftrightarrow> 2 \<le> length (outcomes_of i os)"
    and val: "\<And>i s. map_of valid i = Some s \<longleftrightarrow>
        (\<exists>o1. outcomes_of i os = [o1] \<and> outcomeMatchesManifest o1 m \<and> s = out_status o1)"
    using validateOutcomes_spec [of os m] by (simp_all add: v)
  show ?thesis by (auto simp: part_incomplete_def v amb val)
qed

lemma find_key: "distinct (map f xs) \<Longrightarrow> x \<in> set xs \<Longrightarrow> List.find (\<lambda>y. f y = f x) xs = Some x"
  by (induction xs) (auto simp: rev_image_eqI)

lemma outcomeMatchesManifest_part:
  assumes "distinct (map part_index (man_parts m))" and "p \<in> set (man_parts m)" and "out_index o1 = part_index p"
  shows "outcomeMatchesManifest o1 m \<longleftrightarrow> out_headSha o1 = man_head_sha m \<and>
    out_diffFingerprint o1 = man_diff_fingerprint m \<and> out_partitionIdentity o1 = part_identity p"
proof -
  have "List.find (\<lambda>q. part_index q = part_index p) (man_parts m) = Some p"
    using assms(1,2) by (rule find_key)
  then show ?thesis by (simp add: outcomeMatchesManifest_def assms(3))
qed


text \<open>What the verdict needs of a part: exactly one outcome for its index, complete, and bound to the
  head, the diff and the files of this planning round.\<close>

definition part_covered :: "manifest \<Rightarrow> outcome list \<Rightarrow> part \<Rightarrow> bool" where
  "part_covered m os p =
     (\<exists>o1. outcomes_of (part_index p) os = [o1] \<and> out_status o1 = O_complete \<and>
        out_headSha o1 = man_head_sha m \<and> out_diffFingerprint o1 = man_diff_fingerprint m \<and>
        out_partitionIdentity o1 = part_identity p)"

lemma part_incomplete_covered:
  assumes "distinct (map part_index (man_parts m))" and "p \<in> set (man_parts m)"
  shows "part_incomplete (validateOutcomes os m) p \<longleftrightarrow> \<not> part_covered m os p"
proof -
  have "out_index o1 = part_index p" if "outcomes_of (part_index p) os = [o1]" for o1
  proof -
    have "o1 \<in> set (outcomes_of (part_index p) os)" by (simp add: that)
    then show ?thesis by simp
  qed
  then show ?thesis
    unfolding part_incomplete_iff part_covered_def using outcomeMatchesManifest_part [OF assms] by blast
qed

section \<open>Properties\<close>

text \<open>A plan of one file, for the witnesses.\<close>

definition sample_plan :: plan_input where
  "sample_plan =
     \<lparr>changedFiles = [\<lparr>cf_filename = [32, 120], cf_status = []\<rparr>, \<lparr>cf_filename = [120], cf_status = []\<rparr>],
      pr_diff = ascii ''diff --git a/x b/x'' @ [10, 43, 121, 10], generatedPaths = None,
      plan_headSha = ''h'', plan_baseSha = ''b'', limits_in = None\<rparr>"

definition sample_sha :: "bytes \<Rightarrow> string" where
  "sample_sha bs = map (\<lambda>b. char_of (unat b)) bs"

definition sample_outcome :: outcome where
  "sample_outcome = \<lparr>out_index = 0, out_status = O_complete, out_headSha = ''h'',
     out_diffFingerprint = sample_sha (pr_diff sample_plan), out_partitionIdentity = ''x''\<rparr>"

text \<open>C39: The planner puts every changed file (once, by its trimmed name, blank names aside) into exactly one
  part or the unassigned list; the parts are numbered in order and within the caps, each with its own
  files' identity and its own bytes, over the byte cap only when it holds a single file, truncated
  exactly when that file is oversized; and the files are in rank-then-name order.\<close>

lemma plan_assigns_once:
  "let m = planPartitions sha inp; L = resolveLimits (limits_in inp);
       names = parts_names (man_parts m) @ cov_unassigned_files (man_coverage m) in
   distinct names \<and> set names = text_trim ` cf_filename ` set (changedFiles inp) - {[]} \<and>
   map part_index (man_parts m) = [0..<length (man_parts m)] \<and>
   int (length (man_parts m)) \<le> max 0 (maxParts L) \<and>
   (\<forall>p \<in> set (man_parts m). part_ok sha L p) \<and>
   sorted (map (\<lambda>r. (ref_rank r, utf16 (ref_filename r))) (concat (map part_files (man_parts m))))"
proof -
  define m where "m = planPartitions sha inp"
  define key where "key = (\<lambda>r :: file_ref. (ref_rank r, utf16 (ref_filename r)))"
  note facts = plan_facts [of sha inp, folded m_def]
  have names: "mset (parts_names (man_parts m) @ cov_unassigned_files (man_coverage m)) =
      mset (map el_filename (plan_eligible inp))" using facts(1) by simp
  have keys: "map key (map mk_ref (plan_eligible inp)) = map (\<lambda>f. (el_rank f, utf16 (el_filename f))) (plan_eligible inp)"
    by (simp add: key_def mk_ref_def)
  have "sorted (map key (map mk_ref (plan_eligible inp)))"
    unfolding keys by (simp only: plan_eligible_def collectEligible_def sort_by_eq sorted_sort_key)
  then have "sorted (map key (concat (map part_files (man_parts m))))"
    by (rule sorted_subseq [OF subseq_map [OF facts(2)]])
  then show ?thesis
    unfolding Let_def m_def [symmetric] key_def
    using plan_eligible_names [of inp] facts(3-5) mset_eq_imp_distinct_iff [OF names] mset_eq_setD [OF names]
    by blast
qed

lemma plan_assigns_once_witness:
  "set (parts_names (man_parts (planPartitions sample_sha sample_plan))) = {[120]} \<and>
   distinct (parts_names (man_parts (planPartitions sample_sha sample_plan)))"
proof -
  have "cov_unassigned_files (man_coverage (planPartitions sample_sha sample_plan)) = []" by code_simp
  moreover have "text_trim ` cf_filename ` set (changedFiles sample_plan) - {[]} = {[120]}" by code_simp
  ultimately show ?thesis
    using plan_assigns_once [of sample_sha sample_plan] unfolding Let_def by simp
qed

text \<open>C40: The coverage verdict is exact, for a manifest whose parts have distinct indexes (as every plan
  has them): it is \<open>null\<close> when the current head is the planned one, the plan
  itself is complete and every part is covered, and only then; otherwise the files it lists as unread
  are those of the parts not covered and those the plan could not cover.\<close>

lemma coverage_gap_exact:
  assumes "distinct (map part_index (man_parts m))"
  shows "case partitionCoverageGap m outcomes currentHead of
      None \<Rightarrow> currentHead = man_head_sha m \<and> cov_complete (man_coverage m) \<and>
        (\<forall>p \<in> set (man_parts m). part_covered m outcomes p)
    | Some gap \<Rightarrow>
        \<not> (currentHead = man_head_sha m \<and> cov_complete (man_coverage m) \<and>
            (\<forall>p \<in> set (man_parts m). part_covered m outcomes p)) \<and>
        distinct (pc_unread_files gap) \<and>
        set (pc_unread_files gap) =
          set (parts_names (filter (\<lambda>p. \<not> part_covered m outcomes p) (man_parts m))) \<union>
          set (cov_unassigned_files (man_coverage m)) \<union> set (cov_oversized_files (man_coverage m)) \<union>
          set (cov_no_diff_files (man_coverage m))"
proof -
  have bad: "filter (part_incomplete (validateOutcomes outcomes m)) (man_parts m) =
      filter (\<lambda>p. \<not> part_covered m outcomes p) (man_parts m)"
    using part_incomplete_covered [OF assms] by (intro filter_cong) simp_all
  have names: "concat (map (\<lambda>p. map ref_filename (part_files p)) ps) = parts_names ps" for ps
    by (simp add: parts_names_def map_concat comp_def)
  have sort: "distinct (sort_names xs) \<longleftrightarrow> distinct xs" "set (sort_names xs) = set xs" for xs
    by (simp_all add: sort_names_def sort_by_eq)
  show ?thesis
    unfolding partitionCoverageGap_def Let_def bad names
    by (auto simp: sort isManifestStale_def filter_empty_conv)
qed

lemma sample_gap: "partitionCoverageGap (planPartitions sample_sha sample_plan) [sample_outcome] ''h'' = None"
  by code_simp

lemma coverage_gap_exact_witness:
  "list_all (part_covered (planPartitions sample_sha sample_plan) [sample_outcome])
     (man_parts (planPartitions sample_sha sample_plan))"
proof -
  have "distinct (map part_index (man_parts (planPartitions sample_sha sample_plan)))"
    using plan_facts(3) [of sample_sha sample_plan] by (metis distinct_upt)
  from coverage_gap_exact [OF this, where outcomes = "[sample_outcome]" and currentHead = "''h''"]
  show ?thesis by (simp add: sample_gap list_all_iff)
qed

text \<open>Planner and verdict together: a run over a planned manifest counts as covered only if the head has
  not moved and every changed file has a non-empty diff within the byte cap, is in some part of the
  plan, and that part has exactly one complete outcome bound to this plan.\<close>

lemma covered_means_read:
  assumes "partitionCoverageGap (planPartitions sha inp) outcomes currentHead = None"
    and "f \<in> set (changedFiles inp)" and "text_trim (cf_filename f) \<noteq> []"
  shows "currentHead = plan_headSha inp \<and>
    (\<exists>d. map_of (chunkMap (pr_diff inp)) (text_trim (cf_filename f)) = Some d \<and> d \<noteq> [] \<and>
       int (length d) \<le> maxFileBytes (resolveLimits (limits_in inp))) \<and>
    (\<exists>p \<in> set (man_parts (planPartitions sha inp)).
       text_trim (cf_filename f) \<in> set (parts_names [p]) \<and> part_covered (planPartitions sha inp) outcomes p)"
proof -
  define m where "m = planPartitions sha inp"
  define name where "name = text_trim (cf_filename f)"
  note facts = plan_facts [of sha inp, folded m_def]
  have "distinct (map part_index (man_parts m))" using facts(3) by (metis distinct_upt)
  from coverage_gap_exact [OF this, where outcomes = outcomes and currentHead = currentHead] assms(1)
  have gap: "currentHead = man_head_sha m" "cov_complete (man_coverage m)"
    "\<forall>p \<in> set (man_parts m). part_covered m outcomes p" by (simp_all add: m_def)
  have "name \<in> set (map el_filename (plan_eligible inp))"
    using plan_eligible_names [of inp] assms(2,3) unfolding name_def by blast
  then obtain e where e: "e \<in> set (plan_eligible inp)" "name = el_filename e" by auto
  then have diff: "\<not> el_oversized e" "\<not> el_noDiff e" using facts(6) gap(2) by simp_all
  have chunk: "0 < chunk_bytes (chunkMap (pr_diff inp)) name"
      "int (chunk_bytes (chunkMap (pr_diff inp)) name) \<le> maxFileBytes (resolveLimits (limits_in inp))"
    using diff plan_eligible_fields [OF e(1)] by (simp_all add: e(2))
  have "name \<in># mset (parts_names (man_parts m))"
    using facts(1,6) gap(2) e by (metis empty_iff in_multiset_in_set list.set(1) set_mset_mset union_iff
        list.set_map rev_image_eqI)
  then obtain p where "p \<in> set (man_parts m)" "name \<in> set (parts_names [p])"
    by (auto simp: parts_names_def)
  moreover have "man_head_sha m = plan_headSha inp" by (simp add: m_def planPartitions_def Let_def)
  ultimately show ?thesis
    using chunk gap unfolding m_def [symmetric] name_def [symmetric]
    by (auto simp: chunk_bytes_def split: option.splits)
qed

lemma covered_means_read_witness:
  "\<exists>p \<in> set (man_parts (planPartitions sample_sha sample_plan)). [120] \<in> set (parts_names [p])"
proof -
  from covered_means_read [OF sample_gap, of "\<lparr>cf_filename = [120], cf_status = []\<rparr>"]
  show ?thesis by (auto simp: sample_plan_def text_trim_def text_space_def)
qed

section \<open>Identity\<close>

text \<open>The identity token of a part separates re-plans: for names without line breaks, two different sets
  of files get the same token only by a collision of the hash.\<close>

lemma identity_separates:
  assumes "xs \<noteq> []" and "ys \<noteq> []" and "\<forall>n \<in> set (xs @ ys). NL \<notin> set n \<and> list_all scalar n"
    and "computePartitionIdentity sha xs = computePartitionIdentity sha ys"
  shows "mset xs = mset ys \<or> (\<exists>a b. a \<noteq> b \<and> sha a = sha b)"
proof (cases "encode (join_nl (sort_names xs)) = encode (join_nl (sort_names ys))")
  case True
  have sets: "set (sort_names zs) = set zs" for zs
    by (simp add: sort_names_def sort_by_eq)
  have scalars: "list_all scalar (join_nl zs)" if "\<forall>n \<in> set zs. list_all scalar n" for zs
    using that by (induction zs rule: join_nl.induct) (simp_all add: scalar_def)
  have ne: "sort_names zs \<noteq> []" if "zs \<noteq> []" for zs
    using that by (metis mset_sort_names mset_zero_iff)
  have "join_nl (sort_names xs) = join_nl (sort_names ys)"
    using True decode_encode scalars [of "sort_names xs"] scalars [of "sort_names ys"] assms(3) by (metis sets Un_iff set_append)
  then have "sort_names xs = sort_names ys"
    using split_join [of "sort_names xs"] split_join [of "sort_names ys"] assms(3) ne [OF assms(1)] ne [OF assms(2)]
    by (metis sets Un_iff set_append)
  then show ?thesis by (metis mset_sort_names)
next
  case False
  then show ?thesis using assms(4) unfolding computePartitionIdentity_def by blast
qed

lemma identity_separates_witness:
  "computePartitionIdentity sample_sha [[97], [98]] \<noteq> computePartitionIdentity sample_sha [[97]]"
proof
  assume same: "computePartitionIdentity sample_sha [[97], [98]] = computePartitionIdentity sample_sha [[97]]"
  have "inj (\<lambda>b :: byte. char_of (unat b) :: char)"
  proof (rule injI)
    fix a b :: byte
    assume "(char_of (unat a) :: char) = char_of (unat b)"
    then have "unat a mod 256 = unat b mod 256" by (metis of_char_of)
    moreover have "unat a < 256" "unat b < 256" using unsigned_less [of a] unsigned_less [of b] by simp_all
    ultimately show "a = b" by (simp add: word_unat_eq_iff)
  qed
  then have "inj sample_sha" by (auto simp: sample_sha_def inj_def inj_map_eq_map)
  then have no_collision: "\<not> (\<exists>a b. a \<noteq> b \<and> sample_sha a = sample_sha b)" by (auto dest: injD)
  have "mset [[97], [98]] = mset [[97 :: nat]] \<or> (\<exists>a b. a \<noteq> b \<and> sample_sha a = sample_sha b)"
    by (rule identity_separates [OF _ _ _ same]) (simp_all add: scalar_def)
  then show False using no_collision by (elim disjE) (simp, blast)
qed

text \<open>With a line break in a name the token does not separate, whatever the hash.\<close>

lemma identity_newline_collision:
  "computePartitionIdentity sha [[97], [98]] = computePartitionIdentity sha [[97, NL, 98]]"
  by (simp add: computePartitionIdentity_def sort_names_def sort_by_def utf16_def utf16_unit_def)

end
