(* ===== verification/Partition_Merge.thy ===== *)
theory Partition_Merge
  imports Partition
begin

text \<open>
  \<^verbatim>\<open>src/partition/merge.ts\<close>: the findings of the parts are folded into one set. A raw finding is a
  JSON value; \<open>JSON.stringify\<close> of the key tuple is modelled by the tuple's value, which it determines
  and is determined by. The reference definition is \<open>first_by\<close>: of the findings with one key, the first.
\<close>

record finding =
  fd_rest :: "(string \<times> jsval) list" \<comment> \<open>the raw record that is spread into the finding\<close>
  fd_partition :: nat
  fd_file :: "string option"
  fd_line :: "int option"
  fd_severity :: string
  fd_title :: string

record provenance =
  pv_title :: string
  pv_file :: "string option"
  pv_partitions :: "nat list"

record merged_findings =
  mf_findings :: "finding list"
  mf_duplicates :: nat
  mf_provenance :: "provenance list"

fun firstString :: "(string \<times> jsval) list \<Rightarrow> string list \<Rightarrow> string option" where
  "firstString rec [] = None"
| "firstString rec (key # keys) =
     (case get_prop rec key of
        JStr s \<Rightarrow> if js_trim s \<noteq> [] then Some s else firstString rec keys
      | _ \<Rightarrow> firstString rec keys)"

fun firstLine :: "(string \<times> jsval) list \<Rightarrow> string list \<Rightarrow> int option" where
  "firstLine rec [] = None"
| "firstLine rec (key # keys) =
     (case get_prop rec key of
        JNum (Fin q) \<Rightarrow> if is_integral q then Some (floor q) else firstLine rec keys
      | _ \<Rightarrow> firstLine rec keys)"

definition normalizeFinding :: "jsval \<Rightarrow> nat \<Rightarrow> finding option" where
  "normalizeFinding raw i =
     (case raw of
        JObj rec \<Rightarrow> Some
          \<lparr>fd_rest = rec, fd_partition = i,
           fd_file = firstString rec [''file'', ''filename'', ''path''],
           fd_line = firstLine rec [''line'', ''line_start'', ''start_line''],
           fd_severity = (case get_prop rec ''severity'' of JStr s \<Rightarrow> s | _ \<Rightarrow> []),
           fd_title = (case firstString rec [''title'', ''summary'', ''message''] of Some s \<Rightarrow> s | None \<Rightarrow> [])\<rparr>
      | _ \<Rightarrow> None)"

definition dedupKey :: "finding \<Rightarrow> jsval list" where
  "dedupKey f =
     [JStr (case fd_file f of Some s \<Rightarrow> s | None \<Rightarrow> []),
      (case fd_line f of Some i \<Rightarrow> JNum (Fin (of_int i)) | None \<Rightarrow> JStr []),
      JStr (js_lower (fd_severity f)),
      JStr (js_lower (js_trim (fd_title f)))]"

text \<open>\<open>(findings, provenance, positionByKey, duplicates)\<close>\<close>

type_synonym merge_state = "finding list \<times> provenance list \<times> (jsval list \<times> nat) list \<times> nat"

definition add_partition :: "nat \<Rightarrow> provenance \<Rightarrow> provenance" where
  "add_partition i entry =
     (if i \<in> set (pv_partitions entry) then entry
      else entry\<lparr>pv_partitions := pv_partitions entry @ [i]\<rparr>)"

definition merge_step :: "finding \<Rightarrow> merge_state \<Rightarrow> merge_state" where
  "merge_step f st =
     (case st of (findings, prov, pos, dups) \<Rightarrow>
        case map_of pos (dedupKey f) of
          None \<Rightarrow>
            (findings @ [f],
             prov @ [\<lparr>pv_title = fd_title f, pv_file = fd_file f, pv_partitions = [fd_partition f]\<rparr>],
             AList.update (dedupKey f) (length findings) pos, dups)
        | Some position \<Rightarrow>
            (findings,
             (if position < length prov then prov[position := add_partition (fd_partition f) (prov ! position)] else prov),
             pos, dups + 1))"

definition normalized :: "(nat \<times> jsval list) list \<Rightarrow> finding list" where
  "normalized parts =
     concat (map (\<lambda>(index, raws). List.map_filter (\<lambda>raw. normalizeFinding raw index) raws) parts)"

definition sort_partitions :: "provenance \<Rightarrow> provenance" where
  "sort_partitions entry = entry\<lparr>pv_partitions := sort_by (\<lambda>i. i) (pv_partitions entry)\<rparr>"

definition mergePartitionFindings :: "(nat \<times> jsval list) list \<Rightarrow> merged_findings" where
  "mergePartitionFindings parts =
     (case fold merge_step (normalized parts) ([], [], [], 0) of (findings, prov, pos, dups) \<Rightarrow>
        \<lparr>mf_findings = findings, mf_duplicates = dups, mf_provenance = map sort_partitions prov\<rparr>)"

definition crossPartitionFindings :: "manifest \<Rightarrow> finding list \<Rightarrow> (finding \<times> code_points) list" where
  "crossPartitionFindings m findings =
     concat (map (\<lambda>edge.
       map (\<lambda>f. (f, ref_to edge))
         (filter (\<lambda>f. case fd_file f of Some s \<Rightarrow> map of_char s = ref_from edge | None \<Rightarrow> False) findings))
       (man_cross_refs m))"

section \<open>The reference definition\<close>

fun first_by :: "('a \<Rightarrow> 'k) \<Rightarrow> 'a list \<Rightarrow> 'a list" where
  "first_by key [] = []"
| "first_by key (x # xs) = x # filter (\<lambda>y. key y \<noteq> key x) (first_by key xs)"

lemma first_by_keys: "key ` set (first_by key xs) = key ` set xs"
proof (induction xs)
  case (Cons x xs)
  have "key ` {y \<in> A. key y \<noteq> c} = key ` A - {c}" for A c by auto
  with Cons show ?case by auto
qed simp

lemma first_by_distinct: "distinct (map key (first_by key xs))"
  by (induction xs) (auto simp: distinct_map inj_on_def)

lemma first_by_snoc:
  "first_by key (xs @ [x]) = first_by key xs @ (if key x \<in> key ` set xs then [] else [x])"
  by (induction xs) auto

section \<open>The merge is the reference\<close>

text \<open>The provenance entry of a kept finding \<open>f\<close> after the findings \<open>ns\<close>.\<close>

definition entry_ok :: "finding list \<Rightarrow> finding \<Rightarrow> provenance \<Rightarrow> bool" where
  "entry_ok ns f e =
     (pv_title e = fd_title f \<and> pv_file e = fd_file f \<and> distinct (pv_partitions e) \<and>
      set (pv_partitions e) = fd_partition ` {g \<in> set ns. dedupKey g = dedupKey f})"

lemma same_key_snoc:
  "{g \<in> set (ns @ [h]). dedupKey g = dedupKey f} =
    (if dedupKey h = dedupKey f then insert h {g \<in> set ns. dedupKey g = dedupKey f}
     else {g \<in> set ns. dedupKey g = dedupKey f})"
  by auto

lemma add_partition_facts [simp]:
  "pv_title (add_partition i e) = pv_title e" "pv_file (add_partition i e) = pv_file e"
  "distinct (pv_partitions (add_partition i e)) = distinct (pv_partitions e)"
  "set (pv_partitions (add_partition i e)) = insert i (set (pv_partitions e))"
  by (auto simp: add_partition_def)

lemma entry_ok_other: "entry_ok ns f e \<Longrightarrow> dedupKey h \<noteq> dedupKey f \<Longrightarrow> entry_ok (ns @ [h]) f e"
  unfolding entry_ok_def same_key_snoc by simp

lemma entry_ok_same:
  "entry_ok ns f e \<Longrightarrow> dedupKey h = dedupKey f \<Longrightarrow> entry_ok (ns @ [h]) f (add_partition (fd_partition h) e)"
  unfolding entry_ok_def same_key_snoc by simp

lemma entry_ok_new:
  assumes "dedupKey f \<notin> dedupKey ` set ns"
  shows "entry_ok (ns @ [f]) f \<lparr>pv_title = fd_title f, pv_file = fd_file f, pv_partitions = [fd_partition f]\<rparr>"
proof -
  have none: "{g \<in> set ns. dedupKey g = dedupKey f} = {}" using assms by (auto simp: image_iff)
  show ?thesis unfolding entry_ok_def same_key_snoc none by simp
qed

definition merge_inv :: "finding list \<Rightarrow> merge_state \<Rightarrow> bool" where
  "merge_inv ns st =
     (case st of (findings, prov, pos, dups) \<Rightarrow>
        findings = first_by dedupKey ns \<and> length findings + dups = length ns \<and>
        (\<forall>k. map_of pos k = None \<longleftrightarrow> k \<notin> dedupKey ` set ns) \<and>
        (\<forall>i < length findings. map_of pos (dedupKey (findings ! i)) = Some i) \<and>
        list_all2 (entry_ok ns) findings prov)"

lemma merge_step_fresh:
  assumes "merge_inv ns (findings, prov, pos, dups)" and "dedupKey f \<notin> dedupKey ` set ns"
  shows "merge_inv (ns @ [f]) (findings @ [f],
    prov @ [\<lparr>pv_title = fd_title f, pv_file = fd_file f, pv_partitions = [fd_partition f]\<rparr>],
    AList.update (dedupKey f) (length findings) pos, dups)"
proof -
  have fs: "findings = first_by dedupKey ns" and count: "length findings + dups = length ns"
    and none: "\<And>k. map_of pos k = None \<longleftrightarrow> k \<notin> dedupKey ` set ns"
    and pos: "\<And>i. i < length findings \<Longrightarrow> map_of pos (dedupKey (findings ! i)) = Some i"
    and entries: "list_all2 (entry_ok ns) findings prov"
    using assms(1) unfolding merge_inv_def prod.case by blast+
  have other: "dedupKey f \<noteq> dedupKey g" if "g \<in> set findings" for g
    using that assms(2) first_by_keys [of dedupKey ns] fs by (metis image_eqI)
  have "list_all2 (entry_ok (ns @ [f])) findings prov"
    by (rule list.rel_mono_strong [OF entries]) (use other entry_ok_other in blast)
  then have "list_all2 (entry_ok (ns @ [f])) (findings @ [f])
      (prov @ [\<lparr>pv_title = fd_title f, pv_file = fd_file f, pv_partitions = [fd_partition f]\<rparr>])"
    using entry_ok_new [OF assms(2)] by (simp add: list_all2_appendI)
  moreover have "map_of (AList.update (dedupKey f) (length findings) pos) (dedupKey ((findings @ [f]) ! i)) = Some i"
    if "i < length (findings @ [f])" for i
    using that pos [of i] other [of "findings ! i"] by (cases "i = length findings") (auto simp: nth_append)
  moreover have "findings @ [f] = first_by dedupKey (ns @ [f])" using fs assms(2) by (simp add: first_by_snoc)
  moreover have "length (findings @ [f]) + dups = length (ns @ [f])" using count by simp
  moreover have "map_of (AList.update (dedupKey f) (length findings) pos) k = None \<longleftrightarrow> k \<notin> dedupKey ` set (ns @ [f])" for k
    using none [of k] by auto
  ultimately show ?thesis unfolding merge_inv_def prod.case by blast
qed

lemma merge_step_seen:
  assumes "merge_inv ns (findings, prov, pos, dups)" and "map_of pos (dedupKey f) = Some j"
  shows "j < length prov \<and>
    merge_inv (ns @ [f]) (findings, prov[j := add_partition (fd_partition f) (prov ! j)], pos, dups + 1)"
proof -
  have fs: "findings = first_by dedupKey ns" and count: "length findings + dups = length ns"
    and none: "\<And>k. map_of pos k = None \<longleftrightarrow> k \<notin> dedupKey ` set ns"
    and pos: "\<And>i. i < length findings \<Longrightarrow> map_of pos (dedupKey (findings ! i)) = Some i"
    and entries: "list_all2 (entry_ok ns) findings prov"
    using assms(1) unfolding merge_inv_def prod.case by blast+
  have seen: "dedupKey f \<in> dedupKey ` set ns" using none [of "dedupKey f"] assms(2) by simp
  then obtain i where i: "i < length findings" "dedupKey (findings ! i) = dedupKey f"
    using first_by_keys [of dedupKey ns] fs by (metis (no_types, lifting) image_iff in_set_conv_nth)
  with pos [OF i(1)] assms(2) have j: "j < length findings" "dedupKey (findings ! j) = dedupKey f" by simp_all
  have len: "length prov = length findings" using entries by (simp add: list_all2_lengthD)
  have "entry_ok (ns @ [f]) (findings ! k) (prov[j := add_partition (fd_partition f) (prov ! j)] ! k)"
    if k: "k < length findings" for k
  proof (cases "k = j")
    case True
    then show ?thesis using entry_ok_same [of ns "findings ! j" "prov ! j" f] entries j len
      by (simp add: list_all2_conv_all_nth)
  next
    case False
    then have "dedupKey f \<noteq> dedupKey (findings ! k)" using pos [OF k] assms(2) by auto
    then show ?thesis using False entry_ok_other [of ns "findings ! k" "prov ! k" f] entries k
      by (simp add: list_all2_conv_all_nth)
  qed
  then have "list_all2 (entry_ok (ns @ [f])) findings (prov[j := add_partition (fd_partition f) (prov ! j)])"
    using len by (simp add: list_all2_conv_all_nth)
  moreover have "findings = first_by dedupKey (ns @ [f])" using fs seen by (simp add: first_by_snoc)
  moreover have "map_of pos k = None \<longleftrightarrow> k \<notin> dedupKey ` set (ns @ [f])" for k using none [of k] seen by auto
  moreover have "length findings + (dups + 1) = length (ns @ [f])" and "j < length prov" using count j(1) len by simp_all
  ultimately show ?thesis using pos unfolding merge_inv_def prod.case by blast
qed

lemma merge_step_inv:
  assumes "merge_inv ns st"
  shows "merge_inv (ns @ [f]) (merge_step f st)"
proof -
  obtain findings prov pos dups where st: "st = (findings, prov, pos, dups)" by (cases st)
  have none: "map_of pos (dedupKey f) = None \<longleftrightarrow> dedupKey f \<notin> dedupKey ` set ns"
    using assms by (simp add: merge_inv_def st)
  show ?thesis
  proof (cases "map_of pos (dedupKey f)")
    case None
    with none assms show ?thesis by (simp add: merge_step_def st merge_step_fresh)
  next
    case (Some j)
    with merge_step_seen [OF assms [unfolded st] Some] show ?thesis by (simp add: merge_step_def st)
  qed
qed

lemma fold_merge_inv: "merge_inv ns (fold merge_step ns ([], [], [], 0))"
proof (induction ns rule: rev_induct)
  case Nil
  show ?case by (simp add: merge_inv_def)
next
  case (snoc f ns)
  from merge_step_inv [OF snoc, of f] show ?case by simp
qed

section \<open>Properties\<close>

text \<open>Merging keeps, of all the findings with one key (file, line, severity and title up to case and
  surrounding blanks), exactly the first, in order, whatever their number; every other one is counted
  as a duplicate; and each kept finding's provenance lists, in order and once, the parts that reported it.\<close>

lemma merge_keeps_distinct:
  "let ns = normalized parts; m = mergePartitionFindings parts in
   mf_findings m = first_by dedupKey ns \<and>
   dedupKey ` set (mf_findings m) = dedupKey ` set ns \<and> distinct (map dedupKey (mf_findings m)) \<and>
   length (mf_findings m) + mf_duplicates m = length ns \<and>
   list_all2 (\<lambda>f entry. pv_title entry = fd_title f \<and> pv_file entry = fd_file f \<and>
       sorted (pv_partitions entry) \<and> distinct (pv_partitions entry) \<and>
       set (pv_partitions entry) = fd_partition ` {g \<in> set ns. dedupKey g = dedupKey f})
     (mf_findings m) (mf_provenance m)"
proof -
  obtain findings prov pos dups where st: "fold merge_step (normalized parts) ([], [], [], 0) = (findings, prov, pos, dups)"
    by (cases "fold merge_step (normalized parts) ([], [], [], 0)")
  note inv = fold_merge_inv [of "normalized parts", unfolded st merge_inv_def prod.case]
  then have fs: "findings = first_by dedupKey (normalized parts)"
    and count: "length findings + dups = length (normalized parts)"
    and entries: "list_all2 (entry_ok (normalized parts)) findings prov"
    by blast+
  have m: "mergePartitionFindings parts =
      \<lparr>mf_findings = findings, mf_duplicates = dups, mf_provenance = map sort_partitions prov\<rparr>"
    by (simp add: mergePartitionFindings_def st)
  have "list_all2 (\<lambda>f entry. pv_title entry = fd_title f \<and> pv_file entry = fd_file f \<and>
       sorted (pv_partitions entry) \<and> distinct (pv_partitions entry) \<and>
       set (pv_partitions entry) = fd_partition ` {g \<in> set (normalized parts). dedupKey g = dedupKey f})
     findings (map sort_partitions prov)"
    using entries by (simp add: list_all2_conv_all_nth sort_partitions_def sort_by_eq entry_ok_def)
  moreover have "dedupKey ` set findings = dedupKey ` set (normalized parts)" "distinct (map dedupKey findings)"
    using first_by_keys first_by_distinct by (simp_all add: fs)
  ultimately show ?thesis
    using fs count unfolding m Let_def by simp
qed

end
