(* ===== verification/Governor.thy ===== *)
theory Governor
  imports Js_Prelude "HOL-Library.AList"
begin

text \<open>
  The run-wide inference governor of \<open>src/model/governor.ts\<close>: the admission point that bounds how many
  provider requests of one run are in flight and serves the waiting ones by priority class, and the
  fold of its admission records of \<open>src/model/telemetry.ts\<close>.

  The critical sections of the governor are synchronous, so each of its entry points (a call of
  \<open>admit\<close>, the abort of a signal, the deadline timer, the settlement of a task) is one function on the
  state and reads the clock once. A task and its promise are named by the \<open>call_id\<close> of the
  request. Two fields are observations and not code: \<open>gv_log\<close> lists the tasks started and the
  promises rejected, in order, and \<open>gv_held\<close> the started tasks whose release watcher has not run
  yet. A waiter is \<open>removed\<close> in the code exactly when it has left the queue.
\<close>

section \<open>Requests and records\<close>

datatype gov_priority = Class_authoritative | Class_required_prepass | Class_recovery | Class_advisory

fun class_number :: "gov_priority \<Rightarrow> nat" where
  "class_number Class_authoritative = 1"
| "class_number Class_required_prepass = 2"
| "class_number Class_recovery = 3"
| "class_number Class_advisory = 4"

lemma class_number_eq [simp]: "class_number p = class_number q \<longleftrightarrow> p = q"
  by (cases p; cases q) simp_all

text \<open>The classes are numbers in the code and compared as such: highest first is lowest number first.\<close>

instantiation gov_priority :: linorder
begin

definition less_eq_gov_priority :: "gov_priority \<Rightarrow> gov_priority \<Rightarrow> bool" where
  "p \<le> q \<longleftrightarrow> class_number p \<le> class_number q"

definition less_gov_priority :: "gov_priority \<Rightarrow> gov_priority \<Rightarrow> bool" where
  "p < q \<longleftrightarrow> class_number p < class_number q"

instance
  by (intro_classes) (auto simp: less_eq_gov_priority_def less_gov_priority_def)

end

type_synonym call_id = nat

text \<open>\<open>gr_signal\<close>: whether the request carries an abort signal, and whether it is aborted at submission.\<close>

record gov_request =
  gr_priority :: gov_priority
  gr_endpointKey :: string
  gr_signal :: "bool option"
  gr_deadlineMs :: "int option"

definition inferenceEndpointKey :: "string \<Rightarrow> string \<Rightarrow> string \<Rightarrow> string" where
  "inferenceEndpointKey baseUrl apiFormat model = baseUrl @ ''|'' @ apiFormat @ ''|'' @ model"

record admission_record =
  ar_priority :: nat
  ar_endpointKey :: string
  ar_queueWaitMs :: int
  ar_activeCount :: int
  ar_cancelled :: bool

datatype cancel_reason = Reason_cancelled | Reason_deadline

datatype gov_effect =
    Runs_task (effect_call: call_id)
  | is_Rejects_call: Rejects_call (effect_call: call_id) cancel_reason

record waiter =
  wt_seq :: nat
  wt_priority :: gov_priority
  wt_request :: gov_request
  wt_task :: call_id
  wt_queuedAtMs :: int

record governor =
  gv_maxConcurrent :: jsnum
  gv_enabled :: bool
  gv_active :: int
  gv_queue :: "waiter list"
  gv_records :: "admission_record list"
  gv_seq :: nat
  gv_held :: "call_id list"
  gv_log :: "gov_effect list"

definition default_max_concurrent :: jsnum where
  "default_max_concurrent = Fin 2"

definition num_less :: "int \<Rightarrow> jsnum \<Rightarrow> bool" where
  "num_less i x = (case x of Fin q \<Rightarrow> of_int i < q | PosInf \<Rightarrow> True | NaN \<Rightarrow> False | NegInf \<Rightarrow> False)"

definition new_governor :: "jsnum \<Rightarrow> governor" where
  "new_governor maxConcurrent =
     \<lparr>gv_maxConcurrent = maxConcurrent,
      gv_enabled = (is_integer_num maxConcurrent \<and> num_less 0 maxConcurrent),
      gv_active = 0, gv_queue = [], gv_records = [], gv_seq = 0, gv_held = [], gv_log = []\<rparr>"

definition createInferenceGovernor :: "jsnum option \<Rightarrow> governor" where
  "createInferenceGovernor raw =
     new_governor (case raw of None \<Rightarrow> default_max_concurrent | Some cap \<Rightarrow> cap)"

section \<open>Admission\<close>

definition record_of :: "gov_request \<Rightarrow> int \<Rightarrow> int \<Rightarrow> bool \<Rightarrow> admission_record" where
  "record_of request wait active cancelled =
     \<lparr>ar_priority = class_number (gr_priority request), ar_endpointKey = gr_endpointKey request,
      ar_queueWaitMs = wait, ar_activeCount = active, ar_cancelled = cancelled\<rparr>"

text \<open>Hold a slot and start the task.\<close>

definition gov_dispatch :: "gov_request \<Rightarrow> call_id \<Rightarrow> int \<Rightarrow> governor \<Rightarrow> governor" where
  "gov_dispatch request task queueWaitMs g =
     (let active = gv_active g + 1
      in g\<lparr>gv_active := active,
           gv_records := gv_records g @ [record_of request queueWaitMs active False],
           gv_held := gv_held g @ [task],
           gv_log := gv_log g @ [Runs_task task]\<rparr>)"

text \<open>\<open>cancel\<close> of a waiter that has not been removed.\<close>

definition gov_cancel :: "int \<Rightarrow> cancel_reason \<Rightarrow> waiter \<Rightarrow> governor \<Rightarrow> governor" where
  "gov_cancel now reason w g =
     g\<lparr>gv_queue := remove1 w (gv_queue g),
       gv_records := gv_records g
         @ [record_of (wt_request w) (now - wt_queuedAtMs w) (gv_active g) True],
       gv_log := gv_log g @ [Rejects_call (wt_task w) reason]\<rparr>"

definition gov_enqueue :: "int \<Rightarrow> gov_request \<Rightarrow> call_id \<Rightarrow> governor \<Rightarrow> governor" where
  "gov_enqueue now request task g =
     (let n = gv_seq g + 1;
          w = \<lparr>wt_seq = n, wt_priority = gr_priority request, wt_request = request, wt_task = task,
               wt_queuedAtMs = now\<rparr>;
          g = g\<lparr>gv_seq := n\<rparr>
      in if gr_signal request = Some True then gov_cancel now Reason_cancelled w g
         else g\<lparr>gv_queue := gv_queue g @ [w]\<rparr>)"

definition gov_admit :: "int \<Rightarrow> gov_request \<Rightarrow> call_id \<Rightarrow> governor \<Rightarrow> governor" where
  "gov_admit now request task g =
     (if \<not> gv_enabled g then g\<lparr>gv_log := gv_log g @ [Runs_task task]\<rparr>
      else if gr_signal request = Some True then
        g\<lparr>gv_records := gv_records g @ [record_of request 0 (gv_active g) True],
          gv_log := gv_log g @ [Rejects_call task Reason_cancelled]\<rparr>
      else if num_less (gv_active g) (gv_maxConcurrent g) then gov_dispatch request task 0 g
      else gov_enqueue now request task g)"

section \<open>The pump\<close>

definition wait_expired :: "int \<Rightarrow> waiter \<Rightarrow> bool" where
  "wait_expired now w =
     (case gr_deadlineMs (wt_request w) of
        None \<Rightarrow> False
      | Some d \<Rightarrow> d \<le> now - wt_queuedAtMs w)"

definition served_before :: "waiter \<Rightarrow> waiter \<Rightarrow> bool" where
  "served_before w b \<longleftrightarrow>
     wt_priority w < wt_priority b \<or> wt_priority w = wt_priority b \<and> wt_seq w < wt_seq b"

definition better :: "waiter \<Rightarrow> waiter option \<Rightarrow> waiter option" where
  "better w best =
     (case best of None \<Rightarrow> Some w | Some b \<Rightarrow> if served_before w b then Some w else Some b)"

text \<open>
  The iteration over \<open>this.queue\<close>. An array iterator is an index into the live array: \<open>cancel\<close> splices
  the expired waiter out of the array under iteration, and the index moves on all the same.
\<close>

function scan_queue :: "int \<Rightarrow> nat \<Rightarrow> waiter option \<Rightarrow> governor \<Rightarrow> waiter option \<times> governor" where
  "scan_queue now i best g =
     (if i < length (gv_queue g) then
        (let w = gv_queue g ! i
         in if wait_expired now w then scan_queue now (i + 1) best (gov_cancel now Reason_deadline w g)
            else scan_queue now (i + 1) (better w best) g)
      else (best, g))"
  by pat_completeness auto

termination
  by (relation "measure (\<lambda>(now, i, best, g). length (gv_queue g) - i)")
    (auto simp: gov_cancel_def length_remove1)

declare scan_queue.simps [simp del]

definition queued_fresh :: "int \<Rightarrow> governor \<Rightarrow> waiter option \<Rightarrow> bool" where
  "queued_fresh now g best =
     (case best of None \<Rightarrow> True | Some b \<Rightarrow> b \<in> set (gv_queue g) \<and> \<not> wait_expired now b)"

lemma set_remove1_other: "x \<in> set xs \<Longrightarrow> x \<noteq> y \<Longrightarrow> x \<in> set (remove1 y xs)"
  by (simp add: in_set_remove1)

lemma length_remove1_less: "x \<in> set xs \<Longrightarrow> length xs \<le> n \<Longrightarrow> length (remove1 x xs) < n"
  by (metis length_remove1 length_pos_if_in_set diff_less zero_less_one order_less_le_trans)

lemma queue_gov_cancel [simp]: "gv_queue (gov_cancel now reason w g) = remove1 w (gv_queue g)"
  by (simp add: gov_cancel_def)

lemma scan_done: "length (gv_queue g) \<le> i \<Longrightarrow> scan_queue now i best g = (best, g)"
  by (simp add: scan_queue.simps [of now i])

lemma scan_expired:
  "i < length (gv_queue g) \<Longrightarrow> wait_expired now (gv_queue g ! i) \<Longrightarrow>
    scan_queue now i best g = scan_queue now (i + 1) best (gov_cancel now Reason_deadline (gv_queue g ! i) g)"
  by (simp add: scan_queue.simps [of now i] Let_def)

lemma scan_waiting:
  "i < length (gv_queue g) \<Longrightarrow> \<not> wait_expired now (gv_queue g ! i) \<Longrightarrow>
    scan_queue now i best g = scan_queue now (i + 1) (better (gv_queue g ! i) best) g"
  by (simp add: scan_queue.simps [of now i] Let_def)

lemma scan_queue_best:
  assumes "scan_queue now i best g = (best', g')" and "queued_fresh now g best"
  shows "queued_fresh now g' best' \<and> length (gv_queue g') \<le> length (gv_queue g)"
  using assms
proof (induction now i best g rule: scan_queue.induct)
  case (1 now i best g)
  let ?w = "gv_queue g ! i"
  consider "length (gv_queue g) \<le> i"
    | "i < length (gv_queue g)" "wait_expired now ?w"
    | "i < length (gv_queue g)" "\<not> wait_expired now ?w" by linarith
  then show ?case
  proof cases
    case 1
    then show ?thesis using "1.prems" by (simp add: scan_done)
  next
    case 2
    have "queued_fresh now (gov_cancel now Reason_deadline ?w g) best"
      using 2 "1.prems"(2) by (auto simp: queued_fresh_def intro!: set_remove1_other split: option.splits)
    with "1.IH"(1) [OF 2(1) refl 2(2)] "1.prems" 2 show ?thesis
      by (auto simp: scan_expired length_remove1)
  next
    case 3
    have "queued_fresh now g (better ?w best)"
      using 3 "1.prems"(2) by (auto simp: queued_fresh_def better_def split: option.splits)
    with "1.IH"(2) [OF 3(1) refl 3(2)] "1.prems" 3 show ?thesis by (simp add: scan_waiting)
  qed
qed

text \<open>The waiter selected leaves the queue and is dispatched.\<close>

definition gov_serve :: "int \<Rightarrow> waiter \<Rightarrow> governor \<Rightarrow> governor" where
  "gov_serve now best g =
     gov_dispatch (wt_request best) (wt_task best) (now - wt_queuedAtMs best)
       (g\<lparr>gv_queue := remove1 best (gv_queue g)\<rparr>)"

lemma queue_gov_serve [simp]: "gv_queue (gov_serve now w g) = remove1 w (gv_queue g)"
  by (simp add: gov_serve_def gov_dispatch_def Let_def)

text \<open>Offer the free slots to the waiters.\<close>

function pump :: "int \<Rightarrow> governor \<Rightarrow> governor" where
  "pump now g =
     (if gv_queue g \<noteq> [] \<and> num_less (gv_active g) (gv_maxConcurrent g) then
        (case scan_queue now 0 None g of
           (None, g) \<Rightarrow> g
         | (Some best, g) \<Rightarrow> pump now (gov_serve now best g))
      else g)"
  by pat_completeness auto

termination
proof (relation "measure (\<lambda>(now, g). length (gv_queue g))", goal_cases)
  case 1
  then show ?case by simp
next
  case (2 now g r g' best)
  have "queued_fresh now g' (Some best) \<and> length (gv_queue g') \<le> length (gv_queue g)"
    using 2 by (intro scan_queue_best) (auto simp: queued_fresh_def)
  then show ?case
    by (simp add: queued_fresh_def length_remove1_less)
qed

declare pump.simps [simp del]


section \<open>Telemetry\<close>

definition drainTelemetry :: "governor \<Rightarrow> admission_record list \<times> governor" where
  "drainTelemetry g = (gv_records g, g\<lparr>gv_records := []\<rparr>)"

record class_row =
  cr_dispatched :: nat
  cr_cancelled :: nat
  cr_maxWait :: int

record gov_summary =
  gs_dispatched :: nat
  gs_cancelled :: nat
  gs_maxWait :: int
  gs_byPriority :: "(nat \<times> class_row) list"

definition count_record :: "admission_record \<Rightarrow> class_row \<Rightarrow> class_row" where
  "count_record r row =
     (let row = (if ar_cancelled r then row\<lparr>cr_cancelled := cr_cancelled row + 1\<rparr>
                 else row\<lparr>cr_dispatched := cr_dispatched row + 1\<rparr>)
      in if cr_maxWait row < ar_queueWaitMs r then row\<lparr>cr_maxWait := ar_queueWaitMs r\<rparr> else row)"

definition empty_row :: class_row where
  "empty_row = \<lparr>cr_dispatched = 0, cr_cancelled = 0, cr_maxWait = 0\<rparr>"

text \<open>The body of the loop over the records: the totals, and the row of the class in a \<open>Map\<close>.\<close>

definition fold_record ::
  "admission_record \<Rightarrow> class_row \<times> (nat \<times> class_row) list \<Rightarrow> class_row \<times> (nat \<times> class_row) list" where
  "fold_record r acc =
     (let row = (case map_of (snd acc) (ar_priority r) of None \<Rightarrow> empty_row | Some row \<Rightarrow> row)
      in (count_record r (fst acc), AList.update (ar_priority r) (count_record r row) (snd acc)))"

definition summarizeGovernorTelemetry :: "admission_record list \<Rightarrow> gov_summary" where
  "summarizeGovernorTelemetry records =
     (let (total, rows) = fold fold_record records (empty_row, [])
      in \<lparr>gs_dispatched = cr_dispatched total, gs_cancelled = cr_cancelled total,
          gs_maxWait = cr_maxWait total,
          gs_byPriority = map (\<lambda>p. (p, the (map_of rows p))) (sort (map fst rows))\<rparr>)"

definition summarizeTelemetry :: "governor \<Rightarrow> gov_summary" where
  "summarizeTelemetry g = summarizeGovernorTelemetry (gv_records g)"

fun priority_name :: "nat \<Rightarrow> string" where
  "priority_name p =
     (if p = 1 then ''authoritative'' else if p = 2 then ''required-prepass''
      else if p = 3 then ''recovery'' else if p = 4 then ''advisory'' else ''unknown'')"

definition render_counts :: "nat \<Rightarrow> nat \<Rightarrow> int \<Rightarrow> string \<Rightarrow> string" where
  "render_counts d c w sep =
     ''dispatched='' @ string_of_nat d @ sep @ ''cancelled_before_dispatch='' @ string_of_nat c
       @ sep @ ''max_queue_wait_ms='' @ string_of_int w"

definition renderGovernorTelemetryLine :: "gov_summary \<Rightarrow> string" where
  "renderGovernorTelemetryLine s =
     render_counts (gs_dispatched s) (gs_cancelled s) (gs_maxWait s) ''; ''
       @ concat (map (\<lambda>(p, row). ''; p'' @ string_of_nat p @ ''('' @ priority_name p @ ''): ''
           @ render_counts (cr_dispatched row) (cr_cancelled row) (cr_maxWait row) '' '')
         (gs_byPriority s))"

text \<open>The shared governor of the run: \<open>sharedGovernor\<close> is the argument.\<close>

definition sharedRunInferenceGovernor :: "governor option \<Rightarrow> governor" where
  "sharedRunInferenceGovernor shared =
     (case shared of None \<Rightarrow> createInferenceGovernor (Some (Fin 0)) | Some g \<Rightarrow> g)"

definition configureSharedRunInferenceGovernor :: "governor option \<Rightarrow> governor option \<Rightarrow> governor option" where
  "configureSharedRunInferenceGovernor governor shared = governor"

definition drainSharedRunInferenceGovernor :: "governor option \<Rightarrow> gov_summary option \<times> governor option" where
  "drainSharedRunInferenceGovernor shared =
     (case shared of
        None \<Rightarrow> (None, shared)
      | Some g \<Rightarrow> (if gv_enabled g then Some (summarizeTelemetry g) else None, shared))"

definition renderRunInferenceTelemetryLine :: "gov_summary \<Rightarrow> string" where
  "renderRunInferenceTelemetryLine s = ''inference governor: '' @ renderGovernorTelemetryLine s"

section \<open>The entry points\<close>

text \<open>The callbacks the governor installs: the abort listener, the deadline timer, the release watcher.\<close>

definition on_abort :: "int \<Rightarrow> call_id \<Rightarrow> governor \<Rightarrow> governor" where
  "on_abort now task g =
     (case find (\<lambda>w. wt_task w = task \<and> gr_signal (wt_request w) \<noteq> None) (gv_queue g) of
        None \<Rightarrow> g
      | Some w \<Rightarrow> gov_cancel now Reason_cancelled w g)"

definition on_timer :: "int \<Rightarrow> call_id \<Rightarrow> governor \<Rightarrow> governor" where
  "on_timer now task g =
     (case find (\<lambda>w. wt_task w = task \<and> gr_deadlineMs (wt_request w) \<noteq> None) (gv_queue g) of
        None \<Rightarrow> g
      | Some w \<Rightarrow> gov_cancel now Reason_deadline w g)"

definition on_settled :: "int \<Rightarrow> call_id \<Rightarrow> governor \<Rightarrow> governor" where
  "on_settled now task g =
     (if task \<in> set (gv_held g)
      then pump now (g\<lparr>gv_held := remove1 task (gv_held g), gv_active := gv_active g - 1\<rparr>)
      else g)"

text \<open>
  A run of the governor: what happens to it, in any order, with the clock of each moment. A call is
  offered once; \<open>offered\<close> are the calls so far and \<open>drained\<close> the records handed out.
\<close>

datatype gov_event =
    Ev_admit int gov_request call_id
  | Ev_abort int call_id
  | Ev_timer int call_id
  | Ev_settled int call_id
  | Ev_drain

record gov_run =
  the_gov :: governor
  offered :: "call_id list"
  drained :: "admission_record list"

fun gov_step :: "gov_event \<Rightarrow> gov_run \<Rightarrow> gov_run" where
  "gov_step (Ev_admit now request task) s =
     (if task \<in> set (offered s) then s
      else s\<lparr>the_gov := gov_admit now request task (the_gov s), offered := offered s @ [task]\<rparr>)"
| "gov_step (Ev_abort now task) s = s\<lparr>the_gov := on_abort now task (the_gov s)\<rparr>"
| "gov_step (Ev_timer now task) s = s\<lparr>the_gov := on_timer now task (the_gov s)\<rparr>"
| "gov_step (Ev_settled now task) s = s\<lparr>the_gov := on_settled now task (the_gov s)\<rparr>"
| "gov_step Ev_drain s =
     s\<lparr>the_gov := snd (drainTelemetry (the_gov s)), drained := drained s @ gv_records (the_gov s)\<rparr>"

definition gov_start :: "jsnum option \<Rightarrow> gov_run" where
  "gov_start cap = \<lparr>the_gov = createInferenceGovernor cap, offered = [], drained = []\<rparr>"

definition gov_history :: "jsnum option \<Rightarrow> gov_event list \<Rightarrow> gov_run" where
  "gov_history cap events = fold gov_step events (gov_start cap)"

end
