(* ===== verification/Governor_Properties.thy ===== *)
theory Governor_Properties
  imports Governor "HOL-Library.Multiset" "HOL-Library.Product_Lexorder"
begin

text \<open>
  What holds of every run of the inference governor (\<open>Governor\<close>): the cap, the single conclusion of
  each call, the order of service, the use of the free slots, and what the telemetry counts.
\<close>

section \<open>Induction over the pump\<close>

lemma gov_cancel_simps [simp]:
  "gv_maxConcurrent (gov_cancel now reason w g) = gv_maxConcurrent g"
  "gv_enabled (gov_cancel now reason w g) = gv_enabled g"
  "gv_active (gov_cancel now reason w g) = gv_active g"
  "gv_seq (gov_cancel now reason w g) = gv_seq g"
  "gv_held (gov_cancel now reason w g) = gv_held g"
  "gv_log (gov_cancel now reason w g) = gv_log g @ [Rejects_call (wt_task w) reason]"
  by (simp_all add: gov_cancel_def)

lemma gov_serve_simps [simp]:
  "gv_maxConcurrent (gov_serve now w g) = gv_maxConcurrent g"
  "gv_enabled (gov_serve now w g) = gv_enabled g"
  "gv_active (gov_serve now w g) = gv_active g + 1"
  "gv_seq (gov_serve now w g) = gv_seq g"
  "gv_held (gov_serve now w g) = gv_held g @ [wt_task w]"
  "gv_log (gov_serve now w g) = gv_log g @ [Runs_task (wt_task w)]"
  by (simp_all add: gov_serve_def gov_dispatch_def Let_def)

lemma scan_queue_induct:
  assumes "P g"
    and "\<And>w g. P g \<Longrightarrow> w \<in> set (gv_queue g) \<Longrightarrow> wait_expired now w \<Longrightarrow>
      P (gov_cancel now Reason_deadline w g)"
  shows "P (snd (scan_queue now i best g))"
  using assms
proof (induction now i best g rule: scan_queue.induct)
  case (1 now i best g)
  let ?w = "gv_queue g ! i"
  consider "length (gv_queue g) \<le> i"
    | "i < length (gv_queue g)" "wait_expired now ?w"
    | "i < length (gv_queue g)" "\<not> wait_expired now ?w" by linarith
  then show ?case
  proof cases
    case 1
    then show ?thesis using "1.prems" by (simp add: scan_done)
  next
    case 2
    have "P (gov_cancel now Reason_deadline ?w g)" by (intro "1.prems" nth_mem 2)
    then show ?thesis using "1.IH"(1) [OF 2(1) refl 2(2)] "1.prems"(2) 2 by (simp add: scan_expired)
  next
    case 3
    then show ?thesis using "1.IH"(2) [OF 3(1) refl 3(2)] "1.prems" by (simp add: scan_waiting)
  qed
qed

lemma scan_queue_same:
  "gv_active (snd (scan_queue now i best g)) = gv_active g"
  "gv_maxConcurrent (snd (scan_queue now i best g)) = gv_maxConcurrent g"
  by (rule scan_queue_induct; simp)+

lemma pump_idle: "gv_queue g = [] \<Longrightarrow> pump now g = g"
  by (simp add: pump.simps [of now])

lemma pump_full: "\<not> num_less (gv_active g) (gv_maxConcurrent g) \<Longrightarrow> pump now g = g"
  by (simp add: pump.simps [of now])

text \<open>What a cancellation of an expired waiter and the service of a waiter into a free slot both keep.\<close>

lemma pump_induct:
  assumes "P g"
    and cancel: "\<And>w g. P g \<Longrightarrow> w \<in> set (gv_queue g) \<Longrightarrow> P (gov_cancel now Reason_deadline w g)"
    and serve: "\<And>w g. P g \<Longrightarrow> w \<in> set (gv_queue g) \<Longrightarrow>
      num_less (gv_active g) (gv_maxConcurrent g) \<Longrightarrow> P (gov_serve now w g)"
  shows "P (pump now g)"
  using assms(1)
proof (induction "length (gv_queue g)" arbitrary: g rule: less_induct)
  case less
  obtain best g' where scan: "scan_queue now 0 None g = (best, g')" by (cases "scan_queue now 0 None g")
  have P: "P g'" using scan_queue_induct [of P g now 0 None] less.prems cancel scan by auto
  have fresh: "queued_fresh now g' best" "length (gv_queue g') \<le> length (gv_queue g)"
    using scan_queue_best [OF scan] by (simp_all add: queued_fresh_def)
  note same = scan_queue_same [of now 0 None g, unfolded scan snd_conv]
  show ?case
  proof (cases "gv_queue g \<noteq> [] \<and> num_less (gv_active g) (gv_maxConcurrent g)")
    case False
    then show ?thesis using less.prems by (auto simp: pump_idle pump_full)
  next
    case True
    then have unfold: "pump now g = (case best of None \<Rightarrow> g' | Some b \<Rightarrow> pump now (gov_serve now b g'))"
      by (simp add: pump.simps [of now g] scan)
    show ?thesis
    proof (cases best)
      case None
      then show ?thesis by (simp add: unfold P)
    next
      case (Some b)
      have "b \<in> set (gv_queue g')" using fresh Some by (simp add: queued_fresh_def)
      then show ?thesis
        using less.hyps [of "gov_serve now b g'"] serve [OF P] True same fresh Some
        by (simp add: unfold length_remove1_less)
    qed
  qed
qed

section \<open>The invariant\<close>

definition started_calls :: "gov_effect list \<Rightarrow> call_id list" where
  "started_calls entries = [c. Runs_task c \<leftarrow> entries]"

definition gov_ok :: "int \<Rightarrow> call_id list \<Rightarrow> admission_record list \<Rightarrow> governor \<Rightarrow> bool" where
  "gov_ok c calls handed g \<longleftrightarrow>
     gv_enabled g \<and> gv_maxConcurrent g = Fin (of_int c) \<and>
     gv_active g = int (length (gv_held g)) \<and> gv_active g \<le> c \<and>
     sorted_wrt (<) (map wt_seq (gv_queue g)) \<and> (\<forall>w \<in> set (gv_queue g). wt_seq w \<le> gv_seq g) \<and>
     distinct calls \<and> mset (map wt_task (gv_queue g) @ map effect_call (gv_log g)) = mset calls \<and>
     mset (gv_held g) \<subseteq># mset (started_calls (gv_log g)) \<and>
     map ar_cancelled (handed @ gv_records g) = map is_Rejects_call (gv_log g)"

lemma gov_okI:
  assumes "gv_enabled g" "gv_maxConcurrent g = Fin (of_int c)"
    "gv_active g = int (length (gv_held g))" "gv_active g \<le> c"
    "sorted_wrt (<) (map wt_seq (gv_queue g))" "\<forall>w \<in> set (gv_queue g). wt_seq w \<le> gv_seq g"
    "distinct calls" "mset (map wt_task (gv_queue g) @ map effect_call (gv_log g)) = mset calls"
    "mset (gv_held g) \<subseteq># mset (started_calls (gv_log g))"
    "map ar_cancelled (handed @ gv_records g) = map is_Rejects_call (gv_log g)"
  shows "gov_ok c calls handed g"
  using assms by (simp add: gov_ok_def)


lemma started_calls_append [simp]: "started_calls (xs @ ys) = started_calls xs @ started_calls ys"
  by (simp add: started_calls_def)

lemma started_calls_single [simp]:
  "started_calls [Runs_task c] = [c]" "started_calls [Rejects_call c r] = []" "started_calls [] = []"
  by (simp_all add: started_calls_def)

lemma sorted_wrt_remove1: "sorted_wrt R (map f xs) \<Longrightarrow> sorted_wrt R (map f (remove1 x xs))"
  by (induction xs) (auto dest: notin_set_remove1)

lemma ok_queue_remove:
  assumes "gov_ok c calls handed g" and "w \<in> set (gv_queue g)"
  shows "sorted_wrt (<) (map wt_seq (remove1 w (gv_queue g)))"
    and "\<forall>v \<in> set (remove1 w (gv_queue g)). wt_seq v \<le> gv_seq g"
    and "add_mset (wt_task w) (image_mset wt_task (mset (remove1 w (gv_queue g)))) + mset (map effect_call (gv_log g))
      = mset calls"
proof -
  show "sorted_wrt (<) (map wt_seq (remove1 w (gv_queue g)))"
    using assms by (auto simp: gov_ok_def intro: sorted_wrt_remove1)
  show "\<forall>v \<in> set (remove1 w (gv_queue g)). wt_seq v \<le> gv_seq g"
    using assms by (auto simp: gov_ok_def dest: notin_set_remove1)
  have "image_mset wt_task (mset (gv_queue g)) =
      add_mset (wt_task w) (image_mset wt_task (mset (remove1 w (gv_queue g))))"
    using assms(2) by (metis image_mset_add_mset insert_DiffM mset_remove1 set_mset_mset)
  then show "add_mset (wt_task w) (image_mset wt_task (mset (remove1 w (gv_queue g))))
      + mset (map effect_call (gv_log g)) = mset calls"
    using assms(1) by (simp add: gov_ok_def)
qed

lemma ok_cancel:
  assumes "gov_ok c calls handed g" and "w \<in> set (gv_queue g)"
  shows "gov_ok c calls handed (gov_cancel now reason w g)"
  using assms(1) ok_queue_remove [OF assms]
  by (intro gov_okI) (auto simp: gov_ok_def gov_cancel_def record_of_def)

lemma num_less_cap: "num_less i (Fin (of_int c)) \<longleftrightarrow> i < c"
  by (simp add: num_less_def)

lemma ok_serve:
  assumes "gov_ok c calls handed g" and "w \<in> set (gv_queue g)"
    and "num_less (gv_active g) (gv_maxConcurrent g)"
  shows "gov_ok c calls handed (gov_serve now w g)"
  using assms(1,3) ok_queue_remove [OF assms(1,2)]
  by (intro gov_okI)
    (auto simp: gov_ok_def gov_serve_def gov_dispatch_def Let_def record_of_def num_less_cap subset_mset.add_increasing2)

lemma ok_pump: "gov_ok c calls handed g \<Longrightarrow> gov_ok c calls handed (pump now g)"
  by (rule pump_induct) (auto intro: ok_cancel ok_serve)

lemma ok_release:
  assumes "gov_ok c calls handed g" and "task \<in> set (gv_held g)"
  shows "gov_ok c calls handed (g\<lparr>gv_held := remove1 task (gv_held g), gv_active := gv_active g - 1\<rparr>)"
proof -
  have "int (length (remove1 task (gv_held g))) = int (length (gv_held g)) - 1"
    using length_pos_if_in_set [OF assms(2)] assms(2) by (simp add: length_remove1 of_nat_diff Suc_le_eq)
  then show ?thesis
    using assms
    by (intro gov_okI) (auto simp: gov_ok_def intro: subset_mset.order_trans [OF diff_subset_eq_self])
qed

lemma ok_admit:
  assumes "gov_ok c calls handed g" and "task \<notin> set calls"
  shows "gov_ok c (calls @ [task]) handed (gov_admit now request task g)"
  using assms
  by (intro gov_okI)
    (auto simp: gov_ok_def gov_admit_def gov_dispatch_def gov_enqueue_def record_of_def Let_def num_less_cap
      sorted_wrt_append subset_mset.add_increasing2 less_Suc_eq_le le_SucI)

definition run_ok :: "int \<Rightarrow> gov_run \<Rightarrow> bool" where
  "run_ok c s \<longleftrightarrow> gov_ok c (offered s) (drained s) (the_gov s)"

lemma ok_found:
  "gov_ok c calls handed g \<Longrightarrow> gov_ok c calls handed (on_abort now task g)"
  "gov_ok c calls handed g \<Longrightarrow> gov_ok c calls handed (on_timer now task g)"
  by (auto simp: on_abort_def on_timer_def find_Some_iff intro: ok_cancel split: option.split)

lemma ok_settled: "gov_ok c calls handed g \<Longrightarrow> gov_ok c calls handed (on_settled now task g)"
  by (simp add: on_settled_def ok_pump ok_release)

lemma ok_drained:
  "gov_ok c calls handed g \<Longrightarrow> gov_ok c calls (handed @ gv_records g) (snd (drainTelemetry g))"
  by (simp add: gov_ok_def drainTelemetry_def)

interpretation gov: event_system gov_step "\<lambda>e. True" "run_ok c" for c
proof
  fix e s
  assume "run_ok c s"
  then show "run_ok c (gov_step e s)"
    by (cases e) (simp_all add: run_ok_def ok_admit ok_found ok_settled ok_drained)
qed

lemma run_ok_start: "1 \<le> c \<Longrightarrow> run_ok c (gov_start (Some (Fin (of_int c))))"
  by (simp add: run_ok_def gov_ok_def gov_start_def createInferenceGovernor_def new_governor_def
      num_less_def is_integer_num_def is_integral_def started_calls_def)

lemma run_ok_history: "1 \<le> c \<Longrightarrow> run_ok c (gov_history (Some (Fin (of_int c))) events)"
  unfolding gov_history_def by (rule gov.run_inv [OF _ run_ok_start]) (simp_all add: list_all_iff)


text \<open>C20: Bounded concurrency, and one conclusion per call. Whatever requests are offered, aborted, timed
  out and settled, in whatever order, an enabled governor with the cap c has at most c tasks in
  flight and counts exactly those; every call it was offered is either still waiting or was
  concluded exactly once - its task started, or its promise rejected - and no call is both; and only
  a started task can hold a slot.\<close>

theorem calls_concluded_once:
  assumes "1 \<le> c" and "s = gov_history (Some (Fin (of_int c))) events"
  shows "int (length (gv_held (the_gov s))) \<le> c \<and>
    gv_active (the_gov s) = int (length (gv_held (the_gov s))) \<and>
    distinct (offered s) \<and>
    mset (map wt_task (gv_queue (the_gov s)) @ map effect_call (gv_log (the_gov s))) = mset (offered s) \<and>
    mset (gv_held (the_gov s)) \<subseteq># mset (started_calls (gv_log (the_gov s)))"
  using run_ok_history [OF assms(1), of events] by (simp add: run_ok_def gov_ok_def assms(2))

section \<open>The order of service\<close>

text \<open>The order the governor promises: by class, and within a class by arrival.\<close>

definition service_key :: "waiter \<Rightarrow> gov_priority \<times> nat" where
  "service_key w = (wt_priority w, wt_seq w)"

definition service_order :: "waiter list \<Rightarrow> waiter list" where
  "service_order = sort_key service_key"

lemma served_before_key: "served_before w b \<longleftrightarrow> service_key w < service_key b"
  by (auto simp: served_before_def service_key_def less_prod_simp)

lemma fold_better:
  "\<exists>m. fold better ws (Some b) = Some m \<and> m \<in> insert b (set ws) \<and>
    (\<forall>w \<in> insert b (set ws). service_key m \<le> service_key w)"
proof (induction ws arbitrary: b)
  case Nil
  then show ?case by simp
next
  case (Cons w ws)
  show ?case
  proof (cases "service_key w < service_key b")
    case True
    then show ?thesis using Cons [of w] by (auto simp: better_def served_before_key)
  next
    case False
    then show ?thesis using Cons [of b] by (auto simp: better_def served_before_key)
  qed
qed

lemma scan_unexpired:
  "\<forall>w \<in> set (gv_queue g). \<not> wait_expired now w \<Longrightarrow>
    scan_queue now i best g = (fold better (drop i (gv_queue g)) best, g)"
proof (induction now i best g rule: scan_queue.induct)
  case (1 now i best g)
  show ?case
  proof (cases "i < length (gv_queue g)")
    case False
    then show ?thesis by (simp add: scan_done)
  next
    case True
    then have live: "\<not> wait_expired now (gv_queue g ! i)" using "1.prems" by simp
    show ?thesis
      using "1.IH"(2) [OF True refl live "1.prems"] True live
      by (simp add: scan_waiting Cons_nth_drop_Suc [OF True, symmetric])
  qed
qed

definition queue_keyed :: "waiter list \<Rightarrow> bool" where
  "queue_keyed q \<longleftrightarrow> sorted_wrt (<) (map wt_seq q)"

lemma queue_keyed_inj: "queue_keyed q \<Longrightarrow> inj_on service_key (set q)"
  using strict_sorted_iff [of "map wt_seq q"]
  by (auto simp: queue_keyed_def service_key_def distinct_map inj_on_def)

lemma queue_keyed_remove1: "queue_keyed q \<Longrightarrow> queue_keyed (remove1 w q)"
  unfolding queue_keyed_def by (rule sorted_wrt_remove1)

lemma service_order_simps [simp]:
  "mset (service_order q) = mset q" "set (service_order q) = set q"
  "length (service_order q) = length q" "service_order [] = []"
  by (simp_all add: service_order_def)

lemma scan_first:
  assumes "\<forall>w \<in> set (gv_queue g). \<not> wait_expired now w" and "gv_queue g \<noteq> []" and "queue_keyed (gv_queue g)"
  shows "scan_queue now 0 None g = (Some (hd (service_order (gv_queue g))), g)"
proof -
  let ?q = "gv_queue g" and ?h = "hd (service_order (gv_queue g))"
  obtain w ws where q: "?q = w # ws" using assms(2) by (cases ?q) auto
  obtain m where m: "fold better ?q None = Some m" "m \<in> set ?q" "\<forall>w \<in> set ?q. service_key m \<le> service_key w"
    using fold_better [of ws w] by (auto simp: q better_def)
  have ne: "service_order ?q \<noteq> []" using assms(2) by (metis length_0_conv service_order_simps(3))
  then have h: "?h \<in> set ?q" by (metis hd_in_set service_order_simps(2))
  have "sorted (map service_key (service_order ?q))" by (simp add: service_order_def)
  then have "\<forall>v \<in> set (service_order ?q). service_key ?h \<le> service_key v"
    using ne by (cases "service_order ?q") auto
  then have "service_key ?h = service_key m" using m h by (simp add: order_antisym)
  then have "?h = m" using queue_keyed_inj [OF assms(3)] h m(2) by (simp add: inj_on_eq_iff)
  then show ?thesis using scan_unexpired [OF assms(1), of 0 None] m(1) by simp
qed

lemma service_order_remove:
  assumes "queue_keyed q" and "q \<noteq> []"
  shows "service_order (remove1 (hd (service_order q)) q) = tl (service_order q)"
proof -
  obtain h t where o: "service_order q = h # t"
    using assms(2) by (cases "service_order q") (auto dest: arg_cong [where f = length])
  have "sorted (map service_key (h # t))" unfolding o [symmetric] by (simp add: service_order_def)
  moreover have "mset (remove1 h q) = mset t"
    unfolding mset_remove1 service_order_simps(1) [of q, symmetric] o by simp
  moreover have "inj_on service_key (set (remove1 h q))"
    by (rule queue_keyed_inj [OF queue_keyed_remove1 [OF assms(1)]])
  ultimately have "service_order (remove1 h q) = t"
    unfolding service_order_def by (intro sort_key_inj_key_eq) auto
  then show ?thesis by (simp add: o)
qed


abbreviation none_expired :: "int \<Rightarrow> governor \<Rightarrow> bool" where
  "none_expired now g \<equiv> list_all (\<lambda>w. \<not> wait_expired now w) (gv_queue g)"

text \<open>The pump, when no waiter is expired: the free slots go to the first waiters of the service order.\<close>

lemma pump_in_order:
  assumes "gv_maxConcurrent g = Fin (of_int c)" and "queue_keyed (gv_queue g)" and "none_expired now g"
    and "k = nat (c - gv_active g)"
  shows "gv_log (pump now g) = gv_log g @ map (Runs_task \<circ> wt_task) (take k (service_order (gv_queue g))) \<and>
    gv_held (pump now g) = gv_held g @ map wt_task (take k (service_order (gv_queue g))) \<and>
    service_order (gv_queue (pump now g)) = drop k (service_order (gv_queue g))"
  using assms
proof (induction "length (gv_queue g)" arbitrary: g k rule: less_induct)
  case less
  let ?q = "gv_queue g"
  show ?case
  proof (cases "?q \<noteq> [] \<and> gv_active g < c")
    case False
    then show ?thesis
      using less.prems by (auto simp: pump_idle pump_full num_less_cap)
  next
    case True
    then obtain h t where o: "service_order ?q = h # t"
      by (cases "service_order ?q") (auto dest: arg_cong [where f = length])
    have h: "h \<in> set ?q" using o by (metis list.set_intros(1) service_order_simps(2))
    have step: "pump now g = pump now (gov_serve now h g)"
      using True less.prems scan_first [of g now] o
      by (simp add: pump.simps [of now g] num_less_cap list_all_iff)
    have rest: "service_order (remove1 h ?q) = t"
      using service_order_remove [of ?q] less.prems(2) True o by simp
    obtain n where k: "k = Suc n" "n = nat (c - gv_active (gov_serve now h g))"
      using True less.prems(4) by (cases k) auto
    have expired: "none_expired now (gov_serve now h g)"
      using less.prems(3) by (auto simp: list_all_iff dest: notin_set_remove1)
    note IH = less.hyps [of "gov_serve now h g" n, OF _ _ _ expired k(2)]
    show ?thesis
      using IH less.prems(1,2) h
      by (simp add: step o rest k(1) length_remove1_less queue_keyed_remove1)
  qed
qed


lemma pump_empties_or_fills:
  assumes "gov_ok c calls handed g" and "none_expired now g"
  shows "gv_queue (pump now g) = [] \<or> gv_active (pump now g) = c"
proof -
  let ?k = "nat (c - gv_active g)" and ?p = "pump now g"
  have o: "gv_held ?p = gv_held g @ map wt_task (take ?k (service_order (gv_queue g)))"
    "service_order (gv_queue ?p) = drop ?k (service_order (gv_queue g))"
    using pump_in_order [of g c now ?k] assms by (auto simp: gov_ok_def queue_keyed_def)
  have a: "gv_active ?p = int (length (gv_held ?p))" using ok_pump [OF assms(1)] by (simp add: gov_ok_def)
  have c: "gv_active g \<le> c" "gv_active g = int (length (gv_held g))" using assms(1) by (auto simp: gov_ok_def)
  show ?thesis
  proof (cases "length (gv_queue g) \<le> ?k")
    case True
    then have "length (gv_queue ?p) = 0" using o(2) by (metis drop_all service_order_simps(3) list.size(3))
    then show ?thesis by simp
  next
    case False
    then have "gv_active ?p = c" using a o(1) c by simp
    then show ?thesis ..
  qed
qed

text \<open>C21: Priority and first come, first served. When a task in flight settles and no waiter's deadline
  has passed, the free slots go to the first waiters in the order of the documented contract - by
  priority class, highest first, and by arrival within a class - which are started in that order,
  and the others keep waiting.\<close>

theorem freed_slots_in_order:
  assumes "1 \<le> c" and "s = gov_history (Some (Fin (of_int c))) events"
    and "task \<in> set (gv_held (the_gov s))" and "none_expired now (the_gov s)"
    and "s' = gov_step (Ev_settled now task) s" and "k = nat (c - gv_active (the_gov s) + 1)"
  shows "gv_log (the_gov s') = gv_log (the_gov s)
      @ map (Runs_task \<circ> wt_task) (take k (service_order (gv_queue (the_gov s)))) \<and>
    service_order (gv_queue (the_gov s')) = drop k (service_order (gv_queue (the_gov s)))"
proof -
  let ?g = "the_gov s" and ?r = "(the_gov s)\<lparr>gv_held := remove1 task (gv_held (the_gov s)), gv_active := gv_active (the_gov s) - 1\<rparr>"
  have ok: "gov_ok c (offered s) (drained s) ?g" using run_ok_history [OF assms(1), of events] assms(2) by (simp add: run_ok_def)
  have "the_gov s' = pump now ?r" using assms(3,5) by (simp add: on_settled_def)
  then show ?thesis
    using pump_in_order [of ?r c now k] ok assms(4,6) by (simp add: gov_ok_def queue_keyed_def algebra_simps)
qed

section \<open>Work is never held up without deadlines\<close>

fun no_deadline :: "gov_event \<Rightarrow> bool" where
  "no_deadline (Ev_admit now request task) = (gr_deadlineMs request = None)"
| "no_deadline e = True"

definition patient :: "governor \<Rightarrow> bool" where
  "patient g \<longleftrightarrow> list_all (\<lambda>w. gr_deadlineMs (wt_request w) = None) (gv_queue g)"

lemma patient_unexpired: "patient g \<Longrightarrow> none_expired now g"
  by (auto simp: patient_def list_all_iff wait_expired_def)

lemma patient_remove: "patient g \<Longrightarrow> set (gv_queue g') \<subseteq> set (gv_queue g) \<Longrightarrow> patient g'"
  by (auto simp: patient_def list_all_iff)

lemma pump_subset: "set (gv_queue (pump now g)) \<subseteq> set (gv_queue g)"
  by (rule pump_induct [of "\<lambda>h. set (gv_queue h) \<subseteq> set (gv_queue g)"]) (auto dest: notin_set_remove1)

definition busy :: "int \<Rightarrow> gov_run \<Rightarrow> bool" where
  "busy c s \<longleftrightarrow> run_ok c s \<and> patient (the_gov s) \<and>
     (gv_queue (the_gov s) = [] \<or> gv_active (the_gov s) = c)"

lemma busy_admit:
  assumes "gov_ok c calls handed g" and "patient g" and "gv_queue g = [] \<or> gv_active g = c"
    and "gr_deadlineMs request = None"
  shows "patient (gov_admit now request task g) \<and>
    (gv_queue (gov_admit now request task g) = [] \<or> gv_active (gov_admit now request task g) = c)"
  using assms
  by (auto simp: gov_admit_def gov_dispatch_def gov_enqueue_def gov_cancel_def Let_def num_less_cap
      gov_ok_def patient_def)

lemma found_same:
  "gv_active (on_abort now task g) = gv_active g" "set (gv_queue (on_abort now task g)) \<subseteq> set (gv_queue g)"
  "gv_active (on_timer now task g) = gv_active g" "set (gv_queue (on_timer now task g)) \<subseteq> set (gv_queue g)"
  by (auto simp: on_abort_def on_timer_def split: option.splits dest: subsetD [OF set_remove1_subset])

lemma busy_settled:
  assumes "gov_ok c calls handed g" and "patient g" and "gv_queue g = [] \<or> gv_active g = c"
  shows "patient (on_settled now task g) \<and>
    (gv_queue (on_settled now task g) = [] \<or> gv_active (on_settled now task g) = c)"
proof (cases "task \<in> set (gv_held g)")
  case False
  then show ?thesis using assms by (simp add: on_settled_def)
next
  case True
  let ?r = "g\<lparr>gv_held := remove1 task (gv_held g), gv_active := gv_active g - 1\<rparr>"
  have "on_settled now task g = pump now ?r" using True by (simp add: on_settled_def)
  moreover have "patient ?r" by (rule patient_remove [OF assms(2)]) simp
  ultimately show ?thesis
    using pump_empties_or_fills [OF ok_release [OF assms(1) True] patient_unexpired, of now]
      patient_remove [OF _ pump_subset, of ?r] by simp
qed

interpretation patient_gov: event_system gov_step no_deadline "busy c" for c
proof
  fix e s
  assume e: "no_deadline e" and b: "busy c s"
  then have ok: "run_ok c (gov_step e s)" by (simp add: busy_def gov.step_inv)
  show "busy c (gov_step e s)"
  proof (cases e)
    case (Ev_admit now request task)
    with e b ok show ?thesis
      using busy_admit [of c "offered s" "drained s" "the_gov s" request now task]
      by (simp add: busy_def run_ok_def)
  next
    case (Ev_settled now task)
    with b ok show ?thesis
      using busy_settled [of c "offered s" "drained s" "the_gov s" now task] by (simp add: busy_def run_ok_def)
  next
    case (Ev_abort now task)
    with b ok show ?thesis
      using found_same(1,2) [of now task "the_gov s"] patient_remove [OF _ found_same(2), of "the_gov s" now task]
      by (auto simp: busy_def)
  next
    case (Ev_timer now task)
    with b ok show ?thesis
      using found_same(3,4) [of now task "the_gov s"] patient_remove [OF _ found_same(4), of "the_gov s" now task]
      by (auto simp: busy_def)
  next
    case Ev_drain
    with b ok show ?thesis by (simp add: busy_def drainTelemetry_def patient_def)
  qed
qed

lemma busy_history:
  "1 \<le> c \<Longrightarrow> list_all no_deadline events \<Longrightarrow> busy c (gov_history (Some (Fin (of_int c))) events)"
  unfolding gov_history_def
  by (rule patient_gov.run_inv)
    (simp_all add: busy_def run_ok_start patient_def, simp_all add: gov_start_def createInferenceGovernor_def new_governor_def)


text \<open>The oldest tasks in flight settle one after the other.\<close>

primrec gov_drive :: "int \<Rightarrow> nat \<Rightarrow> gov_run \<Rightarrow> gov_run" where
  "gov_drive now 0 s = s"
| "gov_drive now (Suc n) s =
     gov_drive now n (case gv_held (the_gov s) of [] \<Rightarrow> s | task # _ \<Rightarrow> gov_step (Ev_settled now task) s)"

lemma busy_settle_first:
  assumes "busy c s" and "1 \<le> c" and "gv_queue (the_gov s) \<noteq> []"
  obtains task where "hd (gv_held (the_gov s)) = task" and "gv_held (the_gov s) \<noteq> []"
    and "length (gv_queue (the_gov (gov_step (Ev_settled now task) s))) = length (gv_queue (the_gov s)) - 1"
proof -
  let ?g = "the_gov s"
  have ok: "gov_ok c (offered s) (drained s) ?g" and c: "gv_active ?g = c" and p: "patient ?g"
    using assms by (auto simp: busy_def run_ok_def)
  then have held: "gv_held ?g \<noteq> []" using assms(2) by (auto simp: gov_ok_def)
  let ?r = "?g\<lparr>gv_held := remove1 (hd (gv_held ?g)) (gv_held ?g), gv_active := gv_active ?g - 1\<rparr>"
  have "the_gov (gov_step (Ev_settled now (hd (gv_held ?g))) s) = pump now ?r"
    using held by (simp add: on_settled_def)
  moreover have "service_order (gv_queue (pump now ?r)) = drop 1 (service_order (gv_queue ?g))"
    using pump_in_order [of ?r c now 1] ok patient_unexpired [OF p] c by (simp add: gov_ok_def queue_keyed_def)
  ultimately show ?thesis
    using that [OF refl held] by (metis length_drop service_order_simps(3))
qed

lemma busy_drive:
  "busy c s \<Longrightarrow> 1 \<le> c \<Longrightarrow> length (gv_queue (the_gov s)) = n \<Longrightarrow>
    busy c (gov_drive now n s) \<and> gv_queue (the_gov (gov_drive now n s)) = [] \<and>
    offered (gov_drive now n s) = offered s"
proof (induction n arbitrary: s)
  case 0
  then show ?case by simp
next
  case (Suc n)
  then have ne: "gv_queue (the_gov s) \<noteq> []" by auto
  obtain task where t: "hd (gv_held (the_gov s)) = task" "gv_held (the_gov s) \<noteq> []"
      "length (gv_queue (the_gov (gov_step (Ev_settled now task) s))) = length (gv_queue (the_gov s)) - 1"
    using busy_settle_first [OF Suc.prems(1,2) ne] by metis
  have "busy c (gov_step (Ev_settled now task) s)" by (rule patient_gov.step_inv [OF _ Suc.prems(1)]) simp
  then show ?case
    using Suc.IH [of "gov_step (Ev_settled now task) s"] t Suc.prems by (cases "gv_held (the_gov s)") auto
qed

text \<open>C23: Without deadlines, every call gets its turn. When no request carries a queue deadline, calls wait
  only while the cap is reached, and once as many tasks in flight have settled as there are waiters,
  every call offered has been started or rejected: none is left waiting, whatever its class.\<close>

theorem waiting_calls_served:
  assumes "1 \<le> c" and "list_all no_deadline events"
    and "s = gov_history (Some (Fin (of_int c))) events" and "n = length (gv_queue (the_gov s))"
  shows "(gv_queue (the_gov s) = [] \<or> int (length (gv_held (the_gov s))) = c) \<and>
    mset (map effect_call (gv_log (the_gov (gov_drive now n s)))) = mset (offered s)"
proof -
  have b: "busy c s" unfolding assms(3) by (rule busy_history [OF assms(1,2)])
  show ?thesis
    using b busy_drive [OF b assms(1) assms(4) [symmetric], of now] by (auto simp: busy_def run_ok_def gov_ok_def)
qed

section \<open>An expired waiter hides the next one\<close>

text \<open>C22: The pump skips the waiter behind an expired one. cancel splices the expired waiter out of the array
  that pump iterates over, and the iterator moves past the element that took its place. When the last
  task in flight settles while an expired waiter is queued directly before the only other one, the
  freed slot is offered to nobody: nothing is in flight, the other call keeps waiting, and a call
  that arrives later is started before it whatever the two classes are.\<close>

theorem expired_waiter_hides_next:
  assumes "1 \<le> c" and "s = gov_history (Some (Fin (of_int c))) events"
    and "gv_held (the_gov s) = [task]" and "gv_queue (the_gov s) = [a, b]" and "wait_expired now a"
    and "s' = gov_step (Ev_settled now task) s"
    and "late \<notin> set (offered s)" and "gr_signal request \<noteq> Some True"
  shows "gv_held (the_gov s') = [] \<and> gv_queue (the_gov s') = [b] \<and>
    gv_log (the_gov s') = gv_log (the_gov s) @ [Rejects_call (wt_task a) Reason_deadline] \<and>
    gv_held (the_gov (gov_step (Ev_admit now' request late) s')) = [late] \<and>
    gv_queue (the_gov (gov_step (Ev_admit now' request late) s')) = [b]"
proof -
  let ?g = "the_gov s"
  let ?r = "?g\<lparr>gv_held := [], gv_active := gv_active ?g - 1\<rparr>"
  have ok: "gov_ok c (offered s) (drained s) ?g"
    using run_ok_history [OF assms(1), of events] assms(2) by (simp add: run_ok_def)
  then have g: "gv_active ?g = 1" "gv_maxConcurrent ?g = Fin (of_int c)" "gv_enabled ?g"
    using assms(3) by (auto simp: gov_ok_def)
  have "scan_queue now 0 None ?r = (None, gov_cancel now Reason_deadline a ?r)"
    using assms(4,5) by (simp add: scan_expired scan_done)
  then have "pump now ?r = gov_cancel now Reason_deadline a ?r"
    using assms(1,4) g by (subst pump.simps) (simp add: num_less_cap)
  then have s': "the_gov s' = gov_cancel now Reason_deadline a ?r" "offered s' = offered s"
    using assms(3,6) by (simp_all add: on_settled_def)
  show ?thesis
    using assms(1,4,7,8) g by (simp add: s' gov_admit_def gov_dispatch_def Let_def num_less_cap)
qed

section \<open>What the telemetry counts\<close>

definition class_records :: "nat \<Rightarrow> admission_record list \<Rightarrow> admission_record list" where
  "class_records p = filter (\<lambda>r. ar_priority r = p)"

lemma fold_record_pair:
  "fold_record r (t, rows) = (count_record r t,
    AList.update (ar_priority r)
      (count_record r (case map_of rows (ar_priority r) of None \<Rightarrow> empty_row | Some row \<Rightarrow> row)) rows)"
  by (simp add: fold_record_def)

lemma fold_record_rows:
  "fst (fold fold_record rs (t, rows)) = fold count_record rs t"
  "map_of (snd (fold fold_record rs (t, rows))) p =
    (if class_records p rs = [] then map_of rows p
     else Some (fold count_record (class_records p rs) (case map_of rows p of None \<Rightarrow> empty_row | Some r \<Rightarrow> r)))"
  "distinct (map fst rows) \<Longrightarrow> distinct (map fst (snd (fold fold_record rs (t, rows))))"
  "fst ` set (snd (fold fold_record rs (t, rows))) = fst ` set rows \<union> ar_priority ` set rs"
proof (induction rs arbitrary: t rows)
  case Nil
  {
    case 1
    then show ?case by simp
  next
    case 2
    then show ?case by (simp add: class_records_def)
  next
    case 3
    then show ?case by simp
  next
    case 4
    then show ?case by simp
  }
next
  case (Cons r rs)
  {
    case 1
    then show ?case by (simp add: fold_record_pair Cons.IH)
  next
    case 2
    then show ?case
      by (simp add: fold_record_pair Cons.IH update_conv' class_records_def split: option.split)
  next
    case 3
    then show ?case by (simp add: fold_record_pair Cons.IH distinct_update)
  next
    case 4
    then show ?case by (simp add: fold_record_pair Cons.IH dom_update)
  }
qed


lemma fold_count_record:
  "cr_dispatched (fold count_record rs row) = cr_dispatched row + length (filter (\<lambda>r. \<not> ar_cancelled r) rs)"
  "cr_cancelled (fold count_record rs row) = cr_cancelled row + length (filter ar_cancelled rs)"
  "cr_maxWait (fold count_record rs row) = fold max (map ar_queueWaitMs rs) (cr_maxWait row)"
  by (induction rs arbitrary: row) (auto simp: count_record_def Let_def max_def)

text \<open>The counts of a list of records, said directly.\<close>

definition counted :: "admission_record list \<Rightarrow> class_row" where
  "counted rs =
     \<lparr>cr_dispatched = length (filter (\<lambda>r. \<not> ar_cancelled r) rs),
      cr_cancelled = length (filter ar_cancelled rs),
      cr_maxWait = fold max (map ar_queueWaitMs rs) 0\<rparr>"

lemma fold_counted: "fold count_record rs empty_row = counted rs"
  by (simp add: counted_def fold_count_record empty_row_def)

lemma summarize_counted:
  "summarizeGovernorTelemetry rs =
     \<lparr>gs_dispatched = cr_dispatched (counted rs), gs_cancelled = cr_cancelled (counted rs),
      gs_maxWait = cr_maxWait (counted rs),
      gs_byPriority = map (\<lambda>p. (p, counted (class_records p rs))) (sorted_list_of_set (ar_priority ` set rs))\<rparr>"
proof -
  obtain total rows where f: "fold fold_record rs (empty_row, []) = (total, rows)" by (cases "fold fold_record rs (empty_row, [])")
  note F = fold_record_rows [where rs = rs and t = empty_row and rows = "[]", unfolded f fst_conv snd_conv]
  have total: "total = counted rs" using F(1) by (simp add: fold_counted)
  have keys: "sort (map fst rows) = sorted_list_of_set (ar_priority ` set rs)"
    using F(3,4) by (metis distinct.simps(1) image_set list.set(1) list.map(1) image_empty sup_bot_left sorted_list_of_set_sort_remdups distinct_remdups_id)
  have row: "the (map_of rows p) = counted (class_records p rs)" if "p \<in> ar_priority ` set rs" for p
    using F(2) [where p = p] that by (auto simp: fold_counted class_records_def filter_empty_conv)
  show ?thesis
    by (simp add: summarizeGovernorTelemetry_def f total keys row cong: map_cong)
qed

text \<open>The telemetry accounts for every conclusion. Over a whole history, the records handed out and kept
  are one per concluded call: the summary's totals are the number of tasks started and the number of
  promises rejected, and its rows are, for exactly the classes that saw activity and highest class
  first, the counts and the longest wait of the records of that class.\<close>

theorem telemetry_exact:
  assumes "1 \<le> c" and "s = gov_history (Some (Fin (of_int c))) events"
    and "rs = drained s @ gv_records (the_gov s)" and "summary = summarizeGovernorTelemetry rs"
  shows "gs_dispatched summary = length (started_calls (gv_log (the_gov s))) \<and>
    gs_cancelled summary = length (filter is_Rejects_call (gv_log (the_gov s))) \<and>
    gs_byPriority summary =
      map (\<lambda>p. (p, counted (class_records p rs))) (sorted_list_of_set (ar_priority ` set rs))"
proof -
  have log: "map ar_cancelled rs = map is_Rejects_call (gv_log (the_gov s))"
    using run_ok_history [OF assms(1), of events] by (simp add: run_ok_def gov_ok_def assms(2,3))
  have started: "length (started_calls es) = length (filter (\<lambda>e. \<not> is_Rejects_call e) es)" for es
    by (induction es) (auto simp: started_calls_def split: gov_effect.split)
  have count: "length (filter P (map ar_cancelled rs)) = length (filter P (map is_Rejects_call (gv_log (the_gov s))))" for P
    by (simp only: log)
  show ?thesis
    using count [of "\<lambda>b. b"] count [of Not]
    by (simp add: assms(4) summarize_counted counted_def started length_filter_map comp_def)
qed


section \<open>Witnesses\<close>

definition demo_request :: "gov_priority \<Rightarrow> int option \<Rightarrow> gov_request" where
  "demo_request p d = \<lparr>gr_priority = p, gr_endpointKey = ''k'', gr_signal = None, gr_deadlineMs = d\<rparr>"

definition demo_waiter :: "nat \<Rightarrow> gov_priority \<Rightarrow> int option \<Rightarrow> waiter" where
  "demo_waiter n p d =
     \<lparr>wt_seq = n, wt_priority = p, wt_request = demo_request p d, wt_task = n, wt_queuedAtMs = 0\<rparr>"

definition demo_events :: "gov_priority \<Rightarrow> int option \<Rightarrow> gov_priority \<Rightarrow> gov_event list" where
  "demo_events p d q =
     [Ev_admit 0 (demo_request Class_authoritative None) 0, Ev_admit 0 (demo_request p d) 1,
      Ev_admit 0 (demo_request q None) 2]"

lemma demo_history:
  "the_gov (gov_history (Some (Fin 1)) (demo_events p d q)) =
    \<lparr>gv_maxConcurrent = Fin 1, gv_enabled = True, gv_active = 1,
     gv_queue = [demo_waiter 1 p d, demo_waiter 2 q None],
     gv_records = [record_of (demo_request Class_authoritative None) 0 1 False], gv_seq = 2,
     gv_held = [0], gv_log = [Runs_task 0]\<rparr>"
  "offered (gov_history (Some (Fin 1)) (demo_events p d q)) = [0, 1, 2]"
  "drained (gov_history (Some (Fin 1)) (demo_events p d q)) = []"
  by (simp_all add: gov_history_def demo_events_def gov_start_def createInferenceGovernor_def
      new_governor_def gov_admit_def gov_dispatch_def gov_enqueue_def num_less_def is_integer_num_def
      is_integral_def demo_request_def demo_waiter_def Let_def)

theorem calls_concluded_once_witness:
  "int (length (gv_held (the_gov (gov_history (Some (Fin (of_int 1))) (demo_events Class_advisory None Class_recovery))))) \<le> 1"
  using calls_concluded_once [of 1 "gov_history (Some (Fin (of_int 1))) (demo_events Class_advisory None Class_recovery)"]
  by simp

lemma demo_waiter_simps [simp]:
  "wt_task (demo_waiter n p d) = n" "\<not> wait_expired now (demo_waiter n p None)"
  "wait_expired now (demo_waiter n p (Some d')) \<longleftrightarrow> d' \<le> now"
  "gr_signal (demo_request p d) = None"
  by (simp_all add: demo_waiter_def wait_expired_def demo_request_def)

lemma demo_no_deadline: "list_all no_deadline (demo_events p None q)"
  by (simp add: demo_events_def demo_request_def)

lemma demo_service_order:
  "service_order [demo_waiter (Suc 0) Class_advisory None, demo_waiter 2 Class_recovery None] =
    [demo_waiter 2 Class_recovery None, demo_waiter (Suc 0) Class_advisory None]"
  by (simp add: service_order_def service_key_def demo_waiter_def less_eq_prod_def less_eq_gov_priority_def
      less_gov_priority_def)

theorem freed_slots_in_order_witness:
  "gv_log (the_gov (gov_step (Ev_settled 9 0)
      (gov_history (Some (Fin (of_int 1))) (demo_events Class_advisory None Class_recovery)))) =
    [Runs_task 0, Runs_task 2]"
  using freed_slots_in_order [of 1 "gov_history (Some (Fin (of_int 1))) (demo_events Class_advisory None Class_recovery)"
      "demo_events Class_advisory None Class_recovery" 0 9, OF _ refl _ _ refl refl]
  by (simp add: demo_history demo_service_order)

theorem waiting_calls_served_witness:
  "mset (map effect_call (gv_log (the_gov (gov_drive 9 2
      (gov_history (Some (Fin (of_int 1))) (demo_events Class_advisory None Class_recovery)))))) = {#0, 1, 2#}"
  using waiting_calls_served [of 1 "demo_events Class_advisory None Class_recovery"
      "gov_history (Some (Fin (of_int 1))) (demo_events Class_advisory None Class_recovery)" 2 9]
  by (simp add: demo_history demo_no_deadline)

theorem expired_waiter_hides_next_witness:
  "gv_held (the_gov (gov_step (Ev_admit 10 (demo_request Class_advisory None) 3) (gov_step (Ev_settled 9 0)
      (gov_history (Some (Fin (of_int 1))) (demo_events Class_advisory (Some 5) Class_authoritative))))) = [3]"
  using expired_waiter_hides_next [of 1
      "gov_history (Some (Fin (of_int 1))) (demo_events Class_advisory (Some 5) Class_authoritative)"
      "demo_events Class_advisory (Some 5) Class_authoritative" 0 "demo_waiter 1 Class_advisory (Some 5)"
      "demo_waiter 2 Class_authoritative None" 9 _ 3 "demo_request Class_advisory None" 10, OF _ refl _ _ _ refl]
  by (simp add: demo_history)

theorem telemetry_exact_witness:
  "gs_dispatched (summarizeGovernorTelemetry
      (gv_records (the_gov (gov_history (Some (Fin (of_int 1))) (demo_events Class_advisory None Class_recovery))))) = 1"
  using telemetry_exact [of 1 "gov_history (Some (Fin (of_int 1))) (demo_events Class_advisory None Class_recovery)"
      "demo_events Class_advisory None Class_recovery", OF _ refl refl refl]
  by (simp add: demo_history started_calls_def)

end
