(* ===== verification/Followup_Text.thy ===== *)
theory Followup_Text
  imports Js_Prelude Truncate
begin

text \<open>
  Comment text of the follow-up lane: the reviewer's marker (\<open>MANAGED_MARKER_RE\<close> of
  \<^verbatim>\<open>src/context/pr-thread.ts\<close>), the re-review command of \<^verbatim>\<open>src/precheck/decide.ts\<close>, the owner identity
  of \<^verbatim>\<open>src/platform/owner-identity.ts\<close>, the intent classifier of \<^verbatim>\<open>src/followup/classify.ts\<close>, and how an
  answer becomes a reply (\<^verbatim>\<open>src/followup/reply.ts\<close>, \<open>truncateToBytes\<close> of \<^verbatim>\<open>src/followup/controller.ts\<close>).

  A comment body is a list of Unicode code points (a lone surrogate is one too); logins, handles and
  commands are strings. The lower-case mapping of the code points above Latin-1 is data of the
  JavaScript runtime and the parameter \<open>ul\<close>.
\<close>

section \<open>Characters\<close>

abbreviation code_points_of :: "string \<Rightarrow> code_points" where
  "code_points_of s \<equiv> map of_char s"

text \<open>White space of \<open>trim\<close> and of \<open>\s\<close>.\<close>

definition text_space :: "nat \<Rightarrow> bool" where
  "text_space n \<longleftrightarrow> n \<in> {9, 10, 11, 12, 13, 32, 160, 0x1680, 0x2028, 0x2029, 0x202F, 0x205F, 0x3000, 0xFEFF} \<or>
     0x2000 \<le> n \<and> n \<le> 0x200A"

definition text_trim_start :: "code_points \<Rightarrow> code_points" where
  "text_trim_start t = dropWhile text_space t"

definition text_trim_end :: "code_points \<Rightarrow> code_points" where
  "text_trim_end t = rev (dropWhile text_space (rev t))"

definition text_trim :: "code_points \<Rightarrow> code_points" where
  "text_trim t = text_trim_end (text_trim_start t)"

definition text_lower :: "(nat \<Rightarrow> code_points) \<Rightarrow> code_points \<Rightarrow> code_points" where
  "text_lower ul t = concat (map (\<lambda>n. if n < 256 then [of_char (lower_char (char_of n))] else ul n) t)"

section \<open>The reviewer's own publications\<close>

text \<open>\<^verbatim>\<open>/<!--(?:\s|\u200b)*ai-pr-review/\<close>; the class does not contain the letter that follows it.\<close>

definition marker_at :: "code_points \<Rightarrow> bool" where
  "marker_at t \<longleftrightarrow> prefix (code_points_of ''<!--'') t \<and>
     prefix (code_points_of ''ai-pr-review'') (dropWhile (\<lambda>n. text_space n \<or> n = 0x200B) (drop 4 t))"

definition managed_marker :: "code_points \<Rightarrow> bool" where
  "managed_marker t \<longleftrightarrow> list_ex (\<lambda>i. marker_at (drop i t)) [0..<length t]"

definition FOLLOWUP_REPLY_MARKER :: string where
  "FOLLOWUP_REPLY_MARKER = ''<!-- ai-pr-reviewer-followup -->''"

definition ownerMatchesLogin :: "string \<Rightarrow> string \<Rightarrow> bool" where
  "ownerMatchesLogin login trusted \<longleftrightarrow>
     js_trim login \<noteq> '''' \<and> js_trim trusted \<noteq> '''' \<and>
     js_lower (js_trim login) = js_lower (js_trim trusted)"

definition authorMatchesTrustedIdentity :: "string \<Rightarrow> string option \<Rightarrow> bool" where
  "authorMatchesTrustedIdentity author trusted =
     (case trusted of None \<Rightarrow> False | Some login \<Rightarrow> ownerMatchesLogin author login)"

section \<open>Intent\<close>

definition commentBodyTriggersCommentCommand :: "code_points \<Rightarrow> string \<Rightarrow> bool" where
  "commentBodyTriggersCommentCommand body command \<longleftrightarrow>
     command \<noteq> '''' \<and>
     (let trimmed = text_trim_start body
      in prefix (code_points_of command) trimmed \<and>
         text_trim_end (drop (length command) trimmed) = [])"

definition mention_char :: "nat \<Rightarrow> bool" where
  "mention_char n \<longleftrightarrow> 97 \<le> n \<and> n \<le> 122 \<or> 48 \<le> n \<and> n \<le> 57 \<or> n \<in> {95, 45, 91, 40, 41, 93}"

definition normalizeHandle :: "string \<Rightarrow> string" where
  "normalizeHandle handle = js_trim (dropWhile (\<lambda>c. c = CHR ''@'') (js_trim handle))"

text \<open>The body of the search loop at one position of the lower-cased text.\<close>

definition mention_at :: "code_points \<Rightarrow> code_points \<Rightarrow> nat \<Rightarrow> bool" where
  "mention_at lower handle i \<longleftrightarrow>
     lower ! i = 64 \<and> (i = 0 \<or> text_space (lower ! (i - 1))) \<and>
     (let rest = drop (i + 1) lower;
          after = dropWhile mention_char rest
      in takeWhile mention_char rest = handle \<and> (after = [] \<or> hd after \<notin> {46, 47}))"

definition mentionsHandle :: "(nat \<Rightarrow> code_points) \<Rightarrow> code_points \<Rightarrow> string list \<Rightarrow> bool" where
  "mentionsHandle ul body handles =
     (let lower = text_lower ul body
      in list_ex (\<lambda>raw. let handle = normalizeHandle raw in
           handle \<noteq> '''' \<and> list_ex (mention_at lower (code_points_of handle)) [0..<length lower]) handles)"

datatype ignore_reason =
    Skip_not_follow_up | Skip_bot_author | Skip_managed_body | Skip_source_unavailable | Skip_not_addressed | Skip_bot_identity_unknown
  | Skip_unauthorized | Skip_permission_unknown | Skip_rate_limited | Skip_pr_closed | Skip_pr_draft | Skip_pr_state_unknown
  | Skip_pr_draft_unknown

datatype intent = Ignored ignore_reason | Rereview | Question code_points

record classify_input =
  ci_body :: code_points
  ci_authorLogin :: string
  ci_botLogin :: "string option"
  ci_rereviewCommand :: string
  ci_mentionHandles :: "string list"

definition classifyFollowUpComment :: "(nat \<Rightarrow> code_points) \<Rightarrow> classify_input \<Rightarrow> intent" where
  "classifyFollowUpComment ul input =
     (let body = ci_body input;
          trimmed = text_trim body;
          handles = filter (\<lambda>h. h \<noteq> '''') (map normalizeHandle (ci_mentionHandles input))
      in if authorMatchesTrustedIdentity (ci_authorLogin input) (ci_botLogin input) then Ignored Skip_bot_author
         else if managed_marker body then Ignored Skip_managed_body
         else if trimmed = [] then Ignored Skip_not_addressed
         else if commentBodyTriggersCommentCommand body (ci_rereviewCommand input) then Rereview
         else if handles = [] then Ignored Skip_bot_identity_unknown
         else if \<not> mentionsHandle ul body handles then Ignored Skip_not_addressed
         else Question trimmed)"

section \<open>Replies\<close>

definition FOLLOWUP_ANSWER_MAX_BYTES :: nat where
  "FOLLOWUP_ANSWER_MAX_BYTES = 32000"

definition TRUNCATION_SUFFIX :: code_points where
  "TRUNCATION_SUFFIX = NL # code_points_of ''['' @ [0x2026] @ code_points_of ''truncated]''"

text \<open>\<open>Buffer.from(text, "utf8")\<close>: a lone surrogate is encoded as U+FFFD.\<close>

definition to_bytes :: "code_points \<Rightarrow> bytes" where
  "to_bytes t = encode (map (\<lambda>n. if scalar n then n else 0xFFFD) t)"

text \<open>\<open>slice(0, -1)\<close> drops a code unit: of a character beyond the BMP it leaves the high surrogate.\<close>

definition drop_unit :: "code_points \<Rightarrow> code_points" where
  "drop_unit t = (if t = [] then [] else if last t < 0x10000 then butlast t
     else butlast t @ [0xD800 + (last t - 0x10000) div 0x400])"

lemma drop_unit_smaller: "t \<noteq> [] \<Longrightarrow> sum_list (drop_unit t) + length (drop_unit t) < sum_list t + length t"
proof (induction t rule: rev_induct)
  case (snoc n t)
  have "0xD800 + (n - 0x10000) div 0x400 < n" if "\<not> n < 0x10000"
    using that div_le_dividend [of "n - 0x10000" "0x400"] by linarith
  then show ?case by (auto simp: drop_unit_def)
qed simp

function shrink_to_bytes :: "nat \<Rightarrow> code_points \<Rightarrow> code_points" where
  "shrink_to_bytes maxBytes safe =
     (if safe \<noteq> [] \<and> maxBytes < length (to_bytes (safe @ TRUNCATION_SUFFIX))
      then shrink_to_bytes maxBytes (drop_unit safe) else safe)"
  by pat_completeness auto

termination
  by (relation "measure (\<lambda>(_, t). sum_list t + length t)") (simp_all add: drop_unit_smaller)

declare shrink_to_bytes.simps [simp del]

definition truncateToBytes :: "code_points \<Rightarrow> nat \<Rightarrow> code_points" where
  "truncateToBytes text maxBytes =
     (let suffixBytes = length (to_bytes TRUNCATION_SUFFIX) in
      if length (to_bytes text) \<le> maxBytes then text
      else if maxBytes \<le> suffixBytes then []
      else
        let clipped = text_scan (take (maxBytes - suffixBytes) (to_bytes text));
            line = (case last_index NL clipped of Some i \<Rightarrow> take i clipped | None \<Rightarrow> clipped)
        in shrink_to_bytes maxBytes (text_trim_end line) @ TRUNCATION_SUFFIX)"

definition renderFollowUpReply :: "code_points \<Rightarrow> code_points option" where
  "renderFollowUpReply answer =
     (let trimmed = text_trim answer
      in if trimmed = [] then None
         else Some (code_points_of FOLLOWUP_REPLY_MARKER @ [NL, NL] @ trimmed))"

section \<open>Lemmas\<close>

lemma shrink_fits:
  "length (to_bytes TRUNCATION_SUFFIX) \<le> maxBytes \<Longrightarrow>
    length (to_bytes (shrink_to_bytes maxBytes t @ TRUNCATION_SUFFIX)) \<le> maxBytes"
proof (induction maxBytes t rule: shrink_to_bytes.induct)
  case (1 m t)
  then show ?case by (subst shrink_to_bytes.simps) auto
qed

lemma truncateToBytes_length: "length (to_bytes (truncateToBytes t m)) \<le> m"
  using shrink_fits [of m] by (auto simp: truncateToBytes_def Let_def to_bytes_def encode_def)

lemma length_to_bytes_append [simp]: "length (to_bytes (s @ t)) = length (to_bytes s) + length (to_bytes t)"
  by (simp add: to_bytes_def encode_def)

lemma text_trim_mset: "\<exists>a b. t = a @ text_trim t @ b"
proof -
  obtain a where a: "t = a @ text_trim_start t" by (metis takeWhile_dropWhile_id text_trim_start_def)
  have "rev u = takeWhile text_space (rev u) @ dropWhile text_space (rev u)" for u by simp
  then have "u = rev (dropWhile text_space (rev u)) @ rev (takeWhile text_space (rev u))" for u
    by (metis rev_append rev_rev_ident)
  then show ?thesis using a by (metis text_trim_def text_trim_end_def)
qed

lemma text_trim_bytes: "length (to_bytes (text_trim t)) \<le> length (to_bytes t)"
  using text_trim_mset [of t] by (metis length_to_bytes_append le_add1 le_add2 le_trans)

lemma reply_managed: "renderFollowUpReply answer = Some body \<Longrightarrow> managed_marker body"
  by (auto simp: renderFollowUpReply_def Let_def managed_marker_def marker_at_def FOLLOWUP_REPLY_MARKER_def
      text_space_def list_ex_iff split: if_splits intro!: bexI [of _ 0])

text \<open>A body with the reviewer's marker is never taken for work, whoever its author is.\<close>

lemma managed_ignored:
  "managed_marker (ci_body input) \<Longrightarrow> \<exists>r. classifyFollowUpComment ul input = Ignored r"
  by (simp add: classifyFollowUpComment_def Let_def)

text \<open>A letter in upper case is neither space nor \<open>@\<close>, so a handle keeps it.\<close>

definition upper_letter :: "char \<Rightarrow> bool" where
  "upper_letter c \<longleftrightarrow> 65 \<le> code_unit c \<and> code_unit c \<le> 90"

lemma dropWhile_keeps: "c \<in> set s \<Longrightarrow> \<not> P c \<Longrightarrow> c \<in> set (dropWhile P s)"
  by (induction s) auto

lemma normalizeHandle_keeps: "c \<in> set h \<Longrightarrow> upper_letter c \<Longrightarrow> c \<in> set (normalizeHandle h)"
proof -
  assume c: "c \<in> set h" "upper_letter c"
  then have "\<not> js_space c" "c \<noteq> CHR ''@''" by (auto simp: upper_letter_def js_space_def)
  then show ?thesis using c(1) by (simp add: normalizeHandle_def js_trim_def dropWhile_keeps)
qed

lemma upper_not_mention: "upper_letter c \<Longrightarrow> \<not> mention_char (of_char c)"
  by (auto simp: upper_letter_def mention_char_def)

lemma mention_at_chars: "mention_at lower handle i \<Longrightarrow> list_all mention_char handle"
  by (auto simp: mention_at_def Let_def list_all_iff dest: set_takeWhileD)

lemma upper_handle_unmentioned:
  assumes "list_all (list_ex upper_letter) handles"
  shows "\<not> mentionsHandle ul body handles"
proof
  assume "mentionsHandle ul body handles"
  then obtain h i lower where h: "h \<in> set handles" "mention_at lower (code_points_of (normalizeHandle h)) i"
    by (auto simp: mentionsHandle_def Let_def list_ex_iff)
  obtain c where "c \<in> set h" "upper_letter c" using assms h(1) by (auto simp: list_all_iff list_ex_iff)
  then show False
    using mention_at_chars [OF h(2)] normalizeHandle_keeps [of c h] upper_not_mention [of c]
    by (auto simp: list_all_iff)
qed

text \<open>What a question proves of the comment.\<close>

lemma classify_question:
  assumes "classifyFollowUpComment ul input = Question q"
  shows "\<not> authorMatchesTrustedIdentity (ci_authorLogin input) (ci_botLogin input)"
    and "\<not> managed_marker (ci_body input)" and "q = text_trim (ci_body input)" and "q \<noteq> []"
    and "mentionsHandle ul (ci_body input) (map normalizeHandle (ci_mentionHandles input))"
    and "\<not> commentBodyTriggersCommentCommand (ci_body input) (ci_rereviewCommand input)"
  using assms by (auto simp: classifyFollowUpComment_def Let_def mentionsHandle_def list_ex_iff split: if_splits)

end
