(* ===== verification/Comment_Authority.thy ===== *)
theory Comment_Authority
  imports Js_Prelude
begin

text \<open>
  Who may drive the reviewer by a comment (\<^verbatim>\<open>src/precheck/comment-authority.ts\<close>) and what the forge
  proves of a pull request's state (\<open>derivePrState\<close>, \<open>deriveDraftState\<close>, \<open>derivePrStateReading\<close> of
  \<^verbatim>\<open>src/platform/pr.ts\<close>): the untrusted payload is parsed and the reading classified, and what proves
  nothing is unknown.
\<close>

section \<open>Collaborator permission\<close>

definition AUTHORIZED_PERMISSIONS :: "string list" where
  "AUTHORIZED_PERMISSIONS = [''admin'', ''maintain'', ''write'', ''triage'', ''owner'']"

definition AUTHORIZED_ROLE_NAMES :: "string list" where
  "AUTHORIZED_ROLE_NAMES = [''triage'', ''triage_plus'']"

datatype authority_subject = Subject_absent | Subject_named "string option" | Subject_unusable

record authority_reading =
  au_permission :: string
  au_roleName :: string
  au_subject :: authority_subject

datatype authority_decision = Authorized | Not_authorized | Authority_unknown

definition payload_subject :: "jsval \<Rightarrow> authority_subject" where
  "payload_subject user =
     (case user of
        JNull \<Rightarrow> Subject_absent
      | JUndef \<Rightarrow> Subject_absent
      | JObj ps \<Rightarrow>
          (case get_prop ps ''login'' of
             JStr login \<Rightarrow> if login = '''' then Subject_unusable else Subject_named (Some (js_lower login))
           | _ \<Rightarrow> Subject_unusable)
      | _ \<Rightarrow> Subject_unusable)"

definition authorityReadingFromPayload :: "jsval \<Rightarrow> authority_reading option" where
  "authorityReadingFromPayload data =
     (case data of
        JObj ps \<Rightarrow>
          (case get_prop ps ''permission'' of
             JStr permission \<Rightarrow>
               Some \<lparr>au_permission = js_lower permission,
                     au_roleName = (case get_prop ps ''role_name'' of JStr r \<Rightarrow> js_lower r | _ \<Rightarrow> ''''),
                     au_subject = payload_subject (get_prop ps ''user'')\<rparr>
           | _ \<Rightarrow> None)
      | _ \<Rightarrow> None)"

text \<open>The subject must be consistent with the actor before the permission is looked at.\<close>

definition subject_consistent :: "authority_subject \<Rightarrow> string \<Rightarrow> bool" where
  "subject_consistent subject actor =
     (case subject of
        Subject_unusable \<Rightarrow> False
      | Subject_absent \<Rightarrow> True
      | Subject_named None \<Rightarrow> False
      | Subject_named (Some login) \<Rightarrow> login \<noteq> '''' \<and> login = js_lower actor)"

definition classifyCommentAuthority :: "authority_reading option \<Rightarrow> string \<Rightarrow> authority_decision" where
  "classifyCommentAuthority reading actorLogin =
     (case reading of
        None \<Rightarrow> Authority_unknown
      | Some r \<Rightarrow>
          if \<not> subject_consistent (au_subject r) actorLogin then Authority_unknown
          else if au_permission r \<in> set AUTHORIZED_PERMISSIONS then Authorized
          else if au_permission r = ''read'' \<and> au_roleName r \<in> set AUTHORIZED_ROLE_NAMES then Authorized
          else if au_permission r = ''read'' \<or> au_permission r = ''none'' then Not_authorized
          else Authority_unknown)"

definition decideAuthorityFromPayload :: "jsval \<Rightarrow> string \<Rightarrow> authority_decision" where
  "decideAuthorityFromPayload data actorLogin =
     classifyCommentAuthority (authorityReadingFromPayload data) actorLogin"

section \<open>The state of a pull request\<close>

datatype open_state = Open_pr | Closed_pr | State_unknown

datatype draft_state = Draft_pr | Not_draft | Draft_unknown

text \<open>\<open>asObject(raw)\<close>: a plain object's properties, nothing of anything else.\<close>

definition object_prop :: "jsval \<Rightarrow> string \<Rightarrow> jsval" where
  "object_prop raw k = (case raw of JObj ps \<Rightarrow> get_prop ps k | _ \<Rightarrow> JUndef)"

definition derivePrState :: "jsval \<Rightarrow> open_state" where
  "derivePrState raw =
     (case object_prop raw ''state'' of
        JStr s \<Rightarrow>
          if js_lower s = ''closed'' then Closed_pr
          else if js_lower s = ''open'' then Open_pr else State_unknown
      | _ \<Rightarrow> State_unknown)"

definition deriveDraftState :: "jsval \<Rightarrow> draft_state" where
  "deriveDraftState raw =
     (case object_prop raw ''draft'' of
        JBool b \<Rightarrow> if b then Draft_pr else Not_draft
      | _ \<Rightarrow> Draft_unknown)"

definition derivePrStateReading :: "jsval \<Rightarrow> open_state \<times> draft_state" where
  "derivePrStateReading raw =
     (case raw of
        JObj ps \<Rightarrow>
          (let normalized = (case get_prop ps ''state'' of JStr s \<Rightarrow> js_lower s | _ \<Rightarrow> '''')
           in (if normalized = ''open'' then Open_pr
               else if normalized = ''closed'' then Closed_pr else State_unknown,
               deriveDraftState raw))
      | _ \<Rightarrow> (State_unknown, Draft_unknown))"

section \<open>What is proven\<close>

text \<open>
  The scale the two forges answer on, with the names they use: what a permission payload says its
  subject may do. A GitHub triage user arrives as \<open>read\<close> with the role in \<open>role_name\<close>. A value that
  is no level of the scale says nothing.
\<close>

datatype access_level = No_access | Read_access | Triage_access | Write_access | Maintain_access
  | Admin_access | Owner_access

definition access_rank :: "access_level \<Rightarrow> nat" where
  "access_rank level = (case level of No_access \<Rightarrow> 0 | Read_access \<Rightarrow> 1 | Triage_access \<Rightarrow> 2
     | Write_access \<Rightarrow> 3 | Maintain_access \<Rightarrow> 4 | Admin_access \<Rightarrow> 5 | Owner_access \<Rightarrow> 6)"

definition triage_role :: "jsval \<Rightarrow> bool" where
  "triage_role v \<longleftrightarrow> (\<exists>r. v = JStr r \<and> (js_lower r = ''triage'' \<or> js_lower r = ''triage_plus''))"

definition reported_level :: "(string \<times> jsval) list \<Rightarrow> access_level option" where
  "reported_level ps =
     (case get_prop ps ''permission'' of
        JStr p \<Rightarrow>
          (let level = js_lower p in
           if level = ''owner'' then Some Owner_access
           else if level = ''admin'' then Some Admin_access
           else if level = ''maintain'' then Some Maintain_access
           else if level = ''write'' then Some Write_access
           else if level = ''triage'' then Some Triage_access
           else if level = ''read'' then
             Some (if triage_role (get_prop ps ''role_name'') then Triage_access else Read_access)
           else if level = ''none'' then Some No_access
           else None)
      | _ \<Rightarrow> None)"

text \<open>The payload names no subject, or the actor, in any letter case.\<close>

definition about_actor :: "(string \<times> jsval) list \<Rightarrow> string \<Rightarrow> bool" where
  "about_actor ps actor \<longleftrightarrow>
     get_prop ps ''user'' = JNull \<or> get_prop ps ''user'' = JUndef \<or>
     (\<exists>us login. get_prop ps ''user'' = JObj us \<and> get_prop us ''login'' = JStr login \<and>
        login \<noteq> '''' \<and> js_lower login = js_lower actor)"

text \<open>The level a payload proves of an actor: none unless it is an object about that actor.\<close>

definition proven_level :: "jsval \<Rightarrow> string \<Rightarrow> access_level option" where
  "proven_level data actor =
     (case data of
        JObj ps \<Rightarrow> if about_actor ps actor then reported_level ps else None
      | _ \<Rightarrow> None)"

lemma lower_Nil [simp]: "js_lower s = '''' \<longleftrightarrow> s = ''''" "js_lower '''' = ''''"
  by (auto simp: js_lower_def)

lemma consistent_payload:
  "subject_consistent (payload_subject u) actor \<longleftrightarrow>
     u = JNull \<or> u = JUndef \<or>
      (\<exists>us login. u = JObj us \<and> get_prop us ''login'' = JStr login \<and>
         login \<noteq> '''' \<and> js_lower login = js_lower actor)"
  by (auto simp: payload_subject_def subject_consistent_def split: jsval.splits)

lemma payload_role:
  "(case v of JStr r \<Rightarrow> js_lower r | _ \<Rightarrow> '''') \<in> set AUTHORIZED_ROLE_NAMES \<longleftrightarrow> triage_role v"
  by (cases v) (auto simp: AUTHORIZED_ROLE_NAMES_def triage_role_def)

lemma classify_consistent:
  "subject_consistent (au_subject r) actor \<Longrightarrow> classifyCommentAuthority (Some r) actor =
     (if au_permission r \<in> {''owner'', ''admin'', ''maintain'', ''write'', ''triage''} \<or>
         au_permission r = ''read'' \<and> au_roleName r \<in> set AUTHORIZED_ROLE_NAMES then Authorized
      else if au_permission r \<in> {''read'', ''none''} then Not_authorized else Authority_unknown)"
  by (auto simp: classifyCommentAuthority_def AUTHORIZED_PERMISSIONS_def)

lemma decide_object:
  "decideAuthorityFromPayload (JObj ps) actor =
     (case get_prop ps ''permission'' of
        JStr p \<Rightarrow>
          if \<not> about_actor ps actor then Authority_unknown
          else if js_lower p \<in> {''owner'', ''admin'', ''maintain'', ''write'', ''triage''} \<or>
            js_lower p = ''read'' \<and> triage_role (get_prop ps ''role_name'') then Authorized
          else if js_lower p \<in> {''read'', ''none''} then Not_authorized else Authority_unknown
      | _ \<Rightarrow> Authority_unknown)"
proof (cases "get_prop ps ''permission''")
  case (JStr p)
  let ?r = "\<lparr>au_permission = js_lower p,
      au_roleName = (case get_prop ps ''role_name'' of JStr r \<Rightarrow> js_lower r | _ \<Rightarrow> ''''),
      au_subject = payload_subject (get_prop ps ''user'')\<rparr>"
  have d: "decideAuthorityFromPayload (JObj ps) actor = classifyCommentAuthority (Some ?r) actor"
    by (simp add: decideAuthorityFromPayload_def authorityReadingFromPayload_def JStr)
  have about: "subject_consistent (au_subject ?r) actor \<longleftrightarrow> about_actor ps actor"
    by (simp add: consistent_payload about_actor_def)
  show ?thesis
  proof (cases "about_actor ps actor")
    case True
    then show ?thesis
      unfolding d using classify_consistent [of ?r actor] about by (simp add: JStr payload_role)
  next
    case False
    then show ?thesis
      unfolding d using about by (simp add: JStr classifyCommentAuthority_def)
  qed
qed (simp_all add: decideAuthorityFromPayload_def authorityReadingFromPayload_def classifyCommentAuthority_def)

text \<open>C14: Authority is exactly what the forge proves. Whatever value the permission lookup returns, the
  decision is \<open>authorized\<close> if and only if it is an object, its subject is absent or is the actor in
  any letter case, and the level it reports is triage or higher (\<open>triage\<close>, \<open>write\<close>, \<open>maintain\<close>,
  \<open>admin\<close>, \<open>owner\<close>, or \<open>read\<close> with a triage role name); \<open>unauthorized\<close> if and only if the level so
  proven is lower (\<open>read\<close>, \<open>none\<close>); and \<open>unknown\<close> when it proves no level of the actor.\<close>

theorem authority_exact:
  "decideAuthorityFromPayload data actor =
     (case proven_level data actor of
        None \<Rightarrow> Authority_unknown
      | Some level \<Rightarrow>
          if access_rank level \<ge> access_rank Triage_access then Authorized else Not_authorized)"
proof (cases data)
  case (JObj ps)
  show ?thesis
  proof (cases "get_prop ps ''permission''")
    case (JStr p)
    then show ?thesis
      unfolding JObj decide_object
      by (simp add: proven_level_def reported_level_def access_rank_def Let_def)
  qed (simp_all add: JObj decide_object proven_level_def reported_level_def)
qed (simp_all add: decideAuthorityFromPayload_def authorityReadingFromPayload_def classifyCommentAuthority_def
    proven_level_def)

theorem authority_exact_witness:
  "let answer = (\<lambda>p r login. JObj [(''permission'', JStr p), (''role_name'', JStr r),
         (''user'', JObj [(''login'', JStr login)])])
   in decideAuthorityFromPayload (answer ''read'' ''Triage'' ''Ada'') ''ada'' = Authorized \<and>
      decideAuthorityFromPayload (answer ''READ'' ''custom'' ''ada'') ''ada'' = Not_authorized \<and>
      decideAuthorityFromPayload (answer ''none'' ''triage'' ''ada'') ''ada'' = Not_authorized \<and>
      decideAuthorityFromPayload (answer ''admin'' ''admin'' ''bob'') ''ada'' = Authority_unknown \<and>
      decideAuthorityFromPayload (answer ''guest'' ''triage'' ''ada'') ''ada'' = Authority_unknown"
  unfolding Let_def authority_exact proven_level_def
  by (simp add: about_actor_def reported_level_def triage_role_def access_rank_def get_prop_def
      js_lower_def lower_char_def Let_def)

lemma state_reading_open:
  "derivePrStateReading raw = (Open_pr, Not_draft) \<longleftrightarrow>
     (\<exists>ps s. raw = JObj ps \<and> get_prop ps ''state'' = JStr s \<and> js_lower s = ''open'' \<and>
       get_prop ps ''draft'' = JBool False)"
  by (cases raw)
    (auto simp: derivePrStateReading_def deriveDraftState_def object_prop_def Let_def split: jsval.splits if_splits)

end
