(* ===== verification/Followup.thy ===== *)
theory Followup
  imports Followup_Text Comment_Authority Jobs Rate_Limit
begin

text \<open>
  The follow-up lane: the planner \<open>planFollowUp\<close> of \<^verbatim>\<open>src/followup/plan.ts\<close>, which decides what a comment
  on a pull request may cost, and its one consumer \<open>runFollowUpEvent\<close> of \<^verbatim>\<open>src/followup/controller.ts\<close>.

  The forge reads are the answers of the record \<open>plan_deps\<close> (\<open>None\<close>: the read threw or proved
  nothing), the rate-limit store is the one of \<open>Rate_Limit\<close>, and the effects of the host are the
  record \<open>fu_effects\<close> (\<open>None\<close>: the effect threw). The calls of the host that a delivery makes are
  listed in order. The prompt is represented by the context it is built from (\<open>FollowUpPromptContext\<close>
  of \<^verbatim>\<open>src/followup/prompt.ts\<close>).
\<close>

section \<open>Events, plans and configuration\<close>

record fu_event =
  fe_kind :: event_kind
  fe_platform :: forge_platform
  fe_repoFullName :: string
  fe_prNumber :: int
  fe_headSha :: string
  fe_actor :: string
  fe_eventReference :: string

record prompt_context =
  pc_repository :: string
  pc_prNumber :: string
  pc_headSha :: string
  pc_question :: code_points
  pc_threadComments :: "jsval list"
  pc_managedReviewBody :: "code_points option"
  pc_supersededBefore :: "string option"

datatype fu_plan = Plan_ignore ignore_reason | Plan_rereview | Plan_answer prompt_context string

record limit_rule =
  lr_limit :: jsnum
  lr_windowMs :: jsnum

record plan_config =
  pf_rereviewCommand :: string
  pf_mentionHandles :: "string list"
  pf_perPr :: limit_rule
  pf_perActor :: limit_rule

definition DEFAULT_FOLLOW_UP_RATE_LIMITS :: "limit_rule \<times> limit_rule" where
  "DEFAULT_FOLLOW_UP_RATE_LIMITS =
     (\<lparr>lr_limit = Fin 6, lr_windowMs = Fin (15 * 60000)\<rparr>, \<lparr>lr_limit = Fin 4, lr_windowMs = Fin (15 * 60000)\<rparr>)"

text \<open>Optional reads are \<open>None\<close> where the host omits them.\<close>

record 's plan_deps =
  pd_clock :: jsnum
  pd_botLogin :: "string option"
  pd_readPermission :: "string \<Rightarrow> authority_reading option"
  pd_store :: "'s rate_store"
  pd_fetchThreadComments :: "jsval list option"
  pd_readComment :: "(string \<Rightarrow> code_points option) option"
  pd_latestManagedReview :: "code_points option option"
  pd_prLastEditedAt :: "string option option option"
  pd_readPrState :: "(open_state \<times> draft_state) option"

section \<open>The planner\<close>

definition resolve_body :: "fu_event \<Rightarrow> code_points option \<Rightarrow> 's plan_deps \<Rightarrow> code_points" where
  "resolve_body event request_body deps =
     (case request_body of
        Some body \<Rightarrow> body
      | None \<Rightarrow>
          (case pd_readComment deps of
             None \<Rightarrow> []
           | Some read \<Rightarrow>
               if fe_eventReference event = '''' then []
               else (case read (fe_eventReference event) of None \<Rightarrow> [] | Some body \<Rightarrow> body)))"

text \<open>Steps 5: what the PR-state gate refuses.\<close>

definition pr_state_gate :: "(open_state \<times> draft_state) option \<Rightarrow> ignore_reason option" where
  "pr_state_gate read =
     (let (st, dr) = (case read of None \<Rightarrow> (State_unknown, Draft_unknown) | Some r \<Rightarrow> r)
      in if st = State_unknown then Some Skip_pr_state_unknown
         else if st = Closed_pr then Some Skip_pr_closed
         else if dr = Draft_unknown then Some Skip_pr_draft_unknown
         else if dr = Draft_pr then Some Skip_pr_draft else None)"

text \<open>Steps 1 to 5: a plan that is final, or the question that goes on to the rate budget.\<close>

definition plan_gates ::
  "(nat \<Rightarrow> code_points) \<Rightarrow> fu_event \<Rightarrow> code_points option \<Rightarrow> 's plan_deps \<Rightarrow> plan_config \<Rightarrow> fu_plan + code_points" where
  "plan_gates ul event request_body deps cfg =
     (if fe_kind event \<noteq> Follow_up_event then Inl (Plan_ignore Skip_not_follow_up)
      else
        let body = resolve_body event request_body deps in
        if body = [] then Inl (Plan_ignore Skip_source_unavailable)
        else
          case classifyFollowUpComment ul
            \<lparr>ci_body = body, ci_authorLogin = fe_actor event, ci_botLogin = pd_botLogin deps,
             ci_rereviewCommand = pf_rereviewCommand cfg, ci_mentionHandles = pf_mentionHandles cfg\<rparr> of
            Ignored r \<Rightarrow> Inl (Plan_ignore r)
          | work \<Rightarrow>
              if fe_actor event = '''' then Inl (Plan_ignore Skip_permission_unknown)
              else
                (case classifyCommentAuthority (pd_readPermission deps (fe_actor event)) (fe_actor event) of
                   Not_authorized \<Rightarrow> Inl (Plan_ignore Skip_unauthorized)
                 | Authority_unknown \<Rightarrow> Inl (Plan_ignore Skip_permission_unknown)
                 | Authorized \<Rightarrow>
                     (case work of
                        Question q \<Rightarrow>
                          (case pr_state_gate (pd_readPrState deps) of
                             Some r \<Rightarrow> Inl (Plan_ignore r)
                           | None \<Rightarrow> Inr q)
                      | _ \<Rightarrow> Inl Plan_rereview)))"

definition pr_scope_key :: "fu_event \<Rightarrow> string" where
  "pr_scope_key event =
     ''pr:'' @ platform_str (fe_platform event) @ '':'' @ js_lower (fe_repoFullName event) @ ''#''
       @ string_of_int (fe_prNumber event)"

definition actor_scope_key :: "fu_event \<Rightarrow> string" where
  "actor_scope_key event =
     ''actor:'' @ platform_str (fe_platform event) @ '':'' @ js_lower (fe_repoFullName event) @ ''#''
       @ string_of_int (fe_prNumber event) @ '':'' @ js_lower (fe_actor event)"

definition fu_scopes :: "fu_event \<Rightarrow> plan_config \<Rightarrow> rate_scope list" where
  "fu_scopes event cfg =
     [\<lparr>sc_key = pr_scope_key event, sc_limit = lr_limit (pf_perPr cfg), sc_windowMs = lr_windowMs (pf_perPr cfg)\<rparr>,
      \<lparr>sc_key = actor_scope_key event, sc_limit = lr_limit (pf_perActor cfg),
       sc_windowMs = lr_windowMs (pf_perActor cfg)\<rparr>]"

definition request_identity :: "fu_event \<Rightarrow> string option" where
  "request_identity event =
     (if fe_eventReference event = '''' then None
      else Some (platform_str (fe_platform event) @ '':'' @ js_lower (fe_repoFullName event) @ ''#''
        @ string_of_int (fe_prNumber event) @ '':'' @ fe_eventReference event))"

definition answer_context :: "fu_event \<Rightarrow> code_points \<Rightarrow> 's plan_deps \<Rightarrow> prompt_context" where
  "answer_context event question deps =
     (let managed = (case pd_latestManagedReview deps of None \<Rightarrow> None | Some r \<Rightarrow> Some (case r of None \<Rightarrow> [] | Some b \<Rightarrow> b));
          editedAt = (case pd_prLastEditedAt deps of None \<Rightarrow> None | Some None \<Rightarrow> None | Some (Some at') \<Rightarrow> at')
      in \<lparr>pc_repository = fe_repoFullName event, pc_prNumber = string_of_int (fe_prNumber event),
          pc_headSha = fe_headSha event, pc_question = question,
          pc_threadComments = (case pd_fetchThreadComments deps of None \<Rightarrow> [] | Some cs \<Rightarrow> cs),
          pc_managedReviewBody = (if managed = Some [] then None else managed),
          pc_supersededBefore = (if editedAt = Some '''' then None else editedAt)\<rparr>)"

definition planFollowUp ::
  "(nat \<Rightarrow> code_points) \<Rightarrow> fu_event \<Rightarrow> code_points option \<Rightarrow> 's plan_deps \<Rightarrow> plan_config \<Rightarrow> ('s, fu_plan) rop" where
  "planFollowUp ul event request_body deps cfg =
     (case plan_gates ul event request_body deps cfg of
        Inl plan \<Rightarrow> ret plan
      | Inr question \<Rightarrow>
          bnd (consumeFollowUpBudget (pd_store deps) (fu_scopes event cfg) (pd_clock deps) (request_identity event))
            (\<lambda>allowed. ret (if allowed
               then Plan_answer (answer_context event question deps) (fe_eventReference event)
               else Plan_ignore Skip_rate_limited)))"

section \<open>The consumer\<close>

datatype rereview_disposition = Enqueued_rereview | Duplicate_rereview | Refused_rereview

record fu_effects =
  fx_answer :: "prompt_context \<Rightarrow> code_points option"
  fx_postComment :: "code_points \<Rightarrow> bool option"
  fx_rereview :: "fu_event \<Rightarrow> rereview_disposition option"

datatype fu_outcome =
    Out_ignored ignore_reason
  | Out_answered bool
  | Out_model_unavailable
  | Out_empty_answer
  | Out_rereview rereview_disposition

datatype fu_call = Asked prompt_context | Posted code_points | Handed_over fu_event

definition execute_plan :: "fu_effects \<Rightarrow> fu_event \<Rightarrow> fu_plan \<Rightarrow> fu_outcome \<times> fu_call list" where
  "execute_plan fx event plan =
     (case plan of
        Plan_ignore r \<Rightarrow> (Out_ignored r, [])
      | Plan_rereview \<Rightarrow>
          (Out_rereview (case fx_rereview fx event of None \<Rightarrow> Refused_rereview | Some d \<Rightarrow> d), [Handed_over event])
      | Plan_answer ctx ref \<Rightarrow>
          (case fx_answer fx ctx of
             None \<Rightarrow> (Out_model_unavailable, [Asked ctx])
           | Some answer \<Rightarrow>
               (case renderFollowUpReply (truncateToBytes answer FOLLOWUP_ANSWER_MAX_BYTES) of
                  None \<Rightarrow> (Out_empty_answer, [Asked ctx])
                | Some body \<Rightarrow>
                    (Out_answered (case fx_postComment fx body of None \<Rightarrow> False | Some posted \<Rightarrow> posted),
                     [Asked ctx, Posted body]))))"

definition runFollowUpEvent ::
  "(nat \<Rightarrow> code_points) \<Rightarrow> fu_event \<Rightarrow> code_points option \<Rightarrow> 's plan_deps \<Rightarrow> plan_config \<Rightarrow> fu_effects \<Rightarrow>
     ('s, fu_outcome \<times> fu_call list) rop" where
  "runFollowUpEvent ul event request_body deps cfg fx =
     bnd (planFollowUp ul event request_body deps cfg) (\<lambda>plan. ret (execute_plan fx event plan))"

end
