(* ===== verification/Followup_Properties.thy ===== *)
theory Followup_Properties
  imports Followup
begin

text \<open>
  What the follow-up lane guarantees: model work only behind every gate, no reply that becomes work
  again, the bound on model calls that follows from the rate-limit store, and who cannot be addressed.
\<close>

section \<open>Single deliveries\<close>

lemma gates_question:
  assumes "plan_gates ul event request_body deps cfg = Inr q"
  shows "fe_kind event = Follow_up_event"
    and "\<exists>input. classifyFollowUpComment ul input = Question q \<and> ci_body input = resolve_body event request_body deps \<and>
      ci_authorLogin input = fe_actor event \<and> ci_botLogin input = pd_botLogin deps \<and>
      ci_mentionHandles input = pf_mentionHandles cfg"
    and "fe_actor event \<noteq> ''''"
    and "classifyCommentAuthority (pd_readPermission deps (fe_actor event)) (fe_actor event) = Authorized"
    and "pd_readPrState deps = Some (Open_pr, Not_draft)"
proof -
  let ?input = "\<lparr>ci_body = resolve_body event request_body deps, ci_authorLogin = fe_actor event,
    ci_botLogin = pd_botLogin deps, ci_rereviewCommand = pf_rereviewCommand cfg,
    ci_mentionHandles = pf_mentionHandles cfg\<rparr>"
  have "fe_kind event = Follow_up_event \<and> classifyFollowUpComment ul ?input = Question q \<and> fe_actor event \<noteq> '''' \<and>
      classifyCommentAuthority (pd_readPermission deps (fe_actor event)) (fe_actor event) = Authorized \<and>
      pr_state_gate (pd_readPrState deps) = None"
    using assms by (auto simp: plan_gates_def Let_def split: if_splits intent.splits authority_decision.splits option.splits)
  moreover have "read = Some (Open_pr, Not_draft)" if "pr_state_gate read = None" for read
    using that
    by (cases read; cases "fst (the read)"; cases "snd (the read)")
      (auto simp: pr_state_gate_def split: prod.splits if_splits)
  ultimately show "fe_kind event = Follow_up_event" "fe_actor event \<noteq> ''''"
      "classifyCommentAuthority (pd_readPermission deps (fe_actor event)) (fe_actor event) = Authorized"
      "pd_readPrState deps = Some (Open_pr, Not_draft)"
      "\<exists>input. classifyFollowUpComment ul input = Question q \<and> ci_body input = resolve_body event request_body deps \<and>
        ci_authorLogin input = fe_actor event \<and> ci_botLogin input = pd_botLogin deps \<and>
        ci_mentionHandles input = pf_mentionHandles cfg"
    by (auto intro!: exI [of _ ?input])
qed

lemma run_asked:
  assumes "runFollowUpEvent ul event request_body deps cfg fx s = (Inr (out, calls), s')" and "Asked ctx \<in> set calls"
  obtains q where "plan_gates ul event request_body deps cfg = Inr q"
    and "consumeFollowUpBudget (pd_store deps) (fu_scopes event cfg) (pd_clock deps) (request_identity event) s = (Inr True, s')"
    and "ctx = answer_context event q deps"
    and "calls = [Asked ctx] \<or> (\<exists>answer body. fx_answer fx ctx = Some answer \<and>
      renderFollowUpReply (truncateToBytes answer FOLLOWUP_ANSWER_MAX_BYTES) = Some body \<and> calls = [Asked ctx, Posted body])"
proof (cases "plan_gates ul event request_body deps cfg")
  case (Inl plan)
  have "\<exists>r. plan = Plan_ignore r \<or> plan = Plan_rereview"
    using Inl by (auto simp: plan_gates_def Let_def split: if_splits intent.splits authority_decision.splits option.splits)
  then show ?thesis
    using assms Inl by (auto simp: runFollowUpEvent_def planFollowUp_def bnd_def execute_plan_def)
next
  case (Inr q)
  obtain r s1 where c: "consumeFollowUpBudget (pd_store deps) (fu_scopes event cfg) (pd_clock deps)
      (request_identity event) s = (r, s1)"
    by (cases "consumeFollowUpBudget (pd_store deps) (fu_scopes event cfg) (pd_clock deps) (request_identity event) s")
  show ?thesis
    using that [OF Inr] assms c Inr
    by (auto simp: runFollowUpEvent_def planFollowUp_def bnd_def execute_plan_def
        split: sum.splits if_splits option.splits)
qed

lemma asked_mentions:
  assumes "runFollowUpEvent ul event request_body deps cfg fx s = (Inr (out, calls), s')" and "Asked ctx \<in> set calls"
  shows "mentionsHandle ul (resolve_body event request_body deps) (map normalizeHandle (pf_mentionHandles cfg))"
proof -
  obtain q where "plan_gates ul event request_body deps cfg = Inr q"
    using run_asked [OF assms] by metis
  then obtain input where "classifyFollowUpComment ul input = Question q"
      "ci_body input = resolve_body event request_body deps" "ci_mentionHandles input = pf_mentionHandles cfg"
    using gates_question(2) by blast
  then show ?thesis using classify_question [of ul input q] by simp
qed

text \<open>C10: Model work only behind every gate. If a delivery makes the host ask the model, then the event is a
  follow-up, its author is not the reviewer and its body not the reviewer's, it addresses the
  reviewer, the forge proves the actor's authority and an open pull request that is no draft, and
  both scopes of the rate budget have admitted it; and the model is asked once, with at most one
  comment posted after it and nothing else done.\<close>

theorem model_work_gated:
  assumes "runFollowUpEvent ul event request_body deps cfg fx s = (Inr (out, calls), s')"
    and "Asked ctx \<in> set calls"
  shows "fe_kind event = Follow_up_event \<and>
    \<not> authorMatchesTrustedIdentity (fe_actor event) (pd_botLogin deps) \<and>
    \<not> managed_marker (resolve_body event request_body deps) \<and>
    mentionsHandle ul (resolve_body event request_body deps) (map normalizeHandle (pf_mentionHandles cfg)) \<and>
    pc_question ctx = text_trim (resolve_body event request_body deps) \<and>
    classifyCommentAuthority (pd_readPermission deps (fe_actor event)) (fe_actor event) = Authorized \<and>
    pd_readPrState deps = Some (Open_pr, Not_draft) \<and>
    consumeFollowUpBudget (pd_store deps) (fu_scopes event cfg) (pd_clock deps) (request_identity event) s = (Inr True, s') \<and>
    (calls = [Asked ctx] \<or> (\<exists>body. calls = [Asked ctx, Posted body]))"
proof -
  obtain q where q: "plan_gates ul event request_body deps cfg = Inr q"
      "consumeFollowUpBudget (pd_store deps) (fu_scopes event cfg) (pd_clock deps) (request_identity event) s = (Inr True, s')"
      "ctx = answer_context event q deps"
      "calls = [Asked ctx] \<or> (\<exists>body. calls = [Asked ctx, Posted body])"
    using run_asked [OF assms] by metis
  obtain input where i: "classifyFollowUpComment ul input = Question q" "ci_body input = resolve_body event request_body deps"
      "ci_authorLogin input = fe_actor event" "ci_botLogin input = pd_botLogin deps"
      "ci_mentionHandles input = pf_mentionHandles cfg"
    using gates_question(2) [OF q(1)] by blast
  have "pc_question ctx = q" by (simp add: q(3) answer_context_def Let_def)
  then show ?thesis
    using gates_question(1,4,5) [OF q(1)] classify_question [OF i(1)] q(2,4) by (simp add: i)
qed

text \<open>Everything else is free. A delivery that the lane does not answer with model work or a rate refusal
  - ignored for any other reason, or handed over as a re-review - leaves the rate budget as it was,
  never throws, asks no model and posts nothing; a re-review command is never swallowed by the budget.\<close>

theorem budget_only_for_questions:
  assumes "plan_gates ul event request_body deps cfg = Inl plan"
  shows "\<exists>out calls. runFollowUpEvent ul event request_body deps cfg fx s = (Inr (out, calls), s) \<and>
    (calls = [] \<and> (\<exists>r. plan = Plan_ignore r \<and> out = Out_ignored r \<and> r \<noteq> Skip_rate_limited) \<or>
     calls = [Handed_over event] \<and> plan = Plan_rereview \<and>
       classifyCommentAuthority (pd_readPermission deps (fe_actor event)) (fe_actor event) = Authorized)"
proof -
  have reason: "r \<noteq> Skip_rate_limited" if "classifyFollowUpComment ul input = Ignored r" for input r
    using that by (auto simp: classifyFollowUpComment_def Let_def split: if_splits)
  have state: "r \<noteq> Skip_rate_limited" if "pr_state_gate read = Some r" for read r
    using that by (auto simp: pr_state_gate_def split: prod.splits if_splits)
  have "(\<exists>r. plan = Plan_ignore r \<and> r \<noteq> Skip_rate_limited) \<or>
      plan = Plan_rereview \<and>
        classifyCommentAuthority (pd_readPermission deps (fe_actor event)) (fe_actor event) = Authorized"
    using assms
    by (auto simp: plan_gates_def Let_def split: if_splits intent.splits authority_decision.splits option.splits
        dest: reason state)
  then show ?thesis
    using assms by (auto simp: runFollowUpEvent_def planFollowUp_def bnd_def execute_plan_def)
qed

text \<open>C13: The reviewer never answers itself, and no reply is longer than its bound. Whatever the model
  returns, a comment that the lane posts carries the reviewer's marker and is classified as no work
  - whoever it is attributed to and whatever the configuration - and its body is at most 32000
  bytes beyond the marker line.\<close>

theorem replies_never_work:
  assumes "runFollowUpEvent ul event request_body deps cfg fx s = (Inr (out, calls), s')"
    and "Posted body \<in> set calls" and "ci_body input = body"
  shows "(\<exists>r. classifyFollowUpComment ul' input = Ignored r) \<and>
    length (to_bytes body) \<le> FOLLOWUP_ANSWER_MAX_BYTES + length (to_bytes (code_points_of FOLLOWUP_REPLY_MARKER @ [NL, NL]))"
proof -
  have "\<exists>ctx. Asked ctx \<in> set calls"
    using assms(1,2)
    by (auto simp: runFollowUpEvent_def planFollowUp_def bnd_def execute_plan_def
        split: sum.splits if_splits option.splits prod.splits fu_plan.splits)
  then obtain ctx where "Asked ctx \<in> set calls" ..
  then obtain answer where a: "renderFollowUpReply (truncateToBytes answer FOLLOWUP_ANSWER_MAX_BYTES) = Some body"
    using run_asked [OF assms(1)] assms(2) by (metis empty_iff fu_call.distinct(1) fu_call.inject(2) list.set(1) set_ConsD)
  have "body = (code_points_of FOLLOWUP_REPLY_MARKER @ [NL, NL]) @ text_trim (truncateToBytes answer FOLLOWUP_ANSWER_MAX_BYTES)"
    using a by (auto simp: renderFollowUpReply_def Let_def split: if_splits)
  then have "length (to_bytes body) = length (to_bytes (code_points_of FOLLOWUP_REPLY_MARKER @ [NL, NL])) +
      length (to_bytes (text_trim (truncateToBytes answer FOLLOWUP_ANSWER_MAX_BYTES)))"
    by (simp only: length_to_bytes_append)
  moreover have "length (to_bytes (text_trim (truncateToBytes answer FOLLOWUP_ANSWER_MAX_BYTES))) \<le> FOLLOWUP_ANSWER_MAX_BYTES"
    using text_trim_bytes truncateToBytes_length by (rule order_trans)
  ultimately show ?thesis
    using managed_ignored [of input ul'] reply_managed [OF a] by (simp add: assms(3) del: length_to_bytes_append)
qed

text \<open>C33: A reviewer whose handle has an upper-case letter cannot be addressed. The body is lower-cased and the
  configured handle is not, although the comparison is documented as case-insensitive: when every
  handle contains a letter A to Z, no comment is ever a question, and no delivery asks the model.\<close>

theorem upper_case_handle_unaddressable:
  assumes "list_all (list_ex upper_letter) (pf_mentionHandles cfg)"
    and "runFollowUpEvent ul event request_body deps cfg fx s = (Inr (out, calls), s')"
  shows "Asked ctx \<notin> set calls"
proof
  assume asked: "Asked ctx \<in> set calls"
  have "mentionsHandle ul (resolve_body event request_body deps) (map normalizeHandle (pf_mentionHandles cfg))"
    using assms(2) asked by (rule asked_mentions)
  moreover have "list_all (list_ex upper_letter) (map normalizeHandle (pf_mentionHandles cfg))"
    using assms(1) by (auto simp: list_all_iff list_ex_iff intro: normalizeHandle_keeps dest!: bspec)
  ultimately show False using upper_handle_unmentioned by blast
qed

section \<open>A run of deliveries\<close>

text \<open>Deliveries to one process, each with its clock reading, over the in-memory store.\<close>

record delivery =
  dl_event :: fu_event
  dl_body :: "code_points option"
  dl_deps :: "mem_events plan_deps"
  dl_effects :: fu_effects
  dl_at :: rat

definition deliver_one ::
  "(nat \<Rightarrow> code_points) \<Rightarrow> plan_config \<Rightarrow> nat \<Rightarrow> delivery \<Rightarrow> (mem_events, fu_outcome \<times> fu_call list) rop" where
  "deliver_one ul cfg maxKeys d =
     runFollowUpEvent ul (dl_event d) (dl_body d)
       ((dl_deps d)\<lparr>pd_store := memory_store maxKeys, pd_clock := Fin (dl_at d)\<rparr>) cfg (dl_effects d)"

fun deliver ::
  "(nat \<Rightarrow> code_points) \<Rightarrow> plan_config \<Rightarrow> nat \<Rightarrow> delivery list \<Rightarrow> mem_events \<Rightarrow> (delivery \<times> fu_call list) list" where
  "deliver ul cfg maxKeys [] s = []"
| "deliver ul cfg maxKeys (d # ds) s =
     (case deliver_one ul cfg maxKeys d s of
        (Inr (out, calls), s') \<Rightarrow> (d, calls) # deliver ul cfg maxKeys ds s'
      | (Inl e, s') \<Rightarrow> (d, []) # deliver ul cfg maxKeys ds s')"

text \<open>When the model was asked on behalf of the pull request with the scope key \<open>k\<close>.\<close>

definition asks_model :: "fu_call list \<Rightarrow> bool" where
  "asks_model calls \<longleftrightarrow> list_ex (\<lambda>c. case c of Asked ctx \<Rightarrow> True | _ \<Rightarrow> False) calls"

definition asked_at :: "string \<Rightarrow> (delivery \<times> fu_call list) list \<Rightarrow> rat list" where
  "asked_at k run =
     map (\<lambda>r. dl_at (fst r)) (filter (\<lambda>r. asks_model (snd r) \<and> pr_scope_key (dl_event (fst r)) = k) run)"

definition gated :: "(nat \<Rightarrow> code_points) \<Rightarrow> plan_config \<Rightarrow> delivery \<Rightarrow> fu_plan + code_points" where
  "gated ul cfg d = plan_gates ul (dl_event d) (dl_body d) (dl_deps d) cfg"

definition fu_requests :: "(nat \<Rightarrow> code_points) \<Rightarrow> plan_config \<Rightarrow> delivery list \<Rightarrow> request list" where
  "fu_requests ul cfg ds =
     map (\<lambda>d. (fu_scopes (dl_event d) cfg, dl_at d)) (filter (\<lambda>d. \<not> isl (gated ul cfg d)) ds)"

lemma plan_gates_store [simp]:
  "plan_gates ul event body (deps\<lparr>pd_store := st\<rparr>) cfg = plan_gates ul event body deps cfg"
  "plan_gates ul event body (deps\<lparr>pd_store := st, pd_clock := now\<rparr>) cfg = plan_gates ul event body deps cfg"
  unfolding plan_gates_def resolve_body_def
  by (simp_all cong: if_cong option.case_cong intent.case_cong authority_decision.case_cong)

lemma memory_identity: "consumeFollowUpBudget (memory_store n) scopes now rid = consumeFollowUpBudget (memory_store n) scopes now None"
  by (simp add: consumeFollowUpBudget_def memory_store_def)

lemma deliver_one_final:
  assumes "gated ul cfg d = Inl plan"
  shows "\<exists>out calls. deliver_one ul cfg maxKeys d s = (Inr (out, calls), s) \<and> \<not> asks_model calls"
  using budget_only_for_questions [of ul "dl_event d" "dl_body d"
      "(dl_deps d)\<lparr>pd_store := memory_store maxKeys, pd_clock := Fin (dl_at d)\<rparr>" cfg plan "dl_effects d" s] assms
  by (auto simp: gated_def deliver_one_def asks_model_def)

lemma execute_asks: "asks_model (snd (execute_plan fx event (Plan_answer ctx ref)))"
  by (simp add: execute_plan_def asks_model_def split: option.split)

lemma execute_ignores: "\<not> asks_model (snd (execute_plan fx event (Plan_ignore r)))"
  by (simp add: execute_plan_def asks_model_def)

lemma deliver_one_question:
  assumes "gated ul cfg d = Inr q"
    and "consumeFollowUpBudget (memory_store maxKeys) (fu_scopes (dl_event d) cfg) (Fin (dl_at d)) None s = (r, s')"
  shows "(case r of Inl e \<Rightarrow> deliver_one ul cfg maxKeys d s = (Inl e, s')
    | Inr allowed \<Rightarrow> \<exists>out calls. deliver_one ul cfg maxKeys d s = (Inr (out, calls), s') \<and> asks_model calls = allowed)"
proof -
  let ?deps = "(dl_deps d)\<lparr>pd_store := memory_store maxKeys, pd_clock := Fin (dl_at d)\<rparr>"
  have "consumeFollowUpBudget (pd_store ?deps) (fu_scopes (dl_event d) cfg) (pd_clock ?deps)
      (request_identity (dl_event d)) s = (r, s')"
    using assms(2) memory_identity [of maxKeys "fu_scopes (dl_event d) cfg" "Fin (dl_at d)"
        "request_identity (dl_event d)"] by simp
  then show ?thesis
    using assms(1) execute_asks [of "dl_effects d" "dl_event d" "answer_context (dl_event d) q ?deps" "fe_eventReference (dl_event d)"]
      execute_ignores [of "dl_effects d" "dl_event d" Skip_rate_limited]
    by (cases r) (simp_all add: deliver_one_def runFollowUpEvent_def planFollowUp_def gated_def bnd_def,
      metis prod.collapse)
qed

lemma actor_key_not_pr [simp]: "actor_scope_key e \<noteq> pr_scope_key e'" "pr_scope_key e' \<noteq> actor_scope_key e"
  by (simp_all add: actor_scope_key_def pr_scope_key_def)

lemma asked_admissions:
  "asked_at (pr_scope_key e) (deliver ul cfg maxKeys ds s) =
     charged_at (pr_scope_key e) (admissions (memory_store maxKeys) (fu_requests ul cfg ds) s)"
proof (induction ds arbitrary: s)
  case Nil
  then show ?case by (simp add: asked_at_def charged_at_def fu_requests_def)
next
  case (Cons d ds)
  show ?case
  proof (cases "gated ul cfg d")
    case (Inl plan)
    then obtain out calls where "deliver_one ul cfg maxKeys d s = (Inr (out, calls), s)" "\<not> asks_model calls"
      using deliver_one_final by blast
    then show ?thesis using Inl Cons [of s] by (simp add: asked_at_def fu_requests_def)
  next
    case (Inr q)
    obtain r s' where c: "consumeFollowUpBudget (memory_store maxKeys) (fu_scopes (dl_event d) cfg)
        (Fin (dl_at d)) None s = (r, s')" by (metis surj_pair)
    have key: "pr_scope_key e \<in> sc_key ` set (fu_scopes (dl_event d) cfg) \<longleftrightarrow> pr_scope_key (dl_event d) = pr_scope_key e"
      by (auto simp: fu_scopes_def)
    show ?thesis
      using deliver_one_question [OF Inr c] Cons [of s'] Inr c key
      by (cases r) (auto simp: asked_at_def charged_at_def fu_requests_def asks_model_def split: bool.splits)
  qed
qed

lemma sorted_foldr_min: "sorted (ts :: rat list) \<Longrightarrow> sorted (foldr min ts 0 # ts)"
  by (induction ts) (auto simp: min.coboundedI1)

text \<open>C11: The model calls of a pull request are bounded. Over any run of deliveries to one process whose
  store is not at its key cap, with clock readings that do not go back, no window of the per-PR rule
  holds more model calls for a pull request than the rule's limit - whoever asks, whatever the
  comments say, and whether or not the calls succeed.\<close>

theorem model_calls_bounded:
  assumes "pf_perPr cfg = \<lparr>lr_limit = Fin limit, lr_windowMs = w\<rparr>" and "sorted (map dl_at ds)"
    and "card (set (keys_of (fu_requests ul cfg ds))) \<le> maxKeys"
  shows "charges_within w T (asked_at (pr_scope_key e) (deliver ul cfg maxKeys ds [])) \<le> nat \<lfloor>limit\<rfloor>"
proof -
  have rule: "follows_rule (pr_scope_key e) (Fin limit) w (fu_requests ul cfg ds)"
    by (simp add: follows_rule_def fu_requests_def fu_scopes_def list_all_iff assms(1))
  have "sorted (map snd (fu_requests ul cfg ds))"
    using assms(2) by (simp add: fu_requests_def comp_def sorted_filter)
  then have s: "sorted (foldr min (map snd (fu_requests ul cfg ds)) 0 # map snd (fu_requests ul cfg ds))"
    by (rule sorted_foldr_min)
  have start: "mem_good []" "mem_room maxKeys [] (keys_of (fu_requests ul cfg ds))"
    using assms(3) by (simp_all add: mem_good_def mem_room_def)
  show ?thesis
    using mem.window_bound [OF start rule s, of "[]" T]
    by (simp add: asked_admissions mem_list_def charges_within_def)
qed

section \<open>Witnesses\<close>

definition demo_event :: fu_event where
  "demo_event = \<lparr>fe_kind = Follow_up_event, fe_platform = Github, fe_repoFullName = ''o/r'', fe_prNumber = 1,
     fe_headSha = '''', fe_actor = ''al'', fe_eventReference = ''9''\<rparr>"

definition demo_deps :: "mem_events plan_deps" where
  "demo_deps = \<lparr>pd_clock = Fin 0, pd_botLogin = Some ''bot'',
     pd_readPermission = (\<lambda>_. Some \<lparr>au_permission = ''write'', au_roleName = '''', au_subject = Subject_absent\<rparr>),
     pd_store = memory_store 9, pd_fetchThreadComments = None, pd_readComment = None,
     pd_latestManagedReview = None, pd_prLastEditedAt = None, pd_readPrState = Some (Open_pr, Not_draft)\<rparr>"

definition demo_config :: "string \<Rightarrow> plan_config" where
  "demo_config handle = \<lparr>pf_rereviewCommand = '''', pf_mentionHandles = [handle],
     pf_perPr = \<lparr>lr_limit = Fin 1, lr_windowMs = Fin 10\<rparr>, pf_perActor = \<lparr>lr_limit = Fin 1, lr_windowMs = Fin 10\<rparr>\<rparr>"

definition demo_effects :: fu_effects where
  "demo_effects = \<lparr>fx_answer = (\<lambda>_. Some (code_points_of ''ok'')), fx_postComment = (\<lambda>_. Some True),
     fx_rereview = (\<lambda>_. None)\<rparr>"

abbreviation demo_body :: "code_points option" where
  "demo_body \<equiv> Some (code_points_of ''@bot hi'')"

lemma demo_codes: "code_points_of ''@bot hi'' = [64, 98, 111, 116, 32, 104, 105]"
  by simp

lemma demo_trim: "text_trim [64, 98, 111, 116, 32, 104, 105] = [64, 98, 111, 116, 32, 104, 105]"
  by (simp add: text_trim_def text_trim_start_def text_trim_end_def text_space_def)

lemma demo_unmarked: "\<not> managed_marker [64, 98, 111, 116, 32, 104, 105]"
  by (simp add: managed_marker_def marker_at_def upt_rec)

lemma demo_handle: "normalizeHandle ''bot'' = ''bot''"
  by (simp add: normalizeHandle_def js_trim_def js_space_def)

lemma lower_char_id:
  assumes "\<not> (65 \<le> code_unit c \<and> code_unit c \<le> 90)" and "code_unit c < 192"
  shows "lower_char c = c"
proof -
  have "65 \<le> code_unit d \<and> code_unit d \<le> 90" if "d \<in> set ''ABCDEFGHIJKLMNOPQRSTUVWXYZ''" for d
    using that by auto
  then have none: "map_of (zip ''ABCDEFGHIJKLMNOPQRSTUVWXYZ'' ''abcdefghijklmnopqrstuvwxyz'') c = None"
    using assms(1) by (subst map_of_zip_is_None) auto
  show ?thesis using assms(2) unfolding lower_char_def none by simp
qed

lemma demo_lower: "text_lower (\<lambda>n. [n]) [64, 98, 111, 116, 32, 104, 105] = [64, 98, 111, 116, 32, 104, 105]"
  by (simp add: text_lower_def lower_char_id)

lemma demo_mention: "mentionsHandle (\<lambda>n. [n]) [64, 98, 111, 116, 32, 104, 105] [''bot'']"
  by (simp add: mentionsHandle_def Let_def demo_handle demo_lower upt_rec mention_at_def mention_char_def)

lemma demo_author: "\<not> authorMatchesTrustedIdentity ''al'' (Some ''bot'')"
  by (simp add: authorMatchesTrustedIdentity_def ownerMatchesLogin_def js_trim_def js_space_def js_lower_def)

lemma demo_gates: "plan_gates (\<lambda>n. [n]) demo_event demo_body demo_deps (demo_config ''bot'') = Inr (code_points_of ''@bot hi'')"
  unfolding demo_codes
  by (simp add: plan_gates_def demo_event_def demo_deps_def demo_config_def resolve_body_def
      classifyFollowUpComment_def demo_author demo_unmarked demo_trim demo_handle demo_mention
      commentBodyTriggersCommentCommand_def classifyCommentAuthority_def subject_consistent_def
      AUTHORIZED_PERMISSIONS_def pr_state_gate_def)

lemma demo_consume:
  "\<exists>s'. consumeFollowUpBudget (memory_store 9) (fu_scopes demo_event (demo_config h)) (Fin 0) rid [] = (Inr True, s')"
  by (simp add: consumeFollowUpBudget_def memory_store_def fu_scopes_def demo_config_def countInWindow_def
      record_event_def bnd_def seqn_def js_le_def Let_def)

lemma demo_reply:
  "renderFollowUpReply (truncateToBytes (code_points_of ''ok'') FOLLOWUP_ANSWER_MAX_BYTES) =
    Some (code_points_of FOLLOWUP_REPLY_MARKER @ [NL, NL, 111, 107])"
  by (simp add: truncateToBytes_def FOLLOWUP_ANSWER_MAX_BYTES_def to_bytes_def scalar_def encode_def encode_cp_def
      renderFollowUpReply_def text_trim_def text_trim_start_def text_trim_end_def text_space_def)

lemma demo_run:
  "\<exists>out s'. runFollowUpEvent (\<lambda>n. [n]) demo_event demo_body demo_deps (demo_config ''bot'') demo_effects [] =
    (Inr (out, [Asked (answer_context demo_event (code_points_of ''@bot hi'') demo_deps),
       Posted (code_points_of FOLLOWUP_REPLY_MARKER @ [NL, NL, 111, 107])]), s')"
proof -
  obtain s' where "consumeFollowUpBudget (pd_store demo_deps) (fu_scopes demo_event (demo_config ''bot'')) (pd_clock demo_deps)
      (request_identity demo_event) [] = (Inr True, s')"
    using demo_consume [of "''bot''" "request_identity demo_event"] by (auto simp: demo_deps_def)
  then show ?thesis
    unfolding runFollowUpEvent_def planFollowUp_def demo_gates
    by (simp add: bnd_def execute_plan_def demo_effects_def demo_reply del: list.map)
qed

theorem model_work_gated_witness:
  "\<exists>s'. consumeFollowUpBudget (pd_store demo_deps) (fu_scopes demo_event (demo_config ''bot'')) (pd_clock demo_deps)
    (request_identity demo_event) [] = (Inr True, s')"
  using demo_run model_work_gated [of "\<lambda>n. [n]" demo_event demo_body demo_deps "demo_config ''bot''" demo_effects "[]"]
  by (metis list.set_intros(1))

theorem replies_never_work_witness:
  "\<exists>r. classifyFollowUpComment (\<lambda>n. [n]) \<lparr>ci_body = code_points_of FOLLOWUP_REPLY_MARKER @ [NL, NL, 111, 107],
    ci_authorLogin = ''al'', ci_botLogin = None, ci_rereviewCommand = '''', ci_mentionHandles = []\<rparr> = Ignored r"
proof -
  obtain out s' where "runFollowUpEvent (\<lambda>n. [n]) demo_event demo_body demo_deps (demo_config ''bot'') demo_effects [] =
    (Inr (out, [Asked (answer_context demo_event (code_points_of ''@bot hi'') demo_deps),
       Posted (code_points_of FOLLOWUP_REPLY_MARKER @ [NL, NL, 111, 107])]), s')" using demo_run by blast
  from replies_never_work [OF this] show ?thesis by simp
qed

theorem budget_only_for_questions_witness:
  "\<exists>out calls. runFollowUpEvent (\<lambda>n. [n]) (demo_event\<lparr>fe_kind := Unknown_event\<rparr>) None demo_deps (demo_config ''bot'')
    demo_effects [] = (Inr (out, calls), []) \<and> calls = []"
  using budget_only_for_questions [of "\<lambda>n. [n]" "demo_event\<lparr>fe_kind := Unknown_event\<rparr>" None demo_deps "demo_config ''bot''"
      "Plan_ignore Skip_not_follow_up" demo_effects "[]"]
  by (auto simp: plan_gates_def)

theorem upper_case_handle_unaddressable_witness:
  "\<exists>out s'. runFollowUpEvent (\<lambda>n. [n]) demo_event demo_body demo_deps (demo_config ''Bot'') demo_effects [] = (Inr (out, []), s')"
proof -
  have run: "\<exists>out calls s'. runFollowUpEvent (\<lambda>n. [n]) demo_event demo_body demo_deps (demo_config ''Bot'') demo_effects [] =
      (Inr (out, calls), s') \<and> (calls = [] \<or> (\<exists>ctx. Asked ctx \<in> set calls))"
  proof (cases "plan_gates (\<lambda>n. [n]) demo_event demo_body demo_deps (demo_config ''Bot'')")
    case (Inl plan)
    have "plan \<noteq> Plan_rereview"
      using Inl by (auto simp: plan_gates_def Let_def classifyFollowUpComment_def commentBodyTriggersCommentCommand_def
          demo_config_def split: if_splits intent.splits authority_decision.splits option.splits)
    then show ?thesis
      using budget_only_for_questions [OF Inl, of demo_effects "[]"] by blast
  next
    case (Inr q)
    obtain s' where "consumeFollowUpBudget (pd_store demo_deps) (fu_scopes demo_event (demo_config ''Bot'')) (pd_clock demo_deps)
        (request_identity demo_event) [] = (Inr True, s')"
      using demo_consume [of "''Bot''" "request_identity demo_event"] by (auto simp: demo_deps_def)
    then show ?thesis
      unfolding runFollowUpEvent_def planFollowUp_def Inr
      by (simp add: bnd_def execute_plan_def split: option.split)
  qed
  then show ?thesis
    using upper_case_handle_unaddressable [of "demo_config ''Bot''" "\<lambda>n. [n]" demo_event demo_body demo_deps demo_effects "[]"]
    by (fastforce simp: demo_config_def upper_letter_def)
qed

definition demo_delivery :: "rat \<Rightarrow> delivery" where
  "demo_delivery t = \<lparr>dl_event = demo_event, dl_body = demo_body, dl_deps = demo_deps, dl_effects = demo_effects, dl_at = t\<rparr>"

lemma demo_gated: "\<not> isl (gated (\<lambda>n. [n]) (demo_config ''bot'') (demo_delivery t))"
  unfolding gated_def demo_delivery_def by (simp add: demo_gates del: list.map)

theorem model_calls_bounded_witness:
  "charges_within (Fin 10) 5 (asked_at (pr_scope_key demo_event)
    (deliver (\<lambda>n. [n]) (demo_config ''bot'') 2 [demo_delivery 0, demo_delivery 5] [])) \<le> 1"
proof -
  have "keys_of (fu_requests (\<lambda>n. [n]) (demo_config ''bot'') [demo_delivery 0, demo_delivery 5]) =
      [pr_scope_key demo_event, actor_scope_key demo_event, pr_scope_key demo_event, actor_scope_key demo_event]"
    by (simp add: fu_requests_def demo_gated keys_of_def fu_scopes_def) (simp add: demo_delivery_def)
  then have card: "card (set (keys_of (fu_requests (\<lambda>n. [n]) (demo_config ''bot'') [demo_delivery 0, demo_delivery 5]))) \<le> 2"
    by (simp add: insert_commute)
  have sorted: "sorted (map dl_at [demo_delivery 0, demo_delivery 5])" by (simp add: demo_delivery_def)
  have rule: "pf_perPr (demo_config ''bot'') = \<lparr>lr_limit = Fin 1, lr_windowMs = Fin 10\<rparr>" by (simp add: demo_config_def)
  show ?thesis using model_calls_bounded [OF rule sorted card, of 5 demo_event] by simp
qed

end
