(* ===== verification/Forge_Budget.thy ===== *)
theory Forge_Budget
  imports Followup_Properties
begin

text \<open>
  The rate-limit store of the Action lane, \<open>ForgeFollowUpBudget\<close> of \<^verbatim>\<open>src/followup/forge-budget.ts\<close>: the
  pull request's comment thread is the ledger, read once per delivery, and a small overlay holds what
  this process records. \<open>String(id)\<close> and \<open>Date.parse\<close> are functions of the JavaScript runtime and
  the parameters \<open>str\<close> and \<open>date\<close>.
\<close>

section \<open>The thread\<close>

definition DENY :: jsnum where
  "DENY = Fin (of_int max_safe_integer)"

record budget_comment =
  bc_id :: string
  bc_user :: string
  bc_createdAtMs :: "rat option"
  bc_body :: code_points

definition extractUser :: "jsval \<Rightarrow> string" where
  "extractUser raw =
     (case raw of
        JStr s \<Rightarrow> s
      | JObj ps \<Rightarrow>
          (case (case get_prop ps ''login'' of JUndef \<Rightarrow> get_prop ps ''login_name'' | JNull \<Rightarrow> get_prop ps ''login_name''
                 | v \<Rightarrow> v) of
             JStr s \<Rightarrow> s
           | _ \<Rightarrow> '''')
      | _ \<Rightarrow> '''')"

definition extractInstant :: "(string \<Rightarrow> rat option) \<Rightarrow> jsval \<Rightarrow> rat option" where
  "extractInstant date raw =
     (case raw of
        JNum (Fin q) \<Rightarrow> Some q
      | JStr s \<Rightarrow> if js_trim s = '''' then None else date s
      | _ \<Rightarrow> None)"

definition projectComment ::
  "(jsval \<Rightarrow> string) \<Rightarrow> (string \<Rightarrow> rat option) \<Rightarrow> jsval \<Rightarrow> budget_comment option" where
  "projectComment str date raw =
     (case raw of
        JObj ps \<Rightarrow>
          Some \<lparr>bc_id = (if get_prop ps ''id'' \<in> {JUndef, JNull} then '''' else str (get_prop ps ''id'')),
                bc_user = extractUser (get_prop ps ''user''),
                bc_createdAtMs = extractInstant date (get_prop ps ''created_at''),
                bc_body = (case get_prop ps ''body'' of JStr s \<Rightarrow> code_points_of s | _ \<Rightarrow> [])\<rparr>
      | _ \<Rightarrow> None)"

section \<open>Construction\<close>

record budget_options =
  bo_comments :: "jsval list"
  bo_readOk :: bool
  bo_snapshotComplete :: bool
  bo_platform :: forge_platform
  bo_repoFullName :: string
  bo_prNumber :: int
  bo_actor :: string
  bo_botLogin :: "string option"
  bo_mentionHandles :: "string list"
  bo_rereviewCommand :: string
  bo_currentCommentId :: string

record forge_budget =
  fb_prKey :: string
  fb_actorKey :: string
  fb_prQuestionInstants :: "rat list"
  fb_prReplyInstants :: "rat list"
  fb_questionInstants :: "rat list"
  fb_unplaceable :: nat
  fb_oldestObservedMs :: "rat option"
  fb_readOk :: bool
  fb_snapshotComplete :: bool

definition is_reply :: "budget_options \<Rightarrow> budget_comment \<Rightarrow> bool" where
  "is_reply opts c \<longleftrightarrow> sublist (code_points_of FOLLOWUP_REPLY_MARKER) (bc_body c) \<and>
     (case bo_botLogin opts of None \<Rightarrow> False | Some login \<Rightarrow> js_lower (bc_user c) = js_lower login)"

definition is_question :: "(nat \<Rightarrow> code_points) \<Rightarrow> budget_options \<Rightarrow> budget_comment \<Rightarrow> bool" where
  "is_question ul opts c \<longleftrightarrow>
     (case classifyFollowUpComment ul
        \<lparr>ci_body = bc_body c, ci_authorLogin = bc_user c, ci_botLogin = bo_botLogin opts,
         ci_rereviewCommand = bo_rereviewCommand opts, ci_mentionHandles = bo_mentionHandles opts\<rparr> of
        Question q \<Rightarrow> True
      | _ \<Rightarrow> False)"

text \<open>The body of the loop over the thread.\<close>

definition note_oldest :: "budget_comment \<Rightarrow> forge_budget \<Rightarrow> forge_budget" where
  "note_oldest c fb =
     (case bc_createdAtMs c of
        None \<Rightarrow> fb
      | Some t \<Rightarrow>
          (case fb_oldestObservedMs fb of
             None \<Rightarrow> fb\<lparr>fb_oldestObservedMs := Some t\<rparr>
           | Some oldest \<Rightarrow> if t < oldest then fb\<lparr>fb_oldestObservedMs := Some t\<rparr> else fb))"

definition count_comment :: "(nat \<Rightarrow> code_points) \<Rightarrow> budget_options \<Rightarrow> budget_comment \<Rightarrow> forge_budget \<Rightarrow> forge_budget" where
  "count_comment ul opts c fb0 =
     (let fb = note_oldest c fb0 in
      if is_reply opts c then
        (case bc_createdAtMs c of
           Some t \<Rightarrow> fb\<lparr>fb_prReplyInstants := fb_prReplyInstants fb @ [t]\<rparr>
         | None \<Rightarrow> fb\<lparr>fb_unplaceable := fb_unplaceable fb + 1\<rparr>)
      else if \<not> is_question ul opts c then fb
      else if bo_currentCommentId opts \<noteq> '''' \<and> bc_id c = bo_currentCommentId opts then fb
      else
        (case bc_createdAtMs c of
           None \<Rightarrow> fb\<lparr>fb_unplaceable := fb_unplaceable fb + 1\<rparr>
         | Some t \<Rightarrow>
             let fb = fb\<lparr>fb_prQuestionInstants := fb_prQuestionInstants fb @ [t]\<rparr> in
             if js_lower (bc_user c) \<noteq> js_lower (bo_actor opts) then fb
             else fb\<lparr>fb_questionInstants := fb_questionInstants fb @ [t]\<rparr>))"

definition empty_forge_budget :: "budget_options \<Rightarrow> forge_budget" where
  "empty_forge_budget opts =
     (let repo = js_lower (bo_repoFullName opts);
          pr = platform_str (bo_platform opts) @ '':'' @ repo @ ''#'' @ string_of_int (bo_prNumber opts)
      in \<lparr>fb_prKey = ''pr:'' @ pr, fb_actorKey = ''actor:'' @ pr @ '':'' @ js_lower (bo_actor opts),
          fb_prQuestionInstants = [], fb_prReplyInstants = [], fb_questionInstants = [],
          fb_unplaceable = 0, fb_oldestObservedMs = None, fb_readOk = bo_readOk opts,
          fb_snapshotComplete = bo_snapshotComplete opts\<rparr>)"

definition new_forge_budget ::
  "(nat \<Rightarrow> code_points) \<Rightarrow> (jsval \<Rightarrow> string) \<Rightarrow> (string \<Rightarrow> rat option) \<Rightarrow> budget_options \<Rightarrow> forge_budget" where
  "new_forge_budget ul str date opts =
     (if \<not> bo_readOk opts then empty_forge_budget opts
      else fold (count_comment ul opts) (List.map_filter (projectComment str date) (bo_comments opts))
        (empty_forge_budget opts))"

section \<open>The store\<close>

definition within_window :: "jsnum \<Rightarrow> jsnum \<Rightarrow> rat \<Rightarrow> bool" where
  "within_window windowMs now t \<longleftrightarrow> in_window windowMs now (Fin t) \<and> js_le (Fin t) now"

definition overlayCount :: "mem_events \<Rightarrow> string \<Rightarrow> jsnum \<Rightarrow> jsnum \<Rightarrow> nat" where
  "overlayCount recorded key windowMs now =
     (case map_of recorded key of
        None \<Rightarrow> 0
      | Some ts \<Rightarrow> length (filter (\<lambda>t. in_window windowMs now t \<and> js_le t now) ts))"

definition window_covered :: "forge_budget \<Rightarrow> jsnum \<Rightarrow> jsnum \<Rightarrow> bool" where
  "window_covered fb windowMs now \<longleftrightarrow> fb_snapshotComplete fb \<or>
     (case fb_oldestObservedMs fb of
        None \<Rightarrow> False
      | Some t \<Rightarrow> js_le (Fin t) (js_minus now (js_max (Fin 0) windowMs)))"

definition forge_count :: "forge_budget \<Rightarrow> string \<Rightarrow> jsnum \<Rightarrow> jsnum \<Rightarrow> (mem_events, jsnum) rop" where
  "forge_count fb key windowMs now s =
     (if \<not> fb_readOk fb then (Inr DENY, s)
      else if \<not> window_covered fb windowMs now then (Inr DENY, s)
      else if key = fb_prKey fb then
        (Inr (js_nat (fb_unplaceable fb
           + max (length (filter (within_window windowMs now) (fb_prQuestionInstants fb)))
               (length (filter (within_window windowMs now) (fb_prReplyInstants fb)))
           + overlayCount s key windowMs now)), s)
      else if key = fb_actorKey fb then
        (Inr (js_nat (fb_unplaceable fb + length (filter (within_window windowMs now) (fb_questionInstants fb))
           + overlayCount s key windowMs now)), s)
      else (Inr DENY, s))"

definition forge_record :: "string \<Rightarrow> jsnum \<Rightarrow> (mem_events, unit) rop" where
  "forge_record key now s =
     (case map_of s key of
        None \<Rightarrow> (Inr (), AList.update key [now] s)
      | Some ts \<Rightarrow> (Inr (), AList.update key (ts @ [now]) s))"

definition forge_store :: "forge_budget \<Rightarrow> mem_events rate_store" where
  "forge_store fb =
     \<lparr>rs_countInWindow = forge_count fb, rs_record = forge_record,
      rs_consumeScopesAtomically = None, rs_isRequestCharged = None\<rparr>"

section \<open>The decision over the thread\<close>

text \<open>What an admission over this store proves, scope by scope.\<close>

lemma check_scope_forge:
  assumes "check_scopes (forge_store fb) now scopes s = (Inr True, s')" and "sc \<in> set scopes"
  shows "\<exists>n. forge_count fb (sc_key sc) (sc_windowMs sc) now s = (Inr n, s) \<and> \<not> js_le (js_floor (sc_limit sc)) n"
  using assms
proof (induction scopes)
  case (Cons c cs)
  have "\<exists>n. forge_count fb (sc_key c) (sc_windowMs c) now s = (Inr n, s)"
    by (simp add: forge_count_def)
  then obtain n where "forge_count fb (sc_key c) (sc_windowMs c) now s = (Inr n, s)" ..
  then show ?case
    using Cons by (auto simp: forge_store_def bnd_def Let_def split: if_splits)
qed simp

lemma consume_forge:
  assumes "consumeFollowUpBudget (forge_store fb) scopes now rid s = (Inr True, s')" and "sc \<in> set scopes"
  shows "\<exists>n. forge_count fb (sc_key sc) (sc_windowMs sc) now s = (Inr n, s) \<and> \<not> js_le (js_floor (sc_limit sc)) n"
proof -
  obtain ok s1 where c: "check_scopes (forge_store fb) now scopes s = (Inr ok, s1)" "ok"
    using assms(1)
    by (auto simp: consumeFollowUpBudget_def forge_store_def bnd_def split: prod.splits sum.splits if_splits)
  then show ?thesis using check_scope_forge [of fb now scopes s s1] assms(2) by simp
qed

lemma below_deny: "\<not> js_le (js_floor (Fin l)) DENY \<Longrightarrow> of_int max_safe_integer < l"
  by (simp add: DENY_def) linarith

text \<open>The comments of the thread that count against a window, said directly: prior questions other than the
  one in flight, and those whose instant is unknown in every window.\<close>

definition prior_question :: "(nat \<Rightarrow> code_points) \<Rightarrow> budget_options \<Rightarrow> budget_comment \<Rightarrow> bool" where
  "prior_question ul opts c \<longleftrightarrow> \<not> is_reply opts c \<and> is_question ul opts c \<and>
     (bo_currentCommentId opts = '''' \<or> bc_id c \<noteq> bo_currentCommentId opts)"

definition placed_in :: "jsnum \<Rightarrow> jsnum \<Rightarrow> budget_comment \<Rightarrow> bool" where
  "placed_in w now c \<longleftrightarrow> (case bc_createdAtMs c of None \<Rightarrow> True | Some t \<Rightarrow> within_window w now t)"

definition thread_comments :: "(jsval \<Rightarrow> string) \<Rightarrow> (string \<Rightarrow> rat option) \<Rightarrow> budget_options \<Rightarrow> budget_comment list" where
  "thread_comments str date opts = List.map_filter (projectComment str date) (bo_comments opts)"

definition counted_in :: "(rat \<Rightarrow> bool) \<Rightarrow> rat list \<Rightarrow> nat" where
  "counted_in P ts = length (filter P ts)"

lemma note_oldest_same [simp]:
  "fb_prKey (note_oldest c fb) = fb_prKey fb" "fb_actorKey (note_oldest c fb) = fb_actorKey fb"
  "fb_prQuestionInstants (note_oldest c fb) = fb_prQuestionInstants fb"
  "fb_prReplyInstants (note_oldest c fb) = fb_prReplyInstants fb"
  "fb_questionInstants (note_oldest c fb) = fb_questionInstants fb"
  "fb_unplaceable (note_oldest c fb) = fb_unplaceable fb"
  "fb_readOk (note_oldest c fb) = fb_readOk fb"
  "fb_snapshotComplete (note_oldest c fb) = fb_snapshotComplete fb"
  by (simp_all add: note_oldest_def split: option.split)

lemma count_comment_same [simp]:
  "fb_prKey (count_comment ul opts c fb) = fb_prKey fb" "fb_actorKey (count_comment ul opts c fb) = fb_actorKey fb"
  "fb_readOk (count_comment ul opts c fb) = fb_readOk fb"
  "fb_snapshotComplete (count_comment ul opts c fb) = fb_snapshotComplete fb"
  by (simp_all add: count_comment_def Let_def split: option.split)

lemma fold_count_same [simp]:
  "fb_prKey (fold (count_comment ul opts) cs fb) = fb_prKey fb" "fb_actorKey (fold (count_comment ul opts) cs fb) = fb_actorKey fb"
  "fb_readOk (fold (count_comment ul opts) cs fb) = fb_readOk fb"
  "fb_snapshotComplete (fold (count_comment ul opts) cs fb) = fb_snapshotComplete fb"
  by (induction cs arbitrary: fb) simp_all

text \<open>One comment adds at least what it must to the counts of both scopes.\<close>

lemma count_comment_counts:
  "counted_in (within_window w now) (fb_prQuestionInstants fb) + fb_unplaceable fb
      + of_bool (prior_question ul opts c \<and> placed_in w now c)
    \<le> counted_in (within_window w now) (fb_prQuestionInstants (count_comment ul opts c fb))
      + fb_unplaceable (count_comment ul opts c fb)"
  "counted_in (within_window w now) (fb_questionInstants fb) + fb_unplaceable fb
      + of_bool (prior_question ul opts c \<and> placed_in w now c \<and> js_lower (bc_user c) = js_lower (bo_actor opts))
    \<le> counted_in (within_window w now) (fb_questionInstants (count_comment ul opts c fb))
      + fb_unplaceable (count_comment ul opts c fb)"
  "counted_in (within_window w now) (fb_prReplyInstants fb) + fb_unplaceable fb
      + of_bool (is_reply opts c \<and> placed_in w now c)
    \<le> counted_in (within_window w now) (fb_prReplyInstants (count_comment ul opts c fb))
      + fb_unplaceable (count_comment ul opts c fb)"
  by (auto simp: count_comment_def counted_in_def prior_question_def placed_in_def Let_def split: option.split)

lemma fold_count_counts:
  "counted_in (within_window w now) (fb_prQuestionInstants fb) + fb_unplaceable fb
      + length (filter (\<lambda>c. prior_question ul opts c \<and> placed_in w now c) cs)
    \<le> counted_in (within_window w now) (fb_prQuestionInstants (fold (count_comment ul opts) cs fb))
      + fb_unplaceable (fold (count_comment ul opts) cs fb)"
  "counted_in (within_window w now) (fb_questionInstants fb) + fb_unplaceable fb
      + length (filter (\<lambda>c. prior_question ul opts c \<and> placed_in w now c \<and> js_lower (bc_user c) = js_lower (bo_actor opts)) cs)
    \<le> counted_in (within_window w now) (fb_questionInstants (fold (count_comment ul opts) cs fb))
      + fb_unplaceable (fold (count_comment ul opts) cs fb)"
  "counted_in (within_window w now) (fb_prReplyInstants fb) + fb_unplaceable fb
      + length (filter (\<lambda>c. is_reply opts c \<and> placed_in w now c) cs)
    \<le> counted_in (within_window w now) (fb_prReplyInstants (fold (count_comment ul opts) cs fb))
      + fb_unplaceable (fold (count_comment ul opts) cs fb)"
proof (induction cs arbitrary: fb)
  case (Cons c cs)
  {
    case 1
    show ?case
      using count_comment_counts(1) [of w now fb ul opts c] Cons.IH(1) [of "count_comment ul opts c fb"]
      by (auto simp: of_bool_def split: if_splits)
  next
    case 2
    show ?case
      using count_comment_counts(2) [of w now fb ul opts c] Cons.IH(2) [of "count_comment ul opts c fb"]
      by (auto simp: of_bool_def split: if_splits)
  next
    case 3
    show ?case
      using count_comment_counts(3) [of w now fb opts c ul] Cons.IH(3) [of "count_comment ul opts c fb"]
      by (auto simp: of_bool_def split: if_splits)
  }
qed simp_all

definition serves :: "budget_options \<Rightarrow> fu_event \<Rightarrow> bool" where
  "serves opts event \<longleftrightarrow> bo_platform opts = fe_platform event \<and> bo_repoFullName opts = fe_repoFullName event \<and>
     bo_prNumber opts = fe_prNumber event \<and> bo_actor opts = fe_actor event"

lemma forge_keys:
  assumes "serves opts event"
  shows "fb_prKey (new_forge_budget ul str date opts) = pr_scope_key event"
    and "fb_actorKey (new_forge_budget ul str date opts) = actor_scope_key event"
  using assms by (simp_all add: serves_def new_forge_budget_def empty_forge_budget_def Let_def pr_scope_key_def actor_scope_key_def)

lemma forge_flags [simp]:
  "fb_readOk (new_forge_budget ul str date opts) = bo_readOk opts"
  "fb_snapshotComplete (new_forge_budget ul str date opts) = bo_snapshotComplete opts"
  by (simp_all add: new_forge_budget_def empty_forge_budget_def Let_def)

lemma floor_exceeds: "\<not> js_le (js_floor (Fin l)) (js_nat n) \<Longrightarrow> int n < \<lfloor>l\<rfloor>"
  by (simp add: js_nat_def)

text \<open>C12: The thread is the budget. When the Action lane asks the model over the budget of the pull request's
  own thread, that thread was readable and its snapshot provably covers both windows; the prior
  questions in the per-PR window - attempts, whether or not they were answered - are fewer than the
  per-PR limit, so are the reviewer's own replies there, and the actor's prior questions in the
  per-actor window are fewer than the per-actor limit. A comment whose instant is unknown counts in
  every window; the question in flight does not count.\<close>

theorem thread_is_the_budget:
  assumes "runFollowUpEvent ul event body (deps\<lparr>pd_store := forge_store (new_forge_budget ul str date opts)\<rparr>) cfg fx s
      = (Inr (out, calls), s')"
    and "Asked ctx \<in> set calls" and "serves opts event"
    and "pf_perPr cfg = \<lparr>lr_limit = Fin l, lr_windowMs = w\<rparr>" and "pf_perActor cfg = \<lparr>lr_limit = Fin la, lr_windowMs = wa\<rparr>"
    and "l \<le> of_int max_safe_integer" and "la \<le> of_int max_safe_integer" and "now = pd_clock deps"
    and "cs = thread_comments str date opts"
  shows "bo_readOk opts \<and> window_covered (new_forge_budget ul str date opts) w now \<and>
    window_covered (new_forge_budget ul str date opts) wa now \<and>
    int (length (filter (\<lambda>c. prior_question ul opts c \<and> placed_in w now c) cs)) < \<lfloor>l\<rfloor> \<and>
    int (length (filter (\<lambda>c. is_reply opts c \<and> placed_in w now c) cs)) < \<lfloor>l\<rfloor> \<and>
    int (length (filter (\<lambda>c. prior_question ul opts c \<and> placed_in wa now c \<and> js_lower (bc_user c) = js_lower (fe_actor event)) cs)) < \<lfloor>la\<rfloor>"
proof -
  let ?fb = "new_forge_budget ul str date opts"
  obtain q where "consumeFollowUpBudget (forge_store ?fb) (fu_scopes event cfg) now (request_identity event) s = (Inr True, s')"
    using run_asked [OF assms(1,2)] assms(8) by auto
  note scope = consume_forge [OF this]
  obtain n where n: "forge_count ?fb (pr_scope_key event) w now s = (Inr n, s)" "\<not> js_le (js_floor (Fin l)) n"
    using scope [of "\<lparr>sc_key = pr_scope_key event, sc_limit = Fin l, sc_windowMs = w\<rparr>"] assms(4) by (auto simp: fu_scopes_def)
  obtain na where na: "forge_count ?fb (actor_scope_key event) wa now s = (Inr na, s)" "\<not> js_le (js_floor (Fin la)) na"
    using scope [of "\<lparr>sc_key = actor_scope_key event, sc_limit = Fin la, sc_windowMs = wa\<rparr>"] assms(5) by (auto simp: fu_scopes_def)
  have nd: "n \<noteq> DENY" "na \<noteq> DENY" using n(2) na(2) assms(6,7) below_deny [of l] below_deny [of la] by (auto simp: not_less)
  then have ok: "bo_readOk opts" "window_covered ?fb w now" "window_covered ?fb wa now"
    using n(1) na(1) by (auto simp: forge_count_def split: if_splits)
  have fb: "?fb = fold (count_comment ul opts) cs (empty_forge_budget opts)"
    using ok(1) by (simp add: new_forge_budget_def assms(9) thread_comments_def)
  have zero: "counted_in P (fb_prQuestionInstants (empty_forge_budget opts)) = 0"
      "counted_in P (fb_questionInstants (empty_forge_budget opts)) = 0"
      "counted_in P (fb_prReplyInstants (empty_forge_budget opts)) = 0" "fb_unplaceable (empty_forge_budget opts) = 0" for P
    by (simp_all add: empty_forge_budget_def counted_in_def Let_def)
  have pr: "int (fb_unplaceable ?fb + max (counted_in (within_window w now) (fb_prQuestionInstants ?fb))
      (counted_in (within_window w now) (fb_prReplyInstants ?fb)) + overlayCount s (pr_scope_key event) w now) < \<lfloor>l\<rfloor>"
    by (rule floor_exceeds) (use n ok in \<open>auto simp: forge_count_def forge_keys [OF assms(3)] counted_in_def\<close>)
  have actor: "int (fb_unplaceable ?fb + counted_in (within_window wa now) (fb_questionInstants ?fb)
      + overlayCount s (actor_scope_key event) wa now) < \<lfloor>la\<rfloor>"
    by (rule floor_exceeds) (use na ok in \<open>auto simp: forge_count_def forge_keys [OF assms(3)] counted_in_def\<close>)
  have "bo_actor opts = fe_actor event" using assms(3) by (simp add: serves_def)
  then show ?thesis
    using ok pr actor fold_count_counts(1) [of w now "empty_forge_budget opts" ul opts cs]
      fold_count_counts(2) [of wa now "empty_forge_budget opts" ul opts cs]
      fold_count_counts(3) [of w now "empty_forge_budget opts" opts cs ul]
    unfolding fb [symmetric] by (auto simp: zero max_def split: if_splits)
qed

section \<open>Witness\<close>

definition demo_options :: budget_options where
  "demo_options = \<lparr>bo_comments = [], bo_readOk = True, bo_snapshotComplete = True, bo_platform = Github,
     bo_repoFullName = ''o/r'', bo_prNumber = 1, bo_actor = ''al'', bo_botLogin = Some ''bot'',
     bo_mentionHandles = [''bot''], bo_rereviewCommand = '''', bo_currentCommentId = ''9''\<rparr>"

lemma demo_forge_consume:
  "\<exists>s'. consumeFollowUpBudget (forge_store (new_forge_budget ul str date demo_options))
    (fu_scopes demo_event (demo_config h)) (Fin 0) rid [] = (Inr True, s')"
proof -
  have keys: "fb_prKey (new_forge_budget ul str date demo_options) = pr_scope_key demo_event"
      "fb_actorKey (new_forge_budget ul str date demo_options) = actor_scope_key demo_event"
    using forge_keys [of demo_options demo_event] by (simp_all add: serves_def demo_options_def demo_event_def)
  have empty: "new_forge_budget ul str date demo_options = empty_forge_budget demo_options"
    by (simp add: new_forge_budget_def demo_options_def List.map_filter_def)
  have fields: "fb_unplaceable (new_forge_budget ul str date demo_options) = 0"
      "fb_prQuestionInstants (new_forge_budget ul str date demo_options) = []"
      "fb_prReplyInstants (new_forge_budget ul str date demo_options) = []"
      "fb_questionInstants (new_forge_budget ul str date demo_options) = []"
      "bo_readOk demo_options" "bo_snapshotComplete demo_options"
    unfolding empty by (simp_all add: empty_forge_budget_def Let_def) (simp_all add: demo_options_def)
  have "forge_count (new_forge_budget ul str date demo_options) k w now [] = (Inr (js_nat 0), [])"
    if "k = pr_scope_key demo_event \<or> k = actor_scope_key demo_event" for k w now
    using that keys fields by (auto simp: forge_count_def window_covered_def overlayCount_def)
  then show ?thesis
    by (simp add: consumeFollowUpBudget_def forge_store_def fu_scopes_def demo_config_def forge_record_def bnd_def
        seqn_def js_nat_def Let_def split: option.split)
qed

theorem thread_is_the_budget_witness:
  "window_covered (new_forge_budget (\<lambda>n. [n]) (\<lambda>_. '''') (\<lambda>_. None) demo_options) (Fin 10) (Fin 0)"
proof -
  let ?fb = "new_forge_budget (\<lambda>n. [n]) (\<lambda>_. '''') (\<lambda>_. None) demo_options"
  let ?deps = "demo_deps\<lparr>pd_store := forge_store ?fb\<rparr>"
  obtain s' where c: "consumeFollowUpBudget (pd_store ?deps) (fu_scopes demo_event (demo_config ''bot'')) (pd_clock ?deps)
      (request_identity demo_event) [] = (Inr True, s')"
    using demo_forge_consume [of "\<lambda>n. [n]" "\<lambda>_. ''''" "\<lambda>_. None" "''bot''" "request_identity demo_event"]
    by (auto simp: demo_deps_def)
  have gates: "plan_gates (\<lambda>n. [n]) demo_event demo_body ?deps (demo_config ''bot'') = Inr (code_points_of ''@bot hi'')"
    using demo_gates by (simp del: list.map)
  have "\<exists>out. runFollowUpEvent (\<lambda>n. [n]) demo_event demo_body ?deps (demo_config ''bot'') demo_effects [] =
    (Inr (out, [Asked (answer_context demo_event (code_points_of ''@bot hi'') ?deps),
       Posted (code_points_of FOLLOWUP_REPLY_MARKER @ [NL, NL, 111, 107])]), s')"
    unfolding runFollowUpEvent_def planFollowUp_def gates using c
    by (simp add: bnd_def execute_plan_def demo_effects_def demo_reply del: list.map)
  then obtain out ctx calls where run: "runFollowUpEvent (\<lambda>n. [n]) demo_event demo_body ?deps (demo_config ''bot'') demo_effects [] =
      (Inr (out, calls), s')" "Asked ctx \<in> set calls" by (metis list.set_intros(1))
  have facts: "serves demo_options demo_event" "pd_clock demo_deps = Fin 0"
      "pf_perPr (demo_config ''bot'') = \<lparr>lr_limit = Fin 1, lr_windowMs = Fin 10\<rparr>"
      "pf_perActor (demo_config ''bot'') = \<lparr>lr_limit = Fin 1, lr_windowMs = Fin 10\<rparr>"
    by (simp_all add: serves_def demo_options_def demo_event_def demo_deps_def demo_config_def)
  show ?thesis
    using thread_is_the_budget [OF run facts(1,3,4) _ _ refl refl] facts(2) by (simp add: max_safe_integer_def)
qed

end
