(* ===== verification/Control_State.thy ===== *)
theory Control_State
  imports Queue_Store Gateway_Sanitize
begin

text \<open>
  The durable records of the control plane and their fail-closed validators, \<^verbatim>\<open>src/state/types.ts\<close>:
  installations, adopted repositories, runs, idempotency keys and publications (usage records are in
  \<^verbatim>\<open>Gateway_Sanitize\<close>). A validator takes a value of type \<open>unknown\<close> and rebuilds the record.

  The times of a run are rationals, because a state transition writes every finite clock; every other number is an integer. What \<open>validatePublication\<close> asks of the payload
  beyond its form - that it is the canonical JSON encoding of an object, without anything shaped like a
  secret - is the argument \<open>payload_ok\<close>: \<open>JSON.parse\<close>, the encoder and the redactor of
  \<^verbatim>\<open>src/context/redact.ts\<close> are not modelled.
\<close>

section \<open>Fields\<close>

definition cp_identifier :: "jsval \<Rightarrow> nat \<Rightarrow> string option" where
  "cp_identifier v most =
     (case v of
        JStr s \<Rightarrow>
          if \<not> (length s > 0 \<and> length s \<le> most) then None
          else if s \<noteq> js_trim s then None
          else if list_ex control_char s then None
          else Some s
      | _ \<Rightarrow> None)"

definition optionalIdentifier :: "jsval \<Rightarrow> nat \<Rightarrow> string option" where
  "optionalIdentifier v most = (if v = JStr '''' then Some '''' else cp_identifier v most)"

definition shaOrEmpty :: "jsval \<Rightarrow> string option" where
  "shaOrEmpty v =
     (if v = JStr '''' then Some ''''
      else case v of JStr s \<Rightarrow> if sha_form s then Some s else None | _ \<Rightarrow> None)"

definition fingerprintOrEmpty :: "jsval \<Rightarrow> string option" where
  "fingerprintOrEmpty v =
     (if v = JStr '''' then Some ''''
      else case v of JStr s \<Rightarrow> if fingerprint_form s then Some s else None | _ \<Rightarrow> None)"

text \<open>A string of the given form, as the code tests a pattern in place.\<close>

definition matching :: "(string \<Rightarrow> bool) \<Rightarrow> jsval \<Rightarrow> string option" where
  "matching f v = (case v of JStr s \<Rightarrow> if f s then Some s else None | _ \<Rightarrow> None)"

definition REASON_MAX_CHARS :: nat where "REASON_MAX_CHARS = 256"

definition DETAIL_MAX_CHARS :: nat where "DETAIL_MAX_CHARS = 2000"

definition PUBLICATION_HISTORY_CAP :: nat where "PUBLICATION_HISTORY_CAP = 32"

definition PUBLICATION_PAYLOAD_MAX_CHARS :: nat where "PUBLICATION_PAYLOAD_MAX_CHARS = 65536"

definition validateLeaseOwner :: "string \<Rightarrow> string option" where
  "validateLeaseOwner s = cp_identifier (JStr s) 64"

text \<open>The clock and the lease it gives: both safe, and their sum too.\<close>

definition validateLeaseWindow :: "jsnum \<Rightarrow> jsnum \<Rightarrow> (int \<times> int) option" where
  "validateLeaseWindow nowMs ttlMs = do {
     now \<leftarrow> isSafeNonNegativeInteger (JNum nowMs);
     ttl \<leftarrow> isSafeNonNegativeInteger (JNum ttlMs);
     require_that (\<not> ttl \<le> 0);
     require_that (now + ttl \<le> max_safe_integer);
     Some (now, now + ttl)
   }"

section \<open>Installations and adopted repositories\<close>

record installation =
  in_installationId :: string
  in_platform :: forge_platform
  in_profileName :: string
  in_accountLogin :: string
  in_configRef :: string
  in_createdAtMs :: int
  in_updatedAtMs :: int

definition validateInstallation :: "jsval \<Rightarrow> installation option" where
  "validateInstallation v =
    (case v of
       JObj ps \<Rightarrow> do {
         inst \<leftarrow> matching installation_id_form (get_prop ps ''installationId'');
         plat \<leftarrow> event_platform (get_prop ps ''platform'');
         prof \<leftarrow> cp_identifier (get_prop ps ''profileName'') 128;
         login \<leftarrow> optionalIdentifier (get_prop ps ''accountLogin'') 128;
         cref \<leftarrow> optionalIdentifier (get_prop ps ''configRef'') 256;
         created \<leftarrow> isSafeNonNegativeInteger (get_prop ps ''createdAtMs'');
         updated \<leftarrow> isSafeNonNegativeInteger (get_prop ps ''updatedAtMs'');
         Some \<lparr>in_installationId = inst, in_platform = plat, in_profileName = prof, in_accountLogin = login,
           in_configRef = cref, in_createdAtMs = created, in_updatedAtMs = updated\<rparr>
       }
     | _ \<Rightarrow> None)"

record adopted_repository =
  ad_platform :: forge_platform
  ad_installationId :: string
  ad_repoFullName :: string
  ad_adoptionEpoch :: string
  ad_configFingerprint :: string
  ad_headFingerprint :: string
  ad_enabled :: bool
  ad_adoptedAtMs :: int
  ad_updatedAtMs :: int

definition validateAdoptedRepository :: "jsval \<Rightarrow> adopted_repository option" where
  "validateAdoptedRepository v =
    (case v of
       JObj ps \<Rightarrow> do {
         plat \<leftarrow> event_platform (get_prop ps ''platform'');
         inst \<leftarrow> matching installation_id_form (get_prop ps ''installationId'');
         repo \<leftarrow> cp_identifier (get_prop ps ''repoFullName'') 256;
         epoch \<leftarrow> matching token_form (get_prop ps ''adoptionEpoch'');
         cfp \<leftarrow> matching fingerprint_form (get_prop ps ''configFingerprint'');
         hfp \<leftarrow> shaOrEmpty (get_prop ps ''headFingerprint'');
         en \<leftarrow> event_bool (get_prop ps ''enabled'');
         adopted \<leftarrow> isSafeNonNegativeInteger (get_prop ps ''adoptedAtMs'');
         updated \<leftarrow> isSafeNonNegativeInteger (get_prop ps ''updatedAtMs'');
         Some \<lparr>ad_platform = plat, ad_installationId = inst, ad_repoFullName = repo, ad_adoptionEpoch = epoch,
           ad_configFingerprint = cfp, ad_headFingerprint = hfp, ad_enabled = en, ad_adoptedAtMs = adopted,
           ad_updatedAtMs = updated\<rparr>
       }
     | _ \<Rightarrow> None)"

section \<open>Runs\<close>

record run_record =
  rn_runId :: string
  rn_jobId :: string
  rn_kind :: job_kind
  rn_state :: job_state
  rn_executorIdentity :: string
  rn_attempt :: int
  rn_headSha :: string
  rn_configFingerprint :: string
  rn_leaseOwner :: string
  rn_leaseExpiresAtMs :: int
  rn_resultHeadSha :: string
  rn_failureReason :: string
  rn_supersededByJobId :: string
  rn_createdAtMs :: rat
  rn_updatedAtMs :: rat
  rn_startedAtMs :: rat
  rn_finishedAtMs :: rat

definition validateRun :: "jsval \<Rightarrow> run_record option" where
  "validateRun v =
    (case v of
       JObj ps \<Rightarrow> do {
         run \<leftarrow> cp_identifier (get_prop ps ''runId'') 128;
         jb \<leftarrow> cp_identifier (get_prop ps ''jobId'') 256;
         k \<leftarrow> js_kind (get_prop ps ''kind'');
         st \<leftarrow> js_state (get_prop ps ''state'');
         ex \<leftarrow> cp_identifier (get_prop ps ''executorIdentity'') 128;
         att \<leftarrow> isSafeNonNegativeInteger (get_prop ps ''attempt'');
         head \<leftarrow> shaOrEmpty (get_prop ps ''headSha'');
         cfp \<leftarrow> fingerprintOrEmpty (get_prop ps ''configFingerprint'');
         own \<leftarrow> optionalIdentifier (get_prop ps ''leaseOwner'') 64;
         lexp \<leftarrow> isSafeNonNegativeInteger (get_prop ps ''leaseExpiresAtMs'');
         res \<leftarrow> shaOrEmpty (get_prop ps ''resultHeadSha'');
         why \<leftarrow> optionalIdentifier (get_prop ps ''failureReason'') REASON_MAX_CHARS;
         sup \<leftarrow> optionalIdentifier (get_prop ps ''supersededByJobId'') 256;
         created \<leftarrow> isSafeNonNegativeInteger (get_prop ps ''createdAtMs'');
         updated \<leftarrow> isSafeNonNegativeInteger (get_prop ps ''updatedAtMs'');
         started \<leftarrow> isSafeNonNegativeInteger (get_prop ps ''startedAtMs'');
         finished \<leftarrow> isSafeNonNegativeInteger (get_prop ps ''finishedAtMs'');
         Some \<lparr>rn_runId = run, rn_jobId = jb, rn_kind = k, rn_state = st, rn_executorIdentity = ex,
           rn_attempt = att, rn_headSha = head, rn_configFingerprint = cfp, rn_leaseOwner = own,
           rn_leaseExpiresAtMs = lexp, rn_resultHeadSha = res, rn_failureReason = why,
           rn_supersededByJobId = sup, rn_createdAtMs = of_int created, rn_updatedAtMs = of_int updated,
           rn_startedAtMs = of_int started, rn_finishedAtMs = of_int finished\<rparr>
       }
     | _ \<Rightarrow> None)"

text \<open>A record as the value that a validator receives when the code passes it on.\<close>

definition js_rat :: "rat \<Rightarrow> jsval" where
  "js_rat q = JNum (Fin q)"

definition run_js :: "run_record \<Rightarrow> jsval" where
  "run_js r = JObj [(''runId'', JStr (rn_runId r)), (''jobId'', JStr (rn_jobId r)),
     (''kind'', JStr (kind_str (rn_kind r))), (''state'', JStr (state_str (rn_state r))),
     (''executorIdentity'', JStr (rn_executorIdentity r)), (''attempt'', js_int (rn_attempt r)),
     (''headSha'', JStr (rn_headSha r)), (''configFingerprint'', JStr (rn_configFingerprint r)),
     (''leaseOwner'', JStr (rn_leaseOwner r)), (''leaseExpiresAtMs'', js_int (rn_leaseExpiresAtMs r)),
     (''resultHeadSha'', JStr (rn_resultHeadSha r)), (''failureReason'', JStr (rn_failureReason r)),
     (''supersededByJobId'', JStr (rn_supersededByJobId r)), (''createdAtMs'', js_rat (rn_createdAtMs r)),
     (''updatedAtMs'', js_rat (rn_updatedAtMs r)), (''startedAtMs'', js_rat (rn_startedAtMs r)),
     (''finishedAtMs'', js_rat (rn_finishedAtMs r))]"

text \<open>What the store's operations throw: a lost race, an argument out of range, a malformed record.\<close>

datatype state_error = Conflict | Out_of_range | Malformed

definition newRunRecord ::
  "string \<Rightarrow> string \<Rightarrow> job_kind \<Rightarrow> string \<Rightarrow> string \<Rightarrow> string \<Rightarrow> jsval \<Rightarrow> jsnum \<Rightarrow> state_error + run_record" where
  "newRunRecord run jb k ex head cfp given nowMs =
     (case nowMs of
        Fin now \<Rightarrow>
          (case isSafeNonNegativeInteger (if given = JUndef \<or> given = JNull then js_int 0 else given) of
             None \<Rightarrow> Inl Out_of_range
           | Some att \<Rightarrow>
               (case validateRun (run_js \<lparr>rn_runId = run, rn_jobId = jb, rn_kind = k, rn_state = Queued,
                    rn_executorIdentity = ex, rn_attempt = att, rn_headSha = head, rn_configFingerprint = cfp,
                    rn_leaseOwner = '''', rn_leaseExpiresAtMs = 0, rn_resultHeadSha = '''', rn_failureReason = '''',
                    rn_supersededByJobId = '''', rn_createdAtMs = now, rn_updatedAtMs = now,
                    rn_startedAtMs = 0, rn_finishedAtMs = 0\<rparr>) of
                  None \<Rightarrow> Inl Out_of_range
                | Some r \<Rightarrow> Inr r))
      | _ \<Rightarrow> Inl Out_of_range)"

text \<open>The fields a transition may patch; \<open>undefined\<close> carries the old value over.\<close>

record run_patch =
  rp_resultHeadSha :: jsval
  rp_failureReason :: jsval
  rp_supersededByJobId :: jsval

definition patch_field :: "(jsval \<Rightarrow> string option) \<Rightarrow> jsval \<Rightarrow> string option option" where
  "patch_field validate v =
     (if v = JUndef then Some None
      else case validate v of None \<Rightarrow> None | Some s \<Rightarrow> Some (Some s))"

definition validateRunPatch ::
  "run_patch option \<Rightarrow> (string option \<times> string option \<times> string option) option" where
  "validateRunPatch patch =
     (case patch of
        None \<Rightarrow> Some (None, None, None)
      | Some p \<Rightarrow> do {
          head \<leftarrow> patch_field shaOrEmpty (rp_resultHeadSha p);
          why \<leftarrow> patch_field (\<lambda>v. optionalIdentifier v REASON_MAX_CHARS) (rp_failureReason p);
          sup \<leftarrow> patch_field (\<lambda>v. optionalIdentifier v 256) (rp_supersededByJobId p);
          Some (head, why, sup)
        })"

section \<open>Idempotency keys\<close>

record idempotency_key =
  ik_key :: string
  ik_binding :: string
  ik_createdAtMs :: int
  ik_expiresAtMs :: int

definition validateIdempotencyKey :: "jsval \<Rightarrow> idempotency_key option" where
  "validateIdempotencyKey v =
    (case v of
       JObj ps \<Rightarrow> do {
         k \<leftarrow> cp_identifier (get_prop ps ''key'') 256;
         b \<leftarrow> cp_identifier (get_prop ps ''binding'') 256;
         created \<leftarrow> isSafeNonNegativeInteger (get_prop ps ''createdAtMs'');
         expires \<leftarrow> isSafeNonNegativeInteger (get_prop ps ''expiresAtMs'');
         Some \<lparr>ik_key = k, ik_binding = b, ik_createdAtMs = created, ik_expiresAtMs = expires\<rparr>
       }
     | _ \<Rightarrow> None)"

definition key_js :: "string \<Rightarrow> string \<Rightarrow> jsnum \<Rightarrow> jsnum \<Rightarrow> jsval" where
  "key_js k b created expires = JObj [(''key'', JStr k), (''binding'', JStr b),
     (''createdAtMs'', JNum created), (''expiresAtMs'', JNum expires)]"

section \<open>Publications\<close>

datatype publication_state = Pub_pending | Pub_published | Pub_failed

datatype publication_outcome = Out_attempt | Out_published | Out_failed

fun publication_state_str :: "publication_state \<Rightarrow> string" where
  "publication_state_str Pub_pending = ''pending''"
| "publication_state_str Pub_published = ''published''"
| "publication_state_str Pub_failed = ''failed''"

fun publication_outcome_str :: "publication_outcome \<Rightarrow> string" where
  "publication_outcome_str Out_attempt = ''attempt''"
| "publication_outcome_str Out_published = ''published''"
| "publication_outcome_str Out_failed = ''failed''"

definition js_publication_state :: "jsval \<Rightarrow> publication_state option" where
  "js_publication_state v = find (\<lambda>s. v = JStr (publication_state_str s)) [Pub_pending, Pub_published, Pub_failed]"

definition js_publication_outcome :: "jsval \<Rightarrow> publication_outcome option" where
  "js_publication_outcome v = find (\<lambda>s. v = JStr (publication_outcome_str s)) [Out_attempt, Out_published, Out_failed]"

record history_entry =
  he_atMs :: int
  he_outcome :: publication_outcome
  he_detail :: string

definition validatePublicationHistoryEntry :: "jsval \<Rightarrow> history_entry option" where
  "validatePublicationHistoryEntry v =
    (case v of
       JObj ps \<Rightarrow> do {
         moment \<leftarrow> isSafeNonNegativeInteger (get_prop ps ''atMs'');
         out \<leftarrow> js_publication_outcome (get_prop ps ''outcome'');
         det \<leftarrow> optionalIdentifier (get_prop ps ''detail'') DETAIL_MAX_CHARS;
         Some \<lparr>he_atMs = moment, he_outcome = out, he_detail = det\<rparr>
       }
     | _ \<Rightarrow> None)"

fun validate_history :: "jsval list \<Rightarrow> history_entry list option" where
  "validate_history [] = Some []"
| "validate_history (element # rest) =
     (case validatePublicationHistoryEntry element of
        None \<Rightarrow> None
      | Some entry \<Rightarrow> (case validate_history rest of None \<Rightarrow> None | Some es \<Rightarrow> Some (entry # es)))"

record publication_record =
  pb_jobId :: string
  pb_publicationState :: publication_state
  pb_destination :: string
  pb_publicationId :: string
  pb_attempt :: int
  pb_lastError :: string
  pb_resultHeadSha :: string
  pb_resultPayload :: string
  pb_history :: "history_entry list"
  pb_createdAtMs :: int
  pb_updatedAtMs :: int

definition validatePublication :: "(string \<Rightarrow> bool) \<Rightarrow> jsval \<Rightarrow> publication_record option" where
  "validatePublication payload_ok v =
    (case v of
       JObj ps \<Rightarrow> do {
         jb \<leftarrow> cp_identifier (get_prop ps ''jobId'') 256;
         st \<leftarrow> js_publication_state (get_prop ps ''publicationState'');
         dest \<leftarrow> cp_identifier (get_prop ps ''destination'') 256;
         pid \<leftarrow> optionalIdentifier (get_prop ps ''publicationId'') 256;
         att \<leftarrow> isSafeNonNegativeInteger (get_prop ps ''attempt'');
         err \<leftarrow> optionalIdentifier (get_prop ps ''lastError'') DETAIL_MAX_CHARS;
         head \<leftarrow> shaOrEmpty (get_prop ps ''resultHeadSha'');
         payload \<leftarrow> cp_identifier (get_prop ps ''resultPayload'') PUBLICATION_PAYLOAD_MAX_CHARS;
         require_that (payload_ok payload);
         hist \<leftarrow> (case get_prop ps ''history'' of JArr items \<Rightarrow> validate_history items | _ \<Rightarrow> None);
         created \<leftarrow> isSafeNonNegativeInteger (get_prop ps ''createdAtMs'');
         updated \<leftarrow> isSafeNonNegativeInteger (get_prop ps ''updatedAtMs'');
         require_that (\<not> length hist > PUBLICATION_HISTORY_CAP);
         Some \<lparr>pb_jobId = jb, pb_publicationState = st, pb_destination = dest, pb_publicationId = pid,
           pb_attempt = att, pb_lastError = err, pb_resultHeadSha = head, pb_resultPayload = payload,
           pb_history = hist, pb_createdAtMs = created, pb_updatedAtMs = updated\<rparr>
       }
     | _ \<Rightarrow> None)"

definition history_js :: "jsnum \<Rightarrow> publication_outcome \<Rightarrow> string \<Rightarrow> jsval" where
  "history_js moment out det = JObj [(''atMs'', JNum moment), (''outcome'', JStr (publication_outcome_str out)),
     (''detail'', JStr det)]"

definition entry_js :: "history_entry \<Rightarrow> jsval" where
  "entry_js e = history_js (Fin (of_int (he_atMs e))) (he_outcome e) (he_detail e)"

definition publication_js :: "publication_record \<Rightarrow> jsnum \<Rightarrow> jsval" where
  "publication_js p updated = JObj [(''jobId'', JStr (pb_jobId p)),
     (''publicationState'', JStr (publication_state_str (pb_publicationState p))),
     (''destination'', JStr (pb_destination p)), (''publicationId'', JStr (pb_publicationId p)),
     (''attempt'', js_int (pb_attempt p)), (''lastError'', JStr (pb_lastError p)),
     (''resultHeadSha'', JStr (pb_resultHeadSha p)), (''resultPayload'', JStr (pb_resultPayload p)),
     (''history'', JArr (map entry_js (pb_history p))), (''createdAtMs'', js_int (pb_createdAtMs p)),
     (''updatedAtMs'', JNum updated)]"

section \<open>Valid records\<close>

text \<open>What a validator lets through, and that it lets it through unchanged.\<close>

definition opt_form :: "(string \<Rightarrow> bool) \<Rightarrow> string \<Rightarrow> bool" where
  "opt_form f s \<longleftrightarrow> s = '''' \<or> f s"

abbreviation whole :: "rat \<Rightarrow> bool" where
  "whole q \<equiv> \<exists>i. q = of_int i \<and> counter i"

lemma cp_identifier_iff: "cp_identifier v n = Some s \<longleftrightarrow> v = JStr s \<and> id_form s n"
  by (auto simp: cp_identifier_def id_form_def split: jsval.splits if_splits)

lemma optionalIdentifier_iff: "optionalIdentifier v n = Some s \<longleftrightarrow> v = JStr s \<and> opt_form (\<lambda>s. id_form s n) s"
  by (auto simp: optionalIdentifier_def cp_identifier_iff opt_form_def id_form_def)

lemma shaOrEmpty_iff: "shaOrEmpty v = Some s \<longleftrightarrow> v = JStr s \<and> opt_form sha_form s"
  by (auto simp: shaOrEmpty_def opt_form_def split: jsval.splits if_splits)

lemma fingerprintOrEmpty_iff: "fingerprintOrEmpty v = Some s \<longleftrightarrow> v = JStr s \<and> opt_form fingerprint_form s"
  by (auto simp: fingerprintOrEmpty_def opt_form_def split: jsval.splits if_splits)

lemma matching_iff: "matching f v = Some s \<longleftrightarrow> v = JStr s \<and> f s"
  by (auto simp: matching_def split: jsval.splits if_splits)

lemma event_bool_iff: "event_bool v = Some b \<longleftrightarrow> v = JBool b"
  by (auto simp: event_bool_def split: jsval.splits)

lemma event_platform_iff: "event_platform v = Some p \<longleftrightarrow> v = JStr (platform_str p)"
  by (cases p) (auto simp: event_platform_def)

lemma js_kind_iff: "js_kind v = Some k \<longleftrightarrow> v = JStr (kind_str k)"
  by (cases k) (auto simp: js_kind_def)

lemma js_state_iff: "js_state v = Some st \<longleftrightarrow> v = JStr (state_str st)"
  by (cases st) (auto simp: js_state_def all_states_def)

lemma js_publication_state_iff: "js_publication_state v = Some st \<longleftrightarrow> v = JStr (publication_state_str st)"
  by (cases st) (auto simp: js_publication_state_def)

lemma js_publication_outcome_iff: "js_publication_outcome v = Some st \<longleftrightarrow> v = JStr (publication_outcome_str st)"
  by (cases st) (auto simp: js_publication_outcome_def)

lemmas field_iffs = cp_identifier_iff optionalIdentifier_iff shaOrEmpty_iff fingerprintOrEmpty_iff matching_iff
  event_bool_iff event_platform_iff js_kind_iff js_state_iff js_publication_state_iff
  js_publication_outcome_iff isSafeNonNegativeInteger_Some

definition installation_ok :: "installation \<Rightarrow> bool" where
  "installation_ok r \<longleftrightarrow> installation_id_form (in_installationId r) \<and> id_form (in_profileName r) 128 \<and>
     opt_form (\<lambda>s. id_form s 128) (in_accountLogin r) \<and> opt_form (\<lambda>s. id_form s 256) (in_configRef r) \<and>
     counter (in_createdAtMs r) \<and> counter (in_updatedAtMs r)"

definition adopted_ok :: "adopted_repository \<Rightarrow> bool" where
  "adopted_ok r \<longleftrightarrow> installation_id_form (ad_installationId r) \<and> id_form (ad_repoFullName r) 256 \<and>
     token_form (ad_adoptionEpoch r) \<and> fingerprint_form (ad_configFingerprint r) \<and>
     opt_form sha_form (ad_headFingerprint r) \<and> counter (ad_adoptedAtMs r) \<and> counter (ad_updatedAtMs r)"

definition run_ok :: "run_record \<Rightarrow> bool" where
  "run_ok r \<longleftrightarrow> id_form (rn_runId r) 128 \<and> id_form (rn_jobId r) 256 \<and> id_form (rn_executorIdentity r) 128 \<and>
     counter (rn_attempt r) \<and> opt_form sha_form (rn_headSha r) \<and> opt_form fingerprint_form (rn_configFingerprint r) \<and>
     opt_form (\<lambda>s. id_form s 64) (rn_leaseOwner r) \<and> counter (rn_leaseExpiresAtMs r) \<and>
     opt_form sha_form (rn_resultHeadSha r) \<and> opt_form (\<lambda>s. id_form s REASON_MAX_CHARS) (rn_failureReason r) \<and>
     opt_form (\<lambda>s. id_form s 256) (rn_supersededByJobId r) \<and>
     whole (rn_createdAtMs r) \<and> whole (rn_updatedAtMs r) \<and> whole (rn_startedAtMs r) \<and> whole (rn_finishedAtMs r)"

definition key_ok :: "idempotency_key \<Rightarrow> bool" where
  "key_ok r \<longleftrightarrow> id_form (ik_key r) 256 \<and> id_form (ik_binding r) 256 \<and> counter (ik_createdAtMs r) \<and>
     counter (ik_expiresAtMs r)"

definition entry_ok :: "history_entry \<Rightarrow> bool" where
  "entry_ok e \<longleftrightarrow> counter (he_atMs e) \<and> opt_form (\<lambda>s. id_form s DETAIL_MAX_CHARS) (he_detail e)"

definition publication_ok :: "(string \<Rightarrow> bool) \<Rightarrow> publication_record \<Rightarrow> bool" where
  "publication_ok payload_ok p \<longleftrightarrow> id_form (pb_jobId p) 256 \<and> id_form (pb_destination p) 256 \<and>
     opt_form (\<lambda>s. id_form s 256) (pb_publicationId p) \<and> counter (pb_attempt p) \<and>
     opt_form (\<lambda>s. id_form s DETAIL_MAX_CHARS) (pb_lastError p) \<and> opt_form sha_form (pb_resultHeadSha p) \<and>
     id_form (pb_resultPayload p) PUBLICATION_PAYLOAD_MAX_CHARS \<and> payload_ok (pb_resultPayload p) \<and>
     list_all entry_ok (pb_history p) \<and> length (pb_history p) \<le> PUBLICATION_HISTORY_CAP \<and>
     counter (pb_createdAtMs p) \<and> counter (pb_updatedAtMs p)"

definition installation_js :: "installation \<Rightarrow> jsval" where
  "installation_js r = JObj [(''installationId'', JStr (in_installationId r)),
     (''platform'', JStr (platform_str (in_platform r))), (''profileName'', JStr (in_profileName r)),
     (''accountLogin'', JStr (in_accountLogin r)), (''configRef'', JStr (in_configRef r)),
     (''createdAtMs'', js_int (in_createdAtMs r)), (''updatedAtMs'', js_int (in_updatedAtMs r))]"

definition adopted_js :: "adopted_repository \<Rightarrow> jsval" where
  "adopted_js r = JObj [(''platform'', JStr (platform_str (ad_platform r))),
     (''installationId'', JStr (ad_installationId r)), (''repoFullName'', JStr (ad_repoFullName r)),
     (''adoptionEpoch'', JStr (ad_adoptionEpoch r)), (''configFingerprint'', JStr (ad_configFingerprint r)),
     (''headFingerprint'', JStr (ad_headFingerprint r)), (''enabled'', JBool (ad_enabled r)),
     (''adoptedAtMs'', js_int (ad_adoptedAtMs r)), (''updatedAtMs'', js_int (ad_updatedAtMs r))]"

definition idempotency_js :: "idempotency_key \<Rightarrow> jsval" where
  "idempotency_js r = key_js (ik_key r) (ik_binding r) (Fin (of_int (ik_createdAtMs r))) (Fin (of_int (ik_expiresAtMs r)))"

fun usage_role_str :: "usage_role \<Rightarrow> string" where
  "usage_role_str Role_primary = ''primary''"
| "usage_role_str Role_specialist = ''specialist''"
| "usage_role_str Role_tool = ''tool''"
| "usage_role_str Role_evidence = ''evidence''"
| "usage_role_str Role_judge = ''judge''"

fun cost_provenance_str :: "cost_provenance \<Rightarrow> string" where
  "cost_provenance_str Provider_reported = ''provider-reported''"
| "cost_provenance_str Configured_estimate = ''configured-estimate''"
| "cost_provenance_str Unknown_cost = ''unknown''"

definition usage_js :: "usage_record \<Rightarrow> jsval" where
  "usage_js u = JObj [(''usageId'', JStr (ur_usageId u)), (''runId'', JStr (ur_runId u)),
     (''route'', JStr (ur_route u)), (''role'', JStr (usage_role_str (ur_role u))),
     (''requestCount'', js_int (ur_requestCount u)), (''inputTokens'', js_int (ur_inputTokens u)),
     (''cacheReadTokens'', js_int (ur_cacheReadTokens u)), (''cacheWriteTokens'', js_int (ur_cacheWriteTokens u)),
     (''outputTokens'', js_int (ur_outputTokens u)), (''costMicros'', js_int (ur_costMicros u)),
     (''costProvenance'', JStr (cost_provenance_str (ur_costProvenance u))),
     (''recordedAtMs'', js_int (ur_recordedAtMs u))]"

lemma js_usage_role_iff: "js_usage_role v = Some k \<longleftrightarrow> v = JStr (usage_role_str k)"
  by (cases k) (auto simp: js_usage_role_def)

lemma js_cost_provenance_iff: "js_cost_provenance v = Some k \<longleftrightarrow> v = JStr (cost_provenance_str k)"
  by (cases k) (auto simp: js_cost_provenance_def)

lemma js_num_int [simp]: "JNum (Fin (of_int i)) = js_int j \<longleftrightarrow> i = j"
  by (simp add: js_int_def)

lemma js_rat_int: "js_rat q = js_int i \<longleftrightarrow> q = of_int i"
  by (simp add: js_rat_def js_int_def)

lemma num_js: "isSafeNonNegativeInteger (JNum (Fin (of_int i))) = isSafeNonNegativeInteger (js_int i)"
  by (simp add: js_int_def)

lemma validateInstallation_ok: "validateInstallation v = Some r \<Longrightarrow> installation_ok r"
  unfolding validateInstallation_def installation_ok_def
  by (auto simp: field_iffs split: jsval.splits bind_splits)

lemma validateAdoptedRepository_ok: "validateAdoptedRepository v = Some r \<Longrightarrow> adopted_ok r"
  unfolding validateAdoptedRepository_def adopted_ok_def
  by (auto simp: field_iffs split: jsval.splits bind_splits)

lemma validateRun_ok: "validateRun v = Some r \<Longrightarrow> run_ok r"
  unfolding validateRun_def run_ok_def
  by (auto simp: field_iffs split: jsval.splits bind_splits)

lemma validateIdempotencyKey_ok: "validateIdempotencyKey v = Some r \<Longrightarrow> key_ok r"
  unfolding validateIdempotencyKey_def key_ok_def
  by (auto simp: field_iffs split: jsval.splits bind_splits)

lemma validatePublicationHistoryEntry_ok: "validatePublicationHistoryEntry v = Some r \<Longrightarrow> entry_ok r"
  unfolding validatePublicationHistoryEntry_def entry_ok_def
  by (auto simp: field_iffs split: jsval.splits bind_splits)

lemma validate_history_ok: "validate_history vs = Some es \<Longrightarrow> list_all entry_ok es"
  by (induction vs arbitrary: es) (auto split: option.splits dest: validatePublicationHistoryEntry_ok)

lemma validatePublication_ok: "validatePublication payload_ok v = Some r \<Longrightarrow> publication_ok payload_ok r"
  unfolding validatePublication_def publication_ok_def
  by (auto simp: field_iffs not_less split: jsval.splits bind_splits dest: validate_history_ok)

text \<open>Reading back what was written.\<close>

lemma decode_fields:
  "id_form s n \<Longrightarrow> cp_identifier (JStr s) n = Some s"
  "opt_form (\<lambda>s. id_form s n) s \<Longrightarrow> optionalIdentifier (JStr s) n = Some s"
  "opt_form sha_form s \<Longrightarrow> shaOrEmpty (JStr s) = Some s"
  "opt_form fingerprint_form s \<Longrightarrow> fingerprintOrEmpty (JStr s) = Some s"
  "f s \<Longrightarrow> matching f (JStr s) = Some s"
  "event_bool (JBool b) = Some b"
  "event_platform (JStr (platform_str p)) = Some p"
  "js_kind (JStr (kind_str k)) = Some k"
  "js_state (JStr (state_str st)) = Some st"
  "js_publication_state (JStr (publication_state_str ps)) = Some ps"
  "js_publication_outcome (JStr (publication_outcome_str po)) = Some po"
  "js_usage_role (JStr (usage_role_str ro)) = Some ro"
  "js_cost_provenance (JStr (cost_provenance_str cp)) = Some cp"
  "counter i \<Longrightarrow> isSafeNonNegativeInteger (js_int i) = Some i"
  "counter i \<Longrightarrow> 1 \<le> i \<Longrightarrow> positive_integer (js_int i) = Some i"
  "counter i \<Longrightarrow> isSafeNonNegativeInteger (JNum (Fin (of_int i))) = Some i"
  "counter i \<Longrightarrow> isSafeNonNegativeInteger (js_rat (of_int i)) = Some i"
  "id_form s n \<Longrightarrow> ledger_identifier (JStr s) n = Some s"
  by (simp_all only: field_iffs js_usage_role_iff js_cost_provenance_iff parsed js_num_int js_rat_int simp_thms)

lemma require_True [simp]: "require_that True = Some ()"
  by (simp add: require_that_def)

lemma validate_installation_js: "installation_ok r \<Longrightarrow> validateInstallation (installation_js r) = Some r"
  by (simp add: installation_ok_def validateInstallation_def installation_js_def decode_fields)

lemma validate_adopted_js: "adopted_ok r \<Longrightarrow> validateAdoptedRepository (adopted_js r) = Some r"
  by (simp add: adopted_ok_def validateAdoptedRepository_def adopted_js_def decode_fields)

lemma validate_run_js:
  assumes "run_ok r"
  shows "validateRun (run_js r) = Some r"
proof -
  obtain c u s f where times: "rn_createdAtMs r = of_int c" "counter c" "rn_updatedAtMs r = of_int u" "counter u"
      "rn_startedAtMs r = of_int s" "counter s" "rn_finishedAtMs r = of_int f" "counter f"
    using assms by (auto simp: run_ok_def)
  have "r = \<lparr>rn_runId = rn_runId r, rn_jobId = rn_jobId r, rn_kind = rn_kind r, rn_state = rn_state r,
      rn_executorIdentity = rn_executorIdentity r, rn_attempt = rn_attempt r, rn_headSha = rn_headSha r,
      rn_configFingerprint = rn_configFingerprint r, rn_leaseOwner = rn_leaseOwner r,
      rn_leaseExpiresAtMs = rn_leaseExpiresAtMs r, rn_resultHeadSha = rn_resultHeadSha r,
      rn_failureReason = rn_failureReason r, rn_supersededByJobId = rn_supersededByJobId r,
      rn_createdAtMs = of_int c, rn_updatedAtMs = of_int u, rn_startedAtMs = of_int s, rn_finishedAtMs = of_int f\<rparr>"
    by (simp add: times(1,3,5,7) [symmetric])
  then show ?thesis
    using assms by (simp add: run_ok_def validateRun_def run_js_def decode_fields times(2,4,6,8) times(1,3,5,7))
qed

lemma validate_idempotency_js: "key_ok r \<Longrightarrow> validateIdempotencyKey (idempotency_js r) = Some r"
  by (simp add: key_ok_def validateIdempotencyKey_def idempotency_js_def key_js_def decode_fields)

lemma validate_entry_js: "entry_ok e \<Longrightarrow> validatePublicationHistoryEntry (entry_js e) = Some e"
  by (simp add: entry_ok_def validatePublicationHistoryEntry_def entry_js_def history_js_def decode_fields)

lemma validate_history_js: "list_all entry_ok es \<Longrightarrow> validate_history (map entry_js es) = Some es"
  by (induction es) (simp_all add: validate_entry_js)

lemma validate_publication_js:
  "publication_ok payload_ok p \<Longrightarrow>
    validatePublication payload_ok (publication_js p (Fin (of_int (pb_updatedAtMs p)))) = Some p"
  by (simp add: publication_ok_def validatePublication_def publication_js_def decode_fields validate_history_js)

lemma validate_usage_js:
  assumes "usage_record_ok u"
  shows "validateUsage (usage_js u) = Some u"
proof -
  have "require_that (\<not> (ur_costProvenance u = Unknown_cost \<and> ur_costMicros u \<noteq> 0)) = Some ()"
    using assms by (auto simp: usage_record_ok_def require_that_def)
  then show ?thesis
    using assms by (simp add: usage_record_ok_def validateUsage_def usage_js_def decode_fields)
qed

end
