(* ===== verification/Control_Store.thy ===== *)
theory Control_Store
  imports Control_State "HOL-Library.Log_Nat"
begin

text \<open>
  The control-plane store, \<^verbatim>\<open>src/state/store.ts\<close>: \<open>InMemoryControlPlaneStore\<close> with its transactional
  \<open>apply\<close>, the leases, the reads, the usage aggregate, and the restart path (\<open>exportState\<close>,
  \<open>parseStateExport\<close>, the constructor). A table is a \<open>Map\<close> from the record's identity. What a batch
  throws is its error code; a thrown batch leaves the tables as they were.

  Sums of token counts are sums of doubles: \<open>double_int\<close> rounds to the nearest integer that a double
  can hold (ties to even), which matters above \<open>2^53\<close>; an overflow to infinity, beyond \<open>2^1023\<close>, is
  not modelled.
\<close>

section \<open>Tables and mutations\<close>

record control_tables =
  ct_installations :: "(string \<times> installation) list"
  ct_adoptedRepositories :: "(string \<times> adopted_repository) list"
  ct_runs :: "(string \<times> run_record) list"
  ct_idempotencyKeys :: "(string \<times> idempotency_key) list"
  ct_publications :: "(string \<times> publication_record) list"
  ct_usage :: "(string \<times> usage_record) list"

definition empty_tables :: control_tables where
  "empty_tables = \<lparr>ct_installations = [], ct_adoptedRepositories = [], ct_runs = [], ct_idempotencyKeys = [],
     ct_publications = [], ct_usage = []\<rparr>"

datatype state_mutation =
    Put_installation jsval
  | Put_adopted_repository jsval
  | Create_run jsval
  | Transition_run string job_state job_state "run_patch option" jsnum
  | Claim_idempotency string string jsnum jsnum
  | Release_idempotency string string jsnum
  | Put_publication jsval
  | Record_publication_attempt string jsnum publication_outcome string
  | Record_usage jsval

definition adoptedRepositoryKey :: "forge_platform \<Rightarrow> string \<Rightarrow> string \<Rightarrow> string" where
  "adoptedRepositoryKey plat inst repo = platform_str plat @ ''/'' @ inst @ ''/'' @ repo"

abbreviation adopted_key :: "adopted_repository \<Rightarrow> string" where
  "adopted_key r \<equiv> adoptedRepositoryKey (ad_platform r) (ad_installationId r) (ad_repoFullName r)"

definition usageRecordsEqual :: "usage_record \<Rightarrow> usage_record \<Rightarrow> bool" where
  "usageRecordsEqual a b \<longleftrightarrow>
     ur_usageId a = ur_usageId b \<and> ur_runId a = ur_runId b \<and> ur_route a = ur_route b \<and> ur_role a = ur_role b \<and>
     ur_requestCount a = ur_requestCount b \<and> ur_inputTokens a = ur_inputTokens b \<and>
     ur_cacheReadTokens a = ur_cacheReadTokens b \<and> ur_cacheWriteTokens a = ur_cacheWriteTokens b \<and>
     ur_outputTokens a = ur_outputTokens b \<and> ur_costMicros a = ur_costMicros b \<and>
     ur_costProvenance a = ur_costProvenance b \<and> ur_recordedAtMs a = ur_recordedAtMs b"

section \<open>One mutation\<close>

definition create_run :: "jsval \<Rightarrow> control_tables \<Rightarrow> state_error + control_tables" where
  "create_run v t =
     (case validateRun v of
        None \<Rightarrow> Inl Malformed
      | Some r \<Rightarrow>
          if map_of (ct_runs t) (rn_runId r) \<noteq> None then Inl Conflict
          else Inr (t\<lparr>ct_runs := AList.update (rn_runId r) r (ct_runs t)\<rparr>))"

definition patched :: "string option \<Rightarrow> string \<Rightarrow> string" where
  "patched p old = (case p of None \<Rightarrow> old | Some s \<Rightarrow> s)"

definition transition_run ::
  "string \<Rightarrow> job_state \<Rightarrow> job_state \<Rightarrow> run_patch option \<Rightarrow> jsnum \<Rightarrow> control_tables \<Rightarrow> state_error + control_tables" where
  "transition_run run before after patch nowMs t =
     (case nowMs of
        Fin now \<Rightarrow>
          if \<not> canTransition before after then Inl Out_of_range
          else (case map_of (ct_runs t) run of
              None \<Rightarrow> Inl Conflict
            | Some current \<Rightarrow>
                if rn_state current \<noteq> before then Inl Conflict
                else (case validateRunPatch patch of
                    None \<Rightarrow> Inl Malformed
                  | Some (head, why, by_job) \<Rightarrow>
                      let terminal = isTerminalState after;
                          next_record = current\<lparr>rn_state := after,
                            rn_resultHeadSha := patched head (rn_resultHeadSha current),
                            rn_failureReason := patched why (rn_failureReason current),
                            rn_supersededByJobId := patched by_job (rn_supersededByJobId current),
                            rn_leaseOwner := (if terminal then '''' else rn_leaseOwner current),
                            rn_leaseExpiresAtMs := (if terminal then 0 else rn_leaseExpiresAtMs current),
                            rn_startedAtMs := (if after = Running \<and> rn_startedAtMs current = 0 then now
                              else rn_startedAtMs current),
                            rn_finishedAtMs := (if terminal then now else rn_finishedAtMs current),
                            rn_updatedAtMs := now\<rparr>
                      in Inr (t\<lparr>ct_runs := AList.update run next_record (ct_runs t)\<rparr>)))
      | _ \<Rightarrow> Inl Out_of_range)"

definition claim_idempotency ::
  "string \<Rightarrow> string \<Rightarrow> jsnum \<Rightarrow> jsnum \<Rightarrow> control_tables \<Rightarrow> state_error + control_tables" where
  "claim_idempotency k binding nowMs expiresAtMs t =
     (case (nowMs, expiresAtMs) of
        (Fin now, Fin expires) \<Rightarrow>
          if expires < 0 then Inl Out_of_range
          else (case validateIdempotencyKey (key_js k binding nowMs expiresAtMs) of
              None \<Rightarrow> Inl Malformed
            | Some r \<Rightarrow>
                let put = Inr (t\<lparr>ct_idempotencyKeys := AList.update k r (ct_idempotencyKeys t)\<rparr>) in
                (case map_of (ct_idempotencyKeys t) k of
                   None \<Rightarrow> put
                 | Some existing \<Rightarrow>
                     if ik_expiresAtMs existing \<noteq> 0 \<and> of_int (ik_expiresAtMs existing) \<le> now then put
                     else if ik_binding existing = binding then Inr t
                     else Inl Conflict))
      | _ \<Rightarrow> Inl Out_of_range)"

definition release_idempotency :: "string \<Rightarrow> string \<Rightarrow> jsnum \<Rightarrow> control_tables \<Rightarrow> state_error + control_tables" where
  "release_idempotency k binding nowMs t =
     (case nowMs of
        Fin now \<Rightarrow>
          if k = '''' then Inl Malformed
          else if binding = '''' then Inl Malformed
          else
            let drop_key = Inr (t\<lparr>ct_idempotencyKeys := AList.delete k (ct_idempotencyKeys t)\<rparr>) in
            (case map_of (ct_idempotencyKeys t) k of
               None \<Rightarrow> Inr t
             | Some existing \<Rightarrow>
                 if ik_binding existing = binding then drop_key
                 else if ik_expiresAtMs existing \<noteq> 0 \<and> of_int (ik_expiresAtMs existing) \<le> now then drop_key
                 else Inl Conflict)
      | _ \<Rightarrow> Inl Out_of_range)"

text \<open>\<open>history.shift()\<close> until the cap holds: the last entries stay.\<close>

definition cap_history :: "history_entry list \<Rightarrow> history_entry list" where
  "cap_history es = drop (length es - PUBLICATION_HISTORY_CAP) es"

definition record_publication_attempt ::
  "(string \<Rightarrow> bool) \<Rightarrow> string \<Rightarrow> jsnum \<Rightarrow> publication_outcome \<Rightarrow> string \<Rightarrow> control_tables \<Rightarrow> state_error + control_tables"
where
  "record_publication_attempt payload_ok jb atMs outcome detail t =
     (case atMs of
        Fin q \<Rightarrow>
          (case map_of (ct_publications t) jb of
             None \<Rightarrow> Inl Conflict
           | Some current \<Rightarrow>
               (case validatePublicationHistoryEntry (history_js atMs outcome detail) of
                  None \<Rightarrow> Inl Malformed
                | Some entry \<Rightarrow>
                    let changed = current\<lparr>pb_attempt := pb_attempt current + 1,
                          pb_publicationState := (case outcome of Out_published \<Rightarrow> Pub_published
                            | Out_failed \<Rightarrow> Pub_failed | Out_attempt \<Rightarrow> pb_publicationState current),
                          pb_lastError := (if outcome = Out_failed then detail else pb_lastError current),
                          pb_history := cap_history (pb_history current @ [entry])\<rparr>
                    in (case validatePublication payload_ok (publication_js changed atMs) of
                          None \<Rightarrow> Inl Malformed
                        | Some next_record \<Rightarrow>
                            Inr (t\<lparr>ct_publications := AList.update jb next_record (ct_publications t)\<rparr>))))
      | _ \<Rightarrow> Inl Out_of_range)"

definition record_usage :: "jsval \<Rightarrow> control_tables \<Rightarrow> state_error + control_tables" where
  "record_usage v t =
     (case validateUsage v of
        None \<Rightarrow> Inl Malformed
      | Some entry \<Rightarrow>
          (case map_of (ct_usage t) (ur_usageId entry) of
             None \<Rightarrow> Inr (t\<lparr>ct_usage := AList.update (ur_usageId entry) entry (ct_usage t)\<rparr>)
           | Some existing \<Rightarrow> if usageRecordsEqual existing entry then Inr t else Inl Conflict))"

definition applyMutation ::
  "(string \<Rightarrow> bool) \<Rightarrow> state_mutation \<Rightarrow> control_tables \<Rightarrow> state_error + control_tables" where
  "applyMutation payload_ok m t =
     (case m of
        Put_installation v \<Rightarrow>
          (case validateInstallation v of
             None \<Rightarrow> Inl Malformed
           | Some r \<Rightarrow> Inr (t\<lparr>ct_installations := AList.update (in_installationId r) r (ct_installations t)\<rparr>))
      | Put_adopted_repository v \<Rightarrow>
          (case validateAdoptedRepository v of
             None \<Rightarrow> Inl Malformed
           | Some r \<Rightarrow> Inr (t\<lparr>ct_adoptedRepositories := AList.update (adopted_key r) r (ct_adoptedRepositories t)\<rparr>))
      | Create_run v \<Rightarrow> create_run v t
      | Transition_run run before after patch nowMs \<Rightarrow> transition_run run before after patch nowMs t
      | Claim_idempotency k binding nowMs expiresAtMs \<Rightarrow> claim_idempotency k binding nowMs expiresAtMs t
      | Release_idempotency k binding nowMs \<Rightarrow> release_idempotency k binding nowMs t
      | Put_publication v \<Rightarrow>
          (case validatePublication payload_ok v of
             None \<Rightarrow> Inl Malformed
           | Some r \<Rightarrow> Inr (t\<lparr>ct_publications := AList.update (pb_jobId r) r (ct_publications t)\<rparr>))
      | Record_publication_attempt jb atMs outcome detail \<Rightarrow>
          record_publication_attempt payload_ok jb atMs outcome detail t
      | Record_usage v \<Rightarrow> record_usage v t)"

section \<open>Batches and leases\<close>

fun apply_staged ::
  "(string \<Rightarrow> bool) \<Rightarrow> state_mutation list \<Rightarrow> control_tables \<Rightarrow> state_error + control_tables" where
  "apply_staged payload_ok [] staged = Inr staged"
| "apply_staged payload_ok (m # ms) staged =
     (case applyMutation payload_ok m staged of
        Inl e \<Rightarrow> Inl e
      | Inr staged' \<Rightarrow> apply_staged payload_ok ms staged')"

definition apply_batch ::
  "(string \<Rightarrow> bool) \<Rightarrow> state_mutation list \<Rightarrow> (state_error, control_tables, unit) sx" where
  "apply_batch payload_ok batch t =
     (case apply_staged payload_ok batch t of Inl e \<Rightarrow> (Inl e, t) | Inr staged \<Rightarrow> (Inr (), staged))"

definition runLeaseIsLive :: "run_record \<Rightarrow> string \<Rightarrow> int \<Rightarrow> bool" where
  "runLeaseIsLive r owner now =
     (owner \<noteq> '''' \<and> rn_leaseOwner r \<noteq> '''' \<and> rn_leaseOwner r = owner \<and> rn_leaseExpiresAtMs r > now)"

definition set_lease :: "run_record \<Rightarrow> string \<Rightarrow> int \<Rightarrow> int \<Rightarrow> run_record" where
  "set_lease r owner expires now =
     r\<lparr>rn_leaseOwner := owner, rn_leaseExpiresAtMs := expires, rn_updatedAtMs := of_int now\<rparr>"

definition claimRun :: "string \<Rightarrow> string \<Rightarrow> jsnum \<Rightarrow> jsnum \<Rightarrow> (state_error, control_tables, bool) sx" where
  "claimRun run owner nowMs ttlMs t =
     (case validateLeaseWindow nowMs ttlMs of
        None \<Rightarrow> (Inl Out_of_range, t)
      | Some (now, expires) \<Rightarrow>
          if validateLeaseOwner owner = None then (Inl Out_of_range, t)
          else (case map_of (ct_runs t) run of
              None \<Rightarrow> (Inr False, t)
            | Some current \<Rightarrow>
                if isTerminalState (rn_state current) then (Inr False, t)
                else if rn_leaseOwner current \<noteq> '''' \<and> rn_leaseOwner current \<noteq> owner \<and>
                  rn_leaseExpiresAtMs current > now then (Inr False, t)
                else (Inr True, t\<lparr>ct_runs := AList.update run (set_lease current owner expires now) (ct_runs t)\<rparr>)))"

definition heartbeatRun :: "string \<Rightarrow> string \<Rightarrow> jsnum \<Rightarrow> jsnum \<Rightarrow> (state_error, control_tables, bool) sx" where
  "heartbeatRun run owner nowMs ttlMs t =
     (case validateLeaseWindow nowMs ttlMs of
        None \<Rightarrow> (Inl Out_of_range, t)
      | Some (now, expires) \<Rightarrow>
          if validateLeaseOwner owner = None then (Inl Out_of_range, t)
          else (case map_of (ct_runs t) run of
              None \<Rightarrow> (Inr False, t)
            | Some current \<Rightarrow>
                if isTerminalState (rn_state current) then (Inr False, t)
                else if \<not> runLeaseIsLive current owner now then (Inr False, t)
                else (Inr True, t\<lparr>ct_runs := AList.update run
                  (current\<lparr>rn_leaseExpiresAtMs := expires, rn_updatedAtMs := of_int now\<rparr>) (ct_runs t)\<rparr>)))"

section \<open>Reads\<close>

definition getInstallation :: "string \<Rightarrow> control_tables \<Rightarrow> installation option" where
  "getInstallation inst t = map_of (ct_installations t) inst"

definition getAdoptedRepository ::
  "forge_platform \<Rightarrow> string \<Rightarrow> string \<Rightarrow> control_tables \<Rightarrow> adopted_repository option" where
  "getAdoptedRepository plat inst repo t = map_of (ct_adoptedRepositories t) (adoptedRepositoryKey plat inst repo)"

definition getRun :: "string \<Rightarrow> control_tables \<Rightarrow> run_record option" where
  "getRun run t = map_of (ct_runs t) run"

definition getPublication :: "string \<Rightarrow> control_tables \<Rightarrow> publication_record option" where
  "getPublication jb t = map_of (ct_publications t) jb"

definition getIdempotencyKey :: "string \<Rightarrow> control_tables \<Rightarrow> idempotency_key option" where
  "getIdempotencyKey k t = map_of (ct_idempotencyKeys t) k"

section \<open>The usage aggregate\<close>

text \<open>The provenance of a row; \<open>None\<close> is \<open>"mixed"\<close>.\<close>

definition aggregateProvenance :: "usage_record list \<Rightarrow> cost_provenance option" where
  "aggregateProvenance es =
     (case es of
        [] \<Rightarrow> Some Unknown_cost
      | e # rest \<Rightarrow>
          if list_ex (\<lambda>x. ur_costProvenance x \<noteq> ur_costProvenance e) es then None
          else Some (ur_costProvenance e))"

text \<open>The double nearest to a non-negative integer.\<close>

definition double_int :: "int \<Rightarrow> int" where
  "double_int n =
     (if n \<le> 2 ^ 53 then n
      else
        let unit_place = 2 ^ (floorlog 2 (nat n) - 53); q = n div unit_place; r = n mod unit_place in
        (if 2 * r > unit_place \<or> 2 * r = unit_place \<and> odd q then q + 1 else q) * unit_place)"

definition sum_of :: "(usage_record \<Rightarrow> int) \<Rightarrow> usage_record list \<Rightarrow> int" where
  "sum_of f es = foldl (\<lambda>acc e. double_int (acc + f e)) 0 es"

record usage_sums =
  us_requestCount :: int
  us_inputTokens :: int
  us_cacheReadTokens :: int
  us_cacheWriteTokens :: int
  us_outputTokens :: int
  us_costMicros :: int
  us_costProvenance :: "cost_provenance option"

definition usage_sums_of :: "usage_record list \<Rightarrow> usage_sums" where
  "usage_sums_of es = \<lparr>us_requestCount = sum_of ur_requestCount es, us_inputTokens = sum_of ur_inputTokens es,
     us_cacheReadTokens = sum_of ur_cacheReadTokens es, us_cacheWriteTokens = sum_of ur_cacheWriteTokens es,
     us_outputTokens = sum_of ur_outputTokens es, us_costMicros = sum_of ur_costMicros es,
     us_costProvenance = aggregateProvenance es\<rparr>"

record usage_row =
  rw_route :: string
  rw_role :: string
  rw_sums :: usage_sums

definition group_key :: "usage_record \<Rightarrow> string" where
  "group_key e = ur_route e @ [CHR 0x00] @ usage_role_str (ur_role e)"

definition add_to_group ::
  "usage_record \<Rightarrow> (string \<times> usage_record list) list \<Rightarrow> (string \<times> usage_record list) list" where
  "add_to_group e groups =
     AList.update (group_key e)
       (case map_of groups (group_key e) of None \<Rightarrow> [e] | Some bucket \<Rightarrow> bucket @ [e]) groups"

definition usage_groups :: "control_tables \<Rightarrow> (string \<times> usage_record list) list" where
  "usage_groups t = fold add_to_group (map snd (ct_usage t)) []"

definition row_of_group :: "string \<times> usage_record list \<Rightarrow> usage_row" where
  "row_of_group g =
     (case split_sep (CHR 0x00) (fst g) of
        route # role # _ \<Rightarrow> \<lparr>rw_route = route, rw_role = role, rw_sums = usage_sums_of (snd g)\<rparr>
      | _ \<Rightarrow> \<lparr>rw_route = fst g, rw_role = '''', rw_sums = usage_sums_of (snd g)\<rparr>)"

definition aggregateUsage :: "control_tables \<Rightarrow> usage_row list \<times> usage_sums" where
  "aggregateUsage t =
     (sort_key (\<lambda>row. (rw_route row, rw_role row)) (map row_of_group (usage_groups t)),
      usage_sums_of (concat (map snd (usage_groups t))))"

section \<open>Restart\<close>

record state_export =
  sx_installations :: "installation list"
  sx_adoptedRepositories :: "adopted_repository list"
  sx_runs :: "run_record list"
  sx_idempotencyKeys :: "idempotency_key list"
  sx_publications :: "publication_record list"
  sx_usage :: "usage_record list"

definition exportState :: "control_tables \<Rightarrow> state_export" where
  "exportState t = \<lparr>sx_installations = map snd (ct_installations t),
     sx_adoptedRepositories = map snd (ct_adoptedRepositories t), sx_runs = map snd (ct_runs t),
     sx_idempotencyKeys = map snd (ct_idempotencyKeys t), sx_publications = map snd (ct_publications t),
     sx_usage = map snd (ct_usage t)\<rparr>"

text \<open>The exported object as a value of type \<open>unknown\<close>.\<close>

definition export_js :: "state_export \<Rightarrow> jsval" where
  "export_js x = JObj [(''version'', js_int 1), (''installations'', JArr (map installation_js (sx_installations x))),
     (''adoptedRepositories'', JArr (map adopted_js (sx_adoptedRepositories x))),
     (''runs'', JArr (map run_js (sx_runs x))),
     (''idempotencyKeys'', JArr (map idempotency_js (sx_idempotencyKeys x))),
     (''publications'', JArr (map (\<lambda>p. publication_js p (Fin (of_int (pb_updatedAtMs p)))) (sx_publications x))),
     (''usage'', JArr (map usage_js (sx_usage x)))]"

text \<open>One of the six loops: validate, refuse a repeated identity, collect.\<close>

fun parse_records ::
  "(jsval \<Rightarrow> 'r option) \<Rightarrow> ('r \<Rightarrow> string) \<Rightarrow> string list \<Rightarrow> jsval list \<Rightarrow> 'r list option" where
  "parse_records validate identity seen [] = Some []"
| "parse_records validate identity seen (element # rest) =
     (case validate element of
        None \<Rightarrow> None
      | Some r \<Rightarrow>
          if identity r \<in> set seen then None
          else (case parse_records validate identity (identity r # seen) rest of
              None \<Rightarrow> None
            | Some rs \<Rightarrow> Some (r # rs)))"

definition js_array :: "jsval \<Rightarrow> jsval list option" where
  "js_array v = (case v of JArr items \<Rightarrow> Some items | _ \<Rightarrow> None)"

definition parseStateExport :: "(string \<Rightarrow> bool) \<Rightarrow> jsval \<Rightarrow> state_export option" where
  "parseStateExport payload_ok v =
     (case v of
        JObj ps \<Rightarrow> do {
          require_that (get_prop ps ''version'' = js_int 1);
          vi \<leftarrow> js_array (get_prop ps ''installations'');
          va \<leftarrow> js_array (get_prop ps ''adoptedRepositories'');
          vr \<leftarrow> js_array (get_prop ps ''runs'');
          vk \<leftarrow> js_array (get_prop ps ''idempotencyKeys'');
          vp \<leftarrow> js_array (get_prop ps ''publications'');
          vu \<leftarrow> js_array (get_prop ps ''usage'');
          ri \<leftarrow> parse_records validateInstallation in_installationId [] vi;
          ra \<leftarrow> parse_records validateAdoptedRepository adopted_key [] va;
          rr \<leftarrow> parse_records validateRun rn_runId [] vr;
          rk \<leftarrow> parse_records validateIdempotencyKey ik_key [] vk;
          rp \<leftarrow> parse_records (validatePublication payload_ok) pb_jobId [] vp;
          ru \<leftarrow> parse_records validateUsage ur_usageId [] vu;
          Some \<lparr>sx_installations = ri, sx_adoptedRepositories = ra, sx_runs = rr, sx_idempotencyKeys = rk,
            sx_publications = rp, sx_usage = ru\<rparr>
        }
      | _ \<Rightarrow> None)"

text \<open>\<open>new Map(records.map((r) => [key(r), r]))\<close>\<close>

definition map_from :: "('r \<Rightarrow> string) \<Rightarrow> 'r list \<Rightarrow> (string \<times> 'r) list" where
  "map_from identity rs = fold (\<lambda>r. AList.update (identity r) r) rs []"

definition new_control_store :: "(string \<Rightarrow> bool) \<Rightarrow> state_export option \<Rightarrow> control_tables option" where
  "new_control_store payload_ok seed =
     (case seed of
        None \<Rightarrow> Some empty_tables
      | Some x \<Rightarrow>
          (case parseStateExport payload_ok (export_js x) of
             None \<Rightarrow> None
           | Some exported \<Rightarrow> Some \<lparr>
               ct_installations = map_from in_installationId (sx_installations exported),
               ct_adoptedRepositories = map_from adopted_key (sx_adoptedRepositories exported),
               ct_runs = map_from rn_runId (sx_runs exported),
               ct_idempotencyKeys = map_from ik_key (sx_idempotencyKeys exported),
               ct_publications = map_from pb_jobId (sx_publications exported),
               ct_usage = map_from ur_usageId (sx_usage exported)\<rparr>))"

definition seedControlPlaneStore :: "(string \<Rightarrow> bool) \<Rightarrow> jsval \<Rightarrow> control_tables option" where
  "seedControlPlaneStore payload_ok v =
     (case parseStateExport payload_ok v of None \<Rightarrow> None | Some x \<Rightarrow> new_control_store payload_ok (Some x))"

end
