(* ===== verification/Control_Properties.thy ===== *)
theory Control_Properties
  imports Control_Store "HOL-Library.Multiset"
begin

text \<open>
  What the control-plane store guarantees over any history of batches, claims and heartbeats: valid
  tables and a restart that loses nothing, runs that follow the lifecycle, leases that never overlap,
  keys bound to one piece of work, usage counted once and publication histories that are bounded.
\<close>

section \<open>Histories\<close>

datatype control_op =
    Op_apply "state_mutation list"
  | Op_claim string string jsnum jsnum
  | Op_heartbeat string string jsnum jsnum

fun control_step :: "(string \<Rightarrow> bool) \<Rightarrow> control_op \<Rightarrow> control_tables \<Rightarrow> control_tables" where
  "control_step payload_ok (Op_apply batch) t = snd (apply_batch payload_ok batch t)"
| "control_step payload_ok (Op_claim run owner now ttl) t = snd (claimRun run owner now ttl t)"
| "control_step payload_ok (Op_heartbeat run owner now ttl) t = snd (heartbeatRun run owner now ttl t)"

text \<open>The clock of a transition, as \<open>Date.now()\<close> gives it.\<close>

fun whole_clock :: "state_mutation \<Rightarrow> bool" where
  "whole_clock (Transition_run run before after patch now) = (isSafeNonNegativeInteger (JNum now) \<noteq> None)"
| "whole_clock _ = True"

fun clocked :: "control_op \<Rightarrow> bool" where
  "clocked (Op_apply batch) = list_all whole_clock batch"
| "clocked _ = True"

text \<open>A property of the tables that every mutation keeps is kept by every batch.\<close>

lemma apply_staged_keeps:
  assumes "apply_staged p ms t = Inr t'" and "list_all Q ms" and "I t"
    and "\<And>m t t'. Q m \<Longrightarrow> I t \<Longrightarrow> applyMutation p m t = Inr t' \<Longrightarrow> I t'"
  shows "I t'"
  using assms(1-3) by (induction ms arbitrary: t) (auto split: sum.splits intro: assms(4))

lemma apply_batch_cases:
  obtains e where "apply_batch p batch t = (Inl e, t)" and "apply_staged p batch t = Inl e"
  | t' where "apply_batch p batch t = (Inr (), t')" and "apply_staged p batch t = Inr t'"
  by (cases "apply_staged p batch t") (auto simp: apply_batch_def)

lemma step_keeps:
  assumes "I t"
    and mutations: "\<And>m t t'. Q m \<Longrightarrow> I t \<Longrightarrow> applyMutation p m t = Inr t' \<Longrightarrow> I t'"
    and batch: "\<And>b. c = Op_apply b \<Longrightarrow> list_all Q b"
    and claim: "\<And>run owner now ttl t'. c = Op_claim run owner now ttl \<Longrightarrow> claimRun run owner now ttl t = (Inr True, t') \<Longrightarrow> I t'"
    and beat: "\<And>run owner now ttl t'. c = Op_heartbeat run owner now ttl \<Longrightarrow> heartbeatRun run owner now ttl t = (Inr True, t') \<Longrightarrow> I t'"
  shows "I (control_step p c t)"
proof (cases c)
  case (Op_apply b)
  have "I t'" if "apply_staged p b t = Inr t'" for t'
    using that batch [OF Op_apply] assms(1) mutations by (rule apply_staged_keeps)
  then show ?thesis using Op_apply assms(1) by (cases rule: apply_batch_cases [of p b t]) auto
next
  case (Op_claim run owner now ttl)
  have "snd (claimRun run owner now ttl t) = t \<or> fst (claimRun run owner now ttl t) = Inr True"
    by (auto simp: claimRun_def split: option.split prod.split)
  then show ?thesis using claim [OF Op_claim] assms(1) Op_claim by (auto simp: prod_eq_iff)
next
  case (Op_heartbeat run owner now ttl)
  have "snd (heartbeatRun run owner now ttl t) = t \<or> fst (heartbeatRun run owner now ttl t) = Inr True"
    by (auto simp: heartbeatRun_def split: option.split prod.split)
  then show ?thesis using beat [OF Op_heartbeat] assms(1) Op_heartbeat by (auto simp: prod_eq_iff)
qed

lemma claim_granted:
  "claimRun run owner nowMs ttlMs t = (Inr True, t') \<longleftrightarrow>
     (\<exists>now expires current. validateLeaseWindow nowMs ttlMs = Some (now, expires) \<and> validateLeaseOwner owner \<noteq> None \<and>
        map_of (ct_runs t) run = Some current \<and> \<not> isTerminalState (rn_state current) \<and>
        (rn_leaseOwner current = '''' \<or> rn_leaseOwner current = owner \<or> rn_leaseExpiresAtMs current \<le> now) \<and>
        t' = t\<lparr>ct_runs := AList.update run (set_lease current owner expires now) (ct_runs t)\<rparr>)"
  by (auto simp: claimRun_def split: option.split prod.split)

lemma heartbeat_granted:
  "heartbeatRun run owner nowMs ttlMs t = (Inr True, t') \<longleftrightarrow>
     (\<exists>now expires current. validateLeaseWindow nowMs ttlMs = Some (now, expires) \<and> validateLeaseOwner owner \<noteq> None \<and>
        map_of (ct_runs t) run = Some current \<and> \<not> isTerminalState (rn_state current) \<and>
        rn_leaseOwner current = owner \<and> owner \<noteq> '''' \<and> rn_leaseExpiresAtMs current > now \<and>
        t' = t\<lparr>ct_runs := AList.update run (set_lease current owner expires now) (ct_runs t)\<rparr>)"
proof -
  have "current\<lparr>rn_leaseExpiresAtMs := x, rn_updatedAtMs := u\<rparr> =
      current\<lparr>rn_leaseOwner := rn_leaseOwner current, rn_leaseExpiresAtMs := x, rn_updatedAtMs := u\<rparr>" for current x u
    by simp
  then show ?thesis
    by (auto simp: heartbeatRun_def runLeaseIsLive_def set_lease_def split: option.split prod.split)
qed

section \<open>Valid tables\<close>

definition table_ok :: "('r \<Rightarrow> bool) \<Rightarrow> ('r \<Rightarrow> string) \<Rightarrow> (string \<times> 'r) list \<Rightarrow> bool" where
  "table_ok valid identity m \<longleftrightarrow> map_ok m \<and> (\<forall>(k, r) \<in> set m. identity r = k \<and> valid r)"

definition tables_ok :: "(string \<Rightarrow> bool) \<Rightarrow> control_tables \<Rightarrow> bool" where
  "tables_ok p t \<longleftrightarrow> table_ok installation_ok in_installationId (ct_installations t) \<and>
     table_ok adopted_ok adopted_key (ct_adoptedRepositories t) \<and> table_ok run_ok rn_runId (ct_runs t) \<and>
     table_ok key_ok ik_key (ct_idempotencyKeys t) \<and> table_ok (publication_ok p) pb_jobId (ct_publications t) \<and>
     table_ok usage_record_ok ur_usageId (ct_usage t)"

lemma table_ok_iff:
  "table_ok valid identity m \<longleftrightarrow> map_ok m \<and> (\<forall>k r. map_of m k = Some r \<longrightarrow> identity r = k \<and> valid r)"
  by (auto simp: table_ok_def dest: map_of_SomeD)

lemma table_ok_update:
  "table_ok valid identity m \<Longrightarrow> valid r \<Longrightarrow> identity r = k \<Longrightarrow> table_ok valid identity (AList.update k r m)"
  by (simp add: table_ok_iff AList_map_ok_update)

lemma table_ok_delete: "table_ok valid identity m \<Longrightarrow> table_ok valid identity (AList.delete k m)"
  by (simp add: table_ok_iff AList_map_ok_delete)

lemma table_ok_lookup: "table_ok valid identity m \<Longrightarrow> map_of m k = Some r \<Longrightarrow> identity r = k \<and> valid r"
  by (simp add: table_ok_iff)

lemma table_ok_Nil [simp]: "table_ok valid identity []"
  by (simp add: table_ok_def)

text \<open>A transition with a whole clock, a claim and a renewal write valid runs.\<close>

lemma patch_field_ok:
  "patch_field validate v = Some p \<Longrightarrow> (\<And>s. validate v = Some s \<Longrightarrow> f s) \<Longrightarrow> f old \<Longrightarrow> f (patched p old)"
  by (auto simp: patch_field_def patched_def split: if_splits option.splits)

lemma validateRunPatch_ok:
  assumes "validateRunPatch patch = Some (head, why, by_job)"
  shows "opt_form sha_form old \<Longrightarrow> opt_form sha_form (patched head old)"
    and "opt_form (\<lambda>s. id_form s REASON_MAX_CHARS) old \<Longrightarrow> opt_form (\<lambda>s. id_form s REASON_MAX_CHARS) (patched why old)"
    and "opt_form (\<lambda>s. id_form s 256) old \<Longrightarrow> opt_form (\<lambda>s. id_form s 256) (patched by_job old)"
  using assms
  by (auto simp: validateRunPatch_def patched_def patch_field_def field_iffs split: option.splits bind_splits if_splits)

lemma transition_run_cases:
  assumes "transition_run run before after patch nowMs t = Inr t'"
  obtains now current r head why by_job where "nowMs = Fin now" and "canTransition before after"
    and "map_of (ct_runs t) run = Some current" and "rn_state current = before"
    and "validateRunPatch patch = Some (head, why, by_job)"
    and "r = current\<lparr>rn_state := after,
        rn_resultHeadSha := patched head (rn_resultHeadSha current),
        rn_failureReason := patched why (rn_failureReason current),
        rn_supersededByJobId := patched by_job (rn_supersededByJobId current),
        rn_leaseOwner := (if isTerminalState after then '''' else rn_leaseOwner current),
        rn_leaseExpiresAtMs := (if isTerminalState after then 0 else rn_leaseExpiresAtMs current),
        rn_startedAtMs := (if after = Running \<and> rn_startedAtMs current = 0 then now else rn_startedAtMs current),
        rn_finishedAtMs := (if isTerminalState after then now else rn_finishedAtMs current),
        rn_updatedAtMs := now\<rparr>"
    and "t' = t\<lparr>ct_runs := AList.update run r (ct_runs t)\<rparr>"
  using assms that
  by (cases nowMs; cases "map_of (ct_runs t) run"; cases "validateRunPatch patch")
    (auto simp: transition_run_def Let_def split: if_splits)

lemma transition_run_ok:
  assumes "transition_run run before after patch nowMs t = Inr t'" and "isSafeNonNegativeInteger (JNum nowMs) \<noteq> None"
    and "table_ok run_ok rn_runId (ct_runs t)"
  shows "table_ok run_ok rn_runId (ct_runs t')"
  using assms(1)
proof (cases rule: transition_run_cases)
  case (1 now current r head why by_job)
  have c: "rn_runId current = run" "run_ok current"
    using table_ok_lookup [OF assms(3) 1(3)] by simp_all
  obtain i where i: "now = of_int i" "counter i"
    using assms(2) 1(1) by (auto simp: isSafeNonNegativeInteger_Some js_int_def)
  have now: "whole now" using i by blast
  have "counter 0" by (simp add: counter_def max_safe_integer_def)
  with c(2) now validateRunPatch_ok [OF 1(5)] show ?thesis
    unfolding 1(6,7) by (auto intro!: table_ok_update assms(3) simp: run_ok_def opt_form_def [of _ "''''"] c(1))
qed

lemma set_lease_ok:
  assumes "validateLeaseWindow nowMs ttlMs = Some (now, expires)" and "validateLeaseOwner owner \<noteq> None" and "run_ok r"
  shows "run_ok (set_lease r owner expires now)"
proof -
  have "counter now" "counter expires"
    using assms(1) by (auto simp: validateLeaseWindow_def field_iffs counter_def split: bind_splits)
  moreover have "id_form owner 64" using assms(2) by (auto simp: validateLeaseOwner_def field_iffs)
  ultimately show ?thesis using assms(3) by (auto simp: run_ok_def set_lease_def opt_form_def)
qed

lemma claim_idempotency_cases:
  assumes "claim_idempotency k b nowMs expMs t = Inr t'"
  obtains (held) existing now where "t' = t" and "nowMs = Fin now" and "map_of (ct_idempotencyKeys t) k = Some existing"
      and "ik_binding existing = b"
  | (taken) r now where "t' = t\<lparr>ct_idempotencyKeys := AList.update k r (ct_idempotencyKeys t)\<rparr>" and "nowMs = Fin now"
      and "key_ok r" and "ik_key r = k" and "ik_binding r = b"
      and "\<And>existing. map_of (ct_idempotencyKeys t) k = Some existing \<Longrightarrow>
        ik_expiresAtMs existing \<noteq> 0 \<and> of_int (ik_expiresAtMs existing) \<le> now"
proof -
  obtain now expires where n: "nowMs = Fin now" "expMs = Fin expires"
    using assms by (cases nowMs; cases expMs) (auto simp: claim_idempotency_def)
  obtain r where r: "validateIdempotencyKey (key_js k b nowMs expMs) = Some r"
    using assms n by (cases "validateIdempotencyKey (key_js k b nowMs expMs)") (auto simp: claim_idempotency_def split: if_splits)
  have kb: "ik_key r = k" "ik_binding r = b"
    using r by (auto simp: validateIdempotencyKey_def key_js_def field_iffs split: bind_splits)
  show ?thesis
    using assms that(1) [OF _ n(1)] that(2) [OF _ n(1) validateIdempotencyKey_ok [OF r] kb] n r
    by (auto simp: claim_idempotency_def Let_def split: if_splits option.splits)
qed

lemma release_idempotency_cases:
  assumes "release_idempotency k b nowMs t = Inr t'"
  obtains (absent) "t' = t" and "map_of (ct_idempotencyKeys t) k = None"
  | (freed) existing now where "t' = t\<lparr>ct_idempotencyKeys := AList.delete k (ct_idempotencyKeys t)\<rparr>" and "nowMs = Fin now"
      and "map_of (ct_idempotencyKeys t) k = Some existing"
      and "ik_binding existing = b \<or> ik_expiresAtMs existing \<noteq> 0 \<and> of_int (ik_expiresAtMs existing) \<le> now"
  using assms that
  by (cases nowMs) (auto simp: release_idempotency_def Let_def split: if_splits option.splits)

lemma publication_str_inject [simp]:
  "publication_state_str a = publication_state_str b \<longleftrightarrow> a = b"
  "publication_outcome_str c = publication_outcome_str d \<longleftrightarrow> c = d"
  by (cases a; cases b, simp_all) (cases c; cases d, simp_all)

lemma JNum_int: "JNum n = js_int i \<longleftrightarrow> n = Fin (of_int i)"
  by (simp add: js_int_def)

lemma history_entry_js:
  "validatePublicationHistoryEntry (history_js moment out det) = Some e \<longleftrightarrow>
    entry_ok e \<and> moment = Fin (of_int (he_atMs e)) \<and> he_outcome e = out \<and> he_detail e = det"
  by (cases e) (auto simp: validatePublicationHistoryEntry_def history_js_def entry_ok_def field_iffs decode_fields JNum_int
      split: bind_splits)

lemma validate_history_eq: "validate_history (map entry_js es) = Some xs \<Longrightarrow> xs = es"
  by (induction es arbitrary: xs) (auto simp: entry_js_def history_entry_js split: option.splits)

lemma validatePublication_js:
  "validatePublication p (publication_js r moment) = Some r' \<Longrightarrow>
    \<exists>i. moment = Fin (of_int i) \<and> r' = r\<lparr>pb_updatedAtMs := i\<rparr>"
  unfolding validatePublication_def publication_js_def
  by (auto simp: field_iffs js_int_def dest: validate_history_eq split: bind_splits)

lemma record_publication_attempt_cases:
  assumes "record_publication_attempt p jb atMs outcome detail t = Inr t'"
  obtains i current r where "atMs = Fin (of_int i)" and "map_of (ct_publications t) jb = Some current"
    and "entry_ok \<lparr>he_atMs = i, he_outcome = outcome, he_detail = detail\<rparr>" and "publication_ok p r"
    and "r = current\<lparr>pb_attempt := pb_attempt current + 1,
        pb_publicationState := (case outcome of Out_published \<Rightarrow> Pub_published
          | Out_failed \<Rightarrow> Pub_failed | Out_attempt \<Rightarrow> pb_publicationState current),
        pb_lastError := (if outcome = Out_failed then detail else pb_lastError current),
        pb_history := cap_history (pb_history current @ [\<lparr>he_atMs = i, he_outcome = outcome, he_detail = detail\<rparr>]),
        pb_updatedAtMs := i\<rparr>"
    and "t' = t\<lparr>ct_publications := AList.update jb r (ct_publications t)\<rparr>"
proof -
  obtain q where q: "atMs = Fin q"
    using assms by (cases atMs) (auto simp: record_publication_attempt_def)
  obtain current where current: "map_of (ct_publications t) jb = Some current"
    using assms by (auto simp: record_publication_attempt_def q split: option.splits)
  obtain e where e: "validatePublicationHistoryEntry (history_js atMs outcome detail) = Some e"
    using assms by (auto simp: record_publication_attempt_def q current split: option.splits)
  then have e': "e = \<lparr>he_atMs = he_atMs e, he_outcome = outcome, he_detail = detail\<rparr>" "entry_ok e"
      "atMs = Fin (of_int (he_atMs e))"
    by (auto simp: history_entry_js)
  obtain r where r: "validatePublication p (publication_js (current\<lparr>pb_attempt := pb_attempt current + 1,
        pb_publicationState := (case outcome of Out_published \<Rightarrow> Pub_published
          | Out_failed \<Rightarrow> Pub_failed | Out_attempt \<Rightarrow> pb_publicationState current),
        pb_lastError := (if outcome = Out_failed then detail else pb_lastError current),
        pb_history := cap_history (pb_history current @ [e])\<rparr>) atMs) = Some r"
      "t' = t\<lparr>ct_publications := AList.update jb r (ct_publications t)\<rparr>"
    using assms e by (auto simp: record_publication_attempt_def q current Let_def split: option.splits)
  from validatePublication_js [OF r(1)] e'(1,3) validatePublication_ok [OF r(1)] r(2) show ?thesis
    by (intro that [of "he_atMs e" current r]) (use current e' in auto)
qed

section \<open>The invariant of the tables\<close>

lemma applyMutation_ok:
  assumes "whole_clock m" and "tables_ok p t" and "applyMutation p m t = Inr t'"
  shows "tables_ok p t'"
proof (cases m)
  case (Create_run v)
  with assms show ?thesis
    by (auto simp: applyMutation_def tables_ok_def create_run_def split: option.splits if_splits
        intro!: table_ok_update dest!: validateRun_ok)
next
  case (Transition_run run before after patch now)
  then have "transition_run run before after patch now t = Inr t'" "isSafeNonNegativeInteger (JNum now) \<noteq> None"
    using assms by (simp_all add: applyMutation_def)
  moreover from this(1) have "\<exists>rs. t' = t\<lparr>ct_runs := rs\<rparr>" by (cases rule: transition_run_cases) blast
  ultimately show ?thesis using assms(2) transition_run_ok by (auto simp: tables_ok_def)
next
  case (Claim_idempotency k b now x)
  then have "claim_idempotency k b now x t = Inr t'" using assms by (simp add: applyMutation_def)
  then show ?thesis
    using assms(2) by (cases rule: claim_idempotency_cases) (auto simp: tables_ok_def intro: table_ok_update)
next
  case (Release_idempotency k b now)
  then have "release_idempotency k b now t = Inr t'" using assms by (simp add: applyMutation_def)
  then show ?thesis
    using assms(2) by (cases rule: release_idempotency_cases) (auto simp: tables_ok_def intro: table_ok_delete)
next
  case (Record_publication_attempt jb atMs outcome detail)
  then have "record_publication_attempt p jb atMs outcome detail t = Inr t'"
    using assms by (simp add: applyMutation_def)
  then show ?thesis
  proof (cases rule: record_publication_attempt_cases)
    case (1 i current r)
    then have "pb_jobId r = jb"
      using table_ok_lookup [of "publication_ok p" pb_jobId "ct_publications t" jb current] assms(2)
      by (simp add: tables_ok_def)
    then show ?thesis using assms(2) 1(4,6) by (auto simp: tables_ok_def intro: table_ok_update)
  qed
next
  case (Record_usage v)
  with assms show ?thesis
    by (auto simp: applyMutation_def tables_ok_def record_usage_def split: option.splits if_splits
        intro!: table_ok_update dest!: validateUsage_ok)
qed (use assms in \<open>auto simp: applyMutation_def tables_ok_def split: option.splits
    intro!: table_ok_update dest!: validateInstallation_ok validateAdoptedRepository_ok validatePublication_ok\<close>)

lemma control_step_ok:
  assumes "clocked c" and "tables_ok p t"
  shows "tables_ok p (control_step p c t)"
proof (rule step_keeps [where Q = whole_clock])
  show "list_all whole_clock b" if "c = Op_apply b" for b using assms(1) that by simp
  fix run owner now ttl t'
  have "tables_ok p t'" if "\<exists>n x current. validateLeaseWindow now ttl = Some (n, x) \<and> validateLeaseOwner owner \<noteq> None \<and>
      map_of (ct_runs t) run = Some current \<and>
      t' = t\<lparr>ct_runs := AList.update run (set_lease current owner x n) (ct_runs t)\<rparr>"
  proof -
    obtain n x current where l: "validateLeaseWindow now ttl = Some (n, x)" "validateLeaseOwner owner \<noteq> None"
        "map_of (ct_runs t) run = Some current"
        "t' = t\<lparr>ct_runs := AList.update run (set_lease current owner x n) (ct_runs t)\<rparr>"
      using \<open>\<exists>n x current. _\<close> by blast
    have "rn_runId current = run" "run_ok current"
      using table_ok_lookup [of run_ok rn_runId "ct_runs t" run current] assms(2) l(3) by (simp_all add: tables_ok_def)
    then show ?thesis
      using assms(2) set_lease_ok [OF l(1,2)] by (auto simp: tables_ok_def l(4) set_lease_def intro!: table_ok_update)
  qed
  note lease = this
  show "tables_ok p t'" if "claimRun run owner now ttl t = (Inr True, t')"
    by (rule lease) (use that in \<open>auto simp: claim_granted\<close>)
  show "tables_ok p t'" if "heartbeatRun run owner now ttl t = (Inr True, t')"
    by (rule lease) (use that in \<open>auto simp: heartbeat_granted\<close>)
qed (use assms(2) applyMutation_ok in auto)

interpretation control: event_system "control_step p" clocked "tables_ok p" for p
  by unfold_locales (rule control_step_ok)

lemma empty_tables_ok: "tables_ok p empty_tables"
  by (simp add: tables_ok_def empty_tables_def)

section \<open>Restart\<close>

lemma parse_records_written:
  assumes "list_all valid rs" and "\<And>r. valid r \<Longrightarrow> validate (write r) = Some r"
    and "distinct (map identity rs)" and "set seen \<inter> identity ` set rs = {}"
  shows "parse_records validate identity seen (map write rs) = Some rs"
  using assms(1,3,4) by (induction rs arbitrary: seen) (auto simp: assms(2))

lemma table_values:
  assumes "table_ok valid identity m"
  shows "list_all valid (map snd m)" and "map identity (map snd m) = map fst m" and "map_from identity (map snd m) = m"
proof -
  have m: "map_ok m" "\<forall>(k, r) \<in> set m. identity r = k \<and> valid r" using assms by (simp_all add: table_ok_def)
  show "list_all valid (map snd m)" using m(2) by (auto simp: list_all_iff)
  show keys: "map identity (map snd m) = map fst m" using m(2) by auto
  have "fold (\<lambda>r. AList.update (identity r) r) (map snd m') (m0) = m0 @ m'"
    if "map_ok (m0 @ m')" "\<forall>(k, r) \<in> set m'. identity r = k" for m0 m'
    using that
  proof (induction m' arbitrary: m0)
    case (Cons a m')
    obtain k r where a: "a = (k, r)" by (cases a)
    have "AList.update k r m0 = m0 @ [(k, r)]" if "k \<notin> fst ` set m0" for m0
      using that by (induction m0) auto
    then have "AList.update k r m0 = m0 @ [(k, r)]" using Cons.prems(1) a by auto
    then show ?case using Cons.IH [of "m0 @ [(k, r)]"] Cons.prems a by simp
  qed simp
  from this [of "[]" m] m show "map_from identity (map snd m) = m" by (auto simp: map_from_def)
qed

lemma parse_table:
  assumes "table_ok valid identity m" and "\<And>r. valid r \<Longrightarrow> validate (write r) = Some r"
  shows "parse_records validate identity [] (map write (map snd m)) = Some (map snd m)"
proof (rule parse_records_written)
  show "list_all valid (map snd m)" using assms(1) by (rule table_values)
  show "distinct (map identity (map snd m))"
    unfolding table_values(2) [OF assms(1)] using assms(1) by (simp add: table_ok_def)
qed (simp_all add: assms(2))

lemma parse_export:
  assumes "tables_ok p t"
  shows "parseStateExport p (export_js (exportState t)) = Some (exportState t)"
proof -
  have "parse_records validateInstallation in_installationId [] (map installation_js (map snd (ct_installations t))) =
      Some (map snd (ct_installations t))"
    "parse_records validateAdoptedRepository adopted_key [] (map adopted_js (map snd (ct_adoptedRepositories t))) =
      Some (map snd (ct_adoptedRepositories t))"
    "parse_records validateRun rn_runId [] (map run_js (map snd (ct_runs t))) = Some (map snd (ct_runs t))"
    "parse_records validateIdempotencyKey ik_key [] (map idempotency_js (map snd (ct_idempotencyKeys t))) =
      Some (map snd (ct_idempotencyKeys t))"
    "parse_records (validatePublication p) pb_jobId []
        (map (\<lambda>p. publication_js p (Fin (of_int (pb_updatedAtMs p)))) (map snd (ct_publications t))) =
      Some (map snd (ct_publications t))"
    "parse_records validateUsage ur_usageId [] (map usage_js (map snd (ct_usage t))) = Some (map snd (ct_usage t))"
    using assms unfolding tables_ok_def
    by (auto simp del: map_map intro!: parse_table validate_installation_js validate_adopted_js validate_run_js
        validate_idempotency_js validate_publication_js validate_usage_js)
  then show ?thesis
    by (simp add: parseStateExport_def export_js_def exportState_def js_array_def del: map_map)
qed

lemma seed_export:
  assumes "tables_ok p t"
  shows "seedControlPlaneStore p (export_js (exportState t)) = Some t"
proof -
  have "map_from in_installationId (map snd (ct_installations t)) = ct_installations t"
    "map_from adopted_key (map snd (ct_adoptedRepositories t)) = ct_adoptedRepositories t"
    "map_from rn_runId (map snd (ct_runs t)) = ct_runs t"
    "map_from ik_key (map snd (ct_idempotencyKeys t)) = ct_idempotencyKeys t"
    "map_from pb_jobId (map snd (ct_publications t)) = ct_publications t"
    "map_from ur_usageId (map snd (ct_usage t)) = ct_usage t"
    using assms by (auto simp: tables_ok_def intro: table_values(3))
  then show ?thesis
    by (simp add: seedControlPlaneStore_def new_control_store_def parse_export [OF assms]) (simp add: exportState_def)
qed

text \<open>C18: A restart loses nothing and adopts nothing else. Whatever batches, claims and heartbeats a store has
  processed, with transition clocks as \<open>Date.now()\<close> gives them, the export it writes is accepted by the
  fail-closed parser, and the store seeded from it has exactly the same tables, in the same order.\<close>

theorem restart_adopts_everything:
  assumes "list_all clocked history"
  shows "seedControlPlaneStore p (export_js (exportState (fold (control_step p) history empty_tables))) =
    Some (fold (control_step p) history empty_tables)"
  by (rule seed_export, rule control.run_inv [OF assms empty_tables_ok])

theorem restart_adopts_everything_witness:
  "seedControlPlaneStore (\<lambda>_. True) (export_js (exportState
     (fold (control_step (\<lambda>_. True)) [Op_apply [Claim_idempotency ''k'' ''w'' (Fin 5) (Fin 0)]] empty_tables))) =
   Some (fold (control_step (\<lambda>_. True)) [Op_apply [Claim_idempotency ''k'' ''w'' (Fin 5) (Fin 0)]] empty_tables)"
  by (rule restart_adopts_everything) simp

lemma parse_records_refuses:
  assumes "v \<in> set vs" and "validate v = None"
  shows "parse_records validate identity seen vs = None"
  using assms by (induction vs arbitrary: seen) (auto split: option.split)

text \<open>A run with a time stamp that is no whole number is refused by the parser of the export.\<close>

lemma export_refused:
  assumes "map_of (ct_runs t) run = Some r" and "\<not> whole (rn_updatedAtMs r) \<or> \<not> whole (rn_startedAtMs r)"
  shows "seedControlPlaneStore p (export_js (exportState t)) = None"
proof -
  have "validateRun (run_js r) = None"
  proof (rule ccontr)
    assume "validateRun (run_js r) \<noteq> None"
    then obtain i j where "js_rat (rn_updatedAtMs r) = js_int i" "counter i"
        "js_rat (rn_startedAtMs r) = js_int j" "counter j"
      by (auto simp: validateRun_def run_js_def field_iffs split: bind_splits)
    then show False using assms(2) by (auto simp: js_rat_int)
  qed
  moreover have "run_js r \<in> set (map run_js (sx_runs (exportState t)))"
    using map_of_SomeD [OF assms(1)] by (force simp: exportState_def)
  ultimately have "parse_records validateRun rn_runId [] (map run_js (sx_runs (exportState t))) = None"
    by (metis parse_records_refuses)
  then have "parseStateExport p (export_js (exportState t)) = None"
    by (auto simp: parseStateExport_def export_js_def js_array_def split: bind_splits)
  then show ?thesis by (simp add: seedControlPlaneStore_def)
qed

section \<open>Runs\<close>

definition run_follows :: "run_record \<Rightarrow> run_record \<Rightarrow> bool" where
  "run_follows r r' \<longleftrightarrow> rn_runId r' = rn_runId r \<and> rn_jobId r' = rn_jobId r \<and> rn_kind r' = rn_kind r \<and>
     rn_executorIdentity r' = rn_executorIdentity r \<and> rn_attempt r' = rn_attempt r \<and> rn_headSha r' = rn_headSha r \<and>
     rn_configFingerprint r' = rn_configFingerprint r \<and> rn_createdAtMs r' = rn_createdAtMs r \<and>
     (rn_startedAtMs r \<noteq> 0 \<longrightarrow> rn_startedAtMs r' = rn_startedAtMs r) \<and>
     canTransition\<^sup>*\<^sup>* (rn_state r) (rn_state r') \<and> (isTerminalState (rn_state r) \<longrightarrow> r' = r)"

definition runs_follow :: "control_tables \<Rightarrow> control_tables \<Rightarrow> bool" where
  "runs_follow t t' \<longleftrightarrow>
     (\<forall>run r. map_of (ct_runs t) run = Some r \<longrightarrow> (\<exists>r'. map_of (ct_runs t') run = Some r' \<and> run_follows r r'))"

lemma run_follows_refl [simp]: "run_follows r r"
  by (simp add: run_follows_def)

lemma run_follows_trans: "run_follows a b \<Longrightarrow> run_follows b c \<Longrightarrow> run_follows a c"
  by (auto simp: run_follows_def intro: rtranclp_trans)

lemma runs_follow_refl [simp]: "runs_follow t t"
  by (auto simp: runs_follow_def)

lemma runs_followI:
  "(\<And>run r. map_of (ct_runs t) run = Some r \<Longrightarrow> \<exists>r'. map_of (ct_runs t') run = Some r' \<and> run_follows r r') \<Longrightarrow>
    runs_follow t t'"
  by (simp add: runs_follow_def)

lemma runs_followD:
  "runs_follow t t' \<Longrightarrow> map_of (ct_runs t) run = Some r \<Longrightarrow>
    \<exists>r'. map_of (ct_runs t') run = Some r' \<and> run_follows r r'"
  by (simp add: runs_follow_def)

lemma runs_follow_update:
  assumes "runs_follow t0 t" and "map_of (ct_runs t) run = Some r" and "run_follows r r'"
  shows "runs_follow t0 (t\<lparr>ct_runs := AList.update run r' (ct_runs t)\<rparr>)"
proof (rule runs_followI)
  fix k r0 assume "map_of (ct_runs t0) k = Some r0"
  then obtain r1 where "map_of (ct_runs t) k = Some r1" "run_follows r0 r1"
    using runs_followD [OF assms(1)] by blast
  then show "\<exists>r2. map_of (ct_runs (t\<lparr>ct_runs := AList.update run r' (ct_runs t)\<rparr>)) k = Some r2 \<and> run_follows r0 r2"
    using assms(2,3) by (cases "k = run") (auto intro: run_follows_trans)
qed

lemma runs_follow_same_runs: "runs_follow t0 t \<Longrightarrow> ct_runs t' = ct_runs t \<Longrightarrow> runs_follow t0 t'"
  by (simp add: runs_follow_def)

lemma set_lease_follows: "\<not> isTerminalState (rn_state r) \<Longrightarrow> run_follows r (set_lease r owner x n)"
  by (simp add: run_follows_def set_lease_def)

lemma applyMutation_runs:
  assumes "applyMutation p m t = Inr t'"
  obtains (same) "ct_runs t' = ct_runs t"
  | (created) r where "map_of (ct_runs t) (rn_runId r) = None" and "ct_runs t' = AList.update (rn_runId r) r (ct_runs t)"
  | (moved) run before after patch now r r' where "m = Transition_run run before after patch now"
      and "map_of (ct_runs t) run = Some r" and "rn_state r = before" and "canTransition before after"
      and "rn_state r' = after" and "run_follows r r'" and "ct_runs t' = AList.update run r' (ct_runs t)"
      and "\<not> isTerminalState after \<longrightarrow> rn_leaseOwner r' = rn_leaseOwner r \<and> rn_leaseExpiresAtMs r' = rn_leaseExpiresAtMs r"
proof (cases m)
  case (Create_run v)
  then show ?thesis
    using assms that(2) by (auto simp: applyMutation_def create_run_def split: option.splits if_splits)
next
  case (Transition_run run before after patch now)
  then have "transition_run run before after patch now t = Inr t'" using assms by (simp add: applyMutation_def)
  then show ?thesis
  proof (cases rule: transition_run_cases)
    case (1 n current r head why by_job)
    have "\<not> isTerminalState before" using 1(2) terminal_no_transition by blast
    then have f: "run_follows current r" using 1(2,4) by (auto simp: 1(6) run_follows_def)
    have after: "rn_state r = after"
      "\<not> isTerminalState after \<longrightarrow> rn_leaseOwner r = rn_leaseOwner current \<and> rn_leaseExpiresAtMs r = rn_leaseExpiresAtMs current"
      by (simp_all add: 1(6))
    show ?thesis by (rule moved [OF Transition_run 1(3,4,2) after(1) f _ after(2)]) (simp add: 1(7))
  qed
next
  case (Claim_idempotency k b now x)
  then have "claim_idempotency k b now x t = Inr t'" using assms by (simp add: applyMutation_def)
  then show ?thesis by (cases rule: claim_idempotency_cases) (auto intro: same)
next
  case (Release_idempotency k b now)
  then have "release_idempotency k b now t = Inr t'" using assms by (simp add: applyMutation_def)
  then show ?thesis by (cases rule: release_idempotency_cases) (auto intro: same)
next
  case (Record_publication_attempt jb atMs outcome detail)
  then have "record_publication_attempt p jb atMs outcome detail t = Inr t'" using assms by (simp add: applyMutation_def)
  then show ?thesis by (cases rule: record_publication_attempt_cases) (auto intro: same)
next
  case (Put_installation v)
  show ?thesis by (rule same) (use assms Put_installation in \<open>auto simp: applyMutation_def split: option.splits\<close>)
next
  case (Put_adopted_repository v)
  show ?thesis by (rule same) (use assms Put_adopted_repository in \<open>auto simp: applyMutation_def split: option.splits\<close>)
next
  case (Put_publication v)
  show ?thesis by (rule same) (use assms Put_publication in \<open>auto simp: applyMutation_def split: option.splits\<close>)
next
  case (Record_usage v)
  show ?thesis
    by (rule same) (use assms Record_usage in \<open>auto simp: applyMutation_def record_usage_def split: option.splits if_splits\<close>)
qed

lemma applyMutation_follows:
  assumes "runs_follow t0 t" and "applyMutation p m t = Inr t'"
  shows "runs_follow t0 t'"
  using assms(2)
proof (cases rule: applyMutation_runs)
  case same
  then show ?thesis using assms(1) by (simp add: runs_follow_def)
next
  case (created r)
  show ?thesis
  proof (rule runs_followI)
    fix k r0 assume "map_of (ct_runs t0) k = Some r0"
    then obtain r1 where "map_of (ct_runs t) k = Some r1" "run_follows r0 r1"
      using runs_followD [OF assms(1)] by blast
    with created show "\<exists>r2. map_of (ct_runs t') k = Some r2 \<and> run_follows r0 r2" by auto
  qed
next
  case (moved run before after patch now r r')
  have "runs_follow t0 (t\<lparr>ct_runs := AList.update run r' (ct_runs t)\<rparr>)"
    using assms(1) moved(2,6) by (rule runs_follow_update)
  then show ?thesis by (rule runs_follow_same_runs) (simp add: moved(7))
qed

lemma control_step_follows: "runs_follow t0 t \<Longrightarrow> runs_follow t0 (control_step p c t)"
  by (rule step_keeps [where Q = "\<lambda>_. True"])
    (auto intro: applyMutation_follows runs_follow_update set_lease_follows simp: list_all_iff claim_granted heartbeat_granted)

lemma history_follows: "runs_follow t (fold (control_step p) history t)"
proof -
  have "runs_follow t0 t \<Longrightarrow> runs_follow t0 (fold (control_step p) history t)" for t0
    by (induction history arbitrary: t) (simp_all add: control_step_follows)
  then show ?thesis by simp
qed

lemma terminal_transition_rejected:
  assumes "map_of (ct_runs t) run = Some r" and "isTerminalState (rn_state r)"
    and "Transition_run run before after patch now \<in> set batch"
  shows "\<exists>e. apply_staged p batch t = Inl e"
  using assms(1,3)
proof (induction batch arbitrary: t)
  case (Cons m ms)
  show ?case
  proof (cases "applyMutation p m t")
    case (Inr t')
    have "runs_follow t t'" by (rule applyMutation_follows [OF runs_follow_refl Inr])
    then obtain r' where "map_of (ct_runs t') run = Some r'" "run_follows r r'"
      using runs_followD Cons.prems(1) by blast
    then have frozen: "map_of (ct_runs t') run = Some r" using assms(2) by (simp add: run_follows_def)
    have "m \<noteq> Transition_run run before after patch now"
    proof
      assume "m = Transition_run run before after patch now"
      with Inr have "transition_run run before after patch now t = Inr t'" by (simp add: applyMutation_def)
      then show False
      proof (cases rule: transition_run_cases)
        case (1 n current r1 head why by_job)
        then have "current = r" using Cons.prems(1) by simp
        then show False using assms(2) 1(2,4) terminal_no_transition [of "rn_state r" after] by simp
      qed
    qed
    then show ?thesis using Cons.IH [OF frozen] Cons.prems(2) Inr by auto
  qed simp
qed simp

text \<open>The transitions of one run that a history commits, in order: those of the batches that are
  applied, as the batches state them.\<close>

fun batch_moves :: "string \<Rightarrow> state_mutation list \<Rightarrow> (job_state \<times> job_state) list" where
  "batch_moves run [] = []"
| "batch_moves run (Transition_run run' before after patch now # ms) =
     (if run' = run then [(before, after)] else []) @ batch_moves run ms"
| "batch_moves run (m # ms) = batch_moves run ms"

fun committed_moves ::
  "(string \<Rightarrow> bool) \<Rightarrow> string \<Rightarrow> control_op list \<Rightarrow> control_tables \<Rightarrow> (job_state \<times> job_state) list" where
  "committed_moves p run [] t = []"
| "committed_moves p run (Op_apply batch # cs) t =
     (if fst (apply_batch p batch t) = Inr () then batch_moves run batch else []) @
     committed_moves p run cs (control_step p (Op_apply batch) t)"
| "committed_moves p run (c # cs) t = committed_moves p run cs (control_step p c t)"

text \<open>Each move starts at the state the previous one left, and is legal.\<close>

fun lifecycle_path :: "job_state \<Rightarrow> (job_state \<times> job_state) list \<Rightarrow> job_state \<Rightarrow> bool" where
  "lifecycle_path s [] s' \<longleftrightarrow> s = s'"
| "lifecycle_path s ((before, after) # moves) s' \<longleftrightarrow>
     before = s \<and> canTransition before after \<and> lifecycle_path after moves s'"

lemma lifecycle_path_append:
  "lifecycle_path s ms u \<Longrightarrow> lifecycle_path u ms' v \<Longrightarrow> lifecycle_path s (ms @ ms') v"
  by (induction s ms u rule: lifecycle_path.induct) auto

lemma mutation_path:
  assumes "applyMutation p m t = Inr t'" and "map_of (ct_runs t) run = Some r"
  shows "\<exists>r'. map_of (ct_runs t') run = Some r' \<and> lifecycle_path (rn_state r) (batch_moves run [m]) (rn_state r')"
proof (cases "\<exists>run' before after patch now. m = Transition_run run' before after patch now")
  case True
  then obtain run' before after patch now where m: "m = Transition_run run' before after patch now" by blast
  then have "transition_run run' before after patch now t = Inr t'" using assms(1) by (simp add: applyMutation_def)
  then show ?thesis
  proof (cases rule: transition_run_cases)
    case (1 n current r1 head why by_job)
    then show ?thesis using assms(2) m by (cases "run' = run") auto
  qed
next
  case False
  then have moves: "batch_moves run [m] = []" by (cases m) auto
  show ?thesis
    using assms(1)
  proof (cases rule: applyMutation_runs)
    case same
    then show ?thesis using assms(2) moves by simp
  next
    case (created r1)
    then show ?thesis using assms(2) moves by (cases "rn_runId r1 = run") auto
  next
    case moved
    then show ?thesis using False by blast
  qed
qed

lemma batch_moves_Cons: "batch_moves run (m # ms) = batch_moves run [m] @ batch_moves run ms"
  by (cases m) auto

lemma staged_path:
  "apply_staged p ms t = Inr t' \<Longrightarrow> map_of (ct_runs t) run = Some r \<Longrightarrow>
    \<exists>r'. map_of (ct_runs t') run = Some r' \<and> lifecycle_path (rn_state r) (batch_moves run ms) (rn_state r')"
proof (induction ms arbitrary: t r)
  case (Cons m ms)
  then obtain u where u: "applyMutation p m t = Inr u" "apply_staged p ms u = Inr t'"
    by (auto split: sum.splits)
  from mutation_path [OF u(1) Cons.prems(2)] obtain r1 where r1: "map_of (ct_runs u) run = Some r1"
    "lifecycle_path (rn_state r) (batch_moves run [m]) (rn_state r1)" by blast
  from Cons.IH [OF u(2) r1(1)] show ?case
    unfolding batch_moves_Cons [of run m ms] using r1(2) lifecycle_path_append by blast
qed simp

lemma lease_keeps_state:
  "map_of (ct_runs t) run = Some r \<Longrightarrow>
    \<exists>r'. map_of (ct_runs (snd (claimRun run' owner now ttl t))) run = Some r' \<and> rn_state r' = rn_state r"
  "map_of (ct_runs t) run = Some r \<Longrightarrow>
    \<exists>r'. map_of (ct_runs (snd (heartbeatRun run' owner now ttl t))) run = Some r' \<and> rn_state r' = rn_state r"
  by (auto simp: claimRun_def heartbeatRun_def set_lease_def split: option.split prod.split)

lemma history_path:
  "map_of (ct_runs t) run = Some r \<Longrightarrow>
    \<exists>r'. map_of (ct_runs (fold (control_step p) history t)) run = Some r' \<and>
      lifecycle_path (rn_state r) (committed_moves p run history t) (rn_state r')"
proof (induction history arbitrary: t r)
  case (Cons c cs)
  have "\<exists>r1 moves. map_of (ct_runs (control_step p c t)) run = Some r1 \<and>
      lifecycle_path (rn_state r) moves (rn_state r1) \<and>
      committed_moves p run (c # cs) t = moves @ committed_moves p run cs (control_step p c t)"
  proof (cases c)
    case (Op_apply batch)
    show ?thesis
    proof (cases "apply_staged p batch t")
      case (Inl e)
      then show ?thesis using Op_apply Cons.prems by (simp add: apply_batch_def)
    next
      case (Inr t')
      then show ?thesis using Op_apply staged_path [OF Inr Cons.prems] by (auto simp: apply_batch_def)
    qed
  qed (use lease_keeps_state [OF Cons.prems] in fastforce)+
  then show ?case using Cons.IH lifecycle_path_append by (metis fold_simps(2))
qed simp

text \<open>C16: A run follows the lifecycle, whoever writes to it. Through any history of batches, claims and
  heartbeats a run keeps its identity (job, kind, executor, head, configuration, creation time, and the
  first start once it has one), and its state is what the transitions of the committed batches made it:
  taken in order, each of them starts in the state the run is then in and is one of \<open>canTransition\<close>;
  nothing else moves it. From the moment it is terminal its record never changes again: every batch that
  contains a transition of it - a late completion racing a supersession - fails as a whole, every
  well-formed claim and heartbeat returns false, and none changes anything.\<close>

theorem runs_follow_lifecycle:
  assumes "map_of (ct_runs t) run = Some r" and "later = fold (control_step p) history t"
  shows "\<exists>r'. getRun run later = Some r' \<and> run_follows r r' \<and>
    lifecycle_path (rn_state r) (committed_moves p run history t) (rn_state r') \<and>
    (isTerminalState (rn_state r) \<longrightarrow> r' = r \<and>
      (\<forall>batch before after patch now. Transition_run run before after patch now \<in> set batch \<longrightarrow>
         (\<exists>e. apply_batch p batch later = (Inl e, later))) \<and>
      (\<forall>owner now ttl. let refused = (if validateLeaseWindow now ttl = None \<or> validateLeaseOwner owner = None
            then Inl Out_of_range else Inr False, later)
         in claimRun run owner now ttl later = refused \<and> heartbeatRun run owner now ttl later = refused))"
proof -
  obtain r' where r': "map_of (ct_runs later) run = Some r'" "run_follows r r'"
    using history_follows [of t p history] assms by (auto simp: runs_follow_def)
  moreover have "lifecycle_path (rn_state r) (committed_moves p run history t) (rn_state r')"
    using history_path [OF assms(1), of p history] r'(1) by (simp add: assms(2))
  moreover have "r' = r" if "isTerminalState (rn_state r)" using r'(2) that by (simp add: run_follows_def)
  moreover have "\<exists>e. apply_batch p batch later = (Inl e, later)"
    if "isTerminalState (rn_state r')" "Transition_run run before after patch now \<in> set batch" for batch before after patch now
    using terminal_transition_rejected [OF r'(1) that, of p] by (auto simp: apply_batch_def)
  moreover have "let refused = (if validateLeaseWindow now ttl = None \<or> validateLeaseOwner owner = None
        then Inl Out_of_range else Inr False, later)
      in claimRun run owner now ttl later = refused \<and> heartbeatRun run owner now ttl later = refused"
    if "isTerminalState (rn_state r')" for owner now ttl
    using that r'(1) by (auto simp: claimRun_def heartbeatRun_def Let_def split: option.split prod.split)
  ultimately show ?thesis unfolding getRun_def by metis
qed

text \<open>C34: One transition with a clock that is no whole number of milliseconds bricks the restart. The
  transition checks its clock for being finite only and writes it without the record's validator, so a
  batch with a fractional or negative clock is committed, and the export of the store is refused. It stays
  refused as long as nothing rewrites that record; and after every later history, whatever it contains,
  when the transition ended the run or was its first start, since these stamps are never rewritten.\<close>

theorem fractional_clock_bricks_restart:
  assumes "transition_run run before after patch (Fin now) t = Inr t'" and "\<not> whole now"
    and "getRun run t = Some current"
  shows "apply_batch p [Transition_run run before after patch (Fin now)] t = (Inr (), t') \<and>
    seedControlPlaneStore p (export_js (exportState t')) = None \<and>
    (\<forall>history. let later = fold (control_step p) history t' in
       getRun run later = getRun run t' \<or> isTerminalState after \<or>
         after = Running \<and> rn_startedAtMs current = 0 \<longrightarrow>
       seedControlPlaneStore p (export_js (exportState later)) = None)"
proof (intro conjI allI)
  show "apply_batch p [Transition_run run before after patch (Fin now)] t = (Inr (), t')"
    using assms(1) by (simp add: apply_batch_def applyMutation_def)
  obtain r where r: "map_of (ct_runs t') run = Some r" "rn_updatedAtMs r = now" "rn_state r = after"
    "after = Running \<and> rn_startedAtMs current = 0 \<longrightarrow> rn_startedAtMs r = now"
    using assms(1)
  proof (cases rule: transition_run_cases)
    case (1 n c r1 head why by_job)
    then show thesis using assms(3) by (intro that [of r1]) (auto simp: getRun_def)
  qed
  then have refused: "seedControlPlaneStore p (export_js (exportState u)) = None"
    if "map_of (ct_runs u) run = Some r" for u
    using export_refused that assms(2) by blast
  from refused [OF r(1)] show "seedControlPlaneStore p (export_js (exportState t')) = None" .
  fix history
  let ?later = "fold (control_step p) history t'"
  obtain r' where r': "map_of (ct_runs ?later) run = Some r'" "run_follows r r'"
    using history_follows [of t' p history] r(1) by (auto simp: runs_follow_def)
  have "whole 0" by (auto simp: counter_def max_safe_integer_def intro: exI [of _ 0])
  then have "now \<noteq> 0" using assms(2) by blast
  then have "r' = r" if "isTerminalState after" using r'(2) r(3) that by (simp add: run_follows_def)
  moreover have "rn_startedAtMs r' = now" if "after = Running \<and> rn_startedAtMs current = 0"
    using r'(2) r(4) that \<open>now \<noteq> 0\<close> by (simp add: run_follows_def)
  ultimately show "let later = ?later in
      getRun run later = getRun run t' \<or> isTerminalState after \<or>
        after = Running \<and> rn_startedAtMs current = 0 \<longrightarrow>
      seedControlPlaneStore p (export_js (exportState later)) = None"
    using refused r' export_refused [OF r'(1)] r(1) assms(2) unfolding Let_def getRun_def by metis
qed

section \<open>Leases\<close>

text \<open>The claims and renewals of a run that were granted, with the clock and the expiry of each.\<close>

definition lease_of :: "string \<Rightarrow> jsnum \<Rightarrow> jsnum \<Rightarrow> string \<times> int \<times> int" where
  "lease_of owner now ttl = (owner, the (validateLeaseWindow now ttl))"

fun granted :: "string \<Rightarrow> control_op \<Rightarrow> control_tables \<Rightarrow> (string \<times> int \<times> int) list" where
  "granted run (Op_claim run' owner now ttl) t =
     (if run' = run \<and> fst (claimRun run' owner now ttl t) = Inr True then [lease_of owner now ttl] else [])"
| "granted run (Op_heartbeat run' owner now ttl) t =
     (if run' = run \<and> fst (heartbeatRun run' owner now ttl t) = Inr True then [lease_of owner now ttl] else [])"
| "granted run (Op_apply batch) t = []"

fun grants :: "(string \<Rightarrow> bool) \<Rightarrow> string \<Rightarrow> control_op list \<Rightarrow> control_tables \<Rightarrow> (string \<times> int \<times> int) list" where
  "grants p run [] t = []"
| "grants p run (c # cs) t = granted run c t @ grants p run cs (control_step p c t)"

definition holds_lease :: "string \<Rightarrow> string \<times> int \<times> int \<Rightarrow> control_tables \<Rightarrow> bool" where
  "holds_lease run g t \<longleftrightarrow> fst g \<noteq> '''' \<and> (\<exists>r. map_of (ct_runs t) run = Some r \<and>
     (isTerminalState (rn_state r) \<or> rn_leaseOwner r = fst g \<and> rn_leaseExpiresAtMs r = snd (snd g)))"

lemma lease_owner_nonempty: "validateLeaseOwner owner \<noteq> None \<Longrightarrow> owner \<noteq> ''''"
  by (auto simp: validateLeaseOwner_def field_iffs id_form_def)

lemma applyMutation_lease:
  assumes "holds_lease run g t" and "applyMutation p m t = Inr t'"
  shows "holds_lease run g t'"
  using assms(2)
proof (cases rule: applyMutation_runs)
  case (moved run' before after patch now r r')
  have "isTerminalState (rn_state r) \<Longrightarrow> False" using moved(3,4) terminal_no_transition by blast
  then show ?thesis using assms(1) moved by (cases "run = run'") (auto simp: holds_lease_def)
qed (use assms(1) in \<open>auto simp: holds_lease_def\<close>)

lemma step_lease:
  assumes "holds_lease run g t" and "granted run c t = []"
  shows "holds_lease run g (control_step p c t)"
  using assms(1)
proof (rule step_keeps [where Q = "\<lambda>_. True"])
  show "holds_lease run g t'" if "c = Op_claim run' owner now ttl" "claimRun run' owner now ttl t = (Inr True, t')"
    for run' owner now ttl t'
  proof -
    have "run' \<noteq> run" using assms(2) that by auto
    then show ?thesis using assms(1) that(2) by (auto simp: claim_granted holds_lease_def)
  qed
  show "holds_lease run g t'" if "c = Op_heartbeat run' owner now ttl" "heartbeatRun run' owner now ttl t = (Inr True, t')"
    for run' owner now ttl t'
  proof -
    have "run' \<noteq> run" using assms(2) that by auto
    then show ?thesis using assms(1) that(2) by (auto simp: heartbeat_granted holds_lease_def)
  qed
qed (auto simp: list_all_iff intro: applyMutation_lease)

lemma granted_lease:
  assumes "granted run c t = g # gs"
  shows "gs = []" and "holds_lease run g (control_step p c t)"
    and "holds_lease run h t \<Longrightarrow> fst h = fst g \<or> snd (snd h) \<le> fst (snd g)"
proof -
  consider owner now ttl t' where "c = Op_claim run owner now ttl" "claimRun run owner now ttl t = (Inr True, t')"
      "g = lease_of owner now ttl" "gs = []"
    | owner now ttl t' where "c = Op_heartbeat run owner now ttl" "heartbeatRun run owner now ttl t = (Inr True, t')"
      "g = lease_of owner now ttl" "gs = []"
    using assms by (cases c) (auto simp: prod_eq_iff split: if_splits)
  then have "gs = [] \<and> holds_lease run g (control_step p c t) \<and>
      (holds_lease run h t \<longrightarrow> fst h = fst g \<or> snd (snd h) \<le> fst (snd g))"
  proof cases
    case 1
    then obtain n x current where l: "validateLeaseWindow now ttl = Some (n, x)" "validateLeaseOwner owner \<noteq> None"
        "map_of (ct_runs t) run = Some current" "\<not> isTerminalState (rn_state current)"
        "rn_leaseOwner current = '''' \<or> rn_leaseOwner current = owner \<or> rn_leaseExpiresAtMs current \<le> n"
        "t' = t\<lparr>ct_runs := AList.update run (set_lease current owner x n) (ct_runs t)\<rparr>"
      unfolding claim_granted by blast
    then show ?thesis
      using 1 lease_owner_nonempty [OF l(2)] by (auto simp: lease_of_def holds_lease_def set_lease_def)
  next
    case 2
    then obtain n x current where l: "validateLeaseWindow now ttl = Some (n, x)"
        "map_of (ct_runs t) run = Some current" "\<not> isTerminalState (rn_state current)"
        "rn_leaseOwner current = owner" "owner \<noteq> ''''"
        "t' = t\<lparr>ct_runs := AList.update run (set_lease current owner x n) (ct_runs t)\<rparr>"
      unfolding heartbeat_granted by blast
    then show ?thesis using 2 by (auto simp: lease_of_def holds_lease_def set_lease_def)
  qed
  then show "gs = []" "holds_lease run g (control_step p c t)"
    "holds_lease run h t \<Longrightarrow> fst h = fst g \<or> snd (snd h) \<le> fst (snd g)" by blast+
qed

abbreviation disjoint_leases :: "string \<times> int \<times> int \<Rightarrow> string \<times> int \<times> int \<Rightarrow> bool" where
  "disjoint_leases g h \<equiv> fst g = fst h \<or> snd (snd g) \<le> fst (snd h)"

lemma grants_after:
  "holds_lease run g t \<Longrightarrow> successively disjoint_leases (g # grants p run history t)"
proof (induction history arbitrary: g t)
  case (Cons c cs)
  show ?case
  proof (cases "granted run c t")
    case Nil
    then show ?thesis using Cons.IH [OF step_lease [OF Cons.prems Nil]] by simp
  next
    case (Cons h hs)
    with granted_lease [OF Cons] Cons.prems Cons.IH show ?thesis
      by (auto simp: successively_Cons)
  qed
qed simp

text \<open>C15: Two workers never hold a run at the same time. Over any history of batches, claims and heartbeats of
  whatever workers, with whatever clocks, each granted claim of a run by another worker than the one of
  the grant before carries a clock at or after the expiry that the grant before it was given - no lease
  is stolen while it is live, whatever transitions happen in between.\<close>

theorem leases_never_overlap:
  "successively disjoint_leases (grants p run history t)"
proof (induction history arbitrary: t)
  case (Cons c cs)
  show ?case
  proof (cases "granted run c t")
    case Nil
    then show ?thesis using Cons.IH by simp
  next
    case (Cons h hs)
    then show ?thesis
      using granted_lease(1,2) [OF Cons] grants_after [of run h "control_step p c t" p cs] by simp
  qed
qed simp

section \<open>Idempotency keys\<close>

definition unexpired :: "idempotency_key \<Rightarrow> jsnum \<Rightarrow> bool" where
  "unexpired e nowMs \<longleftrightarrow>
     ik_expiresAtMs e = 0 \<or> (case nowMs of Fin now \<Rightarrow> now < of_int (ik_expiresAtMs e) | _ \<Rightarrow> True)"

text \<open>A mutation that touches the key does so before its expiry, and is no release by its owner.\<close>

fun leaves_key :: "string \<Rightarrow> idempotency_key \<Rightarrow> state_mutation \<Rightarrow> bool" where
  "leaves_key k e (Claim_idempotency k' b now x) = (k' = k \<longrightarrow> unexpired e now)"
| "leaves_key k e (Release_idempotency k' b now) = (k' = k \<longrightarrow> unexpired e now \<and> b \<noteq> ik_binding e)"
| "leaves_key k e _ = True"

fun op_leaves_key :: "string \<Rightarrow> idempotency_key \<Rightarrow> control_op \<Rightarrow> bool" where
  "op_leaves_key k e (Op_apply batch) = list_all (leaves_key k e) batch"
| "op_leaves_key k e _ = True"

definition bound_to :: "string \<Rightarrow> idempotency_key \<Rightarrow> control_tables \<Rightarrow> bool" where
  "bound_to k e t \<longleftrightarrow> map_of (ct_idempotencyKeys t) k = Some e"

lemma other_mutation_keys:
  assumes "applyMutation p m t = Inr t'"
    and "\<And>k b now x. m \<noteq> Claim_idempotency k b now x" and "\<And>k b now. m \<noteq> Release_idempotency k b now"
  shows "ct_idempotencyKeys t' = ct_idempotencyKeys t"
proof (cases m)
  case (Transition_run run before after patch now)
  then have "transition_run run before after patch now t = Inr t'" using assms by (simp add: applyMutation_def)
  then show ?thesis by (cases rule: transition_run_cases) simp
next
  case (Record_publication_attempt jb atMs outcome detail)
  then have "record_publication_attempt p jb atMs outcome detail t = Inr t'" using assms by (simp add: applyMutation_def)
  then show ?thesis by (cases rule: record_publication_attempt_cases) simp
next
  case (Create_run v)
  then show ?thesis using assms(1) by (auto simp: applyMutation_def create_run_def split: option.splits if_splits)
next
  case (Record_usage v)
  then show ?thesis using assms(1) by (auto simp: applyMutation_def record_usage_def split: option.splits if_splits)
qed (use assms in \<open>auto simp: applyMutation_def split: option.splits\<close>)

lemma applyMutation_keys:
  assumes "bound_to k e t" and "leaves_key k e m" and "applyMutation p m t = Inr t'"
  shows "bound_to k e t'" and "m = Claim_idempotency k b now x \<Longrightarrow> b = ik_binding e"
proof -
  have "bound_to k e t' \<and> (\<forall>b now x. m = Claim_idempotency k b now x \<longrightarrow> b = ik_binding e)"
  proof (cases "\<exists>k b now x. m = Claim_idempotency k b now x")
    case True
    then obtain k' b' now' x' where m: "m = Claim_idempotency k' b' now' x'" by blast
    then have "claim_idempotency k' b' now' x' t = Inr t'" using assms(3) by (simp add: applyMutation_def)
    then show ?thesis
    proof (cases rule: claim_idempotency_cases)
      case (held existing n)
      then show ?thesis using assms(1) m by (auto simp: bound_to_def)
    next
      case (taken r n)
      have "k' \<noteq> k" using taken(2) taken(6) [of e] assms(1,2) m by (auto simp: bound_to_def unexpired_def)
      then show ?thesis using assms(1) m taken(1) by (simp add: bound_to_def)
    qed
  next
    case not_claim: False
    show ?thesis
    proof (cases "\<exists>k b now. m = Release_idempotency k b now")
      case True
      then obtain k' b' now' where m: "m = Release_idempotency k' b' now'" by blast
      then have "release_idempotency k' b' now' t = Inr t'" using assms(3) by (simp add: applyMutation_def)
      then show ?thesis
      proof (cases rule: release_idempotency_cases)
        case (freed existing n)
        have "k' \<noteq> k" using freed(2-) assms(1,2) m by (auto simp: bound_to_def unexpired_def)
        then show ?thesis using assms(1) m freed(1) by (simp add: bound_to_def)
      qed (use assms(1) m in simp)
    next
      case False
      then have "ct_idempotencyKeys t' = ct_idempotencyKeys t"
        using other_mutation_keys [OF assms(3)] not_claim by blast
      then show ?thesis using assms(1) not_claim by (simp add: bound_to_def)
    qed
  qed
  then show "bound_to k e t'" "m = Claim_idempotency k b now x \<Longrightarrow> b = ik_binding e" by blast+
qed

lemma step_keys:
  assumes "bound_to k e t" and "op_leaves_key k e c"
  shows "bound_to k e (control_step p c t)"
  by (rule step_keeps [where Q = "leaves_key k e"])
    (use assms in \<open>auto simp: claim_granted heartbeat_granted bound_to_def dest: applyMutation_keys(1) [unfolded bound_to_def]\<close>)

lemma foreign_claim_rejected:
  assumes "bound_to k e t" and "list_all (leaves_key k e) batch"
    and "Claim_idempotency k b now x \<in> set batch" and "b \<noteq> ik_binding e"
  shows "\<exists>err. apply_staged p batch t = Inl err"
  using assms(1-3)
proof (induction batch arbitrary: t)
  case (Cons m ms)
  show ?case
  proof (cases "applyMutation p m t")
    case (Inr t')
    then show ?thesis
      using applyMutation_keys [OF Cons.prems(1) _ Inr] Cons.IH [of t'] Cons.prems(2,3) assms(4) by auto
  qed simp
qed simp

text \<open>C17: A key is bound to one piece of work. Once a key is bound and until it expires or its owner releases
  it, the binding stays through any history of batches, claims and heartbeats; every batch that claims
  the key for other work fails as a whole, whatever else it holds, and a redelivery of the same work is
  admitted and changes nothing.\<close>

theorem key_bound_to_one_work:
  assumes "getIdempotencyKey k t = Some e" and "list_all (op_leaves_key k e) history"
    and "later = fold (control_step p) history t"
  shows "getIdempotencyKey k later = Some e \<and>
    (\<forall>batch b now x. list_all (leaves_key k e) batch \<and> Claim_idempotency k b now x \<in> set batch \<and> b \<noteq> ik_binding e \<longrightarrow>
       (\<exists>err. apply_batch p batch later = (Inl err, later))) \<and>
    (\<forall>now x. unexpired e (Fin now) \<and> validateIdempotencyKey (key_js k (ik_binding e) (Fin now) (Fin x)) \<noteq> None \<longrightarrow>
       apply_batch p [Claim_idempotency k (ik_binding e) (Fin now) (Fin x)] later = (Inr (), later))"
proof -
  have "bound_to k e t \<Longrightarrow> bound_to k e (fold (control_step p) history t)" for t
    using assms(2) by (induction history arbitrary: t) (simp_all add: step_keys)
  then have later: "bound_to k e later" using assms(1,3) by (simp add: bound_to_def getIdempotencyKey_def)
  moreover have "apply_batch p batch later = (Inl (projl (apply_staged p batch later)), later)"
    if "list_all (leaves_key k e) batch" "Claim_idempotency k b now x \<in> set batch" "b \<noteq> ik_binding e" for batch b now x
    using foreign_claim_rejected [OF later that, of p] by (auto simp: apply_batch_def)
  moreover have "apply_batch p [Claim_idempotency k (ik_binding e) (Fin now) (Fin x)] later = (Inr (), later)"
    if "unexpired e (Fin now)" "validateIdempotencyKey (key_js k (ik_binding e) (Fin now) (Fin x)) \<noteq> None" for now x
  proof -
    have "\<not> x < 0"
      using that(2) by (auto simp: validateIdempotencyKey_def key_js_def field_iffs JNum_int counter_def split: bind_splits)
    then show ?thesis
      using that later
      by (auto simp: apply_batch_def applyMutation_def claim_idempotency_def bound_to_def unexpired_def Let_def
          split: option.split)
  qed
  ultimately show ?thesis unfolding bound_to_def getIdempotencyKey_def by blast
qed

section \<open>Publications\<close>

lemma cap_history_twice: "cap_history (cap_history xs @ ys) = cap_history (xs @ ys)"
  by (cases "length xs \<le> PUBLICATION_HISTORY_CAP") (simp_all add: cap_history_def add.commute)

lemma cap_history_length: "length (cap_history xs) \<le> PUBLICATION_HISTORY_CAP"
  by (simp add: cap_history_def)

definition attempts :: "string \<Rightarrow> (int \<times> publication_outcome \<times> string) list \<Rightarrow> state_mutation list" where
  "attempts jb as = map (\<lambda>(moment, out, det). Record_publication_attempt jb (Fin (of_int moment)) out det) as"

definition entry_of :: "int \<times> publication_outcome \<times> string \<Rightarrow> history_entry" where
  "entry_of a = \<lparr>he_atMs = fst a, he_outcome = fst (snd a), he_detail = snd (snd a)\<rparr>"

text \<open>A publication's history is its last 32 attempts, and its counter all of them. When a batch records
  any number of attempts on a stored publication, then afterwards the history holds exactly the last 32
  of the old entries and the attempts, in order; the counter has grown by the number of attempts; and
  the destination, the payload and the head it belongs to are untouched, so that a retry replays the
  same content.\<close>

theorem publication_attempts_recorded:
  assumes "getPublication jb t = Some c" and "length (pb_history c) \<le> PUBLICATION_HISTORY_CAP"
    and "apply_batch p (attempts jb as) t = (Inr (), t')"
  shows "\<exists>r. getPublication jb t' = Some r \<and>
    pb_history r = cap_history (pb_history c @ map entry_of as) \<and> length (pb_history r) \<le> PUBLICATION_HISTORY_CAP \<and>
    pb_attempt r = pb_attempt c + int (length as) \<and> pb_jobId r = pb_jobId c \<and> pb_destination r = pb_destination c \<and>
    pb_resultPayload r = pb_resultPayload c \<and> pb_resultHeadSha r = pb_resultHeadSha c \<and>
    pb_createdAtMs r = pb_createdAtMs c"
proof -
  have "apply_staged p (attempts jb as) t = Inr t'"
    using assms(3) by (auto simp: apply_batch_def split: sum.splits)
  then show ?thesis using assms(1,2)
  proof (induction as arbitrary: t c)
    case Nil
    then show ?case by (simp add: attempts_def cap_history_def)
  next
    case (Cons a as)
    obtain moment out det where a: "a = (moment, out, det)" by (cases a)
    obtain t1 where t1: "record_publication_attempt p jb (Fin (of_int moment)) out det t = Inr t1"
        "apply_staged p (attempts jb as) t1 = Inr t'"
      using Cons.prems(1) by (auto simp: attempts_def a applyMutation_def split: sum.splits)
    from t1(1) obtain r where r: "getPublication jb t1 = Some r" "pb_history r = cap_history (pb_history c @ [entry_of a])"
        "pb_attempt r = pb_attempt c + 1" "pb_jobId r = pb_jobId c" "pb_destination r = pb_destination c"
        "pb_resultPayload r = pb_resultPayload c" "pb_resultHeadSha r = pb_resultHeadSha c" "pb_createdAtMs r = pb_createdAtMs c"
      by (cases rule: record_publication_attempt_cases)
        (use Cons.prems(2) in \<open>auto simp: getPublication_def entry_of_def a\<close>)
    have "length (pb_history r) \<le> PUBLICATION_HISTORY_CAP" unfolding r(2) by (rule cap_history_length)
    from Cons.IH [OF t1(2) r(1) this] show ?case by (auto simp: r(2-) cap_history_twice)
  qed
qed

section \<open>Usage\<close>

lemma double_int_exact: "n \<le> 2 ^ 53 \<Longrightarrow> double_int n = n"
  by (simp add: double_int_def)

lemma sum_of_exact:
  assumes "\<forall>e \<in> set es. 0 \<le> f e" and "sum_list (map f es) \<le> 2 ^ 53"
  shows "sum_of f es = sum_list (map f es)"
  using assms
proof (induction es rule: rev_induct)
  case (snoc e es)
  then have "0 \<le> f e" "sum_list (map f es) \<le> 2 ^ 53" by simp_all
  with snoc show ?case by (simp add: sum_of_def double_int_exact)
qed (simp add: sum_of_def)

definition same_group :: "string \<Rightarrow> usage_record list \<Rightarrow> usage_record list" where
  "same_group k es = filter (\<lambda>e. group_key e = k) es"

definition groups_of :: "usage_record list \<Rightarrow> (string \<times> usage_record list) list \<Rightarrow> bool" where
  "groups_of es gs \<longleftrightarrow> map_ok gs \<and> fst ` set gs = group_key ` set es \<and> (\<forall>k b. map_of gs k = Some b \<longrightarrow> b = same_group k es) \<and>
     mset (concat (map snd gs)) = mset es"

lemma AList_update_mset:
  "map_of gs k = Some b \<Longrightarrow> map_ok gs \<Longrightarrow>
    mset (concat (map snd (AList.update k (b @ [e]) gs))) = add_mset e (mset (concat (map snd gs)))"
  by (induction gs) auto

lemma AList_update_fresh: "map_of gs k = None \<Longrightarrow> AList.update k v gs = gs @ [(k, v)]"
  by (induction gs) (auto split: if_splits)

lemma add_to_group_groups:
  assumes "groups_of es gs"
  shows "groups_of (es @ [e]) (add_to_group e gs)"
proof -
  let ?k = "group_key e"
  have ok: "map_ok gs" and keys: "fst ` set gs = group_key ` set es" and buckets: "\<And>k b. map_of gs k = Some b \<Longrightarrow> b = same_group k es"
    and total: "mset (concat (map snd gs)) = mset es"
    using assms by (simp_all add: groups_of_def)
  have snoc: "same_group k (es @ [e]) = (if k = ?k then same_group k es @ [e] else same_group k es)" for k
    by (simp add: same_group_def)
  show ?thesis
  proof (cases "map_of gs ?k")
    case None
    then have "?k \<notin> group_key ` set es" using keys by (metis map_of_eq_None_iff)
    then have "same_group ?k es = []" by (simp add: same_group_def filter_empty_conv image_iff eq_commute)
    moreover have "map_of (AList.update ?k [e] gs) k = Some b \<longleftrightarrow> (if k = ?k then b = [e] else map_of gs k = Some b)" for k b
      by auto
    ultimately have "\<forall>k b. map_of (AList.update ?k [e] gs) k = Some b \<longrightarrow> b = same_group k (es @ [e])"
      using buckets by (simp add: snoc split: if_splits)
    moreover have "map_ok (AList.update ?k [e] gs)" using ok by (rule AList_map_ok_update)
    moreover have "AList.update ?k [e] gs = gs @ [(?k, [e])]" using None by (rule AList_update_fresh)
    ultimately show ?thesis using None keys total by (simp add: groups_of_def add_to_group_def)
  next
    case (Some b)
    then have "?k \<in> fst ` set gs" by (metis domI dom_map_of_conv_image_fst)
    then have "fst ` set (AList.update ?k (b @ [e]) gs) = fst ` set gs"
      by (metis AList_keys_update list.set_map)
    moreover have "map_ok (AList.update ?k (b @ [e]) gs)" using ok by (rule AList_map_ok_update)
    moreover have "\<forall>k b'. map_of (AList.update ?k (b @ [e]) gs) k = Some b' \<longrightarrow> b' = same_group k (es @ [e])"
      using buckets Some by (auto simp: snoc)
    ultimately show ?thesis
      using Some AList_update_mset [OF Some ok, of e] keys total \<open>?k \<in> fst ` set gs\<close>
      by (simp add: groups_of_def add_to_group_def insert_absorb)
  qed
qed

lemma usage_groups_of: "groups_of (map snd (ct_usage t)) (usage_groups t)"
proof -
  have "groups_of es0 gs \<Longrightarrow> groups_of (es0 @ es) (fold add_to_group es gs)" for es0 es gs
    by (induction es arbitrary: es0 gs) (simp, metis add_to_group_groups append.assoc append_Cons append_Nil fold_simps(2))
  from this [of "[]" "[]"] show ?thesis by (simp add: usage_groups_def groups_of_def)
qed

lemma role_str_no_nul: "CHR 0x00 \<notin> set (usage_role_str k)"
  by (cases k) auto

lemma route_no_nul: "usage_record_ok u \<Longrightarrow> CHR 0x00 \<notin> set (ur_route u)"
  by (auto simp: usage_record_ok_def id_form_def list_ex_iff control_char_def dest: bspec [of _ _ "CHR 0x00"])

lemma group_key_split:
  "usage_record_ok u \<Longrightarrow> split_sep (CHR 0x00) (group_key u) = [ur_route u, usage_role_str (ur_role u)]"
  unfolding group_key_def append_Cons append_Nil
  by (simp add: split_sep_field route_no_nul split_sep_free role_str_no_nul)

abbreviation row_key :: "usage_row \<Rightarrow> string \<times> string" where
  "row_key row \<equiv> (rw_route row, rw_role row)"

abbreviation usage_key :: "usage_record \<Rightarrow> string \<times> string" where
  "usage_key u \<equiv> (ur_route u, usage_role_str (ur_role u))"

lemma group_key_iff:
  assumes "usage_record_ok u" and "usage_record_ok v"
  shows "group_key u = group_key v \<longleftrightarrow> usage_key u = usage_key v"
proof
  assume "group_key u = group_key v"
  then have "split_sep (CHR 0x00) (group_key u) = split_sep (CHR 0x00) (group_key v)" by simp
  then show "usage_key u = usage_key v" unfolding group_key_split [OF assms(1)] group_key_split [OF assms(2)] by simp
qed (simp add: group_key_def)

definition counters :: "((usage_sums \<Rightarrow> int) \<times> (usage_record \<Rightarrow> int)) list" where
  "counters = [(us_requestCount, ur_requestCount), (us_inputTokens, ur_inputTokens),
     (us_cacheReadTokens, ur_cacheReadTokens), (us_cacheWriteTokens, ur_cacheWriteTokens),
     (us_outputTokens, ur_outputTokens), (us_costMicros, ur_costMicros)]"

lemma counter_sums: "(g, f) \<in> set counters \<Longrightarrow> g (usage_sums_of es) = sum_of f es"
  by (auto simp: counters_def usage_sums_of_def)

lemma counter_nonneg: "(g, f) \<in> set counters \<Longrightarrow> usage_record_ok u \<Longrightarrow> 0 \<le> f u"
  by (auto simp: counters_def usage_record_ok_def counter_def)

lemma row_of_group_key:
  assumes "\<forall>u \<in> set es. usage_record_ok u" and "groups_of es gs" and "(k, b) \<in> set gs"
  obtains u where "u \<in> set es" and "group_key u = k" and "row_key (row_of_group (k, b)) = usage_key u"
    and "rw_sums (row_of_group (k, b)) = usage_sums_of b" and "b = filter (\<lambda>e. usage_key e = usage_key u) es"
proof -
  have "k \<in> fst ` set gs" using assms(3) by force
  then have "k \<in> group_key ` set es" using assms(2) by (simp add: groups_of_def)
  then obtain u where u: "u \<in> set es" "group_key u = k" by blast
  then have ok: "usage_record_ok u" using assms(1) by blast
  have "b = same_group k es"
    using assms(2,3) by (auto simp: groups_of_def)
  also have "\<dots> = filter (\<lambda>e. usage_key e = usage_key u) es"
    unfolding same_group_def u(2) [symmetric]
    by (rule filter_cong) (use group_key_iff [OF _ ok] assms(1) in auto)
  finally have b: "b = filter (\<lambda>e. usage_key e = usage_key u) es" .
  have "row_of_group (k, b) = \<lparr>rw_route = ur_route u, rw_role = usage_role_str (ur_role u), rw_sums = usage_sums_of b\<rparr>"
    using group_key_split [OF ok] by (simp add: row_of_group_def u(2))
  then show ?thesis using that [OF u _ _ b] by simp
qed

lemma sum_list_mset_eq: "mset xs = mset ys \<Longrightarrow> sum_list (map f xs) = (sum_list (map f ys) :: int)"
  by (metis mset_map sum_mset_sum_list)

abbreviation sorted_rows :: "(string \<times> usage_record list) list \<Rightarrow> usage_row list" where
  "sorted_rows gs \<equiv> sort_key row_key (map row_of_group gs)"

lemma row_keys_inj:
  assumes "\<forall>u \<in> set es. usage_record_ok u" and "groups_of es gs"
  shows "inj_on (\<lambda>x. row_key (row_of_group x)) (set gs)"
proof (rule inj_onI)
  fix x y assume x: "x \<in> set gs" and y: "y \<in> set gs" and eq: "row_key (row_of_group x) = row_key (row_of_group y)"
  obtain k b k' b' where xy: "x = (k, b)" "y = (k', b')" by (cases x; cases y)
  obtain u where u: "u \<in> set es" "group_key u = k" "row_key (row_of_group x) = usage_key u"
    using x unfolding xy(1) by (rule row_of_group_key [OF assms(1,2)])
  obtain v where v: "v \<in> set es" "group_key v = k'" "row_key (row_of_group y) = usage_key v"
    using y unfolding xy(2) by (rule row_of_group_key [OF assms(1,2)])
  have "k = k'" using u v eq assms(1) group_key_iff [of u v] by auto
  moreover have "map_ok gs" using assms(2) by (simp add: groups_of_def)
  ultimately show "x = y" using x y xy by (metis eq_key_imp_eq_value)
qed

lemma rows_sorted:
  assumes "\<forall>u \<in> set es. usage_record_ok u" and "groups_of es gs"
  shows "sorted_wrt (<) (map row_key (sorted_rows gs))"
proof -
  have d: "distinct (map row_key (map row_of_group gs))"
    using row_keys_inj [OF assms] assms(2) by (simp add: distinct_map comp_def groups_of_def)
  have "mset (map row_key (sorted_rows gs)) = mset (map row_key (map row_of_group gs))"
    by (simp only: mset_map mset_sort)
  from mset_eq_imp_distinct_iff [OF this] d have "distinct (map row_key (sorted_rows gs))" by (rule iffD2)
  with sorted_sort_key [of row_key "map row_of_group gs"] show ?thesis unfolding strict_sorted_iff by (rule conjI)
qed

lemma row_sums:
  assumes "\<forall>u \<in> set es. usage_record_ok u" and "groups_of es gs" and "row \<in> set (sorted_rows gs)"
  shows "row_key row \<in> usage_key ` set es" and "rw_sums row = usage_sums_of (filter (\<lambda>e. usage_key e = row_key row) es)"
proof -
  obtain k b where kb: "(k, b) \<in> set gs" "row = row_of_group (k, b)" using assms(3) by auto
  obtain u where u: "u \<in> set es" "row_key row = usage_key u" "rw_sums row = usage_sums_of b"
      "b = filter (\<lambda>e. usage_key e = usage_key u) es"
    using kb(1) unfolding kb(2) by (rule row_of_group_key [OF assms(1,2)])
  show "row_key row \<in> usage_key ` set es" unfolding u(2) using u(1) by (rule imageI)
  show "rw_sums row = usage_sums_of (filter (\<lambda>e. usage_key e = row_key row) es)"
    unfolding u(2) by (rule u(3) [unfolded u(4)])
qed

lemma rows_keys:
  assumes "\<forall>u \<in> set es. usage_record_ok u" and "groups_of es gs"
  shows "set (map row_key (sorted_rows gs)) = usage_key ` set es"
proof
  show "set (map row_key (sorted_rows gs)) \<subseteq> usage_key ` set es"
    unfolding list.set_map by (rule image_subsetI) (rule row_sums(1) [OF assms])
  show "usage_key ` set es \<subseteq> set (map row_key (sorted_rows gs))"
  proof (rule image_subsetI)
    fix u assume u: "u \<in> set es"
    then have "group_key u \<in> fst ` set gs" using assms(2) by (simp add: groups_of_def)
    then obtain b where kb: "(group_key u, b) \<in> set gs" by force
    obtain v where v: "v \<in> set es" "group_key v = group_key u" "row_key (row_of_group (group_key u, b)) = usage_key v"
      by (rule row_of_group_key [OF assms kb])
    have "usage_record_ok v" "usage_record_ok u" using v(1) u assms(1) by blast+
    then have key: "usage_key v = usage_key u" using v(2) by (rule group_key_iff [THEN iffD1])
    have "row_of_group (group_key u, b) \<in> set (sorted_rows gs)" using kb by auto
    then have "row_key (row_of_group (group_key u, b)) \<in> row_key ` set (sorted_rows gs)" by (rule imageI)
    then show "usage_key u \<in> set (map row_key (sorted_rows gs))" unfolding v(3) key list.set_map .
  qed
qed

lemma rows_total:
  assumes "\<forall>u \<in> set es. usage_record_ok u" and "groups_of es gs"
    and gf: "(g, f) \<in> set counters" and bound: "sum_list (map f es) \<le> 2 ^ 53"
  shows "sum_list (map (\<lambda>row. g (rw_sums row)) (sorted_rows gs)) = sum_list (map f es)"
proof -
  have nonneg: "\<forall>e \<in> set es. 0 \<le> f e" using counter_nonneg [OF gf] assms(1) by blast
  have part: "g (rw_sums (row_of_group x)) = sum_list (map f (snd x))" if mem: "x \<in> set gs" for x
  proof -
    obtain k b where x: "x = (k, b)" by (cases x)
    obtain u where u: "rw_sums (row_of_group (k, b)) = usage_sums_of b" "b = filter (\<lambda>e. usage_key e = usage_key u) es"
      using mem unfolding x by (rule row_of_group_key [OF assms(1,2)])
    have "sum_list (map f b) \<le> sum_list (map f es)"
      unfolding u(2) using nonneg by (induction es) auto
    then have "sum_of f b = sum_list (map f b)"
      using nonneg bound u(2) by (intro sum_of_exact) auto
    then show ?thesis using counter_sums [OF gf] u(1) x by simp
  qed
  have "mset (sorted_rows gs) = mset (map row_of_group gs)" by simp
  then have "sum_list (map (\<lambda>row. g (rw_sums row)) (sorted_rows gs)) = sum_list (map (\<lambda>x. g (rw_sums (row_of_group x))) gs)"
    using sum_list_mset_eq [of "sorted_rows gs" "map row_of_group gs" "\<lambda>row. g (rw_sums row)"] by (simp add: comp_def)
  also have "\<dots> = sum_list (map (\<lambda>x. sum_list (map f (snd x))) gs)"
    by (rule arg_cong [of _ _ sum_list]) (simp add: part)
  also have "\<dots> = sum_list (map f (concat (map snd gs)))"
    by (induction gs) simp_all
  also have "\<dots> = sum_list (map f es)"
    by (rule sum_list_mset_eq) (use assms(2) in \<open>simp add: groups_of_def\<close>)
  finally show ?thesis .
qed

text \<open>Usage records are never changed.\<close>

lemma applyMutation_usage:
  assumes "map_of (ct_usage t) i = Some u" and "applyMutation p m t = Inr t'"
  shows "map_of (ct_usage t') i = Some u"
proof (cases m)
  case (Transition_run run before after patch now)
  then have "transition_run run before after patch now t = Inr t'" using assms by (simp add: applyMutation_def)
  then have "ct_usage t' = ct_usage t" by (cases rule: transition_run_cases) simp
  then show ?thesis using assms(1) by simp
next
  case (Record_publication_attempt jb atMs outcome detail)
  then have "record_publication_attempt p jb atMs outcome detail t = Inr t'" using assms by (simp add: applyMutation_def)
  then show ?thesis using assms(1) by (cases rule: record_publication_attempt_cases) simp
next
  case (Claim_idempotency k b now x)
  then have "claim_idempotency k b now x t = Inr t'" using assms by (simp add: applyMutation_def)
  then show ?thesis using assms(1) by (cases rule: claim_idempotency_cases) simp_all
next
  case (Release_idempotency k b now)
  then have "release_idempotency k b now t = Inr t'" using assms by (simp add: applyMutation_def)
  then show ?thesis using assms(1) by (cases rule: release_idempotency_cases) simp_all
next
  case (Create_run v)
  then show ?thesis using assms by (auto simp: applyMutation_def create_run_def split: option.splits if_splits)
next
  case (Record_usage v)
  then show ?thesis
    using assms by (auto simp: applyMutation_def record_usage_def split: option.splits if_splits)
qed (use assms in \<open>auto simp: applyMutation_def split: option.splits\<close>)

lemma history_usage:
  "map_of (ct_usage t) i = Some u \<Longrightarrow> map_of (ct_usage (fold (control_step p) history t)) i = Some u"
proof (induction history arbitrary: t)
  case (Cons c cs)
  have "map_of (ct_usage (control_step p c t)) i = Some u"
    by (rule step_keeps [where Q = "\<lambda>_. True" and I = "\<lambda>t. map_of (ct_usage t) i = Some u"])
      (auto simp: Cons.prems list_all_iff claim_granted heartbeat_granted intro: applyMutation_usage)
  then show ?case using Cons.IH by simp
qed simp

text \<open>C19: Usage is counted once and summed exactly. In every state the store reaches, usage ids are distinct
  and a recorded entry never changes, so a replay is not counted twice. The aggregate has one row for each
  route and role in use, strictly sorted, each the sum of that scope's entries; and as long as a counter's
  exact total does not exceed 2^53, the total and the sum of the rows are that exact total.\<close>

theorem usage_counted_once:
  assumes "list_all clocked history"
  shows "let t = fold (control_step p) history empty_tables; us = map snd (ct_usage t);
      rws = fst (aggregateUsage t); total = snd (aggregateUsage t)
    in distinct (map ur_usageId us) \<and>
      (\<forall>i u more. map_of (ct_usage t) i = Some u \<longrightarrow> map_of (ct_usage (fold (control_step p) more t)) i = Some u) \<and>
      sorted_wrt (<) (map row_key rws) \<and> set (map row_key rws) = usage_key ` set us \<and>
      (\<forall>row \<in> set rws. rw_sums row = usage_sums_of (filter (\<lambda>e. usage_key e = row_key row) us)) \<and>
      (\<forall>(g, f) \<in> set counters. sum_list (map f us) \<le> 2 ^ 53 \<longrightarrow>
         g total = sum_list (map f us) \<and> sum_list (map (\<lambda>row. g (rw_sums row)) rws) = sum_list (map f us))"
proof -
  define t where "t = fold (control_step p) history empty_tables"
  define us where "us = map snd (ct_usage t)"
  have "tables_ok p t" unfolding t_def by (rule control.run_inv [OF assms empty_tables_ok])
  then have table: "table_ok usage_record_ok ur_usageId (ct_usage t)" by (simp add: tables_ok_def)
  have ids: "distinct (map ur_usageId us)"
    unfolding us_def table_values(2) [OF table] using table by (simp add: table_ok_def)
  have ok: "\<forall>u \<in> set us. usage_record_ok u" using table_values(1) [OF table] by (simp add: us_def list_all_iff)
  have groups: "groups_of us (usage_groups t)" unfolding us_def by (rule usage_groups_of)
  note row_facts = rows_sorted [OF ok groups] rows_keys [OF ok groups] row_sums(2) [OF ok groups] rows_total [OF ok groups]
  have total: "g (usage_sums_of (concat (map snd (usage_groups t)))) = sum_list (map f us)"
    if gf: "(g, f) \<in> set counters" and bound: "sum_list (map f us) \<le> 2 ^ 53" for g f
  proof -
    have m: "mset (concat (map snd (usage_groups t))) = mset us" using groups by (simp add: groups_of_def)
    have "\<forall>e \<in> set (concat (map snd (usage_groups t))). 0 \<le> f e"
      using counter_nonneg [OF gf] ok mset_eq_setD [OF m] by blast
    then show ?thesis
      using bound sum_list_mset_eq [OF m, of f] by (simp add: counter_sums [OF gf] sum_of_exact)
  qed
  show ?thesis
    unfolding Let_def t_def [symmetric] us_def [symmetric] aggregateUsage_def fst_conv snd_conv
    using ids history_usage row_facts total by blast
qed

section \<open>Witnesses\<close>

definition demo_run :: run_record where
  "demo_run = \<lparr>rn_runId = ''r'', rn_jobId = ''j'', rn_kind = Review, rn_state = Queued, rn_executorIdentity = ''e'',
     rn_attempt = 0, rn_headSha = '''', rn_configFingerprint = '''', rn_leaseOwner = '''', rn_leaseExpiresAtMs = 0,
     rn_resultHeadSha = '''', rn_failureReason = '''', rn_supersededByJobId = '''', rn_createdAtMs = 0,
     rn_updatedAtMs = 0, rn_startedAtMs = 0, rn_finishedAtMs = 0\<rparr>"

definition demo_tables :: control_tables where
  "demo_tables = empty_tables\<lparr>ct_runs := [(''r'', demo_run)]\<rparr>"

lemma half_not_whole: "\<not> whole (1 / 2)"
proof
  assume "whole (1 / 2)"
  then obtain i where "(1 / 2 :: rat) = of_int i" by blast
  then have "(1 :: rat) = of_int (2 * i)" by (simp add: field_simps)
  then have "1 = 2 * i" by (metis of_int_1 of_int_eq_iff)
  then show False by presburger
qed

theorem fractional_clock_bricks_restart_witness:
  "\<exists>t'. apply_batch (\<lambda>_. True) [Transition_run ''r'' Queued Failed None (Fin (1 / 2))] demo_tables = (Inr (), t') \<and>
    seedControlPlaneStore (\<lambda>_. True) (export_js (exportState
      (fold (control_step (\<lambda>_. True)) [Op_claim ''r'' ''w'' (Fin 8) (Fin 5)] t'))) = None"
proof -
  obtain t' where "transition_run ''r'' Queued Failed None (Fin (1 / 2)) demo_tables = Inr t'"
    by (simp add: transition_run_def demo_tables_def demo_run_def validateRunPatch_def Let_def)
  moreover have "getRun ''r'' demo_tables = Some demo_run" by (simp add: getRun_def demo_tables_def)
  moreover have "isTerminalState Failed" by simp
  ultimately show ?thesis
    using fractional_clock_bricks_restart [OF _ half_not_whole, of "''r''" Queued Failed None demo_tables t'
        demo_run "\<lambda>_. True"] unfolding Let_def by blast
qed

theorem runs_follow_lifecycle_witness:
  "\<exists>r'. getRun ''r'' (fold (control_step (\<lambda>_. True))
      [Op_apply [Transition_run ''r'' Queued Failed None (Fin 7)], Op_claim ''r'' ''w'' (Fin 8) (Fin 5)] demo_tables) = Some r' \<and>
    run_follows demo_run r' \<and> lifecycle_path Queued [(Queued, Failed)] (rn_state r')"
proof -
  have run: "map_of (ct_runs demo_tables) ''r'' = Some demo_run" by (simp add: demo_tables_def)
  have "committed_moves (\<lambda>_. True) ''r'' [Op_apply [Transition_run ''r'' Queued Failed None (Fin 7)],
      Op_claim ''r'' ''w'' (Fin 8) (Fin 5)] demo_tables = [(Queued, Failed)]"
    by (simp add: apply_batch_def applyMutation_def transition_run_def demo_tables_def demo_run_def
        validateRunPatch_def Let_def)
  moreover have "rn_state demo_run = Queued" by (simp add: demo_run_def)
  ultimately show ?thesis using runs_follow_lifecycle [OF run refl, of "\<lambda>_. True"] by metis
qed

definition demo_key :: idempotency_key where
  "demo_key = \<lparr>ik_key = ''k'', ik_binding = ''a'', ik_createdAtMs = 0, ik_expiresAtMs = 10\<rparr>"

theorem key_bound_to_one_work_witness:
  "\<exists>err. apply_batch (\<lambda>_. True) [Claim_idempotency ''k'' ''b'' (Fin 5) (Fin 0)]
     (empty_tables\<lparr>ct_idempotencyKeys := [(''k'', demo_key)]\<rparr>) =
   (Inl err, empty_tables\<lparr>ct_idempotencyKeys := [(''k'', demo_key)]\<rparr>)"
proof -
  let ?t = "empty_tables\<lparr>ct_idempotencyKeys := [(''k'', demo_key)]\<rparr>"
  have "getIdempotencyKey ''k'' ?t = Some demo_key" "list_all (op_leaves_key ''k'' demo_key) []"
    "?t = fold (control_step (\<lambda>_. True)) [] ?t"
    by (simp_all add: getIdempotencyKey_def)
  from key_bound_to_one_work [OF this] show ?thesis
    by (auto simp: demo_key_def unexpired_def)
qed

definition demo_publication :: publication_record where
  "demo_publication = \<lparr>pb_jobId = ''j'', pb_publicationState = Pub_pending, pb_destination = ''d'', pb_publicationId = '''',
     pb_attempt = 0, pb_lastError = '''', pb_resultHeadSha = '''', pb_resultPayload = ''{}'', pb_history = [],
     pb_createdAtMs = 0, pb_updatedAtMs = 0\<rparr>"

lemma demo_id_forms: "id_form ''j'' n \<longleftrightarrow> 1 \<le> n" "id_form ''d'' n \<longleftrightarrow> 1 \<le> n" "id_form ''{}'' n \<longleftrightarrow> 2 \<le> n"
  by (auto simp: id_form_def js_trim_def js_space_def control_char_def)

theorem publication_attempts_recorded_witness:
  "\<exists>t' r. apply_batch (\<lambda>_. True) (attempts ''j'' [(3, Out_published, '''')])
      (empty_tables\<lparr>ct_publications := [(''j'', demo_publication)]\<rparr>) = (Inr (), t') \<and>
    getPublication ''j'' t' = Some r \<and> pb_attempt r = 1"
proof -
  let ?t = "empty_tables\<lparr>ct_publications := [(''j'', demo_publication)]\<rparr>"
  have safe: "isSafeNonNegativeInteger (JNum (Fin 3)) = Some 3" "isSafeNonNegativeInteger (JNum (Fin 0)) = Some 0"
    "isSafeNonNegativeInteger (js_int 0) = Some 0" "isSafeNonNegativeInteger (js_int 1) = Some 1"
    by (simp_all add: isSafeNonNegativeInteger_def safe_int_def max_safe_integer_def js_int_def)
  have "\<exists>t'. apply_batch (\<lambda>_. True) (attempts ''j'' [(3, Out_published, '''')]) ?t = (Inr (), t')"
    by (simp add: attempts_def apply_batch_def applyMutation_def record_publication_attempt_def demo_publication_def
        validatePublicationHistoryEntry_def history_js_def safe decode_fields opt_form_def validatePublication_def
        publication_js_def demo_id_forms DETAIL_MAX_CHARS_def PUBLICATION_PAYLOAD_MAX_CHARS_def cap_history_def
        PUBLICATION_HISTORY_CAP_def entry_js_def js_publication_outcome_def js_publication_state_def Let_def)
  then obtain t' where t': "apply_batch (\<lambda>_. True) (attempts ''j'' [(3, Out_published, '''')]) ?t = (Inr (), t')" ..
  have "getPublication ''j'' ?t = Some demo_publication" "length (pb_history demo_publication) \<le> PUBLICATION_HISTORY_CAP"
    by (simp_all add: getPublication_def demo_publication_def)
  from publication_attempts_recorded [OF this t'] t' show ?thesis by (auto simp: demo_publication_def)
qed

definition demo_usage :: usage_record where
  "demo_usage = \<lparr>ur_usageId = ''j'', ur_runId = ''j'', ur_route = ''d'', ur_role = Role_primary, ur_requestCount = 1,
     ur_inputTokens = 5, ur_cacheReadTokens = 0, ur_cacheWriteTokens = 0, ur_outputTokens = 0, ur_costMicros = 0,
     ur_costProvenance = Unknown_cost, ur_recordedAtMs = 0\<rparr>"

theorem usage_counted_once_witness:
  "us_inputTokens (snd (aggregateUsage (fold (control_step (\<lambda>_. True))
     [Op_apply [Record_usage (usage_js demo_usage), Record_usage (usage_js demo_usage)]] empty_tables))) = 5"
proof -
  have "usage_record_ok demo_usage"
    by (simp add: usage_record_ok_def demo_usage_def demo_id_forms counter_def max_safe_integer_def)
  then have v: "validateUsage (usage_js demo_usage) = Some demo_usage" by (rule validate_usage_js)
  have us: "map snd (ct_usage (fold (control_step (\<lambda>_. True))
      [Op_apply [Record_usage (usage_js demo_usage), Record_usage (usage_js demo_usage)]] empty_tables)) = [demo_usage]"
    by (simp add: apply_batch_def applyMutation_def record_usage_def v empty_tables_def usageRecordsEqual_def)
  have "list_all clocked [Op_apply [Record_usage (usage_js demo_usage), Record_usage (usage_js demo_usage)]]" by simp
  from usage_counted_once [OF this, of "\<lambda>_. True"] show ?thesis
    unfolding Let_def us by (auto simp: counters_def demo_usage_def)
qed

end
