(* ===== verification/Spec2Isabelle.thy ===== *)
theory Spec2Isabelle
  imports Queue_Compaction Scheduler_Properties Model_Gateway_Properties Durable_Rate_Limit_Properties
    Diff_Priority_Properties Partition_Properties Partition_Merge
    Governor_Properties Forge_Budget Control_Properties
begin

text \<open>
  A model of the deterministic core of the review action and its operator controller: how forge
  events become review jobs, how the durable queue runs them and gates what is published, and the
  two budgets that bound what model work may cost.

  \<^bold>\<open>The program's parts.\<close> A canonical forge event becomes a review job with a generation id
  (\<^verbatim>\<open>src/jobs\<close>). The controller (\<^verbatim>\<open>src/queue/scheduler.ts\<close>) keeps one record per job, lets newer
  generations of a pull request supersede older ones, runs an executor per started job, publishes
  results through a publisher, and writes a snapshot of its records through a store
  (\<^verbatim>\<open>src/queue/store.ts\<close>) that crash recovery and compaction (\<^verbatim>\<open>src/queue/compaction.ts\<close>) read. The
  model gateway (\<^verbatim>\<open>src/gateway\<close>) takes a worker's model call, verifies its capability token, reserves the
  run's budget, has the credential broker and the provider answer, checks the answer and settles.
  Every model request of a run is admitted by the inference governor (\<^verbatim>\<open>src/model/governor.ts\<close>), which
  bounds how many are in flight and orders those that wait. The follow-up planner (\<^verbatim>\<open>src/followup\<close>) asks a rate-limit store (\<^verbatim>\<open>src/followup/rate-limit.ts\<close>, \<^verbatim>\<open>src/followup/durable-rate-limit.ts\<close>)
  before it spends model work on a question. What a reviewer model gets to read is cut to byte budgets
  by \<^verbatim>\<open>src/corpus/truncate.ts\<close> and \<^verbatim>\<open>src/corpus/diff-priority.ts\<close>. A pull request too large for one run
  is planned into parts, whose outcomes and findings are folded back into one (\<^verbatim>\<open>src/partition\<close>). What
  the controller must know after a restart beside the queue - installations, adopted repositories, runs
  with their leases, idempotency keys, publications, usage - is in the control-plane store
  (\<^verbatim>\<open>src/state\<close>), whose runs follow the queue's transition table.

  \<^bold>\<open>The theories.\<close>
  \<^item> \<open>Js_Prelude\<close>: JavaScript numbers, untrusted values, strings, the insertion-ordered map (interface
    \<open>js_map\<close>, provided by association lists), computations with state and exceptions (interface
    \<open>state_contract\<close>).
  \<^item> \<open>Jobs\<close>: \<^verbatim>\<open>src/jobs/types.ts\<close>, \<^verbatim>\<open>generation.ts\<close>, \<^verbatim>\<open>schedule.ts\<close>, \<^verbatim>\<open>staleness.ts\<close> and the event contract
    of \<^verbatim>\<open>src/events/types.ts\<close>. Lemmas: the generation id separates what must be separate, the builder
    and the scheduling policy agree with the exact-head rules.
  \<^item> \<open>Queue_Types\<close>: \<^verbatim>\<open>src/queue/types.ts\<close>, the states, the transition table and the path search.
  \<^item> \<open>Queue_Store\<close>: \<^verbatim>\<open>src/queue/store.ts\<close>, parser and serialiser, the interface \<open>queue_store\<close> with the
    in-memory and the JSON-file store as its providers, recovery. Lemmas: the round trip of snapshots,
    crash safety of the file against every failed operation and every crash, and the one case it does
    not cover (a short write, which the code does not notice), what recovery does to every record.
  \<^item> \<open>Queue_Compaction\<close>: \<^verbatim>\<open>src/queue/compaction.ts\<close>.
  \<^item> \<open>Scheduler\<close>: every method of \<open>ReviewQueueController\<close> in \<^verbatim>\<open>src/queue/scheduler.ts\<close>. The class fields are
    the record \<open>qstate\<close>; promise continuations are operations of their own. \<open>Scheduler_Invariants\<close>: the
    invariant every operation keeps. \<open>Scheduler_Properties\<close>: the properties of reachable states, of
    single operations and of histories; for the publication gate the operations are values
    (\<open>queue_call\<close>) and a shutdown is shown to be the sequence of the calls of its drain.
  \<^item> \<open>Gateway_Budget\<close>: \<open>InMemoryBudgetLedger\<close> of \<^verbatim>\<open>src/gateway/budget.ts\<close> and the budget types and
    validators of \<^verbatim>\<open>src/gateway/types.ts\<close>, with the properties of a ledger's whole life.
  \<^item> \<open>Base64\<close>, \<open>Gateway_Capability\<close>: \<^verbatim>\<open>src/gateway/capability.ts\<close>, minting and verifying the run-scoped
    token. Lemmas: what is minted verifies as itself and nothing else; the MAC input determines every
    claim, so without a forged tag no accepted token was not minted.
  \<^item> \<open>Gateway_Sanitize\<close>: the content gate of \<^verbatim>\<open>src/gateway/sanitize.ts\<close> with \<open>containsKnownSecret\<close> of
    \<^verbatim>\<open>src/context/redact.ts\<close>, and usage records with \<open>validateUsage\<close> of \<^verbatim>\<open>src/state/types.ts\<close>.
  \<^item> \<open>Model_Gateway\<close>: \<open>createModelGateway\<close> and \<open>call\<close> of \<^verbatim>\<open>src/gateway/gateway.ts\<close> as a step function on
    the ledger, the dispatches in flight and the answers given. \<open>Model_Gateway_Properties\<close>: the invariant
    of every history (interface \<open>event_system\<close>) and the properties that follow from it and from the
    ledger's, the token's and the gate's.
  \<^item> \<open>Governor\<close>: the run-wide inference governor of \<^verbatim>\<open>src/model/governor.ts\<close> as a state with one function
    per entry point, its pump with the live iteration over the queue, and the telemetry summary of
    \<^verbatim>\<open>src/model/telemetry.ts\<close>. \<open>Governor_Properties\<close>: the invariant of every history, the order of
    service, that no call waits for ever without deadlines, and the defect of the pump with them.
  \<^item> \<open>Rate_Limit\<close>: the store seam, the in-memory store and \<open>consumeFollowUpBudget\<close> of
    \<^verbatim>\<open>src/followup/rate-limit.ts\<close>; the interface \<open>rate_limit_store\<close>, in which the sliding-window bound is
    proved once, and the in-memory store as its provider.
  \<^item> \<open>Durable_Rate_Limit\<close>: every method of \<open>DurableRateLimitStore\<close>, its ledger file and its lock file.
    \<open>Durable_Rate_Limit_Properties\<close>: the ledger's well-formedness, what each operation does to the file,
    and the properties.
  \<^item> \<open>Comment_Authority\<close>: \<^verbatim>\<open>src/precheck/comment-authority.ts\<close> and the state derivations of
    \<^verbatim>\<open>src/platform/pr.ts\<close>. Lemmas: the decision is that of a scale of access levels (\<open>access_level\<close>),
    on which the bar is triage.
  \<^item> \<open>Followup_Text\<close>: the intent classifier of \<^verbatim>\<open>src/followup/classify.ts\<close> with the marker, command and
    identity tests it uses, \<^verbatim>\<open>src/followup/reply.ts\<close> and the byte cut of an answer. \<open>Followup\<close>:
    \<open>planFollowUp\<close> and \<open>runFollowUpEvent\<close> (\<^verbatim>\<open>src/followup/plan.ts\<close>, \<^verbatim>\<open>controller.ts\<close>).
    \<open>Followup_Properties\<close>: model work only behind every gate, replies that never become work, the
    bound on model calls from the contract of the rate-limit store. \<open>Forge_Budget\<close>:
    \<^verbatim>\<open>src/followup/forge-budget.ts\<close>, where the thread itself is the budget.
  \<^item> \<open>Utf8\<close>, \<open>Truncate\<close>: \<open>decodeUtf8Ignore\<close> and \<open>truncateClean\<close> of \<^verbatim>\<open>src/corpus/truncate.ts\<close> over bytes
    (8-bit words; the decoder's arithmetic on 32-bit words). Lemmas: the decoder accepts exactly the
    encodings of scalar values; a cut keeps the source up to the last line end that fits, less the
    lines that make room for the closing of an open fence.
  \<^item> \<open>Diff_Priority\<close>: \<^verbatim>\<open>src/corpus/diff-priority.ts\<close>, the chunks of a diff, their ranks, water filling
    and \<open>prioritizeDiff\<close>. \<open>Diff_Priority_Properties\<close>: the budget, and that every chunk is shipped, has
    one of the 200 printed manifest lines, or is counted in the line after them.
  \<^item> \<open>Partition\<close>: \<^verbatim>\<open>src/partition/types.ts\<close>, \<^verbatim>\<open>plan.ts\<close> and \<^verbatim>\<open>coverage.ts\<close>; it uses the chunks and ranks of
    \<open>Diff_Priority\<close>. \<open>Partition_Properties\<close>: every file is assigned once, the coverage verdict is exact,
    and planner and verdict together. \<open>Partition_Merge\<close>: \<^verbatim>\<open>src/partition/merge.ts\<close>, equal to a reference
    definition.

  \<^item> \<open>Control_State\<close>: the record types and validators of \<^verbatim>\<open>src/state/types.ts\<close>. \<open>Control_Store\<close>:
    \<open>InMemoryControlPlaneStore\<close> of \<^verbatim>\<open>src/state/store.ts\<close>, every mutation, the transactional batches, the
    leases, the usage aggregate, the export and the restart. \<open>Control_Properties\<close>: the invariant of the
    tables over every history (interface \<open>event_system\<close>), that a restart loses nothing, that the state
    of a run is the result of its committed transitions, each legal, disjoint leases, keys bound to one piece of work, usage counted once, and the defect of a
    transition with a fractional clock.

  \<^bold>\<open>Parameters.\<close> SHA-256 is a function argument (\<open>sha\<close>); properties of the ledger assume that it returns
  64 lower-case hexadecimal digits, nothing else of it; so is the keyed HMAC (\<open>mac\<close>), of which the
  theorems on authority assume that the tag presented is one the controller signed. The failures of the file system, and for the
  durable rate limit also what other processes do to the disk between two file operations, are
  arguments (\<open>io_faults\<close>, with the short write among them, and \<open>world\<close>; the durable rate limit writes
  in a loop, so a short write is none of its failures). The test of a publication's payload (its JSON encoding and the
  redactor's secret shapes) is the argument \<open>payload_ok\<close>, of which nothing is assumed. Executors, publishers, the credential broker and the
  provider are steps of the environment: they may settle in any order, with any result, or never. Clocks are arguments.

  \<^bold>\<open>Bounds and termination.\<close> Numbers are exact: a JavaScript number is a rational, NaN or an infinity, and
  rounding of doubles is not modelled (the code's instants, counters and caps are safe integers), except
  in the sums of the usage aggregate, which may leave the exact range.
  There is no fuel: the loops are structural recursions, or bounded by an argument of the code (the
  lock's attempts, the drain loop's deadline), and that the controller's operations return is the
  theorem \<open>operations_return\<close>. Strings are sequences of code units below 256, except in the corpus
  and follow-up theories, where text is a list of Unicode code points and bytes are words, and for what a capability token decodes to. JSON text is modelled by
  its value: \<open>JSON.parse\<close> after \<open>JSON.stringify\<close> is the identity on the plain values written here, and a
  text that is not JSON is a content of its own.

  \<^bold>\<open>Not modelled.\<close> The forges, executors, HTTP servers and process entry points, which are input and
  output; the review engine, the prompts, the model client and the passes over model output; the
  remaining subsystems of \<^verbatim>\<open>src/\<close> (classification, enforcement, corpus assembly,
  routing, requirements, publishing), which do not interact with the parts above except through the
  executor and publisher seams. Of the gateway: the parsing of endpoint URLs and extra headers at
  construction, the masked copies of a provider's raw body and of a transport failure, and the fixed
  reason strings of refusals. Of the control plane: the PostgreSQL back end, which is SQL run by a service.
  Of the follow-up lane: the text of the prompt. Of the governor: the parsing of its cap's environment variable.
\<close>

end
